(* ===== verification/Prelude.thy ===== *)
theory Prelude
  imports Main "HOL-Library.AList" "HOL-Library.List_Lexorder" "HOL-Library.Char_ord"
begin

text \<open>
  Shared vocabulary of the development.

  \<^item> Python's \<open>str\<close> is modelled by its UTF-8 bytes, as a HOL \<open>string\<close>. Equality, the
    lexicographic order of code points and \<open>startswith\<close> agree with equality, the byte order
    and the prefix order of the encodings, so identities compare as they do in the program.
  \<^item> \<open>bytes\<close> is a list of bytes, the same HOL type.
  \<^item> An exception is a value of \<open>kernel_error\<close>; an operation that may raise returns a sum.
  \<^item> An \<open>OrderedDict\<close> (and a \<open>dict\<close> whose order matters) is an association list without
    repeated keys, oldest entry first.
  \<^item> Revision numbers and budgets are natural numbers: the program only produces
    non-negative revisions, and every budget below 1 is refused as 0 is.
\<close>

section \<open>Results\<close>

type_synonym bytes = string

text \<open>
  The exceptions of \<open>universal_cell.py\<close> (\<open>CellKernelError\<close> and its subclasses) and the
  Python exceptions the modelled code raises, each with its message. \<open>CommitRefused\<close> and
  \<open>InvalidCell\<close> are both caught by \<open>except InvalidCell\<close>.
\<close>

datatype kernel_error =
    Conflict string
  | InvalidCell string
  | CommitRefused string
  | ReadOnlyJournalError string
  | NoMatch string
  | MatchBudgetExceeded string
  | KeyError string
  | TypeError string
  | ValueError string
  | IntegrityError string
  | Injected string
  | Exhausted string

type_synonym 'a result = "kernel_error + 'a"

named_theorems result_simps \<open>unfolding of the error monad\<close>

definition rbind :: "'e + 'a \<Rightarrow> ('a \<Rightarrow> 'e + 'b) \<Rightarrow> 'e + 'b" where
  "rbind m f = (case m of Inl e \<Rightarrow> Inl e | Inr x \<Rightarrow> f x)"

text \<open>\<open>require ok e\<close> is \<open>if not ok: raise e\<close>.\<close>

definition require :: "bool \<Rightarrow> 'e \<Rightarrow> 'e + unit" where
  "require ok e = (if ok then Inr () else Inl e)"

fun rmap :: "('a \<Rightarrow> 'e + 'b) \<Rightarrow> 'a list \<Rightarrow> 'e + 'b list" where
  "rmap f [] = Inr []"
| "rmap f (x # xs) = rbind (f x) (\<lambda>y. rbind (rmap f xs) (\<lambda>ys. Inr (y # ys)))"

fun is_ok :: "'e + 'a \<Rightarrow> bool" where
  "is_ok (Inl _) = False"
| "is_ok (Inr _) = True"

lemma rbind_simps [simp, result_simps]:
  "rbind (Inl e) f = Inl e"
  "rbind (Inr x) f = f x"
  by (simp_all add: rbind_def)

lemma rbind_Inr_iff: "rbind m f = Inr y \<longleftrightarrow> (\<exists>x. m = Inr x \<and> f x = Inr y)"
  by (cases m) simp_all

lemma rbind_Inr_E [elim!]:
  assumes "rbind m f = Inr y"
  obtains x where "m = Inr x" "f x = Inr y"
  using assms by (auto simp: rbind_Inr_iff)

lemma rbind_assoc: "rbind (rbind m f) g = rbind m (\<lambda>x. rbind (f x) g)"
  by (cases m) simp_all

lemma require_True [simp]: "require True e = Inr ()"
  by (simp add: require_def)

lemma require_False [simp]: "require False e = Inl e"
  by (simp add: require_def)

lemma require_Inr_iff [simp, result_simps]: "require ok e = Inr u \<longleftrightarrow> ok"
  by (simp add: require_def)

lemma rmap_Inr_length: "rmap f xs = Inr ys \<Longrightarrow> length ys = length xs"
  by (induction xs arbitrary: ys) auto

lemma rmap_Inr_iff:
  "rmap f xs = Inr ys \<longleftrightarrow> list_all2 (\<lambda>x y. f x = Inr y) xs ys"
  by (induction xs arbitrary: ys)
    (auto simp: rbind_Inr_iff list_all2_Cons1)

lemma rmap_set: "rmap f xs = Inr ys \<Longrightarrow> y \<in> set ys \<longleftrightarrow> (\<exists>x \<in> set xs. f x = Inr y)"
proof (induction xs arbitrary: ys)
  case (Cons x xs)
  then obtain z zs where "f x = Inr z" "rmap f xs = Inr zs" "ys = z # zs" by (auto simp: rbind_Inr_iff)
  with Cons.IH [of zs] show ?case by auto
qed simp

lemma rmap_each: "rmap f xs = Inr ys \<Longrightarrow> x \<in> set xs \<Longrightarrow> \<exists>y. f x = Inr y"
  by (induction xs arbitrary: ys) (auto simp: rbind_Inr_iff)

lemma rmap_append: "rmap f (xs @ ys) = rbind (rmap f xs) (\<lambda>us. rbind (rmap f ys) (\<lambda>vs. Inr (us @ vs)))"
  by (induction xs) (auto simp: rbind_def split: sum.splits)

lemma rmap_pure: "(\<And>x. x \<in> set xs \<Longrightarrow> f x = Inr (g x)) \<Longrightarrow> rmap f xs = Inr (map g xs)"
  by (induction xs) auto

lemma rmap_fail:
  assumes "\<And>x. x \<in> set xs \<Longrightarrow> f x = Inl e \<or> (\<exists>y. f x = Inr y)" "\<exists>x \<in> set xs. f x = Inl e"
  shows "rmap f xs = Inl e"
  using assms
proof (induction xs)
  case (Cons a xs)
  show ?case
  proof (cases "f a")
    case (Inl x)
    then show ?thesis using Cons.prems(1) [of a] by simp
  next
    case (Inr y)
    then have "\<exists>x \<in> set xs. f x = Inl e" using Cons.prems(2) by auto
    then have "rmap f xs = Inl e" using Cons.prems(1) by (intro Cons.IH) auto
    with Inr show ?thesis by simp
  qed
qed simp

lemma rmap_cong [fundef_cong]:
  "xs = ys \<Longrightarrow> (\<And>x. x \<in> set ys \<Longrightarrow> f x = g x) \<Longrightarrow> rmap f xs = rmap g ys"
  by (induction xs arbitrary: ys) auto

lemma is_ok_iff: "is_ok r \<longleftrightarrow> (\<exists>x. r = Inr x)"
  by (cases r) simp_all

section \<open>Insertion-ordered dictionaries\<close>

text \<open>\<open>dict.fromkeys(xs)\<close>: the elements without repetition, first occurrence kept.\<close>

fun dedup :: "'a list \<Rightarrow> 'a list" where
  "dedup [] = []"
| "dedup (x # xs) = x # removeAll x (dedup xs)"

lemma set_dedup [simp]: "set (dedup xs) = set xs"
  by (induction xs) auto

lemma distinct_dedup [simp]: "distinct (dedup xs)"
  by (induction xs) (auto simp: distinct_removeAll)

lemma dedup_distinct: "distinct xs \<Longrightarrow> dedup xs = xs"
  by (induction xs) (auto simp: removeAll_id)

text \<open>\<open>move_to_end\<close>, assignment followed by \<open>move_to_end\<close>, and the trimming loop.\<close>

definition od_touch :: "'k \<Rightarrow> ('k \<times> 'v) list \<Rightarrow> ('k \<times> 'v) list" where
  "od_touch k al = (case map_of al k of None \<Rightarrow> al | Some v \<Rightarrow> AList.delete k al @ [(k, v)])"

definition od_put :: "'k \<Rightarrow> 'v \<Rightarrow> ('k \<times> 'v) list \<Rightarrow> ('k \<times> 'v) list" where
  "od_put k v al = AList.delete k al @ [(k, v)]"

fun od_trim :: "nat \<Rightarrow> ('k \<times> 'v) list \<Rightarrow> ('k \<times> 'v) list" where
  "od_trim n [] = []"
| "od_trim n (e # al) = (if n < length (e # al) then od_trim n al else e # al)"

abbreviation keys_distinct :: "('k \<times> 'v) list \<Rightarrow> bool" where
  "keys_distinct al \<equiv> distinct (map fst al)"

lemma map_of_od_put [simp]: "map_of (od_put k v al) = (map_of al)(k \<mapsto> v)"
  by (rule ext) (auto simp: od_put_def map_of_append map_add_def AList.delete_conv split: option.splits)

lemma map_of_od_touch [simp]: "map_of (od_touch k al) = map_of al"
proof (cases "map_of al k")
  case None
  then show ?thesis by (simp add: od_touch_def)
next
  case (Some v)
  then show ?thesis
    by (auto simp: od_touch_def AList.delete_conv map_add_def fun_eq_iff split: option.splits)
qed

lemma keys_distinct_delete: "keys_distinct al \<Longrightarrow> keys_distinct (AList.delete k al)"
  by (rule AList.distinct_delete)

lemma keys_distinct_od_put [simp]: "keys_distinct al \<Longrightarrow> keys_distinct (od_put k v al)"
  by (auto simp: od_put_def AList.delete_keys distinct_removeAll)

lemma keys_distinct_od_touch [simp]: "keys_distinct al \<Longrightarrow> keys_distinct (od_touch k al)"
  by (auto simp: od_touch_def AList.delete_keys distinct_removeAll split: option.splits)

lemma od_trim_drop: "od_trim n al = drop (length al - n) al"
  by (induction n al rule: od_trim.induct) (auto simp: Suc_diff_le)

lemma length_od_trim [simp]: "length (od_trim n al) = min n (length al)"
  by (simp add: od_trim_drop)

lemma set_od_trim: "set (od_trim n al) \<subseteq> set al"
  by (simp add: od_trim_drop set_drop_subset)

lemma keys_distinct_od_trim [simp]: "keys_distinct al \<Longrightarrow> keys_distinct (od_trim n al)"
  by (simp add: od_trim_drop drop_map [symmetric])

lemma map_of_od_trim: "map_of (od_trim n al) k = Some v \<Longrightarrow> keys_distinct al \<Longrightarrow> map_of al k = Some v"
  using set_od_trim [of n al] by (metis keys_distinct_od_trim map_of_is_SomeI map_of_SomeD subsetD)

text \<open>A cache whose every entry satisfies a property, and the operations that keep it so.\<close>

definition entries_ok :: "('k \<Rightarrow> 'v \<Rightarrow> bool) \<Rightarrow> ('k \<times> 'v) list \<Rightarrow> bool" where
  "entries_ok P al \<longleftrightarrow> keys_distinct al \<and> (\<forall>k v. map_of al k = Some v \<longrightarrow> P k v)"

named_theorems entries_intros \<open>operations that keep a cache sound\<close>

lemma entries_okD: "entries_ok P al \<Longrightarrow> map_of al k = Some v \<Longrightarrow> P k v"
  by (simp add: entries_ok_def)

lemma entries_ok_distinct: "entries_ok P al \<Longrightarrow> keys_distinct al"
  by (simp add: entries_ok_def)

lemma entries_ok_Nil [simp, entries_intros]: "entries_ok P []"
  by (simp add: entries_ok_def)

lemma entries_ok_put [entries_intros]: "entries_ok P al \<Longrightarrow> P k v \<Longrightarrow> entries_ok P (od_put k v al)"
  unfolding entries_ok_def by (simp del: map_append)

lemma entries_ok_touch [entries_intros]: "entries_ok P al \<Longrightarrow> entries_ok P (od_touch k al)"
  unfolding entries_ok_def by simp

lemma entries_ok_trim [entries_intros]: "entries_ok P al \<Longrightarrow> entries_ok P (od_trim n al)"
  unfolding entries_ok_def using map_of_od_trim [of n al] by (auto simp del: length_od_trim)

lemma entries_ok_update [entries_intros]: "entries_ok P al \<Longrightarrow> P k v \<Longrightarrow> entries_ok P (AList.update k v al)"
  unfolding entries_ok_def by (auto simp: AList.update_conv' intro: AList.distinct_update)

lemma entries_ok_mono: "entries_ok P al \<Longrightarrow> (\<And>k v. P k v \<Longrightarrow> Q k v) \<Longrightarrow> entries_ok Q al"
  by (auto simp: entries_ok_def)

lemma entries_ok_filter [entries_intros]: "entries_ok P al \<Longrightarrow> entries_ok P (filter q al)"
  unfolding entries_ok_def
  by (auto simp: distinct_map_filter dest!: map_of_SomeD)

lemma entries_ok_delete [entries_intros]: "entries_ok P al \<Longrightarrow> entries_ok P (AList.delete k al)"
  unfolding AList.delete_eq by (rule entries_ok_filter)

section \<open>Strings\<close>

definition starts_with :: "string \<Rightarrow> string \<Rightarrow> bool" where
  "starts_with s p \<longleftrightarrow> take (length p) s = p"

lemma starts_with_append [simp]: "starts_with (p @ q) p"
  by (simp add: starts_with_def)

lemma starts_with_iff: "starts_with s p \<longleftrightarrow> (\<exists>q. s = p @ q)"
  by (metis append_take_drop_id starts_with_append starts_with_def)

text \<open>The identities under \<open>root:\<close> are one interval of the byte order.\<close>

lemma colon_semicolon: "(CHR '':'' :: char) < c \<Longrightarrow> c < CHR '';'' \<Longrightarrow> False"
  by (simp add: less_char_def)

lemma prefix_interval:
  "root @ '':'' \<le> k \<and> k < root @ '';'' \<longleftrightarrow> starts_with k (root @ '':'')"
proof (induction root arbitrary: k)
  case Nil
  show ?case by (cases k) (auto simp: starts_with_def dest: colon_semicolon)
next
  case (Cons a root)
  show ?case
  proof (cases k)
    case (Cons b ks)
    show ?thesis
    proof (cases "a = b")
      case True
      have "a # root @ '':'' \<le> b # ks \<and> b # ks < a # root @ '';'' \<longleftrightarrow> root @ '':'' \<le> ks \<and> ks < root @ '';''"
        using True by simp
      with Cons.IH [of ks] True local.Cons show ?thesis by (simp add: starts_with_def)
    next
      case False
      then have "\<not> (a # root @ '':'' \<le> b # ks \<and> b # ks < a # root @ '';'')"
        using less_asym by simp blast
      with False local.Cons show ?thesis by (simp add: starts_with_def)
    qed
  qed (simp add: starts_with_def)
qed

text \<open>\<open>len\<close> of a \<open>str\<close>: the bytes that are not UTF-8 continuation bytes.\<close>

definition continuation_byte :: "char \<Rightarrow> bool" where
  "continuation_byte c \<longleftrightarrow> 128 \<le> (of_char c :: nat) \<and> (of_char c :: nat) < 192"

definition py_len :: "string \<Rightarrow> nat" where
  "py_len s = length (filter (\<lambda>c. \<not> continuation_byte c) s)"

text \<open>\<open>str(n)\<close> of a natural number.\<close>

fun show_nat :: "nat \<Rightarrow> string" where
  "show_nat n =
     (if n < 10 then [char_of (48 + n)] else show_nat (n div 10) @ [char_of (48 + n mod 10)])"

declare show_nat.simps [simp del]

lemma show_nat_nonempty [simp]: "show_nat n \<noteq> []"
  by (subst show_nat.simps) simp

lemma digit_char_inj:
  assumes "m < 10" "n < 10" "(char_of (48 + m) :: char) = char_of (48 + n)"
  shows "m = (n::nat)"
proof -
  have "(of_char (char_of (48 + m) :: char) :: nat) = of_char (char_of (48 + n) :: char)"
    using assms(3) by (rule arg_cong)
  then have "(48 + m) mod 256 = (48 + n) mod 256"
    by simp
  with assms show ?thesis by simp
qed

lemma show_nat_inj: "show_nat m = show_nat n \<Longrightarrow> m = n"
proof (induction m arbitrary: n rule: show_nat.induct)
  case (1 m)
  show ?case
  proof (cases "m < 10"; cases "n < 10")
    assume "m < 10" "n < 10"
    with "1.prems" show ?thesis
      by (auto simp: show_nat.simps [of m] show_nat.simps [of n] intro: digit_char_inj)
  next
    assume "m < 10" "\<not> n < 10"
    with "1.prems" show ?thesis
      by (auto simp: show_nat.simps [of m] show_nat.simps [of n] Cons_eq_append_conv)
  next
    assume "\<not> m < 10" "n < 10"
    with "1.prems" show ?thesis
      by (auto simp: show_nat.simps [of m] show_nat.simps [of n] append_eq_Cons_conv)
  next
    assume big: "\<not> m < 10" "\<not> n < 10"
    with "1.prems" have "show_nat (m div 10) = show_nat (n div 10)"
      and "(char_of (48 + m mod 10) :: char) = char_of (48 + n mod 10)"
      by (auto simp: show_nat.simps [of m] show_nat.simps [of n])
    with big "1.IH" have "m div 10 = n div 10" "m mod 10 = n mod 10"
      by (auto intro: digit_char_inj)
    then show ?thesis by (metis div_mult_mod_eq)
  qed
qed

end
