(* ===== verification/CommitIntent.thy ===== *)
theory CommitIntent
  imports Prelude
begin

text \<open>
  \<open>01.APP/nodelang/commit_intent.py\<close>: the gate that decides whether a graph revision may be
  published. The four context variables are the record \<open>ctx\<close>; a context manager takes the
  body it wraps as a state transformer and resets its variable when the body ends, whether the
  body returned or raised. Client programs (\<open>act\<close>) nest these scopes arbitrarily.
\<close>

section \<open>Declarations\<close>

definition USER_ACTION :: string where "USER_ACTION = ''user_action''"
definition AGENT_WORK :: string where "AGENT_WORK = ''agent_work''"
definition MIGRATION :: string where "MIGRATION = ''migration''"

definition INTENTS :: "string list" where
  "INTENTS = [USER_ACTION, AGENT_WORK, MIGRATION]"

definition OPERATIONAL_KINDS :: "string list" where
  "OPERATIONAL_KINDS =
     [''heartbeat'', ''lease-renewal'', ''browser-session'', ''runtime-ownership'', ''receipt'',
      ''permit'', ''signal'', ''presence'', ''activity'']"

record commit_declaration =
  intent :: string
  actor :: string
  reason :: string
  work :: "string option"

text \<open>
  \<open>not s.strip()\<close>: only Unicode white space (ASCII 9-13, 28-32, U+0085, U+00A0, U+1680,
  U+2000-U+200A, U+2028, U+2029, U+202F, U+205F, U+3000), read off the UTF-8 bytes.
\<close>

fun blank_codes :: "nat list \<Rightarrow> bool" where
  "blank_codes [] = True"
| "blank_codes (a # r) =
     (if (9 \<le> a \<and> a \<le> 13) \<or> (28 \<le> a \<and> a \<le> 32) then blank_codes r
      else case r of
        [] \<Rightarrow> False
      | b # r2 \<Rightarrow>
          if a = 194 then (b = 133 \<or> b = 160) \<and> blank_codes r2
          else case r2 of
            [] \<Rightarrow> False
          | c # r3 \<Rightarrow>
              ((a = 225 \<and> b = 154 \<and> c = 128) \<or>
               (a = 226 \<and> b = 128 \<and> (128 \<le> c \<and> c \<le> 138 \<or> c = 168 \<or> c = 169 \<or> c = 175)) \<or>
               (a = 226 \<and> b = 129 \<and> c = 159) \<or>
               (a = 227 \<and> b = 128 \<and> c = 128)) \<and> blank_codes r3)"

definition blank :: "string \<Rightarrow> bool" where
  "blank s = blank_codes (map of_char s)"

definition make_declaration ::
  "string \<Rightarrow> string \<Rightarrow> string \<Rightarrow> string option \<Rightarrow> commit_declaration result" where
  "make_declaration i a r w =
     (if i \<notin> set INTENTS
      then Inl (ValueError ''graph commit intent is not in the closed set'')
      else if blank a \<or> 512 < py_len a then Inl (ValueError ''graph commit actor is invalid'')
      else if blank r \<or> 512 < py_len r then Inl (ValueError ''graph commit reason is invalid'')
      else if (case w of None \<Rightarrow> False | Some x \<Rightarrow> x = [] \<or> 512 < py_len x)
      then Inl (ValueError ''graph commit work is invalid'')
      else Inr \<lparr>intent = i, actor = a, reason = r, work = w\<rparr>)"

section \<open>The context and its scopes\<close>

record ctx =
  ctx_declaration :: "commit_declaration option"
  ctx_request :: "commit_declaration option option"
  ctx_operational :: "string option"
  ctx_refusals :: "string list option"

definition idle_ctx :: ctx where
  "idle_ctx = \<lparr>ctx_declaration = None, ctx_request = None, ctx_operational = None,
     ctx_refusals = None\<rparr>"

type_synonym 'a body = "ctx \<Rightarrow> ctx \<times> 'a result"

definition declare_scope ::
  "string \<Rightarrow> string \<Rightarrow> string \<Rightarrow> string option \<Rightarrow> (commit_declaration \<Rightarrow> 'a body) \<Rightarrow> 'a body" where
  "declare_scope i a r w body c =
     (case make_declaration i a r w of
        Inl e \<Rightarrow> (c, Inl e)
      | Inr d \<Rightarrow>
          let (c', res) = body d (c\<lparr>ctx_declaration := Some d\<rparr>)
          in (c'\<lparr>ctx_declaration := ctx_declaration c\<rparr>, res))"

definition request_scope :: "'a body \<Rightarrow> 'a body" where
  "request_scope body c =
     (let (c', res) = body (c\<lparr>ctx_request := Some None\<rparr>)
      in (c'\<lparr>ctx_request := ctx_request c\<rparr>, res))"

definition admit :: "string \<Rightarrow> string \<Rightarrow> string \<Rightarrow> string option \<Rightarrow> bool body" where
  "admit i a r w c =
     (case ctx_request c of
        None \<Rightarrow> (c, Inr False)
      | Some slot \<Rightarrow>
          (case make_declaration i a r w of
             Inl e \<Rightarrow> (c, Inl e)
           | Inr d \<Rightarrow> (c\<lparr>ctx_request := Some (Some d)\<rparr>, Inr True)))"

text \<open>
  \<open>recording_refusals\<close>: a fresh list for the body; afterwards the outer recorder, if there is
  one, is extended with what the inner one collected. The collected list is returned too.
\<close>

definition recording_refusals :: "'a body \<Rightarrow> ctx \<Rightarrow> ctx \<times> 'a result \<times> string list" where
  "recording_refusals body c =
     (let (c', res) = body (c\<lparr>ctx_refusals := Some []\<rparr>);
          refused = (case ctx_refusals c' of None \<Rightarrow> [] | Some l \<Rightarrow> l)
      in (c'\<lparr>ctx_refusals := map_option (\<lambda>outer. outer @ refused) (ctx_refusals c)\<rparr>,
          res, refused))"

definition operational :: "string \<Rightarrow> 'a body \<Rightarrow> 'a body" where
  "operational kind body c =
     (if kind \<notin> set OPERATIONAL_KINDS
      then (c, Inl (ValueError ''operational commit kind is not in the closed set''))
      else let (c', res) = body (c\<lparr>ctx_operational := Some kind\<rparr>)
           in (c'\<lparr>ctx_operational := ctx_operational c\<rparr>, res))"

definition current_declaration :: "ctx \<Rightarrow> commit_declaration option" where
  "current_declaration c =
     (case ctx_declaration c of
        Some d \<Rightarrow> Some d
      | None \<Rightarrow> (case ctx_request c of None \<Rightarrow> None | Some slot \<Rightarrow> slot))"

definition current_operational :: "ctx \<Rightarrow> string option" where
  "current_operational c = ctx_operational c"

definition capture :: "ctx \<Rightarrow> commit_declaration option" where
  "capture c = current_declaration c"

definition resume :: "commit_declaration option \<Rightarrow> 'a body \<Rightarrow> 'a body" where
  "resume d body c =
     (case d of
        None \<Rightarrow> body c
      | Some x \<Rightarrow> declare_scope (intent x) (actor x) (reason x) (work x) (\<lambda>_. body) c)"

text \<open>\<open>carried(f)\<close>, bound in one context and run in another (a worker thread).\<close>

definition carried :: "'a body \<Rightarrow> ctx \<Rightarrow> 'a body" where
  "carried f binder = resume (capture binder) f"

definition operational_refusal :: "string \<Rightarrow> string" where
  "operational_refusal kind = ''graph commit refused: '' @ kind @
     '' is operational; SPEC 3.3 keeps it in bounded indexed records, not graph revisions''"

definition undeclared_refusal :: string where
  "undeclared_refusal = ''graph commit refused: no declared intent (user action, agent action '' @
     ''on admitted Work, or admitted migration/install)''"

definition refusal :: "bool \<Rightarrow> ctx \<Rightarrow> ctx \<times> string option" where
  "refusal requires_declared_intent c =
     (case ctx_operational c of
        Some kind \<Rightarrow>
          (c\<lparr>ctx_refusals := map_option (\<lambda>l. l @ [kind]) (ctx_refusals c)\<rparr>,
           Some (operational_refusal kind))
      | None \<Rightarrow>
          (c, if requires_declared_intent \<and> current_declaration c = None
              then Some undeclared_refusal else None))"

section \<open>Client programs\<close>

text \<open>
  Any nesting of the scopes around commit attempts: \<open>Check gated\<close> is the call of
  \<open>refusal\<close> a commit makes on a store that is gated or not.
\<close>

datatype act =
    Check bool
  | Admit string string string "string option"
  | Declare string string string "string option" "act list"
  | Request "act list"
  | Recording "act list"
  | Operational string "act list"
  | Resume "commit_declaration option" "act list"

function run_act :: "act \<Rightarrow> string option list body"
  and run_acts :: "act list \<Rightarrow> string option list body" where
  "run_act (Check gated) c = (let (c', out) = refusal gated c in (c', Inr [out]))"
| "run_act (Admit i a r w) c =
     (let (c', res) = admit i a r w c in (c', rbind res (\<lambda>_. Inr [])))"
| "run_act (Declare i a r w as) c = declare_scope i a r w (\<lambda>_. run_acts as) c"
| "run_act (Request as) c = request_scope (run_acts as) c"
| "run_act (Recording as) c =
     (let (c', res, refused) = recording_refusals (run_acts as) c in (c', res))"
| "run_act (Operational kind as) c = operational kind (run_acts as) c"
| "run_act (Resume d as) c = resume d (run_acts as) c"
| "run_acts [] c = (c, Inr [])"
| "run_acts (a # as) c =
     (case run_act a c of
        (c1, Inl e) \<Rightarrow> (c1, Inl e)
      | (c1, Inr outs) \<Rightarrow>
          (case run_acts as c1 of
             (c2, Inl e) \<Rightarrow> (c2, Inl e)
           | (c2, Inr outs') \<Rightarrow> (c2, Inr (outs @ outs'))))"
  by pat_completeness auto
termination
  by (relation "measure (\<lambda>x. case x of Inl (a, c) \<Rightarrow> 2 * size a | Inr (as, c) \<Rightarrow> 2 * size_list size as + 1)")
    auto

section \<open>Lemmas\<close>

named_theorems scope_simps \<open>what a context manager returns and how it leaves the context\<close>

lemma declare_scope_out [scope_simps]:
  "snd (declare_scope i a r w body c) =
     (case make_declaration i a r w of Inl e \<Rightarrow> Inl e
      | Inr d \<Rightarrow> snd (body d (c\<lparr>ctx_declaration := Some d\<rparr>)))"
  "fst (declare_scope i a r w body c) =
     (case make_declaration i a r w of Inl e \<Rightarrow> c
      | Inr d \<Rightarrow> (fst (body d (c\<lparr>ctx_declaration := Some d\<rparr>)))\<lparr>ctx_declaration := ctx_declaration c\<rparr>)"
  by (simp_all add: declare_scope_def case_prod_beta split: sum.split)

lemma request_scope_out [scope_simps]:
  "snd (request_scope body c) = snd (body (c\<lparr>ctx_request := Some None\<rparr>))"
  "fst (request_scope body c) =
     (fst (body (c\<lparr>ctx_request := Some None\<rparr>)))\<lparr>ctx_request := ctx_request c\<rparr>"
  by (simp_all add: request_scope_def case_prod_beta)

lemma recording_refusals_out [scope_simps]:
  "fst (snd (recording_refusals body c)) = snd (body (c\<lparr>ctx_refusals := Some []\<rparr>))"
  "snd (snd (recording_refusals body c)) =
     (case ctx_refusals (fst (body (c\<lparr>ctx_refusals := Some []\<rparr>))) of None \<Rightarrow> [] | Some l \<Rightarrow> l)"
  "fst (recording_refusals body c) =
     (fst (body (c\<lparr>ctx_refusals := Some []\<rparr>)))
       \<lparr>ctx_refusals := map_option (\<lambda>outer. outer @ snd (snd (recording_refusals body c))) (ctx_refusals c)\<rparr>"
  by (simp_all add: recording_refusals_def Let_def case_prod_beta)

lemma operational_out [scope_simps]:
  "snd (operational kind body c) =
     (if kind \<in> set OPERATIONAL_KINDS then snd (body (c\<lparr>ctx_operational := Some kind\<rparr>))
      else Inl (ValueError ''operational commit kind is not in the closed set''))"
  "fst (operational kind body c) =
     (if kind \<in> set OPERATIONAL_KINDS
      then (fst (body (c\<lparr>ctx_operational := Some kind\<rparr>)))\<lparr>ctx_operational := ctx_operational c\<rparr> else c)"
  by (simp_all add: operational_def case_prod_beta)

lemma resume_out [scope_simps]:
  "resume None body c = body c"
  "resume (Some d) body c = declare_scope (intent d) (actor d) (reason d) (work d) (\<lambda>_. body) c"
  by (simp_all add: resume_def)

lemma run_acts_Cons_out:
  "fst (run_acts (a # as) c) =
     (case snd (run_act a c) of Inl e \<Rightarrow> fst (run_act a c) | Inr _ \<Rightarrow> fst (run_acts as (fst (run_act a c))))"
  "snd (run_acts (a # as) c) =
     rbind (snd (run_act a c)) (\<lambda>outs. rbind (snd (run_acts as (fst (run_act a c)))) (\<lambda>outs'. Inr (outs @ outs')))"
  by (auto simp: rbind_def case_prod_beta split: prod.split sum.split)

lemma run_Recording_out:
  "fst (run_act (Recording as) c) = fst (recording_refusals (run_acts as) c)"
  "snd (run_act (Recording as) c) = fst (snd (recording_refusals (run_acts as) c))"
  by (simp_all add: case_prod_beta)

lemma make_declaration_fields:
  "make_declaration i a r w = Inr d \<Longrightarrow> d = \<lparr>intent = i, actor = a, reason = r, work = w\<rparr>"
  by (auto simp: make_declaration_def split: if_splits)

lemma make_declaration_admits:
  "make_declaration i a r w = Inr d \<Longrightarrow>
     intent d \<in> set INTENTS \<and> \<not> blank (actor d) \<and> py_len (actor d) \<le> 512 \<and>
     \<not> blank (reason d) \<and> py_len (reason d) \<le> 512 \<and> work d \<noteq> Some []"
  by (auto simp: make_declaration_def split: if_splits option.splits)

text \<open>A carried declaration passes the check again: \<open>resume\<close> of a captured one never raises.\<close>

lemma make_declaration_again:
  "make_declaration i a r w = Inr d \<Longrightarrow> make_declaration (intent d) (actor d) (reason d) (work d) = Inr d"
  using make_declaration_fields [of i a r w d] by simp

lemma operational_refusal_not_undeclared [simp]:
  "operational_refusal k \<noteq> undeclared_refusal"
proof
  assume "operational_refusal k = undeclared_refusal"
  then have "last (operational_refusal k) = last undeclared_refusal" by simp
  then show False by (simp add: operational_refusal_def undeclared_refusal_def)
qed

lemma operational_refusal_inj [simp]: "operational_refusal k = operational_refusal l \<longleftrightarrow> k = l"
  by (simp add: operational_refusal_def)

text \<open>Whatever a client program does, each scope variable ends as it began.\<close>

definition balanced :: "ctx \<Rightarrow> ctx \<Rightarrow> bool" where
  "balanced c c' \<longleftrightarrow> ctx_declaration c' = ctx_declaration c \<and> ctx_operational c' = ctx_operational c \<and>
     (ctx_request c' = None \<longleftrightarrow> ctx_request c = None) \<and>
     (ctx_refusals c' = None \<longleftrightarrow> ctx_refusals c = None)"

lemma balanced_refl [simp]: "balanced c c"
  by (simp add: balanced_def)

lemma balanced_trans: "balanced a b \<Longrightarrow> balanced b c \<Longrightarrow> balanced a c"
  by (auto simp: balanced_def)

lemma balanced_rbind: "balanced c c1 \<Longrightarrow> (\<And>x. r = Inr x \<Longrightarrow> balanced c1 c2) \<Longrightarrow>
    balanced c (case r of Inl e \<Rightarrow> c1 | Inr x \<Rightarrow> c2)"
  by (auto split: sum.split intro: balanced_trans)

lemma run_balanced:
  "balanced c (fst (run_act a c))"
  "balanced c (fst (run_acts as c))"
proof (induction a c and as c rule: run_act_run_acts.induct)
  case (9 a as c)
  have "balanced (fst (run_act a c)) (fst (run_acts as (fst (run_act a c))))"
    if "snd (run_act a c) = Inr outs" for outs
    using "9.IH"(2) [of "fst (run_act a c)" "snd (run_act a c)" outs] that by (simp add: prod_eq_iff)
  then show ?case
    unfolding run_acts_Cons_out by (intro balanced_rbind "9.IH"(1)) blast
next
  case (2 i a r w c)
  then show ?case by (auto simp: balanced_def admit_def split: option.splits sum.splits)
next
  case (5 as c)
  show ?case unfolding run_Recording_out
    using "5.IH" [of "c\<lparr>ctx_refusals := Some []\<rparr>"] by (simp add: scope_simps balanced_def)
next
  case (7 d as c)
  show ?case using "7.IH" by (cases d) (auto simp: scope_simps balanced_def split: sum.split)
qed (auto simp: balanced_def refusal_def scope_simps split: sum.split option.split)

text \<open>Commit attempts under an operational path are all refused.\<close>

definition all_refused :: "string option list result \<Rightarrow> bool" where
  "all_refused r \<longleftrightarrow> (case r of Inl _ \<Rightarrow> True | Inr outs \<Rightarrow> None \<notin> set outs)"

lemma all_refused_simps [simp]:
  "all_refused (Inl e)" "all_refused (Inr outs) \<longleftrightarrow> None \<notin> set outs"
  by (simp_all add: all_refused_def)

lemma all_refused_rbind_append:
  "all_refused r \<Longrightarrow> (\<And>x. r = Inr x \<Longrightarrow> all_refused r') \<Longrightarrow>
     all_refused (rbind r (\<lambda>outs. rbind r' (\<lambda>outs'. Inr (outs @ outs'))))"
  by (cases r; cases r') auto

lemma run_operational:
  "ctx_operational c \<noteq> None \<Longrightarrow> all_refused (snd (run_act a c))"
  "ctx_operational d \<noteq> None \<Longrightarrow> all_refused (snd (run_acts as d))"
proof (induction a c and as d rule: run_act_run_acts.induct)
  case (9 a as c)
  have "ctx_operational (fst (run_act a c)) \<noteq> None"
    using run_balanced(1) [of c a] "9.prems" by (simp add: balanced_def)
  then have "all_refused (snd (run_acts as (fst (run_act a c))))"
    if "snd (run_act a c) = Inr outs" for outs
    using "9.IH"(2) [of "fst (run_act a c)" "snd (run_act a c)" outs] that by (simp add: prod_eq_iff)
  then show ?case
    unfolding run_acts_Cons_out using "9.IH"(1) "9.prems" by (intro all_refused_rbind_append) auto
next
  case (2 i a r w c)
  then show ?case by (auto simp: admit_def split: option.splits sum.splits)
next
  case (5 as c)
  then show ?case unfolding run_Recording_out by (simp add: scope_simps)
next
  case (7 d as c)
  then show ?case by (cases d) (auto simp: scope_simps split: sum.split)
qed (auto simp: refusal_def scope_simps split: sum.split)


text \<open>Without a declaration, a gated store admits nothing.\<close>

fun declares_act :: "act \<Rightarrow> bool" and declares :: "act list \<Rightarrow> bool" where
  "declares_act (Check _) = False"
| "declares_act (Admit _ _ _ _) = True"
| "declares_act (Declare _ _ _ _ _) = True"
| "declares_act (Request as) = declares as"
| "declares_act (Recording as) = declares as"
| "declares_act (Operational _ as) = declares as"
| "declares_act (Resume d as) = (d \<noteq> None \<or> declares as)"
| "declares [] = False"
| "declares (a # as) = (declares_act a \<or> declares as)"

fun gated_act :: "act \<Rightarrow> bool" and gated :: "act list \<Rightarrow> bool" where
  "gated_act (Check g) = g"
| "gated_act (Admit _ _ _ _) = True"
| "gated_act (Declare _ _ _ _ as) = gated as"
| "gated_act (Request as) = gated as"
| "gated_act (Recording as) = gated as"
| "gated_act (Operational _ as) = gated as"
| "gated_act (Resume _ as) = gated as"
| "gated [] = True"
| "gated (a # as) = (gated_act a \<and> gated as)"

lemma current_declaration_None_iff:
  "current_declaration c = None \<longleftrightarrow>
     ctx_declaration c = None \<and> (ctx_request c = None \<or> ctx_request c = Some None)"
  by (auto simp: current_declaration_def split: option.splits)

lemma run_undeclared:
  "current_declaration c = None \<Longrightarrow> \<not> declares_act a \<Longrightarrow> gated_act a \<Longrightarrow>
     all_refused (snd (run_act a c)) \<and> current_declaration (fst (run_act a c)) = None"
  "current_declaration d = None \<Longrightarrow> \<not> declares as \<Longrightarrow> gated as \<Longrightarrow>
     all_refused (snd (run_acts as d)) \<and> current_declaration (fst (run_acts as d)) = None"
proof (induction a c and as d rule: run_act_run_acts.induct)
  case (4 as c)
  then have "all_refused (snd (run_acts as (c\<lparr>ctx_request := Some None\<rparr>))) \<and>
      current_declaration (fst (run_acts as (c\<lparr>ctx_request := Some None\<rparr>))) = None"
    by (simp add: current_declaration_None_iff)
  with "4.prems" show ?case by (simp add: scope_simps current_declaration_None_iff)
next
  case (9 a as c)
  have "all_refused (snd (run_acts as (fst (run_act a c)))) \<and>
      current_declaration (fst (run_acts as (fst (run_act a c)))) = None"
    if "snd (run_act a c) = Inr outs" for outs
    using "9.IH" "9.prems" that by (simp add: prod_eq_iff)
  then show ?case
    unfolding run_acts_Cons_out using "9.IH"(1) "9.prems"
    by (auto simp: all_refused_def rbind_def split: sum.splits)
next
  case (5 as c)
  then show ?case unfolding run_Recording_out by (simp add: scope_simps current_declaration_None_iff)
next
  case (6 kind as c)
  then show ?case by (simp add: scope_simps current_declaration_None_iff)
next
  case (7 d as c)
  then show ?case by (cases d) (auto simp: scope_simps)
qed (auto simp: refusal_def current_declaration_def scope_simps split: option.splits)


text \<open>
  The operational refusals of a program, in order, and the recorder of the context: what a
  recorder holds afterwards is what it held before and the kinds of exactly those refusals.
\<close>

definition refused_kinds :: "string option list \<Rightarrow> string list \<Rightarrow> bool" where
  "refused_kinds outs ks \<longleftrightarrow>
     filter (\<lambda>out. out \<noteq> None \<and> out \<noteq> Some undeclared_refusal) outs = map (Some \<circ> operational_refusal) ks"

lemma refused_kinds_append:
  "refused_kinds xs ks \<Longrightarrow> refused_kinds ys ls \<Longrightarrow> refused_kinds (xs @ ys) (ks @ ls)"
  by (simp add: refused_kinds_def)

lemma refused_kinds_Nil [simp]: "refused_kinds [] []"
  by (simp add: refused_kinds_def)

lemma run_recorded:
  "ctx_refusals c = Some l \<Longrightarrow> snd (run_act a c) = Inr outs \<Longrightarrow>
     \<exists>ks. ctx_refusals (fst (run_act a c)) = Some (l @ ks) \<and> refused_kinds outs ks"
  "ctx_refusals d = Some l \<Longrightarrow> snd (run_acts as d) = Inr outs \<Longrightarrow>
     \<exists>ks. ctx_refusals (fst (run_acts as d)) = Some (l @ ks) \<and> refused_kinds outs ks"
proof (induction a c and as d arbitrary: l outs and l outs rule: run_act_run_acts.induct)
  case (1 g c)
  then show ?case
    by (cases "ctx_operational c") (auto simp: refusal_def refused_kinds_def split: if_splits)
next
  case (2 i a r w c)
  then show ?case by (auto simp: admit_def split: option.splits sum.splits)
next
  case (3 i a r w as c)
  then show ?case by (fastforce simp: scope_simps split: sum.splits)
next
  case (4 as c)
  then show ?case by (fastforce simp: scope_simps)
next
  case (5 as c)
  have "ctx_refusals (c\<lparr>ctx_refusals := Some []\<rparr>) = Some []" by simp
  from "5.IH" [OF this] "5.prems" show ?case
    unfolding run_Recording_out by (fastforce simp: scope_simps)
next
  case (6 kind as c)
  then show ?case by (fastforce simp: scope_simps split: if_splits)
next
  case (7 d as c)
  then show ?case by (cases d) (fastforce simp: scope_simps split: sum.splits)+
next
  case (9 a as c)
  from "9.prems"(2) obtain o1 o2 where o1: "snd (run_act a c) = Inr o1"
    and o2: "snd (run_acts as (fst (run_act a c))) = Inr o2" and outs: "outs = o1 @ o2"
    unfolding run_acts_Cons_out by auto
  from "9.IH"(1) [OF "9.prems"(1) o1] obtain ks
    where ks: "ctx_refusals (fst (run_act a c)) = Some (l @ ks)" "refused_kinds o1 ks" by auto
  from "9.IH"(2) [OF prod.collapse o1 ks(1) o2] o1 obtain ls
    where "ctx_refusals (fst (run_acts as (fst (run_act a c)))) = Some (l @ ks @ ls)" "refused_kinds o2 ls"
    by auto
  with ks outs o1 show ?case
    unfolding run_acts_Cons_out by (auto intro!: exI [of _ "ks @ ls"] refused_kinds_append)
qed simp

section \<open>Properties\<close>

text \<open>
  C40: An operational path never publishes. Whatever scopes a program opens inside an
  operational path, declarations and request admissions included, every commit attempt in it is
  refused, and the path ends with the surrounding declaration restored.
\<close>

theorem operational_path_never_admitted:
  assumes "run_act (Operational kind as) c = (c', Inr outs)"
  shows "None \<notin> set outs \<and> ctx_declaration c' = ctx_declaration c \<and>
    ctx_operational c' = ctx_operational c"
proof -
  have "all_refused (snd (run_acts as (c\<lparr>ctx_operational := Some kind\<rparr>)))"
    by (rule run_operational) simp
  moreover have "balanced c c'"
    using run_balanced(1) [of c "Operational kind as"] assms by simp
  moreover have "snd (run_act (Operational kind as) c) = Inr outs" using assms by simp
  ultimately show ?thesis
    by (auto simp: scope_simps balanced_def split: if_splits)
qed

definition sample_declare :: "act list \<Rightarrow> act" where
  "sample_declare as = Declare USER_ACTION ''ada'' ''edit'' None as"

lemma sample_strings [simp]:
  "make_declaration USER_ACTION ''ada'' ''edit'' None =
     Inr \<lparr>intent = USER_ACTION, actor = ''ada'', reason = ''edit'', work = None\<rparr>"
  by code_simp

theorem operational_path_never_admitted_witness:
  "\<exists>c' outs. run_act (Operational ''heartbeat'' [sample_declare [Check True], Check False]) idle_ctx
     = (c', Inr outs) \<and> length outs = 2 \<and> None \<notin> set outs"
proof -
  let ?a = "Operational ''heartbeat'' [sample_declare [Check True], Check False]"
  have r: "\<exists>outs. run_act ?a idle_ctx = (idle_ctx, Inr outs) \<and> length outs = 2"
    by (simp add: sample_declare_def operational_def OPERATIONAL_KINDS_def declare_scope_def
        refusal_def idle_ctx_def)
  then show ?thesis using operational_path_never_admitted by blast
qed

text \<open>
  On a gated store, a program that opens no declaration, admits no request and resumes
  none has every commit attempt refused: idle machinery cannot publish a revision.
\<close>

theorem undeclared_commits_refused:
  assumes "gated as" "\<not> declares as" "run_acts as idle_ctx = (c', Inr outs)"
  shows "None \<notin> set outs"
  using run_undeclared(2) [of idle_ctx as] assms by (simp add: current_declaration_def idle_ctx_def)

theorem undeclared_commits_refused_witness:
  "\<exists>c' outs. run_acts [Request [Check True], Resume None [Check True]] idle_ctx = (c', Inr outs) \<and>
     length outs = 2 \<and> None \<notin> set outs"
proof -
  have "\<exists>c' outs. run_acts [Request [Check True], Resume None [Check True]] idle_ctx = (c', Inr outs) \<and>
     length outs = 2"
    by (simp add: request_scope_def resume_def refusal_def idle_ctx_def)
  then show ?thesis
    using undeclared_commits_refused [of "[Request [Check True], Resume None [Check True]]"] by auto
qed

text \<open>
  A refusal recorder misses nothing and invents nothing: after any program, nested
  recorders included, it holds what it held before followed by the kinds of exactly the
  operational refusals the program met, in their order.
\<close>

theorem recorder_holds_the_refusals:
  assumes "ctx_refusals c = Some l" "run_acts as c = (c', Inr outs)"
  shows "\<exists>ks. ctx_refusals c' = Some (l @ ks) \<and>
    filter (\<lambda>out. out \<noteq> None \<and> out \<noteq> Some undeclared_refusal) outs = map (Some \<circ> operational_refusal) ks"
  using run_recorded(2) [of c l as outs] assms by (simp add: refused_kinds_def)

theorem recorder_holds_the_refusals_witness:
  "\<exists>c' outs ks. run_acts [Recording [Operational ''permit'' [Check True]], Check True]
       (idle_ctx\<lparr>ctx_refusals := Some [''signal'']\<rparr>) = (c', Inr outs) \<and>
     ctx_refusals c' = Some (''signal'' # ks) \<and> ks \<noteq> []"
proof -
  let ?c = "idle_ctx\<lparr>ctx_refusals := Some [''signal'']\<rparr>"
  let ?as = "[Recording [Operational ''permit'' [Check True]], Check True]"
  have r: "\<exists>c'. run_acts ?as ?c = (c', Inr [Some (operational_refusal ''permit''), Some undeclared_refusal])"
    by (simp add: recording_refusals_def operational_def OPERATIONAL_KINDS_def refusal_def idle_ctx_def
        current_declaration_def Let_def)
  then obtain c' where c': "run_acts ?as ?c = (c', Inr [Some (operational_refusal ''permit''), Some undeclared_refusal])"
    by blast
  have "ctx_refusals ?c = Some [''signal'']" by simp
  from recorder_holds_the_refusals [OF this c'] c' show ?thesis by fastforce
qed

text \<open>
  Work handed to a worker thread keeps its reason: a function bound with
  \<open>carried\<close> in a context whose current declaration was admitted runs under exactly that
  declaration in the worker's context, never fails for it, and leaves the worker's own
  declaration as it was; bound where nothing is declared it runs as in the worker's context.
\<close>

theorem carried_keeps_the_declaration:
  assumes "\<And>d. current_declaration binder = Some d \<Longrightarrow> \<exists>i a r w. make_declaration i a r w = Inr d"
  shows "carried f binder worker =
    (case current_declaration binder of
       None \<Rightarrow> f worker
     | Some d \<Rightarrow> (let (c', res) = f (worker\<lparr>ctx_declaration := Some d\<rparr>)
                 in (c'\<lparr>ctx_declaration := ctx_declaration worker\<rparr>, res)))"
proof (cases "current_declaration binder")
  case None
  then show ?thesis by (simp add: carried_def capture_def resume_def)
next
  case (Some d)
  with assms make_declaration_again
  have "make_declaration (intent d) (actor d) (reason d) (work d) = Inr d" by blast
  with Some show ?thesis by (simp add: carried_def capture_def resume_def declare_scope_def)
qed

theorem carried_keeps_the_declaration_witness:
  "\<exists>d. carried (\<lambda>c. (c, Inr (current_declaration c)))
      (idle_ctx\<lparr>ctx_declaration := Some d\<rparr>) idle_ctx = (idle_ctx, Inr (Some d))"
proof -
  define d where "d = \<lparr>intent = USER_ACTION, actor = ''ada'', reason = ''edit'', work = None\<rparr>"
  let ?b = "idle_ctx\<lparr>ctx_declaration := Some d\<rparr>"
  have h: "\<exists>i a r w. make_declaration i a r w = Inr d'" if "current_declaration ?b = Some d'" for d'
  proof -
    from that have "d' = d" by (simp add: current_declaration_def)
    then show ?thesis using sample_strings d_def by blast
  qed
  have "carried (\<lambda>c. (c, Inr (current_declaration c))) ?b idle_ctx = (idle_ctx, Inr (Some d))"
    using carried_keeps_the_declaration [of ?b "\<lambda>c. (c, Inr (current_declaration c))" idle_ctx, OF h]
    by (simp add: current_declaration_def idle_ctx_def)
  then show ?thesis by blast
qed

end
