(* ===== verification/Cells.thy ===== *)
theory Cells
  imports Prelude
begin

text \<open>
  The physical floor of \<open>01.APP/nodelang/universal_cell.py\<close>: a \<open>Cell\<close> is an identity, two
  links to identities and an opaque atom; a graph is a mapping from identities to Cells; a
  \<open>Snapshot\<close> is a committed graph with its revision number. This theory holds those records,
  \<open>_validate_cell\<close>, the candidate overlay \<open>overlay_read_snapshot\<close>, and the well-formedness
  of a graph (\<open>graph_ok\<close>) that every later theory keeps.
\<close>

section \<open>Cells and snapshots\<close>

definition NULL_CELL_ID :: string where
  "NULL_CELL_ID = ''00000000-0000-0000-0000-000000000000''"

record cell =
  cid :: string
  link0 :: string
  link1 :: string
  atom :: bytes

abbreviation Cell :: "string \<Rightarrow> string \<Rightarrow> string \<Rightarrow> bytes \<Rightarrow> cell" where
  "Cell i a b x \<equiv> \<lparr>cid = i, link0 = a, link1 = b, atom = x\<rparr>"

definition null_cell :: cell where
  "null_cell = Cell NULL_CELL_ID NULL_CELL_ID NULL_CELL_ID []"

type_synonym cells = "string \<rightharpoonup> cell"

record snapshot =
  snap_revision :: nat
  snap_cells :: cells

abbreviation Snapshot :: "nat \<Rightarrow> cells \<Rightarrow> snapshot" where
  "Snapshot r m \<equiv> \<lparr>snap_revision = r, snap_cells = m\<rparr>"

text \<open>
  \<open>_validate_cell\<close>: the types of the four fields are given by the record; what remains to
  check is that the identity is not empty.
\<close>

definition validate_cell :: "cell \<Rightarrow> unit result" where
  "validate_cell c =
     require (cid c \<noteq> []) (InvalidCell ''cell identity must be a non-empty string'')"

text \<open>\<open>d.update\<close> with Cells keyed by their own identity; a later Cell wins.\<close>

fun put_cells :: "cell list \<Rightarrow> cells \<Rightarrow> cells" where
  "put_cells [] m = m"
| "put_cells (c # cs) m = put_cells cs (m(cid c \<mapsto> c))"

definition candidate_ids_ok :: "cells \<Rightarrow> cell list \<Rightarrow> cell list \<Rightarrow> bool" where
  "candidate_ids_ok m created replaced \<longleftrightarrow>
     distinct (map cid created) \<and> distinct (map cid replaced) \<and>
     list_all (\<lambda>c. m (cid c) = None) created \<and>
     list_all (\<lambda>c. m (cid c) \<noteq> None) replaced \<and>
     list_all (\<lambda>c. cid c \<notin> cid ` set replaced) created"

definition overlay_read_snapshot :: "snapshot \<Rightarrow> cell list \<Rightarrow> cell list \<Rightarrow> snapshot result" where
  "overlay_read_snapshot s created replaced =
     rbind (rmap validate_cell (created @ replaced)) (\<lambda>_.
     if \<not> candidate_ids_ok (snap_cells s) created replaced
     then Inl (InvalidCell ''candidate patch has invalid Cell identities'')
     else if created = [] \<and> replaced = []
     then Inr (Snapshot (snap_revision s + 1) (snap_cells s))
     else Inr (Snapshot (snap_revision s + 1) (put_cells (created @ replaced) (snap_cells s))))"

section \<open>Lemmas\<close>

named_theorems graph_intros \<open>introduction rules for well-formed graphs\<close>

lemma cid_image: "k \<in> cid ` A \<longleftrightarrow> (\<exists>c \<in> A. cid c = k)"
  by auto

lemma cell_eta: "Cell (cid c) (link0 c) (link1 c) (atom c) = c"
  by simp

lemma NULL_nonempty [simp]: "NULL_CELL_ID \<noteq> []"
  by (simp add: NULL_CELL_ID_def)

lemma null_cell_fields [simp]:
  "cid null_cell = NULL_CELL_ID" "link0 null_cell = NULL_CELL_ID"
  "link1 null_cell = NULL_CELL_ID" "atom null_cell = []"
  by (simp_all add: null_cell_def)

lemma validate_cell_Inr_iff [simp]: "validate_cell c = Inr u \<longleftrightarrow> cid c \<noteq> []"
  by (simp add: validate_cell_def)

lemma validate_all_iff: "(\<exists>us. rmap validate_cell cs = Inr us) \<longleftrightarrow> (\<forall>c \<in> set cs. cid c \<noteq> [])"
  by (induction cs) (auto simp: rbind_Inr_iff)

lemma put_cells_append: "put_cells (xs @ ys) m = put_cells ys (put_cells xs m)"
  by (induction xs arbitrary: m) auto

lemma put_cells_notin: "k \<notin> cid ` set cs \<Longrightarrow> put_cells cs m k = m k"
  by (induction cs arbitrary: m) auto

lemma dom_put_cells [simp]: "dom (put_cells cs m) = dom m \<union> cid ` set cs"
  by (induction cs arbitrary: m) auto

lemma put_cells_in: "c \<in> set cs \<Longrightarrow> distinct (map cid cs) \<Longrightarrow> put_cells cs m (cid c) = Some c"
  by (induction cs arbitrary: m) (auto simp: put_cells_notin)

lemma put_cells_cases:
  "put_cells cs m k = Some c \<Longrightarrow> (c \<in> set cs \<and> cid c = k) \<or> (k \<notin> cid ` set cs \<and> m k = Some c)"
proof (induction cs arbitrary: m)
  case Nil
  then show ?case by simp
next
  case (Cons d cs)
  from Cons.prems have "put_cells cs (m(cid d \<mapsto> d)) k = Some c" by simp
  from Cons.IH [OF this] show ?case by (auto split: if_splits)
qed

text \<open>With distinct identities, a delta is the map of its own Cells laid over the base.\<close>

lemma map_of_cids_None: "map_of (map (\<lambda>c. (cid c, c)) cs) k = None \<longleftrightarrow> k \<notin> cid ` set cs"
  by (induction cs) auto

lemma put_cells_map_add:
  assumes "distinct (map cid cs)"
  shows "put_cells cs m = m ++ map_of (map (\<lambda>c. (cid c, c)) cs)"
proof (rule ext)
  fix k
  show "put_cells cs m k = (m ++ map_of (map (\<lambda>c. (cid c, c)) cs)) k"
  proof (cases "k \<in> cid ` set cs")
    case True
    then obtain c where c: "c \<in> set cs" "k = cid c" by auto
    with assms have "map_of (map (\<lambda>c. (cid c, c)) cs) k = Some c"
      by (intro map_of_is_SomeI) (auto simp: comp_def)
    with assms c show ?thesis by (simp add: put_cells_in map_add_def)
  next
    case False
    then show ?thesis
      using map_of_cids_None [of cs k] by (simp add: put_cells_notin map_add_def)
  qed
qed

lemma put_cells_perm:
  assumes "distinct (map cid xs)" "distinct (map cid ys)" "set xs = set ys"
  shows "put_cells xs m = put_cells ys m"
proof (rule ext)
  fix k
  show "put_cells xs m k = put_cells ys m k"
  proof (cases "k \<in> cid ` set xs")
    case True
    then obtain c where "c \<in> set xs" "k = cid c" by auto
    then show ?thesis using assms put_cells_in by metis
  next
    case False
    then show ?thesis using assms(3) by (simp add: put_cells_notin)
  qed
qed

section \<open>Well-formed graphs\<close>

text \<open>
  Every Cell is stored under its own identity, identities are not empty, both links of every
  Cell are identities of the graph, and the distinguished null Cell is present.
\<close>

definition keyed :: "cells \<Rightarrow> bool" where
  "keyed m \<longleftrightarrow> (\<forall>k c. m k = Some c \<longrightarrow> cid c = k \<and> k \<noteq> [])"

definition closed_graph :: "cells \<Rightarrow> bool" where
  "closed_graph m \<longleftrightarrow> (\<forall>k c. m k = Some c \<longrightarrow> link0 c \<in> dom m \<and> link1 c \<in> dom m)"

definition graph_ok :: "cells \<Rightarrow> bool" where
  "graph_ok m \<longleftrightarrow> keyed m \<and> closed_graph m \<and> m NULL_CELL_ID = Some null_cell \<and> finite (dom m)"

lemma graph_okI [graph_intros]:
  "keyed m \<Longrightarrow> closed_graph m \<Longrightarrow> m NULL_CELL_ID = Some null_cell \<Longrightarrow> finite (dom m) \<Longrightarrow> graph_ok m"
  by (simp add: graph_ok_def)

lemma graph_okD:
  assumes "graph_ok m"
  shows "keyed m" "closed_graph m" "m NULL_CELL_ID = Some null_cell" "finite (dom m)"
  using assms by (simp_all add: graph_ok_def)

lemma keyedD: "keyed m \<Longrightarrow> m k = Some c \<Longrightarrow> cid c = k"
  by (simp add: keyed_def)

lemma closed_graphD:
  "closed_graph m \<Longrightarrow> m k = Some c \<Longrightarrow> link0 c \<in> dom m \<and> link1 c \<in> dom m"
  unfolding closed_graph_def by blast

definition genesis :: cells where
  "genesis = [NULL_CELL_ID \<mapsto> null_cell]"

lemma graph_ok_genesis [graph_intros]: "graph_ok genesis"
  by (auto simp: genesis_def graph_ok_def keyed_def closed_graph_def split: if_splits)

lemma keyed_put_cells [graph_intros]:
  "keyed m \<Longrightarrow> (\<And>c. c \<in> set cs \<Longrightarrow> cid c \<noteq> []) \<Longrightarrow> keyed (put_cells cs m)"
  by (force simp: keyed_def dest: put_cells_cases)

lemma closed_put_cells [graph_intros]:
  assumes "closed_graph m"
    and "\<And>c. c \<in> set cs \<Longrightarrow> link0 c \<in> dom m \<union> cid ` set cs \<and> link1 c \<in> dom m \<union> cid ` set cs"
  shows "closed_graph (put_cells cs m)"
  unfolding closed_graph_def
proof (intro allI impI)
  fix k c
  assume "put_cells cs m k = Some c"
  then consider "c \<in> set cs" | "m k = Some c" using put_cells_cases by blast
  then show "link0 c \<in> dom (put_cells cs m) \<and> link1 c \<in> dom (put_cells cs m)"
    by cases (use assms closed_graphD in \<open>auto simp del: domIff\<close>)
qed

lemma graph_ok_put_cells:
  assumes "graph_ok m" "\<And>c. c \<in> set cs \<Longrightarrow> cid c \<noteq> [] \<and> cid c \<noteq> NULL_CELL_ID"
    and "\<And>c. c \<in> set cs \<Longrightarrow> link0 c \<in> dom m \<union> cid ` set cs \<and> link1 c \<in> dom m \<union> cid ` set cs"
  shows "graph_ok (put_cells cs m)"
proof (rule graph_okI)
  show "put_cells cs m NULL_CELL_ID = Some null_cell"
    using assms(1,2) graph_okD(3) by (subst put_cells_notin) force+
  show "keyed (put_cells cs m)"
    using assms(1,2) by (intro keyed_put_cells) (auto dest: graph_okD)
  show "closed_graph (put_cells cs m)"
    using assms(1,3) by (intro closed_put_cells) (auto dest: graph_okD)
  show "finite (dom (put_cells cs m))"
    using assms(1) by (simp add: graph_okD)
qed

text \<open>The candidate overlay: what it shows, and when it is refused.\<close>

lemma overlay_read_snapshot_Inr_iff:
  "overlay_read_snapshot s cs rs = Inr t \<longleftrightarrow>
     (\<forall>c \<in> set (cs @ rs). cid c \<noteq> []) \<and> candidate_ids_ok (snap_cells s) cs rs \<and>
     t = Snapshot (snap_revision s + 1) (put_cells (cs @ rs) (snap_cells s))"
  unfolding overlay_read_snapshot_def
  using validate_all_iff [of "cs @ rs"] by (cases "rmap validate_cell (cs @ rs)") auto

end
