(* ===== verification/Digests.thy ===== *)
theory Digests
  imports Cells "HOL-Library.Multiset"
begin

text \<open>
  The two commitments the kernel keeps over Cells. The revision chain of
  \<open>universal_cell.py\<close> (\<open>revision_chain_digest_step\<close>) hashes, revision by revision, the previous
  digest, the revision number and the changed Cells in identity order. The set digest of
  \<open>cell_set_digest.py\<close> adds one 2048-bit number per Cell modulo \<open>2 ^ 2048\<close>. The hash functions
  (SHA-256, SHAKE-256) are the parameters \<open>sha\<close> and \<open>shake\<close>; what is modelled is the exact
  byte sequence they are given.
\<close>

section \<open>Length-prefixed fields\<close>

text \<open>\<open>n.to_bytes(k, "big")\<close> and \<open>int.from_bytes(b, "big")\<close>.\<close>

fun be_bytes :: "nat \<Rightarrow> nat \<Rightarrow> bytes" where
  "be_bytes 0 n = []"
| "be_bytes (Suc k) n = be_bytes k (n div 256) @ [char_of (n mod 256)]"

definition be_nat :: "bytes \<Rightarrow> nat" where
  "be_nat bs = foldl (\<lambda>n b. 256 * n + of_char b) 0 bs"

definition field :: "bytes \<Rightarrow> bytes" where
  "field v = be_bytes 8 (length v) @ v"

definition short :: "bytes \<Rightarrow> bool" where
  "short v \<longleftrightarrow> length v < 256 ^ 8"

definition cell_fields :: "cell \<Rightarrow> bytes" where
  "cell_fields c = field (cid c) @ field (link0 c) @ field (link1 c) @ field (atom c)"

definition short_cell :: "cell \<Rightarrow> bool" where
  "short_cell c \<longleftrightarrow> short (cid c) \<and> short (link0 c) \<and> short (link1 c) \<and> short (atom c)"

lemma length_be_bytes [simp]: "length (be_bytes k n) = k"
  by (induction k n rule: be_bytes.induct) auto

lemma be_nat_snoc [simp]: "be_nat (bs @ [b]) = 256 * be_nat bs + of_char b"
  by (simp add: be_nat_def)

lemma be_nat_be_bytes: "be_nat (be_bytes k n) = n mod 256 ^ k"
proof (induction k n rule: be_bytes.induct)
  case (1 n)
  then show ?case by (simp add: be_nat_def)
next
  case (2 k n)
  then show ?case by (simp add: mod_mult2_eq)
qed

lemma be_bytes_inj: "be_bytes k m = be_bytes k n \<Longrightarrow> m < 256 ^ k \<Longrightarrow> n < 256 ^ k \<Longrightarrow> m = n"
  by (metis be_nat_be_bytes mod_less)

text \<open>A field can be told apart from what follows it.\<close>

lemma field_append_eq:
  assumes "field v @ x = field w @ y" "short v" "short w"
  shows "v = w \<and> x = y"
proof -
  from assms(1) have "be_bytes 8 (length v) = be_bytes 8 (length w)" and rest: "v @ x = w @ y"
    by (simp_all add: field_def)
  then have "length v = length w"
    using assms(2,3) be_bytes_inj unfolding short_def by blast
  with rest show ?thesis by simp
qed

lemma cell_fields_append_eq:
  assumes "cell_fields c @ x = cell_fields d @ y" "short_cell c" "short_cell d"
  shows "c = d \<and> x = y"
  using assms unfolding cell_fields_def short_cell_def append_assoc
  by (metis (full_types) cell.equality field_append_eq old.unit.exhaust)

lemma cell_fields_nonempty [simp]: "cell_fields c \<noteq> []"
proof
  assume "cell_fields c = []"
  then have "length (field (cid c)) = 0" by (simp add: cell_fields_def)
  then show False by (simp add: field_def)
qed

lemma concat_cell_fields_inj:
  assumes "concat (map cell_fields cs) = concat (map cell_fields ds)"
    and "list_all short_cell cs" "list_all short_cell ds"
  shows "cs = ds"
  using assms
proof (induction cs arbitrary: ds)
  case Nil
  then show ?case by (cases ds) auto
next
  case (Cons c cs)
  then obtain d ds' where ds: "ds = d # ds'" by (cases ds) auto
  with Cons.prems have "c = d \<and> concat (map cell_fields cs) = concat (map cell_fields ds')"
    by (intro cell_fields_append_eq) auto
  with Cons.IH [of ds'] Cons.prems ds show ?case by simp
qed

section \<open>The revision chain\<close>

definition chain_domain :: bytes where
  "chain_domain = ''ArchHub/universal-cell-revision-chain/v1''"

definition chain_prefix :: "bytes \<Rightarrow> nat \<Rightarrow> bytes" where
  "chain_prefix previous revision = field chain_domain @ previous @ field (show_nat revision)"

text \<open>
  \<open>_ordered_revision_chain_digest_steps\<close>: the loop over the Cells, with the last identity
  seen; what it feeds to the hash is returned, or the exception it raises.
\<close>

fun ordered_payload :: "string option \<Rightarrow> cell list \<Rightarrow> bytes result" where
  "ordered_payload None [] = Inl (InvalidCell ''Cell revision contains no changed Cells'')"
| "ordered_payload (Some _) [] = Inr []"
| "ordered_payload prior (c # cs) =
     rbind (validate_cell c) (\<lambda>_.
     if (case prior of None \<Rightarrow> False | Some l \<Rightarrow> cid c \<le> l)
     then Inl (InvalidCell ''Cell revision identities are duplicate or unordered'')
     else rbind (ordered_payload (Some (cid c)) cs) (\<lambda>b. Inr (cell_fields c @ b)))"

definition ordered_chain_step :: "(bytes \<Rightarrow> bytes) \<Rightarrow> bytes \<Rightarrow> nat \<Rightarrow> cell list \<Rightarrow> bytes result" where
  "ordered_chain_step sha previous revision changed =
     (if length previous \<noteq> 32
      then Inl (InvalidCell ''Cell revision digest predecessor is invalid'')
      else rbind (ordered_payload None changed) (\<lambda>b. Inr (sha (chain_prefix previous revision @ b))))"

text \<open>\<open>by_id\<close> of \<open>revision_chain_digest_step\<close>: valid Cells without a repeated identity.\<close>

fun collect_by_id :: "cell list \<Rightarrow> cell list \<Rightarrow> cell list result" where
  "collect_by_id seen [] = Inr seen"
| "collect_by_id seen (c # cs) =
     rbind (validate_cell c) (\<lambda>_.
     if cid c \<in> cid ` set seen
     then Inl (InvalidCell ''Cell revision contains duplicate identities'')
     else collect_by_id (seen @ [c]) cs)"

definition revision_chain_digest_step ::
  "(bytes \<Rightarrow> bytes) \<Rightarrow> bytes \<Rightarrow> nat \<Rightarrow> cell list \<Rightarrow> bytes result" where
  "revision_chain_digest_step sha previous revision changed =
     (if length previous \<noteq> 32
      then Inl (InvalidCell ''Cell revision digest predecessor is invalid'')
      else rbind (collect_by_id [] changed) (\<lambda>by_id.
      if by_id = [] then Inl (InvalidCell ''Cell revision contains no changed Cells'')
      else ordered_chain_step sha previous revision (sort_key cid by_id)))"

text \<open>The digest of a whole history, from genesis.\<close>

definition zero_digest :: bytes where
  "zero_digest = replicate 32 (CHR 0x00)"

fun chain_from :: "(bytes \<Rightarrow> bytes) \<Rightarrow> bytes \<Rightarrow> nat \<Rightarrow> cell list list \<Rightarrow> bytes result" where
  "chain_from sha previous r [] = Inr previous"
| "chain_from sha previous r (cs # css) =
     rbind (revision_chain_digest_step sha previous r cs) (\<lambda>d. chain_from sha d (Suc r) css)"

lemma collect_by_id_Inr:
  "collect_by_id seen cs = Inr ds \<longleftrightarrow>
     ds = seen @ cs \<and> (\<forall>c \<in> set cs. cid c \<noteq> []) \<and> distinct (map cid cs) \<and>
     (\<forall>c \<in> set cs. cid c \<notin> cid ` set seen)"
  by (induction seen cs rule: collect_by_id.induct)
    (auto simp: rbind_Inr_iff intro: rev_image_eqI)

lemma ordered_payload_Inr:
  "ordered_payload prior cs = Inr b \<longleftrightarrow>
     b = concat (map cell_fields cs) \<and> (prior = None \<longrightarrow> cs \<noteq> []) \<and>
     (\<forall>c \<in> set cs. cid c \<noteq> []) \<and> sorted_wrt (<) (map cid cs) \<and>
     (\<forall>l c. prior = Some l \<longrightarrow> c \<in> set cs \<longrightarrow> l < cid c)"
proof (induction prior cs arbitrary: b rule: ordered_payload.induct)
  case (3 prior c cs)
  show ?case
  proof (cases "cid c = [] \<or> (\<exists>l. prior = Some l \<and> cid c \<le> l)")
    case True
    then show ?thesis by (auto split: option.splits)
  next
    case False
    then have "ordered_payload prior (c # cs) = Inr b \<longleftrightarrow>
        (\<exists>b'. ordered_payload (Some (cid c)) cs = Inr b' \<and> b = cell_fields c @ b')"
      by (auto simp: rbind_Inr_iff split: option.splits)
    also have "\<dots> \<longleftrightarrow> b = concat (map cell_fields (c # cs)) \<and> (\<forall>d \<in> set cs. cid d \<noteq> []) \<and>
        sorted_wrt (<) (map cid (c # cs))"
      using "3.IH" False by (auto split: option.splits)
    also have "\<dots> \<longleftrightarrow> b = concat (map cell_fields (c # cs)) \<and> (prior = None \<longrightarrow> c # cs \<noteq> []) \<and>
     (\<forall>d \<in> set (c # cs). cid d \<noteq> []) \<and> sorted_wrt (<) (map cid (c # cs)) \<and>
     (\<forall>l d. prior = Some l \<longrightarrow> d \<in> set (c # cs) \<longrightarrow> l < cid d)"
      using False by (auto simp: not_le intro: less_trans)
    finally show ?thesis .
  qed
qed auto

lemma sort_key_Nil_iff [simp]: "sort_key f xs = [] \<longleftrightarrow> xs = []"
  by (metis length_0_conv length_sort)

lemma revision_chain_digest_step_Inr:
  "revision_chain_digest_step sha previous r cs = Inr d \<longleftrightarrow>
     length previous = 32 \<and> cs \<noteq> [] \<and> (\<forall>c \<in> set cs. cid c \<noteq> []) \<and> distinct (map cid cs) \<and>
     d = sha (chain_prefix previous r @ concat (map cell_fields (sort_key cid cs)))"
proof -
  have "sorted_wrt (<) (map cid (sort_key cid cs))" if "distinct (map cid cs)"
    using that by (simp add: strict_sorted_iff distinct_map)
  then show ?thesis
    by (auto simp: revision_chain_digest_step_def ordered_chain_step_def rbind_Inr_iff
        collect_by_id_Inr ordered_payload_Inr)
qed

text \<open>The digest sees the Cells of a revision as a set: their order does not matter.\<close>

lemma sort_key_cid_mset:
  assumes "mset xs = mset ys" "distinct (map cid xs)"
  shows "sort_key cid xs = sort_key cid ys"
proof (rule map_sorted_distinct_set_unique [of cid])
  have "inj_on cid (set xs)" and "set xs = set ys" "distinct (map cid ys)"
    using assms mset_eq_setD [OF assms(1)] by (auto simp: distinct_map dest: mset_eq_imp_distinct_iff)
  then show "inj_on cid (set (sort_key cid xs) \<union> set (sort_key cid ys))" "distinct (map cid (sort_key cid ys))"
    by (simp_all add: distinct_map)
qed (use assms mset_eq_setD [OF assms(1)] in \<open>auto simp: distinct_map\<close>)

definition chain_input :: "bytes \<Rightarrow> nat \<Rightarrow> cell list \<Rightarrow> bytes" where
  "chain_input previous r cs = chain_prefix previous r @ concat (map cell_fields (sort_key cid cs))"

fun chain_inputs :: "(bytes \<Rightarrow> bytes) \<Rightarrow> bytes \<Rightarrow> nat \<Rightarrow> cell list list \<Rightarrow> bytes list" where
  "chain_inputs sha previous r [] = []"
| "chain_inputs sha previous r (cs # css) =
     chain_input previous r cs # chain_inputs sha (sha (chain_input previous r cs)) (Suc r) css"

lemma chain_step_input:
  "revision_chain_digest_step sha previous r cs = Inr d \<Longrightarrow>
     d = sha (chain_input previous r cs) \<and> length previous = 32"
  by (simp add: revision_chain_digest_step_Inr chain_input_def)

lemma chain_from_append:
  "chain_from sha p r (xs @ ys) = rbind (chain_from sha p r xs) (\<lambda>d. chain_from sha d (r + length xs) ys)"
  by (induction xs arbitrary: p r) (auto simp: rbind_assoc)

lemma chain_inputs_append:
  "chain_from sha p r xs = Inr d \<Longrightarrow>
     chain_inputs sha p r (xs @ ys) = chain_inputs sha p r xs @ chain_inputs sha d (r + length xs) ys"
  by (induction xs arbitrary: p r) (auto dest!: chain_step_input)

lemma chain_input_inj:
  assumes "chain_input p r xs = chain_input q r ys" "length p = 32" "length q = 32"
    and "list_all short_cell xs" "list_all short_cell ys"
  shows "p = q \<and> sort_key cid xs = sort_key cid ys"
proof -
  from assms(1-3) have "p = q"
    and "concat (map cell_fields (sort_key cid xs)) = concat (map cell_fields (sort_key cid ys))"
    by (auto simp: chain_input_def chain_prefix_def)
  with assms(4,5) concat_cell_fields_inj [of "sort_key cid xs" "sort_key cid ys"] show ?thesis
    by (simp add: list_all_iff)
qed

lemma chain_from_binding:
  assumes "chain_from sha p r css = Inr d" "chain_from sha p r dss = Inr d" "length css = length dss"
    and "inj_on sha (set (chain_inputs sha p r css) \<union> set (chain_inputs sha p r dss))"
    and "list_all (list_all short_cell) css" "list_all (list_all short_cell) dss"
  shows "map (sort_key cid) css = map (sort_key cid) dss"
  using assms
proof (induction css arbitrary: dss d rule: rev_induct)
  case Nil
  then show ?case by simp
next
  case (snoc cs css)
  then obtain ds dss' where dss: "dss = dss' @ [ds]" and len: "length css = length dss'"
    by (cases dss rule: rev_cases) auto
  obtain e f where e: "chain_from sha p r css = Inr e" and f: "chain_from sha p r dss' = Inr f"
    and de: "revision_chain_digest_step sha e (r + length css) cs = Inr d"
    and df: "revision_chain_digest_step sha f (r + length css) ds = Inr d"
    using snoc.prems(1,2) dss len by (auto simp: chain_from_append)
  note inputs = chain_inputs_append [OF e, of "[cs]"] chain_inputs_append [OF f, of "[ds]"]
  have "chain_input e (r + length css) cs = chain_input f (r + length css) ds"
    using snoc.prems(4) chain_step_input [OF de] chain_step_input [OF df] dss len inputs
    by (auto dest: inj_onD)
  then have ef: "e = f \<and> sort_key cid cs = sort_key cid ds"
    using snoc.prems(5,6) dss chain_step_input [OF de] chain_step_input [OF df]
    by (intro chain_input_inj) auto
  have "map (sort_key cid) css = map (sort_key cid) dss'"
  proof (rule snoc.IH)
    show "inj_on sha (set (chain_inputs sha p r css) \<union> set (chain_inputs sha p r dss'))"
      using snoc.prems(4) dss inputs by (auto elim!: inj_on_subset)
  qed (use e f ef len snoc.prems(5,6) dss in auto)
  with ef dss show ?case by simp
qed

section \<open>The set digest\<close>

definition SET_HASH_BITS :: nat where "SET_HASH_BITS = 2048"
definition SET_HASH_BYTES :: nat where "SET_HASH_BYTES = SET_HASH_BITS div 8"
definition SET_HASH_MODULUS :: int where "SET_HASH_MODULUS = 2 ^ SET_HASH_BITS"
definition CELL_DOMAIN :: bytes where "CELL_DOMAIN = ''ArchHub/universal-cell/v2''"
definition SNAPSHOT_DOMAIN :: bytes where "SNAPSHOT_DOMAIN = ''ArchHub/universal-cell-snapshot/v2''"
definition DIGEST_V2_PREFIX :: string where "DIGEST_V2_PREFIX = ''v2:''"

text \<open>\<open>shake\<close> is SHAKE-256 with the 256 bytes of output the code asks for.\<close>

definition cell_set_hash :: "(bytes \<Rightarrow> bytes) \<Rightarrow> cell \<Rightarrow> int" where
  "cell_set_hash shake c = int (be_nat (shake (field CELL_DOMAIN @ cell_fields c)))"

definition set_accumulator :: "(bytes \<Rightarrow> bytes) \<Rightarrow> cell list \<Rightarrow> int" where
  "set_accumulator shake cs = foldl (\<lambda>t c. t + cell_set_hash shake c) 0 cs mod SET_HASH_MODULUS"

definition accumulator_add :: "(bytes \<Rightarrow> bytes) \<Rightarrow> int \<Rightarrow> cell list \<Rightarrow> int" where
  "accumulator_add shake a cs = foldl (\<lambda>t c. t + cell_set_hash shake c) a cs mod SET_HASH_MODULUS"

definition accumulator_remove :: "(bytes \<Rightarrow> bytes) \<Rightarrow> int \<Rightarrow> cell list \<Rightarrow> int" where
  "accumulator_remove shake a cs = foldl (\<lambda>t c. t - cell_set_hash shake c) a cs mod SET_HASH_MODULUS"

text \<open>\<open>hexdigest\<close>: two lower-case hexadecimal digits per byte.\<close>

definition hex_digit :: "nat \<Rightarrow> char" where
  "hex_digit n = (if n < 10 then char_of (48 + n) else char_of (87 + n))"

definition hex :: "bytes \<Rightarrow> string" where
  "hex bs = concat (map (\<lambda>b. [hex_digit (of_char b div 16), hex_digit (of_char b mod 16)]) bs)"

definition snapshot_digest_v2 :: "(bytes \<Rightarrow> bytes) \<Rightarrow> nat \<Rightarrow> int \<Rightarrow> string result" where
  "snapshot_digest_v2 sha revision accumulator =
     (if \<not> (0 \<le> accumulator \<and> accumulator < SET_HASH_MODULUS)
      then Inl (ValueError ''accumulator is outside the set-hash modulus'')
      else Inr (DIGEST_V2_PREFIX @ hex (sha (field SNAPSHOT_DOMAIN @ field (show_nat revision) @
             field (be_bytes SET_HASH_BYTES (nat accumulator))))))"

definition is_v2_digest :: "string \<Rightarrow> bool" where
  "is_v2_digest v \<longleftrightarrow> starts_with v DIGEST_V2_PREFIX \<and> py_len v = py_len DIGEST_V2_PREFIX + 64"

lemma foldl_add_sum: "foldl (\<lambda>t c. t + f c) (a::int) cs = a + (\<Sum>c \<leftarrow> cs. f c)"
  by (induction cs arbitrary: a) auto

lemma foldl_sub_sum: "foldl (\<lambda>t c. t - f c) (a::int) cs = a - (\<Sum>c \<leftarrow> cs. f c)"
  by (induction cs arbitrary: a) auto

lemmas accumulator_sums = set_accumulator_def accumulator_add_def accumulator_remove_def
  foldl_add_sum foldl_sub_sum

text \<open>Moving an accumulator by what changed gives the accumulator of the changed set.\<close>

lemma accumulator_step:
  assumes "mset xs = kept + mset olds" "mset ys = kept + mset news"
  shows "accumulator_add shake (accumulator_remove shake (set_accumulator shake xs) olds) news =
    set_accumulator shake ys"
proof -
  have sums: "(\<Sum>c \<leftarrow> zs. cell_set_hash shake c) = (\<Sum>c \<in># mset zs. cell_set_hash shake c)" for zs
    by (simp flip: mset_map sum_mset_sum_list)
  have "(\<Sum>c \<leftarrow> xs. cell_set_hash shake c) - (\<Sum>c \<leftarrow> olds. cell_set_hash shake c)
        + (\<Sum>c \<leftarrow> news. cell_set_hash shake c) = (\<Sum>c \<leftarrow> ys. cell_set_hash shake c)"
    by (simp add: sums assms)
  then show ?thesis
    by (simp add: accumulator_sums mod_simps)
qed

end
