(* ===== verification/Journal.thy ===== *)
theory Journal
  imports Digests
begin

text \<open>
  The durable journal of \<open>universal_cell.py\<close>: \<open>_SqliteJournal\<close> and
  \<open>_SqliteHistoryReader\<close>. A \<open>journal\<close> holds the three tables as lists of rows
  (\<open>revisions\<close>, \<open>cell_versions\<close> in insertion order, \<open>current_cells\<close> keyed by identity), the
  append-only fence flag and the two tables of the accelerator file beside the journal (chain
  checkpoints and recorded set accumulators). A statement is modelled by
  what it selects or changes; a transaction that raises leaves the tables as they were. The
  time stamps of \<open>revisions\<close> are never read and are left out.
\<close>

section \<open>Tables\<close>

type_synonym version_row = "nat \<times> cell"

record journal =
  j_revisions :: "nat list"
  j_versions :: "version_row list"
  j_current :: "(string \<times> nat \<times> cell) list"
  j_fenced :: bool
  j_checkpoints :: "(nat \<times> bytes \<times> nat) list"
  j_recorded :: "(nat \<times> nat \<times> nat \<times> bytes) list"

definition empty_tables :: journal where
  "empty_tables = \<lparr>j_revisions = [], j_versions = [], j_current = [], j_fenced = True,
     j_checkpoints = [], j_recorded = []\<rparr>"

text \<open>Rows of one revision, \<open>ORDER BY cell_id\<close>.\<close>

definition rows_of :: "version_row list \<Rightarrow> nat \<Rightarrow> cell list" where
  "rows_of vs r = sort_key cid (map snd (filter (\<lambda>(v, c). v = r) vs))"

text \<open>\<open>WHERE cell_id = k AND revision <= r ORDER BY revision DESC LIMIT 1\<close>.\<close>

fun newest_at :: "version_row list \<Rightarrow> string \<Rightarrow> nat \<Rightarrow> version_row option" where
  "newest_at [] k r = None"
| "newest_at ((v, c) # vs) k r =
     (if cid c = k \<and> v \<le> r
      then (case newest_at vs k r of
              None \<Rightarrow> Some (v, c)
            | Some (v', c') \<Rightarrow> if v < v' then Some (v', c') else Some (v, c))
      else newest_at vs k r)"

section \<open>Opening and appending\<close>

text \<open>
  \<open>_insert_versions\<close>: the primary key \<open>(revision, cell_id)\<close> refuses a repeated row.
\<close>

fun insert_versions :: "nat \<Rightarrow> cell list \<Rightarrow> version_row list \<Rightarrow> version_row list result" where
  "insert_versions r [] vs = Inr vs"
| "insert_versions r (c # cs) vs =
     (if \<exists>(v, d) \<in> set vs. v = r \<and> cid d = cid c
      then Inl (IntegrityError ''UNIQUE constraint failed: cell_versions.revision, cell_versions.cell_id'')
      else insert_versions r cs (vs @ [(r, c)]))"

definition upsert_current ::
  "nat \<Rightarrow> cell list \<Rightarrow> (string \<times> nat \<times> cell) list \<Rightarrow> (string \<times> nat \<times> cell) list" where
  "upsert_current r cs cur = foldl (\<lambda>t c. AList.update (cid c) (r, c) t) cur cs"

text \<open>The fault injector of the tests: which exception, if any, is raised at a stage.\<close>

type_synonym fault = "string \<Rightarrow> kernel_error option"

definition max_revision :: "journal \<Rightarrow> nat option" where
  "max_revision j = (if j_revisions j = [] then None else Some (Max (set (j_revisions j))))"

text \<open>
  \<open>_append_unlocked\<close>. The journal afterwards comes with the outcome: an exception before the
  commit leaves the tables unchanged, one after it does not undo them. \<open>phys\<close> is the outcome of
  the optional \<open>physical_write\<close>, which touches none of these tables.
\<close>

definition journal_append ::
  "fault \<Rightarrow> unit result \<Rightarrow> journal \<Rightarrow> nat \<Rightarrow> nat \<Rightarrow> cell list \<Rightarrow> journal \<times> unit result" where
  "journal_append fault phys j expected next_rev changed =
     (case max_revision j of
        None \<Rightarrow> (j, Inl (TypeError ''int() argument must not be None''))
      | Some durable \<Rightarrow>
          if durable \<noteq> expected
          then (j, Inl (Conflict ''durable revision''))
          else if next_rev \<in> set (j_revisions j)
          then (j, Inl (IntegrityError ''UNIQUE constraint failed: revisions.revision''))
          else
            (case insert_versions next_rev changed (j_versions j) of
               Inl e \<Rightarrow> (j, Inl e)
             | Inr vs \<Rightarrow>
                 let j' = j\<lparr>j_revisions := j_revisions j @ [next_rev], j_versions := vs,
                            j_current := upsert_current next_rev changed (j_current j)\<rparr>
                 in (case phys of
                       Inl e \<Rightarrow> (j, Inl e)
                     | Inr _ \<Rightarrow>
                         (case fault ''before_commit'' of
                            Some e \<Rightarrow> (j, Inl e)
                          | None \<Rightarrow>
                              (case fault ''after_commit'' of
                                 Some e \<Rightarrow> (j', Inl e)
                               | None \<Rightarrow> (j', Inr ()))))))"

text \<open>
  What opening a file does to its tables: a journal without revisions gets its genesis revision;
  a journal whose head index is empty gets it rebuilt from the newest versions.
\<close>

definition rebuild_current :: "version_row list \<Rightarrow> (string \<times> nat \<times> cell) list" where
  "rebuild_current vs =
     map (\<lambda>(v, c). (cid c, v, c))
       (filter (\<lambda>(v, c). \<not> (\<exists>(v', c') \<in> set vs. cid c' = cid c \<and> v < v')) vs)"

definition journal_open :: "journal \<Rightarrow> journal" where
  "journal_open j =
     (if j_revisions j = []
      then j\<lparr>j_revisions := [0], j_versions := j_versions j @ [(0, null_cell)],
             j_current := upsert_current 0 [null_cell] (j_current j)\<rparr>
      else if j_current j = []
      then j\<lparr>j_current := rebuild_current (j_versions j)\<rparr>
      else j)"

section \<open>Loading\<close>

record loaded_state =
  ld_cells :: cells
  ld_revision :: nat
  ld_versions :: "(nat \<times> cell list) list"
  ld_changes :: "(nat \<times> string list) list"

definition no_dangling :: "cells \<Rightarrow> cell list \<Rightarrow> bool" where
  "no_dangling m cs \<longleftrightarrow> list_all (\<lambda>c. m (link0 c) \<noteq> None \<and> m (link1 c) \<noteq> None) cs"

fun load_revisions ::
  "version_row list \<Rightarrow> nat list \<Rightarrow> cells \<Rightarrow> (cells \<times> (nat \<times> cell list) list) result" where
  "load_revisions vs [] current = Inr (current, [])"
| "load_revisions vs (r # rs) current =
     rbind (rmap validate_cell (rows_of vs r)) (\<lambda>_.
     if \<not> no_dangling (put_cells (rows_of vs r) current) (rows_of vs r)
     then Inl (InvalidCell ''durable revision has dangling incidence'')
     else rbind (load_revisions vs rs (put_cells (rows_of vs r) current)) (\<lambda>(m, hist).
          Inr (m, (r, rows_of vs r) # hist)))"

definition journal_load :: "journal \<Rightarrow> loaded_state result" where
  "journal_load j =
     rbind (load_revisions (j_versions j) (sort (j_revisions j)) Map.empty) (\<lambda>(m, hist).
     if hist = [] then Inl (InvalidCell ''durable Cell journal has no revisions'')
     else Inr \<lparr>ld_cells = m, ld_revision = Max (set (map fst hist)), ld_versions = hist,
               ld_changes = map (\<lambda>(r, cs). (r, map cid cs)) hist\<rparr>)"

section \<open>Loading the head\<close>

text \<open>\<open>_load_head_in_transaction\<close>, for a journal without archived partitions.\<close>

record loaded_head =
  lh_cells :: cells
  lh_revision :: nat
  lh_digest :: bytes

text \<open>The checkpoint with the highest revision, and whether it may be resumed from.\<close>

fun last_checkpoint :: "(nat \<times> bytes \<times> nat) list \<Rightarrow> (nat \<times> bytes \<times> nat) option" where
  "last_checkpoint [] = None"
| "last_checkpoint (x # xs) =
     (case last_checkpoint xs of
        None \<Rightarrow> Some x
      | Some y \<Rightarrow> if fst y < fst x then Some x else Some y)"

definition count_rows :: "(nat \<Rightarrow> bool) \<Rightarrow> version_row list \<Rightarrow> nat" where
  "count_rows P vs = length (filter (\<lambda>(v, c). P v) vs)"

definition checkpoint_trusted :: "journal \<Rightarrow> nat \<Rightarrow> (nat \<times> bytes \<times> nat) \<Rightarrow> bool" where
  "checkpoint_trusted j latest x =
     (case x of (r, d, rows) \<Rightarrow>
        j_fenced j \<and>
        take 2 (map snd (filter (\<lambda>(v, c). v = 0) (j_versions j))) = [null_cell] \<and>
        r \<le> latest \<and> length d = 32 \<and>
        length (j_versions j) - count_rows (\<lambda>v. r < v) (j_versions j) = rows)"

text \<open>
  One streamed revision: each row is checked against genesis and for dangling incidence, then
  validated and compared with the identity before it; what is hashed is returned.
\<close>

definition endpoint :: "version_row list \<Rightarrow> string \<Rightarrow> nat \<Rightarrow> bool" where
  "endpoint vs k r \<longleftrightarrow> list_ex (\<lambda>(v, c). cid c = k \<and> v \<le> r) vs"

fun stream_payload ::
  "version_row list \<Rightarrow> nat \<Rightarrow> string option \<Rightarrow> cell list \<Rightarrow> bytes result" where
  "stream_payload vs r None [] = Inl (InvalidCell ''Cell revision contains no changed Cells'')"
| "stream_payload vs r (Some _) [] = Inr []"
| "stream_payload vs r prior (c # cs) =
     (if r = 0 \<and> (prior \<noteq> None \<or> c \<noteq> null_cell)
      then Inl (InvalidCell ''durable Cell genesis revision is invalid'')
      else if \<not> (endpoint vs (link0 c) r \<and> endpoint vs (link1 c) r)
      then Inl (InvalidCell ''durable revision has dangling incidence'')
      else rbind (validate_cell c) (\<lambda>_.
        if (case prior of None \<Rightarrow> False | Some l \<Rightarrow> cid c \<le> l)
        then Inl (InvalidCell ''Cell revision identities are duplicate or unordered'')
        else rbind (stream_payload vs r (Some (cid c)) cs) (\<lambda>b. Inr (cell_fields c @ b))))"

text \<open>
  The loop over the revisions present in the rows (\<open>groupby\<close>): \<open>next_rev\<close> is
  \<open>active_revision + 1\<close>.
\<close>

fun stream_groups ::
  "(bytes \<Rightarrow> bytes) \<Rightarrow> version_row list \<Rightarrow> nat list \<Rightarrow> bytes \<Rightarrow> nat \<Rightarrow> (bytes \<times> nat) result" where
  "stream_groups sha vs [] previous next_rev = Inr (previous, next_rev)"
| "stream_groups sha vs (r # rs) previous next_rev =
     (if r \<noteq> next_rev
      then Inl (InvalidCell ''durable Cell revision history is discontinuous'')
      else if length previous \<noteq> 32
      then Inl (InvalidCell ''Cell revision digest predecessor is invalid'')
      else rbind (stream_payload vs r None (rows_of vs r)) (\<lambda>b.
           stream_groups sha vs rs (sha (chain_prefix previous r @ b)) (Suc next_rev)))"

text \<open>The head index holds exactly the newest versions above the resumed prefix.\<close>

definition head_index_ok :: "journal \<Rightarrow> (nat \<Rightarrow> bool) \<Rightarrow> bool" where
  "head_index_ok j recent =
     (list_all (\<lambda>(v, c). recent v \<longrightarrow> \<not> (\<exists>(v', c') \<in> set (j_versions j). cid c' = cid c \<and> v < v')
         \<longrightarrow> map_of (j_current j) (cid c) = Some (v, c)) (j_versions j) \<and>
      list_all (\<lambda>(k, v, c). recent v \<longrightarrow> (\<exists>(v', c') \<in> set (j_versions j). cid c' = k \<and> v' = v))
        (j_current j))"

definition put_checkpoint :: "nat \<Rightarrow> bytes \<Rightarrow> nat \<Rightarrow> (nat \<times> bytes \<times> nat) list \<Rightarrow> (nat \<times> bytes \<times> nat) list" where
  "put_checkpoint r d rows xs = filter (\<lambda>x. fst x \<noteq> r) xs @ [(r, d, rows)]"

text \<open>
  \<open>_HeadRowReader.read\<close> without its caches: the head index when its row is not newer than the
  pinned revision, else the newest version at or below it.
\<close>

definition point_read :: "journal \<Rightarrow> nat \<Rightarrow> string \<Rightarrow> cell option" where
  "point_read j base k =
     (case map_of (j_current j) k of
        Some (v, c) \<Rightarrow> if v \<le> base then Some c else map_option snd (newest_at (j_versions j) k base)
      | None \<Rightarrow> map_option snd (newest_at (j_versions j) k base))"

definition journal_load_head :: "(bytes \<Rightarrow> bytes) \<Rightarrow> journal \<Rightarrow> journal \<times> loaded_head result" where
  "journal_load_head sha j =
     (let vs = j_versions j; revs = j_revisions j; latest = Max (set revs) in
      if revs = [] \<or> Min (set revs) \<noteq> 0 \<or> Suc latest \<noteq> length revs
      then (j, Inl (InvalidCell ''durable Cell revision history is discontinuous''))
      else
        let resumed = (case last_checkpoint (j_checkpoints j) of
                         None \<Rightarrow> None
                       | Some x \<Rightarrow> if checkpoint_trusted j latest x then Some x else None);
            recent = (\<lambda>v. case resumed of None \<Rightarrow> True | Some (r, _) \<Rightarrow> r < v);
            start = (case resumed of None \<Rightarrow> (zero_digest, 0) | Some (r, d, _) \<Rightarrow> (d, Suc r));
            groups = sort (remdups (filter recent (map fst vs)))
        in (case stream_groups sha vs groups (fst start) (snd start) of
              Inl e \<Rightarrow> (j, Inl e)
            | Inr (digest, next_rev) \<Rightarrow>
                if next_rev \<noteq> Suc latest
                then (j, Inl (InvalidCell ''durable Cell journal has no complete head''))
                else if \<not> head_index_ok j recent
                then (j, Inl (InvalidCell ''durable current Cell index is inconsistent''))
                else
                  let j' = (if recent latest
                            then j\<lparr>j_checkpoints := put_checkpoint latest digest (length vs) (j_checkpoints j)\<rparr>
                            else j)
                  in (j', Inr \<lparr>lh_cells = point_read j' latest, lh_revision = latest,
                               lh_digest = digest\<rparr>)))"

section \<open>History queries\<close>

text \<open>
  \<open>_SqliteHistoryReader\<close>: every query is capped at the head revision the reader was made for.
\<close>

definition admit_revision :: "nat \<Rightarrow> nat \<Rightarrow> nat result" where
  "admit_revision head r = (if head < r then Inl (InvalidCell ''unknown revision'') else Inr r)"

definition revision_cells :: "journal \<Rightarrow> nat \<Rightarrow> nat \<Rightarrow> cell list result" where
  "revision_cells j head r =
     rbind (admit_revision head r) (\<lambda>target.
     if rows_of (j_versions j) target = [] then Inl (InvalidCell ''unknown revision'')
     else rbind (rmap validate_cell (rows_of (j_versions j) target)) (\<lambda>_.
          Inr (rows_of (j_versions j) target)))"

definition lazy_snapshot_at :: "journal \<Rightarrow> nat \<Rightarrow> nat \<Rightarrow> snapshot result" where
  "lazy_snapshot_at j head r =
     rbind (admit_revision head r) (\<lambda>target.
     Inr (Snapshot target (\<lambda>k. map_option snd (newest_at (j_versions j) k target))))"

definition under_root :: "string \<Rightarrow> string \<Rightarrow> bool" where
  "under_root root k \<longleftrightarrow> k = root \<or> (root @ '':'' \<le> k \<and> k < root @ '';'')"

definition reader_revisions_touching :: "journal \<Rightarrow> nat \<Rightarrow> string \<Rightarrow> nat list" where
  "reader_revisions_touching j head root =
     filter (\<lambda>r. r \<le> head)
       (sort (remdups (map fst (filter (\<lambda>(v, c). under_root root (cid c)) (j_versions j)))))"

text \<open>The rows of the newest versions at or below a revision, ordered by identity.\<close>

definition newest_rows :: "version_row list \<Rightarrow> nat \<Rightarrow> cell list" where
  "newest_rows vs r =
     sort_key cid (map snd (filter (\<lambda>(v, c). newest_at vs (cid c) r = Some (v, c)) vs))"

definition snapshot_at :: "journal \<Rightarrow> nat \<Rightarrow> nat \<Rightarrow> snapshot result" where
  "snapshot_at j head r =
     rbind (admit_revision head r) (\<lambda>target.
     let rows = newest_rows (j_versions j) target; m = put_cells rows Map.empty in
     rbind (rmap validate_cell rows) (\<lambda>_.
     if m NULL_CELL_ID = None then Inl (InvalidCell ''revision has no distinguished null Cell'')
     else if \<not> no_dangling m rows then Inl (InvalidCell ''revision has dangling incidence'')
     else Inr (Snapshot target m)))"

definition remove_cells :: "string list \<Rightarrow> cells \<Rightarrow> cells" where
  "remove_cells ks m = (\<lambda>k. if k \<in> set ks then None else m k)"

text \<open>
  \<open>snapshot_stepped_back\<close>: the Cells written at the later revision revert to their newest
  version below it, or disappear. The queries run in chunks of 500 identities, which selects the
  same rows.
\<close>

definition snapshot_stepped_back :: "journal \<Rightarrow> nat \<Rightarrow> snapshot \<Rightarrow> snapshot result" where
  "snapshot_stepped_back j head later =
     (if snap_revision later = 0 then Inl (InvalidCell ''unknown revision'')
      else rbind (admit_revision head (snap_revision later - 1)) (\<lambda>target.
      let vs = j_versions j;
          changed = remdups (map (cid \<circ> snd) (filter (\<lambda>(v, c). v = snap_revision later) vs));
          restored = map snd (filter (\<lambda>(v, c). cid c \<in> set changed \<and> newest_at vs (cid c) target = Some (v, c)) vs);
          kept = map (cid \<circ> snd) (filter (\<lambda>(v, c). v \<le> target \<and> cid c \<in> set changed) vs);
          removed = filter (\<lambda>k. k \<notin> set kept) changed;
          m = remove_cells removed (put_cells restored (snap_cells later))
      in rbind (rmap validate_cell restored) (\<lambda>_.
      if m NULL_CELL_ID = None then Inl (InvalidCell ''revision has no distinguished null Cell'')
      else if \<not> no_dangling m restored then Inl (InvalidCell ''revision has dangling incidence'')
      else if list_ex (\<lambda>k. m k \<noteq> None) removed then Inl (InvalidCell ''revision retained a later cell'')
      else Inr (Snapshot target m))))"

definition reader_cells_at :: "journal \<Rightarrow> nat \<Rightarrow> nat \<Rightarrow> string list \<Rightarrow> (string \<times> cell) list result" where
  "reader_cells_at j head r ids =
     rbind (admit_revision head r) (\<lambda>target.
     let out = put_cells (map snd (filter (\<lambda>(v, c). cid c \<in> set ids \<and>
                 newest_at (j_versions j) (cid c) target = Some (v, c)) (j_versions j))) Map.empty
     in rmap (\<lambda>k. case out k of
          None \<Rightarrow> Inl (InvalidCell ''cell did not exist at revision'')
        | Some c \<Rightarrow> rbind (validate_cell c) (\<lambda>_. Inr (k, c))) (dedup ids))"

definition created_revision :: "journal \<Rightarrow> nat \<Rightarrow> string \<Rightarrow> nat result" where
  "created_revision j head k =
     (if k = [] then Inl (InvalidCell ''Cell identity is invalid'')
      else let rs = map fst (filter (\<lambda>(v, c). cid c = k \<and> v \<le> head) (j_versions j))
           in if rs = [] then Inl (InvalidCell ''unknown cell'') else Inr (Min (set rs)))"

definition cells_written_since :: "journal \<Rightarrow> nat \<Rightarrow> (string \<times> string \<times> string) list" where
  "cells_written_since j r =
     remdups (map (\<lambda>(v, c). (cid c, link0 c, link1 c)) (filter (\<lambda>(v, c). r < v) (j_versions j)))"

text \<open>
  The digest of one revision of the chain (\<open>chain_digest\<close>): the reader's own head, a recorded
  checkpoint whose row count still holds, or a replay from genesis. \<open>covered_rows\<close> is what gates
  the recorded proofs: the number of rows at or below a revision and the newest row id among them
  (rows are numbered from 1 in insertion order).
\<close>

fun covered_rows :: "nat \<Rightarrow> version_row list \<Rightarrow> nat \<Rightarrow> nat \<times> nat" where
  "covered_rows r [] i = (0, 0)"
| "covered_rows r ((v, c) # vs) i =
     (let (n, newest) = covered_rows r vs (Suc i)
      in if v \<le> r then (Suc n, max (Suc i) newest) else (n, newest))"

definition covered :: "journal \<Rightarrow> nat \<Rightarrow> nat \<times> nat" where
  "covered j r = covered_rows r (j_versions j) 0"

fun replay_groups :: "(bytes \<Rightarrow> bytes) \<Rightarrow> version_row list \<Rightarrow> nat list \<Rightarrow> bytes \<Rightarrow> nat \<Rightarrow> (bytes \<times> nat) result" where
  "replay_groups sha vs [] previous next_rev = Inr (previous, next_rev)"
| "replay_groups sha vs (r # rs) previous next_rev =
     (if r \<noteq> next_rev
      then Inl (InvalidCell ''durable Cell revision history is discontinuous'')
      else rbind (ordered_chain_step sha previous r (rows_of vs r)) (\<lambda>d.
           replay_groups sha vs rs d (Suc next_rev)))"

record reader =
  rd_revision :: nat
  rd_digest :: bytes

definition reader_chain_digest :: "(bytes \<Rightarrow> bytes) \<Rightarrow> journal \<Rightarrow> reader \<Rightarrow> nat \<Rightarrow> bytes result" where
  "reader_chain_digest sha j rd r =
     rbind (admit_revision (rd_revision rd) r) (\<lambda>target.
     if target = rd_revision rd then Inr (rd_digest rd)
     else
       let replay = rbind (replay_groups sha (j_versions j)
             (sort (remdups (filter (\<lambda>v. v \<le> target) (map fst (j_versions j))))) zero_digest 0) (\<lambda>(d, n).
             if n \<noteq> Suc target then Inl (InvalidCell ''unknown revision'') else Inr d)
       in (case map_of (j_checkpoints j) target of
             Some (d, rows) \<Rightarrow>
               if j_fenced j \<and> count_rows (\<lambda>v. v \<le> target) (j_versions j) = rows then Inr d else replay
           | None \<Rightarrow> replay))"

definition reader_advance :: "(bytes \<Rightarrow> bytes) \<Rightarrow> reader \<Rightarrow> nat \<Rightarrow> cell list \<Rightarrow> reader result" where
  "reader_advance sha rd revision changed =
     (if revision \<noteq> Suc (rd_revision rd)
      then Inl (InvalidCell ''durable history reader head changed'')
      else rbind (revision_chain_digest_step sha (rd_digest rd) revision changed) (\<lambda>d.
           Inr \<lparr>rd_revision = revision, rd_digest = d\<rparr>))"

definition version_count :: "journal \<Rightarrow> nat \<Rightarrow> nat" where
  "version_count j head = count_rows (\<lambda>v. v \<le> head) (j_versions j)"

end
