(* ===== verification/JournalLaws.thy ===== *)
theory JournalLaws
  imports Journal
begin

text \<open>
  The laws of the journal: what the rows say the graph was at each revision (\<open>state_at\<close>), the
  invariant of a journal that only grew by accepted commits (\<open>journal_ok\<close>), that opening and
  appending keep it, and that every reader (whole load, head load with or without a checkpoint,
  snapshot at a revision, one step back, selected Cells) answers with \<open>state_at\<close>.
\<close>

section \<open>Rows and states\<close>

definition unique_rows :: "version_row list \<Rightarrow> bool" where
  "unique_rows vs \<longleftrightarrow> distinct (map (\<lambda>(v, c). (v, cid c)) vs)"

definition state_at :: "version_row list \<Rightarrow> nat \<Rightarrow> cells" where
  "state_at vs r = (\<lambda>k. map_option snd (newest_at vs k r))"

lemma unique_rowsD:
  "unique_rows vs \<Longrightarrow> (v, c) \<in> set vs \<Longrightarrow> (v, d) \<in> set vs \<Longrightarrow> cid c = cid d \<Longrightarrow> c = d"
  unfolding unique_rows_def distinct_map inj_on_def by fastforce

lemma newest_at_Some:
  "newest_at vs k r = Some (v, c) \<Longrightarrow>
     (v, c) \<in> set vs \<and> cid c = k \<and> v \<le> r \<and>
     (\<forall>v' c'. (v', c') \<in> set vs \<longrightarrow> cid c' = k \<longrightarrow> v' \<le> r \<longrightarrow> v' \<le> v)"
proof (induction vs k r arbitrary: v c rule: newest_at.induct)
  case (2 w d vs k r)
  show ?case
  proof (cases "cid d = k \<and> w \<le> r")
    case True
    show ?thesis
    proof (cases "newest_at vs k r")
      case None
      then have "\<not> (\<exists>v' c'. (v', c') \<in> set vs \<and> cid c' = k \<and> v' \<le> r)"
      proof (induction vs)
        case (Cons a vs)
        then show ?case by (cases a) (auto split: if_splits option.splits)
      qed simp
      with None True "2.prems" show ?thesis by auto
    next
      case (Some x)
      then obtain w' d' where x: "newest_at vs k r = Some (w', d')" by (cases x) auto
      with True "2.IH"(1) [OF True x] "2.prems" show ?thesis
        by (auto split: if_splits) (meson le_trans not_le)
    qed
  next
    case False
    with "2.IH"(2) "2.prems" show ?thesis by auto
  qed
qed simp

lemma newest_at_None_iff:
  "newest_at vs k r = None \<longleftrightarrow> \<not> (\<exists>v c. (v, c) \<in> set vs \<and> cid c = k \<and> v \<le> r)"
proof (induction vs)
  case (Cons a vs)
  then show ?case by (cases a) (auto split: option.splits)
qed simp

lemma newest_atI:
  assumes "unique_rows vs" "(v, c) \<in> set vs" "cid c = k" "v \<le> r"
    and "\<And>v' c'. (v', c') \<in> set vs \<Longrightarrow> cid c' = k \<Longrightarrow> v' \<le> r \<Longrightarrow> v' \<le> v"
  shows "newest_at vs k r = Some (v, c)"
proof -
  have "newest_at vs k r \<noteq> None" using assms(2-4) newest_at_None_iff by blast
  then obtain w d where wd: "newest_at vs k r = Some (w, d)" by auto
  note new = newest_at_Some [OF this]
  with assms(2-4) have "v \<le> w" by blast
  moreover from new assms(5) have "w \<le> v" by blast
  ultimately have "w = v" by simp
  with newest_at_Some [OF wd] assms(1-3) unique_rowsD have "d = c" by metis
  with wd \<open>w = v\<close> show ?thesis by simp
qed

lemma endpoint_iff: "endpoint vs k r \<longleftrightarrow> state_at vs r k \<noteq> None"
  using newest_at_None_iff [of vs k r] by (auto simp: endpoint_def state_at_def list_ex_iff)

lemma set_rows_of [simp]: "set (rows_of vs r) = {c. (r, c) \<in> set vs}"
  by (force simp: rows_of_def)

lemma distinct_rows_of:
  assumes "unique_rows vs"
  shows "distinct (map cid (rows_of vs r))"
proof -
  have "distinct (map (\<lambda>(v, c). (v, cid c)) (filter (\<lambda>(v, c). v = r) vs))"
    using assms by (auto simp: unique_rows_def distinct_map inj_on_def)
  moreover have "map (\<lambda>(v, c). (v, cid c)) (filter (\<lambda>(v, c). v = r) vs) =
      map (Pair r) (map cid (map snd (filter (\<lambda>(v, c). v = r) vs)))"
    by (induction vs) auto
  ultimately have "distinct (map cid (map snd (filter (\<lambda>(v, c). v = r) vs)))"
    by (metis distinct_map)
  moreover have "mset (map cid (rows_of vs r)) = mset (map cid (map snd (filter (\<lambda>(v, c). v = r) vs)))"
    by (simp add: rows_of_def multiset.map_comp)
  ultimately show ?thesis
    using mset_eq_imp_distinct_iff by blast
qed

lemma sorted_rows_of: "sorted (map cid (rows_of vs r))"
  by (simp add: rows_of_def)

lemma newest_at_skip:
  "(\<And>c. (Suc r, c) \<in> set vs \<Longrightarrow> cid c \<noteq> k) \<Longrightarrow> newest_at vs k (Suc r) = newest_at vs k r"
proof (induction vs)
  case (Cons a vs)
  then show ?case by (cases a) (auto simp: le_Suc_eq split: option.splits)
qed simp

text \<open>The graph of a revision is the graph below it with the rows of the revision laid over.\<close>

lemma state_at_Suc:
  assumes "unique_rows vs"
  shows "state_at vs (Suc r) = put_cells (rows_of vs (Suc r)) (state_at vs r)"
proof (rule ext)
  fix k
  show "state_at vs (Suc r) k = put_cells (rows_of vs (Suc r)) (state_at vs r) k"
  proof (cases "k \<in> cid ` set (rows_of vs (Suc r))")
    case True
    then obtain c where c: "(Suc r, c) \<in> set vs" "cid c = k" by auto
    then have "newest_at vs k (Suc r) = Some (Suc r, c)"
      by (intro newest_atI assms) auto
    moreover have "put_cells (rows_of vs (Suc r)) (state_at vs r) k = Some c"
      using put_cells_in [of c "rows_of vs (Suc r)"] distinct_rows_of [OF assms] c by auto
    ultimately show ?thesis by (simp add: state_at_def)
  next
    case False
    then have "newest_at vs k (Suc r) = newest_at vs k r"
      by (intro newest_at_skip) auto
    with False show ?thesis by (simp add: put_cells_notin state_at_def)
  qed
qed

lemma state_at_0:
  assumes "unique_rows vs"
  shows "state_at vs 0 = put_cells (rows_of vs 0) Map.empty"
proof (rule ext)
  fix k
  show "state_at vs 0 k = put_cells (rows_of vs 0) Map.empty k"
  proof (cases "k \<in> cid ` set (rows_of vs 0)")
    case True
    then obtain c where c: "(0, c) \<in> set vs" "cid c = k" by auto
    then have "newest_at vs k 0 = Some (0, c)" by (intro newest_atI assms) auto
    moreover have "put_cells (rows_of vs 0) Map.empty k = Some c"
      using put_cells_in [of c "rows_of vs 0"] distinct_rows_of [OF assms] c by auto
    ultimately show ?thesis by (simp add: state_at_def)
  next
    case False
    then have "newest_at vs k 0 = None" by (auto simp: newest_at_None_iff)
    with False show ?thesis by (simp add: put_cells_notin state_at_def)
  qed
qed

lemma newest_at_append:
  "(\<And>v c. (v, c) \<in> set ys \<Longrightarrow> r < v) \<Longrightarrow> newest_at (xs @ ys) k r = newest_at xs k r"
proof (induction xs)
  case Nil
  then have "newest_at ys k r = None" unfolding newest_at_None_iff by (meson not_le)
  then show ?case by simp
next
  case (Cons a xs)
  then show ?case by (cases a) auto
qed

lemma state_at_append:
  "(\<And>v c. (v, c) \<in> set ys \<Longrightarrow> r < v) \<Longrightarrow> state_at (xs @ ys) r = state_at xs r"
  by (simp add: state_at_def newest_at_append)

lemma rows_of_append: 
  "(\<And>v c. (v, c) \<in> set xs \<Longrightarrow> v \<noteq> r) \<Longrightarrow> rows_of (xs @ map (Pair r) cs) r = sort_key cid cs"
proof -
  assume "\<And>v c. (v, c) \<in> set xs \<Longrightarrow> v \<noteq> r"
  then have "filter (\<lambda>(v, c). v = r) xs = []" by (auto simp: filter_empty_conv)
  then show ?thesis by (simp add: rows_of_def comp_def)
qed

lemma rows_of_append_other:
  "r \<noteq> s \<Longrightarrow> rows_of (xs @ map (Pair s) cs) r = rows_of xs r"
  by (auto simp: rows_of_def filter_False comp_def)

section \<open>Well-formed journals\<close>

definition head_of :: "journal \<Rightarrow> nat" where
  "head_of j = length (j_revisions j) - 1"

definition journal_ok :: "journal \<Rightarrow> bool" where
  "journal_ok j \<longleftrightarrow>
     j_revisions j = [0..<Suc (head_of j)] \<and> unique_rows (j_versions j) \<and>
     keys_distinct (j_current j) \<and>
     (\<forall>(v, c) \<in> set (j_versions j). v \<le> head_of j \<and> cid c \<noteq> [] \<and>
        (v = 0 \<longrightarrow> c = null_cell) \<and> (0 < v \<longrightarrow> cid c \<noteq> NULL_CELL_ID) \<and>
        endpoint (j_versions j) (link0 c) v \<and> endpoint (j_versions j) (link1 c) v) \<and>
     (\<forall>r \<le> head_of j. rows_of (j_versions j) r \<noteq> []) \<and>
     (\<forall>k. map_of (j_current j) k = newest_at (j_versions j) k (head_of j))"

lemma journal_okD:
  assumes "journal_ok j"
  shows "j_revisions j = [0..<Suc (head_of j)]" "unique_rows (j_versions j)"
    "\<And>v c. (v, c) \<in> set (j_versions j) \<Longrightarrow> v \<le> head_of j"
    "\<And>v c. (v, c) \<in> set (j_versions j) \<Longrightarrow> cid c \<noteq> []"
    "\<And>c. (0, c) \<in> set (j_versions j) \<Longrightarrow> c = null_cell"
    "\<And>v c. (v, c) \<in> set (j_versions j) \<Longrightarrow> 0 < v \<Longrightarrow> cid c \<noteq> NULL_CELL_ID"
    "\<And>v c. (v, c) \<in> set (j_versions j) \<Longrightarrow> endpoint (j_versions j) (link0 c) v"
    "\<And>v c. (v, c) \<in> set (j_versions j) \<Longrightarrow> endpoint (j_versions j) (link1 c) v"
    "\<And>r. r \<le> head_of j \<Longrightarrow> rows_of (j_versions j) r \<noteq> []"
    "\<And>k. map_of (j_current j) k = newest_at (j_versions j) k (head_of j)"
    "keys_distinct (j_current j)"
  using assms unfolding journal_ok_def by blast+

lemma max_revision_ok: "journal_ok j \<Longrightarrow> max_revision j = Some (head_of j)"
  using journal_okD(1) [of j] by (auto simp: max_revision_def intro!: Max_eqI)

lemma rows_of_genesis:
  assumes "journal_ok j"
  shows "rows_of (j_versions j) 0 = [null_cell]"
proof -
  have sub: "set (rows_of (j_versions j) 0) \<subseteq> {null_cell}"
    using journal_okD(5) [OF assms] by auto
  have ne: "rows_of (j_versions j) 0 \<noteq> []"
    by (rule journal_okD(9) [OF assms]) simp
  have "distinct (rows_of (j_versions j) 0)"
    using distinct_rows_of [OF journal_okD(2) [OF assms]] by (metis distinct_map)
  then have "length (rows_of (j_versions j) 0) \<le> 1"
    using card_mono [OF _ sub] by (simp add: distinct_card del: set_rows_of)
  with ne sub show ?thesis by (cases "rows_of (j_versions j) 0") auto
qed

lemma state_at_head_current: "journal_ok j \<Longrightarrow> map_option snd (map_of (j_current j) k) = state_at (j_versions j) (head_of j) k"
  by (simp add: journal_okD(10) state_at_def)

lemma state_at_mono:
  "r \<le> s \<Longrightarrow> state_at vs r k \<noteq> None \<Longrightarrow> state_at vs s k \<noteq> None"
  unfolding endpoint_iff [symmetric] endpoint_def list_ex_iff by (blast intro: le_trans)

lemma state_at_rowD:
  "state_at vs r k = Some c \<Longrightarrow> \<exists>v. (v, c) \<in> set vs \<and> v \<le> r \<and> cid c = k"
  unfolding state_at_def using newest_at_Some by fastforce

lemma finite_dom_state_at: "finite (dom (state_at vs r))"
proof (rule finite_subset)
  show "dom (state_at vs r) \<subseteq> cid ` snd ` set vs"
    using state_at_rowD [of vs r] by force
qed simp

text \<open>Every revision of a well-formed journal is a well-formed graph.\<close>

lemma graph_ok_state_at:
  assumes j: "journal_ok j"
  shows "graph_ok (state_at (j_versions j) r)"
proof (rule graph_okI)
  let ?vs = "j_versions j"
  show "keyed (state_at ?vs r)"
    unfolding keyed_def using state_at_rowD journal_okD(4) [OF j] by blast
  show "closed_graph (state_at ?vs r)"
    unfolding closed_graph_def
  proof (intro allI impI)
    fix k c
    assume "state_at ?vs r k = Some c"
    then obtain v where v: "(v, c) \<in> set ?vs" "v \<le> r" using state_at_rowD by blast
    then show "link0 c \<in> dom (state_at ?vs r) \<and> link1 c \<in> dom (state_at ?vs r)"
      using journal_okD(7,8) [OF j] state_at_mono [OF v(2)] unfolding endpoint_iff by blast
  qed
  have null: "(0, null_cell) \<in> set ?vs"
    using rows_of_genesis [OF j] set_rows_of [of ?vs 0] by auto
  have "newest_at ?vs NULL_CELL_ID r = Some (0, null_cell)"
    using journal_okD(6) [OF j] by (intro newest_atI journal_okD(2) [OF j] null) auto
  then show "state_at ?vs r NULL_CELL_ID = Some null_cell" by (simp add: state_at_def)
qed (rule finite_dom_state_at)

section \<open>Opening and appending\<close>

lemma insert_versions_Inr:
  "insert_versions r cs vs = Inr ws \<longleftrightarrow>
     ws = vs @ map (Pair r) cs \<and> distinct (map cid cs) \<and>
     (\<forall>c \<in> set cs. \<forall>d. (r, d) \<in> set vs \<longrightarrow> cid d \<noteq> cid c)"
proof (induction r cs vs rule: insert_versions.induct)
  case (2 r c cs vs)
  show ?case
  proof (cases "\<exists>(v, d) \<in> set vs. v = r \<and> cid d = cid c")
    case True
    then show ?thesis by auto
  next
    case False
    with 2 show ?thesis by (auto simp: image_iff)
  qed
qed auto

lemma keys_distinct_upsert:
  "keys_distinct cur \<Longrightarrow> keys_distinct (upsert_current r cs cur)"
  unfolding upsert_current_def by (induction cs arbitrary: cur) (auto intro: AList.distinct_update)

lemma map_of_upsert:
  "distinct (map cid cs) \<Longrightarrow>
     map_of (upsert_current r cs cur) k =
       (if \<exists>c \<in> set cs. cid c = k then Some (r, the (put_cells cs Map.empty k)) else map_of cur k)"
proof (induction cs rule: rev_induct)
  case (snoc c cs)
  then show ?case
    by (auto simp: upsert_current_def AList.update_conv' put_cells_append put_cells_notin image_iff)
qed (simp add: upsert_current_def)

lemma unique_rows_append:
  assumes "unique_rows vs" "distinct (map cid cs)" "\<And>v c. (v, c) \<in> set vs \<Longrightarrow> v \<noteq> r"
  shows "unique_rows (vs @ map (Pair r) cs)"
  using assms unfolding unique_rows_def
  by (auto simp: comp_def distinct_map inj_on_def)


text \<open>What a store hands to the journal: the changed Cells of one accepted commit.\<close>

definition commit_rows_ok :: "cells \<Rightarrow> cell list \<Rightarrow> bool" where
  "commit_rows_ok m cs \<longleftrightarrow>
     cs \<noteq> [] \<and> distinct (map cid cs) \<and>
     (\<forall>c \<in> set cs. cid c \<noteq> [] \<and> cid c \<noteq> NULL_CELL_ID \<and>
        link0 c \<in> dom m \<union> cid ` set cs \<and> link1 c \<in> dom m \<union> cid ` set cs)"

definition appended :: "journal \<Rightarrow> cell list \<Rightarrow> journal" where
  "appended j cs = j\<lparr>j_revisions := j_revisions j @ [Suc (head_of j)],
     j_versions := j_versions j @ map (Pair (Suc (head_of j))) cs,
     j_current := upsert_current (Suc (head_of j)) cs (j_current j)\<rparr>"

definition no_fault :: fault where
  "no_fault = (\<lambda>_. None)"

lemma no_row_above: "journal_ok j \<Longrightarrow> (v, c) \<in> set (j_versions j) \<Longrightarrow> v \<noteq> Suc (head_of j)"
  using journal_okD(3) by fastforce

lemma insert_versions_ok:
  assumes "journal_ok j" "distinct (map cid cs)"
  shows "insert_versions (Suc (head_of j)) cs (j_versions j) =
    Inr (j_versions j @ map (Pair (Suc (head_of j))) cs)"
  unfolding insert_versions_Inr using assms(2) no_row_above [OF assms(1)] by blast

text \<open>The four outcomes of an append of good rows to a well-formed journal.\<close>

lemma journal_append_cases:
  assumes j: "journal_ok j" and cs: "distinct (map cid cs)"
  shows "journal_append fault phys j expected (Suc expected) cs =
    (if expected \<noteq> head_of j then (j, Inl (Conflict ''durable revision''))
     else (case phys of Inl e \<Rightarrow> (j, Inl e)
       | Inr _ \<Rightarrow> (case fault ''before_commit'' of Some e \<Rightarrow> (j, Inl e)
           | None \<Rightarrow> (case fault ''after_commit'' of Some e \<Rightarrow> (appended j cs, Inl e)
               | None \<Rightarrow> (appended j cs, Inr ())))))"
  using max_revision_ok [OF j] insert_versions_ok [OF j cs] journal_okD(1) [OF j]
  by (auto simp: journal_append_def appended_def split: sum.split option.split)

lemma length_revisions:
  assumes "journal_ok j"
  shows "length (j_revisions j) = Suc (head_of j)"
  by (subst journal_okD(1) [OF assms]) simp

lemma head_of_appended [simp]: "journal_ok j \<Longrightarrow> head_of (appended j cs) = Suc (head_of j)"
  using length_revisions [of j] by (simp add: appended_def head_of_def)

lemma appended_rows_of:
  assumes "journal_ok j"
  shows "rows_of (j_versions (appended j cs)) (Suc (head_of j)) = sort_key cid cs"
    "r \<le> head_of j \<Longrightarrow> rows_of (j_versions (appended j cs)) r = rows_of (j_versions j) r"
  using no_row_above [OF assms] by (auto simp: appended_def rows_of_append rows_of_append_other)

lemma appended_old_state:
  "r \<le> head_of j \<Longrightarrow> state_at (j_versions (appended j cs)) r = state_at (j_versions j) r"
  by (auto simp: appended_def intro!: state_at_append)

lemma unique_rows_appended:
  "journal_ok j \<Longrightarrow> distinct (map cid cs) \<Longrightarrow> unique_rows (j_versions (appended j cs))"
  using no_row_above by (auto simp: appended_def intro!: unique_rows_append journal_okD(2))

lemma appended_new_state:
  assumes "journal_ok j" "distinct (map cid cs)"
  shows "state_at (j_versions (appended j cs)) (Suc (head_of j)) =
    put_cells cs (state_at (j_versions j) (head_of j))"
proof -
  have "put_cells (sort_key cid cs) m = put_cells cs m" for m
    using assms(2) by (intro put_cells_perm) (auto simp: distinct_map)
  then show ?thesis
    by (simp add: state_at_Suc unique_rows_appended assms appended_rows_of appended_old_state)
qed

lemma journal_ok_appended:
  assumes j: "journal_ok j" and cs: "commit_rows_ok (state_at (j_versions j) (head_of j)) cs"
  shows "journal_ok (appended j cs)"
proof -
  let ?vs = "j_versions (appended j cs)" and ?h = "head_of j"
  have d: "distinct (map cid cs)" and ne: "cs \<noteq> []" using cs by (auto simp: commit_rows_ok_def)
  have vs: "?vs = j_versions j @ map (Pair (Suc ?h)) cs" by (simp add: appended_def)
  have ends: "endpoint ?vs k (Suc ?h)" if "k \<in> dom (state_at (j_versions j) ?h) \<union> cid ` set cs" for k
  proof -
    have "k \<in> dom (state_at ?vs (Suc ?h))" using that by (simp add: appended_new_state [OF j d] del: domIff)
    then show ?thesis by (auto simp: endpoint_iff)
  qed
  have old: "endpoint ?vs k v" if "endpoint (j_versions j) k v" for k v
    using that by (auto simp: vs endpoint_def)
  have "v \<le> Suc ?h \<and> cid c \<noteq> [] \<and> (v = 0 \<longrightarrow> c = null_cell) \<and>
      (0 < v \<longrightarrow> cid c \<noteq> NULL_CELL_ID) \<and> endpoint ?vs (link0 c) v \<and> endpoint ?vs (link1 c) v"
    if "(v, c) \<in> set ?vs" for v c
  proof (cases "(v, c) \<in> set (j_versions j)")
    case True
    with journal_okD(3,4,6,7,8) [OF j this] journal_okD(5) [OF j, of c] show ?thesis
      by (auto intro: old)
  next
    case False
    with that have "v = Suc ?h" "c \<in> set cs" by (auto simp: vs)
    with cs ends [of "link0 c"] ends [of "link1 c"] show ?thesis by (auto simp: commit_rows_ok_def simp del: Un_iff)
  qed
  then have "\<forall>(v, c) \<in> set ?vs. v \<le> Suc ?h \<and> cid c \<noteq> [] \<and> (v = 0 \<longrightarrow> c = null_cell) \<and>
      (0 < v \<longrightarrow> cid c \<noteq> NULL_CELL_ID) \<and> endpoint ?vs (link0 c) v \<and> endpoint ?vs (link1 c) v"
    by blast
  moreover have "rows_of ?vs r \<noteq> []" if "r \<le> Suc ?h" for r
    using that ne journal_okD(9) [OF j] by (cases "r = Suc ?h") (auto simp: appended_rows_of [OF j] simp del: set_rows_of)
  moreover have "map_of (j_current (appended j cs)) k = newest_at ?vs k (Suc ?h)" for k
  proof (cases "\<exists>c \<in> set cs. cid c = k")
    case True
    then obtain c where c: "c \<in> set cs" "cid c = k" by auto
    then have "newest_at ?vs k (Suc ?h) = Some (Suc ?h, c)"
      using journal_okD(3) [OF j] by (intro newest_atI unique_rows_appended j d) (auto simp: vs)
    moreover have "the (put_cells cs Map.empty k) = c"
      using put_cells_in [OF c(1) d] c(2) by simp
    ultimately show ?thesis using True by (simp add: appended_def map_of_upsert [OF d])
  next
    case False
    then have "newest_at ?vs k (Suc ?h) = newest_at ?vs k ?h"
      using no_row_above [OF j] by (intro newest_at_skip) (auto simp: vs)
    moreover have "newest_at ?vs k ?h = newest_at (j_versions j) k ?h"
      unfolding vs by (rule newest_at_append) auto
    ultimately show ?thesis
      using False by (auto simp: appended_def map_of_upsert [OF d] journal_okD(10) [OF j])
  qed
  moreover have "j_revisions (appended j cs) = [0..<Suc (Suc ?h)]"
    using journal_okD(1) [OF j] by (simp add: appended_def)
  moreover have "keys_distinct (j_current (appended j cs))"
    using keys_distinct_upsert journal_okD(11) [OF j] by (simp add: appended_def)
  ultimately show ?thesis
    using unique_rows_appended [OF j d] by (simp add: journal_ok_def head_of_appended [OF j] split: prod.splits)
qed

lemma journal_ok_open_empty: "journal_ok (journal_open empty_tables)"
proof -
  have "journal_open empty_tables = \<lparr>j_revisions = [0], j_versions = [(0, null_cell)],
      j_current = [(NULL_CELL_ID, 0, null_cell)], j_fenced = True, j_checkpoints = [],
      j_recorded = []\<rparr>"
    by (simp add: journal_open_def empty_tables_def upsert_current_def)
  then show ?thesis
    by (auto simp: journal_ok_def head_of_def unique_rows_def endpoint_def rows_of_def)
qed

section \<open>Loading the whole history\<close>

lemma keyed_state_at: "journal_ok j \<Longrightarrow> keyed (state_at (j_versions j) r)"
  by (rule graph_okD(1) [OF graph_ok_state_at])

text \<open>The rows of one revision never dangle: both ends of every link existed by then.\<close>

lemma no_dangling_iff: "no_dangling m cs \<longleftrightarrow> (\<forall>c \<in> set cs. link0 c \<in> dom m \<and> link1 c \<in> dom m)"
  by (auto simp: no_dangling_def list_all_iff)

lemma rows_closed:
  assumes "journal_ok j" "c \<in> set (rows_of (j_versions j) r)"
  shows "cid c \<noteq> []" "state_at (j_versions j) r (link0 c) \<noteq> None"
    "state_at (j_versions j) r (link1 c) \<noteq> None"
  using journal_okD(4,7,8) [OF assms(1)] assms(2) by (auto simp: endpoint_iff)

lemma validate_rows: "(\<And>c. c \<in> set cs \<Longrightarrow> cid c \<noteq> []) \<Longrightarrow> rmap validate_cell cs = Inr (map (\<lambda>_. ()) cs)"
  by (intro rmap_pure) auto

text \<open>The rows from \<open>n\<close> up, laid over the graph before \<open>n\<close>, give the graph at the head.\<close>

definition state_before :: "version_row list \<Rightarrow> nat \<Rightarrow> cells" where
  "state_before vs n = (case n of 0 \<Rightarrow> Map.empty | Suc m \<Rightarrow> state_at vs m)"

lemma put_rows_of: "unique_rows vs \<Longrightarrow> put_cells (rows_of vs n) (state_before vs n) = state_at vs n"
  by (simp add: state_before_def state_at_0 state_at_Suc split: nat.split)

lemma load_revisions_ok:
  assumes j: "journal_ok j"
  shows "load_revisions (j_versions j) [n..<n + k] (state_before (j_versions j) n) =
    Inr (state_before (j_versions j) (n + k), map (\<lambda>r. (r, rows_of (j_versions j) r)) [n..<n + k])"
proof (induction k arbitrary: n)
  case (Suc k)
  let ?vs = "j_versions j"
  have "rmap validate_cell (rows_of ?vs n) = Inr (map (\<lambda>_. ()) (rows_of ?vs n))"
    using rows_closed(1) [OF j] by (intro validate_rows)
  moreover have "no_dangling (state_at ?vs n) (rows_of ?vs n)"
    using rows_closed(2,3) [OF j] unfolding no_dangling_iff by blast
  moreover have "state_at ?vs n = state_before ?vs (Suc n)" by (simp add: state_before_def)
  ultimately show ?case
    using Suc.IH [of "Suc n"]
    by (simp add: upt_conv_Cons put_rows_of [OF journal_okD(2) [OF j]] del: upt_Suc)
qed simp

lemma journal_load_ok:
  assumes j: "journal_ok j"
  shows "journal_load j = Inr \<lparr>ld_cells = state_at (j_versions j) (head_of j), ld_revision = head_of j,
    ld_versions = map (\<lambda>r. (r, rows_of (j_versions j) r)) [0..<Suc (head_of j)],
    ld_changes = map (\<lambda>r. (r, map cid (rows_of (j_versions j) r))) [0..<Suc (head_of j)]\<rparr>"
proof -
  have "sort (j_revisions j) = [0..<Suc (head_of j)]"
    by (subst journal_okD(1) [OF j]) (rule sort_upt)
  moreover have "load_revisions (j_versions j) [0..<Suc (head_of j)] Map.empty =
      Inr (state_at (j_versions j) (head_of j), map (\<lambda>r. (r, rows_of (j_versions j) r)) [0..<Suc (head_of j)])"
    using load_revisions_ok [OF j, of 0 "Suc (head_of j)"] by (simp add: state_before_def del: upt_Suc)
  moreover have "Max (set [0..<Suc (head_of j)]) = head_of j"
    by (intro Max_eqI) auto
  ultimately show ?thesis
    by (simp add: journal_load_def comp_def del: upt_Suc)
qed

section \<open>Loading the head\<close>

definition chain_digest_at :: "(bytes \<Rightarrow> bytes) \<Rightarrow> version_row list \<Rightarrow> nat \<Rightarrow> bytes result" where
  "chain_digest_at sha vs r = chain_from sha zero_digest 0 (map (rows_of vs) [0..<Suc r])"

text \<open>What the stream checks of one revision, apart from the order of identities.\<close>

definition rows_admitted :: "version_row list \<Rightarrow> nat \<Rightarrow> bool" where
  "rows_admitted vs r \<longleftrightarrow>
     (\<forall>c. (r, c) \<in> set vs \<longrightarrow> endpoint vs (link0 c) r \<and> endpoint vs (link1 c) r) \<and>
     (r = 0 \<longrightarrow> rows_of vs 0 = [null_cell])"

lemma stream_payload_Inr:
  "stream_payload vs r prior cs = Inr b \<longleftrightarrow>
     ordered_payload prior cs = Inr b \<and> (\<forall>c \<in> set cs. endpoint vs (link0 c) r \<and> endpoint vs (link1 c) r) \<and>
     (r = 0 \<longrightarrow> cs = [] \<or> prior = None \<and> cs = [null_cell])"
proof (induction vs r prior cs arbitrary: b rule: stream_payload.induct)
  case (3 vs r prior c cs)
  show ?case
  proof (cases "(r = 0 \<and> (prior \<noteq> None \<or> c \<noteq> null_cell)) \<or> \<not> (endpoint vs (link0 c) r \<and> endpoint vs (link1 c) r)")
    case True
    then show ?thesis by auto
  next
    case False
    then have step: "\<not> (r = 0 \<and> (prior \<noteq> None \<or> c \<noteq> null_cell))"
        "endpoint vs (link0 c) r \<and> endpoint vs (link1 c) r" by auto
    show ?thesis
    proof (cases "cid c = [] \<or> (case prior of None \<Rightarrow> False | Some l \<Rightarrow> cid c \<le> l)")
      case True
      with step show ?thesis by (auto simp: rbind_Inr_iff)
    next
      case ok: False
      note IH = "3.IH"
      have "stream_payload vs r prior (c # cs) = rbind (stream_payload vs r (Some (cid c)) cs) (\<lambda>b. Inr (cell_fields c @ b))"
        using step ok by (auto simp: validate_cell_def)
      moreover have "ordered_payload prior (c # cs) = rbind (ordered_payload (Some (cid c)) cs) (\<lambda>b. Inr (cell_fields c @ b))"
        using ok by (auto simp: validate_cell_def)
      ultimately show ?thesis
        using IH step ok by (auto simp: rbind_Inr_iff validate_cell_def)
    qed
  qed
qed auto

lemma sort_rows_of [simp]: "sort_key cid (rows_of vs r) = rows_of vs r"
  by (simp add: sorted_rows_of sort_key_id_if_sorted)

lemma stream_payload_rows:
  "stream_payload vs r None (rows_of vs r) = Inr b \<longleftrightarrow>
     ordered_payload None (rows_of vs r) = Inr b \<and> rows_admitted vs r"
proof -
  have "rows_of vs r = [] \<Longrightarrow> ordered_payload None (rows_of vs r) \<noteq> Inr b" by simp
  then show ?thesis
    unfolding stream_payload_Inr rows_admitted_def set_rows_of by auto
qed

lemma chain_step_rows_Inr:
  "revision_chain_digest_step sha p r (rows_of vs r) = Inr d \<longleftrightarrow>
     length p = 32 \<and> (\<exists>b. ordered_payload None (rows_of vs r) = Inr b \<and> d = sha (chain_prefix p r @ b))"
  by (auto simp: revision_chain_digest_step_Inr ordered_payload_Inr strict_sorted_iff sorted_rows_of
      simp del: set_rows_of)

text \<open>The streamed groups are accepted exactly when they are the revisions from the start up,
  each admitted, and the result is then the chain digest.\<close>

lemma stream_groups_Inr:
  "stream_groups sha vs rs p n = Inr (d, m) \<longleftrightarrow>
     n \<le> m \<and> rs = [n..<m] \<and> chain_from sha p n (map (rows_of vs) [n..<m]) = Inr d \<and>
     (\<forall>r \<in> {n..<m}. rows_admitted vs r)"
proof (induction rs arbitrary: p n)
  case Nil
  have "n \<le> m \<Longrightarrow> [] = [n..<m] \<Longrightarrow> n = m" by (auto simp: eq_commute [of "[]"])
  then show ?case by auto
next
  case (Cons r rs)
  show ?case
  proof (cases "r = n \<and> length p = 32 \<and> (\<exists>b. stream_payload vs n None (rows_of vs n) = Inr b)")
    case True
    then obtain b where b: "r = n" "length p = 32" "stream_payload vs n None (rows_of vs n) = Inr b" by blast
    let ?q = "sha (chain_prefix p n @ b)"
    have step: "revision_chain_digest_step sha p n (rows_of vs n) = Inr ?q" and adm: "rows_admitted vs n"
      using b by (auto simp: chain_step_rows_Inr stream_payload_rows)
    have "stream_groups sha vs (r # rs) p n = stream_groups sha vs rs ?q (Suc n)"
      using b by simp
    also have "\<dots> = Inr (d, m) \<longleftrightarrow> Suc n \<le> m \<and> rs = [Suc n..<m] \<and>
        chain_from sha ?q (Suc n) (map (rows_of vs) [Suc n..<m]) = Inr d \<and>
        (\<forall>r \<in> {Suc n..<m}. rows_admitted vs r)"
      by (rule Cons.IH)
    also have "\<dots> \<longleftrightarrow> n \<le> m \<and> r # rs = [n..<m] \<and>
        chain_from sha p n (map (rows_of vs) [n..<m]) = Inr d \<and> (\<forall>r \<in> {n..<m}. rows_admitted vs r)"
    proof (cases "n < m")
      case True
      then have "[n..<m] = n # [Suc n..<m]" "{n..<m} = insert n {Suc n..<m}"
        by (auto simp: upt_conv_Cons)
      with True b(1) step adm show ?thesis by auto
    qed auto
    finally show ?thesis .
  next
    case False
    then have "\<not> is_ok (stream_groups sha vs (r # rs) p n)"
      by (cases "stream_payload vs n None (rows_of vs n)") auto
    moreover have "\<not> (n \<le> m \<and> r # rs = [n..<m] \<and> chain_from sha p n (map (rows_of vs) [n..<m]) = Inr d \<and>
        (\<forall>r \<in> {n..<m}. rows_admitted vs r))"
    proof (intro notI)
      assume a: "n \<le> m \<and> r # rs = [n..<m] \<and> chain_from sha p n (map (rows_of vs) [n..<m]) = Inr d \<and>
        (\<forall>r \<in> {n..<m}. rows_admitted vs r)"
      then have "n < m" by (cases "n < m") auto
      with a False show False
        by (auto simp: upt_conv_Cons chain_step_rows_Inr stream_payload_rows)
    qed
    ultimately show ?thesis by (auto simp: is_ok_iff)
  qed
qed

text \<open>Every row the reader can see through a sound index is the newest one.\<close>

lemma newest_existsI:
  assumes "unique_rows vs" "\<exists>v c. (v, c) \<in> set vs \<and> cid c = k"
  shows "\<exists>v c. (v, c) \<in> set vs \<and> cid c = k \<and> \<not> (\<exists>(v', c') \<in> set vs. cid c' = k \<and> v < v')"
proof -
  let ?V = "fst ` {x \<in> set vs. cid (snd x) = k}"
  have "finite ?V" "?V \<noteq> {}" using assms(2) by force+
  then have "Max ?V \<in> ?V" by (rule Max_in)
  then obtain c where "(Max ?V, c) \<in> set vs" "cid c = k" by auto
  moreover have "\<not> (\<exists>(v', c') \<in> set vs. cid c' = k \<and> Max ?V < v')"
    using Max_ge [OF \<open>finite ?V\<close>] by (force simp: not_less [symmetric])
  ultimately show ?thesis by blast
qed

lemma head_index_newest:
  assumes u: "unique_rows (j_versions j)" and idx: "head_index_ok j (\<lambda>_. True)"
    and bound: "\<And>v c. (v, c) \<in> set (j_versions j) \<Longrightarrow> v \<le> h"
  shows "map_of (j_current j) k = newest_at (j_versions j) k h"
proof (cases "\<exists>v c. (v, c) \<in> set (j_versions j) \<and> cid c = k")
  case True
  then obtain v c where vc: "(v, c) \<in> set (j_versions j)" "cid c = k"
    "\<not> (\<exists>(v', c') \<in> set (j_versions j). cid c' = k \<and> v < v')"
    using newest_existsI [OF u] by blast
  then have "map_of (j_current j) k = Some (v, c)"
    using idx by (auto simp: head_index_ok_def list_all_iff)
  moreover have "newest_at (j_versions j) k h = Some (v, c)"
    using vc by (intro newest_atI u) (auto simp: bound not_less)
  ultimately show ?thesis by simp
next
  case False
  then have "map_of (j_current j) k = None"
    using idx by (cases "map_of (j_current j) k") (fastforce simp: head_index_ok_def list_all_iff dest!: map_of_SomeD)+
  moreover have "newest_at (j_versions j) k h = None"
    using False by (auto simp: newest_at_None_iff)
  ultimately show ?thesis by simp
qed

lemma head_index_ok_journal:
  assumes "journal_ok j"
  shows "head_index_ok j recent"
proof -
  have "map_of (j_current j) (cid c) = Some (v, c)"
    if "(v, c) \<in> set (j_versions j)" "\<not> (\<exists>(v', c') \<in> set (j_versions j). cid c' = cid c \<and> v < v')" for v c
    using that unfolding journal_okD(10) [OF assms]
    by (intro newest_atI journal_okD(2,3) [OF assms]) (auto simp: not_less)
  moreover have "\<exists>(v', c') \<in> set (j_versions j). cid c' = k \<and> v' = v"
    if "(k, v, c) \<in> set (j_current j)" "(k, v, c) \<in> set (j_current j)" for k v c
  proof -
    have "newest_at (j_versions j) k (head_of j) = Some (v, c)"
      using that(2) journal_okD(10,11) [OF assms] by (metis map_of_is_SomeI)
    then show ?thesis using newest_at_Some by blast
  qed
  ultimately show ?thesis
    unfolding head_index_ok_def list_all_iff by fastforce
qed

text \<open>A checkpoint is sound when it holds the chain digest of its revision.\<close>

definition checkpoints_ok :: "(bytes \<Rightarrow> bytes) \<Rightarrow> journal \<Rightarrow> bool" where
  "checkpoints_ok sha j \<longleftrightarrow>
     (\<forall>(r, d, n) \<in> set (j_checkpoints j). r \<le> head_of j \<and> chain_digest_at sha (j_versions j) r = Inr d)"

lemma last_checkpoint_in: "last_checkpoint xs = Some x \<Longrightarrow> x \<in> set xs"
  by (induction xs arbitrary: x) (auto split: option.splits if_splits)

lemma groups_upt:
  assumes j: "journal_ok j"
  shows "sort (remdups (filter (\<lambda>v. n \<le> v) (map fst (j_versions j)))) = [n..<Suc (head_of j)]"
proof (rule sorted_distinct_set_unique)
  have "v \<in> fst ` set (j_versions j)" if v: "v \<le> head_of j" for v
  proof -
    have "set (rows_of (j_versions j) v) \<noteq> {}"
      using journal_okD(9) [OF j v] by (simp del: set_rows_of)
    then show ?thesis by (auto intro: rev_image_eqI)
  qed
  moreover have "v \<le> head_of j" if "v \<in> fst ` set (j_versions j)" for v
    using that journal_okD(3) [OF j] by auto
  ultimately have fst_versions: "fst ` set (j_versions j) = {..head_of j}" by blast
  show "set (sort (remdups (filter (\<lambda>v. n \<le> v) (map fst (j_versions j))))) = set [n..<Suc (head_of j)]"
    using fst_versions by auto
qed (auto simp del: upt_Suc)

lemma chain_step_ok:
  assumes "journal_ok j" "r \<le> head_of j" "length p = 32"
  shows "\<exists>x. revision_chain_digest_step sha p r (rows_of (j_versions j) r) = Inr (sha x)"
proof -
  note u = distinct_rows_of [OF journal_okD(2) [OF assms(1)], of r]
  show ?thesis
    using assms(3) journal_okD(9) [OF assms(1,2)] rows_closed(1) [OF assms(1)] u
    unfolding revision_chain_digest_step_Inr by blast
qed

lemma chain_from_ok:
  assumes j: "journal_ok j" and sha: "\<And>x. length (sha x) = 32"
  shows "length p = 32 \<Longrightarrow> n + k \<le> Suc (head_of j) \<Longrightarrow>
    \<exists>d. chain_from sha p n (map (rows_of (j_versions j)) [n..<n + k]) = Inr d \<and> length d = 32"
proof (induction k arbitrary: n p)
  case (Suc k)
  obtain x where x: "revision_chain_digest_step sha p n (rows_of (j_versions j) n) = Inr (sha x)"
    using chain_step_ok [OF j _ Suc.prems(1), of n] Suc.prems(2) by auto
  have "\<exists>d. chain_from sha (sha x) (Suc n) (map (rows_of (j_versions j)) [Suc n..<Suc n + k]) = Inr d \<and> length d = 32"
    using Suc.prems(2) by (intro Suc.IH) (auto simp: sha)
  with x show ?case by (simp add: upt_conv_Cons del: upt_Suc)
qed simp

lemma chain_digest_ok:
  assumes "journal_ok j" "\<And>x. length (sha x) = 32" "r \<le> head_of j"
  shows "\<exists>d. chain_digest_at sha (j_versions j) r = Inr d \<and> length d = 32"
  using chain_from_ok [OF assms(1,2), of zero_digest 0 "Suc r"] assms(3)
  by (simp add: chain_digest_at_def zero_digest_def del: upt_Suc)

lemma chain_digest_resume:
  assumes "chain_digest_at sha vs r = Inr d" "r \<le> h"
  shows "chain_from sha d (Suc r) (map (rows_of vs) [Suc r..<Suc h]) = chain_digest_at sha vs h"
proof -
  have "[0..<Suc h] = [0..<Suc r] @ [Suc r..<Suc h]"
    using assms(2) upt_add_eq_append [of 0 "Suc r" "h - r"] by simp
  with assms(1) show ?thesis
    by (simp add: chain_digest_at_def chain_from_append del: upt_Suc)
qed

lemma rows_admitted_ok: "journal_ok j \<Longrightarrow> rows_admitted (j_versions j) r"
  using journal_okD(7,8) rows_of_genesis by (auto simp: rows_admitted_def)

lemma point_read_head:
  assumes "journal_ok j" "j_current j' = j_current j" "j_versions j' = j_versions j"
  shows "point_read j' (head_of j) = state_at (j_versions j) (head_of j)"
proof
  fix k
  show "point_read j' (head_of j) k = state_at (j_versions j) (head_of j) k"
    using journal_okD(10) [OF assms(1), of k] newest_at_Some [of "j_versions j" k "head_of j"]
    by (cases "newest_at (j_versions j) k (head_of j)")
      (auto simp: point_read_def state_at_def assms(2,3))
qed

lemma Max_revisions: "journal_ok j \<Longrightarrow> Max (set (j_revisions j)) = head_of j"
  using max_revision_ok [of j] by (auto simp: max_revision_def split: if_splits)

lemma Min_revisions: "journal_ok j \<Longrightarrow> Min (set (j_revisions j)) = 0"
  using journal_okD(1) [of j] by (auto intro!: Min_eqI)

text \<open>The head of a well-formed journal always loads, and loads what the history says, with or
  without a checkpoint to resume from.\<close>

lemma journal_load_head_ok:
  assumes j: "journal_ok j" and c: "checkpoints_ok sha j" and sha: "\<And>x. length (sha x) = 32"
  shows "\<exists>d n. chain_digest_at sha (j_versions j) (head_of j) = Inr d \<and>
    snd (journal_load_head sha j) =
      Inr \<lparr>lh_cells = state_at (j_versions j) (head_of j), lh_revision = head_of j, lh_digest = d\<rparr> \<and>
    (fst (journal_load_head sha j) = j \<or>
     fst (journal_load_head sha j) = j\<lparr>j_checkpoints := put_checkpoint (head_of j) d n (j_checkpoints j)\<rparr>)"
proof -
  let ?vs = "j_versions j" and ?h = "head_of j"
  obtain d where d: "chain_digest_at sha ?vs ?h = Inr d" using chain_digest_ok [of j sha ?h] j sha by auto
  define resumed where "resumed = (case last_checkpoint (j_checkpoints j) of None \<Rightarrow> None
     | Some x \<Rightarrow> if checkpoint_trusted j ?h x then Some x else None)"
  define recent where "recent = (\<lambda>v. case resumed of None \<Rightarrow> True | Some (r, _) \<Rightarrow> r < v)"
  define start where "start = (case resumed of None \<Rightarrow> (zero_digest, 0) | Some (r, d, _) \<Rightarrow> (d, Suc r))"
  have st: "chain_from sha (fst start) (snd start) (map (rows_of ?vs) [snd start..<Suc ?h]) = Inr d \<and>
      snd start \<le> Suc ?h \<and> recent = (\<lambda>v. snd start \<le> v)"
  proof (cases resumed)
    case None
    then show ?thesis using d by (simp add: start_def recent_def chain_digest_at_def del: upt_Suc)
  next
    case (Some x)
    obtain r e n where x: "x = (r, e, n)" by (cases x)
    have "x \<in> set (j_checkpoints j)"
      using Some last_checkpoint_in by (auto simp: resumed_def split: option.splits if_splits)
    then have "r \<le> ?h" "chain_digest_at sha ?vs r = Inr e" using c x by (auto simp: checkpoints_ok_def)
    then show ?thesis
      using d Some x chain_digest_resume by (simp add: start_def recent_def Suc_le_eq del: upt_Suc)
  qed
  have "stream_groups sha ?vs (sort (remdups (filter recent (map fst ?vs)))) (fst start) (snd start) =
      Inr (d, Suc ?h)"
    using st groups_upt [OF j, of "snd start"] rows_admitted_ok [OF j]
    by (simp add: stream_groups_Inr del: upt_Suc)
  moreover have "j_revisions j \<noteq> []" "length (j_revisions j) = Suc ?h"
    using length_revisions [OF j] by auto
  moreover have "(case resumed of None \<Rightarrow> True | Some (r, _) \<Rightarrow> r < ?h) = recent ?h"
    by (simp add: recent_def)
  ultimately have "journal_load_head sha j =
      (let j' = (if recent ?h then j\<lparr>j_checkpoints := put_checkpoint ?h d (length ?vs) (j_checkpoints j)\<rparr> else j)
       in (j', Inr \<lparr>lh_cells = point_read j' ?h, lh_revision = ?h, lh_digest = d\<rparr>))"
    unfolding journal_load_head_def Let_def Max_revisions [OF j] Min_revisions [OF j]
      resumed_def [symmetric] start_def [symmetric] recent_def [symmetric]
    by (simp add: head_index_ok_journal [OF j])
  then show ?thesis
    using d point_read_head [OF j] by (auto simp: Let_def)
qed

end
