(* ===== verification/JournalRun.thy ===== *)
theory JournalRun
  imports JournalLaws
begin

text \<open>
  What the journal promises over its whole life. \<open>journal_reach\<close> is the journals a process can
  reach: opened fresh, reopened, grown by accepted commits (some of which fail at an injected
  fault, a physical write or a conflict) and loaded, each load leaving its checkpoint behind.
  Every one is well formed, its two loads agree, and its readers answer with the same graphs
  however much is appended later. A cold head load also vouches for tables it did not write.
\<close>

section \<open>Reachable journals\<close>

inductive journal_step :: "(bytes \<Rightarrow> bytes) \<Rightarrow> journal \<Rightarrow> journal \<Rightarrow> bool" for sha where
  reopened: "journal_step sha j (journal_open j)"
| append_step: "commit_rows_ok (state_at (j_versions j) (head_of j)) cs \<Longrightarrow>
    journal_step sha j (fst (journal_append fault phys j expected (Suc expected) cs))"
| load_step: "journal_step sha j (fst (journal_load_head sha j))"

definition journal_reach :: "(bytes \<Rightarrow> bytes) \<Rightarrow> journal \<Rightarrow> bool" where
  "journal_reach sha j \<longleftrightarrow> (journal_step sha)\<^sup>*\<^sup>* (journal_open empty_tables) j"

inductive_cases journal_stepE: "journal_step sha j j'"

lemma commit_rows_distinct: "commit_rows_ok m cs \<Longrightarrow> distinct (map cid cs)"
  by (simp add: commit_rows_ok_def)

lemma journal_ok_open: "journal_ok j \<Longrightarrow> journal_open j = j"
  using journal_okD(1,9,10) [of j]
proof -
  assume j: "journal_ok j"
  have "map_of (j_current j) NULL_CELL_ID \<noteq> None"
    using graph_okD(3) [OF graph_ok_state_at [OF j, of "head_of j"]] journal_okD(10) [OF j]
    by (auto simp: state_at_def)
  then have "j_current j \<noteq> []" by auto
  moreover have "j_revisions j \<noteq> []" using length_revisions [OF j] by auto
  ultimately show ?thesis by (simp add: journal_open_def)
qed

lemma journal_append_states:
  assumes "journal_ok j" "distinct (map cid cs)"
  shows "fst (journal_append fault phys j expected (Suc expected) cs) \<in> {j, appended j cs}"
  by (simp add: journal_append_cases [OF assms] split: sum.split option.split)

lemma chain_digest_at_appended:
  "journal_ok j \<Longrightarrow> r \<le> head_of j \<Longrightarrow>
     chain_digest_at sha (j_versions (appended j cs)) r = chain_digest_at sha (j_versions j) r"
  unfolding chain_digest_at_def by (intro arg_cong [where f = "chain_from sha zero_digest 0"] map_cong)
    (auto simp: appended_rows_of)

lemma checkpoints_ok_appended:
  "journal_ok j \<Longrightarrow> checkpoints_ok sha j \<Longrightarrow> checkpoints_ok sha (appended j cs)"
proof -
  assume j: "journal_ok j" and c: "checkpoints_ok sha j"
  have "j_checkpoints (appended j cs) = j_checkpoints j" by (simp add: appended_def)
  with c show ?thesis
    by (auto simp: checkpoints_ok_def chain_digest_at_appended j)
qed

lemma journal_ok_checkpoints [simp]:
  "head_of (j\<lparr>j_checkpoints := xs\<rparr>) = head_of j" "journal_ok (j\<lparr>j_checkpoints := xs\<rparr>) = journal_ok j"
  by (simp_all add: head_of_def journal_ok_def)

text \<open>One step keeps the invariant, and leaves the rows alone or appends one accepted commit.\<close>

lemma step_ok:
  assumes "journal_step sha j j'" "journal_ok j" "checkpoints_ok sha j" "\<And>x. length (sha x) = 32"
  shows "journal_ok j' \<and> checkpoints_ok sha j' \<and>
    (j_versions j' = j_versions j \<and> head_of j' = head_of j \<or>
     (\<exists>cs. commit_rows_ok (state_at (j_versions j) (head_of j)) cs \<and> j' = appended j cs))"
  using assms(1)
proof (cases rule: journal_step.cases)
  case reopened
  with assms(2,3) show ?thesis by (simp add: journal_ok_open)
next
  case (append_step cs fault phys expected)
  then have "j' \<in> {j, appended j cs}"
    using assms(2) by (auto dest!: journal_append_states [OF _ commit_rows_distinct])
  then show ?thesis
    using append_step(2) assms(2,3) journal_ok_appended checkpoints_ok_appended by auto
next
  case load_step
  obtain d n where "chain_digest_at sha (j_versions j) (head_of j) = Inr d"
    "j' = j \<or> j' = j\<lparr>j_checkpoints := put_checkpoint (head_of j) d n (j_checkpoints j)\<rparr>"
    using journal_load_head_ok [OF assms(2,3,4)] load_step by blast
  then show ?thesis
    using assms(2,3) by (auto simp: checkpoints_ok_def put_checkpoint_def)
qed

lemma reach_ok:
  assumes "journal_reach sha j" "\<And>x. length (sha x) = 32"
  shows "journal_ok j \<and> checkpoints_ok sha j"
  using assms(1) unfolding journal_reach_def
proof (induction rule: rtranclp_induct)
  case base
  show ?case by (simp add: journal_ok_open_empty) (simp add: checkpoints_ok_def journal_open_def empty_tables_def)
next
  case (step j j')
  then show ?case using step_ok [OF step.hyps(2)] assms(2) by blast
qed

text \<open>
  C13: A durable journal reads the same way however it is read. In any journal that grew by
  accepted commits, through reopenings, failed appends and checkpointed loads, the whole load and
  the head load both succeed, publish the same well-formed graph at the same revision, and the
  head's digest is the revision chain over exactly the Cells the whole load replays.
\<close>

theorem journal_loads_agree:
  assumes "journal_reach sha j" "\<And>x. length (sha x) = 32"
  shows "\<exists>ld lh. journal_load j = Inr ld \<and> snd (journal_load_head sha j) = Inr lh \<and>
    lh_cells lh = ld_cells ld \<and> lh_revision lh = ld_revision ld \<and> graph_ok (lh_cells lh) \<and>
    chain_from sha zero_digest 0 (map snd (ld_versions ld)) = Inr (lh_digest lh)"
proof -
  have j: "journal_ok j" and c: "checkpoints_ok sha j" using reach_ok assms by blast+
  show ?thesis
    using journal_load_ok [OF j] journal_load_head_ok [OF j c assms(2)] graph_ok_state_at [OF j, of "head_of j"]
    by (auto simp: chain_digest_at_def comp_def simp del: upt_Suc)
qed

definition fixed_sha :: "bytes \<Rightarrow> bytes" where
  "fixed_sha x = replicate 32 (CHR ''x'')"

theorem journal_loads_agree_witness:
  "\<exists>j ld lh. journal_reach fixed_sha j \<and> j_versions j = [(0, null_cell), (1, Cell ''a'' ''a'' NULL_CELL_ID [])] \<and>
     journal_load j = Inr ld \<and> snd (journal_load_head fixed_sha j) = Inr lh \<and> lh_cells lh = ld_cells ld"
proof -
  let ?j = "journal_open empty_tables" and ?cs = "[Cell ''a'' ''a'' NULL_CELL_ID []]"
  have "fst (journal_append no_fault (Inr ()) ?j 0 (Suc 0) ?cs) = appended ?j ?cs"
    by (simp add: journal_append_cases [OF journal_ok_open_empty] no_fault_def)
      (simp add: head_of_def journal_open_def empty_tables_def)
  moreover have "commit_rows_ok (state_at (j_versions ?j) (head_of ?j)) ?cs"
    using graph_okD(3) [OF graph_ok_state_at [OF journal_ok_open_empty]]
    by (auto simp: commit_rows_ok_def NULL_CELL_ID_def)
  ultimately have reach: "journal_reach fixed_sha (appended ?j ?cs)"
    using journal_step.append_step [of ?j ?cs fixed_sha no_fault "Inr ()" 0]
    by (simp add: journal_reach_def r_into_rtranclp)
  have vs: "j_versions (appended ?j ?cs) = [(0, null_cell), (1, Cell ''a'' ''a'' NULL_CELL_ID [])]"
    by (simp add: appended_def journal_open_def empty_tables_def head_of_def)
  show ?thesis
    using journal_loads_agree [OF reach] reach vs by (auto simp: fixed_sha_def)
qed

section \<open>Tables from elsewhere\<close>

lemma chain_from_ids:
  "chain_from sha p n css = Inr d \<Longrightarrow> cs \<in> set css \<Longrightarrow> c \<in> set cs \<Longrightarrow> cid c \<noteq> []"
  by (induction css arbitrary: p n) (auto simp: revision_chain_digest_step_Inr)

text \<open>What an accepted cold load has checked, as one fact.\<close>

lemma cold_load_checks:
  assumes "snd (journal_load_head sha j) = Inr lh" "last_checkpoint (j_checkpoints j) = None"
  shows "j_revisions j \<noteq> []" "Suc (Max (set (j_revisions j))) = length (j_revisions j)"
    "stream_groups sha (j_versions j) (sort (remdups (map fst (j_versions j)))) zero_digest 0 =
       Inr (lh_digest lh, Suc (Max (set (j_revisions j))))"
    "head_index_ok j (\<lambda>_. True)" "lh_revision lh = Max (set (j_revisions j))"
    "lh_cells lh = point_read j (lh_revision lh)"
proof -
  have pr: "point_read (j\<lparr>j_checkpoints := xs\<rparr>) = point_read j" for xs
    by (rule ext)+ (simp add: point_read_def split: option.split)
  show "j_revisions j \<noteq> []" "Suc (Max (set (j_revisions j))) = length (j_revisions j)"
    "stream_groups sha (j_versions j) (sort (remdups (map fst (j_versions j)))) zero_digest 0 =
       Inr (lh_digest lh, Suc (Max (set (j_revisions j))))"
    "head_index_ok j (\<lambda>_. True)" "lh_revision lh = Max (set (j_revisions j))"
    "lh_cells lh = point_read j (lh_revision lh)"
    using assms by (auto simp: journal_load_head_def Let_def pr split: if_splits sum.splits)
qed

lemma admitted_rows_graph:
  assumes adm: "\<forall>r \<in> {0..<Suc h}. rows_admitted vs r" and ids: "\<And>v c. (v, c) \<in> set vs \<Longrightarrow> cid c \<noteq> []"
    and r: "r \<le> h"
  shows "keyed (state_at vs r) \<and> closed_graph (state_at vs r) \<and> NULL_CELL_ID \<in> dom (state_at vs r)"
proof (intro conjI)
  show "keyed (state_at vs r)"
    unfolding keyed_def using state_at_rowD ids by blast
  show "closed_graph (state_at vs r)"
    unfolding closed_graph_def
  proof (intro allI impI)
    fix k c
    assume "state_at vs r k = Some c"
    then obtain v where v: "(v, c) \<in> set vs" "v \<le> r" using state_at_rowD by blast
    then have "endpoint vs (link0 c) v" "endpoint vs (link1 c) v"
      using adm r by (auto simp: rows_admitted_def)
    then show "link0 c \<in> dom (state_at vs r) \<and> link1 c \<in> dom (state_at vs r)"
      using state_at_mono [OF v(2)] unfolding endpoint_iff by blast
  qed
  have "rows_admitted vs 0" using adm by simp
  then have "null_cell \<in> set (rows_of vs 0)" by (simp add: rows_admitted_def del: set_rows_of)
  then have "endpoint vs NULL_CELL_ID r" by (auto simp: endpoint_def list_ex_iff intro!: bexI)
  then show "NULL_CELL_ID \<in> dom (state_at vs r)" by (auto simp: endpoint_iff)
qed

text \<open>
  C14: A head load without a checkpoint to trust is an audit. Whatever rows the tables hold, as long as
  their primary keys are unique, if the load accepts them then the revisions are exactly 0 to the
  head, the published graph is the one the version rows determine, every Cell of every revision
  has both its links in the graph of that revision, and the digest is the chain over all rows.
\<close>

theorem cold_head_load_audits:
  assumes load: "snd (journal_load_head sha j) = Inr lh" and cold: "last_checkpoint (j_checkpoints j) = None"
    and keys: "unique_rows (j_versions j)" "distinct (j_revisions j)"
  shows "set (j_revisions j) = {..lh_revision lh} \<and>
    lh_cells lh = state_at (j_versions j) (lh_revision lh) \<and>
    (\<forall>r \<le> lh_revision lh. keyed (state_at (j_versions j) r) \<and> closed_graph (state_at (j_versions j) r) \<and>
       NULL_CELL_ID \<in> dom (state_at (j_versions j) r)) \<and>
    chain_digest_at sha (j_versions j) (lh_revision lh) = Inr (lh_digest lh)"
proof -
  let ?vs = "j_versions j" and ?h = "lh_revision lh"
  note L = cold_load_checks [OF load cold]
  from L(3,5) have groups: "sort (remdups (map fst ?vs)) = [0..<Suc ?h]"
    and chain: "chain_digest_at sha ?vs ?h = Inr (lh_digest lh)"
    and adm: "\<forall>r \<in> {0..<Suc ?h}. rows_admitted ?vs r"
    unfolding stream_groups_Inr chain_digest_at_def by auto
  have "fst ` set ?vs = set (sort (remdups (map fst ?vs)))" by simp
  then have vs: "fst ` set ?vs = {..?h}" unfolding groups by auto
  then have bound: "v \<le> ?h" if "(v, c) \<in> set ?vs" for v c using that by force
  have "cid c \<noteq> []" if "(v, c) \<in> set ?vs" for v c
    using chain_from_ids [OF chain [unfolded chain_digest_at_def], of "rows_of ?vs v" c] bound [OF that] that
    by (simp add: less_Suc_eq_le del: upt_Suc)
  then have graphs: "\<forall>r \<le> ?h. keyed (state_at ?vs r) \<and> closed_graph (state_at ?vs r) \<and>
      NULL_CELL_ID \<in> dom (state_at ?vs r)"
    using admitted_rows_graph [OF adm] by blast
  have "point_read j ?h k = state_at ?vs ?h k" for k
    using head_index_newest [OF keys(1) L(4) bound, where k = k] newest_at_Some [of ?vs k ?h]
    by (cases "newest_at ?vs k ?h") (auto simp: point_read_def state_at_def)
  moreover have "set (j_revisions j) = {..?h}"
  proof (rule card_subset_eq)
    show "set (j_revisions j) \<subseteq> {..?h}" using L(5) by auto
    show "card (set (j_revisions j)) = card {..?h}"
      using L(2,5) keys(2) by (simp add: distinct_card)
  qed simp
  ultimately show ?thesis
    using graphs chain L(6) by auto
qed

text \<open>A table written by hand, whose head index is complete, passes; its load is the theorem's.\<close>

definition handmade :: journal where
  "handmade = empty_tables\<lparr>j_revisions := [0], j_versions := [(0, null_cell)],
     j_current := [(NULL_CELL_ID, 0, null_cell)]\<rparr>"

theorem cold_head_load_audits_witness:
  "\<exists>lh. snd (journal_load_head fixed_sha handmade) = Inr lh \<and>
     lh_cells lh = state_at (j_versions handmade) (lh_revision lh) \<and> lh_revision lh = 0"
proof -
  have "rows_of [(0, null_cell)] 0 = [null_cell]" by (simp add: rows_of_def)
  then obtain lh where lh: "snd (journal_load_head fixed_sha handmade) = Inr lh" "lh_revision lh = 0"
    by (auto simp: journal_load_head_def handmade_def empty_tables_def endpoint_def head_index_ok_def
        rbind_def validate_cell_def zero_digest_def Let_def)
  moreover have "last_checkpoint (j_checkpoints handmade) = None" "unique_rows (j_versions handmade)"
    "distinct (j_revisions handmade)"
    by (simp_all add: handmade_def empty_tables_def unique_rows_def)
  ultimately show ?thesis using cold_head_load_audits by blast
qed

section \<open>Readers of the history\<close>

text \<open>The rows that are newest at a revision, for a choice of identities, lay out its graph.\<close>

definition newest_of :: "version_row list \<Rightarrow> nat \<Rightarrow> (string \<Rightarrow> bool) \<Rightarrow> cell list" where
  "newest_of vs r P = map snd (filter (\<lambda>(v, c). P (cid c) \<and> newest_at vs (cid c) r = Some (v, c)) vs)"

lemma set_newest_of: "set (newest_of vs r P) = {c. P (cid c) \<and> state_at vs r (cid c) = Some c}"
proof -
  have "(\<exists>v. (v, c) \<in> set vs \<and> newest_at vs (cid c) r = Some (v, c)) \<longleftrightarrow> state_at vs r (cid c) = Some c" for c
    using newest_at_Some [of vs "cid c" r] by (fastforce simp: state_at_def)
  then show ?thesis by (fastforce simp: newest_of_def image_iff)
qed

lemma distinct_newest_of:
  assumes "unique_rows vs"
  shows "distinct (map cid (newest_of vs r P))"
proof -
  have "distinct vs" using assms by (auto simp: unique_rows_def distinct_map)
  moreover have "inj_on (cid \<circ> snd) (set (filter (\<lambda>(v, c). P (cid c) \<and> newest_at vs (cid c) r = Some (v, c)) vs))"
  proof (rule inj_onI)
    fix x y
    assume x: "x \<in> set (filter (\<lambda>(v, c). P (cid c) \<and> newest_at vs (cid c) r = Some (v, c)) vs)"
      and y: "y \<in> set (filter (\<lambda>(v, c). P (cid c) \<and> newest_at vs (cid c) r = Some (v, c)) vs)"
      and eq: "(cid \<circ> snd) x = (cid \<circ> snd) y"
    from x have "newest_at vs (cid (snd x)) r = Some x" by (simp add: case_prod_beta)
    moreover from y have "newest_at vs (cid (snd y)) r = Some y" by (simp add: case_prod_beta)
    ultimately show "x = y" using eq by (metis comp_apply option.inject)
  qed
  ultimately show ?thesis
    unfolding newest_of_def map_map distinct_map by simp
qed

lemma put_newest_of:
  assumes "unique_rows vs" "set cs = set (newest_of vs r P)" "distinct (map cid cs)"
  shows "put_cells cs m k = (if P k \<and> state_at vs r k \<noteq> None then state_at vs r k else m k)"
proof (cases "P k \<and> state_at vs r k \<noteq> None")
  case True
  then obtain c where c: "state_at vs r k = Some c" by auto
  then have "cid c = k" using state_at_rowD by blast
  with c True assms(2) have "c \<in> set cs" by (auto simp: set_newest_of)
  from put_cells_in [OF this assms(3)] c True \<open>cid c = k\<close> show ?thesis by simp
next
  case False
  then have "k \<notin> cid ` set cs" using assms(2) by (auto simp: set_newest_of)
  with False show ?thesis by (auto simp: put_cells_notin)
qed

lemma newest_rows_of: "newest_rows vs r = sort_key cid (newest_of vs r (\<lambda>_. True))"
  by (simp add: newest_rows_def newest_of_def)

lemma snapshot_at_ok:
  assumes j: "journal_ok j" and r: "r \<le> head"
  shows "snapshot_at j head r = Inr (Snapshot r (state_at (j_versions j) r))"
proof -
  let ?vs = "j_versions j" and ?rows = "newest_rows (j_versions j) r"
  note u = journal_okD(2) [OF j] and g = graph_ok_state_at [OF j, of r]
  have "put_cells ?rows Map.empty k = state_at ?vs r k" for k
    using put_newest_of [OF u, of ?rows r "\<lambda>_. True" Map.empty k] distinct_newest_of [OF u, of r "\<lambda>_. True"]
    by (auto simp: newest_rows_of distinct_map)
  then have m: "put_cells ?rows Map.empty = state_at ?vs r" by (rule ext)
  have rows: "state_at ?vs r (cid c) = Some c" if "c \<in> set ?rows" for c
    using that by (simp add: newest_rows_of set_newest_of)
  have "rmap validate_cell ?rows = Inr (map (\<lambda>_. ()) ?rows)"
    using rows graph_okD(1) [OF g] by (intro validate_rows) (auto simp: keyed_def)
  moreover have "no_dangling (state_at ?vs r) ?rows"
    unfolding no_dangling_iff using rows closed_graphD [OF graph_okD(2) [OF g]] by blast
  ultimately show ?thesis
    using r graph_okD(3) [OF g] by (simp add: snapshot_at_def admit_revision_def m Let_def)
qed

lemma snapshot_at_unknown: "head < r \<Longrightarrow> snapshot_at j head r = Inl (InvalidCell ''unknown revision'')"
  by (simp add: snapshot_at_def admit_revision_def)

lemma lazy_snapshot_at_ok:
  "r \<le> head \<Longrightarrow> lazy_snapshot_at j head r = Inr (Snapshot r (state_at (j_versions j) r))"
  by (simp add: lazy_snapshot_at_def admit_revision_def state_at_def)

lemma stepped_back_ok:
  assumes j: "journal_ok j" and r: "r \<le> head"
  shows "snapshot_stepped_back j head (Snapshot (Suc r) (state_at (j_versions j) (Suc r))) =
    Inr (Snapshot r (state_at (j_versions j) r))"
proof -
  let ?vs = "j_versions j"
  note u = journal_okD(2) [OF j] and g = graph_ok_state_at [OF j, of r]
  define changed where "changed = remdups (map (cid \<circ> snd) (filter (\<lambda>(v, c). v = Suc r) ?vs))"
  define restored where "restored = newest_of ?vs r (\<lambda>k. k \<in> set changed)"
  define kept where "kept = map (cid \<circ> snd) (filter (\<lambda>(v, c). v \<le> r \<and> cid c \<in> set changed) ?vs)"
  define removed where "removed = filter (\<lambda>k. k \<notin> set kept) changed"
  define m where "m = remove_cells removed (put_cells restored (state_at ?vs (Suc r)))"
  have admit: "admit_revision head r = Inr r" using r by (simp add: admit_revision_def)
  have rest: "map snd (filter (\<lambda>(v, c). cid c \<in> set changed \<and> newest_at ?vs (cid c) r = Some (v, c)) ?vs) =
      restored"
    by (simp add: restored_def newest_of_def)
  have kept: "k \<in> set kept \<longleftrightarrow> k \<in> set changed \<and> state_at ?vs r k \<noteq> None" for k
  proof -
    have "k \<in> set kept \<longleftrightarrow> k \<in> set changed \<and> endpoint ?vs k r"
      by (force simp: kept_def endpoint_def list_ex_iff)
    then show ?thesis by (simp add: endpoint_iff)
  qed
  have same: "state_at ?vs (Suc r) k = state_at ?vs r k" if "k \<notin> set changed" for k
    unfolding state_at_def using that
    by (subst newest_at_skip) (force simp: changed_def)+
  have put: "put_cells restored (state_at ?vs (Suc r)) k =
      (if k \<in> set changed \<and> state_at ?vs r k \<noteq> None then state_at ?vs r k else state_at ?vs (Suc r) k)" for k
    unfolding restored_def by (rule put_newest_of [OF u refl distinct_newest_of [OF u]])
  have m: "m = state_at ?vs r"
    by (rule ext) (use same kept put in \<open>auto simp: m_def remove_cells_def removed_def\<close>)
  have rows: "state_at ?vs r (cid c) = Some c" if "c \<in> set restored" for c
    using that by (simp add: restored_def set_newest_of)
  have "rmap validate_cell restored = Inr (map (\<lambda>_. ()) restored)"
    using rows graph_okD(1) [OF g] by (intro validate_rows) (auto simp: keyed_def)
  moreover have "no_dangling (state_at ?vs r) restored"
    unfolding no_dangling_iff using rows closed_graphD [OF graph_okD(2) [OF g]] by blast
  moreover have "\<not> list_ex (\<lambda>k. state_at ?vs r k \<noteq> None) removed"
    using kept by (auto simp: list_ex_iff removed_def)
  ultimately show ?thesis
    using graph_okD(3) [OF g]
    unfolding snapshot_stepped_back_def snapshot.select_convs diff_Suc_1 admit rbind_simps(2) Let_def
      changed_def [symmetric] rest kept_def [symmetric] removed_def [symmetric] m_def [symmetric] m
    by simp
qed

lemma revision_cells_ok:
  assumes j: "journal_ok j" and r: "r \<le> head" "head \<le> head_of j"
  shows "revision_cells j head r = Inr (rows_of (j_versions j) r)"
proof -
  have "rmap validate_cell (rows_of (j_versions j) r) = Inr (map (\<lambda>_. ()) (rows_of (j_versions j) r))"
    by (intro validate_rows rows_closed(1) [OF j])
  then show ?thesis
    using journal_okD(9) [OF j, of r] r by (simp add: revision_cells_def admit_revision_def)
qed

lemma reader_cells_at_ok:
  assumes j: "journal_ok j" and r: "r \<le> head"
  shows "reader_cells_at j head r ids =
    (if \<forall>k \<in> set ids. state_at (j_versions j) r k \<noteq> None
     then Inr (map (\<lambda>k. (k, the (state_at (j_versions j) r k))) (dedup ids))
     else Inl (InvalidCell ''cell did not exist at revision''))"
proof -
  let ?vs = "j_versions j" and ?st = "state_at (j_versions j) r"
  note u = journal_okD(2) [OF j] and g = graph_okD(1) [OF graph_ok_state_at [OF j, of r]]
  let ?f = "\<lambda>out k. case out k of None \<Rightarrow> Inl (InvalidCell ''cell did not exist at revision'')
        | Some c \<Rightarrow> rbind (validate_cell c) (\<lambda>_. Inr (k, c))"
  have out: "put_cells (newest_of ?vs r (\<lambda>k. k \<in> set ids)) Map.empty k = (if k \<in> set ids then ?st k else None)" for k
    by (subst put_newest_of [OF u refl distinct_newest_of [OF u]]) auto
  have valid: "validate_cell c = Inr ()" if "?st k = Some c" for k c
    using g that by (auto simp: keyed_def)
  have "reader_cells_at j head r ids = rmap (?f (\<lambda>k. if k \<in> set ids then ?st k else None)) (dedup ids)"
    using r out
    by (simp add: reader_cells_at_def admit_revision_def newest_of_def Let_def cong: option.case_cong)
  also have "\<dots> = (if \<forall>k \<in> set ids. ?st k \<noteq> None then Inr (map (\<lambda>k. (k, the (?st k))) (dedup ids))
     else Inl (InvalidCell ''cell did not exist at revision''))"
  proof (cases "\<forall>k \<in> set ids. ?st k \<noteq> None")
    case True
    then have "?f (\<lambda>k. if k \<in> set ids then ?st k else None) k = Inr (k, the (?st k))" if "k \<in> set (dedup ids)" for k
      using that by (fastforce simp: valid)
    then have "rmap (?f (\<lambda>k. if k \<in> set ids then ?st k else None)) (dedup ids) =
        Inr (map (\<lambda>k. (k, the (?st k))) (dedup ids))"
      by (intro rmap_pure)
    with True show ?thesis by simp
  next
    case False
    then have "rmap (?f (\<lambda>k. if k \<in> set ids then ?st k else None)) (dedup ids) =
        Inl (InvalidCell ''cell did not exist at revision'')"
      by (intro rmap_fail) (auto simp: valid split: option.split)
    with False show ?thesis by auto
  qed
  finally show ?thesis .
qed

lemma created_revision_ok:
  assumes j: "journal_ok j"
  shows "created_revision j head k = Inr r \<longleftrightarrow>
    r \<le> head \<and> k \<in> dom (state_at (j_versions j) r) \<and> (\<forall>s < r. k \<notin> dom (state_at (j_versions j) s))"
proof -
  let ?R = "{v. v \<le> head \<and> (\<exists>c. (v, c) \<in> set (j_versions j) \<and> cid c = k)}"
  have rs: "set (map fst (filter (\<lambda>(v, c). cid c = k \<and> v \<le> head) (j_versions j))) = ?R" by force
  have fin: "finite ?R" by simp
  have dom: "k \<in> dom (state_at (j_versions j) s) \<longleftrightarrow> (\<exists>v \<le> s. \<exists>c. (v, c) \<in> set (j_versions j) \<and> cid c = k)" for s
    using endpoint_iff [of "j_versions j" k s] by (auto simp: endpoint_def list_ex_iff)
  have R_dom: "k \<in> dom (state_at (j_versions j) s)" if "s \<in> ?R" for s
    using that unfolding dom by blast
  have dom_R: "\<exists>v \<le> s. v \<in> ?R" if "k \<in> dom (state_at (j_versions j) s)" "s \<le> head" for s
    using that unfolding dom by fastforce
  have ne: "k = [] \<Longrightarrow> ?R = {}" using journal_okD(4) [OF j] by auto
  have "created_revision j head k = Inr r \<longleftrightarrow> ?R \<noteq> {} \<and> r = Min ?R"
  proof -
    have "map fst (filter (\<lambda>(v, c). cid c = k \<and> v \<le> head) (j_versions j)) = [] \<longleftrightarrow> ?R = {}"
      by (simp only: rs [symmetric] set_empty)
    then show ?thesis
      using ne unfolding created_revision_def Let_def rs by auto
  qed
  also have "\<dots> \<longleftrightarrow> r \<in> ?R \<and> (\<forall>s \<in> ?R. r \<le> s)"
    using fin by (metis (no_types, lifting) Min_eqI Min_in Min_le empty_iff)
  also have "\<dots> \<longleftrightarrow> r \<le> head \<and> k \<in> dom (state_at (j_versions j) r) \<and> (\<forall>s < r. k \<notin> dom (state_at (j_versions j) s))"
  proof
    assume r: "r \<in> ?R \<and> (\<forall>s \<in> ?R. r \<le> s)"
    have "k \<notin> dom (state_at (j_versions j) s)" if "s < r" for s
    proof
      assume "k \<in> dom (state_at (j_versions j) s)"
      moreover from r that have "s \<le> head" by simp
      ultimately obtain v where v: "v \<le> s" "v \<in> ?R" using dom_R by blast
      from r v(2) have "r \<le> v" by blast
      with v(1) that show False by simp
    qed
    with r R_dom show "r \<le> head \<and> k \<in> dom (state_at (j_versions j) r) \<and> (\<forall>s < r. k \<notin> dom (state_at (j_versions j) s))"
      by blast
  next
    assume r: "r \<le> head \<and> k \<in> dom (state_at (j_versions j) r) \<and> (\<forall>s < r. k \<notin> dom (state_at (j_versions j) s))"
    have least: "r \<le> s" if "s \<in> ?R" for s
      using r R_dom [OF that] by (metis not_less)
    obtain v where "v \<le> r" "v \<in> ?R" using dom_R r by blast
    with least [of v] have "r \<in> ?R" by simp
    with least show "r \<in> ?R \<and> (\<forall>s \<in> ?R. r \<le> s)" by blast
  qed
  finally show ?thesis .
qed

lemma reader_touching_ok:
  "r \<in> set (reader_revisions_touching j head root) \<longleftrightarrow>
     r \<le> head \<and> (\<exists>c \<in> set (rows_of (j_versions j) r). cid c = root \<or> starts_with (cid c) (root @ '':''))"
  "sorted (reader_revisions_touching j head root)" "distinct (reader_revisions_touching j head root)"
proof -
  show "r \<in> set (reader_revisions_touching j head root) \<longleftrightarrow>
     r \<le> head \<and> (\<exists>c \<in> set (rows_of (j_versions j) r). cid c = root \<or> starts_with (cid c) (root @ '':''))"
    unfolding reader_revisions_touching_def under_root_def prefix_interval by force
qed (simp_all add: reader_revisions_touching_def sorted_wrt_filter)

section \<open>The history contract\<close>

text \<open>
  What the store relies on when it answers about the past (\<open>CellHistoryReader\<close>): queries capped
  at a captured head see the graph of each revision, one step back undoes exactly one revision,
  and a journal that grows keeps the graphs it had.
\<close>

locale cell_history =
  fixes ok :: "'j \<Rightarrow> bool"
    and head :: "'j \<Rightarrow> nat"
    and graph :: "'j \<Rightarrow> nat \<Rightarrow> cells"
    and snap :: "'j \<Rightarrow> nat \<Rightarrow> nat \<Rightarrow> snapshot result"
    and step_back :: "'j \<Rightarrow> nat \<Rightarrow> snapshot \<Rightarrow> snapshot result"
    and selected :: "'j \<Rightarrow> nat \<Rightarrow> nat \<Rightarrow> string list \<Rightarrow> (string \<times> cell) list result"
    and created :: "'j \<Rightarrow> nat \<Rightarrow> string \<Rightarrow> nat result"
    and grows :: "'j \<Rightarrow> 'j \<Rightarrow> bool"
  assumes graph_law: "ok j \<Longrightarrow> graph_ok (graph j r)"
    and snap_law: "ok j \<Longrightarrow> r \<le> h \<Longrightarrow> h \<le> head j \<Longrightarrow> snap j h r = Inr (Snapshot r (graph j r))"
    and beyond_law: "h < r \<Longrightarrow> \<not> is_ok (snap j h r)"
    and step_back_law: "ok j \<Longrightarrow> r < h \<Longrightarrow> h \<le> head j \<Longrightarrow>
      step_back j h (Snapshot (Suc r) (graph j (Suc r))) = Inr (Snapshot r (graph j r))"
    and selected_law: "ok j \<Longrightarrow> r \<le> h \<Longrightarrow> h \<le> head j \<Longrightarrow> set ks \<subseteq> dom (graph j r) \<Longrightarrow>
      selected j h r ks = Inr (map (\<lambda>k. (k, the (graph j r k))) (dedup ks))"
    and created_law: "ok j \<Longrightarrow> h \<le> head j \<Longrightarrow>
      created j h k = Inr r \<longleftrightarrow> r \<le> h \<and> k \<in> dom (graph j r) \<and> (\<forall>s < r. k \<notin> dom (graph j s))"
    and grows_law: "ok j \<Longrightarrow> grows j j' \<Longrightarrow>
      ok j' \<and> head j \<le> head j' \<and> (\<forall>r \<le> head j. graph j' r = graph j r)"
begin

lemma grown:
  assumes "grows\<^sup>*\<^sup>* j j'" "ok j"
  shows "ok j' \<and> head j \<le> head j' \<and> (\<forall>r \<le> head j. graph j' r = graph j r)"
  using assms by (induction rule: rtranclp_induct) (auto dest: grows_law)

lemma snap_stable:
  assumes "grows\<^sup>*\<^sup>* j j'" "ok j" "h \<le> head j"
  shows "snap j' h r = snap j h r \<or> (h < r \<and> \<not> is_ok (snap j' h r) \<and> \<not> is_ok (snap j h r))"
proof (cases "r \<le> h")
  case True
  with assms grown [OF assms(1,2)] show ?thesis by (simp add: snap_law)
qed (simp add: beyond_law)

lemma selected_stable:
  assumes "grows\<^sup>*\<^sup>* j j'" "ok j" "r \<le> h" "h \<le> head j" "set ks \<subseteq> dom (graph j r)"
  shows "selected j' h r ks = selected j h r ks"
  using assms grown [OF assms(1,2)] by (simp add: selected_law)

lemma created_stable:
  assumes "grows\<^sup>*\<^sup>* j j'" "ok j" "h \<le> head j"
  shows "created j' h k = Inr r \<longleftrightarrow> created j h k = Inr r"
proof -
  have "h \<le> head j'" "ok j'" and same: "\<And>s. s \<le> h \<Longrightarrow> graph j' s = graph j s"
    using assms grown [OF assms(1,2)] by auto
  then show ?thesis using assms by (auto simp: created_law)
qed

end

text \<open>The readers of a journal fulfil the contract; growing is appending or recording a checkpoint.\<close>

definition journal_grows :: "journal \<Rightarrow> journal \<Rightarrow> bool" where
  "journal_grows j j' \<longleftrightarrow>
     j_versions j' = j_versions j \<and> journal_ok j' \<and> head_of j' = head_of j \<or>
     (\<exists>cs. commit_rows_ok (state_at (j_versions j) (head_of j)) cs \<and> j' = appended j cs)"

interpretation history: cell_history journal_ok head_of "\<lambda>j. state_at (j_versions j)" snapshot_at
  snapshot_stepped_back reader_cells_at created_revision journal_grows
proof unfold_locales
  fix j j' assume "journal_ok j" "journal_grows j j'"
  then show "journal_ok j' \<and> head_of j \<le> head_of j' \<and>
      (\<forall>r \<le> head_of j. state_at (j_versions j') r = state_at (j_versions j) r)"
    by (auto simp: journal_grows_def journal_ok_appended appended_old_state)
next
  fix j r h ks assume "journal_ok j" "r \<le> h" "set ks \<subseteq> dom (state_at (j_versions j) r)"
  then show "reader_cells_at j h r ks = Inr (map (\<lambda>k. (k, the (state_at (j_versions j) r k))) (dedup ks))"
    by (subst reader_cells_at_ok) auto
qed (auto simp: graph_ok_state_at snapshot_at_ok snapshot_at_unknown stepped_back_ok created_revision_ok)

lemma steps_grow:
  assumes "(journal_step sha)\<^sup>*\<^sup>* j j'" "journal_ok j" "checkpoints_ok sha j" "\<And>x. length (sha x) = 32"
  shows "journal_grows\<^sup>*\<^sup>* j j' \<and> journal_ok j' \<and> checkpoints_ok sha j'"
  using assms(1)
proof (induction rule: rtranclp_induct)
  case (step j' j'')
  then have "journal_grows j' j''" "journal_ok j'' \<and> checkpoints_ok sha j''"
    using step_ok [OF step.hyps(2)] assms(4) by (auto simp: journal_grows_def)
  with step.IH show ?case by (meson rtranclp.rtrancl_into_rtrancl)
qed (use assms in simp)

text \<open>
  The past does not change. A reader captured at head \<open>h\<close> of a reachable journal answers
  for every revision up to \<open>h\<close> with the graph the journal had then, whatever is appended,
  reopened or loaded afterwards: the snapshot, one step back from the revision above, the
  selected Cells and the creation revision of an identity are all as they were. That graph is well
  formed.
\<close>

theorem past_revisions_are_immutable:
  assumes "journal_reach sha j" "(journal_step sha)\<^sup>*\<^sup>* j j'" "\<And>x. length (sha x) = 32"
    and "r \<le> h" "h \<le> head_of j"
  shows "\<exists>m. graph_ok m \<and> snapshot_at j h r = Inr (Snapshot r m) \<and> snapshot_at j' h r = Inr (Snapshot r m) \<and>
    (r < h \<longrightarrow> rbind (snapshot_at j' h (Suc r)) (snapshot_stepped_back j' h) = Inr (Snapshot r m)) \<and>
    (\<forall>ks. set ks \<subseteq> dom m \<longrightarrow> reader_cells_at j' h r ks = Inr (map (\<lambda>k. (k, the (m k))) (dedup ks))) \<and>
    (\<forall>k. created_revision j' h k = Inr r \<longleftrightarrow> created_revision j h k = Inr r)"
proof -
  have j: "journal_ok j" and c: "checkpoints_ok sha j" using reach_ok assms(1,3) by blast+
  have g: "journal_grows\<^sup>*\<^sup>* j j'" using steps_grow [OF assms(2) j c assms(3)] by blast
  have j': "journal_ok j'" and h: "h \<le> head_of j'"
    and same: "state_at (j_versions j') r = state_at (j_versions j) r"
    using history.grown [OF g j] assms(4,5) by auto
  show ?thesis
    using history.graph_law [OF j, of r] history.snap_law [OF j assms(4,5)] history.snap_law [OF j' assms(4) h]
      history.created_stable [OF g j assms(5)] history.selected_law [OF j' assms(4) h]
      history.snap_law [OF j' _ h, of "Suc r"] history.step_back_law [OF j' _ h, of r] same
    by (intro exI [of _ "state_at (j_versions j) r"]) auto
qed

theorem past_revisions_are_immutable_witness:
  "\<exists>m. snapshot_at (journal_open empty_tables) 0 0 = Inr (Snapshot 0 m) \<and>
     snapshot_at (fst (journal_append no_fault (Inr ()) (journal_open empty_tables) 0 (Suc 0)
       [Cell ''a'' ''a'' NULL_CELL_ID []])) 0 0 = Inr (Snapshot 0 m)"
proof -
  let ?j = "journal_open empty_tables" and ?cs = "[Cell ''a'' ''a'' NULL_CELL_ID []]"
  have "commit_rows_ok (state_at (j_versions ?j) (head_of ?j)) ?cs"
    using graph_okD(3) [OF graph_ok_state_at [OF journal_ok_open_empty]]
    by (auto simp: commit_rows_ok_def NULL_CELL_ID_def)
  then have steps: "(journal_step fixed_sha)\<^sup>*\<^sup>* ?j (fst (journal_append no_fault (Inr ()) ?j 0 (Suc 0) ?cs))"
    by (intro r_into_rtranclp journal_step.append_step)
  have reach: "journal_reach fixed_sha ?j" by (simp add: journal_reach_def)
  have len: "length (fixed_sha x) = 32" for x by (simp add: fixed_sha_def)
  show ?thesis
    using past_revisions_are_immutable [OF reach steps len le_refl le0] by blast
qed

section \<open>The chain digest binds the history\<close>

definition history_rows :: "journal \<Rightarrow> nat \<Rightarrow> cell list list" where
  "history_rows j r = map (rows_of (j_versions j)) [0..<Suc r]"

lemma state_at_from_rows:
  assumes "unique_rows vs" "unique_rows ws" "\<And>s. s \<le> r \<Longrightarrow> rows_of vs s = rows_of ws s"
  shows "state_at vs r = state_at ws r"
  using assms(3)
proof (induction r)
  case 0
  then show ?case by (simp add: state_at_0 assms(1,2) del: set_rows_of)
next
  case (Suc r)
  then show ?case by (simp add: state_at_Suc assms(1,2))
qed

text \<open>
  C15: Equal heads mean equal histories. If two reachable journals load heads at the same revision
  with the same chain digest, then as long as the hash does not collide on the byte strings
  actually hashed (and no field reaches \<open>2 ^ 64\<close> bytes), both hold the same graph at every
  revision, not only at the head.
\<close>

theorem equal_digests_equal_histories:
  assumes "journal_reach sha i" "journal_reach sha j" "\<And>x. length (sha x) = 32"
    and loads: "snd (journal_load_head sha i) = Inr hi" "snd (journal_load_head sha j) = Inr hj"
    and same: "lh_revision hi = lh_revision hj" "lh_digest hi = lh_digest hj"
    and inj: "inj_on sha (set (chain_inputs sha zero_digest 0 (history_rows i (lh_revision hi))) \<union>
      set (chain_inputs sha zero_digest 0 (history_rows j (lh_revision hj))))"
    and short: "list_all (list_all short_cell) (history_rows i (lh_revision hi))"
      "list_all (list_all short_cell) (history_rows j (lh_revision hj))"
  shows "lh_cells hi = lh_cells hj \<and>
    (\<forall>r \<le> lh_revision hi. state_at (j_versions i) r = state_at (j_versions j) r)"
proof -
  have i: "journal_ok i" "checkpoints_ok sha i" and j: "journal_ok j" "checkpoints_ok sha j"
    using reach_ok assms(1-3) by blast+
  let ?r = "lh_revision hi"
  have di: "chain_from sha zero_digest 0 (history_rows i ?r) = Inr (lh_digest hi)"
    and ci: "lh_cells hi = state_at (j_versions i) ?r"
    using journal_load_head_ok [OF i assms(3)] loads(1) by (auto simp: history_rows_def chain_digest_at_def)
  have dj: "chain_from sha zero_digest 0 (history_rows j ?r) = Inr (lh_digest hi)"
    and cj: "lh_cells hj = state_at (j_versions j) ?r"
    using journal_load_head_ok [OF j assms(3)] loads(2) same by (auto simp: history_rows_def chain_digest_at_def)
  have "map (sort_key cid) (history_rows i ?r) = map (sort_key cid) (history_rows j ?r)"
    using inj short same(1) by (intro chain_from_binding [OF di dj]) (auto simp: history_rows_def)
  then have rows: "rows_of (j_versions i) s = rows_of (j_versions j) s" if "s \<le> ?r" for s
    using that by (auto simp: history_rows_def less_Suc_eq_le simp del: upt_Suc)
  have "state_at (j_versions i) r = state_at (j_versions j) r" if "r \<le> ?r" for r
    using that by (intro state_at_from_rows journal_okD(2) i j rows) auto
  with ci cj show ?thesis by simp
qed

text \<open>Applied to a fresh journal and the same journal resumed from the checkpoint of its first load.\<close>

theorem equal_digests_equal_histories_witness:
  "\<exists>hi hj. snd (journal_load_head fixed_sha (journal_open empty_tables)) = Inr hi \<and>
     snd (journal_load_head fixed_sha (fst (journal_load_head fixed_sha (journal_open empty_tables)))) = Inr hj \<and>
     lh_cells hi = lh_cells hj"
proof -
  let ?i = "journal_open empty_tables"
  let ?j = "fst (journal_load_head fixed_sha ?i)"
  have reach: "journal_reach fixed_sha ?i" by (simp add: journal_reach_def)
  have reach': "journal_reach fixed_sha ?j"
    unfolding journal_reach_def by (intro r_into_rtranclp journal_step.load_step)
  have len: "length (fixed_sha x) = 32" for x by (simp add: fixed_sha_def)
  note i = reach_ok [OF reach len] and j = reach_ok [OF reach' len]
  have head: "head_of ?i = 0" by (simp add: head_of_def journal_open_def empty_tables_def)
  obtain d n where d: "chain_digest_at fixed_sha (j_versions ?i) 0 = Inr d"
    and hi: "snd (journal_load_head fixed_sha ?i) =
        Inr \<lparr>lh_cells = state_at (j_versions ?i) 0, lh_revision = 0, lh_digest = d\<rparr>"
    and same: "?j = ?i \<or> ?j = ?i\<lparr>j_checkpoints := put_checkpoint 0 d n (j_checkpoints ?i)\<rparr>"
    using journal_load_head_ok [of ?i fixed_sha, OF conjunct1 [OF i] conjunct2 [OF i] len] unfolding head by blast
  from same have same: "j_versions ?j = j_versions ?i" "head_of ?j = 0" using head by auto
  obtain e where hj: "snd (journal_load_head fixed_sha ?j) =
        Inr \<lparr>lh_cells = state_at (j_versions ?i) 0, lh_revision = 0, lh_digest = e\<rparr>"
    and e: "chain_digest_at fixed_sha (j_versions ?i) 0 = Inr e"
    using journal_load_head_ok [of ?j fixed_sha, OF conjunct1 [OF j] conjunct2 [OF j] len] unfolding same by blast
  have rows: "history_rows ?i 0 = [[null_cell]]" "history_rows ?j 0 = [[null_cell]]"
    using rows_of_genesis [OF journal_ok_open_empty] by (simp_all add: history_rows_def same)
  have "short_cell null_cell" by (simp add: short_cell_def short_def null_cell_def NULL_CELL_ID_def)
  then have "state_at (j_versions ?i) 0 = state_at (j_versions ?i) 0 \<and> True"
    using equal_digests_equal_histories [OF reach reach' len hi hj] d e rows by auto
  with hi hj show ?thesis by auto
qed

section \<open>The reader's digests\<close>

definition reader_ok :: "(bytes \<Rightarrow> bytes) \<Rightarrow> journal \<Rightarrow> reader \<Rightarrow> bool" where
  "reader_ok sha j rd \<longleftrightarrow> rd_revision rd \<le> head_of j \<and>
     chain_digest_at sha (j_versions j) (rd_revision rd) = Inr (rd_digest rd)"

lemma replay_groups_upt:
  "chain_from sha p n (map (rows_of vs) [n..<n + k]) = Inr d \<Longrightarrow>
     replay_groups sha vs [n..<n + k] p n = Inr (d, n + k)"
proof (induction k arbitrary: n p)
  case (Suc k)
  obtain q where q: "revision_chain_digest_step sha p n (rows_of vs n) = Inr q"
    and rest: "chain_from sha q (Suc n) (map (rows_of vs) [Suc n..<Suc n + k]) = Inr d"
    using Suc.prems by (auto simp: upt_conv_Cons simp del: upt_Suc)
  from q have "ordered_chain_step sha p n (rows_of vs n) = Inr q"
    by (auto simp: chain_step_rows_Inr ordered_chain_step_def)
  with Suc.IH [OF rest] show ?case by (simp add: upt_conv_Cons del: upt_Suc)
qed simp

lemma reader_chain_digest_ok:
  assumes j: "journal_ok j" and c: "checkpoints_ok sha j" and rd: "reader_ok sha j rd"
    and r: "r \<le> rd_revision rd" and sha: "\<And>x. length (sha x) = 32"
  shows "reader_chain_digest sha j rd r = chain_digest_at sha (j_versions j) r"
proof -
  let ?vs = "j_versions j"
  have h: "r \<le> head_of j" using rd r by (simp add: reader_ok_def)
  obtain d where d: "chain_digest_at sha ?vs r = Inr d" using chain_digest_ok [OF j, where sha = sha] sha h by blast
  have "sort (remdups (filter (\<lambda>v. v \<le> r) (map fst ?vs))) = [0..<Suc r]"
  proof (rule sorted_distinct_set_unique)
    have "fst ` set ?vs = set (sort (remdups (filter (\<lambda>v. 0 \<le> v) (map fst ?vs))))" by simp
    also have "\<dots> = {..head_of j}" unfolding groups_upt [OF j] by auto
    finally show "set (sort (remdups (filter (\<lambda>v. v \<le> r) (map fst ?vs)))) = set [0..<Suc r]"
      using h by auto
  qed (auto simp del: upt_Suc)
  then have replay: "replay_groups sha ?vs (sort (remdups (filter (\<lambda>v. v \<le> r) (map fst ?vs)))) zero_digest 0 =
      Inr (d, Suc r)"
    using replay_groups_upt [of sha zero_digest 0 ?vs "Suc r" d] d by (simp add: chain_digest_at_def del: upt_Suc)
  have "e = d" if "map_of (j_checkpoints j) r = Some (e, n)" for e n
    using map_of_SomeD [OF that] c d by (auto simp: checkpoints_ok_def)
  then show ?thesis
    using rd r d unfolding reader_chain_digest_def replay Let_def
    by (auto simp: admit_revision_def reader_ok_def replay split: option.split)
qed

lemma reader_advance_ok:
  assumes "journal_ok j" "reader_ok sha j rd" "rd_revision rd = head_of j" "\<And>x. length (sha x) = 32"
    and "commit_rows_ok (state_at (j_versions j) (head_of j)) cs"
  shows "\<exists>rd'. reader_advance sha rd (Suc (head_of j)) cs = Inr rd' \<and> rd_revision rd' = Suc (head_of j) \<and>
    reader_ok sha (appended j cs) rd'"
proof -
  let ?h = "head_of j"
  have len: "length (rd_digest rd) = 32"
    using chain_digest_ok [OF assms(1), where sha = sha and r = ?h] assms(2-4) by (auto simp: reader_ok_def)
  have ids: "\<forall>c \<in> set cs. cid c \<noteq> []" "distinct (map cid cs)" "cs \<noteq> []"
    using assms(5) by (auto simp: commit_rows_ok_def)
  let ?d = "sha (chain_prefix (rd_digest rd) (Suc ?h) @ concat (map cell_fields (sort_key cid cs)))"
  have step: "revision_chain_digest_step sha (rd_digest rd) (Suc ?h) cs = Inr ?d"
    using ids len by (simp add: revision_chain_digest_step_Inr)
  have "revision_chain_digest_step sha (rd_digest rd) (Suc ?h) (sort_key cid cs) = Inr ?d"
    using ids len distinct_map [of cid "sort_key cid cs"]
    by (simp add: revision_chain_digest_step_Inr distinct_map sort_key_id_if_sorted)
  moreover have "chain_from sha zero_digest 0 (map (rows_of (j_versions (appended j cs))) [0..<Suc ?h]) = Inr (rd_digest rd)"
    using chain_digest_at_appended [OF assms(1), of ?h sha cs] assms(2,3)
    by (simp add: reader_ok_def chain_digest_at_def)
  ultimately have "chain_digest_at sha (j_versions (appended j cs)) (Suc ?h) = Inr ?d"
    unfolding chain_digest_at_def upt_Suc_append [OF le0, of "Suc ?h"] map_append chain_from_append
    by (simp add: appended_rows_of [OF assms(1)] del: upt_Suc)
  then show ?thesis
    using step assms(1,3) by (simp add: reader_advance_def reader_ok_def)
qed

end
