(* ===== verification/Store.thy ===== *)
theory Store
  imports CommitIntent JournalRun
begin

text \<open>
  \<open>CellStore\<close> of \<open>universal_cell.py\<close>: the transactional authority over one Cell graph. The
  record \<open>store\<close> has the fields of the object; published mappings are represented by their
  content (\<open>LazyHead\<close> shows that the lazily read ones have it). A store is in memory, with its
  versions and changes, or over a journal, with a history reader. This theory holds opening,
  adopting a journal head, the commit and its event delivery.
\<close>

section \<open>State\<close>

type_synonym fingerprint_key = "string \<times> string set"

record store =
  st_journal :: "journal option"
  st_cells :: cells
  st_revision :: nat
  st_versions :: "(nat \<times> cell list) list"
  st_changes :: "(nat \<times> string list) list"
  st_reader :: "reader option"
  st_historical :: "(nat \<times> bool \<times> snapshot) list"
  st_dense :: "snapshot option"
  st_index :: "(string \<rightharpoonup> (nat \<times> cell) list) option"
  st_accumulators :: "(nat \<times> int) list"
  st_cover :: "(nat \<times> nat \<times> nat) option"
  st_fingerprints :: "(fingerprint_key \<times> string) list"
  st_dependencies :: "(fingerprint_key \<times> string set) list"
  st_computes :: "(fingerprint_key \<times> nat) list"
  st_listeners :: "string list"
  st_failures :: "string list"
  st_chain_digests :: "(nat \<times> bytes) list"
  st_stable_depth :: nat
  st_closed :: bool
  st_gated :: bool

definition blank_store :: store where
  "blank_store =
     \<lparr>st_journal = None, st_cells = genesis, st_revision = 0, st_versions = [], st_changes = [],
      st_reader = None, st_historical = [], st_dense = None, st_index = None, st_accumulators = [],
      st_cover = None, st_fingerprints = [], st_dependencies = [], st_computes = [],
      st_listeners = [], st_failures = [], st_chain_digests = [], st_stable_depth = 0,
      st_closed = False, st_gated = False\<rparr>"

text \<open>\<open>CellStore()\<close>: the null Cell at revision 0.\<close>

definition open_memory :: store where
  "open_memory = blank_store\<lparr>st_versions := [(0, [null_cell])], st_changes := [(0, [NULL_CELL_ID])]\<rparr>"

definition head_state :: "loaded_head \<Rightarrow> store \<Rightarrow> store" where
  "head_state lh s = s\<lparr>st_cells := lh_cells lh, st_revision := lh_revision lh, st_versions := [],
     st_changes := [], st_reader := Some \<lparr>rd_revision = lh_revision lh, rd_digest = lh_digest lh\<rparr>\<rparr>"

text \<open>
  \<open>CellStore(database_path)\<close>: the journal opens its tables and the head is loaded. The tables
  left behind are returned also when the load is refused.
\<close>

definition open_store :: "(bytes \<Rightarrow> bytes) \<Rightarrow> journal \<Rightarrow> journal \<times> store result" where
  "open_store sha tables =
     (case journal_load_head sha (journal_open tables) of
        (j, Inl e) \<Rightarrow> (j, Inl e)
      | (j, Inr lh) \<Rightarrow> (j, Inr (head_state lh (blank_store\<lparr>st_journal := Some j\<rparr>))))"

definition require_declared_intent :: "store \<Rightarrow> store" where
  "require_declared_intent s = s\<lparr>st_gated := True\<rparr>"

definition close_store :: "store \<Rightarrow> store \<times> unit result" where
  "close_store s =
     (if st_stable_depth s \<noteq> 0 then (s, Inl (InvalidCell ''cannot close during a stable snapshot''))
      else (s\<lparr>st_closed := True, st_journal := None\<rparr>, Inr ()))"

text \<open>\<open>_adopt_journal_state\<close> of a loaded head, and \<open>refresh\<close>.\<close>

definition adopt_journal_state :: "loaded_head \<Rightarrow> store \<Rightarrow> store result" where
  "adopt_journal_state lh s =
     (if lh_revision lh < st_revision s
      then Inl (InvalidCell ''durable Cell authority moved backwards'')
      else Inr ((head_state lh s)\<lparr>st_historical := [], st_dense := None, st_index := None,
             st_fingerprints := [], st_dependencies := [], st_computes := [],
             st_chain_digests := []\<rparr>))"

definition reload :: "(bytes \<Rightarrow> bytes) \<Rightarrow> journal \<Rightarrow> store \<Rightarrow> store \<times> unit result" where
  "reload sha j s =
     (case journal_load_head sha j of
        (j', Inl e) \<Rightarrow> (s\<lparr>st_journal := Some j'\<rparr>, Inl e)
      | (j', Inr lh) \<Rightarrow>
          (case adopt_journal_state lh (s\<lparr>st_journal := Some j'\<rparr>) of
             Inl e \<Rightarrow> (s\<lparr>st_journal := Some j'\<rparr>, Inl e)
           | Inr s' \<Rightarrow> (s', Inr ())))"

definition refresh :: "(bytes \<Rightarrow> bytes) \<Rightarrow> store \<Rightarrow> store \<times> nat result" where
  "refresh sha s =
     (if st_stable_depth s \<noteq> 0 then (s, Inl (InvalidCell ''cannot refresh during a stable snapshot''))
      else case st_journal s of
        None \<Rightarrow> (s, Inr (st_revision s))
      | Some j \<Rightarrow> (let (s', res) = reload sha j s in (s', rbind res (\<lambda>_. Inr (st_revision s')))))"

text \<open>
  \<open>stable_snapshot\<close>: the body runs against the store with the depth raised, which is lowered
  again however the body ends. The journal of this model is exclusively owned.
\<close>

definition stable_snapshot ::
  "nat option \<Rightarrow> (snapshot \<Rightarrow> store \<Rightarrow> store \<times> 'a result) \<Rightarrow> store \<Rightarrow> store \<times> 'a result" where
  "stable_snapshot expected body s =
     (if st_closed s then (s, Inl (InvalidCell ''stable snapshot store is closed''))
      else if expected \<noteq> None \<and> expected \<noteq> Some (st_revision s)
      then (s, Inl (Conflict ''stable snapshot revision changed''))
      else let (s', res) = body (Snapshot (st_revision s) (st_cells s))
                 (s\<lparr>st_stable_depth := Suc (st_stable_depth s)\<rparr>)
           in (s'\<lparr>st_stable_depth := st_stable_depth s' - 1\<rparr>, res))"

section \<open>Planning a commit\<close>

text \<open>The loop over \<open>created\<close>; \<open>touched\<close> is the identities so far.\<close>

fun check_created :: "cells \<Rightarrow> string list \<Rightarrow> cell list \<Rightarrow> unit result" where
  "check_created base touched [] = Inr ()"
| "check_created base touched (c # cs) =
     rbind (validate_cell c) (\<lambda>_.
     if base (cid c) \<noteq> None \<or> cid c \<in> set touched
     then Inl (InvalidCell (''cannot create existing cell '' @ cid c))
     else check_created base (touched @ [cid c]) cs)"

text \<open>The loop over \<open>replaced\<close>: the replacements that change something are returned.\<close>

fun check_replaced :: "cells \<Rightarrow> string list \<Rightarrow> cell list \<Rightarrow> cell list result" where
  "check_replaced base named [] = Inr []"
| "check_replaced base named (c # cs) =
     rbind (validate_cell c) (\<lambda>_.
     if cid c = NULL_CELL_ID then Inl (InvalidCell ''the distinguished null cell is immutable'')
     else if base (cid c) = None
     then Inl (InvalidCell (''cannot replace missing cell '' @ cid c))
     else if cid c \<in> set named
     then Inl (InvalidCell (''cell is changed twice in one commit: '' @ cid c))
     else rbind (check_replaced base (named @ [cid c]) cs) (\<lambda>changed.
          if base (cid c) = Some c then Inr changed else Inr (c # changed)))"

definition commit_plan :: "cells \<Rightarrow> cell list \<Rightarrow> cell list \<Rightarrow> cell list result" where
  "commit_plan base created replaced =
     rbind (check_created base [] created) (\<lambda>_.
     rbind (check_replaced base (map cid created) replaced) (\<lambda>changed.
     if created = [] \<and> replaced = []
     then Inl (InvalidCell ''empty commits are not transactions'')
     else Inr changed))"

definition links_resolve :: "cells \<Rightarrow> cell list \<Rightarrow> bool" where
  "links_resolve base delta =
     list_all (\<lambda>c. (link0 c \<in> cid ` set delta \<or> base (link0 c) \<noteq> None) \<and>
                   (link1 c \<in> cid ` set delta \<or> base (link1 c) \<noteq> None)) delta"

section \<open>Accumulators\<close>

definition values_of :: "cells \<Rightarrow> cell list" where
  "values_of m = map (\<lambda>k. the (m k)) (sorted_list_of_set (dom m))"

definition SET_ACCUMULATOR_CACHE_SIZE :: nat where "SET_ACCUMULATOR_CACHE_SIZE = 8"

definition remember_set_accumulator :: "nat \<Rightarrow> int \<Rightarrow> store \<Rightarrow> store" where
  "remember_set_accumulator r a s =
     s\<lparr>st_accumulators := od_trim SET_ACCUMULATOR_CACHE_SIZE (od_put r a (st_accumulators s))\<rparr>"

text \<open>
  \<open>_record_set_accumulator\<close>: the covered row count is carried forward from the previous record
  when this commit wrote the revision right above it, and counted otherwise. A store without a
  journal records nothing.
\<close>

fun newest_row_of :: "nat \<Rightarrow> version_row list \<Rightarrow> nat \<Rightarrow> nat" where
  "newest_row_of r [] i = 0"
| "newest_row_of r ((v, c) # vs) i =
     (let newest = newest_row_of r vs (Suc i) in if v = r then max (Suc i) newest else newest)"

definition record_set_accumulator :: "nat \<Rightarrow> int \<Rightarrow> nat option \<Rightarrow> store \<Rightarrow> store" where
  "record_set_accumulator r a written s =
     (case st_journal s of
        None \<Rightarrow> s
      | Some j \<Rightarrow>
          let (rows, newest) =
                (case (written, st_cover s) of
                   (Some w, Some (r0, rows0, newest0)) \<Rightarrow>
                     if Suc r0 = r then (rows0 + w, max newest0 (newest_row_of r (j_versions j) 0))
                     else covered j r
                 | _ \<Rightarrow> covered j r)
          in s\<lparr>st_cover := Some (r, rows, newest),
               st_journal := Some (j\<lparr>j_recorded := AList.update r (rows, newest,
                 be_bytes SET_HASH_BYTES (nat a)) (j_recorded j)\<rparr>)\<rparr>)"

section \<open>Publishing\<close>

record commit_event =
  ev_revision :: nat
  ev_changed :: "string list"
  ev_declaration :: "commit_declaration option"

text \<open>
  What the caller and the host bring to a commit: the injected journal faults, the outcome of the
  optional physical write and of the optional guard, the store's optional transform, and for each
  listener the text of the exception it raises, if any. None of them changes the store.
\<close>

record commit_env =
  env_sha :: "bytes \<Rightarrow> bytes"
  env_shake :: "bytes \<Rightarrow> bytes"
  env_fault :: fault
  env_physical :: "unit result option"
  env_guard :: "unit result option"
  env_transform :: "(snapshot \<Rightarrow> cell list \<Rightarrow> cell list \<Rightarrow> (cell list \<times> cell list) result) option"
  env_listener :: "string \<Rightarrow> commit_event \<Rightarrow> string option"

definition outcome :: "unit result option \<Rightarrow> unit result" where
  "outcome res = (case res of None \<Rightarrow> Inr () | Some r \<Rightarrow> r)"

definition next_accumulator :: "(bytes \<Rightarrow> bytes) \<Rightarrow> store \<Rightarrow> cell list \<Rightarrow> cell list \<Rightarrow> int option" where
  "next_accumulator shake s created changed =
     map_option (\<lambda>held. accumulator_add shake
         (accumulator_remove shake held (map (\<lambda>c. the (st_cells s (cid c))) changed))
         (created @ changed))
       (map_of (st_accumulators s) (st_revision s))"

definition invalidate_fingerprints :: "string list \<Rightarrow> store \<Rightarrow> store" where
  "invalidate_fingerprints touched s =
     (let stale = (\<lambda>key. case map_of (st_dependencies s) key of
                          None \<Rightarrow> False | Some deps \<Rightarrow> set touched \<inter> deps \<noteq> {})
      in s\<lparr>st_fingerprints := filter (\<lambda>(key, v). \<not> stale key) (st_fingerprints s),
           st_dependencies := filter (\<lambda>(key, deps). set touched \<inter> deps = {}) (st_dependencies s)\<rparr>)"

definition record_history ::
  "(bytes \<Rightarrow> bytes) \<Rightarrow> nat \<Rightarrow> cell list \<Rightarrow> store \<Rightarrow> store \<times> unit result" where
  "record_history sha next delta s =
     (case st_reader s of
        Some rd \<Rightarrow>
          (case reader_advance sha rd next delta of
             Inl e \<Rightarrow> (s, Inl e)
           | Inr rd' \<Rightarrow> (s\<lparr>st_reader := Some rd'\<rparr>, Inr ()))
      | None \<Rightarrow>
          (s\<lparr>st_versions := AList.update next delta (st_versions s),
             st_changes := AList.update next (sort (map cid delta)) (st_changes s)\<rparr>, Inr ()))"

fun notify ::
  "(string \<Rightarrow> commit_event \<Rightarrow> string option) \<Rightarrow> commit_event \<Rightarrow> string list \<Rightarrow> string list \<Rightarrow> string list" where
  "notify f ev [] failures = failures"
| "notify f ev (l # ls) failures =
     (case f l ev of
        None \<Rightarrow> notify f ev ls failures
      | Some text \<Rightarrow>
          notify f ev ls (drop (Suc (length failures) - 100) (failures @ [text])))"

text \<open>From the pointer swap on: the journal, if there is one, already holds the revision.\<close>

definition publish ::
  "commit_env \<Rightarrow> commit_declaration option \<Rightarrow> cell list \<Rightarrow> cell list \<Rightarrow> store \<Rightarrow> store \<times> nat result" where
  "publish env decl created changed s =
     (let next = Suc (st_revision s); delta = created @ changed;
          s1 = s\<lparr>st_cells := put_cells delta (st_cells s), st_revision := next, st_dense := None\<rparr>;
          s2 = (case next_accumulator (env_shake env) s created changed of
                  None \<Rightarrow> s1
                | Some a \<Rightarrow> record_set_accumulator next a (Some (length delta))
                             (remember_set_accumulator next a s1))
      in (case record_history (env_sha env) next delta s2 of
            (s3, Inl e) \<Rightarrow> (s3, Inl e)
          | (s3, Inr _) \<Rightarrow>
              let s4 = invalidate_fingerprints (map cid delta) (s3\<lparr>st_index := None\<rparr>);
                  ev = \<lparr>ev_revision = next, ev_changed = map cid delta, ev_declaration = decl\<rparr>
              in (s4\<lparr>st_failures := notify (env_listener env) ev (st_listeners s4) (st_failures s4)\<rparr>,
                  Inr next)))"

section \<open>Commit\<close>

definition transformed ::
  "commit_env \<Rightarrow> store \<Rightarrow> cell list \<Rightarrow> cell list \<Rightarrow> (cell list \<times> cell list) result" where
  "transformed env s created replaced =
     (case env_transform env of
        None \<Rightarrow> Inr (created, replaced)
      | Some f \<Rightarrow>
          if created \<noteq> [] \<or> list_ex (\<lambda>c. st_cells s (cid c) \<noteq> Some c) replaced
          then f (Snapshot (st_revision s) (st_cells s)) created replaced
          else Inr (created, replaced))"

definition append_to_journal ::
  "commit_env \<Rightarrow> nat \<Rightarrow> cell list \<Rightarrow> store \<Rightarrow> store \<times> unit result" where
  "append_to_journal env expected delta s =
     (case st_journal s of
        None \<Rightarrow> (s, Inr ())
      | Some j \<Rightarrow>
          (case journal_append (env_fault env) (outcome (env_physical env)) j expected
                  (Suc (st_revision s)) delta of
             (j', Inr _) \<Rightarrow> (s\<lparr>st_journal := Some j'\<rparr>, Inr ())
           | (j', Inl (Conflict m)) \<Rightarrow>
               (case reload (env_sha env) j' s of
                  (s', Inl e) \<Rightarrow> (s', Inl e)
                | (s', Inr _) \<Rightarrow> (s', Inl (Conflict m)))
           | (j', Inl e) \<Rightarrow> (s\<lparr>st_journal := Some j'\<rparr>, Inl e)))"

definition commit ::
  "commit_env \<Rightarrow> nat \<Rightarrow> cell list \<Rightarrow> cell list \<Rightarrow> ctx \<times> store \<Rightarrow> (ctx \<times> store) \<times> nat result" where
  "commit env expected create replace cs =
     (let (c, s) = cs in
      if env_physical env \<noteq> None \<and> st_journal s = None
      then (cs, Inl (InvalidCell ''atomic physical writes require a local SQLite owner and callable''))
      else if st_closed s then (cs, Inl (InvalidCell ''cannot commit to a closed store''))
      else if st_stable_depth s \<noteq> 0
      then (cs, Inl (InvalidCell ''cannot commit during a stable snapshot''))
      else if expected \<noteq> st_revision s then (cs, Inl (Conflict ''expected revision''))
      else (case transformed env s create replace of
        Inl e \<Rightarrow> (cs, Inl e)
      | Inr (created, replaced) \<Rightarrow>
      (case commit_plan (st_cells s) created replaced of
        Inl e \<Rightarrow> (cs, Inl e)
      | Inr changed \<Rightarrow>
      if created = [] \<and> changed = [] then (cs, Inr (st_revision s))
      else
      (case refusal (st_gated s) c of
        (c', Some msg) \<Rightarrow> ((c', s), Inl (CommitRefused msg))
      | (c', None) \<Rightarrow>
      if \<not> links_resolve (st_cells s) (created @ changed)
      then ((c', s), Inl (InvalidCell ''cell contains a dangling physical link''))
      else
      (case outcome (env_guard env) of
        Inl e \<Rightarrow> ((c', s), Inl e)
      | Inr _ \<Rightarrow>
      (case append_to_journal env expected (created @ changed) s of
        (s', Inl e) \<Rightarrow> ((c', s'), Inl e)
      | (s', Inr _) \<Rightarrow>
          (let (s'', res) = publish env (current_declaration c') created changed s'
           in ((c', s''), res))))))))"

definition subscribe :: "string \<Rightarrow> store \<Rightarrow> store" where
  "subscribe l s = s\<lparr>st_listeners := (if l \<in> set (st_listeners s) then st_listeners s else st_listeners s @ [l])\<rparr>"

definition unsubscribe :: "string \<Rightarrow> store \<Rightarrow> store" where
  "unsubscribe l s = s\<lparr>st_listeners := removeAll l (st_listeners s)\<rparr>"

definition listener_failures :: "store \<Rightarrow> string list" where
  "listener_failures s = st_failures s"

definition read_cell :: "store \<Rightarrow> string \<Rightarrow> cell result" where
  "read_cell s k =
     (if st_closed s then Inl (InvalidCell ''cannot read a closed store'')
      else case st_cells s k of None \<Rightarrow> Inl (KeyError k) | Some c \<Rightarrow> Inr c)"

definition store_snapshot :: "store \<Rightarrow> snapshot result" where
  "store_snapshot s =
     (if st_closed s then Inl (InvalidCell ''cannot read a closed store'')
      else Inr (Snapshot (st_revision s) (st_cells s)))"

definition dense_snapshot :: "store \<Rightarrow> store \<times> snapshot" where
  "dense_snapshot s =
     (case st_dense s of
        Some d \<Rightarrow> if snap_revision d = st_revision s then (s, d)
                  else (let d' = Snapshot (st_revision s) (st_cells s) in (s\<lparr>st_dense := Some d'\<rparr>, d'))
      | None \<Rightarrow> (let d' = Snapshot (st_revision s) (st_cells s) in (s\<lparr>st_dense := Some d'\<rparr>, d')))"

end
