(* ===== verification/StoreLaws.thy ===== *)
theory StoreLaws
  imports Store
begin

text \<open>
  The laws of the store. \<open>represents\<close> relates a store to a well-formed journal (its own, or the
  one its in-memory versions spell out): the published graph is the graph of its revision. Opening
  establishes it; committing, refreshing and adopting keep it, on every branch.
\<close>

section \<open>What a commit plan admits\<close>

lemma check_created_Inr:
  "check_created base touched cs = Inr u \<longleftrightarrow>
     (\<forall>c \<in> set cs. cid c \<noteq> [] \<and> base (cid c) = None \<and> cid c \<notin> set touched) \<and> distinct (map cid cs)"
proof (induction base touched cs rule: check_created.induct)
  case (2 base touched c cs)
  show ?case
  proof (cases "cid c \<noteq> [] \<and> base (cid c) = None \<and> cid c \<notin> set touched")
    case True
    with "2.IH" show ?thesis by (auto simp: validate_cell_def image_iff)
  qed (auto simp: rbind_Inr_iff)
qed simp

lemma check_replaced_Inr:
  "check_replaced base named cs = Inr ch \<longleftrightarrow>
     (\<forall>c \<in> set cs. cid c \<noteq> [] \<and> cid c \<noteq> NULL_CELL_ID \<and> base (cid c) \<noteq> None \<and> cid c \<notin> set named) \<and>
     distinct (map cid cs) \<and> ch = filter (\<lambda>c. base (cid c) \<noteq> Some c) cs"
proof (induction base named cs arbitrary: ch rule: check_replaced.induct)
  case (2 base named c cs)
  show ?case
  proof (cases "cid c \<noteq> [] \<and> cid c \<noteq> NULL_CELL_ID \<and> base (cid c) \<noteq> None \<and> cid c \<notin> set named")
    case False
    then show ?thesis by (auto simp: rbind_Inr_iff)
  next
    case True
    then have "check_replaced base named (c # cs) =
        rbind (check_replaced base (named @ [cid c]) cs) (\<lambda>changed.
          if base (cid c) = Some c then Inr changed else Inr (c # changed))"
      by (auto simp: validate_cell_def)
    with True "2.IH" show ?thesis by (auto simp: rbind_Inr_iff cid_image)
  qed
qed auto

definition changes_of :: "cells \<Rightarrow> cell list \<Rightarrow> cell list" where
  "changes_of base replaced = filter (\<lambda>c. base (cid c) \<noteq> Some c) replaced"

lemma commit_plan_Inr:
  "commit_plan base created replaced = Inr changed \<longleftrightarrow>
     (\<forall>c \<in> set created. cid c \<noteq> [] \<and> base (cid c) = None) \<and>
     (\<forall>c \<in> set replaced. cid c \<noteq> [] \<and> cid c \<noteq> NULL_CELL_ID \<and> base (cid c) \<noteq> None) \<and>
     distinct (map cid (created @ replaced)) \<and> created @ replaced \<noteq> [] \<and> changed = changes_of base replaced"
proof -
  have "distinct (map cid (created @ replaced)) \<longleftrightarrow> distinct (map cid created) \<and> distinct (map cid replaced) \<and>
      (\<forall>c \<in> set replaced. cid c \<notin> set (map cid created))"
    by (auto simp: cid_image)
  then show ?thesis
    unfolding commit_plan_def rbind_Inr_iff check_created_Inr check_replaced_Inr changes_of_def
    by (auto split: if_splits)
qed

lemma commit_plan_rows:
  assumes "graph_ok base" "commit_plan base created replaced = Inr changed"
    and "links_resolve base (created @ changed)" "created @ changed \<noteq> []"
  shows "commit_rows_ok base (created @ changed)"
proof -
  note plan = assms(2) [unfolded commit_plan_Inr]
  have sub: "set changed \<subseteq> set replaced" using plan by (auto simp: changes_of_def)
  have "distinct (map cid (created @ changed))"
    using plan by (auto simp: changes_of_def distinct_map_filter)
  moreover have "cid c \<noteq> NULL_CELL_ID \<and> cid c \<noteq> []" if "c \<in> set (created @ changed)" for c
    using that plan sub graph_okD(3) [OF assms(1)] by (auto dest: bspec)
  ultimately show ?thesis
    using assms(3,4) by (auto simp: commit_rows_ok_def links_resolve_def list_all_iff)
qed

section \<open>Representation\<close>

definition mem_log :: "(nat \<times> cell list) list \<Rightarrow> version_row list" where
  "mem_log versions = concat (map (\<lambda>(r, cs). map (Pair r) cs) versions)"

definition represents :: "(bytes \<Rightarrow> bytes) \<Rightarrow> store \<Rightarrow> journal \<Rightarrow> bool" where
  "represents sha s j \<longleftrightarrow>
     journal_ok j \<and> checkpoints_ok sha j \<and> st_revision s \<le> head_of j \<and>
     st_cells s = state_at (j_versions j) (st_revision s) \<and>
     (case st_journal s of
        Some j' \<Rightarrow> j' = j \<and>
          (\<exists>rd. st_reader s = Some rd \<and> rd_revision rd = st_revision s \<and> reader_ok sha j rd)
      | None \<Rightarrow> st_reader s = None \<and> st_revision s = head_of j \<and> j_versions j = mem_log (st_versions s) \<and>
          map fst (st_versions s) = [0..<Suc (st_revision s)] \<and>
          st_changes s = map (\<lambda>(r, cs). (r, sort (map cid cs))) (st_versions s))"

lemma representsD:
  assumes "represents sha s j"
  shows "journal_ok j" "checkpoints_ok sha j" "st_revision s \<le> head_of j"
    "st_cells s = state_at (j_versions j) (st_revision s)"
    "st_journal s = None \<or> st_journal s = Some j"
    "st_journal s = None \<Longrightarrow> st_reader s = None \<and> st_revision s = head_of j \<and>
       j_versions j = mem_log (st_versions s) \<and> map fst (st_versions s) = [0..<Suc (st_revision s)] \<and>
       st_changes s = map (\<lambda>(r, cs). (r, sort (map cid cs))) (st_versions s)"
    "st_journal s = Some j \<Longrightarrow> \<exists>rd. st_reader s = Some rd \<and> rd_revision rd = st_revision s \<and> reader_ok sha j rd"
  using assms by (auto simp: represents_def split: option.splits)

lemma represents_graph_ok: "represents sha s j \<Longrightarrow> graph_ok (st_cells s)"
  using representsD(1,4) graph_ok_state_at by metis

text \<open>Representation looks only at these fields.\<close>

definition same_authority :: "store \<Rightarrow> store \<Rightarrow> bool" where
  "same_authority s t \<longleftrightarrow> st_journal t = st_journal s \<and> st_cells t = st_cells s \<and>
     st_revision t = st_revision s \<and> st_reader t = st_reader s \<and> st_versions t = st_versions s \<and>
     st_changes t = st_changes s"

lemma represents_cong: "same_authority s t \<Longrightarrow> represents sha t j = represents sha s j"
  by (cases "st_journal s") (simp_all add: same_authority_def represents_def)

lemma same_authority_refl [simp]: "same_authority s s"
  by (simp add: same_authority_def)

lemma journal_ok_recorded [simp]:
  "head_of (j\<lparr>j_recorded := xs\<rparr>) = head_of j" "journal_ok (j\<lparr>j_recorded := xs\<rparr>) = journal_ok j"
  "checkpoints_ok sha (j\<lparr>j_recorded := xs\<rparr>) = checkpoints_ok sha j"
  "reader_ok sha (j\<lparr>j_recorded := xs\<rparr>) rd = reader_ok sha j rd"
  by (simp_all add: head_of_def journal_ok_def checkpoints_ok_def reader_ok_def)

section \<open>Opening\<close>

lemma represents_open_memory: "represents sha open_memory (journal_open empty_tables)"
proof -
  have "state_at [(0, null_cell)] 0 = genesis"
    by (rule ext) (auto simp: state_at_def genesis_def)
  moreover have "j_versions (journal_open empty_tables) = [(0, null_cell)]"
    "head_of (journal_open empty_tables) = 0" "j_checkpoints (journal_open empty_tables) = []"
    by (simp_all add: journal_open_def empty_tables_def head_of_def)
  ultimately show ?thesis
    using journal_ok_open_empty
    by (simp add: represents_def open_memory_def blank_store_def checkpoints_ok_def mem_log_def)
qed

lemma represents_head_state:
  assumes j: "journal_ok j" and c: "checkpoints_ok sha j" and sha: "\<And>x. length (sha x) = 32"
  shows "\<exists>j' lh. journal_load_head sha j = (j', Inr lh) \<and> lh_revision lh = head_of j \<and>
    j_versions j' = j_versions j \<and> head_of j' = head_of j \<and>
    represents sha (head_state lh (s\<lparr>st_journal := Some j'\<rparr>)) j'"
proof -
  obtain d n where d: "chain_digest_at sha (j_versions j) (head_of j) = Inr d"
    and snd: "snd (journal_load_head sha j) =
      Inr \<lparr>lh_cells = state_at (j_versions j) (head_of j), lh_revision = head_of j, lh_digest = d\<rparr>"
    and fst: "fst (journal_load_head sha j) = j \<or>
      fst (journal_load_head sha j) = j\<lparr>j_checkpoints := put_checkpoint (head_of j) d n (j_checkpoints j)\<rparr>"
    using journal_load_head_ok [OF j c sha] by blast
  let ?j' = "fst (journal_load_head sha j)"
  have "checkpoints_ok sha ?j'" "journal_ok ?j'" "head_of ?j' = head_of j" "j_versions ?j' = j_versions j"
    using fst c d j by (auto simp: checkpoints_ok_def put_checkpoint_def)
  with d show ?thesis
    by (intro exI [of _ ?j'] exI [of _ "\<lparr>lh_cells = state_at (j_versions j) (head_of j),
        lh_revision = head_of j, lh_digest = d\<rparr>"])
      (auto simp: prod_eq_iff snd represents_def head_state_def reader_ok_def)
qed

lemma represents_open_store:
  assumes "journal_reach sha tables" "\<And>x. length (sha x) = 32"
  shows "\<exists>j s. open_store sha tables = (j, Inr s) \<and> represents sha s j \<and> st_revision s = head_of tables \<and>
    j_versions j = j_versions tables"
proof -
  have "journal_ok tables" "checkpoints_ok sha tables" using reach_ok assms by blast+
  with represents_head_state [OF this assms(2), of blank_store] show ?thesis
    by (auto simp: open_store_def journal_ok_open head_state_def)
qed

lemma reload_ok:
  assumes j: "journal_ok j" "checkpoints_ok sha j" and sha: "\<And>x. length (sha x) = 32"
    and rev: "st_revision s \<le> head_of j"
  shows "\<exists>j' s'. reload sha j s = (s', Inr ()) \<and> represents sha s' j' \<and> st_revision s' = head_of j \<and>
    j_versions j' = j_versions j \<and> head_of j' = head_of j \<and> st_journal s' = Some j'"
proof -
  obtain j' lh where lh: "journal_load_head sha j = (j', Inr lh)" "lh_revision lh = head_of j"
    "j_versions j' = j_versions j" "head_of j' = head_of j"
    and rep: "represents sha (head_state lh (s\<lparr>st_journal := Some j'\<rparr>)) j'"
    using represents_head_state [OF j sha, of s] by auto
  let ?s' = "(head_state lh (s\<lparr>st_journal := Some j'\<rparr>))\<lparr>st_historical := [], st_dense := None,
      st_index := None, st_fingerprints := [], st_dependencies := [], st_computes := [],
      st_chain_digests := []\<rparr>"
  have "represents sha ?s' j'"
    using rep by (subst represents_cong [of "head_state lh (s\<lparr>st_journal := Some j'\<rparr>)"])
      (simp_all add: same_authority_def head_state_def)
  moreover have "reload sha j s = (?s', Inr ())"
    using lh rev by (simp add: reload_def adopt_journal_state_def)
  ultimately show ?thesis
    using lh by (auto simp: head_state_def)
qed

section \<open>Publishing\<close>

lemma record_fields [simp]:
  "st_cells (record_set_accumulator r a w s) = st_cells s"
  "st_revision (record_set_accumulator r a w s) = st_revision s"
  "st_versions (record_set_accumulator r a w s) = st_versions s"
  "st_changes (record_set_accumulator r a w s) = st_changes s"
  "st_reader (record_set_accumulator r a w s) = st_reader s"
  "st_historical (record_set_accumulator r a w s) = st_historical s"
  "st_dense (record_set_accumulator r a w s) = st_dense s"
  "st_accumulators (record_set_accumulator r a w s) = st_accumulators s"
  "st_fingerprints (record_set_accumulator r a w s) = st_fingerprints s"
  "st_dependencies (record_set_accumulator r a w s) = st_dependencies s"
  "st_listeners (record_set_accumulator r a w s) = st_listeners s"
  "st_failures (record_set_accumulator r a w s) = st_failures s"
  "st_chain_digests (record_set_accumulator r a w s) = st_chain_digests s"
  "st_stable_depth (record_set_accumulator r a w s) = st_stable_depth s"
  "st_closed (record_set_accumulator r a w s) = st_closed s"
  "st_gated (record_set_accumulator r a w s) = st_gated s"
  by (simp_all add: record_set_accumulator_def case_prod_beta split: option.split)

lemma record_journal:
  "\<exists>n m. st_journal (record_set_accumulator r a w s) =
     map_option (\<lambda>j. j\<lparr>j_recorded := AList.update r (n, m, be_bytes SET_HASH_BYTES (nat a)) (j_recorded j)\<rparr>)
       (st_journal s)"
  by (cases "st_journal s") (auto simp: record_set_accumulator_def Let_def case_prod_beta split: option.split)

lemma invalidate_fields [simp]:
  "st_journal (invalidate_fingerprints t s) = st_journal s"
  "st_cells (invalidate_fingerprints t s) = st_cells s"
  "st_revision (invalidate_fingerprints t s) = st_revision s"
  "st_versions (invalidate_fingerprints t s) = st_versions s"
  "st_changes (invalidate_fingerprints t s) = st_changes s"
  "st_reader (invalidate_fingerprints t s) = st_reader s"
  "st_historical (invalidate_fingerprints t s) = st_historical s"
  "st_dense (invalidate_fingerprints t s) = st_dense s"
  "st_index (invalidate_fingerprints t s) = st_index s"
  "st_accumulators (invalidate_fingerprints t s) = st_accumulators s"
  "st_chain_digests (invalidate_fingerprints t s) = st_chain_digests s"
  "st_listeners (invalidate_fingerprints t s) = st_listeners s"
  "st_failures (invalidate_fingerprints t s) = st_failures s"
  "st_stable_depth (invalidate_fingerprints t s) = st_stable_depth s"
  "st_closed (invalidate_fingerprints t s) = st_closed s"
  "st_gated (invalidate_fingerprints t s) = st_gated s"
  by (simp_all add: invalidate_fingerprints_def Let_def)

lemma remember_fields [simp]:
  "st_journal (remember_set_accumulator r a s) = st_journal s"
  "st_cells (remember_set_accumulator r a s) = st_cells s"
  "st_revision (remember_set_accumulator r a s) = st_revision s"
  "st_versions (remember_set_accumulator r a s) = st_versions s"
  "st_changes (remember_set_accumulator r a s) = st_changes s"
  "st_reader (remember_set_accumulator r a s) = st_reader s"
  "st_historical (remember_set_accumulator r a s) = st_historical s"
  "st_dense (remember_set_accumulator r a s) = st_dense s"
  "st_fingerprints (remember_set_accumulator r a s) = st_fingerprints s"
  "st_dependencies (remember_set_accumulator r a s) = st_dependencies s"
  "st_listeners (remember_set_accumulator r a s) = st_listeners s"
  "st_failures (remember_set_accumulator r a s) = st_failures s"
  "st_chain_digests (remember_set_accumulator r a s) = st_chain_digests s"
  "st_stable_depth (remember_set_accumulator r a s) = st_stable_depth s"
  "st_closed (remember_set_accumulator r a s) = st_closed s"
  "st_gated (remember_set_accumulator r a s) = st_gated s"
  by (simp_all add: remember_set_accumulator_def)

text \<open>The store with its cells, revision and accumulators moved, before its history is.\<close>

definition moved :: "commit_env \<Rightarrow> cell list \<Rightarrow> cell list \<Rightarrow> store \<Rightarrow> store" where
  "moved env created changed s =
     (let s1 = s\<lparr>st_cells := put_cells (created @ changed) (st_cells s), st_revision := Suc (st_revision s),
            st_dense := None\<rparr>
      in case next_accumulator (env_shake env) s created changed of
           None \<Rightarrow> s1
         | Some a \<Rightarrow> record_set_accumulator (Suc (st_revision s)) a (Some (length (created @ changed)))
                      (remember_set_accumulator (Suc (st_revision s)) a s1))"

lemma moved_fields [simp]:
  "st_cells (moved env cr ch s) = put_cells (cr @ ch) (st_cells s)"
  "st_revision (moved env cr ch s) = Suc (st_revision s)"
  "st_versions (moved env cr ch s) = st_versions s"
  "st_changes (moved env cr ch s) = st_changes s"
  "st_reader (moved env cr ch s) = st_reader s"
  "st_historical (moved env cr ch s) = st_historical s"
  "st_dense (moved env cr ch s) = None"
  "st_fingerprints (moved env cr ch s) = st_fingerprints s"
  "st_dependencies (moved env cr ch s) = st_dependencies s"
  "st_listeners (moved env cr ch s) = st_listeners s"
  "st_failures (moved env cr ch s) = st_failures s"
  "st_chain_digests (moved env cr ch s) = st_chain_digests s"
  "st_stable_depth (moved env cr ch s) = st_stable_depth s"
  "st_closed (moved env cr ch s) = st_closed s"
  "st_gated (moved env cr ch s) = st_gated s"
  by (simp_all add: moved_def Let_def split: option.split)

lemma moved_journal:
  "\<exists>rec. st_journal (moved env cr ch s) = map_option (\<lambda>j. j\<lparr>j_recorded := rec j\<rparr>) (st_journal s) \<and>
     (\<forall>j. rec j = j_recorded j \<or> (\<exists>a n m. next_accumulator (env_shake env) s cr ch = Some a \<and>
        rec j = AList.update (Suc (st_revision s)) (n, m, be_bytes SET_HASH_BYTES (nat a)) (j_recorded j)))"
proof (cases "next_accumulator (env_shake env) s cr ch")
  case None
  then show ?thesis by (intro exI [of _ j_recorded]) (simp add: moved_def Let_def option.map_ident)
next
  case (Some a)
  let ?s1 = "s\<lparr>st_cells := put_cells (cr @ ch) (st_cells s), st_revision := Suc (st_revision s), st_dense := None\<rparr>"
  obtain n m where nm: "st_journal (record_set_accumulator (Suc (st_revision s)) a (Some (length (cr @ ch)))
        (remember_set_accumulator (Suc (st_revision s)) a ?s1)) =
      map_option (\<lambda>j. j\<lparr>j_recorded := AList.update (Suc (st_revision s)) (n, m, be_bytes SET_HASH_BYTES (nat a)) (j_recorded j)\<rparr>)
       (st_journal s)"
    using record_journal [of "Suc (st_revision s)" a "Some (length (cr @ ch))"
        "remember_set_accumulator (Suc (st_revision s)) a ?s1"] by auto
  then show ?thesis
    using Some by (intro exI [of _ "\<lambda>j. AList.update (Suc (st_revision s)) (n, m, be_bytes SET_HASH_BYTES (nat a)) (j_recorded j)"])
      (auto simp: moved_def Let_def)
qed

lemma publish_eq:
  "publish env decl cr ch s =
     (case record_history (env_sha env) (Suc (st_revision s)) (cr @ ch) (moved env cr ch s) of
        (s3, Inl e) \<Rightarrow> (s3, Inl e)
      | (s3, Inr _) \<Rightarrow>
          let s4 = invalidate_fingerprints (map cid (cr @ ch)) (s3\<lparr>st_index := None\<rparr>)
          in (s4\<lparr>st_failures := notify (env_listener env)
                  \<lparr>ev_revision = Suc (st_revision s), ev_changed = map cid (cr @ ch), ev_declaration = decl\<rparr>
                  (st_listeners s4) (st_failures s4)\<rparr>, Inr (Suc (st_revision s))))"
  by (simp only: publish_def moved_def Let_def)

lemma update_new: "k \<notin> set (map fst al) \<Longrightarrow> AList.update k v al = al @ [(k, v)]"
  by (induction al) auto

lemma st_cells_at: "represents sha s j \<Longrightarrow> st_revision s = head_of j \<Longrightarrow> st_cells s = state_at (j_versions j) (head_of j)"
  using representsD(4) by metis

text \<open>A journal-backed store whose journal took the rows publishes them.\<close>

lemma publish_journal:
  assumes rep: "represents sha s j" and sj: "st_journal s = Some j" and rev: "st_revision s = head_of j"
    and rows: "commit_rows_ok (st_cells s) (cr @ ch)" and sha: "env_sha env = sha" "\<And>x. length (sha x) = 32"
  shows "\<exists>s' rec. publish env decl cr ch (s\<lparr>st_journal := Some (appended j (cr @ ch))\<rparr>) = (s', Inr (Suc (head_of j))) \<and>
    represents sha s' (appended j (cr @ ch)\<lparr>j_recorded := rec\<rparr>) \<and>
    st_journal s' = Some (appended j (cr @ ch)\<lparr>j_recorded := rec\<rparr>) \<and>
    st_cells s' = put_cells (cr @ ch) (st_cells s) \<and> st_revision s' = Suc (head_of j) \<and>
    st_failures s' = notify (env_listener env)
        \<lparr>ev_revision = Suc (head_of j), ev_changed = map cid (cr @ ch), ev_declaration = decl\<rparr>
        (st_listeners s) (st_failures s)"
proof -
  let ?s = "s\<lparr>st_journal := Some (appended j (cr @ ch))\<rparr>" and ?d = "cr @ ch"
  note D = representsD [OF rep]
  have cells: "st_cells s = state_at (j_versions j) (head_of j)" using D(4) rev by simp
  note rows' = rows [unfolded cells]
  obtain rd where rd: "st_reader s = Some rd" "rd_revision rd = head_of j" "reader_ok sha j rd"
    using D(7) [OF sj] rev by auto
  obtain rd' where adv: "reader_advance sha rd (Suc (head_of j)) ?d = Inr rd'"
    and rd': "rd_revision rd' = Suc (head_of j)" "reader_ok sha (appended j ?d) rd'"
    using reader_advance_ok [OF D(1) rd(3,2) sha(2) rows'] by blast
  obtain rec where rec: "st_journal (moved env cr ch ?s) = Some (appended j ?d\<lparr>j_recorded := rec\<rparr>)"
    using moved_journal [of env cr ch ?s] by auto
  let ?j' = "appended j ?d\<lparr>j_recorded := rec\<rparr>"
  let ?s3 = "(moved env cr ch ?s)\<lparr>st_reader := Some rd'\<rparr>"
  have hist: "record_history (env_sha env) (Suc (st_revision ?s)) ?d (moved env cr ch ?s) = (?s3, Inr ())"
    using rd(1) adv sha(1) rev by (simp add: record_history_def)
  have j': "journal_ok ?j'" "checkpoints_ok sha ?j'" "reader_ok sha ?j' rd'"
    using journal_ok_appended [OF D(1) rows'] checkpoints_ok_appended [OF D(1,2)] rd'(2) by simp_all
  have "state_at (j_versions (appended j ?d)) (Suc (head_of j)) = put_cells ?d (st_cells s)"
    using appended_new_state [OF D(1), of ?d] rows cells by (simp add: commit_rows_ok_def)
  then have "\<exists>s'. publish env decl cr ch ?s = (s', Inr (Suc (head_of j))) \<and> represents sha s' ?j' \<and>
    st_journal s' = Some ?j' \<and> st_cells s' = put_cells (cr @ ch) (st_cells s) \<and>
    st_revision s' = Suc (head_of j) \<and> st_failures s' = notify (env_listener env)
        \<lparr>ev_revision = Suc (head_of j), ev_changed = map cid (cr @ ch), ev_declaration = decl\<rparr>
        (st_listeners s) (st_failures s)"
    unfolding publish_eq hist using rev rec j' rd'(1) D(1)
    by (simp add: Let_def represents_def)
  then show ?thesis by blast
qed

text \<open>A store in memory publishes into its versions and changes.\<close>

lemma publish_memory:
  assumes rep: "represents sha s j" and sj: "st_journal s = None"
    and rows: "commit_rows_ok (st_cells s) (cr @ ch)"
  shows "\<exists>s'. publish env decl cr ch s = (s', Inr (Suc (head_of j))) \<and>
    represents sha s' (appended j (cr @ ch)) \<and> st_journal s' = None \<and>
    st_cells s' = put_cells (cr @ ch) (st_cells s) \<and> st_revision s' = Suc (head_of j) \<and>
    st_failures s' = notify (env_listener env)
        \<lparr>ev_revision = Suc (head_of j), ev_changed = map cid (cr @ ch), ev_declaration = decl\<rparr>
        (st_listeners s) (st_failures s)"
proof -
  let ?d = "cr @ ch"
  note D = representsD [OF rep] and M = representsD(6) [OF rep sj]
  have cells: "st_cells s = state_at (j_versions j) (head_of j)" using D(4) M by simp
  note rows' = rows [unfolded cells]
  have sj': "st_journal (moved env cr ch s) = None" using moved_journal [of env cr ch s] sj by auto
  have keys: "map fst (st_versions s) = [0..<Suc (head_of j)]" "map fst (st_changes s) = [0..<Suc (head_of j)]"
    using M by (simp_all add: comp_def case_prod_beta)
  have new: "Suc (head_of j) \<notin> set (map fst (st_versions s))" "Suc (head_of j) \<notin> set (map fst (st_changes s))"
    unfolding keys by auto
  let ?s3 = "(moved env cr ch s)\<lparr>st_versions := st_versions s @ [(Suc (head_of j), ?d)],
      st_changes := st_changes s @ [(Suc (head_of j), sort (map cid ?d))]\<rparr>"
  have hist: "record_history (env_sha env) (Suc (st_revision s)) ?d (moved env cr ch s) = (?s3, Inr ())"
  proof -
    have "st_reader s = None" "st_revision s = head_of j" using M by auto
    then show ?thesis
      by (simp add: record_history_def update_new [OF new(1)] update_new [OF new(2)] del: map_append)
  qed
  have log: "j_versions (appended j ?d) = mem_log (st_versions s @ [(Suc (head_of j), ?d)])"
    using M by (simp add: appended_def mem_log_def)
  have "state_at (j_versions (appended j ?d)) (Suc (head_of j)) = put_cells ?d (st_cells s)"
    using appended_new_state [OF D(1), of ?d] rows cells by (simp add: commit_rows_ok_def)
  moreover have "st_reader s = None" "st_revision s = head_of j"
    and ch: "st_changes s = map (\<lambda>(r, cs). (r, sort (map cid cs))) (st_versions s)"
    using M by auto
  ultimately have rep': "represents sha t (appended j ?d)"
    if "st_journal t = None" "st_cells t = put_cells ?d (st_cells s)" "st_revision t = Suc (head_of j)"
      "st_reader t = None" "st_versions t = st_versions s @ [(Suc (head_of j), ?d)]"
      "st_changes t = st_changes s @ [(Suc (head_of j), sort (map cid ?d))]" for t
    using that log keys(1) journal_ok_appended [OF D(1) rows'] checkpoints_ok_appended [OF D(1,2)] D(1)
    by (simp add: represents_def)
  show ?thesis
    unfolding publish_eq Let_def \<open>st_revision s = head_of j\<close> hist [unfolded \<open>st_revision s = head_of j\<close>]
      prod.case sum.case
    by (rule exI, rule conjI, rule refl, intro conjI rep')
      (simp_all add: sj' \<open>st_reader s = None\<close> \<open>st_revision s = head_of j\<close>)
qed

section \<open>Committing\<close>

text \<open>A store left behind by its journal still represents it, at its own revision.\<close>

lemma reader_ok_appended:
  "journal_ok j \<Longrightarrow> reader_ok sha j rd \<Longrightarrow> reader_ok sha (appended j d) rd"
  by (simp add: reader_ok_def chain_digest_at_appended)

lemma represents_behind:
  assumes rep: "represents sha s j" and sj: "st_journal s = Some j"
    and rows: "commit_rows_ok (state_at (j_versions j) (head_of j)) d"
  shows "represents sha (s\<lparr>st_journal := Some (appended j d)\<rparr>) (appended j d)"
proof -
  note D = representsD [OF rep]
  obtain rd where "st_reader s = Some rd" "rd_revision rd = st_revision s" "reader_ok sha j rd"
    using D(7) [OF sj] by auto
  then show ?thesis
    using D(1-4) journal_ok_appended [OF D(1) rows] checkpoints_ok_appended [OF D(1,2)]
    by (simp add: represents_def reader_ok_appended appended_old_state)
qed

text \<open>A journal that only grew above another's head keeps every graph and digest below it.\<close>

definition extends :: "journal \<Rightarrow> journal \<Rightarrow> bool" where
  "extends j j' \<longleftrightarrow> head_of j \<le> head_of j' \<and>
     (\<exists>rs. j_versions j' = j_versions j @ rs \<and> (\<forall>(v, c) \<in> set rs. head_of j < v))"

lemma extends_refl: "j_versions j' = j_versions j \<Longrightarrow> head_of j' = head_of j \<Longrightarrow> extends j j'"
  by (auto simp: extends_def)

lemma extends_appended: "journal_ok j \<Longrightarrow> extends j (appended j d)"
  by (auto simp: extends_def) (auto simp: appended_def)

lemma extends_state:
  assumes "extends j j'" "r \<le> head_of j"
  shows "state_at (j_versions j') r = state_at (j_versions j) r"
  using assms unfolding extends_def by (force intro!: state_at_append)

lemma extends_chain:
  assumes "extends j j'" "r \<le> head_of j"
  shows "chain_digest_at sha (j_versions j') r = chain_digest_at sha (j_versions j) r"
proof -
  obtain rs where rs: "j_versions j' = j_versions j @ rs" "\<forall>(v, c) \<in> set rs. head_of j < v"
    using assms(1) by (auto simp: extends_def)
  have "rows_of (j_versions j') v = rows_of (j_versions j) v" if "v \<le> head_of j" for v
  proof -
    have "filter (\<lambda>(w, c). w = v) rs = []" using rs(2) that by (force simp: filter_empty_conv)
    then show ?thesis by (simp add: rows_of_def rs(1))
  qed
  then show ?thesis
    unfolding chain_digest_at_def using assms(2)
    by (intro arg_cong [where f = "chain_from sha zero_digest 0"] map_cong) auto
qed

lemma appended_versions: "j_versions (appended j d) = j_versions j @ map (Pair (Suc (head_of j))) d"
  by (simp add: appended_def)

text \<open>The four ways the durable append of a planned commit ends.\<close>

lemma append_to_journal_cases:
  assumes rep: "represents sha s j" and sj: "st_journal s = Some j" and sha: "env_sha env = sha" "\<And>x. length (sha x) = 32"
    and rows: "commit_rows_ok (st_cells s) d"
    and app: "append_to_journal env (st_revision s) d s = (s', res)"
  shows "(st_revision s = head_of j \<and> res = Inr () \<and> s' = s\<lparr>st_journal := Some (appended j d)\<rparr>) \<or>
    (\<exists>e. res = Inl e \<and> s' = s) \<or>
    (\<exists>e. res = Inl e \<and> st_revision s = head_of j \<and> env_fault env ''after_commit'' = Some e \<and>
       s' = s\<lparr>st_journal := Some (appended j d)\<rparr>) \<or>
    (\<exists>m j'. res = Inl (Conflict m) \<and> represents sha s' j' \<and> st_revision s' = head_of j' \<and> extends j j' \<and>
       (j_versions j' = j_versions j \<or> st_revision s = head_of j \<and>
          env_fault env ''after_commit'' = Some (Conflict m) \<and> j_versions j' = j_versions (appended j d)))"
proof -
  note D = representsD [OF rep]
  have d: "distinct (map cid d)" using rows by (simp add: commit_rows_ok_def)
  obtain j1 r1 where ap: "journal_append (env_fault env) (outcome (env_physical env)) j (st_revision s)
      (Suc (st_revision s)) d = (j1, r1)" by fastforce
  have same: "s\<lparr>st_journal := Some j\<rparr> = s" using sj by simp
  have j1: "(j1 = j \<and> (\<exists>e. r1 = Inl e)) \<or> (st_revision s = head_of j \<and> j1 = appended j d \<and>
      (r1 = Inr () \<or> (\<exists>e. r1 = Inl e \<and> env_fault env ''after_commit'' = Some e)))"
  proof (cases "outcome (env_physical env)")
    case (Inl a)
    show ?thesis using ap unfolding journal_append_cases [OF D(1) d] Inl by (auto split: if_splits)
  next
    case (Inr a)
    show ?thesis
      using ap unfolding journal_append_cases [OF D(1) d] Inr by (auto split: if_splits option.splits)
  qed
  show ?thesis
  proof (cases "\<exists>m. r1 = Inl (Conflict m)")
    case True
    then obtain m where m: "r1 = Inl (Conflict m)" by blast
    have good: "journal_ok j1 \<and> checkpoints_ok sha j1 \<and> st_revision s \<le> head_of j1 \<and>
        extends j j1"
    proof (cases "j1 = j")
      case True
      with D show ?thesis by (auto intro: extends_refl)
    next
      case False
      with j1 have "j1 = appended j d" "st_revision s = head_of j" by auto
      with D(1-4) rows journal_ok_appended [OF D(1)] checkpoints_ok_appended [OF D(1,2)] show ?thesis
        by (auto simp: extends_appended)
    qed
    then obtain j' t where t: "reload sha j1 s = (t, Inr ())" "represents sha t j'"
      "st_revision t = head_of j1" "j_versions j' = j_versions j1" "head_of j' = head_of j1"
      using reload_ok [of j1 sha s] sha(2) by blast
    then have "append_to_journal env (st_revision s) d s = (t, Inl (Conflict m))"
      using sj ap m sha(1) by (simp add: append_to_journal_def)
    with app have "s' = t" "res = Inl (Conflict m)" by auto
    moreover have "extends j j'"
      using good t(4,5) by (simp add: extends_def)
    moreover have "j_versions j' = j_versions j \<or> st_revision s = head_of j \<and>
        env_fault env ''after_commit'' = Some (Conflict m) \<and> j_versions j' = j_versions (appended j d)"
      using j1 m t(4) by auto
    ultimately show ?thesis using t by (intro disjI2) auto
  next
    case False
    then have "append_to_journal env (st_revision s) d s = (s\<lparr>st_journal := Some j1\<rparr>, r1)"
      using sj ap by (auto simp: append_to_journal_def split: sum.split kernel_error.split)
    with app j1 same show ?thesis by auto
  qed
qed

text \<open>
  What a commit can do to a store: nothing; publish one revision; leave the store behind a journal
  that took the rows; or adopt the journal's head.
\<close>

definition unchanged :: "store \<Rightarrow> journal \<Rightarrow> store \<Rightarrow> journal \<Rightarrow> bool" where
  "unchanged s j s' j' \<longleftrightarrow> s' = s \<and> j' = j"

definition published :: "store \<Rightarrow> journal \<Rightarrow> cell list \<Rightarrow> store \<Rightarrow> journal \<Rightarrow> bool" where
  "published s j d s' j' \<longleftrightarrow>
     commit_rows_ok (st_cells s) d \<and> st_revision s = head_of j \<and> st_revision s' = Suc (st_revision s) \<and>
     st_cells s' = put_cells d (st_cells s) \<and> head_of j' = st_revision s' \<and>
     j_versions j' = j_versions j @ map (Pair (Suc (st_revision s))) d"

definition behind :: "store \<Rightarrow> journal \<Rightarrow> cell list \<Rightarrow> store \<Rightarrow> journal \<Rightarrow> bool" where
  "behind s j d s' j' \<longleftrightarrow>
     commit_rows_ok (st_cells s) d \<and> st_revision s = head_of j \<and> st_revision s' = st_revision s \<and>
     st_cells s' = st_cells s \<and> j' = appended j d"

definition adopted :: "store \<Rightarrow> journal \<Rightarrow> store \<Rightarrow> journal \<Rightarrow> bool" where
  "adopted s j s' j' \<longleftrightarrow> st_revision s' = head_of j' \<and> extends j j'"

lemmas commit_effects = unchanged_def published_def behind_def adopted_def

lemma publish_after_append:
  assumes rep: "represents sha s j" and sha: "env_sha env = sha" "\<And>x. length (sha x) = 32"
    and rows: "commit_rows_ok (st_cells s) (cr @ ch)"
    and app: "append_to_journal env (st_revision s) (cr @ ch) s = (s', Inr ())"
  shows "\<exists>s'' j'. publish env decl cr ch s' = (s'', Inr (Suc (st_revision s))) \<and> represents sha s'' j' \<and>
    published s j (cr @ ch) s'' j' \<and> st_failures s'' = notify (env_listener env)
        \<lparr>ev_revision = Suc (st_revision s), ev_changed = map cid (cr @ ch), ev_declaration = decl\<rparr>
        (st_listeners s) (st_failures s)"
proof (cases "st_journal s")
  case None
  then have "s' = s" "st_revision s = head_of j"
    using app representsD(6) [OF rep None] by (auto simp: append_to_journal_def)
  moreover obtain t where "publish env decl cr ch s = (t, Inr (Suc (head_of j)))"
    "represents sha t (appended j (cr @ ch))" "st_cells t = put_cells (cr @ ch) (st_cells s)"
    "st_revision t = Suc (head_of j)" "st_failures t = notify (env_listener env)
        \<lparr>ev_revision = Suc (head_of j), ev_changed = map cid (cr @ ch), ev_declaration = decl\<rparr>
        (st_listeners s) (st_failures s)"
    using publish_memory [OF rep None rows, of env decl] by blast
  ultimately show ?thesis
    using rows by (intro exI [of _ t] exI [of _ "appended j (cr @ ch)"])
      (use representsD(1) [OF rep] in \<open>simp add: published_def appended_versions del: map_append\<close>)
next
  case (Some j0)
  with representsD(5) [OF rep] have sj: "st_journal s = Some j" by simp
  with append_to_journal_cases [OF rep sj sha rows app]
  have "s' = s\<lparr>st_journal := Some (appended j (cr @ ch))\<rparr>" "st_revision s = head_of j" by auto
  moreover from this obtain t rec where "publish env decl cr ch s' = (t, Inr (Suc (head_of j)))"
    "represents sha t (appended j (cr @ ch)\<lparr>j_recorded := rec\<rparr>)" "st_cells t = put_cells (cr @ ch) (st_cells s)"
    "st_revision t = Suc (head_of j)" "st_failures t = notify (env_listener env)
        \<lparr>ev_revision = Suc (head_of j), ev_changed = map cid (cr @ ch), ev_declaration = decl\<rparr>
        (st_listeners s) (st_failures s)"
    using publish_journal [OF rep sj _ rows sha, of decl] by blast
  ultimately show ?thesis
    using rows by (intro exI [of _ t] exI [of _ "appended j (cr @ ch)\<lparr>j_recorded := rec\<rparr>"])
      (use representsD(1) [OF rep] in \<open>simp add: published_def appended_versions del: map_append\<close>)
qed

text \<open>Every outcome of a commit on a represented store.\<close>

lemma commit_outcomes:
  assumes rep: "represents sha s j" and sha: "env_sha env = sha" "\<And>x. length (sha x) = 32"
    and run: "commit env expected create replace (c, s) = ((c', s'), res)"
  shows "\<exists>j'. represents sha s' j' \<and>
    (case res of
       Inr r \<Rightarrow> unchanged s j s' j' \<and> r = st_revision s \<or>
         (\<exists>cr rs ch. expected = st_revision s \<and> transformed env s create replace = Inr (cr, rs) \<and>
            commit_plan (st_cells s) cr rs = Inr ch \<and> published s j (cr @ ch) s' j' \<and>
            r = Suc (st_revision s) \<and> fst (refusal (st_gated s) c) = c' \<and>
            snd (refusal (st_gated s) c) = None \<and>
            st_failures s' = notify (env_listener env) \<lparr>ev_revision = Suc (st_revision s),
                ev_changed = map cid (cr @ ch), ev_declaration = current_declaration c'\<rparr>
              (st_listeners s) (st_failures s))
     | Inl e \<Rightarrow> unchanged s j s' j' \<or>
         (\<exists>d. behind s j d s' j' \<and> env_fault env ''after_commit'' = Some e) \<or>
         (\<exists>m. e = Conflict m) \<and> adopted s j s' j')"
proof -
  have same: "\<exists>j'. represents sha s j' \<and> unchanged s j s j'" using rep by (auto simp: unchanged_def)
  show ?thesis
  proof (cases "(env_physical env \<noteq> None \<and> st_journal s = None) \<or> st_closed s \<or> st_stable_depth s \<noteq> 0 \<or>
      expected \<noteq> st_revision s \<or> \<not> is_ok (transformed env s create replace)")
    case True
    then have "s' = s \<and> (\<exists>e. res = Inl e)"
      using run by (auto simp: commit_def is_ok_iff split: if_splits sum.splits)
    then show ?thesis using same by auto
  next
    case False
    then obtain cr rs where t: "transformed env s create replace = Inr (cr, rs)" and ex: "expected = st_revision s"
      by (auto simp: is_ok_iff)
    show ?thesis
    proof (cases "commit_plan (st_cells s) cr rs")
      case (Inl e)
      with run t False have "s' = s" "res = Inl e" by (auto simp: commit_def)
      then show ?thesis using same by auto
    next
      case (Inr ch)
      obtain c1 ref where ref: "refusal (st_gated s) c = (c1, ref)" by fastforce
      show ?thesis
      proof (cases "cr = [] \<and> ch = [] \<or> ref \<noteq> None \<or> \<not> links_resolve (st_cells s) (cr @ ch) \<or>
          \<not> is_ok (outcome (env_guard env))")
        case True
        then have "s' = s \<and> (res = Inr (st_revision s) \<or> (\<exists>e. res = Inl e))"
          using run t False Inr ref by (auto simp: commit_def is_ok_iff split: if_splits option.splits sum.splits)
        then show ?thesis using same by auto
      next
        case go: False
        then have rows: "commit_rows_ok (st_cells s) (cr @ ch)"
          using commit_plan_rows [OF represents_graph_ok [OF rep] Inr] by auto
        obtain s1 r1 where app: "append_to_journal env (st_revision s) (cr @ ch) s = (s1, r1)" by fastforce
        have run': "((c', s'), res) = (case r1 of Inl e \<Rightarrow> ((c1, s1), Inl e)
            | Inr _ \<Rightarrow> let (s2, r2) = publish env (current_declaration c1) cr ch s1 in ((c1, s2), r2))"
          using run t False Inr ref go app ex
          by (auto simp: commit_def is_ok_iff split: sum.splits)
        show ?thesis
        proof (cases r1)
          case (Inr u)
          with publish_after_append [OF rep sha rows, of s1 "current_declaration c1"] app run'
          obtain j' where "represents sha s' j'" "published s j (cr @ ch) s' j'" "res = Inr (Suc (st_revision s))"
            "c' = c1" "st_failures s' = notify (env_listener env) \<lparr>ev_revision = Suc (st_revision s),
                ev_changed = map cid (cr @ ch), ev_declaration = current_declaration c1\<rparr>
              (st_listeners s) (st_failures s)"
            by auto
          with t ex \<open>commit_plan (st_cells s) cr rs = Inr ch\<close> ref go show ?thesis
            by (intro exI [of _ j']) auto
        next
          case (Inl e)
          with run' have s': "s' = s1" and res: "res = Inl e" by auto
          have sj: "st_journal s = Some j"
            using Inl app representsD(5) [OF rep] by (auto simp: append_to_journal_def)
          have cells: "st_revision s = head_of j \<Longrightarrow> st_cells s = state_at (j_versions j) (head_of j)"
            using representsD(4) [OF rep] by simp
          consider "s1 = s" | "st_revision s = head_of j" "env_fault env ''after_commit'' = Some e"
              "s1 = s\<lparr>st_journal := Some (appended j (cr @ ch))\<rparr>"
            | m j' where "e = Conflict m" "represents sha s1 j'" "st_revision s1 = head_of j'" "extends j j'"
            using append_to_journal_cases [OF rep sj sha rows app] Inl by auto
          then show ?thesis
          proof cases
            case 1
            then show ?thesis using same unfolding s' res by auto
          next
            case 2
            then have "represents sha s1 (appended j (cr @ ch))" "behind s j (cr @ ch) s1 (appended j (cr @ ch))"
              using represents_behind [OF rep sj] rows cells by (auto simp: behind_def)
            then show ?thesis using 2 unfolding s' res by auto
          next
            case 3
            then show ?thesis unfolding s' res by (auto simp: adopted_def)
          qed
        qed
      qed
    qed
  qed
qed

lemma published_extends: "published s j d s' j' \<Longrightarrow> extends j j'"
  by (auto simp: published_def extends_def)

text \<open>Where the store a commit leaves comes from.\<close>

definition attempted :: "commit_env \<Rightarrow> cell list \<Rightarrow> cell list \<Rightarrow> store \<Rightarrow> store \<Rightarrow> nat result \<Rightarrow> bool" where
  "attempted env create replace s s' res \<longleftrightarrow>
     (\<exists>cr rs ch s1 r1 decl. transformed env s create replace = Inr (cr, rs) \<and>
        commit_plan (st_cells s) cr rs = Inr ch \<and> cr @ ch \<noteq> [] \<and>
        links_resolve (st_cells s) (cr @ ch) \<and> append_to_journal env (st_revision s) (cr @ ch) s = (s1, r1) \<and>
        (case r1 of Inl e \<Rightarrow> s' = s1 | Inr _ \<Rightarrow> publish env decl cr ch s1 = (s', res)))"

lemma attemptedI:
  "transformed env s create replace = Inr (cr, rs) \<Longrightarrow> commit_plan (st_cells s) cr rs = Inr ch \<Longrightarrow>
     cr \<noteq> [] \<or> ch \<noteq> [] \<Longrightarrow> links_resolve (st_cells s) (cr @ ch) \<Longrightarrow>
     append_to_journal env (st_revision s) (cr @ ch) s = (s', Inl e) \<Longrightarrow> attempted env create replace s s' res"
  "transformed env s create replace = Inr (cr, rs) \<Longrightarrow> commit_plan (st_cells s) cr rs = Inr ch \<Longrightarrow>
     cr \<noteq> [] \<or> ch \<noteq> [] \<Longrightarrow> links_resolve (st_cells s) (cr @ ch) \<Longrightarrow>
     append_to_journal env (st_revision s) (cr @ ch) s = (s1, Inr u) \<Longrightarrow> publish env decl cr ch s1 = (s', res) \<Longrightarrow>
     attempted env create replace s s' res"
  unfolding attempted_def by fastforce+

lemma commit_shape:
  assumes run: "commit env expected create replace (c, s) = ((c', s'), res)"
  shows "s' = s \<or> attempted env create replace s s' res"
  using run unfolding commit_def Let_def
  by (auto split: if_splits sum.splits prod.splits option.splits dest: attemptedI)

end
