(* ===== verification/StoreHistory.thy ===== *)
theory StoreHistory
  imports StoreLaws
begin

text \<open>
  The questions a \<open>CellStore\<close> answers about its past: \<open>at\<close> with its two remembered snapshots
  and its bounded walk down from the head, the Cells and creation revisions of identities, the
  revisions under a root, the chain digest with its remembered prefixes, and the additive set
  accumulator with its eight remembered revisions. The definitions come first, then the law of
  each: every answer is the one the history determines, whatever was remembered.
\<close>

section \<open>Snapshots of a revision\<close>

definition HISTORICAL_CACHE_SIZE :: nat where "HISTORICAL_CACHE_SIZE = 2"
definition STEP_BACK_LIMIT :: nat where "STEP_BACK_LIMIT = 256"

type_synonym held = "(nat \<times> bool \<times> snapshot) list"

text \<open>The walk from the head down to the wanted revision; a held snapshot is used as it is.\<close>

fun walk_down ::
  "(snapshot \<Rightarrow> snapshot result) \<Rightarrow> nat list \<Rightarrow> bool \<times> snapshot \<Rightarrow> held \<Rightarrow> held \<times> (bool \<times> snapshot) result" where
  "walk_down step [] cursor h = (h, Inr cursor)"
| "walk_down step (t # ts) cursor h =
     (case map_of h t of
        Some held \<Rightarrow> walk_down step ts held (od_put t held h)
      | None \<Rightarrow>
          (case step (snd cursor) of
             Inl e \<Rightarrow> (h, Inl e)
           | Inr sn \<Rightarrow> walk_down step ts (False, sn) (od_put t (False, sn) h)))"

definition keep_snapshot :: "nat \<Rightarrow> bool \<times> snapshot \<Rightarrow> held \<Rightarrow> held" where
  "keep_snapshot r sn h = od_trim HISTORICAL_CACHE_SIZE (AList.update r sn h)"

definition at_journal :: "journal \<Rightarrow> reader \<Rightarrow> nat \<Rightarrow> store \<Rightarrow> store \<times> snapshot result" where
  "at_journal j rd r s =
     (let head = Snapshot (st_revision s) (st_cells s);
          h = st_historical s;
          above_held = (if Suc r = st_revision s then Some (False, head) else map_of h (Suc r));
          (h', res) =
            (case above_held of
               Some (True, _) \<Rightarrow> (h, rbind (lazy_snapshot_at j (rd_revision rd) r) (\<lambda>sn. Inr (True, sn)))
             | Some (False, a) \<Rightarrow>
                 (h, rbind (snapshot_stepped_back j (rd_revision rd) a) (\<lambda>sn. Inr (False, sn)))
             | None \<Rightarrow>
                 if r < st_revision s \<and> st_revision s - r \<le> STEP_BACK_LIMIT
                 then walk_down (snapshot_stepped_back j (rd_revision rd)) (rev [r..<st_revision s])
                        (False, head) h
                 else (h, rbind (lazy_snapshot_at j (rd_revision rd) r) (\<lambda>sn. Inr (True, sn))))
      in (case res of
            Inl e \<Rightarrow> (s\<lparr>st_historical := h'\<rparr>, Inl e)
          | Inr sn \<Rightarrow> (s\<lparr>st_historical := keep_snapshot r sn h'\<rparr>, Inr (snd sn))))"

text \<open>In memory: replay the versions from the nearest remembered snapshot below.\<close>

fun replay_versions ::
  "(nat \<times> cell list) list \<Rightarrow> nat list \<Rightarrow> cells \<Rightarrow> string list \<Rightarrow> (cells \<times> string list) result" where
  "replay_versions versions [] m touched = Inr (m, touched)"
| "replay_versions versions (r # rs) m touched =
     (case map_of versions r of
        None \<Rightarrow> Inl (InvalidCell ''revision history is discontinuous'')
      | Some cs \<Rightarrow> replay_versions versions rs (put_cells cs m) (touched @ map cid cs))"

definition nearest_below :: "nat \<Rightarrow> held \<Rightarrow> nat option" where
  "nearest_below r h =
     (let below = filter (\<lambda>x. x < r) (map fst h)
      in if below = [] then None else Some (Max (set below)))"

definition incidence_resolves :: "cells \<Rightarrow> string list \<Rightarrow> bool" where
  "incidence_resolves m ks =
     list_all (\<lambda>k. case m k of None \<Rightarrow> False
                          | Some c \<Rightarrow> m (link0 c) \<noteq> None \<and> m (link1 c) \<noteq> None) ks"

definition at_memory :: "nat \<Rightarrow> store \<Rightarrow> store \<times> snapshot result" where
  "at_memory r s =
     (if r \<notin> set (map fst (st_versions s)) then (s, Inl (InvalidCell ''unknown revision''))
      else
        let h = st_historical s;
            (h1, base, start) =
              (case nearest_below r h of
                 None \<Rightarrow> (h, Map.empty, 0)
               | Some p \<Rightarrow> (od_touch p h, snap_cells (snd (the (map_of h p))), Suc p))
        in (case replay_versions (st_versions s) [start..<Suc r] base [] of
              Inl e \<Rightarrow> (s\<lparr>st_historical := h1\<rparr>, Inl e)
            | Inr (m, touched) \<Rightarrow>
                if \<not> incidence_resolves m touched
                then (s\<lparr>st_historical := h1\<rparr>, Inl (InvalidCell ''revision has dangling incidence''))
                else (s\<lparr>st_historical := keep_snapshot r (False, Snapshot r m) h1\<rparr>,
                      Inr (Snapshot r m))))"

definition at_revision :: "nat \<Rightarrow> store \<Rightarrow> store \<times> snapshot result" where
  "at_revision r s =
     (if st_closed s then (s, Inl (InvalidCell ''cannot read a closed store''))
      else if r = st_revision s then (s, Inr (Snapshot (st_revision s) (st_cells s)))
      else case map_of (st_historical s) r of
        Some (lz, sn) \<Rightarrow> (s\<lparr>st_historical := od_touch r (st_historical s)\<rparr>, Inr sn)
      | None \<Rightarrow>
          (case (st_reader s, st_journal s) of
             (Some rd, Some j) \<Rightarrow> at_journal j rd r s
           | (Some rd, None) \<Rightarrow> (s, Inl (InvalidCell ''cell store reader is closing or closed''))
           | (None, _) \<Rightarrow> at_memory r s))"

definition read_at :: "nat option \<Rightarrow> string \<Rightarrow> store \<Rightarrow> store \<times> cell result" where
  "read_at revision k s =
     (if st_closed s then (s, Inl (InvalidCell ''cannot read a closed store''))
      else
        let (s', source) = (case revision of None \<Rightarrow> (s, Inr (Snapshot (st_revision s) (st_cells s)))
                            | Some r \<Rightarrow> at_revision r s)
        in (s', rbind source (\<lambda>sn. case snap_cells sn k of
                 None \<Rightarrow> Inl (KeyError k) | Some c \<Rightarrow> Inr c)))"

section \<open>Changes, Cells and creation\<close>

definition revisions :: "store \<Rightarrow> nat list" where
  "revisions s =
     (if st_reader s \<noteq> None then [0..<Suc (st_revision s)] else sort (map fst (st_versions s)))"

definition with_reader :: "store \<Rightarrow> (journal \<Rightarrow> nat \<Rightarrow> 'a result) \<Rightarrow> 'a result \<Rightarrow> 'a result" where
  "with_reader s durable memory =
     (case st_reader s of
        None \<Rightarrow> memory
      | Some rd \<Rightarrow> (case st_journal s of
            None \<Rightarrow> Inl (InvalidCell ''cell store reader is closing or closed'')
          | Some j \<Rightarrow> durable j (rd_revision rd)))"

definition revision_changes :: "store \<Rightarrow> nat \<Rightarrow> string list result" where
  "revision_changes s r =
     with_reader s (\<lambda>j head. rbind (revision_cells j head r) (\<lambda>cs. Inr (map cid cs)))
       (case map_of (st_changes s) r of
          None \<Rightarrow> Inl (InvalidCell ''unknown revision'') | Some ks \<Rightarrow> Inr ks)"

definition revisions_touching :: "store \<Rightarrow> string \<Rightarrow> nat list result" where
  "revisions_touching s root =
     with_reader s (\<lambda>j head. Inr (reader_revisions_touching j head root))
       (Inr (filter (\<lambda>r. list_ex (\<lambda>k. k = root \<or> starts_with k (root @ '':''))
                            (the (map_of (st_changes s) r)))
          (sort (map fst (st_changes s)))))"

text \<open>\<open>_cell_history_index\<close>: the versions of each identity, oldest first.\<close>

definition history_index :: "(nat \<times> cell list) list \<Rightarrow> string \<rightharpoonup> (nat \<times> cell) list" where
  "history_index versions k =
     (let entries = filter (\<lambda>(r, c). cid c = k)
            (concat (map (\<lambda>r. map (Pair r) (the (map_of versions r))) (sort (map fst versions))))
      in if entries = [] then None else Some entries)"

text \<open>\<open>bisect_right(revisions, revision) - 1\<close>: the last entry at or below the revision.\<close>

definition version_at :: "(nat \<times> cell) list \<Rightarrow> nat \<Rightarrow> cell option" where
  "version_at entries r =
     (let upto = takeWhile (\<lambda>(v, c). v \<le> r) entries
      in if upto = [] then None else Some (snd (last upto)))"

definition cells_at :: "nat \<Rightarrow> string list \<Rightarrow> store \<Rightarrow> store \<times> (string \<times> cell) list result" where
  "cells_at r ids s =
     (let requested = dedup ids in
      if r = st_revision s
      then (s, rmap (\<lambda>k. case st_cells s k of None \<Rightarrow> Inl (InvalidCell (''unknown cell '' @ k))
                                  | Some c \<Rightarrow> Inr (k, c)) requested)
      else case st_reader s of
        Some rd \<Rightarrow> (s, with_reader s (\<lambda>j head. reader_cells_at j head r requested) (Inr []))
      | None \<Rightarrow>
          if r \<notin> set (map fst (st_versions s)) then (s, Inl (InvalidCell ''unknown revision''))
          else
            let index = (case st_index s of Some ix \<Rightarrow> ix | None \<Rightarrow> history_index (st_versions s))
            in (s\<lparr>st_index := Some index\<rparr>,
                rmap (\<lambda>k. case index k of
                    None \<Rightarrow> Inl (InvalidCell (''unknown cell '' @ k))
                  | Some entries \<Rightarrow> (case version_at entries r of
                        None \<Rightarrow> Inl (InvalidCell (''cell did not exist at revision '' @ k))
                      | Some c \<Rightarrow> Inr (k, c))) requested))"

definition cell_created_revision :: "store \<Rightarrow> string \<Rightarrow> nat result" where
  "cell_created_revision s k =
     (if st_cells s k = None then Inl (InvalidCell ''unknown cell'')
      else with_reader s (\<lambda>j head. created_revision j head k)
        (case filter (\<lambda>r. list_ex (\<lambda>c. cid c = k) (the (map_of (st_versions s) r)))
                (sort (map fst (st_versions s))) of
           [] \<Rightarrow> Inl (InvalidCell ''cell creation revision is missing'')
         | r # rs \<Rightarrow> Inr r))"

record retention =
  revision_count :: nat
  current_cell_count :: nat
  version_cell_count :: nat
  resident_history_version_cell_count :: nat
  historical_snapshot_count :: nat
  historical_snapshot_cell_count :: nat

definition retention_stats :: "store \<Rightarrow> retention result" where
  "retention_stats s =
     (let resident = sum_list (map (length \<circ> snd) (st_versions s)) in
      rbind (with_reader s (\<lambda>j head. Inr (version_count j head)) (Inr resident)) (\<lambda>rows.
      Inr \<lparr>revision_count = (if st_reader s \<noteq> None then Suc (st_revision s) else length (st_versions s)),
           current_cell_count = card (dom (st_cells s)),
           version_cell_count = rows,
           resident_history_version_cell_count = resident,
           historical_snapshot_count = length (st_historical s),
           historical_snapshot_cell_count =
             sum_list (map (\<lambda>(r, lz, sn). card (dom (snap_cells sn))) (st_historical s))\<rparr>))"

section \<open>Digests\<close>

text \<open>
  \<open>revision_chain_digest\<close> before the final \<open>.hex()\<close>: in memory it continues from the highest
  remembered prefix at or below the target and remembers every digest it computes.
\<close>

fun chain_steps ::
  "(bytes \<Rightarrow> bytes) \<Rightarrow> store \<Rightarrow> nat list \<Rightarrow> bytes \<Rightarrow> (nat \<times> bytes) list \<Rightarrow> (nat \<times> bytes) list \<times> bytes result" where
  "chain_steps sha s [] previous cache = (cache, Inr previous)"
| "chain_steps sha s (r # rs) previous cache =
     (let changed = the (map_of (st_versions s) r);
          ordered = map (\<lambda>k. the (map_of (map (\<lambda>c. (cid c, c)) (rev changed)) k))
                      (the (map_of (st_changes s) r))
      in case revision_chain_digest_step sha previous r ordered of
           Inl e \<Rightarrow> (cache, Inl e)
         | Inr d \<Rightarrow> chain_steps sha s rs d (AList.update r d cache))"

definition chain_digest_raw :: "(bytes \<Rightarrow> bytes) \<Rightarrow> nat \<Rightarrow> store \<Rightarrow> store \<times> bytes result" where
  "chain_digest_raw sha target s =
     (case st_reader s of
        Some rd \<Rightarrow> (s, with_reader s (\<lambda>j head. reader_chain_digest sha j rd target) (Inr []))
      | None \<Rightarrow>
          if target \<notin> set (map fst (st_versions s)) then (s, Inl (InvalidCell ''unknown revision''))
          else
            let remembered = filter (\<lambda>r. r \<le> target) (map fst (st_chain_digests s));
                (previous, start) =
                  (if remembered = [] then (zero_digest, 0)
                   else (the (map_of (st_chain_digests s) (Max (set remembered))), Suc (Max (set remembered))));
                (cache, res) = chain_steps sha s [start..<Suc target] previous (st_chain_digests s)
            in (s\<lparr>st_chain_digests := cache\<rparr>, res))"

definition store_chain_digest :: "(bytes \<Rightarrow> bytes) \<Rightarrow> nat option \<Rightarrow> store \<Rightarrow> store \<times> string result" where
  "store_chain_digest sha revision s =
     (let (s', res) = chain_digest_raw sha (case revision of None \<Rightarrow> st_revision s | Some r \<Rightarrow> r) s
      in (s', rbind res (\<lambda>d. Inr (hex d))))"

text \<open>\<open>_changed_at\<close>.\<close>

definition changed_at :: "store \<Rightarrow> nat \<Rightarrow> cell list result" where
  "changed_at s r =
     with_reader s (\<lambda>j head. revision_cells j head r)
       (case map_of (st_versions s) r of
          None \<Rightarrow> Inl (InvalidCell ''unknown revision'') | Some cs \<Rightarrow> Inr cs)"

text \<open>
  \<open>bytes.fromhex\<close> of a predecessor together with the two length tests: 64 hexadecimal digits.
\<close>

definition hex_value :: "char \<Rightarrow> nat option" where
  "hex_value c =
     (let n = of_char c in
      if 48 \<le> n \<and> n \<le> 57 then Some (n - 48)
      else if 97 \<le> n \<and> n \<le> 102 then Some (n - 87)
      else if 65 \<le> n \<and> n \<le> 70 then Some (n - 55) else None)"

fun unhex :: "string \<Rightarrow> bytes option" where
  "unhex [] = Some []"
| "unhex [c] = None"
| "unhex (a # b # r) =
     (case (hex_value a, hex_value b, unhex r) of
        (Some x, Some y, Some bs) \<Rightarrow> Some (char_of (16 * x + y) # bs)
      | _ \<Rightarrow> None)"

record transition =
  tr_snapshot :: snapshot
  tr_digest :: string
  tr_changed :: "cell list option"

definition snapshot_transition ::
  "(bytes \<Rightarrow> bytes) \<Rightarrow> nat option \<Rightarrow> string option \<Rightarrow> store \<Rightarrow> store \<times> transition result" where
  "snapshot_transition sha previous_revision previous_digest s =
     (let sn = Snapshot (st_revision s) (st_cells s); (s', res) = store_chain_digest sha None s in
      (s', rbind res (\<lambda>digest.
        let plain = Inr \<lparr>tr_snapshot = sn, tr_digest = digest, tr_changed = None\<rparr> in
        case (previous_revision, previous_digest) of
          (Some r, Some text) \<Rightarrow>
            (case unhex text of
               None \<Rightarrow> plain
             | Some predecessor \<Rightarrow>
                 if length predecessor \<noteq> 32 then plain
                 else if r = st_revision s
                 then Inr \<lparr>tr_snapshot = sn, tr_digest = digest,
                           tr_changed = (if hex predecessor = digest then Some [] else None)\<rparr>
                 else if Suc r = st_revision s
                 then rbind (changed_at s' (st_revision s)) (\<lambda>delta.
                      rbind (revision_chain_digest_step sha predecessor (st_revision s) delta) (\<lambda>d.
                      Inr \<lparr>tr_snapshot = sn, tr_digest = digest,
                           tr_changed = (if hex d = digest then Some delta else None)\<rparr>))
                 else plain)
        | _ \<Rightarrow> plain)))"

section \<open>Set accumulators\<close>

definition recorded_set_accumulator :: "nat \<Rightarrow> store \<Rightarrow> int option" where
  "recorded_set_accumulator r s =
     (case st_journal s of
        None \<Rightarrow> None
      | Some j \<Rightarrow>
          if \<not> j_fenced j then None
          else (case map_of (j_recorded j) r of
             None \<Rightarrow> None
           | Some (rows, newest, raw) \<Rightarrow>
               if covered j r \<noteq> (rows, newest) \<or> length raw \<noteq> SET_HASH_BYTES then None
               else Some (int (be_nat raw))))"

text \<open>
  \<open>set_accumulator\<close>. \<open>own\<close> says whether the snapshot's mapping is the very object the store
  publishes (\<open>snapshot.cells is self._cells\<close>).
\<close>

definition store_set_accumulator ::
  "(bytes \<Rightarrow> bytes) \<Rightarrow> bool \<Rightarrow> snapshot \<Rightarrow> store \<Rightarrow> store \<times> int result" where
  "store_set_accumulator shake own sn s =
     (let r = snap_revision sn in
      if r = st_revision s \<and> \<not> own then (s, Inr (set_accumulator shake (values_of (snap_cells sn))))
      else case map_of (st_accumulators s) r of
        Some a \<Rightarrow> (s\<lparr>st_accumulators := od_touch r (st_accumulators s)\<rparr>, Inr a)
      | None \<Rightarrow>
          (case (if Suc r \<le> st_revision s then map_of (st_accumulators s) (Suc r) else None) of
             Some above_acc \<Rightarrow>
               (case changed_at s (Suc r) of
                  Inl e \<Rightarrow> (s, Inl e)
                | Inr written \<Rightarrow>
                    let restored = map (\<lambda>c. the (snap_cells sn (cid c)))
                          (filter (\<lambda>c. snap_cells sn (cid c) \<noteq> None) written);
                        a = accumulator_add shake (accumulator_remove shake above_acc written) restored
                    in (remember_set_accumulator r a s, Inr a))
           | None \<Rightarrow>
               (case recorded_set_accumulator r s of
                  Some a \<Rightarrow> (remember_set_accumulator r a s, Inr a)
                | None \<Rightarrow>
                    let a = set_accumulator shake (values_of (snap_cells sn))
                    in (remember_set_accumulator r a (record_set_accumulator r a None s), Inr a))))"

definition set_accumulator_after ::
  "(bytes \<Rightarrow> bytes) \<Rightarrow> bool \<Rightarrow> snapshot \<Rightarrow> cell list \<Rightarrow> cell list \<Rightarrow> string list \<Rightarrow> store \<Rightarrow> store \<times> int result" where
  "set_accumulator_after shake own base create replace blanked s =
     (let (s', res) = store_set_accumulator shake own base s in
      (s', rbind res (\<lambda>a.
        rbind (rmap (\<lambda>c. case snap_cells base (cid c) of
                 None \<Rightarrow> Inl (KeyError (cid c)) | Some old \<Rightarrow> Inr old) replace) (\<lambda>olds.
        Inr (accumulator_add shake (accumulator_remove shake a olds)
               (map (\<lambda>c. if cid c \<in> set blanked then Cell (cid c) (link0 c) (link1 c) [] else c)
                  (create @ replace)))))))"

end
