(* ===== verification/StoreHistoryLaws.thy ===== *)
theory StoreHistoryLaws
  imports StoreHistory
begin

text \<open>
  The laws of the store's history. \<open>caches_ok\<close> says that whatever the store remembers (held
  snapshots, accumulators here and in the sidecar, chain digests, the version index, the dense
  view) is what its history determines; every query and every commit keeps it, so each query's
  answer is exact.
\<close>

section \<open>Accumulators of graphs\<close>

definition graph_accumulator :: "(bytes \<Rightarrow> bytes) \<Rightarrow> cells \<Rightarrow> int" where
  "graph_accumulator shake m = set_accumulator shake (values_of m)"

lemma mset_values_of: "finite (dom m) \<Longrightarrow> mset (values_of m) = image_mset (\<lambda>k. the (m k)) (mset_set (dom m))"
  by (simp add: values_of_def) (metis distinct_sorted_list_of_set mset_set_set set_sorted_list_of_set)

lemma mset_cells_by_id:
  assumes "distinct (map cid cs)" "\<And>c. c \<in> set cs \<Longrightarrow> the (m (cid c)) = f c"
  shows "image_mset (\<lambda>k. the (m k)) (mset_set (cid ` set cs)) = mset (map f cs)"
proof -
  have "mset_set (cid ` set cs) = image_mset cid (mset cs)"
    using assms(1) by (metis mset_map mset_set_set set_map)
  then have "image_mset (\<lambda>k. the (m k)) (mset_set (cid ` set cs)) = image_mset (\<lambda>c. the (m (cid c))) (mset cs)"
    by (simp only: multiset.map_comp comp_def)
  also have "\<dots> = image_mset f (mset cs)" using assms(2) by (intro image_mset_cong) simp
  finally show ?thesis by simp
qed

text \<open>Moving the accumulator by a commit's rows gives the accumulator of the new graph.\<close>

lemma graph_accumulator_commit:
  assumes fin: "finite (dom m)" and d: "distinct (map cid (cr @ ch))"
    and cr: "\<And>c. c \<in> set cr \<Longrightarrow> m (cid c) = None" and ch: "\<And>c. c \<in> set ch \<Longrightarrow> m (cid c) \<noteq> None"
  shows "accumulator_add shake (accumulator_remove shake (graph_accumulator shake m)
      (map (\<lambda>c. the (m (cid c))) ch)) (cr @ ch) = graph_accumulator shake (put_cells (cr @ ch) m)"
  unfolding graph_accumulator_def
proof (rule accumulator_step)
  let ?n = "put_cells (cr @ ch) m" and ?D = "dom m - cid ` set ch"
  let ?kept = "image_mset (\<lambda>k. the (m k)) (mset_set ?D)"
  have "dom m = ?D \<union> cid ` set ch" using ch by auto
  then have parts: "mset_set (dom m) = mset_set ?D + mset_set (cid ` set ch)"
    using fin by (metis Diff_disjoint Int_commute finite_Diff finite_Un mset_set_Union)
  have chd: "distinct (map cid ch)" using d by simp
  show "mset (values_of m) = ?kept + mset (map (\<lambda>c. the (m (cid c))) ch)"
    unfolding mset_values_of [OF fin] parts by (simp add: mset_cells_by_id [OF chd] del: mset_map)
  have "dom ?n = ?D \<union> cid ` set (cr @ ch)" using ch by auto
  moreover have disj: "?D \<inter> cid ` set (cr @ ch) = {}" using cr by auto
  ultimately have parts': "mset_set (dom ?n) = mset_set ?D + mset_set (cid ` set (cr @ ch))"
    using fin by (metis finite_Diff finite_imageI List.finite_set mset_set_Union)
  have "image_mset (\<lambda>k. the (?n k)) (mset_set ?D) = ?kept"
    using disj fin by (intro image_mset_cong) (auto simp: put_cells_notin disjoint_iff)
  moreover have "image_mset (\<lambda>k. the (?n k)) (mset_set (cid ` set (cr @ ch))) = mset (map (\<lambda>c. c) (cr @ ch))"
    by (intro mset_cells_by_id d) (simp add: put_cells_in [OF _ d] del: set_append)
  ultimately show "mset (values_of ?n) = ?kept + mset (cr @ ch)"
    using fin by (subst mset_values_of) (simp, simp add: parts' del: dom_put_cells)
qed

text \<open>Undoing a revision: subtract what it wrote, add back what those identities held before.\<close>

lemma graph_accumulator_undo:
  assumes fin: "finite (dom m)" and d: "distinct (map cid w)"
  shows "accumulator_add shake (accumulator_remove shake (graph_accumulator shake (put_cells w m)) w)
      (map (\<lambda>c. the (m (cid c))) (filter (\<lambda>c. m (cid c) \<noteq> None) w)) = graph_accumulator shake m"
  unfolding graph_accumulator_def
proof (rule accumulator_step)
  let ?n = "put_cells w m" and ?D = "dom m - cid ` set w" and ?ch = "filter (\<lambda>c. m (cid c) \<noteq> None) w"
  let ?kept = "image_mset (\<lambda>k. the (m k)) (mset_set ?D)"
  have "dom ?n = ?D \<union> cid ` set w" by auto
  then have parts: "mset_set (dom ?n) = mset_set ?D + mset_set (cid ` set w)"
    using fin by (metis Diff_disjoint Int_commute finite_Diff finite_imageI List.finite_set mset_set_Union)
  have "image_mset (\<lambda>k. the (?n k)) (mset_set ?D) = ?kept"
    using fin by (intro image_mset_cong) (auto simp: put_cells_notin)
  moreover have "image_mset (\<lambda>k. the (?n k)) (mset_set (cid ` set w)) = mset (map (\<lambda>c. c) w)"
    by (intro mset_cells_by_id d) (simp add: put_cells_in [OF _ d])
  ultimately show "mset (values_of ?n) = ?kept + mset w"
    using fin by (subst mset_values_of) (simp, simp add: parts del: dom_put_cells)
  have "dom m = ?D \<union> cid ` set ?ch" by (auto simp: cid_image)
  moreover have "?D \<inter> cid ` set ?ch = {}" by auto
  ultimately have parts': "mset_set (dom m) = mset_set ?D + mset_set (cid ` set ?ch)"
    using fin by (metis finite_Diff finite_imageI List.finite_set mset_set_Union)
  have "distinct (map cid ?ch)" using d by (simp add: distinct_map_filter)
  then show "mset (values_of m) = ?kept + mset (map (\<lambda>c. the (m (cid c))) ?ch)"
    unfolding mset_values_of [OF fin] parts' by (simp add: mset_cells_by_id del: mset_map set_filter)
qed

lemma graph_accumulator_range: "0 \<le> graph_accumulator shake m \<and> graph_accumulator shake m < SET_HASH_MODULUS"
  by (simp add: graph_accumulator_def set_accumulator_def SET_HASH_MODULUS_def)

section \<open>What the store remembers\<close>

abbreviation held_ok :: "(nat \<Rightarrow> cells) \<Rightarrow> nat \<Rightarrow> held \<Rightarrow> bool" where
  "held_ok g n \<equiv> entries_ok (\<lambda>r x. r \<le> n \<and> snd x = Snapshot r (g r))"

definition recorded_ok :: "(bytes \<Rightarrow> bytes) \<Rightarrow> journal \<Rightarrow> (nat \<times> nat \<times> nat \<times> bytes) list \<Rightarrow> bool" where
  "recorded_ok shake j = entries_ok (\<lambda>r (n, m, raw). r \<le> head_of j \<and>
     raw = be_bytes SET_HASH_BYTES (nat (graph_accumulator shake (state_at (j_versions j) r))))"

definition caches_ok :: "(bytes \<Rightarrow> bytes) \<Rightarrow> (bytes \<Rightarrow> bytes) \<Rightarrow> store \<Rightarrow> journal \<Rightarrow> bool" where
  "caches_ok sha shake s j \<longleftrightarrow>
     held_ok (state_at (j_versions j)) (st_revision s) (st_historical s) \<and>
     (\<forall>d. st_dense s = Some d \<longrightarrow> snap_revision d = st_revision s \<longrightarrow> snap_cells d = st_cells s) \<and>
     (\<forall>ix. st_journal s = None \<longrightarrow> st_index s = Some ix \<longrightarrow> ix = history_index (st_versions s)) \<and>
     entries_ok (\<lambda>r a. r \<le> head_of j \<and> a = graph_accumulator shake (state_at (j_versions j) r))
       (st_accumulators s) \<and>
     (\<forall>j0. st_journal s = Some j0 \<longrightarrow> recorded_ok shake j (j_recorded j0)) \<and>
     entries_ok (\<lambda>r d. r \<le> st_revision s \<and> chain_digest_at sha (j_versions j) r = Inr d)
       (st_chain_digests s)"

definition store_inv :: "(bytes \<Rightarrow> bytes) \<Rightarrow> (bytes \<Rightarrow> bytes) \<Rightarrow> store \<Rightarrow> journal \<Rightarrow> bool" where
  "store_inv sha shake s j \<longleftrightarrow> represents sha s j \<and> caches_ok sha shake s j"

lemma store_invD:
  assumes "store_inv sha shake s j"
  shows "represents sha s j" "caches_ok sha shake s j"
    "held_ok (state_at (j_versions j)) (st_revision s) (st_historical s)"
    "\<And>d. st_dense s = Some d \<Longrightarrow> snap_revision d = st_revision s \<Longrightarrow> snap_cells d = st_cells s"
    "\<And>ix. st_journal s = None \<Longrightarrow> st_index s = Some ix \<Longrightarrow> ix = history_index (st_versions s)"
    "entries_ok (\<lambda>r a. r \<le> head_of j \<and> a = graph_accumulator shake (state_at (j_versions j) r))
       (st_accumulators s)"
    "\<And>j0. st_journal s = Some j0 \<Longrightarrow> recorded_ok shake j (j_recorded j0)"
    "entries_ok (\<lambda>r d. r \<le> st_revision s \<and> chain_digest_at sha (j_versions j) r = Inr d)
       (st_chain_digests s)"
  using assms unfolding store_inv_def caches_ok_def by blast+

text \<open>A query that only touches what is remembered keeps the invariant when that stays sound.\<close>

lemma store_inv_historical:
  "store_inv sha shake s j \<Longrightarrow> held_ok (state_at (j_versions j)) (st_revision s) h \<Longrightarrow>
     store_inv sha shake (s\<lparr>st_historical := h\<rparr>) j"
  unfolding store_inv_def caches_ok_def
  by (auto simp: represents_cong [of s "s\<lparr>st_historical := h\<rparr>"] same_authority_def)

section \<open>Snapshots of a revision\<close>

context cell_history begin

text \<open>The walk from a revision down to another, through whatever snapshots are held.\<close>

lemma walk_law:
  assumes j: "ok j" "h \<le> head j" and n: "n \<le> h" "n \<le> N"
    and held: "held_ok (graph j) N hist" and r: "r \<le> n"
  shows "\<exists>hist' lz'. walk_down (step_back j h) (rev [r..<n]) (lz, Snapshot n (graph j n)) hist =
      (hist', Inr (lz', Snapshot r (graph j r))) \<and> held_ok (graph j) N hist'"
  using r n held
proof (induction "n - r" arbitrary: n lz hist)
  case 0
  then show ?case by simp
next
  case (Suc k)
  then obtain m where m: "n = Suc m" "r \<le> m" by (cases n) auto
  then have list: "rev [r..<n] = m # rev [r..<m]" by simp
  have k: "k = m - r" "m \<le> h" "m \<le> N" using Suc m by auto
  show ?case
  proof (cases "map_of hist m")
    case None
    have step: "step_back j h (Snapshot n (graph j n)) = Inr (Snapshot m (graph j m))"
      using step_back_law [OF j(1) _ j(2), of m] Suc.prems m by simp
    have "held_ok (graph j) N (od_put m (False, Snapshot m (graph j m)) hist)"
      using Suc.prems k by (intro entries_intros) auto
    from Suc.hyps(1) [OF k(1) m(2) k(2,3) this] show ?thesis
      unfolding list using None step by simp
  next
    case (Some x)
    obtain lz' where x: "x = (lz', Snapshot m (graph j m))"
      using entries_okD [OF Suc.prems(4) Some] by (cases x) auto
    have "held_ok (graph j) N (od_put m x hist)"
      using Suc.prems k x by (intro entries_intros) auto
    from Suc.hyps(1) [OF k(1) m(2) k(2,3) this] show ?thesis
      unfolding list using Some x by simp
  qed
qed

end

lemma at_journal_ok:
  assumes inv: "store_inv sha shake s j" and sj: "st_journal s = Some j" and rd: "st_reader s = Some rd"
    and r: "r < st_revision s"
  shows "\<exists>h. at_journal j rd r s = (s\<lparr>st_historical := h\<rparr>, Inr (Snapshot r (state_at (j_versions j) r))) \<and>
    held_ok (state_at (j_versions j)) (st_revision s) h"
proof -
  let ?g = "state_at (j_versions j)"
  note D = representsD [OF store_invD(1) [OF inv]]
  have hd: "rd_revision rd = st_revision s" using D(7) [OF sj] rd by auto
  have cells: "Snapshot (st_revision s) (st_cells s) = Snapshot (st_revision s) (?g (st_revision s))"
    using D(4) by simp
  note held = store_invD(3) [OF inv]
  have lazy: "lazy_snapshot_at j (st_revision s) r = Inr (Snapshot r (?g r))"
    using r by (intro lazy_snapshot_at_ok) simp
  have step: "snapshot_stepped_back j (st_revision s) (Snapshot (Suc r) (?g (Suc r))) = Inr (Snapshot r (?g r))"
    using r by (intro stepped_back_ok D(1)) simp
  have keep: "held_ok ?g (st_revision s) (keep_snapshot r (lz, Snapshot r (?g r)) h)"
    if "held_ok ?g (st_revision s) h" for lz h
    unfolding keep_snapshot_def using that r by (intro entries_intros) auto
  have above: "map_of (st_historical s) (Suc r) = Some (fst x, Snapshot (Suc r) (?g (Suc r)))"
    if "map_of (st_historical s) (Suc r) = Some x" for x
    using entries_okD [OF held that] that by (metis prod.collapse)
  consider "Suc r = st_revision s" | lz where "Suc r \<noteq> st_revision s" "map_of (st_historical s) (Suc r) = Some (lz, Snapshot (Suc r) (?g (Suc r)))"
    | "Suc r \<noteq> st_revision s" "map_of (st_historical s) (Suc r) = None"
    using above by (cases "map_of (st_historical s) (Suc r)") blast+
  then show ?thesis
  proof cases
    case 1
    have "at_journal j rd r s = (s\<lparr>st_historical := keep_snapshot r (False, Snapshot r (?g r)) (st_historical s)\<rparr>,
        Inr (Snapshot r (?g r)))"
      unfolding at_journal_def Let_def hd cells
      using step [unfolded 1] 1 by (simp add: D(4) [symmetric])
    with keep [OF held] show ?thesis by blast
  next
    case 2
    have "at_journal j rd r s = (s\<lparr>st_historical := keep_snapshot r (lz, Snapshot r (?g r)) (st_historical s)\<rparr>,
        Inr (Snapshot r (?g r)))"
      unfolding at_journal_def Let_def hd 2(2) using step lazy 2(1) by (cases lz) simp_all
    with keep [OF held] show ?thesis by blast
  next
    case 3
    show ?thesis
    proof (cases "st_revision s - r \<le> STEP_BACK_LIMIT")
      case True
      obtain h' lz' where "walk_down (snapshot_stepped_back j (st_revision s)) (rev [r..<st_revision s])
          (False, Snapshot (st_revision s) (?g (st_revision s))) (st_historical s) =
          (h', Inr (lz', Snapshot r (?g r)))" "held_ok ?g (st_revision s) h'"
        using history.walk_law [OF D(1,3) le_refl le_refl held, of r False] r by auto
      then have "at_journal j rd r s = (s\<lparr>st_historical := keep_snapshot r (lz', Snapshot r (?g r)) h'\<rparr>,
          Inr (Snapshot r (?g r)))"
        unfolding at_journal_def Let_def hd 3(2) cells using True 3(1) r by simp
      with keep [OF \<open>held_ok ?g (st_revision s) h'\<close>] show ?thesis by blast
    next
      case False
      have "at_journal j rd r s = (s\<lparr>st_historical := keep_snapshot r (True, Snapshot r (?g r)) (st_historical s)\<rparr>,
          Inr (Snapshot r (?g r)))"
        unfolding at_journal_def Let_def hd 3(2) using False lazy 3(1) by simp
      with keep [OF held] show ?thesis by blast
    qed
  qed
qed

text \<open>The versions in memory are the rows of the history they spell out.\<close>

lemma mem_log_rows:
  "distinct (map fst versions) \<Longrightarrow> map_of versions r = Some cs \<Longrightarrow>
     filter (\<lambda>(v, c). v = r) (mem_log versions) = map (Pair r) cs"
proof (induction versions)
  case (Cons x versions)
  have none: "filter (\<lambda>(v, c). v = r) (mem_log vs) = []" if "r \<notin> fst ` set vs" for vs
    using that by (force simp: mem_log_def filter_empty_conv)
  show ?case
  proof (cases "fst x = r")
    case True
    with Cons.prems none [of versions] show ?thesis by (cases x) (simp add: mem_log_def filter_True)
  next
    case False
    then have "filter (\<lambda>(v, c). v = r) (map (Pair (fst x)) (snd x)) = []" by (simp add: filter_empty_conv)
    with False Cons show ?thesis by (cases x) (simp add: mem_log_def)
  qed
qed simp

lemma memory_version:
  assumes rep: "represents sha s j" and sj: "st_journal s = None"
  shows "r \<le> st_revision s \<Longrightarrow> \<exists>cs. map_of (st_versions s) r = Some cs"
    "map_of (st_versions s) r = Some cs \<Longrightarrow> rows_of (j_versions j) r = sort_key cid cs"
    "map_of (st_versions s) r = Some cs \<Longrightarrow> distinct (map cid cs)"
    "map_of (st_versions s) r = Some cs \<Longrightarrow> r \<le> st_revision s"
    "map_of (st_changes s) r = map_option (\<lambda>cs. sort (map cid cs)) (map_of (st_versions s) r)"
proof -
  note M = representsD(6) [OF rep sj]
  have keys: "map fst (st_versions s) = [0..<Suc (st_revision s)]" using M by blast
  have dom: "set (map fst (st_versions s)) = {..st_revision s}" unfolding keys by auto
  show "\<exists>cs. map_of (st_versions s) r = Some cs" if "r \<le> st_revision s"
    using that dom by (metis atMost_iff map_of_eq_None_iff not_None_eq set_map)
  show "r \<le> st_revision s" if "map_of (st_versions s) r = Some cs"
    using map_of_SomeD [OF that] dom by force
  show "map_of (st_changes s) r = map_option (\<lambda>cs. sort (map cid cs)) (map_of (st_versions s) r)"
    using M by (simp add: map_of_map)
  assume r: "map_of (st_versions s) r = Some cs"
  have "distinct (map fst (st_versions s))" unfolding keys by simp
  from mem_log_rows [OF this r] show rows: "rows_of (j_versions j) r = sort_key cid cs"
    using M by (simp add: rows_of_def comp_def)
  have "distinct (map cid (sort_key cid cs))"
    using distinct_rows_of [OF journal_okD(2) [OF representsD(1) [OF rep]], of r] unfolding rows .
  then show "distinct (map cid cs)" by (simp add: distinct_map)
qed

lemma put_version:
  assumes rep: "represents sha s j" and sj: "st_journal s = None" and cs: "map_of (st_versions s) r = Some cs"
  shows "put_cells cs (state_before (j_versions j) r) = state_at (j_versions j) r"
proof -
  have "put_cells cs m = put_cells (rows_of (j_versions j) r) m" for m
    unfolding memory_version(2) [OF rep sj cs] using memory_version(3) [OF rep sj cs]
    by (intro put_cells_perm) (simp_all add: distinct_map)
  then show ?thesis using put_rows_of [OF journal_okD(2) [OF representsD(1) [OF rep]]] by simp
qed

lemma replay_versions_ok:
  assumes rep: "represents sha s j" and sj: "st_journal s = None"
  shows "n + k \<le> Suc (st_revision s) \<Longrightarrow>
    \<exists>ks'. replay_versions (st_versions s) [n..<n + k] (state_before (j_versions j) n) ks =
      Inr (state_before (j_versions j) (n + k), ks') \<and>
      set ks' \<subseteq> set ks \<union> dom (state_before (j_versions j) (n + k))"
proof (induction k arbitrary: n ks)
  case (Suc k)
  obtain cs where cs: "map_of (st_versions s) n = Some cs"
    using memory_version(1) [OF rep sj, of n] Suc.prems by auto
  have before: "state_before (j_versions j) (Suc n) = state_at (j_versions j) n" by (simp add: state_before_def)
  have "cid ` set cs \<subseteq> dom (put_cells cs (state_before (j_versions j) n))" by (simp del: domIff)
  also have "\<dots> = dom (state_at (j_versions j) n)" by (simp only: put_version [OF rep sj cs])
  also have "\<dots> \<subseteq> dom (state_at (j_versions j) (n + k))"
    using state_at_mono [of n "n + k" "j_versions j"] by auto
  finally have sub: "cid ` set cs \<subseteq> dom (state_before (j_versions j) (Suc n + k))"
    by (simp add: state_before_def)
  obtain ks' where "replay_versions (st_versions s) [Suc n..<Suc n + k] (state_before (j_versions j) (Suc n))
      (ks @ map cid cs) = Inr (state_before (j_versions j) (Suc n + k), ks')"
    "set ks' \<subseteq> set (ks @ map cid cs) \<union> dom (state_before (j_versions j) (Suc n + k))"
    using Suc.IH [of "Suc n" "ks @ map cid cs"] Suc.prems by auto
  moreover from this(2) sub have "set ks' \<subseteq> set ks \<union> dom (state_before (j_versions j) (Suc n + k))"
    unfolding set_append set_map by blast
  ultimately show ?case
    using cs put_version [OF rep sj cs] before
    by (intro exI [of _ ks']) (simp add: upt_conv_Cons del: upt_Suc)
qed (auto intro: exI [of _ ks])

lemma incidence_resolves_graph:
  "graph_ok m \<Longrightarrow> set ks \<subseteq> dom m \<Longrightarrow> incidence_resolves m ks"
  unfolding incidence_resolves_def list_all_iff
  by (auto split: option.split dest: graph_okD(2) closed_graphD)

lemma at_memory_ok:
  assumes inv: "store_inv sha shake s j" and sj: "st_journal s = None" and r: "r \<le> st_revision s"
  shows "\<exists>h. at_memory r s = (s\<lparr>st_historical := h\<rparr>, Inr (Snapshot r (state_at (j_versions j) r))) \<and>
    held_ok (state_at (j_versions j)) (st_revision s) h"
proof -
  let ?g = "state_at (j_versions j)"
  note rep = store_invD(1) [OF inv] and held = store_invD(3) [OF inv]
  note D = representsD [OF rep] and M = representsD(6) [OF rep sj]
  have "map fst (st_versions s) = [0..<Suc (st_revision s)]" using M by blast
  then have known: "r \<in> set (map fst (st_versions s))" using r by auto
  define base where "base = (case nearest_below r (st_historical s) of None \<Rightarrow> (st_historical s, Map.empty, 0)
      | Some p \<Rightarrow> (od_touch p (st_historical s), snap_cells (snd (the (map_of (st_historical s) p))), Suc p))"
  have base: "\<exists>h1 n. base = (h1, state_before (j_versions j) n, n) \<and> n \<le> r \<and> held_ok ?g (st_revision s) h1"
  proof (cases "nearest_below r (st_historical s)")
    case None
    then show ?thesis using held by (simp add: base_def state_before_def)
  next
    case (Some p)
    then have p: "filter (\<lambda>x. x < r) (map fst (st_historical s)) \<noteq> []"
      "p = Max (set (filter (\<lambda>x. x < r) (map fst (st_historical s))))"
      by (auto simp: nearest_below_def Let_def split: if_splits)
    then have "p \<in> set (filter (\<lambda>x. x < r) (map fst (st_historical s)))" by (metis List.finite_set Max_in set_empty)
    then have "p < r" "p \<in> fst ` set (st_historical s)" by auto
    then obtain x where x: "map_of (st_historical s) p = Some x"
      by (metis map_of_eq_None_iff not_None_eq)
    then have "snap_cells (snd x) = ?g p" using entries_okD [OF held x] by simp
    with Some x \<open>p < r\<close> held show ?thesis by (auto simp: base_def state_before_def intro: entries_intros)
  qed
  then obtain h1 n where b: "base = (h1, state_before (j_versions j) n, n)" and n: "n \<le> r"
    and h1: "held_ok ?g (st_revision s) h1" by blast
  have eq: "n + (Suc r - n) = Suc r" using n by simp
  obtain ks where ks: "replay_versions (st_versions s) [n..<Suc r] (state_before (j_versions j) n) [] = Inr (?g r, ks)"
    "set ks \<subseteq> dom (?g r)"
    using replay_versions_ok [OF rep sj, of n "Suc r - n" "[]"] r unfolding eq
    by (auto simp: state_before_def)
  have "incidence_resolves (?g r) ks"
    by (intro incidence_resolves_graph graph_ok_state_at D(1) ks(2))
  moreover have "held_ok ?g (st_revision s) (keep_snapshot r (False, Snapshot r (?g r)) h1)"
    unfolding keep_snapshot_def using h1 r by (intro entries_intros) auto
  ultimately show ?thesis
    using known ks(1) unfolding at_memory_def Let_def base_def [symmetric] b
    by (intro exI [of _ "keep_snapshot r (False, Snapshot r (?g r)) h1"]) (simp del: upt_Suc)
qed

lemma at_revision_ok:
  assumes inv: "store_inv sha shake s j" and live: "\<not> st_closed s" and r: "r \<le> st_revision s"
  shows "\<exists>h. at_revision r s = (s\<lparr>st_historical := h\<rparr>, Inr (Snapshot r (state_at (j_versions j) r))) \<and>
    held_ok (state_at (j_versions j)) (st_revision s) h"
proof -
  note rep = store_invD(1) [OF inv] and held = store_invD(3) [OF inv]
  consider "r = st_revision s" | x where "r \<noteq> st_revision s" "map_of (st_historical s) r = Some x"
    | "r \<noteq> st_revision s" "map_of (st_historical s) r = None"
    by (cases "map_of (st_historical s) r") auto
  then show ?thesis
  proof cases
    case 1
    then show ?thesis
      using live held representsD(4) [OF rep]
      by (intro exI [of _ "st_historical s"]) (simp add: at_revision_def)
  next
    case 2
    then have "snd x = Snapshot r (state_at (j_versions j) r)" using entries_okD [OF held 2(2)] by simp
    with 2 live show ?thesis
      by (intro exI [of _ "od_touch r (st_historical s)"])
        (auto simp: at_revision_def split: prod.splits intro: entries_intros held)
  next
    case 3
    show ?thesis
    proof (cases "st_journal s")
      case None
      from at_memory_ok [OF inv None r] 3 live representsD(6) [OF rep None] show ?thesis
        by (simp add: at_revision_def)
    next
      case (Some j')
      with representsD(5) [OF rep] have sj: "st_journal s = Some j" by simp
      obtain rd where rd: "st_reader s = Some rd" using representsD(7) [OF rep sj] by auto
      from at_journal_ok [OF inv sj rd] 3 r live sj rd show ?thesis
        by (simp add: at_revision_def)
    qed
  qed
qed

lemma at_revision_unknown:
  assumes inv: "store_inv sha shake s j" and r: "st_revision s < r"
  shows "\<exists>e. at_revision r s = (s, Inl e)"
proof -
  note rep = store_invD(1) [OF inv] and held = store_invD(3) [OF inv]
  have none: "map_of (st_historical s) r = None" "map_of (st_historical s) (Suc r) = None"
    using entries_okD [OF held, of r] entries_okD [OF held, of "Suc r"] r
    by (cases "map_of (st_historical s) r"; cases "map_of (st_historical s) (Suc r)"; fastforce)+
  show ?thesis
  proof (cases "st_journal s")
    case None
    have "map fst (st_versions s) = [0..<Suc (st_revision s)]" using representsD(6) [OF rep None] by blast
    then have "r \<notin> set (map fst (st_versions s))" using r by auto
    then show ?thesis
      using none r representsD(6) [OF rep None] by (auto simp: at_revision_def at_memory_def)
  next
    case (Some j')
    with representsD(5) [OF rep] have sj: "st_journal s = Some j" by simp
    obtain rd where rd: "st_reader s = Some rd" "rd_revision rd = st_revision s"
      using representsD(7) [OF rep sj] by auto
    have "lazy_snapshot_at j (st_revision s) r = Inl (InvalidCell ''unknown revision'')"
      using r by (simp add: lazy_snapshot_at_def admit_revision_def)
    then show ?thesis
      using none r sj rd by (auto simp: at_revision_def at_journal_def Let_def)
  qed
qed

lemma at_revision_inv:
  assumes "store_inv sha shake s j" "\<not> st_closed s"
  shows "store_inv sha shake (fst (at_revision r s)) j"
proof (cases "r \<le> st_revision s")
  case True
  then obtain h where "at_revision r s = (s\<lparr>st_historical := h\<rparr>, Inr (Snapshot r (state_at (j_versions j) r)))"
    "held_ok (state_at (j_versions j)) (st_revision s) h"
    using at_revision_ok [OF assms] by blast
  then show ?thesis using store_inv_historical [OF assms(1)] by simp
next
  case False
  then obtain e where "at_revision r s = (s, Inl e)" using at_revision_unknown [OF assms(1), of r] by auto
  then show ?thesis using assms(1) by simp
qed

section \<open>Changes, Cells and creation\<close>

text \<open>What a query through the history reader sees, in either mode.\<close>

lemma with_reader_eq:
  assumes rep: "represents sha s j"
  shows "with_reader s f m = (if st_journal s = None then m else f j (st_revision s))"
proof (cases "st_journal s")
  case None
  then show ?thesis using representsD(6) [OF rep None] by (simp add: with_reader_def)
next
  case (Some j')
  with representsD(5) [OF rep] have sj: "st_journal s = Some j" by simp
  then show ?thesis using representsD(7) [OF rep sj] by (auto simp: with_reader_def)
qed

lemma sorted_versions:
  assumes rep: "represents sha s j" and sj: "st_journal s = None"
  shows "sort (map fst (st_versions s)) = [0..<Suc (st_revision s)]"
    "sort (map fst (st_changes s)) = [0..<Suc (st_revision s)]"
proof -
  have keys: "map fst (st_versions s) = [0..<Suc (st_revision s)]" using representsD(6) [OF rep sj] by blast
  have "map fst (st_changes s) = map fst (st_versions s)"
    using representsD(6) [OF rep sj] by (simp add: comp_def case_prod_beta)
  with keys show "sort (map fst (st_versions s)) = [0..<Suc (st_revision s)]"
    "sort (map fst (st_changes s)) = [0..<Suc (st_revision s)]"
    by (simp_all del: upt_Suc)
qed

lemma revisions_ok: "represents sha s j \<Longrightarrow> revisions s = [0..<Suc (st_revision s)]"
  using representsD(6,7) [of sha s j] sorted_versions(1) [of sha s j] representsD(5) [of sha s j]
  by (cases "st_journal s") (auto simp: revisions_def simp del: upt_Suc)

text \<open>The rows of a revision, as the store reports what changed.\<close>

lemma changed_at_ok:
  assumes rep: "represents sha s j" and r: "r \<le> st_revision s"
  shows "\<exists>cs. changed_at s r = Inr cs \<and> distinct (map cid cs) \<and> sort_key cid cs = rows_of (j_versions j) r"
proof (cases "st_journal s")
  case None
  obtain cs where cs: "map_of (st_versions s) r = Some cs" using memory_version(1) [OF rep None r] by blast
  then show ?thesis
    using memory_version(2,3) [OF rep None cs] by (simp add: changed_at_def with_reader_eq [OF rep] None)
next
  case (Some j')
  note D = representsD [OF rep]
  have "revision_cells j (st_revision s) r = Inr (rows_of (j_versions j) r)"
    using r D(3) by (intro revision_cells_ok D(1)) auto
  with Some show ?thesis
    using distinct_rows_of [OF journal_okD(2) [OF D(1)], of r]
    by (auto simp: changed_at_def with_reader_eq [OF rep])
qed

lemma revision_changes_ok:
  assumes rep: "represents sha s j" and r: "r \<le> st_revision s"
  shows "revision_changes s r = Inr (map cid (rows_of (j_versions j) r))"
proof (cases "st_journal s")
  case None
  obtain cs where cs: "map_of (st_versions s) r = Some cs" using memory_version(1) [OF rep None r] by blast
  have "map cid (sort_key cid cs) = sort (map cid cs)"
    by (rule properties_for_sort [symmetric]) simp_all
  then show ?thesis
    using memory_version(2,5) [OF rep None] cs None
    by (simp add: revision_changes_def with_reader_eq [OF rep])
next
  case (Some j')
  note D = representsD [OF rep]
  have "revision_cells j (st_revision s) r = Inr (rows_of (j_versions j) r)"
    using r D(3) by (intro revision_cells_ok D(1)) auto
  with Some show ?thesis by (simp add: revision_changes_def with_reader_eq [OF rep])
qed

lemma revisions_touching_ok:
  assumes rep: "represents sha s j"
  shows "\<exists>rs. revisions_touching s root = Inr rs \<and> sorted rs \<and> distinct rs \<and>
    (\<forall>r. r \<in> set rs \<longleftrightarrow> r \<le> st_revision s \<and>
      (\<exists>c \<in> set (rows_of (j_versions j) r). cid c = root \<or> starts_with (cid c) (root @ '':'')))"
proof (cases "st_journal s")
  case None
  have "r \<le> st_revision s \<Longrightarrow> list_ex (\<lambda>k. k = root \<or> starts_with k (root @ '':'')) (the (map_of (st_changes s) r)) \<longleftrightarrow>
      (\<exists>c \<in> set (rows_of (j_versions j) r). cid c = root \<or> starts_with (cid c) (root @ '':''))" for r
    using memory_version(1,2,5) [OF rep None, of r] by (fastforce simp: list_ex_iff simp del: set_rows_of)
  then show ?thesis
    unfolding revisions_touching_def with_reader_eq [OF rep] sorted_versions(2) [OF rep None] using None
    by (auto simp: less_Suc_eq_le sorted_wrt_filter simp del: upt_Suc set_rows_of)
next
  case (Some j')
  then show ?thesis
    using reader_touching_ok(1) [of _ j "st_revision s" root]
      reader_touching_ok(2,3) [of j "st_revision s" root]
    by (auto simp: revisions_touching_def with_reader_eq [OF rep] simp del: set_rows_of)
qed

text \<open>Looking up every requested identity: all found, or an \<open>InvalidCell\<close>.\<close>

lemma rmap_lookup:
  assumes "\<And>k c. k \<in> set ks \<Longrightarrow> m k = Some c \<Longrightarrow> f k = Inr (k, c)"
    and "\<And>k. k \<in> set ks \<Longrightarrow> m k = None \<Longrightarrow> \<exists>x. f k = Inl (InvalidCell x)"
  shows "(set ks \<subseteq> dom m \<longrightarrow> rmap f ks = Inr (map (\<lambda>k. (k, the (m k))) ks)) \<and>
    (\<not> set ks \<subseteq> dom m \<longrightarrow> (\<exists>x. rmap f ks = Inl (InvalidCell x)))"
  using assms
proof (induction ks)
  case (Cons k ks)
  then have IH: "(set ks \<subseteq> dom m \<longrightarrow> rmap f ks = Inr (map (\<lambda>k. (k, the (m k))) ks)) \<and>
    (\<not> set ks \<subseteq> dom m \<longrightarrow> (\<exists>x. rmap f ks = Inl (InvalidCell x)))" by simp
  show ?case
  proof (cases "m k")
    case None
    with Cons.prems(2) [of k] show ?thesis by auto
  next
    case (Some c)
    with Cons.prems(1) [of k c] IH show ?thesis by auto
  qed
qed simp

text \<open>The version index in memory finds the newest version at or below a revision.\<close>

lemma takeWhile_le_filter:
  "sorted (map fst es) \<Longrightarrow> takeWhile (\<lambda>(v, c). v \<le> r) es = filter (\<lambda>(v, c). v \<le> (r::nat)) es"
proof (induction es)
  case (Cons e es)
  show ?case
  proof (cases "fst e \<le> r")
    case False
    then have "\<forall>x \<in> set es. \<not> fst x \<le> r" using Cons.prems by auto
    then have "filter (\<lambda>(v, c). v \<le> r) es = []" by (auto simp: filter_empty_conv)
    with False show ?thesis by (cases e) simp
  qed (use Cons in \<open>cases e, auto\<close>)
qed simp

lemma sorted_last_max: "sorted (map fst es) \<Longrightarrow> x \<in> set es \<Longrightarrow> fst x \<le> fst (last es)"
  by (induction es) auto

lemma version_at_newest:
  assumes u: "unique_rows vs" and srt: "sorted (map fst vs)"
  shows "version_at (filter (\<lambda>(v, c). cid c = k) vs) r = state_at vs r k"
proof -
  let ?es = "filter (\<lambda>(v, c). cid c = k) vs"
  let ?up = "filter (\<lambda>(v, c). v \<le> r) ?es"
  have srt': "sorted (map fst ?es)" using srt by (rule sorted_filter)
  have upto: "takeWhile (\<lambda>(v, c). v \<le> r) ?es = ?up" by (rule takeWhile_le_filter [OF srt'])
  show ?thesis
  proof (cases "?up = []")
    case True
    then have "newest_at vs k r = None" by (auto simp: newest_at_None_iff filter_empty_conv)
    with True upto show ?thesis by (simp add: version_at_def state_at_def)
  next
    case False
    obtain v c where vc: "last ?up = (v, c)" by fastforce
    with last_in_set [OF False] have "(v, c) \<in> set vs" "cid c = k" "v \<le> r" by auto
    moreover have "sorted (map fst ?up)" using srt' by (rule sorted_filter)
    then have "v' \<le> v" if "(v', c') \<in> set vs" "cid c' = k" "v' \<le> r" for v' c'
      using sorted_last_max [of ?up "(v', c')"] vc that by auto
    ultimately have "newest_at vs k r = Some (v, c)" by (intro newest_atI u) auto
    with False upto vc show ?thesis by (simp add: version_at_def state_at_def)
  qed
qed

lemma sorted_mem_log: "sorted (map fst versions) \<Longrightarrow> sorted (map fst (mem_log versions))"
proof (induction versions)
  case (Cons x versions)
  have "\<forall>y \<in> set (mem_log versions). fst x \<le> fst y" using Cons.prems by (auto simp: mem_log_def)
  with Cons show ?case by (cases x) (auto simp: mem_log_def sorted_append comp_def map_replicate_const)
qed (simp add: mem_log_def)

lemma history_index_eq:
  assumes rep: "represents sha s j" and sj: "st_journal s = None"
  shows "history_index (st_versions s) k =
    (let es = filter (\<lambda>(v, c). cid c = k) (j_versions j) in if es = [] then None else Some es)"
proof -
  have keys: "map fst (st_versions s) = [0..<Suc (st_revision s)]" using representsD(6) [OF rep sj] by blast
  then have "distinct (map fst (st_versions s))" by simp
  then have "map (\<lambda>r. map (Pair r) (the (map_of (st_versions s) r))) (map fst (st_versions s)) =
      map (\<lambda>(r, cs). map (Pair r) cs) (st_versions s)"
    by (auto simp: map_of_is_SomeI)
  then have "concat (map (\<lambda>r. map (Pair r) (the (map_of (st_versions s) r))) (sort (map fst (st_versions s)))) = j_versions j"
    using representsD(6) [OF rep sj] by (simp add: keys mem_log_def del: upt_Suc)
  then show ?thesis by (simp add: history_index_def)
qed

lemma cells_at_ok:
  assumes inv: "store_inv sha shake s j" and r: "r \<le> st_revision s"
  shows "\<exists>s' res. cells_at r ids s = (s', res) \<and> store_inv sha shake s' j \<and>
    (set ids \<subseteq> dom (state_at (j_versions j) r) \<longrightarrow>
       res = Inr (map (\<lambda>k. (k, the (state_at (j_versions j) r k))) (dedup ids))) \<and>
    (\<not> set ids \<subseteq> dom (state_at (j_versions j) r) \<longrightarrow> (\<exists>x. res = Inl (InvalidCell x)))"
proof -
  let ?g = "state_at (j_versions j) r"
  note rep = store_invD(1) [OF inv] and D = representsD [OF store_invD(1) [OF inv]]
  have all: "set ids \<subseteq> dom ?g \<longleftrightarrow> set (dedup ids) \<subseteq> dom ?g" by simp
  show ?thesis
  proof (cases "r = st_revision s")
    case True
    with rmap_lookup [of "dedup ids" ?g "\<lambda>k. case st_cells s k of None \<Rightarrow> Inl (InvalidCell (''unknown cell '' @ k))
        | Some c \<Rightarrow> Inr (k, c)"] D(4) inv
    show ?thesis unfolding all by (simp add: cells_at_def Let_def del: set_dedup)
  next
    case False
    show ?thesis
    proof (cases "st_journal s")
      case (Some j')
      with D(5) have sj: "st_journal s = Some j" by simp
      obtain rd where rd: "st_reader s = Some rd" using D(7) [OF sj] by auto
      have "reader_cells_at j (st_revision s) r (dedup ids) = (if \<forall>k \<in> set (dedup ids). ?g k \<noteq> None
          then Inr (map (\<lambda>k. (k, the (?g k))) (dedup (dedup ids)))
          else Inl (InvalidCell ''cell did not exist at revision''))"
        using r by (intro reader_cells_at_ok D(1))
      moreover have "(\<forall>k \<in> set (dedup ids). ?g k \<noteq> None) \<longleftrightarrow> set ids \<subseteq> dom ?g" by auto
      ultimately show ?thesis
        using False rd sj inv by (auto simp: cells_at_def Let_def with_reader_eq [OF rep] dedup_distinct)
    next
      case None
      note M = representsD(6) [OF rep None]
      have keys: "map fst (st_versions s) = [0..<Suc (st_revision s)]" using M by blast
      then have known: "r \<in> set (map fst (st_versions s))" using r by auto
      let ?ix = "history_index (st_versions s)"
      have ix: "(case st_index s of Some ix \<Rightarrow> ix | None \<Rightarrow> ?ix) = ?ix"
        using store_invD(5) [OF inv None] by (cases "st_index s") auto
      have srt: "sorted (map fst (j_versions j))"
        using M sorted_mem_log [of "st_versions s"] keys by (simp del: upt_Suc)
      let ?f = "\<lambda>k. case ?ix k of None \<Rightarrow> Inl (InvalidCell (''unknown cell '' @ k))
                  | Some entries \<Rightarrow> (case version_at entries r of
                        None \<Rightarrow> Inl (InvalidCell (''cell did not exist at revision '' @ k))
                      | Some c \<Rightarrow> Inr (k, c))"
      note newest = version_at_newest [OF journal_okD(2) [OF D(1)] srt, of _ r]
      have f: "?f k = Inr (k, c)" if "?g k = Some c" for k c
        using that newest [of k] by (auto simp: history_index_eq [OF rep None] Let_def version_at_def)
      have f': "\<exists>x. ?f k = Inl (InvalidCell x)" if "?g k = None" for k
        using that newest [of k] by (auto simp: history_index_eq [OF rep None] Let_def split: option.split)
      have look: "(set (dedup ids) \<subseteq> dom ?g \<longrightarrow> rmap ?f (dedup ids) = Inr (map (\<lambda>k. (k, the (?g k))) (dedup ids))) \<and>
          (\<not> set (dedup ids) \<subseteq> dom ?g \<longrightarrow> (\<exists>x. rmap ?f (dedup ids) = Inl (InvalidCell x)))"
        by (rule rmap_lookup; rule f f'; assumption)
      have "store_inv sha shake (s\<lparr>st_index := Some ?ix\<rparr>) j"
        using inv None unfolding store_inv_def caches_ok_def
        by (auto simp: represents_cong [of s "s\<lparr>st_index := Some ?ix\<rparr>"] same_authority_def)
      moreover have "cells_at r ids s = (s\<lparr>st_index := Some ?ix\<rparr>, rmap ?f (dedup ids))"
        unfolding cells_at_def Let_def ix conjunct1 [OF M] using False known by simp
      ultimately show ?thesis
        using look unfolding all
        by (intro exI [of _ "s\<lparr>st_index := Some ?ix\<rparr>"] exI [of _ "rmap ?f (dedup ids)"]) blast
    qed
  qed
qed

lemma filter_upt_first:
  "(case filter Q [0..<n] of [] \<Rightarrow> Inl e | x # xs \<Rightarrow> Inr x) = Inr r \<longleftrightarrow> r < n \<and> Q r \<and> (\<forall>s < r. \<not> Q s)"
proof (induction n)
  case (Suc n)
  show ?case
  proof (cases "filter Q [0..<n]")
    case Nil
    then have "\<forall>x < n. \<not> Q x" by (auto simp: filter_empty_conv)
    with Nil show ?thesis by (auto simp: less_Suc_eq)
  next
    case (Cons x xs)
    then have "x \<in> set (filter Q [0..<n])" by simp
    then have x: "x < n" "Q x" by auto
    have IH: "x = r \<longleftrightarrow> r < n \<and> Q r \<and> (\<forall>s < r. \<not> Q s)" using Suc.IH Cons by simp
    have "filter Q [0..<Suc n] = x # (xs @ (if Q n then [n] else []))" using Cons by simp
    then have "(case filter Q [0..<Suc n] of [] \<Rightarrow> Inl e | x # xs \<Rightarrow> Inr x) = Inr r \<longleftrightarrow> x = r"
      by (simp del: upt_Suc)
    also have "\<dots> \<longleftrightarrow> r < Suc n \<and> Q r \<and> (\<forall>s < r. \<not> Q s)"
      using IH x by (metis less_Suc_eq)
    finally show ?thesis .
  qed
qed simp

lemma cell_created_ok:
  assumes rep: "represents sha s j"
  shows "cell_created_revision s k = Inr r \<longleftrightarrow>
    r \<le> st_revision s \<and> k \<in> dom (state_at (j_versions j) r) \<and> (\<forall>v < r. k \<notin> dom (state_at (j_versions j) v))"
proof -
  let ?g = "state_at (j_versions j)"
  note D = representsD [OF rep]
  have here: "st_cells s k \<noteq> None" if "r \<le> st_revision s" "k \<in> dom (?g r)"
    using that D(4) state_at_mono [OF that(1), of "j_versions j" k] by (auto simp del: not_None_eq)
  show ?thesis
  proof (cases "st_journal s")
    case (Some j')
    then have "cell_created_revision s k = Inr r \<longleftrightarrow> st_cells s k \<noteq> None \<and> created_revision j (st_revision s) k = Inr r"
      by (simp add: cell_created_revision_def with_reader_eq [OF rep])
    then show ?thesis using here created_revision_ok [OF D(1), of "st_revision s" k r] by blast
  next
    case None
    let ?Q = "\<lambda>v. list_ex (\<lambda>c. cid c = k) (the (map_of (st_versions s) v))"
    have Q: "?Q v \<longleftrightarrow> (\<exists>c. (v, c) \<in> set (j_versions j) \<and> cid c = k)" if v: "v \<le> st_revision s" for v
    proof -
      obtain cs where cs: "map_of (st_versions s) v = Some cs" using memory_version(1) [OF rep None v] by blast
      then have "set cs = {c. (v, c) \<in> set (j_versions j)}"
        using memory_version(2) [OF rep None cs] set_rows_of [of "j_versions j" v] by (metis set_sort)
      then show ?thesis by (auto simp: list_ex_iff cs)
    qed
    have dom: "k \<in> dom (?g v) \<longleftrightarrow> (\<exists>w \<le> v. ?Q w)" if "v \<le> st_revision s" for v
      using that endpoint_iff [of "j_versions j" k v] Q by (fastforce simp: endpoint_def list_ex_iff [of _ "j_versions j"])
    have "cell_created_revision s k = Inr r \<longleftrightarrow> st_cells s k \<noteq> None \<and> r \<le> st_revision s \<and> ?Q r \<and> (\<forall>v < r. \<not> ?Q v)"
      unfolding cell_created_revision_def with_reader_eq [OF rep] sorted_versions(1) [OF rep None]
      using filter_upt_first [where Q = ?Q and n = "Suc (st_revision s)" and e = "InvalidCell ''cell creation revision is missing''" and r = r] None
      by (auto simp: less_Suc_eq_le simp del: upt_Suc)
    also have "\<dots> \<longleftrightarrow> r \<le> st_revision s \<and> k \<in> dom (?g r) \<and> (\<forall>v < r. k \<notin> dom (?g v))"
    proof
      assume a: "st_cells s k \<noteq> None \<and> r \<le> st_revision s \<and> ?Q r \<and> (\<forall>v < r. \<not> ?Q v)"
      have "k \<notin> dom (?g v)" if v: "v < r" for v
      proof
        assume "k \<in> dom (?g v)"
        moreover from v a have "v \<le> st_revision s" by linarith
        ultimately obtain w where "w \<le> v" "?Q w" using dom by blast
        with a v show False by simp
      qed
      moreover have "k \<in> dom (?g r)" using a dom by blast
      ultimately show "r \<le> st_revision s \<and> k \<in> dom (?g r) \<and> (\<forall>v < r. k \<notin> dom (?g v))" using a by blast
    next
      assume a: "r \<le> st_revision s \<and> k \<in> dom (?g r) \<and> (\<forall>v < r. k \<notin> dom (?g v))"
      have no: "\<not> ?Q v" if v: "v < r" for v
      proof
        assume "?Q v"
        moreover from v a have "v \<le> st_revision s" by linarith
        ultimately have "k \<in> dom (?g v)" using dom by blast
        with a v show False by blast
      qed
      obtain w where "w \<le> r" "?Q w" using a dom by blast
      with no [of w] have "?Q r" by (cases "w = r") auto
      with no a here show "st_cells s k \<noteq> None \<and> r \<le> st_revision s \<and> ?Q r \<and> (\<forall>v < r. \<not> ?Q v)" by blast
    qed
    finally show ?thesis .
  qed
qed

section \<open>Digests and accumulators\<close>

lemma ordered_changes:
  assumes "distinct (map cid cs)"
  shows "map (\<lambda>k. the (map_of (map (\<lambda>c. (cid c, c)) (rev cs)) k)) (sort (map cid cs)) = sort_key cid cs"
proof -
  have find: "the (map_of (map (\<lambda>c. (cid c, c)) (rev cs)) (cid c)) = c" if "c \<in> set cs" for c
    using that assms by (subst map_of_is_SomeI [of _ _ c]) (auto simp: comp_def rev_map [symmetric])
  have "sort (map cid cs) = map cid (sort_key cid cs)"
    by (rule properties_for_sort) simp_all
  then have "map (\<lambda>k. the (map_of (map (\<lambda>c. (cid c, c)) (rev cs)) k)) (sort (map cid cs)) =
      map (\<lambda>c. the (map_of (map (\<lambda>c. (cid c, c)) (rev cs)) (cid c))) (sort_key cid cs)"
    by simp
  also have "\<dots> = map (\<lambda>c. c) (sort_key cid cs)"
    by (intro map_cong refl) (simp add: find)
  finally show ?thesis by simp
qed

lemma chain_digest_Suc:
  "chain_digest_at sha vs r = Inr p \<Longrightarrow>
     chain_digest_at sha vs (Suc r) = revision_chain_digest_step sha p (Suc r) (rows_of vs (Suc r))"
  unfolding chain_digest_at_def upt_Suc_append [OF le0, of "Suc r"] map_append chain_from_append
  by (cases "revision_chain_digest_step sha p (Suc r) (rows_of vs (Suc r))") (simp_all del: upt_Suc)

lemma chain_digest_zero:
  "chain_digest_at sha vs 0 = revision_chain_digest_step sha zero_digest 0 (rows_of vs 0)"
  by (cases "revision_chain_digest_step sha zero_digest 0 (rows_of vs 0)") (simp_all add: chain_digest_at_def)

lemma chain_steps_ok:
  assumes rep: "represents sha s j" and sj: "st_journal s = None" and sha: "\<And>x. length (sha x) = 32"
  shows "n + k \<le> Suc (st_revision s) \<Longrightarrow>
    (n = 0 \<Longrightarrow> p = zero_digest) \<Longrightarrow> (\<And>m. n = Suc m \<Longrightarrow> chain_digest_at sha (j_versions j) m = Inr p) \<Longrightarrow>
    entries_ok (\<lambda>r d. r \<le> st_revision s \<and> chain_digest_at sha (j_versions j) r = Inr d) cache \<Longrightarrow>
    \<exists>cache' d. chain_steps sha s [n..<n + k] p cache = (cache', Inr d) \<and>
      entries_ok (\<lambda>r d. r \<le> st_revision s \<and> chain_digest_at sha (j_versions j) r = Inr d) cache' \<and>
      (n + k = 0 \<longrightarrow> d = zero_digest) \<and> (\<forall>m. n + k = Suc m \<longrightarrow> chain_digest_at sha (j_versions j) m = Inr d)"
proof (induction k arbitrary: n p cache)
  case 0
  then show ?case by auto
next
  case (Suc k)
  note D = representsD [OF rep]
  have n: "n \<le> st_revision s" using Suc.prems(1) by simp
  obtain cs where cs: "map_of (st_versions s) n = Some cs" using memory_version(1) [OF rep sj n] by blast
  have ord: "map (\<lambda>k. the (map_of (map (\<lambda>c. (cid c, c)) (rev (the (map_of (st_versions s) n)))) k))
      (the (map_of (st_changes s) n)) = rows_of (j_versions j) n"
    using ordered_changes [OF memory_version(3) [OF rep sj cs]] memory_version(2,5) [OF rep sj] cs by simp
  have step: "revision_chain_digest_step sha p n (rows_of (j_versions j) n) = chain_digest_at sha (j_versions j) n"
    using Suc.prems(2,3) by (cases n) (auto simp: chain_digest_zero chain_digest_Suc)
  obtain d where d: "chain_digest_at sha (j_versions j) n = Inr d"
    using chain_digest_ok [OF D(1), where sha = sha and r = n] sha n D(3) by auto
  have cache: "entries_ok (\<lambda>r d. r \<le> st_revision s \<and> chain_digest_at sha (j_versions j) r = Inr d)
      (AList.update n d cache)"
    using Suc.prems(4) n d by (intro entries_intros) auto
  have "\<exists>cache' d'. chain_steps sha s [Suc n..<Suc n + k] d (AList.update n d cache) = (cache', Inr d') \<and>
      entries_ok (\<lambda>r d. r \<le> st_revision s \<and> chain_digest_at sha (j_versions j) r = Inr d) cache' \<and>
      (Suc n + k = 0 \<longrightarrow> d' = zero_digest) \<and> (\<forall>m. Suc n + k = Suc m \<longrightarrow> chain_digest_at sha (j_versions j) m = Inr d')"
    using Suc.prems(1) d by (intro Suc.IH cache) auto
  then show ?case
    using ord step d by (simp add: upt_conv_Cons del: upt_Suc)
qed

lemma chain_digest_raw_ok:
  assumes inv: "store_inv sha shake s j" and r: "r \<le> st_revision s" and sha: "\<And>x. length (sha x) = 32"
  shows "\<exists>cache. chain_digest_raw sha r s = (s\<lparr>st_chain_digests := cache\<rparr>, chain_digest_at sha (j_versions j) r) \<and>
    store_inv sha shake (s\<lparr>st_chain_digests := cache\<rparr>) j"
proof -
  note rep = store_invD(1) [OF inv] and D = representsD [OF store_invD(1) [OF inv]]
  have keep: "store_inv sha shake (s\<lparr>st_chain_digests := cache\<rparr>) j"
    if "entries_ok (\<lambda>r d. r \<le> st_revision s \<and> chain_digest_at sha (j_versions j) r = Inr d) cache" for cache
    using inv that unfolding store_inv_def caches_ok_def
    by (auto simp: represents_cong [of s "s\<lparr>st_chain_digests := cache\<rparr>"] same_authority_def)
  show ?thesis
  proof (cases "st_journal s")
    case (Some j')
    with D(5) have sj: "st_journal s = Some j" by simp
    obtain rd where rd: "st_reader s = Some rd" "rd_revision rd = st_revision s" "reader_ok sha j rd"
      using D(7) [OF sj] by auto
    have "reader_chain_digest sha j rd r = chain_digest_at sha (j_versions j) r"
      using r rd by (intro reader_chain_digest_ok D(1,2) sha) auto
    then have "chain_digest_raw sha r s = (s\<lparr>st_chain_digests := st_chain_digests s\<rparr>, chain_digest_at sha (j_versions j) r)"
      using rd(1) sj by (simp add: chain_digest_raw_def with_reader_eq [OF rep])
    with keep [OF store_invD(8) [OF inv]] show ?thesis by blast
  next
    case None
    note M = representsD(6) [OF rep None]
    have keys: "map fst (st_versions s) = [0..<Suc (st_revision s)]" using M by blast
    then have known: "r \<in> set (map fst (st_versions s))" using r by auto
    let ?rem = "filter (\<lambda>x. x \<le> r) (map fst (st_chain_digests s))"
    define seed where "seed = (if ?rem = [] then (zero_digest, 0)
      else (the (map_of (st_chain_digests s) (Max (set ?rem))), Suc (Max (set ?rem))))"
    have start: "(snd seed = 0 \<longrightarrow> fst seed = zero_digest) \<and> snd seed \<le> Suc r \<and>
        (\<forall>m. snd seed = Suc m \<longrightarrow> chain_digest_at sha (j_versions j) m = Inr (fst seed))"
    proof (cases "?rem = []")
      case False
      then have "Max (set ?rem) \<in> set ?rem" by (metis List.finite_set Max_in set_empty)
      then have "Max (set ?rem) \<le> r" "Max (set ?rem) \<in> fst ` set (st_chain_digests s)" by auto
      moreover from this(2) obtain d where "map_of (st_chain_digests s) (Max (set ?rem)) = Some d"
        by (metis map_of_eq_None_iff not_None_eq)
      ultimately show ?thesis
        using False entries_okD [OF store_invD(8) [OF inv]] by (auto simp: seed_def)
    qed (simp add: seed_def)
    have eq: "snd seed + (Suc r - snd seed) = Suc r" using start by simp
    obtain cache d where steps: "chain_steps sha s [snd seed..<Suc r] (fst seed) (st_chain_digests s) = (cache, Inr d)"
      "entries_ok (\<lambda>r d. r \<le> st_revision s \<and> chain_digest_at sha (j_versions j) r = Inr d) cache"
      "chain_digest_at sha (j_versions j) r = Inr d"
      using chain_steps_ok [OF rep None sha, of "snd seed" "Suc r - snd seed" "fst seed" "st_chain_digests s"]
        start store_invD(8) [OF inv] r unfolding eq by auto
    have "chain_digest_raw sha r s = (s\<lparr>st_chain_digests := cache\<rparr>, Inr d)"
      using known steps(1) unfolding chain_digest_raw_def conjunct1 [OF M] Let_def seed_def [symmetric]
      by (cases seed) (simp del: upt_Suc)
    with keep [OF steps(2)] steps(3) show ?thesis by auto
  qed
qed

lemma be_nat_accumulator:
  "be_nat (be_bytes SET_HASH_BYTES (nat (graph_accumulator shake m))) = nat (graph_accumulator shake m)"
proof -
  have "SET_HASH_MODULUS = int (256 ^ SET_HASH_BYTES)"
    by (simp add: SET_HASH_MODULUS_def SET_HASH_BYTES_def SET_HASH_BITS_def)
  then have "nat (graph_accumulator shake m) < 256 ^ SET_HASH_BYTES"
    using graph_accumulator_range [of shake m] by (simp only: nat_less_iff)
  then show ?thesis by (simp add: be_nat_be_bytes)
qed

lemma store_inv_accumulators:
  "store_inv sha shake s j \<Longrightarrow>
     entries_ok (\<lambda>r a. r \<le> head_of j \<and> a = graph_accumulator shake (state_at (j_versions j) r)) acc \<Longrightarrow>
     store_inv sha shake (s\<lparr>st_accumulators := acc\<rparr>) j"
  unfolding store_inv_def caches_ok_def
  by (auto simp: represents_cong [of s "s\<lparr>st_accumulators := acc\<rparr>"] same_authority_def)

lemma store_inv_remember:
  assumes "store_inv sha shake s j" "r \<le> head_of j"
  shows "store_inv sha shake (remember_set_accumulator r (graph_accumulator shake (state_at (j_versions j) r)) s) j"
  unfolding remember_set_accumulator_def
  using assms store_invD(6) [OF assms(1)] by (intro store_inv_accumulators entries_intros) auto

text \<open>Recording an accumulator in the sidecar changes the journal's side table only.\<close>

lemma store_inv_record:
  assumes inv: "store_inv sha shake s j" and r: "r \<le> head_of j"
  shows "\<exists>j'. store_inv sha shake (record_set_accumulator r (graph_accumulator shake (state_at (j_versions j) r)) w s) j' \<and>
    j_versions j' = j_versions j \<and> head_of j' = head_of j"
proof (cases "st_journal s")
  case None
  then show ?thesis using inv by (auto simp: record_set_accumulator_def)
next
  case (Some j0)
  note rep = store_invD(1) [OF inv]
  with Some representsD(5) have sj: "st_journal s = Some j" by fastforce
  let ?a = "graph_accumulator shake (state_at (j_versions j) r)"
  let ?s = "record_set_accumulator r ?a w s"
  obtain n m where nm: "st_journal ?s =
      Some (j\<lparr>j_recorded := AList.update r (n, m, be_bytes SET_HASH_BYTES (nat ?a)) (j_recorded j)\<rparr>)"
    using record_journal [of r ?a w s] sj by auto
  let ?j = "j\<lparr>j_recorded := AList.update r (n, m, be_bytes SET_HASH_BYTES (nat ?a)) (j_recorded j)\<rparr>"
  have rep': "represents sha ?s ?j"
    using representsD(1-4,7) [OF rep] sj nm by (auto simp: represents_def)
  have "caches_ok sha shake ?s ?j"
    using store_invD(3,4,6,8) [OF inv] store_invD(7) [OF inv sj] nm r unfolding caches_ok_def recorded_ok_def
    by (auto intro!: entries_intros)
  with rep' show ?thesis by (intro exI [of _ ?j]) (simp add: store_inv_def)
qed

text \<open>The snapshots whose accumulator the store may be asked for: its own and those it answers \<open>at\<close>.\<close>

lemma store_set_accumulator_ok:
  assumes inv: "store_inv sha shake s j" and r: "snap_revision sn \<le> st_revision s"
    and genuine: "snap_cells sn = state_at (j_versions j) (snap_revision sn) \<or> snap_revision sn = st_revision s \<and> \<not> own"
  shows "\<exists>s' j'. store_set_accumulator shake own sn s = (s', Inr (graph_accumulator shake (snap_cells sn))) \<and>
    store_inv sha shake s' j' \<and> j_versions j' = j_versions j \<and> head_of j' = head_of j"
proof (cases "snap_revision sn = st_revision s \<and> \<not> own")
  case True
  then show ?thesis using inv by (auto simp: store_set_accumulator_def Let_def graph_accumulator_def)
next
  case False
  let ?r = "snap_revision sn" and ?g = "state_at (j_versions j)"
  note rep = store_invD(1) [OF inv] and D = representsD [OF store_invD(1) [OF inv]] and acc = store_invD(6) [OF inv]
  from False genuine have cells: "snap_cells sn = ?g ?r" by blast
  have fin: "finite (dom (?g ?r))" by (rule finite_dom_state_at)
  have rh: "?r \<le> head_of j" using r D(3) by simp
  note remember = store_inv_remember [OF inv rh]
  show ?thesis
  proof (cases "map_of (st_accumulators s) ?r")
    case (Some a)
    then have "a = graph_accumulator shake (?g ?r)" using entries_okD [OF acc] by simp
    with Some False cells show ?thesis
      using store_inv_accumulators [OF inv entries_ok_touch [OF acc]]
      by (auto simp: store_set_accumulator_def Let_def)
  next
    case none: None
    show ?thesis
    proof (cases "if Suc ?r \<le> st_revision s then map_of (st_accumulators s) (Suc ?r) else None")
      case (Some b)
      then have sr: "Suc ?r \<le> st_revision s" and b: "b = graph_accumulator shake (?g (Suc ?r))"
        using entries_okD [OF acc, of "Suc ?r"] by (auto split: if_splits)
      obtain w where w: "changed_at s (Suc ?r) = Inr w" "distinct (map cid w)"
        "sort_key cid w = rows_of (j_versions j) (Suc ?r)"
        using changed_at_ok [OF rep sr] by blast
      have "put_cells w (?g ?r) = put_cells (sort_key cid w) (?g ?r)"
        using w(2) by (intro put_cells_perm) (simp_all add: distinct_map)
      then have "?g (Suc ?r) = put_cells w (?g ?r)"
        unfolding w(3) using state_at_Suc [OF journal_okD(2) [OF D(1)]] by simp
      with graph_accumulator_undo [OF fin w(2), of shake] b
      have "accumulator_add shake (accumulator_remove shake b w)
          (map (\<lambda>c. the (snap_cells sn (cid c))) (filter (\<lambda>c. snap_cells sn (cid c) \<noteq> None) w)) =
          graph_accumulator shake (snap_cells sn)"
        by (simp add: cells)
      with False none Some w(1) remember cells show ?thesis
        by (auto simp: store_set_accumulator_def Let_def)
    next
      case no_above: None
      show ?thesis
      proof (cases "recorded_set_accumulator ?r s")
        case (Some a)
        then obtain j0 n m raw where j0: "st_journal s = Some j0" "map_of (j_recorded j0) ?r = Some (n, m, raw)"
          "a = int (be_nat raw)"
          by (auto simp: recorded_set_accumulator_def split: option.splits if_splits prod.splits)
        then have "raw = be_bytes SET_HASH_BYTES (nat (graph_accumulator shake (?g ?r)))"
          using store_invD(7) [OF inv j0(1)] unfolding recorded_ok_def by (auto dest: entries_okD)
        then have "a = int (nat (graph_accumulator shake (?g ?r)))"
          using \<open>a = int (be_nat raw)\<close> be_nat_accumulator by simp
        then have "a = graph_accumulator shake (snap_cells sn)"
          using graph_accumulator_range cells by simp
        with False none no_above Some remember cells show ?thesis
          by (auto simp: store_set_accumulator_def Let_def)
      next
        case None
        obtain j' where j': "store_inv sha shake (record_set_accumulator ?r (graph_accumulator shake (?g ?r)) None s) j'"
          "j_versions j' = j_versions j" "head_of j' = head_of j"
          using store_inv_record [OF inv rh] by blast
        from store_inv_remember [OF j'(1)] j' rh have "store_inv sha shake (remember_set_accumulator ?r
            (graph_accumulator shake (?g ?r)) (record_set_accumulator ?r (graph_accumulator shake (?g ?r)) None s)) j'"
          by metis
        with False none no_above None cells j' show ?thesis
          by (auto simp: store_set_accumulator_def Let_def graph_accumulator_def)
      qed
    qed
  qed
qed

section \<open>What committing does to what is remembered\<close>

lemma caches_ok_transfer:
  assumes c: "caches_ok sha shake s j" and rev: "st_revision s \<le> head_of j" and ext: "extends j j'"
    and hist: "st_historical t \<in> {[], st_historical s}" and up: "st_revision s \<le> st_revision t"
    and dense: "\<And>d. st_dense t = Some d \<Longrightarrow> snap_revision d = st_revision t \<Longrightarrow> snap_cells d = st_cells t"
    and index: "\<And>ix. st_journal t = None \<Longrightarrow> st_index t = Some ix \<Longrightarrow> ix = history_index (st_versions t)"
    and chain: "st_chain_digests t \<in> {[], st_chain_digests s}"
    and acc: "entries_ok (\<lambda>r a. r \<le> head_of j' \<and> a = graph_accumulator shake (state_at (j_versions j') r)) (st_accumulators t)"
    and rec: "\<And>j0. st_journal t = Some j0 \<Longrightarrow> recorded_ok shake j' (j_recorded j0)"
  shows "caches_ok sha shake t j'"
proof -
  have g: "state_at (j_versions j') r = state_at (j_versions j) r" if "r \<le> st_revision s" for r
    using that rev by (intro extends_state [OF ext]) simp
  have "held_ok (state_at (j_versions j')) (st_revision t) (st_historical s)"
    by (rule entries_ok_mono [where P = "\<lambda>r x. r \<le> st_revision s \<and> snd x = Snapshot r (state_at (j_versions j) r)"])
      (use c up g in \<open>auto simp: caches_ok_def\<close>)
  moreover have "entries_ok (\<lambda>r d. r \<le> st_revision t \<and> chain_digest_at sha (j_versions j') r = Inr d) (st_chain_digests s)"
    by (rule entries_ok_mono [where P = "\<lambda>r d. r \<le> st_revision s \<and> chain_digest_at sha (j_versions j) r = Inr d"])
      (use c up rev extends_chain [OF ext] in \<open>auto simp: caches_ok_def\<close>)
  ultimately show ?thesis
    using hist chain dense index acc rec unfolding caches_ok_def by auto
qed

lemma accumulators_extend:
  assumes "extends j j'"
    and "entries_ok (\<lambda>r a. r \<le> head_of j \<and> a = graph_accumulator shake (state_at (j_versions j) r)) acc"
  shows "entries_ok (\<lambda>r a. r \<le> head_of j' \<and> a = graph_accumulator shake (state_at (j_versions j') r)) acc"
  by (rule entries_ok_mono [OF assms(2)]) (use assms(1) extends_state [OF assms(1)] in \<open>auto simp: extends_def\<close>)

lemma recorded_extend:
  assumes "extends j j'" "recorded_ok shake j rec"
  shows "recorded_ok shake j' rec"
  unfolding recorded_ok_def
  by (rule entries_ok_mono [OF assms(2) [unfolded recorded_ok_def]])
    (use assms(1) extends_state [OF assms(1)] in \<open>auto simp: extends_def\<close>)

lemma append_recorded: "j_recorded (fst (journal_append f phys j e n cs)) = j_recorded j"
  by (auto simp: journal_append_def Let_def split: option.split sum.split)

lemma load_head_recorded: "j_recorded (fst (journal_load_head sha j)) = j_recorded j"
  by (auto simp: journal_load_head_def Let_def split: sum.split)

lemma reload_fields:
  assumes "reload sha j s = (s', Inr u)"
  shows "st_historical s' = [] \<and> st_dense s' = None \<and> st_index s' = None \<and> st_chain_digests s' = [] \<and>
    st_accumulators s' = st_accumulators s \<and> (\<forall>j0. st_journal s' = Some j0 \<longrightarrow> j_recorded j0 = j_recorded j)"
proof -
  obtain j' r where "journal_load_head sha j = (j', r)" by fastforce
  with load_head_recorded [of sha j] assms show ?thesis
    by (auto simp: reload_def adopt_journal_state_def head_state_def split: sum.splits if_splits)
qed

lemma append_to_journal_fields:
  assumes app: "append_to_journal env e d s = (s1, r1)"
  shows "(\<exists>X. s1 = s\<lparr>st_journal := X\<rparr> \<and> (X = None \<longrightarrow> st_journal s = None) \<and> (\<forall>j0. X = Some j0 \<longrightarrow> (\<exists>j. st_journal s = Some j \<and> j_recorded j0 = j_recorded j))) \<or>
    (\<exists>j1 u. reload (env_sha env) j1 s = (s1, Inr u) \<and> (\<exists>j. st_journal s = Some j \<and> j_recorded j1 = j_recorded j))"
proof (cases "st_journal s")
  case None
  then have "s1 = s\<lparr>st_journal := None\<rparr>" using app by (simp add: append_to_journal_def)
  with None show ?thesis by blast
next
  case (Some j)
  obtain j1 r where ap: "journal_append (env_fault env) (outcome (env_physical env)) j e (Suc (st_revision s)) d = (j1, r)"
    by fastforce
  have rec: "j_recorded j1 = j_recorded j"
    using append_recorded [of "env_fault env" "outcome (env_physical env)" j e "Suc (st_revision s)" d] ap by simp
  show ?thesis
  proof (cases "\<exists>m. r = Inl (Conflict m)")
    case True
    then obtain m where m: "r = Inl (Conflict m)" by blast
    obtain t q where t: "reload (env_sha env) j1 s = (t, q)" by fastforce
    then have s1: "s1 = t" using app Some ap m by (auto simp: append_to_journal_def split: sum.splits)
    show ?thesis
    proof (cases q)
      case (Inl x)
      obtain j2 r2 where l: "journal_load_head (env_sha env) j1 = (j2, r2)" by fastforce
      have "t = s\<lparr>st_journal := Some j2\<rparr>"
        using t Inl l by (auto simp: reload_def split: sum.splits)
      with s1 Some rec load_head_recorded [of "env_sha env" j1] l show ?thesis by auto
    next
      case (Inr u)
      with t s1 Some rec show ?thesis by auto
    qed
  next
    case False
    then have "s1 = s\<lparr>st_journal := Some j1\<rparr>"
      using app Some ap by (auto simp: append_to_journal_def split: sum.splits kernel_error.splits)
    with Some rec show ?thesis by auto
  qed
qed

lemma publish_fields:
  assumes "publish env decl cr ch s = (s', Inr n)"
  shows "st_historical s' = st_historical s \<and> st_dense s' = None \<and> st_index s' = None \<and>
    st_chain_digests s' = st_chain_digests s \<and> st_accumulators s' = st_accumulators (moved env cr ch s) \<and>
    st_journal s' = st_journal (moved env cr ch s) \<and> st_revision s' = Suc (st_revision s)"
proof -
  have hist: "record_history sha k d t = (t', r) \<Longrightarrow> st_historical t' = st_historical t \<and> st_dense t' = st_dense t \<and>
      st_chain_digests t' = st_chain_digests t \<and> st_accumulators t' = st_accumulators t \<and>
      st_journal t' = st_journal t \<and> st_revision t' = st_revision t" for sha k d t t' r
    by (auto simp: record_history_def split: option.splits sum.splits)
  obtain t r where t: "record_history (env_sha env) (Suc (st_revision s)) (cr @ ch) (moved env cr ch s) = (t, r)"
    by fastforce
  with assms hist [OF t] show ?thesis
    unfolding publish_eq t by (auto simp: Let_def split: sum.splits)
qed

lemma moved_accumulators:
  "st_accumulators (moved env cr ch s) = (case next_accumulator (env_shake env) s cr ch of
     None \<Rightarrow> st_accumulators s
   | Some a \<Rightarrow> od_trim SET_ACCUMULATOR_CACHE_SIZE (od_put (Suc (st_revision s)) a (st_accumulators s)))"
  by (simp add: moved_def Let_def remember_set_accumulator_def split: option.split)

lemma publish_caches:
  assumes rep: "represents sha s j" and c: "caches_ok sha (env_shake env) s j"
    and plan: "commit_plan (st_cells s) cr rs = Inr ch" and rows: "commit_rows_ok (st_cells s) (cr @ ch)"
    and s1: "s1 = s\<lparr>st_journal := X\<rparr>" "\<And>j0. X = Some j0 \<Longrightarrow> \<exists>j. st_journal s = Some j \<and> j_recorded j0 = j_recorded j"
    and pub: "publish env decl cr ch s1 = (s', Inr n)" and rep': "represents sha s' j'" and step: "published s j (cr @ ch) s' j'"
  shows "caches_ok sha (env_shake env) s' j'"
proof (rule caches_ok_transfer [OF c])
  let ?d = "cr @ ch" and ?g = "state_at (j_versions j')"
  note D = representsD [OF rep] and D' = representsD [OF rep']
  have ext: "extends j j'" by (rule published_extends [OF step])
  have rev: "st_revision s' = Suc (st_revision s)" "head_of j' = Suc (st_revision s)" "st_revision s = head_of j"
    using step by (auto simp: published_def)
  note F = publish_fields [OF pub]
  show "extends j j'" by (rule ext)
  show "st_revision s \<le> head_of j" by (rule D(3))
  show "st_historical s' \<in> {[], st_historical s}" "st_chain_digests s' \<in> {[], st_chain_digests s}"
    "st_revision s \<le> st_revision s'"
    using F s1(1) rev by auto
  show "snap_cells d = st_cells s'" if "st_dense s' = Some d" for d using F that by simp
  show "ix = history_index (st_versions s')" if "st_index s' = Some ix" for ix using F that by simp
  have acc: "entries_ok (\<lambda>r a. r \<le> head_of j' \<and> a = graph_accumulator (env_shake env) (?g r)) (st_accumulators s)"
    using c by (intro accumulators_extend [OF ext]) (simp add: caches_ok_def)
  have next_eq: "next_accumulator (env_shake env) s1 cr ch = next_accumulator (env_shake env) s cr ch"
    by (simp add: next_accumulator_def s1(1))
  have next_ok: "a = graph_accumulator (env_shake env) (?g (Suc (st_revision s)))"
    if na: "next_accumulator (env_shake env) s cr ch = Some a" for a
  proof -
    obtain held where held: "map_of (st_accumulators s) (st_revision s) = Some held"
      and a: "a = accumulator_add (env_shake env) (accumulator_remove (env_shake env) held
        (map (\<lambda>c. the (st_cells s (cid c))) ch)) ?d"
      using na by (auto simp: next_accumulator_def)
    have "held = graph_accumulator (env_shake env) (st_cells s)"
      using c held D(4) by (auto simp: caches_ok_def dest: entries_okD)
    moreover have "accumulator_add (env_shake env) (accumulator_remove (env_shake env)
        (graph_accumulator (env_shake env) (st_cells s)) (map (\<lambda>c. the (st_cells s (cid c))) ch)) ?d =
        graph_accumulator (env_shake env) (put_cells ?d (st_cells s))"
      using plan rows represents_graph_ok [OF rep]
      by (intro graph_accumulator_commit)
        (auto simp: commit_plan_Inr changes_of_def commit_rows_ok_def graph_okD(4))
    moreover have "st_cells s' = put_cells ?d (st_cells s)" using step by (simp add: published_def)
    then have "put_cells ?d (st_cells s) = ?g (Suc (st_revision s))" using D'(4) rev(1) by simp
    ultimately show ?thesis using a by simp
  qed
  show "entries_ok (\<lambda>r a. r \<le> head_of j' \<and> a = graph_accumulator (env_shake env) (?g r)) (st_accumulators s')"
  proof (cases "next_accumulator (env_shake env) s cr ch")
    case None
    then show ?thesis using F acc next_eq by (simp add: moved_accumulators) (simp add: s1(1))
  next
    case (Some a)
    then have "st_accumulators s' = od_trim SET_ACCUMULATOR_CACHE_SIZE (od_put (Suc (st_revision s)) a (st_accumulators s))"
      using F next_eq by (simp add: moved_accumulators) (simp add: s1(1))
    then show ?thesis using acc next_ok [OF Some] rev by (auto intro!: entries_intros)
  qed
  show "recorded_ok (env_shake env) j' (j_recorded j0)" if j0: "st_journal s' = Some j0" for j0
  proof -
    obtain rec where rec: "st_journal (moved env cr ch s1) = map_option (\<lambda>j. j\<lparr>j_recorded := rec j\<rparr>) (st_journal s1)"
      "\<And>j. rec j = j_recorded j \<or> (\<exists>a n m. next_accumulator (env_shake env) s1 cr ch = Some a \<and>
        rec j = AList.update (Suc (st_revision s1)) (n, m, be_bytes SET_HASH_BYTES (nat a)) (j_recorded j))"
      using moved_journal [of env cr ch s1] by blast
    have "map_option (\<lambda>j. j\<lparr>j_recorded := rec j\<rparr>) X = Some j0"
      using rec(1) F j0 by (simp add: s1(1))
    then obtain jx where jx: "X = Some jx" "j_recorded j0 = rec jx" by (cases X) auto
    obtain jy where "st_journal s = Some jy" "j_recorded jx = j_recorded jy" using s1(2) [OF jx(1)] by blast
    then have old: "recorded_ok (env_shake env) j' (j_recorded jx)"
      using c by (intro recorded_extend [OF ext]) (simp add: caches_ok_def)
    from rec(2) [of jx] show ?thesis
    proof
      assume "rec jx = j_recorded jx"
      with old jx show ?thesis by simp
    next
      assume "\<exists>a n m. next_accumulator (env_shake env) s1 cr ch = Some a \<and>
        rec jx = AList.update (Suc (st_revision s1)) (n, m, be_bytes SET_HASH_BYTES (nat a)) (j_recorded jx)"
      then obtain a n m where "next_accumulator (env_shake env) s cr ch = Some a"
        "rec jx = AList.update (Suc (st_revision s)) (n, m, be_bytes SET_HASH_BYTES (nat a)) (j_recorded jx)"
        using next_eq s1(1) by auto
      with old jx next_ok rev show ?thesis
        unfolding recorded_ok_def by (auto intro!: entries_intros)
    qed
  qed
qed

text \<open>A failed append leaves a store whose caches are sound for the journal it then has.\<close>

lemma append_caches:
  assumes rep: "represents sha s j" and c: "caches_ok sha shake s j" and sha: "env_sha env = sha"
    and app: "append_to_journal env e d s = (s1, r1)" and rep': "represents sha s1 j1" and ext: "extends j j1"
  shows "caches_ok sha shake s1 j1"
proof (rule caches_ok_transfer [OF c])
  note D = representsD [OF rep]
  have acc: "entries_ok (\<lambda>r a. r \<le> head_of j1 \<and> a = graph_accumulator shake (state_at (j_versions j1) r)) (st_accumulators s)"
    using c by (intro accumulators_extend [OF ext]) (simp add: caches_ok_def)
  show "extends j j1" by (rule ext)
  show "st_revision s \<le> head_of j" by (rule D(3))
  consider X where "s1 = s\<lparr>st_journal := X\<rparr>" "X = None \<longrightarrow> st_journal s = None" "\<And>j0. X = Some j0 \<Longrightarrow> \<exists>j. st_journal s = Some j \<and> j_recorded j0 = j_recorded j"
    | j2 u j0 where "reload sha j2 s = (s1, Inr u)" "st_journal s = Some j0" "j_recorded j2 = j_recorded j0"
    using append_to_journal_fields [OF app] sha by blast
  then have "st_historical s1 \<in> {[], st_historical s} \<and> st_revision s \<le> st_revision s1 \<and>
    (\<forall>d. st_dense s1 = Some d \<longrightarrow> snap_revision d = st_revision s1 \<longrightarrow> snap_cells d = st_cells s1) \<and>
    (\<forall>ix. st_journal s1 = None \<longrightarrow> st_index s1 = Some ix \<longrightarrow> ix = history_index (st_versions s1)) \<and>
    st_chain_digests s1 \<in> {[], st_chain_digests s} \<and> st_accumulators s1 = st_accumulators s \<and>
    (\<forall>j0. st_journal s1 = Some j0 \<longrightarrow> (\<exists>j. st_journal s = Some j \<and> j_recorded j0 = j_recorded j))"
  proof cases
    case (1 X)
    have idx: "ix = history_index (st_versions s1)" if "st_journal s1 = None" "st_index s1 = Some ix" for ix
      using that 1(1,2) c by (auto simp: caches_ok_def)
    have dense: "snap_cells d = st_cells s1" if "st_dense s1 = Some d" "snap_revision d = st_revision s1" for d
      using that 1(1) c by (auto simp: caches_ok_def)
    show ?thesis using idx dense 1(1,3) by auto
  next
    case (2 j2 u j0)
    have "st_revision s \<le> st_revision s1"
      using 2(1) by (auto simp: reload_def adopt_journal_state_def head_state_def split: prod.splits sum.splits if_splits)
    with reload_fields [OF 2(1)] 2(2,3) show ?thesis by auto
  qed
  then show "st_historical s1 \<in> {[], st_historical s}" "st_revision s \<le> st_revision s1"
    "\<And>d. st_dense s1 = Some d \<Longrightarrow> snap_revision d = st_revision s1 \<Longrightarrow> snap_cells d = st_cells s1"
    "\<And>ix. st_journal s1 = None \<Longrightarrow> st_index s1 = Some ix \<Longrightarrow> ix = history_index (st_versions s1)"
    "st_chain_digests s1 \<in> {[], st_chain_digests s}"
    "entries_ok (\<lambda>r a. r \<le> head_of j1 \<and> a = graph_accumulator shake (state_at (j_versions j1) r)) (st_accumulators s1)"
    "\<And>j0. st_journal s1 = Some j0 \<Longrightarrow> recorded_ok shake j1 (j_recorded j0)"
    using acc c recorded_extend [OF ext] by (auto simp: caches_ok_def)
qed

text \<open>Every commit keeps the store's invariant.\<close>

lemma commit_inv:
  assumes inv: "store_inv sha shake s j" and env: "env_sha env = sha" "env_shake env = shake" "\<And>x. length (sha x) = 32"
    and run: "commit env expected create replace (c, s) = ((c', s'), res)"
  shows "\<exists>j'. store_inv sha shake s' j' \<and> extends j j' \<and>
    (case res of
       Inr r \<Rightarrow> unchanged s j s' j' \<and> r = st_revision s \<or>
         (\<exists>cr rs ch. expected = st_revision s \<and> transformed env s create replace = Inr (cr, rs) \<and>
            commit_plan (st_cells s) cr rs = Inr ch \<and> published s j (cr @ ch) s' j' \<and>
            r = Suc (st_revision s))
     | Inl e \<Rightarrow> unchanged s j s' j' \<or>
         (\<exists>d. behind s j d s' j' \<and> env_fault env ''after_commit'' = Some e) \<or>
         (\<exists>m. e = Conflict m) \<and> adopted s j s' j')"
proof -
  note rep = store_invD(1) [OF inv] and cac = store_invD(2) [OF inv]
  obtain j' where rep': "represents sha s' j'" and out: "case res of
       Inr r \<Rightarrow> unchanged s j s' j' \<and> r = st_revision s \<or>
         (\<exists>cr rs ch. expected = st_revision s \<and> transformed env s create replace = Inr (cr, rs) \<and>
            commit_plan (st_cells s) cr rs = Inr ch \<and> published s j (cr @ ch) s' j' \<and>
            r = Suc (st_revision s))
     | Inl e \<Rightarrow> unchanged s j s' j' \<or>
         (\<exists>d. behind s j d s' j' \<and> env_fault env ''after_commit'' = Some e) \<or>
         (\<exists>m. e = Conflict m) \<and> adopted s j s' j'"
    using commit_outcomes [OF rep env(1,3) run] by (cases res) fastforce+
  have ext: "extends j j'"
    using out extends_appended [OF representsD(1) [OF rep]]
    by (cases res) (auto simp: unchanged_def behind_def adopted_def extends_refl intro: published_extends)
  have "caches_ok sha shake s' j'"
  proof (cases "s' = s \<and> j' = j")
    case True
    then show ?thesis using cac by simp
  next
    case False
    then have moved: "\<not> unchanged s j s' j'" by (simp add: unchanged_def)
    show ?thesis
    proof (cases "s' = s")
      case True
      with out moved show ?thesis
        using caches_ok_transfer [OF cac representsD(3) [OF rep] ext, of s] store_invD(4,5,6,7) [OF inv]
          accumulators_extend [OF ext] recorded_extend [OF ext]
        by auto
    next
      case False
      with commit_shape [OF run] have "attempted env create replace s s' res" by simp
      then obtain cr rs ch s1 r1 decl where tr: "transformed env s create replace = Inr (cr, rs)" and a: "commit_plan (st_cells s) cr rs = Inr ch" "cr @ ch \<noteq> []"
        "links_resolve (st_cells s) (cr @ ch)" "append_to_journal env (st_revision s) (cr @ ch) s = (s1, r1)"
        "case r1 of Inl e \<Rightarrow> s' = s1 | Inr _ \<Rightarrow> publish env decl cr ch s1 = (s', res)"
        unfolding attempted_def by blast
      show ?thesis
      proof (cases r1)
        case (Inl e)
        with a(5) have "s' = s1" by simp
        with append_caches [OF rep cac env(1) a(4) _ ext] rep' show ?thesis by simp
      next
        case (Inr u)
        note rows = commit_plan_rows [OF represents_graph_ok [OF rep] a(1) a(3) a(2)]
        obtain s'' j'' where pub: "publish env decl cr ch s1 = (s'', Inr (Suc (st_revision s)))"
          "represents sha s'' j''" "published s j (cr @ ch) s'' j''"
          using publish_after_append [OF rep env(1,3) rows, of s1 decl] a(4) Inr by auto
        have s'': "s'' = s'" using a(5) Inr pub(1) by auto
        have X: "\<exists>X. s1 = s\<lparr>st_journal := X\<rparr> \<and>
            (\<forall>j0. X = Some j0 \<longrightarrow> (\<exists>j. st_journal s = Some j \<and> j_recorded j0 = j_recorded j))"
        proof (cases "st_journal s")
          case None
          then show ?thesis using a(4) by (intro exI [of _ None]) (simp add: append_to_journal_def)
        next
          case (Some j0)
          with representsD(5) [OF rep] have sj: "st_journal s = Some j" by simp
          with append_to_journal_cases [OF rep sj env(1,3) rows] a(4) Inr
          have "s1 = s\<lparr>st_journal := Some (appended j (cr @ ch))\<rparr>" by auto
          with sj show ?thesis by (intro exI [of _ "Some (appended j (cr @ ch))"]) (simp add: appended_def)
        qed
        then obtain X where X: "s1 = s\<lparr>st_journal := X\<rparr>"
          "\<And>j0. X = Some j0 \<Longrightarrow> \<exists>j. st_journal s = Some j \<and> j_recorded j0 = j_recorded j" by blast
        have "caches_ok sha (env_shake env) s'' j''"
          using publish_caches [OF rep _ a(1) rows X pub(1,2,3)] cac env(2) by simp
        moreover have "res = Inr (Suc (st_revision s))" using a(5) Inr pub(1) by auto
        then have "published s j (cr @ ch) s' j'" using out moved tr a(1) by auto
        then have "j_versions j'' = j_versions j'" "head_of j'' = head_of j'"
          using pub(3) s'' by (auto simp: published_def)
        ultimately show ?thesis
          using s'' env(2) by (simp add: caches_ok_def recorded_ok_def)
      qed
    qed
  qed
  with rep' ext out show ?thesis by (auto simp: store_inv_def)
qed

end
