(* ===== verification/StoreRun.thy ===== *)
theory StoreRun
  imports StoreHistoryLaws
begin

text \<open>
  Whole lives of a store. \<open>store_op\<close> lists the operations a caller can make, in any order and any
  number, and \<open>run_ops\<close> performs them; \<open>reachable\<close> is every store one can then hold. Each
  property below is about every reachable store: the graph it publishes, what a commit may do to
  it, and the answers it gives about its past, its digests and its accumulators.
\<close>

section \<open>Operations that keep the invariant\<close>

lemma store_inv_cong:
  assumes "same_authority s t" "st_historical t = st_historical s" "st_dense t = st_dense s"
    "st_index t = st_index s" "st_accumulators t = st_accumulators s" "st_chain_digests t = st_chain_digests s"
  shows "store_inv sha shake t j = store_inv sha shake s j"
  using assms represents_cong [OF assms(1)] by (simp add: store_inv_def caches_ok_def same_authority_def)

lemma store_inv_opened:
  assumes rep: "represents sha s j" and empty: "st_historical s = []" "st_dense s = None" "st_index s = None"
      "st_accumulators s = []" "st_chain_digests s = []"
    and rec: "\<And>j0. st_journal s = Some j0 \<Longrightarrow> recorded_ok shake j (j_recorded j0)"
  shows "store_inv sha shake s j"
  using assms by (simp add: store_inv_def caches_ok_def)

lemma open_memory_inv: "store_inv sha shake open_memory (journal_open empty_tables)"
  by (rule store_inv_opened [OF represents_open_memory]) (simp_all add: open_memory_def blank_store_def)

lemma open_store_inv:
  assumes j: "journal_ok j" "checkpoints_ok sha j" and sha: "\<And>x. length (sha x) = 32"
    and rec: "recorded_ok shake j (j_recorded j)"
  shows "\<exists>j' s. open_store sha j = (j', Inr s) \<and> store_inv sha shake s j' \<and> st_revision s = head_of j \<and>
    j_versions j' = j_versions j \<and> head_of j' = head_of j"
proof -
  obtain j' lh where lh: "journal_load_head sha j = (j', Inr lh)" "lh_revision lh = head_of j"
    "j_versions j' = j_versions j" "head_of j' = head_of j"
    and rep: "represents sha (head_state lh (blank_store\<lparr>st_journal := Some j'\<rparr>)) j'"
    using represents_head_state [OF j sha, of blank_store] by blast
  have "j_recorded j' = j_recorded j" using load_head_recorded [of sha j] lh(1) by simp
  with rec lh have rec': "recorded_ok shake j' (j_recorded j')" by (simp add: recorded_ok_def)
  have "open_store sha j = (j', Inr (head_state lh (blank_store\<lparr>st_journal := Some j'\<rparr>)))"
    using lh(1) by (simp add: open_store_def journal_ok_open [OF j(1)])
  moreover have "store_inv sha shake (head_state lh (blank_store\<lparr>st_journal := Some j'\<rparr>)) j'"
    by (rule store_inv_opened [OF rep]) (use rec' in \<open>simp_all add: head_state_def blank_store_def\<close>)
  ultimately show ?thesis using lh by (auto simp: head_state_def)
qed

lemma refresh_inv:
  assumes inv: "store_inv sha shake s j" and sha: "\<And>x. length (sha x) = 32"
    and run: "refresh sha s = (s', res)"
  shows "\<exists>j'. store_inv sha shake s' j' \<and> j_versions j' = j_versions j \<and> head_of j' = head_of j \<and>
    st_revision s \<le> st_revision s' \<and>
    (st_stable_depth s = 0 \<longrightarrow> res = Inr (st_revision s') \<and> st_revision s' = head_of j)"
proof (cases "st_stable_depth s \<noteq> 0 \<or> st_journal s = None")
  case True
  then have "s' = s" using run by (auto simp: refresh_def split: if_splits)
  moreover have "st_journal s = None \<Longrightarrow> st_revision s = head_of j"
    using representsD(6) [OF store_invD(1) [OF inv]] by blast
  ultimately show ?thesis
    using True run inv by (intro exI [of _ j]) (auto simp: refresh_def split: if_splits)
next
  case False
  note rep = store_invD(1) [OF inv]
  note D = representsD [OF rep]
  from False D(5) have sj: "st_journal s = Some j" by auto
  obtain j' t where t: "reload sha j s = (t, Inr ())" "represents sha t j'" "st_revision t = head_of j"
    "j_versions j' = j_versions j" "head_of j' = head_of j"
    using reload_ok [OF D(1,2) sha D(3)] by blast
  note F = reload_fields [OF t(1)]
  have ext: "extends j j'" using t by (simp add: extends_refl)
  have "caches_ok sha shake t j'"
  proof (rule caches_ok_transfer [OF store_invD(2) [OF inv] D(3) ext])
    show "entries_ok (\<lambda>r a. r \<le> head_of j' \<and> a = graph_accumulator shake (state_at (j_versions j') r)) (st_accumulators t)"
      using accumulators_extend [OF ext store_invD(6) [OF inv]] F by simp
    show "recorded_ok shake j' (j_recorded j0)" if "st_journal t = Some j0" for j0
      using recorded_extend [OF ext store_invD(7) [OF inv sj]] F that by simp
  qed (use F t(3) D(3) in auto)
  moreover have "s' = t" "res = Inr (st_revision t)"
    using run t(1) sj False by (auto simp: refresh_def)
  ultimately show ?thesis
    using t D(3) False by (intro exI [of _ j']) (auto simp: store_inv_def)
qed

lemma dense_snapshot_ok:
  assumes "store_inv sha shake s j"
  shows "snd (dense_snapshot s) = Snapshot (st_revision s) (st_cells s)"
    "store_inv sha shake (fst (dense_snapshot s)) j"
proof -
  show "snd (dense_snapshot s) = Snapshot (st_revision s) (st_cells s)"
    using store_invD(4) [OF assms] by (cases "st_dense s") (auto simp: dense_snapshot_def Let_def intro: snapshot.equality)
  have "store_inv sha shake (s\<lparr>st_dense := Some (Snapshot (st_revision s) (st_cells s))\<rparr>) j"
    using assms represents_cong [of s "s\<lparr>st_dense := Some (Snapshot (st_revision s) (st_cells s))\<rparr>"]
    by (simp add: store_inv_def caches_ok_def same_authority_def)
  with assms show "store_inv sha shake (fst (dense_snapshot s)) j"
    by (auto simp: dense_snapshot_def Let_def split: option.split)
qed

section \<open>Transitions\<close>

lemma unhex_hex [simp]: "unhex (hex bs) = Some bs"
proof (induction bs)
  case (Cons b bs)
  have digit: "hex_value (hex_digit n) = Some n" if "n < 16" for n
    using that by (auto simp: hex_digit_def hex_value_def)
  have "of_char b < (256::nat)" by simp
  then have "of_char b div 16 < (16::nat)" by (rule less_mult_imp_div_less [of _ 16 16, simplified])
  moreover have "of_char b mod 16 < (16::nat)" by simp
  moreover have "char_of (16 * (of_char b div 16) + of_char b mod (16::nat)) = b" by simp
  ultimately have "unhex (hex_digit (of_char b div 16) # hex_digit (of_char b mod 16) # hex bs) = Some (b # bs)"
    using Cons digit by simp
  then show ?case by (simp add: hex_def)
qed (simp add: hex_def)

lemma hex_inj: "hex a = hex b \<longleftrightarrow> a = b"
  by (metis option.inject unhex_hex)

lemma changed_at_cong: "changed_at (s\<lparr>st_chain_digests := c\<rparr>) r = changed_at s r"
  by (simp add: changed_at_def with_reader_def split: option.split)

lemma chain_step_sort:
  "distinct (map cid cs) \<Longrightarrow> revision_chain_digest_step sha p r (sort_key cid cs) = Inr d \<longleftrightarrow>
     revision_chain_digest_step sha p r cs = Inr d"
  by (simp add: revision_chain_digest_step_Inr distinct_map sort_key_id_if_sorted)

text \<open>What the call computes, with the head's digest and the last delta at hand.\<close>

definition transition_changes ::
  "(bytes \<Rightarrow> bytes) \<Rightarrow> nat \<Rightarrow> bytes \<Rightarrow> cell list \<Rightarrow> nat option \<Rightarrow> string option \<Rightarrow> cell list option" where
  "transition_changes sha n digest delta revision text =
     (case (revision, map_option unhex text) of
        (Some r, Some (Some p)) \<Rightarrow>
          if length p \<noteq> 32 then None
          else if r = n then (if p = digest then Some [] else None)
          else if Suc r = n then (if revision_chain_digest_step sha p n delta = Inr digest then Some delta else None)
          else None
      | _ \<Rightarrow> None)"

lemma snapshot_transition_eq:
  assumes inv: "store_inv sha shake s j" and sha: "\<And>x. length (sha x) = 32"
  shows "\<exists>cache d delta. chain_digest_at sha (j_versions j) (st_revision s) = Inr d \<and>
    distinct (map cid delta) \<and> sort_key cid delta = rows_of (j_versions j) (st_revision s) \<and>
    store_inv sha shake (s\<lparr>st_chain_digests := cache\<rparr>) j \<and>
    snapshot_transition sha revision text s = (s\<lparr>st_chain_digests := cache\<rparr>,
      Inr \<lparr>tr_snapshot = Snapshot (st_revision s) (st_cells s), tr_digest = hex d,
           tr_changed = transition_changes sha (st_revision s) d delta revision text\<rparr>)"
proof -
  note rep = store_invD(1) [OF inv] and D = representsD [OF store_invD(1) [OF inv]]
  obtain d where d: "chain_digest_at sha (j_versions j) (st_revision s) = Inr d" "length d = 32"
    using chain_digest_ok [OF D(1), where sha = sha and r = "st_revision s"] sha D(3) by blast
  obtain delta where delta: "changed_at s (st_revision s) = Inr delta" "distinct (map cid delta)"
    "sort_key cid delta = rows_of (j_versions j) (st_revision s)"
    using changed_at_ok [OF rep order_refl] by blast
  obtain cache where cache: "chain_digest_raw sha (st_revision s) s = (s\<lparr>st_chain_digests := cache\<rparr>, Inr d)"
    "store_inv sha shake (s\<lparr>st_chain_digests := cache\<rparr>) j"
    using chain_digest_raw_ok [OF inv order_refl sha] d(1) by auto
  have step: "\<exists>e. revision_chain_digest_step sha p (st_revision s) delta = Inr e" if "length p = 32" for p
  proof -
    have "delta \<noteq> []" "\<forall>c \<in> set delta. cid c \<noteq> []"
    proof -
      have "\<exists>q. revision_chain_digest_step sha q (st_revision s) (rows_of (j_versions j) (st_revision s)) = Inr d"
        using d(1) D(3) chain_digest_ok [OF D(1), where sha = sha and r = "st_revision s - 1"] sha
        by (cases "st_revision s") (auto simp: chain_digest_zero chain_digest_Suc)
      then show "delta \<noteq> []" "\<forall>c \<in> set delta. cid c \<noteq> []"
        unfolding delta(3) [symmetric] by (auto simp: revision_chain_digest_step_Inr)
    qed
    with that delta(2) show ?thesis by (auto simp: revision_chain_digest_step_Inr)
  qed
  have "snapshot_transition sha revision text s = (s\<lparr>st_chain_digests := cache\<rparr>,
      Inr \<lparr>tr_snapshot = Snapshot (st_revision s) (st_cells s), tr_digest = hex d,
           tr_changed = transition_changes sha (st_revision s) d delta revision text\<rparr>)"
    unfolding snapshot_transition_def transition_changes_def store_chain_digest_def
    using cache(1) delta(1) step
    by (auto simp: changed_at_cong hex_inj Let_def split: option.split dest: step)
  with d delta cache(2) show ?thesis by blast
qed

section \<open>Lives of a store\<close>

datatype store_op =
    Commit commit_env ctx nat "cell list" "cell list"
  | Refresh
  | At nat
  | CellsAt nat "string list"
  | Accumulate nat
  | ChainDigest nat
  | Transition "nat option" "string option"
  | DenseSnapshot
  | Subscribe string
  | Unsubscribe string
  | RequireIntent
  | Reopen

text \<open>The two hash functions are the host's, the same for every operation.\<close>

definition hashed :: "(bytes \<Rightarrow> bytes) \<Rightarrow> (bytes \<Rightarrow> bytes) \<Rightarrow> commit_env \<Rightarrow> commit_env" where
  "hashed sha shake env = env\<lparr>env_sha := sha, env_shake := shake\<rparr>"

definition accumulate :: "(bytes \<Rightarrow> bytes) \<Rightarrow> nat \<Rightarrow> store \<Rightarrow> store \<times> int result" where
  "accumulate shake r s =
     (case at_revision r s of
        (s', Inl e) \<Rightarrow> (s', Inl e)
      | (s', Inr sn) \<Rightarrow> store_set_accumulator shake (r = st_revision s) sn s')"

definition reopen :: "(bytes \<Rightarrow> bytes) \<Rightarrow> store \<Rightarrow> store" where
  "reopen sha s =
     (case st_journal s of
        None \<Rightarrow> s
      | Some j \<Rightarrow> (case open_store sha j of (_, Inl e) \<Rightarrow> s | (_, Inr s') \<Rightarrow> s'))"

fun run_op :: "(bytes \<Rightarrow> bytes) \<Rightarrow> (bytes \<Rightarrow> bytes) \<Rightarrow> store_op \<Rightarrow> store \<Rightarrow> store" where
  "run_op sha shake (Commit env c n cr rp) s = snd (fst (commit (hashed sha shake env) n cr rp (c, s)))"
| "run_op sha shake Refresh s = fst (refresh sha s)"
| "run_op sha shake (At r) s = fst (at_revision r s)"
| "run_op sha shake (CellsAt r ids) s = fst (cells_at r ids s)"
| "run_op sha shake (Accumulate r) s = fst (accumulate shake r s)"
| "run_op sha shake (ChainDigest r) s = fst (chain_digest_raw sha r s)"
| "run_op sha shake (Transition r d) s = fst (snapshot_transition sha r d s)"
| "run_op sha shake DenseSnapshot s = fst (dense_snapshot s)"
| "run_op sha shake (Subscribe l) s = subscribe l s"
| "run_op sha shake (Unsubscribe l) s = unsubscribe l s"
| "run_op sha shake RequireIntent s = require_declared_intent s"
| "run_op sha shake Reopen s = reopen sha s"

fun run_ops :: "(bytes \<Rightarrow> bytes) \<Rightarrow> (bytes \<Rightarrow> bytes) \<Rightarrow> store_op list \<Rightarrow> store \<Rightarrow> store" where
  "run_ops sha shake [] s = s"
| "run_ops sha shake (op # ops) s = run_ops sha shake ops (run_op sha shake op s)"

text \<open>A new store: in memory, or over a fresh database.\<close>

definition new_store :: "(bytes \<Rightarrow> bytes) \<Rightarrow> bool \<Rightarrow> store" where
  "new_store sha durable =
     (if durable then (case open_store sha empty_tables of (_, Inr s) \<Rightarrow> s | _ \<Rightarrow> blank_store)
      else open_memory)"

definition reachable :: "(bytes \<Rightarrow> bytes) \<Rightarrow> (bytes \<Rightarrow> bytes) \<Rightarrow> store \<Rightarrow> bool" where
  "reachable sha shake s \<longleftrightarrow> (\<exists>durable ops. s = run_ops sha shake ops (new_store sha durable))"

lemma empty_tables_opened: "open_store sha (journal_open empty_tables) = open_store sha empty_tables"
  using journal_ok_open [OF journal_ok_open_empty] by (simp add: open_store_def)

lemma new_store_inv:
  assumes sha: "\<And>x. length (sha x) = 32"
  shows "\<exists>j. store_inv sha shake (new_store sha durable) j \<and> j_versions j = [(0, null_cell)] \<and> head_of j = 0"
proof -
  let ?j = "journal_open empty_tables"
  have tables: "j_versions ?j = [(0, null_cell)]" "head_of ?j = 0"
    by (simp_all add: journal_open_def empty_tables_def head_of_def)
  have "checkpoints_ok sha ?j" "recorded_ok shake ?j (j_recorded ?j)"
    by (simp_all add: journal_open_def empty_tables_def checkpoints_ok_def recorded_ok_def)
  then obtain j s where "open_store sha ?j = (j, Inr s)" "store_inv sha shake s j" "j_versions j = j_versions ?j"
    "head_of j = head_of ?j"
    using open_store_inv [OF journal_ok_open_empty, where sha = sha and shake = shake] sha by blast
  with tables open_memory_inv show ?thesis
    by (cases durable) (auto simp: new_store_def empty_tables_opened [symmetric])
qed

lemma store_inv_closed_at:
  assumes "st_closed s"
  shows "fst (at_revision r s) = s"
  using assms by (simp add: at_revision_def)

lemma at_revision_keeps: "store_inv sha shake s j \<Longrightarrow> store_inv sha shake (fst (at_revision r s)) j"
  using at_revision_inv store_inv_closed_at by metis

lemma cells_at_keeps:
  assumes inv: "store_inv sha shake s j"
  shows "store_inv sha shake (fst (cells_at r ids s)) j"
proof (cases "r \<le> st_revision s")
  case True
  with cells_at_ok [OF inv] show ?thesis by (metis fst_conv)
next
  case False
  have "r \<notin> set (map fst (st_versions s))" if "st_reader s = None"
  proof -
    have "st_journal s = None"
      using that representsD(5,7) [OF store_invD(1) [OF inv]] by (cases "st_journal s") auto
    then have "map fst (st_versions s) = [0..<Suc (st_revision s)]"
      using representsD(6) [OF store_invD(1) [OF inv]] by blast
    then show ?thesis using False by simp
  qed
  then have "fst (cells_at r ids s) = s"
    using False by (cases "st_reader s") (simp_all add: cells_at_def Let_def)
  with inv show ?thesis by simp
qed

lemma accumulate_ok:
  assumes inv: "store_inv sha shake s j" and live: "\<not> st_closed s" and r: "r \<le> st_revision s"
  shows "\<exists>s' j'. accumulate shake r s = (s', Inr (graph_accumulator shake (state_at (j_versions j) r))) \<and>
    store_inv sha shake s' j' \<and> j_versions j' = j_versions j \<and> head_of j' = head_of j"
proof -
  obtain h where h: "at_revision r s = (s\<lparr>st_historical := h\<rparr>, Inr (Snapshot r (state_at (j_versions j) r)))"
    "held_ok (state_at (j_versions j)) (st_revision s) h"
    using at_revision_ok [OF inv live r] by blast
  let ?s = "s\<lparr>st_historical := h\<rparr>" and ?sn = "Snapshot r (state_at (j_versions j) r)"
  have inv': "store_inv sha shake ?s j" by (rule store_inv_historical [OF inv h(2)])
  obtain s' j' where "store_set_accumulator shake (r = st_revision s) ?sn ?s =
      (s', Inr (graph_accumulator shake (state_at (j_versions j) r)))"
    "store_inv sha shake s' j'" "j_versions j' = j_versions j" "head_of j' = head_of j"
    using store_set_accumulator_ok [OF inv', of ?sn "r = st_revision s"] r by auto
  with h(1) show ?thesis by (auto simp: accumulate_def)
qed

lemma extends_trans: "extends i j \<Longrightarrow> extends j k \<Longrightarrow> extends i k"
  unfolding extends_def by fastforce

lemma accumulate_keeps:
  assumes inv: "store_inv sha shake s j"
  shows "\<exists>j'. store_inv sha shake (fst (accumulate shake r s)) j' \<and> extends j j' \<and> j_versions j' = j_versions j"
proof (cases "\<not> st_closed s \<and> r \<le> st_revision s")
  case True
  then obtain s' j' where "fst (accumulate shake r s) = s'" "store_inv sha shake s' j'"
    "j_versions j' = j_versions j" "head_of j' = head_of j"
    using accumulate_ok [OF inv] by (metis fst_conv)
  then show ?thesis by (auto intro: extends_refl)
next
  case False
  then obtain e where "at_revision r s = (s, Inl e)"
    using at_revision_unknown [OF inv, of r] by (cases "st_closed s") (auto simp: at_revision_def)
  with inv show ?thesis by (auto simp: accumulate_def intro: extends_refl)
qed

lemma chain_digest_keeps:
  assumes inv: "store_inv sha shake s j" and sha: "\<And>x. length (sha x) = 32"
  shows "store_inv sha shake (fst (chain_digest_raw sha r s)) j"
proof (cases "r \<le> st_revision s")
  case True
  then obtain c where "chain_digest_raw sha r s = (s\<lparr>st_chain_digests := c\<rparr>, chain_digest_at sha (j_versions j) r)"
    "store_inv sha shake (s\<lparr>st_chain_digests := c\<rparr>) j"
    using chain_digest_raw_ok [OF inv _ sha] by blast
  then show ?thesis by simp
next
  case False
  have "r \<notin> set (map fst (st_versions s))" if "st_reader s = None"
  proof -
    have "st_journal s = None"
      using that representsD(5,7) [OF store_invD(1) [OF inv]] by (cases "st_journal s") auto
    then have "map fst (st_versions s) = [0..<Suc (st_revision s)]"
      using representsD(6) [OF store_invD(1) [OF inv]] by blast
    then show ?thesis using False by simp
  qed
  then have "fst (chain_digest_raw sha r s) = s"
    using False by (cases "st_reader s") (simp_all add: chain_digest_raw_def)
  with inv show ?thesis by simp
qed

lemma hashed_simps [simp]:
  "env_sha (hashed sha shake env) = sha" "env_shake (hashed sha shake env) = shake"
  "env_fault (hashed sha shake env) = env_fault env" "env_physical (hashed sha shake env) = env_physical env"
  "env_guard (hashed sha shake env) = env_guard env" "env_transform (hashed sha shake env) = env_transform env"
  "env_listener (hashed sha shake env) = env_listener env"
  by (simp_all add: hashed_def)

lemma run_op_inv:
  assumes inv: "store_inv sha shake s j" and sha: "\<And>x. length (sha x) = 32"
  shows "\<exists>j'. store_inv sha shake (run_op sha shake op s) j' \<and> extends j j' \<and>
    ((\<forall>env c n cr rp. op \<noteq> Commit env c n cr rp) \<longrightarrow> j_versions j' = j_versions j)"
proof (cases op)
  case (Commit env c n cr rp)
  obtain c' s' res where run: "commit (hashed sha shake env) n cr rp (c, s) = ((c', s'), res)"
    by (metis surj_pair)
  with commit_inv [OF inv _ _ sha run] Commit show ?thesis by auto
next
  case Refresh
  obtain s' res where "refresh sha s = (s', res)" by fastforce
  with refresh_inv [OF inv sha this] Refresh show ?thesis by (auto intro: extends_refl)
next
  case (At r)
  with at_revision_keeps [OF inv] show ?thesis by (auto intro: extends_refl)
next
  case (CellsAt r ids)
  with cells_at_keeps [OF inv] show ?thesis by (auto intro: extends_refl)
next
  case (Accumulate r)
  with accumulate_keeps [OF inv] show ?thesis by auto
next
  case (ChainDigest r)
  with chain_digest_keeps [OF inv sha] show ?thesis by (auto intro: extends_refl)
next
  case (Transition r d)
  with snapshot_transition_eq [OF inv sha, of r d] show ?thesis by (auto intro!: extends_refl exI [of _ j])
next
  case DenseSnapshot
  with dense_snapshot_ok(2) [OF inv] show ?thesis by (auto intro: extends_refl)
next
  case (Subscribe l)
  have "store_inv sha shake (subscribe l s) j"
    using inv by (subst store_inv_cong [of s]) (simp_all add: subscribe_def same_authority_def)
  with Subscribe show ?thesis by (auto intro: extends_refl)
next
  case (Unsubscribe l)
  have "store_inv sha shake (unsubscribe l s) j"
    using inv by (subst store_inv_cong [of s]) (simp_all add: unsubscribe_def same_authority_def)
  with Unsubscribe show ?thesis by (auto intro: extends_refl)
next
  case RequireIntent
  have "store_inv sha shake (require_declared_intent s) j"
    using inv by (subst store_inv_cong [of s]) (simp_all add: require_declared_intent_def same_authority_def)
  with RequireIntent show ?thesis by (auto intro: extends_refl)
next
  case Reopen
  show ?thesis
  proof (cases "st_journal s")
    case None
    with Reopen inv show ?thesis by (auto simp: reopen_def intro: extends_refl)
  next
    case (Some j0)
    with representsD(5) [OF store_invD(1) [OF inv]] have sj: "st_journal s = Some j" by simp
    obtain j' s' where "open_store sha j = (j', Inr s')" "store_inv sha shake s' j'"
      "j_versions j' = j_versions j" "head_of j' = head_of j"
      using open_store_inv [OF representsD(1,2) [OF store_invD(1) [OF inv]], where shake = shake] sha
        store_invD(7) [OF inv sj] by blast
    with Reopen sj show ?thesis by (auto simp: reopen_def intro: extends_refl)
  qed
qed

lemma run_ops_inv:
  assumes sha: "\<And>x. length (sha x) = 32"
  shows "store_inv sha shake s j \<Longrightarrow> \<exists>j'. store_inv sha shake (run_ops sha shake ops s) j' \<and> extends j j'"
proof (induction ops arbitrary: s j)
  case Nil
  then show ?case by (auto intro: extends_refl)
next
  case (Cons op ops)
  obtain k where "store_inv sha shake (run_op sha shake op s) k" "extends j k"
    using run_op_inv [OF Cons.prems sha] by blast
  with Cons.IH [of "run_op sha shake op s" k] show ?case by (auto intro: extends_trans)
qed

lemma reachable_inv:
  assumes "reachable sha shake s" "\<And>x. length (sha x) = 32"
  shows "\<exists>j. store_inv sha shake s j"
  using assms new_store_inv run_ops_inv unfolding reachable_def by metis

lemma reachable_run: "reachable sha shake s \<Longrightarrow> reachable sha shake (run_ops sha shake ops s)"
proof -
  have "run_ops sha shake (xs @ ys) t = run_ops sha shake ys (run_ops sha shake xs t)" for xs ys t
    by (induction xs arbitrary: t) simp_all
  then show "reachable sha shake s \<Longrightarrow> reachable sha shake (run_ops sha shake ops s)"
    unfolding reachable_def by metis
qed

end
