(* ===== verification/StoreProps.thy ===== *)
theory StoreProps
  imports StoreRun
begin

text \<open>
  The properties of the store, about every reachable one. \<open>history_log\<close> is the history a store
  stands on (its journal's rows, or its own versions), \<open>durable_head\<close> the last revision of it.
\<close>

section \<open>The history a store stands on\<close>

definition history_log :: "store \<Rightarrow> version_row list" where
  "history_log s = (case st_journal s of Some j \<Rightarrow> j_versions j | None \<Rightarrow> mem_log (st_versions s))"

definition durable_head :: "store \<Rightarrow> nat" where
  "durable_head s = (case st_journal s of Some j \<Rightarrow> head_of j | None \<Rightarrow> st_revision s)"

definition graph_at :: "store \<Rightarrow> nat \<Rightarrow> cells" where
  "graph_at s r = state_at (history_log s) r"

lemma represents_history:
  assumes "represents sha s j"
  shows "history_log s = j_versions j" "durable_head s = head_of j" "graph_at s = state_at (j_versions j)"
  using representsD(5,6) [OF assms]
  by (auto simp: history_log_def durable_head_def graph_at_def fun_eq_iff split: option.split)

lemma store_inv_log:
  assumes "store_inv sha shake s j"
  shows "history_log s = j_versions j" "durable_head s = head_of j" "graph_at s = state_at (j_versions j)"
  using represents_history [OF store_invD(1) [OF assms]] by auto

lemma reachable_log:
  assumes "reachable sha shake s" "\<And>x. length (sha x) = 32"
  obtains j where "store_inv sha shake s j" "history_log s = j_versions j" "durable_head s = head_of j"
    "graph_at s = state_at (j_versions j)"
  using reachable_inv [OF assms] store_inv_log by metis

lemma reachable_new: "reachable sha shake (new_store sha durable)"
  unfolding reachable_def by (metis run_ops.simps(1))

lemma reachable_memory: "reachable sha shake open_memory"
  using reachable_new [of sha shake False] by (simp add: new_store_def)

lemma fixed_sha_length: "length (fixed_sha x) = 32"
  by (simp add: fixed_sha_def)

text \<open>
  C2: The store always publishes its own history. After any sequence of operations (commits with
  any faults, guards and transforms, reads, refreshes, reopenings), the published graph is the
  graph its history determines at its revision; that graph and every past one are well formed
  (the null Cell present and unchanged, identities as keys, no dangling physical link, finite); and
  the store is never ahead of its history.
\<close>

theorem reachable_stores_publish_their_history:
  assumes "reachable sha shake s" "\<And>x. length (sha x) = 32"
  shows "st_cells s = graph_at s (st_revision s) \<and> st_revision s \<le> durable_head s \<and>
    (\<forall>r. graph_ok (graph_at s r)) \<and> revisions s = [0..<Suc (st_revision s)]"
proof -
  obtain j where j: "store_inv sha shake s j" "durable_head s = head_of j" "graph_at s = state_at (j_versions j)"
    using reachable_log [OF assms] by blast
  note rep = store_invD(1) [OF j(1)]
  show ?thesis
    using j(2,3) representsD [OF rep] graph_ok_state_at revisions_ok [OF rep] by auto
qed

theorem reachable_stores_publish_their_history_witness:
  "st_cells open_memory = graph_at open_memory (st_revision open_memory) \<and> graph_ok (graph_at open_memory 0)"
  using reachable_stores_publish_their_history [where sha = fixed_sha and shake = fixed_sha,
      OF reachable_memory fixed_sha_length]
  by blast

section \<open>Commits\<close>

text \<open>
  The rows a commit writes: what its transform made of the request, planned against the published
  graph.
\<close>

definition planned :: "commit_env \<Rightarrow> store \<Rightarrow> nat \<Rightarrow> cell list \<Rightarrow> cell list \<Rightarrow> cell list \<Rightarrow> bool" where
  "planned env s expected create replace rows \<longleftrightarrow> expected = st_revision s \<and>
     (\<exists>cr rs ch. transformed env s create replace = Inr (cr, rs) \<and> commit_plan (st_cells s) cr rs = Inr ch \<and>
        rows = cr @ ch)"

lemma plannedI:
  "expected = st_revision s \<Longrightarrow> transformed env s create replace = Inr (cr, rs) \<Longrightarrow>
     commit_plan (st_cells s) cr rs = Inr ch \<Longrightarrow> planned env s expected create replace (cr @ ch)"
  by (auto simp: planned_def)

text \<open>A commit that fails has not moved the store, or failed from the durable append on.\<close>

definition broke_off :: "commit_env \<Rightarrow> nat \<Rightarrow> cell list \<Rightarrow> cell list \<Rightarrow> store \<Rightarrow> store \<Rightarrow> kernel_error \<Rightarrow> bool" where
  "broke_off env expected create replace s s' e \<longleftrightarrow>
     (\<exists>cr rs ch. planned env s expected create replace (cr @ ch) \<and> commit_plan (st_cells s) cr rs = Inr ch \<and>
        cr @ ch \<noteq> [] \<and> links_resolve (st_cells s) (cr @ ch) \<and>
        (append_to_journal env (st_revision s) (cr @ ch) s = (s', Inl e) \<or>
         (\<exists>s1 decl. append_to_journal env (st_revision s) (cr @ ch) s = (s1, Inr ()) \<and>
            publish env decl cr ch s1 = (s', Inl e))))"

lemma broke_offI:
  "transformed env s create replace = Inr (cr, rs) \<Longrightarrow> commit_plan (st_cells s) cr rs = Inr ch \<Longrightarrow>
     cr \<noteq> [] \<or> ch \<noteq> [] \<Longrightarrow> links_resolve (st_cells s) (cr @ ch) \<Longrightarrow>
     append_to_journal env (st_revision s) (cr @ ch) s = (s', Inl e) \<Longrightarrow>
     broke_off env (st_revision s) create replace s s' e"
  "transformed env s create replace = Inr (cr, rs) \<Longrightarrow> commit_plan (st_cells s) cr rs = Inr ch \<Longrightarrow>
     cr \<noteq> [] \<or> ch \<noteq> [] \<Longrightarrow> links_resolve (st_cells s) (cr @ ch) \<Longrightarrow>
     append_to_journal env (st_revision s) (cr @ ch) s = (s1, Inr ()) \<Longrightarrow>
     publish env decl cr ch s1 = (s', Inl e) \<Longrightarrow> broke_off env (st_revision s) create replace s s' e"
  unfolding broke_off_def using plannedI [OF refl] by fastforce+

lemma commit_failure:
  assumes run: "commit env expected create replace (c, s) = ((c', s'), Inl e)"
  shows "s' = s \<or> broke_off env expected create replace s s' e"
  using run unfolding commit_def Let_def
  by (auto split: if_splits sum.splits prod.splits option.splits dest: broke_offI)

text \<open>Where a failed append leaves the store: untouched, behind its journal, or at its head.\<close>

lemma failed_append:
  assumes inv: "store_inv sha shake s j" and sha: "env_sha env = sha" "\<And>x. length (sha x) = 32"
    and rows: "commit_rows_ok (st_cells s) d"
    and app: "append_to_journal env (st_revision s) d s = (s', Inl e)"
  shows "s' = s \<or>
    st_revision s = durable_head s \<and> env_fault env ''after_commit'' = Some e \<and>
      s' = s\<lparr>st_journal := map_option (\<lambda>j. appended j d) (st_journal s)\<rparr> \<and>
      history_log s' = history_log s @ map (Pair (Suc (st_revision s))) d \<or>
    (\<exists>m. e = Conflict m) \<and> st_revision s' = durable_head s' \<and>
      (history_log s' = history_log s \<or>
       st_revision s = durable_head s \<and> env_fault env ''after_commit'' = Some e \<and>
         history_log s' = history_log s @ map (Pair (Suc (st_revision s))) d)"
proof -
  note rep = store_invD(1) [OF inv] and L = store_inv_log [OF inv]
  have sj: "st_journal s = Some j"
    using app representsD(5) [OF rep] by (auto simp: append_to_journal_def split: option.splits)
  consider "s' = s"
    | "st_revision s = head_of j" "env_fault env ''after_commit'' = Some e" "s' = s\<lparr>st_journal := Some (appended j d)\<rparr>"
    | m j' where "e = Conflict m" "represents sha s' j'" "st_revision s' = head_of j'"
      "j_versions j' = j_versions j \<or> st_revision s = head_of j \<and>
         env_fault env ''after_commit'' = Some (Conflict m) \<and> j_versions j' = j_versions (appended j d)"
    using append_to_journal_cases [OF rep sj sha rows app] by auto
  then show ?thesis
  proof cases
    case 2
    then show ?thesis using sj L by (simp add: history_log_def appended_versions)
  next
    case 3
    then show ?thesis using represents_history [OF 3(2)] L by (auto simp: appended_versions)
  qed simp
qed

text \<open>
  C1: A commit is all or nothing, in the published graph and in the history. It either returns the
  current revision and leaves the store as it was; or returns the next revision, the published
  graph being the old one with exactly the planned rows put into it and the history longer by
  exactly these rows; or fails. A failure leaves the store, journal included, exactly as it was;
  unless the failure is the fault raised after the durable append, when the journal alone has
  moved, by exactly the planned rows at the next revision (C4 shows the next commit adopt them); or
  it is a conflict, when the store publishes the head of its journal, whose rows are those it had,
  or, where the conflict is itself the late fault, those and the planned ones. No failure leaves a
  part of a commit anywhere.
\<close>

theorem commit_is_atomic:
  assumes "reachable sha shake s" "\<And>x. length (sha x) = 32"
    and run: "commit (hashed sha shake env) expected create replace (c, s) = ((c', s'), res)"
  shows "case res of
      Inr r \<Rightarrow> r = st_revision s \<and> s' = s \<or>
        r = Suc (st_revision s) \<and> st_revision s' = r \<and>
          (\<exists>rows. planned (hashed sha shake env) s expected create replace rows \<and>
             st_cells s' = put_cells rows (st_cells s) \<and> history_log s' = history_log s @ map (Pair r) rows)
    | Inl e \<Rightarrow> s' = s \<or>
        (\<exists>rows. planned (hashed sha shake env) s expected create replace rows \<and>
           st_revision s = durable_head s \<and> env_fault env ''after_commit'' = Some e \<and>
           s' = s\<lparr>st_journal := map_option (\<lambda>j. appended j rows) (st_journal s)\<rparr> \<and>
           history_log s' = history_log s @ map (Pair (Suc (st_revision s))) rows) \<or>
        (\<exists>m. e = Conflict m) \<and> st_revision s' = durable_head s' \<and> st_cells s' = graph_at s' (durable_head s') \<and>
          (history_log s' = history_log s \<or>
           env_fault env ''after_commit'' = Some e \<and>
             (\<exists>rows. planned (hashed sha shake env) s expected create replace rows \<and>
                history_log s' = history_log s @ map (Pair (Suc (st_revision s))) rows))"
proof -
  let ?env = "hashed sha shake env"
  obtain j where j: "store_inv sha shake s j" "history_log s = j_versions j" "durable_head s = head_of j"
    using reachable_log [OF assms(1,2)] by blast
  note rep = store_invD(1) [OF j(1)]
  obtain j' where j': "store_inv sha shake s' j'" and out: "case res of
       Inr r \<Rightarrow> unchanged s j s' j' \<and> r = st_revision s \<or>
         (\<exists>cr rs ch. expected = st_revision s \<and> transformed ?env s create replace = Inr (cr, rs) \<and>
            commit_plan (st_cells s) cr rs = Inr ch \<and> published s j (cr @ ch) s' j' \<and>
            r = Suc (st_revision s))
     | Inl e \<Rightarrow> True"
    using commit_inv [OF j(1) _ _ assms(2) run] by (cases res) auto
  note L = store_inv_log [OF j'] and D = representsD(4) [OF store_invD(1) [OF j']]
  show ?thesis
  proof (cases res)
    case (Inr r)
    with out consider "s' = s" "r = st_revision s"
      | d where "planned ?env s expected create replace d" "published s j d s' j'" "r = Suc (st_revision s)"
      by (fastforce simp: unchanged_def planned_def)
    then show ?thesis
    proof cases
      case 2
      then show ?thesis unfolding Inr using L(1) j(2) by (auto simp: published_def)
    qed (simp add: Inr)
  next
    case (Inl e)
    show ?thesis
    proof (cases "s' = s")
      case False
      with commit_failure [OF run [unfolded Inl]] obtain cr ch rs where p: "planned ?env s expected create replace (cr @ ch)"
        "cr @ ch \<noteq> []" "commit_plan (st_cells s) cr rs = Inr ch" "links_resolve (st_cells s) (cr @ ch)"
        and app: "append_to_journal ?env (st_revision s) (cr @ ch) s = (s', Inl e) \<or>
          (\<exists>s1 decl. append_to_journal ?env (st_revision s) (cr @ ch) s = (s1, Inr ()) \<and>
             publish ?env decl cr ch s1 = (s', Inl e))"
        unfolding broke_off_def by blast
      note rows = commit_plan_rows [OF represents_graph_ok [OF rep] p(3,4,2)]
      have pub: "publish ?env decl cr ch s1 \<noteq> (s', Inl e)"
        if "append_to_journal ?env (st_revision s) (cr @ ch) s = (s1, Inr ())" for s1 decl
        using publish_after_append [OF rep hashed_simps(1) assms(2) rows that, of decl] by auto
      have "append_to_journal ?env (st_revision s) (cr @ ch) s = (s', Inl e)"
        using app by (elim disjE exE conjE) (auto dest!: pub)
      from failed_append [OF j(1) hashed_simps(1) assms(2) rows this] False
      have "st_revision s = durable_head s \<and> env_fault env ''after_commit'' = Some e \<and>
          s' = s\<lparr>st_journal := map_option (\<lambda>j. appended j (cr @ ch)) (st_journal s)\<rparr> \<and>
          history_log s' = history_log s @ map (Pair (Suc (st_revision s))) (cr @ ch) \<or>
        (\<exists>m. e = Conflict m) \<and> st_revision s' = durable_head s' \<and>
          (history_log s' = history_log s \<or> env_fault env ''after_commit'' = Some e \<and>
             history_log s' = history_log s @ map (Pair (Suc (st_revision s))) (cr @ ch))"
        unfolding hashed_simps(3) by blast
      with p(1) D L Inl show ?thesis by auto
    qed (simp add: Inl)
  qed
qed

lemma new_durable_store:
  fixes sha shake :: "bytes \<Rightarrow> bytes"
  assumes sha: "\<And>x. length (sha x) = 32"
  shows "\<not> st_closed (new_store sha True)" "st_stable_depth (new_store sha True) = 0"
    "\<not> st_gated (new_store sha True)" "st_journal (new_store sha True) \<noteq> None"
    "st_cells (new_store sha True) = genesis" "st_revision (new_store sha True) = 0"
    "durable_head (new_store sha True) = 0"
proof -
  have "\<exists>j lh. open_store sha empty_tables = (j, Inr (head_state lh (blank_store\<lparr>st_journal := Some j\<rparr>)))"
    using represents_head_state [OF journal_ok_open_empty, where sha = sha] sha
    by (fastforce simp: open_store_def journal_open_def empty_tables_def checkpoints_ok_def)
  then show "\<not> st_closed (new_store sha True)" "st_stable_depth (new_store sha True) = 0"
    "\<not> st_gated (new_store sha True)" "st_journal (new_store sha True) \<noteq> None"
    by (auto simp: new_store_def head_state_def blank_store_def)
  obtain j where j: "store_inv sha sha (new_store sha True) j" "j_versions j = [(0, null_cell)]" "head_of j = 0"
    using new_store_inv [where sha = sha and shake = sha and durable = True] sha by blast
  note D = representsD [OF store_invD(1) [OF j(1)]]
  show rev: "st_revision (new_store sha True) = 0" using D(3) j(3) by simp
  have "state_at [(0, null_cell)] 0 = genesis" by (rule ext) (auto simp: state_at_def genesis_def)
  with D(4) rev j(2) show "st_cells (new_store sha True) = genesis" by simp
  show "durable_head (new_store sha True) = 0" using store_inv_log(2) [OF j(1)] j(3) by simp
qed

text \<open>A small commit: one new Cell, linked to the null Cell.\<close>

definition plain_env :: commit_env where
  "plain_env = \<lparr>env_sha = fixed_sha, env_shake = fixed_sha, env_fault = (\<lambda>p. None), env_physical = None,
     env_guard = None, env_transform = None, env_listener = (\<lambda>l ev. None)\<rparr>"

definition one_cell :: cell where
  "one_cell = Cell ''a'' NULL_CELL_ID NULL_CELL_ID ''x''"

lemma one_cell_commits:
  "snd (commit (hashed fixed_sha fixed_sha plain_env) 0 [one_cell] [] (idle_ctx, open_memory)) = Inr 1"
  by (simp add: commit_def Let_def open_memory_def blank_store_def plain_env_def idle_ctx_def transformed_def
      commit_plan_def one_cell_def validate_cell_def genesis_def NULL_CELL_ID_def refusal_def
      current_declaration_def links_resolve_def outcome_def append_to_journal_def publish_def next_accumulator_def
      record_history_def require_def)

text \<open>A commit without guard, transform, physical write or journal fault on a live store at its head.\<close>

definition plain :: "commit_env \<Rightarrow> bool" where
  "plain env \<longleftrightarrow> env_fault env = (\<lambda>p. None) \<and> env_physical env = None \<and> env_guard env = None \<and>
     env_transform env = None"

text \<open>An environment that neither injects a journal fault nor brings a physical write.\<close>

definition undisturbed :: "commit_env \<Rightarrow> bool" where
  "undisturbed env \<longleftrightarrow> env_fault env = (\<lambda>p. None) \<and> env_physical env = None"

lemma plain_undisturbed: "plain env \<Longrightarrow> undisturbed env"
  by (simp add: plain_def undisturbed_def)

definition ready :: "store \<Rightarrow> bool" where
  "ready s \<longleftrightarrow> \<not> st_closed s \<and> st_stable_depth s = 0 \<and> durable_head s = st_revision s"

definition admitted :: "store \<Rightarrow> ctx \<Rightarrow> cell list \<Rightarrow> cell list \<Rightarrow> bool" where
  "admitted s c create replace \<longleftrightarrow>
     (\<forall>x \<in> set create. cid x \<noteq> [] \<and> st_cells s (cid x) = None) \<and>
     (\<forall>x \<in> set replace. cid x \<noteq> [] \<and> cid x \<noteq> NULL_CELL_ID \<and> st_cells s (cid x) \<noteq> None) \<and>
     distinct (map cid (create @ replace)) \<and> create @ replace \<noteq> [] \<and>
     (create @ changes_of (st_cells s) replace = [] \<or>
        snd (refusal (st_gated s) c) = None \<and> links_resolve (st_cells s) (create @ changes_of (st_cells s) replace))"

lemma append_undisturbed:
  assumes inv: "store_inv sha shake s j" and "undisturbed env" "ready s" "distinct (map cid d)"
  shows "\<exists>s'. append_to_journal env (st_revision s) d s = (s', Inr ())"
proof (cases "st_journal s")
  case None
  then show ?thesis by (simp add: append_to_journal_def)
next
  case (Some j0)
  with representsD(5) [OF store_invD(1) [OF inv]] have sj: "st_journal s = Some j" by simp
  then have "st_revision s = head_of j" using assms(3) by (simp add: ready_def durable_head_def)
  with assms(2) sj journal_append_cases [OF representsD(1) [OF store_invD(1) [OF inv]] assms(4)] show ?thesis
    by (simp add: append_to_journal_def undisturbed_def outcome_def)
qed

text \<open>From the durable append on: the course of an admitted commit that changes something.\<close>

lemma admitted_commit:
  assumes inv: "store_inv sha shake s j" and env: "plain (env\<lparr>env_fault := \<lambda>p. None\<rparr>)"
    and live: "\<not> st_closed s" "st_stable_depth s = 0"
    and adm: "admitted s c create replace" and d: "d = create @ changes_of (st_cells s) replace" "d \<noteq> []"
  shows "commit_rows_ok (st_cells s) d"
    "commit (hashed sha shake env) (st_revision s) create replace (c, s) =
      (case append_to_journal (hashed sha shake env) (st_revision s) d s of
         (s', Inl e) \<Rightarrow> ((fst (refusal (st_gated s) c), s'), Inl e)
       | (s', Inr _) \<Rightarrow>
           (let (s'', res) = publish (hashed sha shake env) (current_declaration (fst (refusal (st_gated s) c)))
                  create (changes_of (st_cells s) replace) s'
            in ((fst (refusal (st_gated s) c), s''), res)))"
proof -
  have plan: "commit_plan (st_cells s) create replace = Inr (changes_of (st_cells s) replace)"
    using adm by (simp add: commit_plan_Inr admitted_def)
  have ref: "snd (refusal (st_gated s) c) = None" "links_resolve (st_cells s) d"
    using adm d by (auto simp: admitted_def)
  show "commit_rows_ok (st_cells s) d"
    using commit_plan_rows [OF represents_graph_ok [OF store_invD(1) [OF inv]] plan] ref(2) d by simp
  have "transformed (hashed sha shake env) s create replace = Inr (create, replace)"
    "env_physical (hashed sha shake env) = None" "outcome (env_guard (hashed sha shake env)) = Inr ()"
    using env by (simp_all add: transformed_def plain_def outcome_def)
  with plan ref live d show "commit (hashed sha shake env) (st_revision s) create replace (c, s) =
      (case append_to_journal (hashed sha shake env) (st_revision s) d s of
         (s', Inl e) \<Rightarrow> ((fst (refusal (st_gated s) c), s'), Inl e)
       | (s', Inr _) \<Rightarrow>
           (let (s'', res) = publish (hashed sha shake env) (current_declaration (fst (refusal (st_gated s) c)))
                  create (changes_of (st_cells s) replace) s'
            in ((fst (refusal (st_gated s) c), s''), res)))"
    by (cases "refusal (st_gated s) c") (auto simp: commit_def)
qed

lemma plain_commit:
  assumes inv: "store_inv sha shake s j" and sha: "\<And>x. length (sha x) = 32" and env: "plain env" and s: "ready s"
  shows "(case snd (commit (hashed sha shake env) (st_revision s) create replace (c, s)) of
      Inl e \<Rightarrow> \<not> admitted s c create replace
    | Inr r \<Rightarrow> admitted s c create replace \<and>
        r = (if create @ changes_of (st_cells s) replace = [] then st_revision s else Suc (st_revision s))) \<and>
    (\<not> (admitted s c create replace \<and> create @ changes_of (st_cells s) replace \<noteq> []) \<longrightarrow>
       snd (fst (commit (hashed sha shake env) (st_revision s) create replace (c, s))) = s)"
proof -
  let ?env = "hashed sha shake env" and ?ch = "changes_of (st_cells s) replace"
  have e: "env_physical ?env = None" "transformed ?env s create replace = Inr (create, replace)" "plain ?env"
    "plain (env\<lparr>env_fault := \<lambda>p. None\<rparr>)" and s': "\<not> st_closed s" "st_stable_depth s = 0"
    using env s by (simp_all add: transformed_def plain_def ready_def)
  show ?thesis
  proof (cases "admitted s c create replace \<and> create @ ?ch \<noteq> []")
    case True
    note A = admitted_commit [OF inv e(4) s' conjunct1 [OF True] refl conjunct2 [OF True]]
    then have "distinct (map cid (create @ ?ch))" by (simp add: commit_rows_ok_def)
    from append_undisturbed [OF inv plain_undisturbed [OF e(3)] s this] obtain s1 where
      app: "append_to_journal ?env (st_revision s) (create @ ?ch) s = (s1, Inr ())" by blast
    obtain s2 where "publish ?env (current_declaration (fst (refusal (st_gated s) c))) create ?ch s1 =
        (s2, Inr (Suc (st_revision s)))"
      using publish_after_append [OF store_invD(1) [OF inv] hashed_simps(1) sha A(1) app] by blast
    with True app show ?thesis unfolding A(2) by simp
  next
    case False
    show ?thesis
    proof (cases "commit_plan (st_cells s) create replace")
      case (Inl err)
      then have "\<not> admitted s c create replace"
        using commit_plan_Inr [of "st_cells s" create replace ?ch] by (auto simp: admitted_def)
      with Inl e s' show ?thesis by (simp add: commit_def)
    next
      case (Inr ch)
      note plan = Inr [unfolded commit_plan_Inr]
      then have ch: "ch = ?ch" by blast
      have "admitted s c create replace \<longleftrightarrow> create @ ?ch = [] \<or>
          snd (refusal (st_gated s) c) = None \<and> links_resolve (st_cells s) (create @ ?ch)"
        using plan by (auto simp: admitted_def)
      with False Inr e s' ch show ?thesis
        by (cases "refusal (st_gated s) c") (auto simp: commit_def split: option.splits)
    qed
  qed
qed

text \<open>C1 on two commits: one that is published, and one whose append is rolled back.\<close>

definition rolled_back :: commit_env where
  "rolled_back = plain_env\<lparr>env_fault := \<lambda>p. if p = ''before_commit'' then Some (Injected ''power'') else None\<rparr>"

lemma rolled_back_fails:
  "snd (commit (hashed fixed_sha fixed_sha rolled_back) 0 [one_cell] [] (idle_ctx, new_store fixed_sha True)) =
     Inl (Injected ''power'')"
proof -
  let ?s = "new_store fixed_sha True" and ?env = "hashed fixed_sha fixed_sha rolled_back"
  note N = new_durable_store [of fixed_sha, OF fixed_sha_length]
  obtain j where inv: "store_inv fixed_sha fixed_sha ?s j"
    using new_store_inv [where sha = fixed_sha and shake = fixed_sha and durable = True] fixed_sha_length by blast
  note D = representsD [OF store_invD(1) [OF inv]]
  have sj: "st_journal ?s = Some j" using D(5) N(4) by auto
  have head: "head_of j = 0" using N(7) store_inv_log(2) [OF inv] by simp
  have adm: "admitted ?s idle_ctx [one_cell] []" "[one_cell] @ changes_of (st_cells ?s) [] \<noteq> []"
    using N by (simp_all add: admitted_def one_cell_def genesis_def NULL_CELL_ID_def refusal_def idle_ctx_def
        links_resolve_def changes_of_def)
  have env: "plain (rolled_back\<lparr>env_fault := \<lambda>p. None\<rparr>)" by (simp add: plain_def plain_env_def rolled_back_def)
  note A = admitted_commit [OF inv env N(1,2) adm(1) refl adm(2)]
  have "append_to_journal ?env 0 [one_cell] ?s = (?s\<lparr>st_journal := Some j\<rparr>, Inl (Injected ''power''))"
    using sj head N(6) journal_append_cases [OF D(1), where cs = "[one_cell]" and expected = 0 and
        fault = "env_fault rolled_back" and phys = "Inr ()"]
    by (simp add: append_to_journal_def rolled_back_def plain_env_def outcome_def)
  with A(2) N(6) show ?thesis by (simp add: changes_of_def)
qed

theorem commit_is_atomic_witness:
  "(\<exists>c' s'. commit (hashed fixed_sha fixed_sha plain_env) 0 [one_cell] [] (idle_ctx, open_memory) = ((c', s'), Inr 1) \<and>
      st_revision s' = 1 \<and> history_log s' = history_log open_memory @ [(1, one_cell)]) \<and>
   snd (fst (commit (hashed fixed_sha fixed_sha rolled_back) 0 [one_cell] [] (idle_ctx, new_store fixed_sha True))) =
     new_store fixed_sha True"
proof
  obtain c' s' where run: "commit (hashed fixed_sha fixed_sha plain_env) 0 [one_cell] [] (idle_ctx, open_memory) =
      ((c', s'), Inr 1)"
    using one_cell_commits by (metis surj_pair snd_conv)
  have "st_revision open_memory = 0" "commit_plan (st_cells open_memory) [one_cell] [] = Inr []"
    "transformed (hashed fixed_sha fixed_sha plain_env) open_memory [one_cell] [] = Inr ([one_cell], [])"
    by (simp_all add: open_memory_def blank_store_def commit_plan_def one_cell_def validate_cell_def genesis_def
        NULL_CELL_ID_def transformed_def plain_env_def require_def)
  with commit_is_atomic [where sha = fixed_sha, OF reachable_memory fixed_sha_length run] run
  show "\<exists>c' s'. commit (hashed fixed_sha fixed_sha plain_env) 0 [one_cell] [] (idle_ctx, open_memory) =
      ((c', s'), Inr 1) \<and> st_revision s' = 1 \<and> history_log s' = history_log open_memory @ [(1, one_cell)]"
    by (auto simp: planned_def)
next
  let ?s = "new_store fixed_sha True"
  obtain c' s' where run: "commit (hashed fixed_sha fixed_sha rolled_back) 0 [one_cell] [] (idle_ctx, ?s) =
      ((c', s'), Inl (Injected ''power''))"
    using rolled_back_fails by (metis surj_pair snd_conv)
  from commit_is_atomic [where sha = fixed_sha, OF reachable_new fixed_sha_length run]
  show "snd (fst (commit (hashed fixed_sha fixed_sha rolled_back) 0 [one_cell] [] (idle_ctx, ?s))) = ?s"
    unfolding run by (auto simp: rolled_back_def plain_env_def)
qed

text \<open>
  C3: What a commit admits, exactly. On a live store at its head, with no injected fault, guard or
  transform, a commit against the current revision succeeds if and only if: every created Cell is
  new, every replaced one exists and is not the null Cell, no identity is named twice or empty, the
  commit is not empty, and, unless nothing changes, the intent gate does not refuse and every
  link of a written Cell resolves. It then returns the next revision, or the current one when
  nothing changes.
\<close>

theorem commit_admits_exactly:
  assumes "reachable sha shake s" "\<And>x. length (sha x) = 32" "plain env" "ready s"
  shows "snd (commit (hashed sha shake env) (st_revision s) create replace (c, s)) = Inr r \<longleftrightarrow>
      admitted s c create replace \<and>
      r = (if create @ changes_of (st_cells s) replace = [] then st_revision s else Suc (st_revision s))"
proof -
  obtain j where "store_inv sha shake s j" using reachable_inv [OF assms(1,2)] by blast
  from plain_commit [OF this assms(2-4), where create = create and replace = replace and c = c]
  show ?thesis by (auto split: sum.splits)
qed

theorem commit_admits_exactly_witness:
  "admitted open_memory idle_ctx [one_cell] []"
proof -
  have "plain plain_env" "ready open_memory" "st_revision open_memory = 0"
    by (simp_all add: plain_def plain_env_def ready_def durable_head_def open_memory_def blank_store_def)
  with commit_admits_exactly [where sha = fixed_sha and shake = fixed_sha and r = 1,
      OF reachable_memory fixed_sha_length] one_cell_commits
  show ?thesis by auto
qed

text \<open>
  A refused commit changes nothing. When the gate refuses, be the store gated without a
  declaration in effect or the path operational, the commit either was a no-op or fails, and the
  store and its history are exactly as before.
\<close>

theorem refused_commit_changes_nothing:
  assumes "snd (refusal (st_gated s) c) = Some msg"
    and "commit env expected create replace (c, s) = ((c', s'), res)"
  shows "s' = s \<and> (res = Inr (st_revision s) \<or> (\<exists>e. res = Inl e))"
proof -
  obtain c1 where "refusal (st_gated s) c = (c1, Some msg)" using assms(1) by (metis surj_pair snd_conv)
  with assms(2) show ?thesis
    unfolding commit_def Let_def by (auto split: if_splits sum.splits)
qed

theorem refused_commit_changes_nothing_witness:
  "snd (fst (commit plain_env 0 [one_cell] [] (idle_ctx, require_declared_intent open_memory))) =
     require_declared_intent open_memory"
proof -
  obtain c' s' res where run: "commit plain_env 0 [one_cell] [] (idle_ctx, require_declared_intent open_memory) =
      ((c', s'), res)" by (metis surj_pair)
  have "snd (refusal (st_gated (require_declared_intent open_memory)) idle_ctx) = Some undeclared_refusal"
    by (simp add: require_declared_intent_def refusal_def idle_ctx_def current_declaration_def)
  from refused_commit_changes_nothing [OF this run] run show ?thesis by simp
qed

text \<open>
  C4: Recovery from a fault after the durable commit. If the journal took the rows and the fault
  was raised before they were published, the store still publishes its old graph; the next commit
  against that revision conflicts, and by then the store has adopted exactly the graph the lost
  commit wrote, at the next revision: nothing is lost and nothing is written twice.
\<close>

theorem lost_commit_is_adopted:
  assumes "reachable sha shake s" "\<And>x. length (sha x) = 32"
    and s: "ready s" "st_journal s \<noteq> None" and env: "plain env" "plain (env'\<lparr>env_fault := \<lambda>p. None\<rparr>)"
    and fault: "env_fault env' = (\<lambda>p. if p = ''after_commit'' then Some e else None)" "\<And>m. e \<noteq> Conflict m"
    and adm: "admitted s c create replace" "create @ changes_of (st_cells s) replace \<noteq> []"
    and first: "commit (hashed sha shake env') (st_revision s) create replace (c, s) = ((c1, s1), r1)"
    and adm0: "admitted s d create' replace'" "create' @ changes_of (st_cells s) replace' \<noteq> []"
    and second: "commit (hashed sha shake env) (st_revision s1) create' replace' (d, s1) = ((c2, s2), r2)"
  shows "r1 = Inl e \<and> st_cells s1 = st_cells s \<and> st_revision s1 = st_revision s \<and> (\<exists>m. r2 = Inl (Conflict m)) \<and>
    st_revision s2 = Suc (st_revision s) \<and>
    st_cells s2 = put_cells (create @ changes_of (st_cells s) replace) (st_cells s)"
proof -
  let ?d = "create @ changes_of (st_cells s) replace" and ?d' = "create' @ changes_of (st_cells s1) replace'"
  obtain j where inv: "store_inv sha shake s j" using reachable_inv [OF assms(1,2)] by blast
  note rep = store_invD(1) [OF inv] and D = representsD [OF store_invD(1) [OF inv]]
  from s(2) D(5) have sj: "st_journal s = Some j" by auto
  have live: "\<not> st_closed s" "st_stable_depth s = 0" and head: "st_revision s = head_of j"
    using s(1) sj by (simp_all add: ready_def durable_head_def)
  note A = admitted_commit [OF inv env(2) live adm(1) refl adm(2)]
  have dist: "distinct (map cid ?d)" using A(1) by (simp add: commit_rows_ok_def)
  have "journal_append (env_fault env') (outcome (env_physical env')) j (st_revision s) (Suc (st_revision s)) ?d =
      (appended j ?d, Inl e)"
    using env(2) unfolding journal_append_cases [OF D(1) dist] by (simp add: head fault plain_def outcome_def)
  then have "append_to_journal (hashed sha shake env') (st_revision s) ?d s =
      (s\<lparr>st_journal := Some (appended j ?d)\<rparr>, Inl e)"
    using sj fault(2) by (simp add: append_to_journal_def split: kernel_error.split)
  with first A(2) have s1: "s1 = s\<lparr>st_journal := Some (appended j ?d)\<rparr>" and r1: "r1 = Inl e" by auto
  obtain j1 where "store_inv sha shake s1 j1" using commit_inv [OF inv _ _ assms(2) first] by auto
  moreover from this representsD(5) [OF store_invD(1)] have "j1 = appended j ?d" using s1 by fastforce
  ultimately have inv1: "store_inv sha shake s1 (appended j ?d)" by simp
  note D1 = representsD [OF store_invD(1) [OF inv1]]
  have env1: "plain (env\<lparr>env_fault := \<lambda>p. None\<rparr>)" and live1: "\<not> st_closed s1" "st_stable_depth s1 = 0"
    using env(1) live s1 by (simp_all add: plain_def)
  have adm': "admitted s1 d create' replace'" "?d' \<noteq> []"
    using adm0 s1 by (simp_all add: admitted_def)
  note B = admitted_commit [OF inv1 env1 live1 adm'(1) refl adm'(2)]
  have dist1: "distinct (map cid ?d')" using B(1) by (simp add: commit_rows_ok_def)
  have conflict: "journal_append (env_fault env) (outcome (env_physical env)) (appended j ?d) (st_revision s1)
      (Suc (st_revision s1)) ?d' = (appended j ?d, Inl (Conflict ''durable revision''))"
    unfolding journal_append_cases [OF D1(1) dist1] using s1 head D(1) by simp
  obtain t j2 where t: "reload sha (appended j ?d) s1 = (t, Inr ())" "represents sha t j2"
    "st_revision t = head_of (appended j ?d)" "j_versions j2 = j_versions (appended j ?d)"
    using reload_ok [OF D1(1,2) assms(2) D1(3)] by blast
  have "append_to_journal (hashed sha shake env) (st_revision s1) ?d' s1 = (t, Inl (Conflict ''durable revision''))"
    using conflict t(1) s1 by (simp add: append_to_journal_def)
  with second B(2) have "s2 = t" "r2 = Inl (Conflict ''durable revision'')" by auto
  moreover have "st_cells t = put_cells ?d (st_cells s)"
    using representsD(4) [OF t(2)] t(3,4) appended_new_state [OF D(1) dist] D(1,4) head by simp
  ultimately show ?thesis using r1 s1 t(3) D(1) head by auto
qed

theorem lost_commit_is_adopted_witness:
  "let s = new_store fixed_sha True; crash = Inl (Injected ''power'')
   in \<exists>c1 s1 c2 s2 m.
     commit (hashed fixed_sha fixed_sha (plain_env\<lparr>env_fault := \<lambda>p. if p = ''after_commit'' then Some (Injected ''power'') else None\<rparr>))
       0 [one_cell] [] (idle_ctx, s) = ((c1, s1), crash) \<and>
     commit (hashed fixed_sha fixed_sha plain_env) 0 [one_cell] [] (idle_ctx, s1) = ((c2, s2), Inl (Conflict m)) \<and>
     st_cells s2 = genesis(''a'' \<mapsto> one_cell)"
proof -
  let ?s = "new_store fixed_sha True"
  let ?env = "plain_env\<lparr>env_fault := \<lambda>p. if p = ''after_commit'' then Some (Injected ''power'') else None\<rparr>"
  note N = new_durable_store [of fixed_sha, OF fixed_sha_length]
  have N': "st_cells ?s = genesis" "st_revision ?s = 0" "ready ?s"
    using N by (simp_all add: ready_def)
  have adm: "admitted ?s idle_ctx [one_cell] []" "[one_cell] @ changes_of (st_cells ?s) [] \<noteq> []"
    using N by (simp_all add: admitted_def one_cell_def genesis_def NULL_CELL_ID_def refusal_def idle_ctx_def
        links_resolve_def changes_of_def)
  obtain c1 s1 r1 where first: "commit (hashed fixed_sha fixed_sha ?env) (st_revision ?s) [one_cell] [] (idle_ctx, ?s) =
      ((c1, s1), r1)" by (metis surj_pair)
  obtain c2 s2 r2 where second: "commit (hashed fixed_sha fixed_sha plain_env) (st_revision s1) [one_cell] [] (idle_ctx, s1) =
      ((c2, s2), r2)" by (metis surj_pair)
  have env: "plain plain_env" "plain (?env\<lparr>env_fault := \<lambda>p. None\<rparr>)"
    "env_fault ?env = (\<lambda>p. if p = ''after_commit'' then Some (Injected ''power'') else None)"
    by (simp_all add: plain_def plain_env_def)
  have "r1 = Inl (Injected ''power'') \<and> st_cells s1 = st_cells ?s \<and> st_revision s1 = st_revision ?s \<and>
      (\<exists>m. r2 = Inl (Conflict m)) \<and> st_revision s2 = Suc (st_revision ?s) \<and>
      st_cells s2 = put_cells ([one_cell] @ changes_of (st_cells ?s) []) (st_cells ?s)"
    by (rule lost_commit_is_adopted [OF reachable_new fixed_sha_length N'(3) N(4) env _ adm first adm second]) simp
  then obtain m where m: "r1 = Inl (Injected ''power'')" "r2 = Inl (Conflict m)" "st_revision s1 = 0"
    "st_cells s2 = genesis(''a'' \<mapsto> one_cell)"
    using N'(1,2) by (auto simp: changes_of_def one_cell_def)
  show ?thesis
    using first second m N'(2) unfolding Let_def
    by (intro exI [of _ c1] exI [of _ s1] exI [of _ c2] exI [of _ s2] exI [of _ m]) simp
qed

section \<open>Listeners\<close>

lemma notify_last_hundred:
  assumes "length fs \<le> 100"
  shows "notify f ev ls fs = (let texts = fs @ List.map_filter (\<lambda>l. f l ev) ls in drop (length texts - 100) texts)"
  using assms
proof (induction f ev ls fs rule: notify.induct)
  case (2 f ev l ls fs)
  show ?case
  proof (cases "f l ev")
    case None
    with 2 show ?thesis by (simp add: map_filter_simps)
  next
    case (Some t)
    let ?fs = "drop (Suc (length fs) - 100) (fs @ [t])" and ?more = "List.map_filter (\<lambda>l. f l ev) ls"
    have "length ?fs \<le> 100" by simp
    from 2(2) [OF Some this] Some
    have "notify f ev (l # ls) fs = drop (length (?fs @ ?more) - 100) (?fs @ ?more)" by (simp add: Let_def)
    also have "\<dots> = drop (length (fs @ t # ?more) - 100) (fs @ t # ?more)"
    proof (cases "Suc (length fs) \<le> 100")
      case False
      with \<open>length fs \<le> 100\<close> have "length fs = 100" by simp
      then show ?thesis by (cases fs) simp_all
    qed simp
    finally show ?thesis using Some by (simp add: map_filter_simps Let_def)
  qed
qed (simp add: map_filter_simps)

lemma with_listener:
  "env_sha (env\<lparr>env_listener := f\<rparr>) = env_sha env" "env_shake (env\<lparr>env_listener := f\<rparr>) = env_shake env"
  "env_fault (env\<lparr>env_listener := f\<rparr>) = env_fault env" "env_physical (env\<lparr>env_listener := f\<rparr>) = env_physical env"
  "env_guard (env\<lparr>env_listener := f\<rparr>) = env_guard env" "env_transform (env\<lparr>env_listener := f\<rparr>) = env_transform env"
  by simp_all

lemma append_to_journal_listener:
  "append_to_journal (env\<lparr>env_listener := f\<rparr>) n d s = append_to_journal env n d s"
  unfolding append_to_journal_def with_listener by (rule refl)

lemma transformed_listener: "transformed (env\<lparr>env_listener := f\<rparr>) s cr rp = transformed env s cr rp"
  unfolding transformed_def with_listener by (rule refl)

lemma same_failures: "s = s\<lparr>st_failures := st_failures s\<rparr>" for s :: store
  by simp

lemma publish_listener:
  assumes "publish (env\<lparr>env_listener := f\<rparr>) decl cr ch s = (s1, r1)"
  shows "\<exists>fs. publish (env\<lparr>env_listener := g\<rparr>) decl cr ch s = (s1\<lparr>st_failures := fs\<rparr>, r1)"
proof (cases "record_history (env_sha env) (Suc (st_revision s)) (cr @ ch)
    (moved (env\<lparr>env_listener := f\<rparr>) cr ch s)")
  case (Pair t r)
  have "moved (env\<lparr>env_listener := g\<rparr>) cr ch s = moved (env\<lparr>env_listener := f\<rparr>) cr ch s"
    by (simp add: moved_def)
  with Pair assms show ?thesis
    by (cases r) (auto simp: publish_eq Let_def intro: exI [of _ "st_failures s1"])
qed

text \<open>A commit up to its publication: what it returns early, or what it publishes.\<close>

definition until_publish ::
  "commit_env \<Rightarrow> nat \<Rightarrow> cell list \<Rightarrow> cell list \<Rightarrow> ctx \<times> store \<Rightarrow>
     ((ctx \<times> store) \<times> nat result) + (ctx \<times> cell list \<times> cell list \<times> store)" where
  "until_publish env expected create replace cs =
     (let (c, s) = cs in
      if env_physical env \<noteq> None \<and> st_journal s = None
      then Inl (cs, Inl (InvalidCell ''atomic physical writes require a local SQLite owner and callable''))
      else if st_closed s then Inl (cs, Inl (InvalidCell ''cannot commit to a closed store''))
      else if st_stable_depth s \<noteq> 0
      then Inl (cs, Inl (InvalidCell ''cannot commit during a stable snapshot''))
      else if expected \<noteq> st_revision s then Inl (cs, Inl (Conflict ''expected revision''))
      else (case transformed env s create replace of
        Inl e \<Rightarrow> Inl (cs, Inl e)
      | Inr (created, replaced) \<Rightarrow>
      (case commit_plan (st_cells s) created replaced of
        Inl e \<Rightarrow> Inl (cs, Inl e)
      | Inr changed \<Rightarrow>
      if created = [] \<and> changed = [] then Inl (cs, Inr (st_revision s))
      else
      (case refusal (st_gated s) c of
        (c', Some msg) \<Rightarrow> Inl ((c', s), Inl (CommitRefused msg))
      | (c', None) \<Rightarrow>
      if \<not> links_resolve (st_cells s) (created @ changed)
      then Inl ((c', s), Inl (InvalidCell ''cell contains a dangling physical link''))
      else
      (case outcome (env_guard env) of
        Inl e \<Rightarrow> Inl ((c', s), Inl e)
      | Inr _ \<Rightarrow>
      (case append_to_journal env expected (created @ changed) s of
        (s', Inl e) \<Rightarrow> Inl ((c', s'), Inl e)
      | (s', Inr _) \<Rightarrow> Inr (c', created, changed, s')))))))"

lemma commit_until_publish:
  "commit env n create replace cs = (case until_publish env n create replace cs of
     Inl out \<Rightarrow> out
   | Inr (c', cr, ch, s') \<Rightarrow> (let (s'', res) = publish env (current_declaration c') cr ch s' in ((c', s''), res)))"
  unfolding commit_def until_publish_def Let_def
  by (simp split: prod.split sum.split option.split if_split)

lemma until_publish_listener:
  "until_publish (env\<lparr>env_listener := f\<rparr>) n create replace cs = until_publish env n create replace cs"
  unfolding until_publish_def append_to_journal_listener transformed_listener with_listener by (rule refl)

lemma append_to_journal_failures:
  "append_to_journal env n d s = (s', r) \<Longrightarrow> st_failures s' = st_failures s"
  by (auto simp: append_to_journal_def reload_def adopt_journal_state_def head_state_def
      split: option.splits prod.splits sum.splits kernel_error.splits if_splits)

lemma until_publish_failures:
  assumes "until_publish env n create replace (c, s) = x"
  shows "case x of Inl ((c', s'), r) \<Rightarrow> st_failures s' = st_failures s
    | Inr (c', cr, ch, s') \<Rightarrow> st_failures s' = st_failures s"
  using assms unfolding until_publish_def Let_def
  by (auto split: if_splits sum.splits prod.splits option.splits dest: append_to_journal_failures)

lemma publish_failures:
  assumes "publish env decl cr ch s = (s', r)" "length (st_failures s) \<le> 100"
  shows "length (st_failures s') \<le> 100"
proof -
  obtain t q where t: "record_history (env_sha env) (Suc (st_revision s)) (cr @ ch) (moved env cr ch s) = (t, q)"
    by fastforce
  then have "st_failures t = st_failures s"
    by (auto simp: record_history_def split: option.splits sum.splits)
  with assms(2) have "length (notify f ev (st_listeners t) (st_failures t)) \<le> 100" for f ev
    by (simp add: notify_last_hundred Let_def)
  with assms t \<open>st_failures t = st_failures s\<close> show ?thesis
    by (auto simp: publish_eq Let_def split: sum.splits)
qed

text \<open>
  Listeners cannot break a commit. Whatever the listeners raise, the same commit has the same
  result and leaves the same store and context, apart from the recorded failures, of which a
  store never holds more than a hundred.
\<close>

theorem listeners_cannot_break_commits:
  assumes "commit (env\<lparr>env_listener := f\<rparr>) n create replace (c, s) = ((c1, s1), r1)"
    and "length (st_failures s) \<le> 100"
  shows "(\<exists>fs. commit (env\<lparr>env_listener := g\<rparr>) n create replace (c, s) = ((c1, s1\<lparr>st_failures := fs\<rparr>), r1)) \<and>
    length (st_failures s1) \<le> 100"
proof (cases "until_publish env n create replace (c, s)")
  case (Inl out)
  with assms until_publish_failures [OF Inl] show ?thesis
    unfolding commit_until_publish until_publish_listener by (auto intro: same_failures)
next
  case (Inr x)
  then obtain c' cr ch s' where x: "until_publish env n create replace (c, s) = Inr (c', cr, ch, s')"
    by (cases x) auto
  with assms have p: "publish (env\<lparr>env_listener := f\<rparr>) (current_declaration c') cr ch s' = (s1, r1)" "c1 = c'"
    unfolding commit_until_publish until_publish_listener by (auto split: prod.splits)
  from publish_listener [OF p(1), of g] obtain fs where
    "publish (env\<lparr>env_listener := g\<rparr>) (current_declaration c') cr ch s' = (s1\<lparr>st_failures := fs\<rparr>, r1)" by blast
  moreover have "length (st_failures s') \<le> 100" using until_publish_failures [OF x] assms(2) by simp
  ultimately show ?thesis
    using x p publish_failures [OF p(1)] unfolding commit_until_publish until_publish_listener by auto
qed

theorem listeners_cannot_break_commits_witness:
  "\<exists>c1 s1 fs. commit (plain_env\<lparr>env_listener := \<lambda>l ev. None\<rparr>) 0 [one_cell] [] (idle_ctx, open_memory) = ((c1, s1), Inr 1) \<and>
     commit (plain_env\<lparr>env_listener := \<lambda>l ev. Some ''broken''\<rparr>) 0 [one_cell] [] (idle_ctx, open_memory) =
       ((c1, s1\<lparr>st_failures := fs\<rparr>), Inr 1)"
proof -
  have "hashed fixed_sha fixed_sha plain_env = plain_env\<lparr>env_listener := \<lambda>l ev. None\<rparr>"
    by (simp add: hashed_def plain_env_def)
  then obtain c1 s1 where run: "commit (plain_env\<lparr>env_listener := \<lambda>l ev. None\<rparr>) 0 [one_cell] [] (idle_ctx, open_memory) =
      ((c1, s1), Inr 1)"
    using one_cell_commits by (metis surj_pair snd_conv)
  have "length (st_failures open_memory) \<le> 100" by (simp add: open_memory_def blank_store_def)
  from listeners_cannot_break_commits [OF run this] run show ?thesis by blast
qed

end
