(* ===== verification/CommitEffect.thy ===== *)
theory CommitEffect
  imports StoreProps
begin

text \<open>
  What a commit that returned has done, whatever faults were injected: its Cells are in the graph.
  The compositions above the kernel rest on \<open>commit_Inr\<close>.
\<close>

lemma commit_Inr_plan:
  assumes "commit env n cr rp (c, s) = ((c', s'), Inr r)" "env_transform env = None"
  shows "n = st_revision s \<and> (\<exists>ch. commit_plan (st_cells s) cr rp = Inr ch \<and>
    (cr = [] \<and> ch = [] \<and> s' = s \<and> r = st_revision s \<or>
     cr @ ch \<noteq> [] \<and> (\<exists>s1 decl. append_to_journal env n (cr @ ch) s = (s1, Inr ()) \<and> publish env decl cr ch s1 = (s', Inr r))))"
  using assms unfolding commit_def transformed_def Let_def
  by (auto split: if_splits sum.splits prod.splits option.splits)

lemma append_revision: "append_to_journal env n d s = (s1, Inr u) \<Longrightarrow> st_revision s1 = st_revision s"
  by (auto simp: append_to_journal_def split: option.splits prod.splits sum.splits kernel_error.splits)

lemma put_changes: "distinct (map cid (cr @ rp)) \<Longrightarrow> put_cells (cr @ changes_of m rp) m = put_cells (cr @ rp) m"
proof -
  assume d: "distinct (map cid (cr @ rp))"
  have skip: "put_cells (changes_of m rp) m' = put_cells rp m'"
    if "distinct (map cid rp)" "\<And>c. c \<in> set rp \<Longrightarrow> m' (cid c) = m (cid c)" for m'
    using that
  proof (induction rp arbitrary: m')
    case (Cons c rp)
    have off: "(m'(cid c \<mapsto> c)) (cid x) = m (cid x)" if "x \<in> set rp" for x
    proof -
      have "cid x \<noteq> cid c" using that Cons.prems(1) by (auto simp: image_iff)
      then show ?thesis using that Cons.prems(2) by simp
    qed
    show ?case
    proof (cases "m (cid c) = Some c")
      case True
      then have "(m'(cid c \<mapsto> c)) = m'" using Cons.prems(2) [of c] by auto
      with True Cons.IH [of m'] Cons.prems show ?thesis by (simp add: changes_of_def)
    next
      case False
      have eq: "put_cells (changes_of m rp) (m'(cid c \<mapsto> c)) = put_cells rp (m'(cid c \<mapsto> c))"
        by (rule Cons.IH) (use off Cons.prems(1) in auto)
      from False show ?thesis
        by (simp only: changes_of_def filter.simps put_cells.simps if_True simp_thms eq [unfolded changes_of_def])
    qed
  qed (simp add: changes_of_def)
  have "put_cells (changes_of m rp) (put_cells cr m) = put_cells rp (put_cells cr m)"
    using d by (intro skip) (auto intro!: put_cells_notin)
  then show ?thesis by (simp add: put_cells_append)
qed

text \<open>Whatever faults were injected, a commit that returned did what it was asked.\<close>

lemma commit_Inr:
  assumes inv: "store_inv sha shake s j" and sha: "\<And>x. length (sha x) = 32"
    and run: "commit (hashed sha shake env) n cr rp (c, s) = ((c', s'), Inr r)" and plain: "env_transform env = None"
  shows "st_cells s' = put_cells (cr @ rp) (st_cells s) \<and> r = st_revision s' \<and> distinct (map cid (cr @ rp)) \<and>
    cr @ rp \<noteq> [] \<and> n = st_revision s"
proof -
  obtain ch where n: "n = st_revision s" and plan: "commit_plan (st_cells s) cr rp = Inr ch"
    and out: "cr = [] \<and> ch = [] \<and> s' = s \<and> r = st_revision s \<or> cr @ ch \<noteq> [] \<and>
      (\<exists>s1 decl. append_to_journal (hashed sha shake env) n (cr @ ch) s = (s1, Inr ()) \<and>
         publish (hashed sha shake env) decl cr ch s1 = (s', Inr r))"
    using commit_Inr_plan [OF run] plain by auto
  note P = plan [unfolded commit_plan_Inr]
  from out show ?thesis
  proof
    assume same: "cr = [] \<and> ch = [] \<and> s' = s \<and> r = st_revision s"
    with put_changes [of cr rp "st_cells s"] P n show ?thesis by auto
  next
    assume "cr @ ch \<noteq> [] \<and> (\<exists>s1 decl. append_to_journal (hashed sha shake env) n (cr @ ch) s = (s1, Inr ()) \<and>
         publish (hashed sha shake env) decl cr ch s1 = (s', Inr r))"
    then obtain s1 decl where "append_to_journal (hashed sha shake env) n (cr @ ch) s = (s1, Inr ())"
      "publish (hashed sha shake env) decl cr ch s1 = (s', Inr r)" by blast
    then have up: "st_revision s' = Suc (st_revision s)" using publish_fields append_revision by metis
    obtain j' where "unchanged s j s' j' \<and> r = st_revision s \<or>
         (\<exists>cr' rs ch'. n = st_revision s \<and> transformed (hashed sha shake env) s cr rp = Inr (cr', rs) \<and>
            commit_plan (st_cells s) cr' rs = Inr ch' \<and> published s j (cr' @ ch') s' j' \<and> r = Suc (st_revision s))"
      using commit_inv [OF inv _ _ sha run] by auto
    with up plain plan have "st_cells s' = put_cells (cr @ ch) (st_cells s)" "r = st_revision s'"
      by (auto simp: unchanged_def published_def transformed_def)
    with put_changes [of cr rp "st_cells s"] P n show ?thesis by auto
  qed
qed

section \<open>Plain commits\<close>

lemma append_to_journal_flags:
  "append_to_journal env n d s = (s', r) \<Longrightarrow>
     st_closed s' = st_closed s \<and> st_stable_depth s' = st_stable_depth s \<and> st_gated s' = st_gated s"
  by (auto simp: append_to_journal_def reload_def adopt_journal_state_def head_state_def
      split: option.splits prod.splits sum.splits kernel_error.splits if_splits)

lemma publish_flags:
  assumes "publish env decl cr ch s = (s', r)"
  shows "st_closed s' = st_closed s \<and> st_stable_depth s' = st_stable_depth s \<and> st_gated s' = st_gated s"
proof -
  obtain t q where t: "record_history (env_sha env) (Suc (st_revision s)) (cr @ ch) (moved env cr ch s) = (t, q)"
    by fastforce
  then have "st_closed t = st_closed s \<and> st_stable_depth t = st_stable_depth s \<and> st_gated t = st_gated s"
    by (auto simp: record_history_def split: option.splits sum.splits)
  with assms t show ?thesis by (auto simp: publish_eq Let_def split: sum.splits)
qed

lemma commit_flags:
  assumes "commit env n create replace (c, s) = ((c', s'), r)"
  shows "st_closed s' = st_closed s \<and> st_stable_depth s' = st_stable_depth s \<and> st_gated s' = st_gated s"
proof -
  from commit_shape [OF assms] show ?thesis
  proof
    assume "attempted env create replace s s' r"
    then obtain cr ch s1 r1 decl where app: "append_to_journal env (st_revision s) (cr @ ch) s = (s1, r1)"
      "case r1 of Inl e \<Rightarrow> s' = s1 | Inr _ \<Rightarrow> publish env decl cr ch s1 = (s', r)"
      unfolding attempted_def by blast
    with append_to_journal_flags [OF app(1)] show ?thesis
      by (cases r1) (auto dest: publish_flags)
  qed simp
qed

text \<open>A plain commit of a ready store publishes its delta, or leaves the store as it was.\<close>

lemma plain_commit_effect:
  assumes inv: "store_inv sha shake s j" and sha: "\<And>x. length (sha x) = 32" and env: "plain env" and s: "ready s"
    and run: "commit (hashed sha shake env) n create replace (c, s) = ((c', s'), res)"
  shows "if n = st_revision s \<and> admitted s c create replace \<and> create @ changes_of (st_cells s) replace \<noteq> []
    then res = Inr (Suc (st_revision s)) \<and>
      (\<exists>j'. store_inv sha shake s' j' \<and> published s j (create @ changes_of (st_cells s) replace) s' j')
    else s' = s \<and> res = (if n = st_revision s \<and> admitted s c create replace then Inr n else res) \<and>
      ((\<exists>r. res = Inr r) \<longleftrightarrow> n = st_revision s \<and> admitted s c create replace)"
proof -
  let ?d = "create @ changes_of (st_cells s) replace"
  note P = plain_commit [OF inv sha env s, where create = create and replace = replace and c = c]
  show ?thesis
  proof (cases "n = st_revision s")
    case False
    with run s env show ?thesis by (auto simp: commit_def ready_def plain_def)
  next
    case True
    note P = P [unfolded True [symmetric] run]
    show ?thesis
    proof (cases "admitted s c create replace \<and> ?d \<noteq> []")
      case False
      with P True show ?thesis by (auto split: sum.splits)
    next
      case go: True
      with P have res: "res = Inr (Suc (st_revision s))" using True by (auto split: sum.splits)
      have plan: "commit_plan (st_cells s) create replace = Inr (changes_of (st_cells s) replace)"
        using go by (simp add: commit_plan_Inr admitted_def)
      have t: "transformed (hashed sha shake env) s create replace = Inr (create, replace)"
        using env by (simp add: transformed_def plain_def)
      obtain j' where "store_inv sha shake s' j'" "published s j ?d s' j'"
        using commit_inv [OF inv _ _ sha run] plan t unfolding res by auto
      with go True res show ?thesis by auto
    qed
  qed
qed

lemma plain_commit_ready:
  assumes inv: "store_inv sha shake s j" and sha: "\<And>x. length (sha x) = 32" and env: "plain env" and s: "ready s"
    and run: "commit (hashed sha shake env) n create replace (c, s) = ((c', s'), res)"
  shows "ready s' \<and> st_gated s' = st_gated s"
proof (cases "n = st_revision s \<and> admitted s c create replace \<and> create @ changes_of (st_cells s) replace \<noteq> []")
  case True
  with plain_commit_effect [OF inv sha env s run] obtain j' where
    "store_inv sha shake s' j'" "published s j (create @ changes_of (st_cells s) replace) s' j'" by auto
  with commit_flags [OF run] s store_inv_log(2) [OF this(1)] show ?thesis by (simp add: ready_def published_def)
next
  case False
  with plain_commit_effect [OF inv sha env s run] have "s' = s" by auto
  with s show ?thesis by simp
qed

end
