(* ===== verification/PastProps.thy ===== *)
theory PastProps
  imports CommitEffect
begin

text \<open>
  What a reachable store answers about its past: snapshots of a revision, Cells, creation, the
  revisions under a root, digests, accumulators and transitions. Each answer is the one its
  history determines, whatever the store remembered on the way.
\<close>

section \<open>The past stays\<close>

text \<open>
  C6: Commits, reads and reopenings never rewrite the past. After any sequence of commits (with any
  faults, guards, transforms and physical writes), refreshes, snapshots, questions about the past
  (\<open>at\<close>, \<open>cells_at\<close>, accumulators, chain digests, transitions), subscriptions, the intent
  requirement and reopenings, the history is the old one with rows of later revisions behind it: the
  head never goes back, and every revision up to the old head keeps its rows, its graph and its chain
  digest. (\<open>CellStore.partition_archived_cells\<close>, the archive custody exception, moves rows of the
  past to another database on purpose; it is none of these operations and not modelled.)
\<close>

theorem store_history_is_immutable:
  assumes "reachable sha shake s" "\<And>x. length (sha x) = 32" "r \<le> durable_head s"
  shows "(\<exists>rows. history_log (run_ops sha shake ops s) = history_log s @ rows \<and>
      (\<forall>(v, c) \<in> set rows. durable_head s < v)) \<and>
    durable_head s \<le> durable_head (run_ops sha shake ops s) \<and>
    graph_at (run_ops sha shake ops s) r = graph_at s r \<and>
    chain_digest_at sha (history_log (run_ops sha shake ops s)) r = chain_digest_at sha (history_log s) r"
proof -
  obtain j where j: "store_inv sha shake s j" "history_log s = j_versions j" "durable_head s = head_of j"
    "graph_at s = state_at (j_versions j)"
    using reachable_log [OF assms(1,2)] by blast
  obtain k where k: "store_inv sha shake (run_ops sha shake ops s) k" "extends j k"
    using run_ops_inv [OF assms(2) j(1)] by blast
  then show ?thesis
    using store_inv_log [OF k(1)] j assms(3) extends_state extends_chain by (auto simp: extends_def)
qed

text \<open>A Cell is written, rewritten and the database reopened: revision 1 still has the first value.\<close>

definition rewritten_cell :: cell where
  "rewritten_cell = Cell ''a'' ''a'' NULL_CELL_ID ''y''"

definition written_once :: store where
  "written_once = run_ops fixed_sha fixed_sha [Commit plain_env idle_ctx 0 [one_cell] []] (new_store fixed_sha True)"

definition rewriting :: "store_op list" where
  "rewriting = [Commit plain_env idle_ctx 1 [] [rewritten_cell]]"

lemma written_once:
  "reachable fixed_sha fixed_sha written_once" "ready written_once" "\<not> st_gated written_once"
  "st_revision written_once = 1" "st_cells written_once = genesis(''a'' \<mapsto> one_cell)"
proof -
  let ?s = "new_store fixed_sha True"
  note N = new_durable_store [of fixed_sha, OF fixed_sha_length]
  obtain j where inv: "store_inv fixed_sha fixed_sha ?s j"
    using new_store_inv [where sha = fixed_sha and shake = fixed_sha and durable = True] fixed_sha_length by blast
  have plain: "plain plain_env" "ready ?s" using N by (simp_all add: plain_def plain_env_def ready_def)
  have adm: "admitted ?s idle_ctx [one_cell] []"
    using N by (simp add: admitted_def one_cell_def genesis_def NULL_CELL_ID_def refusal_def idle_ctx_def
        links_resolve_def changes_of_def)
  obtain c s r where run: "commit (hashed fixed_sha fixed_sha plain_env) 0 [one_cell] [] (idle_ctx, ?s) = ((c, s), r)"
    by (metis surj_pair)
  then have s: "written_once = s" by (simp add: written_once_def)
  from plain_commit_effect [OF inv fixed_sha_length plain run] adm N obtain j' where "published ?s j [one_cell] s j'"
    by (auto simp: changes_of_def)
  with N show "st_revision written_once = 1" "st_cells written_once = genesis(''a'' \<mapsto> one_cell)"
    by (simp_all add: s published_def one_cell_def)
  show "ready written_once" "\<not> st_gated written_once"
    using plain_commit_ready [OF inv fixed_sha_length plain run] N(3) by (simp_all add: s)
  show "reachable fixed_sha fixed_sha written_once"
    unfolding written_once_def by (rule reachable_run [OF reachable_new])
qed

lemma rewritten_now:
  "st_cells (run_ops fixed_sha fixed_sha rewriting written_once) ''a'' = Some rewritten_cell"
proof -
  note W = written_once
  obtain j where inv: "store_inv fixed_sha fixed_sha written_once j"
    using reachable_inv [OF W(1) fixed_sha_length] by blast
  have plain: "plain plain_env" by (simp add: plain_def plain_env_def)
  have adm: "admitted written_once idle_ctx [] [rewritten_cell]"
    using W(3,5) by (simp add: admitted_def rewritten_cell_def one_cell_def genesis_def NULL_CELL_ID_def refusal_def
        idle_ctx_def links_resolve_def changes_of_def)
  obtain c s r where run: "commit (hashed fixed_sha fixed_sha plain_env) 1 [] [rewritten_cell] (idle_ctx, written_once) =
      ((c, s), r)"
    by (metis surj_pair)
  have ch: "changes_of (st_cells written_once) [rewritten_cell] = [rewritten_cell]"
    by (simp add: W(5) changes_of_def rewritten_cell_def one_cell_def)
  from plain_commit_effect [OF inv fixed_sha_length plain W(2) run] adm W(4) ch obtain j' where
    "published written_once j [rewritten_cell] s j'" by auto
  with run show ?thesis by (simp add: rewriting_def published_def rewritten_cell_def)
qed

lemma first_value: "graph_at written_once 1 ''a'' = Some one_cell" "1 \<le> durable_head written_once"
proof -
  obtain j where inv: "store_inv fixed_sha fixed_sha written_once j"
    using reachable_inv [OF written_once(1) fixed_sha_length] by blast
  note D = representsD [OF store_invD(1) [OF inv]]
  show "graph_at written_once 1 ''a'' = Some one_cell"
    using D(4) written_once(4,5) store_inv_log(3) [OF inv] by (metis fun_upd_same)
  show "1 \<le> durable_head written_once" using written_once(2,4) by (simp add: ready_def)
qed

theorem store_history_is_immutable_witness:
  "st_cells (run_ops fixed_sha fixed_sha rewriting written_once) ''a'' = Some rewritten_cell \<and>
   graph_at (run_ops fixed_sha fixed_sha (rewriting @ [Refresh, Reopen]) written_once) 1 ''a'' = Some one_cell"
  using store_history_is_immutable [OF written_once(1) fixed_sha_length first_value(2), where ops = "rewriting @ [Refresh, Reopen]"]
    rewritten_now first_value(1)
  by simp

text \<open>
  C5: \<open>at\<close> is exact. On a live reachable store, \<open>at(r)\<close> returns the graph the history
  determines at \<open>r\<close>, for every \<open>r\<close> up to the published revision, whichever path it takes (a
  remembered snapshot, one step back, a walk down, the lazy mapping, a replay); a later revision is
  refused.
\<close>

theorem at_is_exact:
  assumes "reachable sha shake s" "\<And>x. length (sha x) = 32" "\<not> st_closed s"
  shows "if r \<le> st_revision s then snd (at_revision r s) = Inr (Snapshot r (graph_at s r))
    else (\<exists>e. at_revision r s = (s, Inl e))"
proof -
  obtain j where j: "store_inv sha shake s j" "graph_at s = state_at (j_versions j)"
    using reachable_log [OF assms(1,2)] by blast
  show ?thesis
  proof (cases "r \<le> st_revision s")
    case True
    with at_revision_ok [OF j(1) assms(3) True] j(2) show ?thesis by auto
  next
    case False
    with at_revision_unknown [OF j(1), of r] show ?thesis by simp
  qed
qed

theorem at_is_exact_witness:
  "snd (at_revision 0 open_memory) = Inr (Snapshot 0 (graph_at open_memory 0))"
  using at_is_exact [where sha = fixed_sha and shake = fixed_sha and r = 0, OF reachable_memory fixed_sha_length]
  by (simp add: open_memory_def blank_store_def)

text \<open>
  C11: \<open>cells_at\<close> and \<open>cell_created_revision\<close> are exact. The first returns, in request order and
  without repetition, the Cells of the requested identities in the graph of the revision, and fails
  if one of them is missing there; the second returns \<open>r\<close> if and only if the identity is in the
  graph of \<open>r\<close> and of no earlier revision.
\<close>

theorem cell_queries_are_exact:
  assumes "reachable sha shake s" "\<And>x. length (sha x) = 32" "r \<le> st_revision s"
  shows "(set ids \<subseteq> dom (graph_at s r) \<longrightarrow>
      snd (cells_at r ids s) = Inr (map (\<lambda>k. (k, the (graph_at s r k))) (dedup ids))) \<and>
    (\<not> set ids \<subseteq> dom (graph_at s r) \<longrightarrow> (\<exists>x. snd (cells_at r ids s) = Inl (InvalidCell x))) \<and>
    (cell_created_revision s k = Inr r \<longleftrightarrow>
       k \<in> dom (graph_at s r) \<and> (\<forall>v < r. k \<notin> dom (graph_at s v)))"
proof -
  obtain j where j: "store_inv sha shake s j" "graph_at s = state_at (j_versions j)"
    using reachable_log [OF assms(1,2)] by blast
  from cells_at_ok [OF j(1) assms(3), of ids] cell_created_ok [OF store_invD(1) [OF j(1)], of k r] assms(3)
  show ?thesis unfolding j(2) by auto
qed

theorem cell_queries_are_exact_witness:
  "cell_created_revision open_memory NULL_CELL_ID = Inr 0 \<longleftrightarrow> NULL_CELL_ID \<in> dom (graph_at open_memory 0)"
  using cell_queries_are_exact [where sha = fixed_sha and shake = fixed_sha and r = 0 and k = NULL_CELL_ID,
      OF reachable_memory fixed_sha_length]
  by blast

text \<open>
  C12: The changes of a revision are exact. \<open>revision_changes(r)\<close> lists the identities written at
  \<open>r\<close>, and \<open>revisions_touching(root)\<close> lists, in order and once each, exactly the revisions that
  wrote \<open>root\<close> or an identity under it.
\<close>

theorem change_queries_are_exact:
  assumes "reachable sha shake s" "\<And>x. length (sha x) = 32"
  shows "(\<forall>r \<le> st_revision s. revision_changes s r = Inr (map cid (rows_of (history_log s) r))) \<and>
    (\<exists>rs. revisions_touching s root = Inr rs \<and> sorted rs \<and> distinct rs \<and>
      (\<forall>r. r \<in> set rs \<longleftrightarrow> r \<le> st_revision s \<and>
        (\<exists>c \<in> set (rows_of (history_log s) r). cid c = root \<or> starts_with (cid c) (root @ '':''))))"
proof -
  obtain j where j: "store_inv sha shake s j" "history_log s = j_versions j"
    using reachable_log [OF assms] by blast
  note rep = store_invD(1) [OF j(1)]
  show ?thesis
    unfolding j(2) using revision_changes_ok [OF rep] revisions_touching_ok [OF rep, of root] by blast
qed

theorem change_queries_are_exact_witness:
  "revision_changes open_memory 0 = Inr (map cid (rows_of (history_log open_memory) 0))"
proof -
  have "(0::nat) \<le> st_revision open_memory" by simp
  with change_queries_are_exact [where sha = fixed_sha and shake = fixed_sha, OF reachable_memory fixed_sha_length]
  show ?thesis by blast
qed

text \<open>
  C8: Chain digests are exact. \<open>revision_chain_digest\<close> is the digest of the whole history up to
  the revision, recomputed from genesis, whatever prefix was remembered.
\<close>

theorem chain_digests_are_exact:
  assumes "reachable sha shake s" "\<And>x. length (sha x) = 32" "r \<le> st_revision s"
  shows "\<exists>d. snd (store_chain_digest sha (Some r) s) = Inr (hex d) \<and> length d = 32 \<and>
    chain_from sha zero_digest 0 (map (rows_of (history_log s)) [0..<Suc r]) = Inr d"
proof -
  obtain j where j: "store_inv sha shake s j" "history_log s = j_versions j"
    using reachable_log [OF assms(1,2)] by blast
  note D = representsD [OF store_invD(1) [OF j(1)]]
  obtain d where d: "chain_digest_at sha (j_versions j) r = Inr d" "length d = 32"
    using chain_digest_ok [OF D(1), where sha = sha and r = r] assms(2,3) D(3) by fastforce
  moreover obtain cache where "chain_digest_raw sha r s = (s\<lparr>st_chain_digests := cache\<rparr>, Inr d)"
    using chain_digest_raw_ok [OF j(1) assms(3,2)] d(1) by auto
  ultimately show ?thesis
    unfolding j(2) by (auto simp: store_chain_digest_def chain_digest_at_def)
qed

theorem chain_digests_are_exact_witness:
  "\<exists>d. snd (store_chain_digest fixed_sha (Some 0) open_memory) = Inr (hex d) \<and> length d = 32"
proof -
  have "(0::nat) \<le> st_revision open_memory" by simp
  from chain_digests_are_exact [where sha = fixed_sha and shake = fixed_sha, OF reachable_memory fixed_sha_length this]
  show ?thesis by blast
qed

text \<open>
  C7: Set accumulators are exact. However the number is found (held, undone from the revision
  above, read back from the sidecar, or summed), the accumulator of a store's own snapshot of a
  revision is the sum over that revision's graph.
\<close>

theorem set_accumulators_are_exact:
  assumes "reachable sha shake s" "\<And>x. length (sha x) = 32" "\<not> st_closed s" "r \<le> st_revision s"
  shows "snd (accumulate shake r s) = Inr (set_accumulator shake (values_of (graph_at s r)))"
proof -
  obtain j where j: "store_inv sha shake s j" "graph_at s = state_at (j_versions j)"
    using reachable_log [OF assms(1,2)] by blast
  from accumulate_ok [OF j(1) assms(3,4)] show ?thesis
    unfolding j(2) graph_accumulator_def by auto
qed

theorem set_accumulators_are_exact_witness:
  "snd (accumulate fixed_sha 0 open_memory) = Inr (set_accumulator fixed_sha (values_of (graph_at open_memory 0)))"
  by (rule set_accumulators_are_exact [where sha = fixed_sha, OF reachable_memory fixed_sha_length])
    (simp_all add: open_memory_def blank_store_def)

text \<open>
  C9: Transition proofs are exact. \<open>snapshot_transition\<close> returns the published graph and its
  chain digest. It proves a change for a predecessor at revision \<open>r\<close> with digest \<open>p\<close> only if \<open>r\<close>
  is the published revision or the one before it; the Cells it returns then turn the graph of
  \<open>r\<close> into the published one; and \<open>p\<close> is the digest of the store's own history at \<open>r\<close>, or two
  different byte strings, which the statement names, hash alike. A caller who holds that digest is
  always answered.
\<close>

theorem transition_proofs_are_exact:
  assumes "reachable sha shake s" "\<And>x. length (sha x) = 32"
  defines "n \<equiv> st_revision s"
  shows "\<exists>t d. snd (snapshot_transition sha (Some r) (Some said) s) = Inr t \<and>
    tr_snapshot t = Snapshot n (st_cells s) \<and> tr_digest t = hex d \<and> chain_digest_at sha (history_log s) n = Inr d \<and>
    (\<forall>delta. tr_changed t = Some delta \<longrightarrow>
       r \<le> n \<and> n \<le> Suc r \<and> put_cells delta (graph_at s r) = st_cells s \<and>
       (\<exists>p q. unhex said = Some p \<and> chain_digest_at sha (history_log s) r = Inr q \<and>
          (p = q \<or> chain_input p n delta \<noteq> chain_input q n delta \<and>
             sha (chain_input p n delta) = sha (chain_input q n delta)))) \<and>
    (\<forall>q. r \<le> n \<longrightarrow> n \<le> Suc r \<longrightarrow> chain_digest_at sha (history_log s) r = Inr q \<longrightarrow> said = hex q \<longrightarrow>
       tr_changed t \<noteq> None)"
proof -
  obtain j where j: "store_inv sha shake s j" "history_log s = j_versions j" "graph_at s = state_at (j_versions j)"
    using reachable_log [OF assms(1,2)] by blast
  note D = representsD [OF store_invD(1) [OF j(1)]]
  obtain cache d delta where d: "chain_digest_at sha (j_versions j) n = Inr d" "distinct (map cid delta)"
    "sort_key cid delta = rows_of (j_versions j) n"
    and t: "snapshot_transition sha (Some r) (Some said) s = (s\<lparr>st_chain_digests := cache\<rparr>,
      Inr \<lparr>tr_snapshot = Snapshot n (st_cells s), tr_digest = hex d,
           tr_changed = transition_changes sha n d delta (Some r) (Some said)\<rparr>)"
    unfolding n_def using snapshot_transition_eq [OF j(1) assms(2), of "Some r" "Some said"] by blast
  have len: "length q = 32" if "chain_digest_at sha (j_versions j) v = Inr q" "v \<le> n" for v q
    using chain_digest_ok [OF D(1), where sha = sha and r = v] assms(2) that D(3) n_def by fastforce
  have put: "put_cells delta (state_at (j_versions j) r) = st_cells s" if "Suc r = n"
  proof -
    have "put_cells delta m = put_cells (rows_of (j_versions j) n) m" for m
      unfolding d(3) [symmetric] using d(2) by (intro put_cells_perm) (simp_all add: distinct_map)
    then show ?thesis
      using state_at_Suc [OF journal_okD(2) [OF D(1)], of r] that D(4) by (simp add: n_def)
  qed
  obtain q where q: "chain_digest_at sha (j_versions j) r = Inr q" if "r \<le> n"
    using chain_digest_ok [OF D(1), where sha = sha and r = r] assms(2) D(3) n_def by fastforce
  have step: "revision_chain_digest_step sha q n delta = Inr d" if "Suc r = n"
    using chain_digest_Suc [OF q] that d(1) chain_step_sort [OF d(2), of sha q n d] unfolding d(3) by simp
  have sound: "r \<le> n \<and> n \<le> Suc r \<and> put_cells delta' (graph_at s r) = st_cells s \<and>
       (\<exists>p q. unhex said = Some p \<and> chain_digest_at sha (history_log s) r = Inr q \<and>
          (p = q \<or> chain_input p n delta' \<noteq> chain_input q n delta' \<and>
             sha (chain_input p n delta') = sha (chain_input q n delta')))"
    if ch: "transition_changes sha n d delta (Some r) (Some said) = Some delta'" for delta'
  proof -
    obtain p where p: "unhex said = Some p" "length p = 32"
      and cases: "r = n \<and> p = d \<and> delta' = [] \<or>
        Suc r = n \<and> revision_chain_digest_step sha p n delta = Inr d \<and> delta' = delta"
      using ch by (auto simp: transition_changes_def split: option.splits if_splits)
    from cases show ?thesis
    proof
      assume "r = n \<and> p = d \<and> delta' = []"
      with d(1) p(1) D(4) show ?thesis by (auto simp: j(2,3) n_def)
    next
      assume c: "Suc r = n \<and> revision_chain_digest_step sha p n delta = Inr d \<and> delta' = delta"
      then have "sha (chain_input p n delta) = sha (chain_input q n delta)"
        using step chain_step_input by metis
      moreover have "p \<noteq> q \<Longrightarrow> chain_input p n delta \<noteq> chain_input q n delta"
        using p(2) len [OF q] c by (auto simp: chain_input_def chain_prefix_def)
      ultimately show ?thesis
        using c put p(1) q by (auto simp: j(2,3))
    qed
  qed
  have complete: "transition_changes sha n d delta (Some r) (Some said) \<noteq> None"
    if "r \<le> n" "n \<le> Suc r" "chain_digest_at sha (j_versions j) r = Inr p" "said = hex p" for p
    using that q len step d(1) by (cases "r = n") (auto simp: transition_changes_def)
  show ?thesis
    unfolding t using sound complete d(1) by (auto simp: j(2))
qed

theorem transition_proofs_are_exact_witness:
  "\<exists>t. snd (snapshot_transition fixed_sha (Some 0) (Some ''00'') open_memory) = Inr t \<and>
     tr_snapshot t = Snapshot (st_revision open_memory) (st_cells open_memory)"
  using transition_proofs_are_exact [where sha = fixed_sha and shake = fixed_sha and r = 0 and said = "''00''",
      OF reachable_memory fixed_sha_length]
  by blast

section \<open>In memory and durable\<close>

text \<open>A client's commits, one after the other, with the reply to each: its revision or its error.\<close>

type_synonym request = "commit_env \<times> ctx \<times> nat \<times> cell list \<times> cell list"

fun serve :: "(bytes \<Rightarrow> bytes) \<Rightarrow> (bytes \<Rightarrow> bytes) \<Rightarrow> request list \<Rightarrow> store \<Rightarrow> store \<times> nat result list" where
  "serve sha shake [] s = (s, [])"
| "serve sha shake ((env, c, n, cr, rp) # reqs) s =
     (let ((_, s1), res) = commit (hashed sha shake env) n cr rp (c, s);
          (s2, replies) = serve sha shake reqs s1
      in (s2, res # replies))"

definition in_step :: "(bytes \<Rightarrow> bytes) \<Rightarrow> (bytes \<Rightarrow> bytes) \<Rightarrow> store \<Rightarrow> store \<Rightarrow> bool" where
  "in_step sha shake s t \<longleftrightarrow> (\<exists>j k. store_inv sha shake s j \<and> store_inv sha shake t k \<and>
     j_versions j = j_versions k \<and> head_of j = head_of k) \<and> ready s \<and> ready t \<and> st_gated s = st_gated t \<and>
     st_revision s = st_revision t"

lemma in_step_log:
  assumes "in_step sha shake s t"
  shows "history_log s = history_log t" "st_cells s = st_cells t" "st_revision s = st_revision t"
proof -
  obtain j k where j: "store_inv sha shake s j" and k: "store_inv sha shake t k"
    and same: "j_versions j = j_versions k" "st_revision s = st_revision t"
    using assms by (auto simp: in_step_def)
  show "history_log s = history_log t" "st_revision s = st_revision t"
    using store_inv_log(1) [OF j] store_inv_log(1) [OF k] same by auto
  show "st_cells s = st_cells t"
    using representsD(4) [OF store_invD(1) [OF j]] representsD(4) [OF store_invD(1) [OF k]] same by simp
qed

text \<open>
  The verdict on a commit without faults or physical write: an error, no change, or the rows to
  write. It depends on the store's graph, revision and gate only.
\<close>

definition verdict :: "commit_env \<Rightarrow> store \<Rightarrow> ctx \<Rightarrow> nat \<Rightarrow> cell list \<Rightarrow> cell list \<Rightarrow> cell list result" where
  "verdict env s c n cr rp =
     (if n \<noteq> st_revision s then Inl (Conflict ''expected revision'')
      else rbind (transformed env s cr rp) (\<lambda>(created, replaced).
        rbind (commit_plan (st_cells s) created replaced) (\<lambda>changed.
          if created = [] \<and> changed = [] then Inr []
          else case snd (refusal (st_gated s) c) of
            Some msg \<Rightarrow> Inl (CommitRefused msg)
          | None \<Rightarrow>
              if \<not> links_resolve (st_cells s) (created @ changed)
              then Inl (InvalidCell ''cell contains a dangling physical link'')
              else rbind (outcome (env_guard env)) (\<lambda>_. Inr (created @ changed)))))"

lemma verdict_cong:
  "st_cells s = st_cells t \<Longrightarrow> st_revision s = st_revision t \<Longrightarrow> st_gated s = st_gated t \<Longrightarrow>
     verdict env s c n cr rp = verdict env t c n cr rp"
  unfolding verdict_def transformed_def by (simp cong: if_cong option.case_cong)

lemma commit_refused_verdict:
  assumes "undisturbed env" "ready s" "verdict env s c n cr rp = Inl e"
    and run: "commit env n cr rp (c, s) = ((c', s'), res)"
  shows "s' = s \<and> res = Inl e"
  using assms unfolding verdict_def commit_def Let_def rbind_def undisturbed_def ready_def
  by (auto split: if_splits sum.splits option.splits prod.splits)

lemma commit_same_verdict:
  assumes "undisturbed env" "ready s" "verdict env s c n cr rp = Inr []"
    and run: "commit env n cr rp (c, s) = ((c', s'), res)"
  shows "s' = s \<and> res = Inr (st_revision s)"
  using assms unfolding verdict_def commit_def Let_def rbind_def undisturbed_def ready_def
  by (auto split: if_splits sum.splits option.splits prod.splits)

lemma verdict_rows:
  assumes "verdict env s c n cr rp = Inr rows" "rows \<noteq> []"
  obtains created replaced changed c1 where "n = st_revision s" "transformed env s cr rp = Inr (created, replaced)"
    "commit_plan (st_cells s) created replaced = Inr changed" "rows = created @ changed"
    "refusal (st_gated s) c = (c1, None)" "links_resolve (st_cells s) rows" "outcome (env_guard env) = Inr ()"
  using assms unfolding verdict_def rbind_def
  by (cases "refusal (st_gated s) c") (auto split: if_splits sum.splits option.splits prod.splits)

lemma commit_published_verdict:
  assumes inv: "store_inv sha shake s j" and sha: "\<And>x. length (sha x) = 32" and env: "undisturbed env" and s: "ready s"
    and verdict: "verdict (hashed sha shake env) s c n cr rp = Inr rows" "rows \<noteq> []"
    and run: "commit (hashed sha shake env) n cr rp (c, s) = ((c', s'), res)"
  shows "res = Inr (Suc (st_revision s)) \<and> (\<exists>j'. store_inv sha shake s' j' \<and> published s j rows s' j')"
proof -
  let ?env = "hashed sha shake env"
  from verdict obtain created replaced changed c1 where v: "n = st_revision s"
    "transformed ?env s cr rp = Inr (created, replaced)" "commit_plan (st_cells s) created replaced = Inr changed"
    "rows = created @ changed" "refusal (st_gated s) c = (c1, None)" "links_resolve (st_cells s) rows"
    "outcome (env_guard ?env) = Inr ()"
    by (rule verdict_rows)
  have rows: "commit_rows_ok (st_cells s) (created @ changed)"
    using commit_plan_rows [OF represents_graph_ok [OF store_invD(1) [OF inv]] v(3)] v(4,6) verdict(2) by simp
  then have "distinct (map cid (created @ changed))" by (simp add: commit_rows_ok_def)
  moreover have "undisturbed ?env" using env by (simp add: undisturbed_def)
  ultimately obtain s1 where app: "append_to_journal ?env (st_revision s) (created @ changed) s = (s1, Inr ())"
    using append_undisturbed [OF inv _ s] by blast
  obtain t where "publish ?env (current_declaration c1) created changed s1 = (t, Inr (Suc (st_revision s)))"
    using publish_after_append [OF store_invD(1) [OF inv] hashed_simps(1) sha rows app] by blast
  then have res: "res = Inr (Suc (st_revision s))"
    using run v app verdict(2) env s by (auto simp: commit_def undisturbed_def ready_def)
  with commit_inv [OF inv _ _ sha run] v(2,3,4) show ?thesis by auto
qed

lemma commit_in_step:
  assumes step: "in_step sha shake s t" and sha: "\<And>x. length (sha x) = 32" and env: "undisturbed env"
    and run: "commit (hashed sha shake env) n cr rp (c, s) = ((c1, s1), r1)"
      "commit (hashed sha shake env) n cr rp (c, t) = ((c2, t1), r2)"
  shows "in_step sha shake s1 t1 \<and> r1 = r2"
proof -
  let ?env = "hashed sha shake env"
  obtain j k where j: "store_inv sha shake s j" and k: "store_inv sha shake t k" and jk: "j_versions j = j_versions k"
    "head_of j = head_of k" and rdy: "ready s" "ready t" and gate: "st_gated s = st_gated t"
    and rev: "st_revision s = st_revision t"
    using step by (auto simp: in_step_def)
  note same = in_step_log(2) [OF step]
  have v: "verdict ?env t c n cr rp = verdict ?env s c n cr rp" using same rev gate by (intro verdict_cong) simp_all
  have env': "undisturbed ?env" using env by (simp add: undisturbed_def)
  show ?thesis
  proof (cases "verdict ?env s c n cr rp")
    case (Inl e)
    with commit_refused_verdict [OF env' rdy(1) _ run(1)] commit_refused_verdict [OF env' rdy(2) _ run(2)] v step
    show ?thesis by simp
  next
    case (Inr rows)
    show ?thesis
    proof (cases "rows = []")
      case True
      with Inr commit_same_verdict [OF env' rdy(1) _ run(1)] commit_same_verdict [OF env' rdy(2) _ run(2)] v step rev
      show ?thesis by simp
    next
      case False
      obtain j' k' where j': "store_inv sha shake s1 j'" "published s j rows s1 j'"
        and k': "store_inv sha shake t1 k'" "published t k rows t1 k'" and r: "r1 = r2"
        using commit_published_verdict [OF j sha env rdy(1) Inr False run(1)]
          commit_published_verdict [OF k sha env rdy(2) Inr [folded v] False run(2)] rev
        by auto
      have "ready s1" "ready t1" "st_gated s1 = st_gated t1"
        using commit_flags [OF run(1)] commit_flags [OF run(2)] rdy gate j' k' store_inv_log(2) [OF j'(1)]
          store_inv_log(2) [OF k'(1)]
        by (simp_all add: ready_def published_def)
      then have "in_step sha shake s1 t1"
        unfolding in_step_def using j' k' jk rev
        by (intro conjI exI [of _ j'] exI [of _ k']) (simp_all add: published_def)
      with r show ?thesis by simp
    qed
  qed
qed

lemma serve_in_step:
  assumes sha: "\<And>x. length (sha x) = 32"
  shows "in_step sha shake s t \<Longrightarrow> \<forall>(env, c, n, cr, rp) \<in> set reqs. undisturbed env \<Longrightarrow>
    snd (serve sha shake reqs s) = snd (serve sha shake reqs t) \<and>
    in_step sha shake (fst (serve sha shake reqs s)) (fst (serve sha shake reqs t))"
proof (induction reqs arbitrary: s t)
  case (Cons req reqs)
  obtain env c n cr rp where req: "req = (env, c, n, cr, rp)" by (cases req)
  with Cons.prems(2) have env: "undisturbed env" by simp
  obtain c1 s1 r1 where run1: "commit (hashed sha shake env) n cr rp (c, s) = ((c1, s1), r1)" by (metis surj_pair)
  obtain c2 t1 r2 where run2: "commit (hashed sha shake env) n cr rp (c, t) = ((c2, t1), r2)" by (metis surj_pair)
  from commit_in_step [OF Cons.prems(1) sha env run1 run2] Cons.IH [of s1 t1] Cons.prems(2) show ?case
    using run1 run2 by (simp add: req case_prod_beta)
qed simp

lemma new_stores_in_step:
  assumes sha: "\<And>x. length (sha x) = 32"
  shows "in_step sha shake (new_store sha False) (new_store sha True)"
proof -
  obtain j k where "store_inv sha shake (new_store sha False) j" "j_versions j = [(0, null_cell)]" "head_of j = 0"
    "store_inv sha shake (new_store sha True) k" "j_versions k = [(0, null_cell)]" "head_of k = 0"
    using new_store_inv [where sha = sha and shake = shake] sha by metis
  moreover have "ready (new_store sha False)" "\<not> st_gated (new_store sha False)" "st_revision (new_store sha False) = 0"
    by (simp_all add: new_store_def open_memory_def blank_store_def ready_def durable_head_def)
  moreover have "ready (new_store sha True)" using new_durable_store [of sha] sha by (simp add: ready_def)
  ultimately show ?thesis
    unfolding in_step_def using new_durable_store [of sha] sha by (intro conjI exI [of _ j] exI [of _ k]) simp_all
qed

text \<open>
  C10: A durable store is an in-memory store that survives. Fed the same commits, with any guards,
  transforms, listeners and declarations, a new in-memory store and a new store over a fresh
  database reply the same to each (the same revision, or the very same error), publish the same
  graph at the same revision and stand on the same history, so that every past graph and chain
  digest agrees. The commits bring no physical write and no journal fault: the former needs a
  SQLite owner, an in-memory store refuses it, and the latter concerns a journal an in-memory store
  does not have.
\<close>

theorem memory_and_durable_stores_agree:
  fixes sha shake :: "bytes \<Rightarrow> bytes"
  assumes "\<And>x. length (sha x) = 32" "\<forall>(env, c, n, cr, rp) \<in> set reqs. undisturbed env"
    and m: "serve sha shake reqs (new_store sha False) = (m, mr)"
    and d: "serve sha shake reqs (new_store sha True) = (d, dr)"
  shows "mr = dr \<and> st_revision m = st_revision d \<and> st_cells m = st_cells d \<and> history_log m = history_log d \<and>
    (\<forall>r. graph_at m r = graph_at d r \<and>
       chain_digest_at sha (history_log m) r = chain_digest_at sha (history_log d) r)"
proof -
  have "mr = dr \<and> in_step sha shake m d"
    using serve_in_step [where sha = sha and shake = shake, OF assms(1) new_stores_in_step assms(2)] assms(1) m d by simp
  with in_step_log [of sha shake m d] show ?thesis by (simp add: graph_at_def)
qed

text \<open>A request that is served, one against a revision that has gone, and one the guard refuses.\<close>

definition guarded :: commit_env where
  "guarded = plain_env\<lparr>env_guard := Some (Inl (InvalidCell ''no''))\<rparr>"

definition three_requests :: "request list" where
  "three_requests = [(plain_env, idle_ctx, 0, [one_cell], []), (plain_env, idle_ctx, 0, [one_cell], []),
     (guarded, idle_ctx, 1, [Cell ''b'' ''a'' ''a'' []], [])]"

lemma served_in_memory:
  "snd (serve fixed_sha fixed_sha three_requests (new_store fixed_sha False)) =
     [Inr 1, Inl (Conflict ''expected revision''), Inl (InvalidCell ''no'')]"
proof -
  obtain c s r where run: "commit (hashed fixed_sha fixed_sha plain_env) 0 [one_cell] [] (idle_ctx, open_memory) = ((c, s), r)"
    by (metis surj_pair)
  have plain: "plain plain_env" "ready open_memory" and v: "admitted open_memory idle_ctx [one_cell] []"
    by (simp_all add: plain_def plain_env_def ready_def durable_head_def open_memory_def blank_store_def admitted_def
        one_cell_def genesis_def NULL_CELL_ID_def refusal_def idle_ctx_def links_resolve_def changes_of_def
        current_declaration_def)
  have open0: "st_revision open_memory = 0" "st_cells open_memory = genesis"
    by (simp_all add: open_memory_def blank_store_def)
  from plain_commit_effect [OF open_memory_inv fixed_sha_length plain run] v open0 obtain j' where
    "r = Inr 1" "published open_memory (journal_open empty_tables) [one_cell] s j'"
    by (auto simp: changes_of_def)
  then have s: "r = Inr 1" "st_revision s = 1" "st_cells s = genesis(''a'' \<mapsto> one_cell)"
    using open0 by (simp_all add: published_def one_cell_def)
  have flags: "\<not> st_closed s" "st_stable_depth s = 0" "\<not> st_gated s"
    using commit_flags [OF run] by (simp_all add: open_memory_def blank_store_def)
  have "commit (hashed fixed_sha fixed_sha plain_env) 0 [one_cell] [] (idle_ctx, s) =
      ((idle_ctx, s), Inl (Conflict ''expected revision''))"
    using s flags by (simp add: commit_def plain_env_def)
  moreover have "\<exists>c'. commit (hashed fixed_sha fixed_sha guarded) 1 [Cell ''b'' ''a'' ''a'' []] [] (idle_ctx, s) =
      ((c', s), Inl (InvalidCell ''no''))"
    using s flags
    by (simp add: commit_def guarded_def plain_env_def transformed_def commit_plan_def validate_cell_def require_def
        refusal_def idle_ctx_def current_declaration_def links_resolve_def outcome_def genesis_def NULL_CELL_ID_def)
  ultimately show ?thesis
    using run s(1) by (auto simp: three_requests_def new_store_def)
qed

theorem memory_and_durable_stores_agree_witness:
  "snd (serve fixed_sha fixed_sha three_requests (new_store fixed_sha True)) =
     [Inr 1, Inl (Conflict ''expected revision''), Inl (InvalidCell ''no'')]"
proof -
  obtain m mr d dr where m: "serve fixed_sha fixed_sha three_requests (new_store fixed_sha False) = (m, mr)"
    and d: "serve fixed_sha fixed_sha three_requests (new_store fixed_sha True) = (d, dr)" by fastforce
  have "\<forall>(env, c, n, cr, rp) \<in> set three_requests. undisturbed env"
    by (simp add: three_requests_def guarded_def undisturbed_def plain_env_def)
  from memory_and_durable_stores_agree [OF fixed_sha_length this m d] have "mr = dr" by blast
  with served_in_memory m d show ?thesis by simp
qed

end
