(* ===== verification/Utf8.thy ===== *)
theory Utf8
  imports Prelude
begin

text \<open>
  Strings as code points. A Python \<open>str\<close> is a list of code points; elsewhere the development keeps
  its UTF-8 bytes (\<open>encode\<close>). This theory shows that the encoding keeps the order and the prefix
  relation, so that nothing is lost by that, and holds \<open>_prefix_upper\<close>, the routine of the
  kernel that computes on code points.
\<close>

section \<open>Encoding\<close>

definition MAX_CODE_POINT :: nat where "MAX_CODE_POINT = 1114111"

definition scalar :: "nat \<Rightarrow> bool" where
  "scalar c \<longleftrightarrow> c \<le> MAX_CODE_POINT \<and> \<not> (55296 \<le> c \<and> c \<le> 57343)"

definition utf8 :: "nat \<Rightarrow> string" where
  "utf8 c =
     (if c < 128 then [char_of c]
      else if c < 2048 then [char_of (192 + c div 64), char_of (128 + c mod 64)]
      else if c < 65536
      then [char_of (224 + c div 4096), char_of (128 + c div 64 mod 64), char_of (128 + c mod 64)]
      else [char_of (240 + c div 262144), char_of (128 + c div 4096 mod 64),
            char_of (128 + c div 64 mod 64), char_of (128 + c mod 64)])"

definition encode :: "nat list \<Rightarrow> string" where
  "encode cs = concat (map utf8 cs)"

text \<open>Passing a \<open>str\<close> to SQLite or to \<open>encode("utf-8")\<close>: surrogates cannot be encoded.\<close>

definition bind_text :: "nat list \<Rightarrow> string result" where
  "bind_text cs =
     (if list_all scalar cs then Inr (encode cs) else Inl (ValueError ''surrogates not allowed''))"

lemma encode_simps [simp]: "encode [] = []" "encode (c # cs) = utf8 c @ encode cs"
  "encode (xs @ ys) = encode xs @ encode ys"
  by (simp_all add: encode_def)

lemma utf8_nonempty [simp]: "utf8 c \<noteq> []"
  by (simp add: utf8_def)

lemma char_less: "m < n \<Longrightarrow> n < 256 \<Longrightarrow> (char_of m :: char) < char_of (n::nat)"
  by (simp add: less_char_def)

lemma lex_append [simp]: "(p @ x < p @ y) = (x < (y :: 'a::linorder list))"
  by (induction p) auto

text \<open>A smaller code point encodes to a smaller byte string, whatever follows.\<close>

lemma less_digits:
  assumes "a < (b::nat)"
  shows "a div 64 < b div 64 \<or> a div 64 = b div 64 \<and> a mod 64 < b mod 64"
proof (cases "a div 64 = b div 64")
  case True
  with assms show ?thesis by (metis div_mult_mod_eq nat_add_left_cancel_less)
next
  case False
  with assms show ?thesis by (metis div_le_mono le_neq_implies_less less_imp_le)
qed

lemma less_digits2:
  assumes "a < (b::nat)"
  shows "a div 4096 < b div 4096 \<or> a div 4096 = b div 4096 \<and>
    (a div 64 mod 64 < b div 64 mod 64 \<or> a div 64 mod 64 = b div 64 mod 64 \<and> a mod 64 < b mod 64)"
proof -
  have four: "n div 64 div 64 = n div 4096" for n :: nat by (simp add: div_mult2_eq [symmetric])
  from less_digits [OF assms] show ?thesis
  proof
    assume "a div 64 < b div 64"
    from less_digits [OF this] show ?thesis by (auto simp: four)
  next
    assume "a div 64 = b div 64 \<and> a mod 64 < b mod 64"
    then show ?thesis by (metis four)
  qed
qed

lemma less_digits3:
  assumes "a < (b::nat)"
  shows "a div 262144 < b div 262144 \<or> a div 262144 = b div 262144 \<and>
    (a div 4096 mod 64 < b div 4096 mod 64 \<or> a div 4096 mod 64 = b div 4096 mod 64 \<and>
    (a div 64 mod 64 < b div 64 mod 64 \<or> a div 64 mod 64 = b div 64 mod 64 \<and> a mod 64 < b mod 64))"
proof -
  have eight: "n div 4096 div 64 = n div 262144" for n :: nat by (simp add: div_mult2_eq [symmetric])
  from less_digits2 [OF assms] show ?thesis
  proof
    assume "a div 4096 < b div 4096"
    from less_digits [OF this] show ?thesis by (auto simp: eight)
  next
    assume "a div 4096 = b div 4096 \<and> (a div 64 mod 64 < b div 64 mod 64 \<or>
      a div 64 mod 64 = b div 64 mod 64 \<and> a mod 64 < b mod 64)"
    then show ?thesis by (metis eight)
  qed
qed

lemma utf8_less:
  assumes "a < b" "b \<le> MAX_CODE_POINT"
  shows "utf8 a @ x < utf8 b @ y"
proof -
  have b: "b div 262144 \<le> 4" using div_le_mono [OF assms(2), of 262144] by (simp add: MAX_CODE_POINT_def)
  have len: "a < 128 \<Longrightarrow> a < 256" "a < 2048 \<Longrightarrow> a div 64 < 32" "a < 65536 \<Longrightarrow> a div 4096 < 16"
    "b < 2048 \<Longrightarrow> b div 64 < 32" "b < 65536 \<Longrightarrow> b div 4096 < 16"
    "b mod 64 < 64" "b div 64 mod 64 < 64" "b div 4096 mod 64 < 64"
    by auto
  have tail: "m < n \<Longrightarrow> n < 64 \<Longrightarrow> (char_of (128 + m) :: char) < char_of (128 + n)" for m n :: nat
    by (rule char_less) auto
  consider "b < 128" | "128 \<le> b" "a < 128" | "128 \<le> a" "b < 2048" | "2048 \<le> b" "128 \<le> a" "a < 2048"
    | "2048 \<le> a" "b < 65536" | "65536 \<le> b" "2048 \<le> a" "a < 65536" | "65536 \<le> a"
    using assms(1) by linarith
  then show ?thesis
  proof cases
    case 1
    with assms(1) char_less [of a b] show ?thesis by (simp add: utf8_def)
  next
    case 2
    then show ?thesis
      using char_less [of a "192 + b div 64"] char_less [of a "224 + b div 4096"] char_less [of a "240 + b div 262144"]
        len b by (auto simp: utf8_def)
  next
    case 3
    with assms(1) less_digits [OF assms(1)] show ?thesis
      using char_less [of "192 + a div 64" "192 + b div 64"] tail [of "a mod 64" "b mod 64"] len
      by (auto simp: utf8_def)
  next
    case 4
    then show ?thesis
      using char_less [of "192 + a div 64" "224 + b div 4096"] char_less [of "192 + a div 64" "240 + b div 262144"]
        len b by (auto simp: utf8_def)
  next
    case 5
    with assms(1) less_digits2 [OF assms(1)] show ?thesis
      using char_less [of "224 + a div 4096" "224 + b div 4096"] tail [of "a mod 64" "b mod 64"]
        tail [of "a div 64 mod 64" "b div 64 mod 64"] len
      by (auto simp: utf8_def)
  next
    case 6
    then show ?thesis
      using char_less [of "224 + a div 4096" "240 + b div 262144"] len b by (auto simp: utf8_def)
  next
    case 7
    with assms(1) less_digits3 [OF assms(1)] show ?thesis
      using char_less [of "240 + a div 262144" "240 + b div 262144"] tail [of "a mod 64" "b mod 64"]
        tail [of "a div 64 mod 64" "b div 64 mod 64"]
        tail [of "a div 4096 mod 64" "b div 4096 mod 64"] b
      by (auto simp: utf8_def)
  qed
qed

lemma encode_less:
  "list_all (\<lambda>c. c \<le> MAX_CODE_POINT) ys \<Longrightarrow> xs < ys \<Longrightarrow> encode xs < encode ys"
proof (induction xs arbitrary: ys)
  case Nil
  then obtain c cs where "ys = c # cs" by (cases ys) auto
  then show ?case by (cases "utf8 c") auto
next
  case (Cons a xs)
  then obtain b ys' where ys: "ys = b # ys'" by (cases ys) auto
  with Cons.prems have "a < b \<or> a = b \<and> xs < ys'" by simp
  then show ?case
  proof
    assume "a < b"
    with Cons.prems(1) ys show ?thesis by (simp add: utf8_less)
  next
    assume "a = b \<and> xs < ys'"
    with Cons.IH [of ys'] Cons.prems(1) ys show ?thesis by simp
  qed
qed

lemma encode_less_iff:
  assumes "list_all (\<lambda>c. c \<le> MAX_CODE_POINT) xs" "list_all (\<lambda>c. c \<le> MAX_CODE_POINT) ys"
  shows "encode xs < encode ys \<longleftrightarrow> xs < ys"
  using encode_less [OF assms(2), of xs] encode_less [OF assms(1), of ys]
  by (metis less_asym' linorder_cases)

lemma encode_le_iff:
  assumes "list_all (\<lambda>c. c \<le> MAX_CODE_POINT) xs" "list_all (\<lambda>c. c \<le> MAX_CODE_POINT) ys"
  shows "encode xs \<le> encode ys \<longleftrightarrow> xs \<le> ys"
  using encode_less_iff [OF assms(2,1)] by (simp add: not_less [symmetric])

lemma encode_prefix_iff:
  "list_all (\<lambda>c. c \<le> MAX_CODE_POINT) p \<Longrightarrow> list_all (\<lambda>c. c \<le> MAX_CODE_POINT) ks \<Longrightarrow>
     starts_with (encode ks) (encode p) \<longleftrightarrow> take (length p) ks = p"
proof (induction p arbitrary: ks)
  case Nil
  show ?case by (simp add: starts_with_def)
next
  case (Cons a p)
  show ?case
  proof (cases ks)
    case Nil
    have "\<not> starts_with [] (utf8 a @ encode p)" by (simp add: starts_with_def)
    with Nil show ?thesis by simp
  next
    case (Cons b ks')
    show ?thesis
    proof (cases "a = b")
      case True
      have "starts_with (utf8 b @ encode ks') (utf8 b @ encode p) = starts_with (encode ks') (encode p)"
        by (simp add: starts_with_def)
      with True Cons Cons.IH [of ks'] Cons.prems show ?thesis by simp
    next
      case False
      have "\<not> starts_with (utf8 b @ encode ks') (utf8 a @ encode p)"
      proof
        assume "starts_with (utf8 b @ encode ks') (utf8 a @ encode p)"
        then obtain q where "utf8 b @ encode ks' = utf8 a @ encode p @ q" by (auto simp: starts_with_iff)
        moreover have "a < b \<or> b < a" using False by linarith
        ultimately show False
          using utf8_less [of a b "encode p @ q" "encode ks'"] utf8_less [of b a "encode ks'" "encode p @ q"]
            Cons.prems local.Cons by auto
      qed
      with False Cons show ?thesis by auto
    qed
  qed
qed

section \<open>The upper bound of a prefix\<close>

text \<open>\<open>_prefix_upper\<close>: the last code point that can be raised is, and the rest is dropped.\<close>

fun raise_first :: "nat list \<Rightarrow> nat list option" where
  "raise_first [] = None"
| "raise_first (c # cs) = (if c < MAX_CODE_POINT then Some (Suc c # cs) else raise_first cs)"

definition prefix_upper :: "nat list \<Rightarrow> nat list option" where
  "prefix_upper p = map_option rev (raise_first (rev p))"

lemma raise_first_append:
  "raise_first (xs @ ys) = (case raise_first xs of Some u \<Rightarrow> Some (u @ ys) | None \<Rightarrow> raise_first ys)"
  by (induction xs) auto

lemma prefix_upper_Nil: "prefix_upper [] = None"
  by (simp add: prefix_upper_def)

lemma prefix_upper_Cons:
  "prefix_upper (a # p) = (case prefix_upper p of
     Some u \<Rightarrow> Some (a # u) | None \<Rightarrow> if a < MAX_CODE_POINT then Some [Suc a] else None)"
  by (auto simp: prefix_upper_def raise_first_append split: option.split)

lemma prefix_interval_exact:
  assumes "list_all (\<lambda>c. c \<le> MAX_CODE_POINT) ks" "list_all (\<lambda>c. c \<le> MAX_CODE_POINT) p"
  shows "(p \<le> ks \<and> (case prefix_upper p of None \<Rightarrow> True | Some u \<Rightarrow> ks < u) \<longleftrightarrow> take (length p) ks = p) \<and>
    (encode p \<le> encode ks \<and> (case prefix_upper p of None \<Rightarrow> True | Some u \<Rightarrow> encode ks < encode u) \<longleftrightarrow>
       starts_with (encode ks) (encode p))"
proof -
  have points: "p \<le> ks \<and> (case prefix_upper p of None \<Rightarrow> True | Some u \<Rightarrow> ks < u) \<longleftrightarrow> take (length p) ks = p"
    if "list_all (\<lambda>c. c \<le> MAX_CODE_POINT) ks" for p ks
    using that
  proof (induction p arbitrary: ks)
    case Nil
    show ?case by (simp add: prefix_upper_def)
  next
    case (Cons a p)
    show ?case
    proof (cases ks)
      case (Cons b ks')
      with Cons.IH [of ks'] Cons.prems show ?thesis
        by (auto simp: prefix_upper_Cons less_Suc_eq split: option.splits)
    qed simp
  qed
  have bound: "list_all (\<lambda>c. c \<le> MAX_CODE_POINT) u" if "prefix_upper p = Some u" for u
    using that assms(2)
    by (induction p arbitrary: u) (auto simp: prefix_upper_Cons prefix_upper_Nil split: option.splits if_splits)
  show ?thesis
    using points [OF assms(1), of p] encode_prefix_iff [OF assms(2,1)] encode_le_iff [OF assms(2,1)]
      encode_less_iff [OF assms(1) bound]
    by (auto split: option.splits)
qed

text \<open>
  The prefix interval is exact. Among strings of code points, those from \<open>prefix\<close> up to (and
  excluding) \<open>_prefix_upper(prefix)\<close> are exactly the ones that start with \<open>prefix\<close>; when there is
  no upper bound, those from \<open>prefix\<close> on are. The same holds of the UTF-8 bytes SQLite compares.
\<close>

theorem prefix_upper_is_exact:
  assumes "list_all (\<lambda>c. c \<le> MAX_CODE_POINT) ks" "list_all (\<lambda>c. c \<le> MAX_CODE_POINT) p"
  shows "(p \<le> ks \<and> (case prefix_upper p of None \<Rightarrow> True | Some u \<Rightarrow> ks < u) \<longleftrightarrow> take (length p) ks = p) \<and>
    (encode p \<le> encode ks \<and> (case prefix_upper p of None \<Rightarrow> True | Some u \<Rightarrow> encode ks < encode u) \<longleftrightarrow>
       starts_with (encode ks) (encode p))"
  by (rule prefix_interval_exact [OF assms])

theorem prefix_upper_is_exact_witness:
  "prefix_upper [97, MAX_CODE_POINT] = Some [98] \<and>
     [97, MAX_CODE_POINT] \<le> [97, MAX_CODE_POINT, 5] \<and> [97, MAX_CODE_POINT, 5] < [98]"
  using conjunct1 [OF prefix_upper_is_exact [of "[97, MAX_CODE_POINT, 5]" "[97, MAX_CODE_POINT]"]]
  by (simp add: prefix_upper_def MAX_CODE_POINT_def)

end
