(* ===== verification/HeadReader.thy ===== *)
theory HeadReader
  imports Utf8 JournalRun
begin

text \<open>
  \<open>_HeadRowReader\<close> of \<open>universal_cell.py\<close>: reads of one revision of a journal, with a bounded
  cache of Cells and a bounded cache of absent identities, both least recently used first. The
  reader is explicit state; the journal it reads is an argument of every read, because commits
  go on changing it. \<open>sys.getsizeof\<close> is the parameter \<open>sizes\<close>: the sizes of strings, byte strings,
  Cells and of the two containers are whatever the interpreter says.
\<close>

section \<open>State\<close>

record sizes =
  sz_text :: "string \<Rightarrow> nat"
  sz_atom :: "bytes \<Rightarrow> nat"
  sz_cell :: "cell \<Rightarrow> nat"
  sz_cache :: "(string \<times> cell) list \<Rightarrow> nat"
  sz_numbers :: "(string \<times> nat) list \<Rightarrow> nat"

record head_reader =
  hr_base :: nat
  hr_cache :: "(string \<times> cell) list"
  hr_costs :: "(string \<times> nat) list"
  hr_bytes :: int
  hr_missing :: "(string \<times> nat) list"
  hr_missing_bytes :: int
  hr_closing :: bool

definition MAX_CACHE_ENTRIES :: nat where "MAX_CACHE_ENTRIES = 262144"
definition MAX_CACHE_BYTES :: int where "MAX_CACHE_BYTES = 256 * 1024 * 1024"
definition MAX_MISSING_ENTRIES :: nat where "MAX_MISSING_ENTRIES = 32768"
definition MAX_MISSING_BYTES :: int where "MAX_MISSING_BYTES = 4 * 1024 * 1024"
definition BATCH_SIZE :: nat where "BATCH_SIZE = 128"
definition MAX_REGION_CELLS :: nat where "MAX_REGION_CELLS = 8192"
definition MAX_REGION_DEPTH :: nat where "MAX_REGION_DEPTH = 8"

text \<open>A new reader is pinned to the given revision, by default the last one.\<close>

definition new_head_reader :: "nat \<Rightarrow> head_reader" where
  "new_head_reader base = \<lparr>hr_base = base, hr_cache = [], hr_costs = [], hr_bytes = 0, hr_missing = [],
     hr_missing_bytes = 0, hr_closing = False\<rparr>"

definition cell_cost :: "sizes \<Rightarrow> string \<Rightarrow> cell \<Rightarrow> nat" where
  "cell_cost sz key c = sz_text sz key + sz_cell sz c +
     (sz_text sz (cid c) + sz_text sz (link0 c) + sz_text sz (link1 c) + sz_atom sz (atom c)) + 192"

definition positive_size :: "sizes \<Rightarrow> (string \<times> cell) list \<Rightarrow> (string \<times> nat) list \<Rightarrow> int \<Rightarrow> int" where
  "positive_size sz cache costs bytes = bytes + int (sz_cache sz cache) + int (sz_numbers sz costs)"

definition negative_size :: "sizes \<Rightarrow> (string \<times> nat) list \<Rightarrow> int \<Rightarrow> int" where
  "negative_size sz missing bytes = bytes + int (sz_numbers sz missing)"

section \<open>The caches\<close>

text \<open>The two eviction loops: the oldest entry goes while a bound is exceeded.\<close>

fun evict_cells ::
  "sizes \<Rightarrow> (string \<times> cell) list \<Rightarrow> (string \<times> nat) list \<Rightarrow> int \<Rightarrow>
     (string \<times> cell) list \<times> (string \<times> nat) list \<times> int" where
  "evict_cells sz [] costs bytes = ([], costs, bytes)"
| "evict_cells sz ((k, c) # cache) costs bytes =
     (if MAX_CACHE_ENTRIES < length ((k, c) # cache) \<or>
         MAX_CACHE_BYTES < positive_size sz ((k, c) # cache) costs bytes
      then evict_cells sz cache (AList.delete k costs) (bytes - int (the (map_of costs k)))
      else ((k, c) # cache, costs, bytes))"

fun evict_missing :: "sizes \<Rightarrow> (string \<times> nat) list \<Rightarrow> int \<Rightarrow> (string \<times> nat) list \<times> int" where
  "evict_missing sz [] bytes = ([], bytes)"
| "evict_missing sz ((k, n) # missing) bytes =
     (if MAX_MISSING_ENTRIES < length ((k, n) # missing) \<or>
         MAX_MISSING_BYTES < negative_size sz ((k, n) # missing) bytes
      then evict_missing sz missing (bytes - int n)
      else ((k, n) # missing, bytes))"

definition forget_missing :: "string \<Rightarrow> head_reader \<Rightarrow> head_reader" where
  "forget_missing key h =
     (case map_of (hr_missing h) key of
        None \<Rightarrow> h
      | Some n \<Rightarrow> h\<lparr>hr_missing := AList.delete key (hr_missing h),
                   hr_missing_bytes := hr_missing_bytes h - int n\<rparr>)"

definition remember_cell :: "sizes \<Rightarrow> string \<Rightarrow> cell \<Rightarrow> head_reader \<Rightarrow> head_reader" where
  "remember_cell sz key c h0 =
     (let h = forget_missing key h0; cost = cell_cost sz key c in
      if map_of (hr_cache h) key \<noteq> None then h\<lparr>hr_cache := od_touch key (hr_cache h)\<rparr>
      else if MAX_CACHE_BYTES < int cost + 1024 then h
      else let (cache, costs, bytes) = evict_cells sz (hr_cache h @ [(key, c)])
                 (AList.update key cost (hr_costs h)) (hr_bytes h + int cost)
           in h\<lparr>hr_cache := cache, hr_costs := (if cache = [] then [] else costs), hr_bytes := bytes\<rparr>)"

definition remember_missing :: "sizes \<Rightarrow> string \<Rightarrow> head_reader \<Rightarrow> head_reader" where
  "remember_missing sz key h =
     (let cost = sz_text sz key + 96 in
      if map_of (hr_missing h) key \<noteq> None then h\<lparr>hr_missing := od_touch key (hr_missing h)\<rparr>
      else if MAX_MISSING_BYTES < int cost + 512 then h
      else let (missing, bytes) = evict_missing sz (hr_missing h @ [(key, cost)])
                 (hr_missing_bytes h + int cost)
           in h\<lparr>hr_missing := missing, hr_missing_bytes := bytes\<rparr>)"

text \<open>
  \<open>hand_over\<close>: the entries for identities not rewritten between the two bases move to the
  successor, whose own entries win and are the newer ones. \<open>foreign\<close> says that the successor is the
  reader itself or has another lock.
\<close>

definition hand_over ::
  "sizes \<Rightarrow> bool \<Rightarrow> string set \<Rightarrow> head_reader \<Rightarrow> head_reader \<Rightarrow> head_reader \<times> head_reader" where
  "hand_over sz foreign rewritten h s =
     (if foreign then (h, s)
      else
        let kept = filter (\<lambda>(k, v). k \<notin> rewritten \<and> map_of (hr_cache s) k = None) (hr_cache h);
            moved = kept @ hr_cache s;
            costs = map (\<lambda>(k, v). (k, the (map_of (hr_costs h) k))) kept @ hr_costs s;
            missing0 = filter (\<lambda>(k, n). k \<notin> rewritten \<and> map_of moved k = None) (hr_missing h);
            missing = foldl (\<lambda>al (k, n). AList.update k n al) missing0 (hr_missing s);
            (cache, costs', bytes) = evict_cells sz moved costs (\<Sum>(k, n) \<leftarrow> costs. int n);
            (missing', mbytes) = evict_missing sz missing (\<Sum>(k, n) \<leftarrow> missing. int n)
        in (h\<lparr>hr_cache := [], hr_costs := [], hr_bytes := 0, hr_missing := [], hr_missing_bytes := 0\<rparr>,
            s\<lparr>hr_cache := cache, hr_costs := costs', hr_bytes := bytes, hr_missing := missing',
              hr_missing_bytes := mbytes\<rparr>))"

section \<open>Reads\<close>

text \<open>Every read first checks that the journal is not closing.\<close>

definition when_open :: "head_reader \<Rightarrow> (head_reader \<Rightarrow> head_reader \<times> 'a) \<Rightarrow> head_reader \<times> 'a result" where
  "when_open h f =
     (if hr_closing h then (h, Inl (InvalidCell ''cell store reader is closing or closed''))
      else (case f h of (h', x) \<Rightarrow> (h', Inr x)))"

text \<open>\<open>read\<close>: a cached Cell, a cached absence, or a row of the pinned revision.\<close>

definition read_row :: "sizes \<Rightarrow> journal \<Rightarrow> string \<Rightarrow> head_reader \<Rightarrow> head_reader \<times> cell option" where
  "read_row sz j key h =
     (case map_of (hr_cache h) key of
        Some c \<Rightarrow> (h\<lparr>hr_cache := od_touch key (hr_cache h)\<rparr>, Some c)
      | None \<Rightarrow>
          if map_of (hr_missing h) key \<noteq> None
          then (h\<lparr>hr_missing := od_touch key (hr_missing h)\<rparr>, None)
          else (case point_read j (hr_base h) key of
                  None \<Rightarrow> (remember_missing sz key h, None)
                | Some c \<Rightarrow> (remember_cell sz key c h, Some c)))"

definition reader_read :: "sizes \<Rightarrow> journal \<Rightarrow> string \<Rightarrow> head_reader \<Rightarrow> head_reader \<times> cell option result" where
  "reader_read sz j key h = when_open h (read_row sz j key)"

text \<open>\<open>_prefetch_batch\<close>: one query over the head index, one over the history for the rest.\<close>

definition prefetch_batch :: "sizes \<Rightarrow> journal \<Rightarrow> string list \<Rightarrow> head_reader \<Rightarrow> head_reader" where
  "prefetch_batch sz j batch h =
     (let wanted = dedup (filter (\<lambda>k. map_of (hr_cache h) k = None \<and> map_of (hr_missing h) k = None) batch);
          current = (\<lambda>k. case map_of (j_current j) k of
                       Some (v, c) \<Rightarrow> if v \<le> hr_base h then Some c else None
                     | None \<Rightarrow> None);
          remaining = filter (\<lambda>k. current k = None) wanted;
          past = (\<lambda>k. map_option snd (newest_at (j_versions j) k (hr_base h)));
          h1 = foldl (\<lambda>h k. case current k of None \<Rightarrow> h | Some c \<Rightarrow> remember_cell sz k c h) h wanted;
          h2 = foldl (\<lambda>h k. case past k of None \<Rightarrow> h | Some c \<Rightarrow> remember_cell sz k c h) h1 remaining
      in foldl (\<lambda>h k. if past k = None then remember_missing sz k h else h) h2 remaining)"

fun chunks_of :: "nat \<Rightarrow> 'a list \<Rightarrow> 'a list list" where
  "chunks_of n [] = []"
| "chunks_of n (x # xs) = take (max 1 n) (x # xs) # chunks_of n (drop (max 1 n) (x # xs))"

definition prefetch :: "sizes \<Rightarrow> journal \<Rightarrow> string list \<Rightarrow> head_reader \<Rightarrow> head_reader \<times> unit result" where
  "prefetch sz j ids h =
     (if ids = [] then (h, Inr ())
      else when_open h (\<lambda>h. (foldl (\<lambda>h batch. prefetch_batch sz j batch h) h (chunks_of BATCH_SIZE ids), ())))"

text \<open>
  \<open>prefetch_region\<close>: breadth first from the root; an identity is queued once, and never more than
  \<open>limit\<close> of them. The unread part of the frontier is the argument.
\<close>

definition enqueue :: "nat \<Rightarrow> nat \<Rightarrow> string list \<Rightarrow> (string \<times> nat) list \<times> string list \<Rightarrow>
    (string \<times> nat) list \<times> string list" where
  "enqueue limit level targets fq =
     foldl (\<lambda>(frontier, queued) t. if t \<notin> set queued \<and> length queued < limit
              then (frontier @ [(t, level)], queued @ [t]) else (frontier, queued)) fq targets"

lemma enqueue_measure:
  assumes "enqueue limit level ts (frontier, queued) = (frontier', queued')"
  shows "length frontier' + (limit - length queued') = length frontier + (limit - length queued)"
  using assms
proof (induction ts arbitrary: frontier queued)
  case (Cons t ts)
  show ?case
  proof (cases "t \<notin> set queued \<and> length queued < limit")
    case True
    with Cons.prems have "enqueue limit level ts (frontier @ [(t, level)], queued @ [t]) = (frontier', queued')"
      by (simp add: enqueue_def)
    from Cons.IH [OF this] True show ?thesis by (cases "limit - length queued") auto
  next
    case False
    with Cons.prems have "enqueue limit level ts (frontier, queued) = (frontier', queued')"
      by (simp add: enqueue_def)
    from Cons.IH [OF this] show ?thesis .
  qed
qed (simp add: enqueue_def)

function region ::
  "sizes \<Rightarrow> journal \<Rightarrow> nat \<Rightarrow> nat \<Rightarrow> (string \<times> nat) list \<Rightarrow> string list \<Rightarrow> nat \<Rightarrow> head_reader \<Rightarrow> head_reader \<times> nat" where
  "region sz j limit depth [] queued found h = (h, found)"
| "region sz j limit depth ((key, level) # frontier) queued found h =
     (case read_row sz j key h of
        (h', None) \<Rightarrow> region sz j limit depth frontier queued found h'
      | (h', Some c) \<Rightarrow>
          let (frontier', queued') =
                (if level < depth then enqueue limit (Suc level) [link0 c, link1 c] (frontier, queued)
                 else (frontier, queued))
          in region sz j limit depth frontier' queued' (Suc found) h')"
  by pat_completeness auto

termination
proof (relation "measure (\<lambda>(sz, j, limit, depth, frontier, queued, found, h). length frontier + (limit - length queued))")
  fix sz :: sizes and j limit depth key level frontier queued found h and x :: "head_reader \<times> cell option"
    and h' y and c :: cell and z :: "(string \<times> nat) list \<times> string list" and frontier' queued'
  assume z: "z = (if level < depth then enqueue limit (Suc level) [link0 c, link1 c] (frontier, queued)
      else (frontier, queued))" and "(frontier', queued') = z"
  then have "length frontier' + (limit - length queued') = length frontier + (limit - length queued)"
    using enqueue_measure [of limit "Suc level" "[link0 c, link1 c]" frontier queued frontier' queued']
    by (auto split: if_splits)
  then show "((sz, j, limit, depth, frontier', queued', Suc found, h'),
      (sz, j, limit, depth, (key, level) # frontier, queued, found, h))
    \<in> measure (\<lambda>(sz, j, limit, depth, frontier, queued, found, h). length frontier + (limit - length queued))"
    by simp
qed auto

definition prefetch_region ::
  "sizes \<Rightarrow> journal \<Rightarrow> string \<Rightarrow> int \<Rightarrow> int \<Rightarrow> head_reader \<Rightarrow> head_reader \<times> nat result" where
  "prefetch_region sz j root limit depth h =
     (let limit' = nat (min (int MAX_REGION_CELLS) (max 0 limit));
          depth' = nat (min (int MAX_REGION_DEPTH) (max 0 depth))
      in if limit' = 0 then (h, Inr 0)
         else when_open h (region sz j limit' depth' [(root, 0)] [root] 0))"

definition cache_stats :: "sizes \<Rightarrow> head_reader \<Rightarrow> nat \<times> nat \<times> int \<times> nat \<times> int" where
  "cache_stats sz h =
     (hr_base h, length (hr_cache h), positive_size sz (hr_cache h) (hr_costs h) (hr_bytes h),
      length (hr_missing h), negative_size sz (hr_missing h) (hr_missing_bytes h))"

section \<open>Streams\<close>

text \<open>
  \<open>_id_windows\<close>: pages of the head index in identity order, each one starting after the last row
  of the page before. A row is its identity with its revision.
\<close>

type_synonym window = "string \<times> string option \<times> string option"

definition window_rows :: "journal \<Rightarrow> nat \<Rightarrow> window \<Rightarrow> string option \<Rightarrow> (string \<times> nat) list" where
  "window_rows j base w last_id =
     (case w of (prefix, upper, target) \<Rightarrow>
       map (\<lambda>(k, v, c). (k, v))
         (filter (\<lambda>(k, v, c). (case last_id of None \<Rightarrow> prefix \<le> k | Some l \<Rightarrow> l < k) \<and>
              (case upper of None \<Rightarrow> True | Some u \<Rightarrow> k < u) \<and>
              (case target of None \<Rightarrow> True | Some t \<Rightarrow> (v \<le> base \<and> link0 c = t) \<or> base < v))
            (sort_key fst (j_current j))))"

lemma window_rows_later:
  assumes "l \<in> fst ` set (window_rows j base w last_id)"
  shows "window_rows j base w (Some l) = filter (\<lambda>x. l < fst x) (window_rows j base w last_id)"
proof -
  obtain prefix upper target where w: "w = (prefix, upper, target)" by (cases w)
  have low: "case last_id of None \<Rightarrow> prefix \<le> l | Some m \<Rightarrow> m < l"
    using assms by (auto simp: window_rows_def w split: option.splits)
  have later: "(case last_id of None \<Rightarrow> prefix \<le> k | Some m \<Rightarrow> m < k)" if "l < k" for k
    using low that by (cases last_id) auto
  have keep: "map (\<lambda>(k, v, c). (k, v)) (filter Q xs) = filter (\<lambda>x. l < fst x) (map (\<lambda>(k, v, c). (k, v)) (filter P xs))"
    if "\<And>k v c. Q (k, v, c) \<longleftrightarrow> l < k \<and> P (k, v, c)" for P Q and xs :: "(string \<times> nat \<times> cell) list"
  proof (induction xs)
    case (Cons x xs)
    then show ?case using that by (cases x) auto
  qed simp
  show ?thesis
    unfolding window_rows_def w prod.case option.case by (rule keep) (use later in auto)
qed

lemma window_rows_shrink:
  assumes "rows = take BATCH_SIZE (window_rows j base w last_id)" "rows \<noteq> []"
  shows "length (window_rows j base w (Some (fst (last rows)))) < length (window_rows j base w last_id)"
proof -
  let ?W = "window_rows j base w last_id" and ?l = "fst (last rows)"
  have "last rows \<in> set ?W" using assms by (metis in_set_takeD last_in_set)
  then have "?l \<in> fst ` set ?W" "last rows \<in> set ?W" by auto
  then have "length (filter (\<lambda>x. ?l < fst x) ?W) < length ?W"
    by (intro length_filter_less [of "last rows"]) auto
  with window_rows_later [OF \<open>?l \<in> fst ` set ?W\<close>] show ?thesis by simp
qed

function id_windows :: "journal \<Rightarrow> nat \<Rightarrow> window \<Rightarrow> string option \<Rightarrow> (string \<times> nat) list" where
  "id_windows j base w last_id =
     (let rows = take BATCH_SIZE (window_rows j base w last_id)
      in if rows = [] then [] else rows @ id_windows j base w (Some (fst (last rows))))"
  by pat_completeness auto

termination
  by (relation "measure (\<lambda>(j, base, w, last_id). length (window_rows j base w last_id))")
    (auto simp del: take_eq_Nil intro: window_rows_shrink)

declare id_windows.simps [simp del]

text \<open>
  The streams over the pages. Whether a row newer than the pinned revision existed there is asked
  of the history.
\<close>

definition existed :: "journal \<Rightarrow> nat \<Rightarrow> string \<times> nat \<Rightarrow> bool" where
  "existed j base row \<longleftrightarrow> snd row \<le> base \<or> endpoint (j_versions j) (fst row) base"

definition stream_ids_with_prefix :: "journal \<Rightarrow> nat list \<Rightarrow> head_reader \<Rightarrow> head_reader \<times> string list result" where
  "stream_ids_with_prefix j prefix h =
     (if hr_closing h then (h, Inl (InvalidCell ''cell store reader is closing or closed''))
      else (h, rbind (bind_text prefix) (\<lambda>low.
               rbind (case prefix_upper prefix of None \<Rightarrow> Inr None | Some u \<Rightarrow> rbind (bind_text u) (\<lambda>b. Inr (Some b)))
                 (\<lambda>upper. Inr (map fst (filter (existed j (hr_base h)) (id_windows j (hr_base h) (low, upper, None) None)))))))"

definition stream_ids :: "journal \<Rightarrow> head_reader \<Rightarrow> head_reader \<times> string list result" where
  "stream_ids j h = stream_ids_with_prefix j [] h"

fun stream_reads ::
  "sizes \<Rightarrow> journal \<Rightarrow> string \<Rightarrow> (string \<times> nat) list \<Rightarrow> head_reader \<Rightarrow> head_reader \<times> cell list" where
  "stream_reads sz j target [] h = (h, [])"
| "stream_reads sz j target ((k, v) # rows) h =
     (let (h1, c) = read_row sz j k h; (h2, cs) = stream_reads sz j target rows h1
      in (h2, case c of None \<Rightarrow> cs | Some x \<Rightarrow> if link0 x = target then x # cs else cs))"

definition stream_cells_with_link0 ::
  "sizes \<Rightarrow> journal \<Rightarrow> string \<Rightarrow> head_reader \<Rightarrow> head_reader \<times> cell list result" where
  "stream_cells_with_link0 sz j target h =
     when_open h (stream_reads sz j target (id_windows j (hr_base h) ([], None, Some target) None))"

definition reader_count :: "journal \<Rightarrow> head_reader \<Rightarrow> head_reader \<times> nat result" where
  "reader_count j h = when_open h (\<lambda>h. (h,
     length (filter (\<lambda>(k, v, c). v \<le> hr_base h) (j_current j)) +
     length (filter (\<lambda>(k, v, c). hr_base h < v \<and> endpoint (j_versions j) k (hr_base h)) (j_current j))))"

end
