(* ===== verification/HeadReaderLaws.thy ===== *)
theory HeadReaderLaws
  imports HeadReader StoreLaws
begin

text \<open>
  The laws of the head reader. \<open>sound\<close>: every cached Cell and every cached absence is what the
  pinned revision holds. \<open>accounted\<close>: the byte counters are the sums of the costs, and both caches
  are within their bounds. Every operation keeps both, also while the journal grows, so that a
  read answers with the graph of the pinned revision and nothing else.
\<close>

section \<open>Accounting\<close>

definition cost_sum :: "(string \<times> nat) list \<Rightarrow> int" where
  "cost_sum al = (\<Sum>(k, n) \<leftarrow> al. int n)"

lemma cost_sum_simps [simp]: "cost_sum [] = 0" "cost_sum ((k, n) # al) = int n + cost_sum al"
  "cost_sum (xs @ ys) = cost_sum xs + cost_sum ys"
  by (simp_all add: cost_sum_def)

lemma cost_sum_nonneg [simp]: "0 \<le> cost_sum al"
  by (induction al) (auto simp: cost_sum_def)

lemma cost_sum_delete:
  "keys_distinct al \<Longrightarrow> map_of al k = Some n \<Longrightarrow> cost_sum (AList.delete k al) = cost_sum al - int n"
proof (induction al)
  case (Cons e al)
  obtain k' n' where e: "e = (k', n')" by (cases e)
  show ?case
  proof (cases "k' = k")
    case True
    with Cons.prems e have "AList.delete k al = al" by (auto intro: AList.delete_idem)
    with True Cons.prems e show ?thesis by simp
  next
    case False
    with Cons e show ?thesis by simp
  qed
qed simp

definition accounted :: "sizes \<Rightarrow> (string \<times> cell) list \<Rightarrow> (string \<times> nat) list \<Rightarrow> int \<Rightarrow> bool" where
  "accounted sz cache costs bytes \<longleftrightarrow> keys_distinct cache \<and> keys_distinct costs \<and> bytes = cost_sum costs \<and>
     map_of costs = (\<lambda>k. map_option (cell_cost sz k) (map_of cache k))"

lemma accounted_empty: "accounted sz [] costs bytes \<Longrightarrow> costs = []"
  by (simp add: accounted_def)

lemma accounted_tail:
  assumes "accounted sz ((k, c) # cache) costs bytes"
  shows "accounted sz cache (AList.delete k costs) (bytes - int (the (map_of costs k)))"
proof -
  have costs: "map_of costs k = Some (cell_cost sz k c)" and d: "keys_distinct costs" "map_of cache k = None"
    using assms by (auto simp: accounted_def map_of_eq_None_iff simp del: map_of_eq_Some_iff)
  have "map_of (AList.delete k costs) = (\<lambda>k. map_option (cell_cost sz k) (map_of cache k))"
    using assms d(2) by (auto simp: accounted_def AList.delete_conv' fun_eq_iff simp del: map_of_eq_Some_iff)
  with assms costs d cost_sum_delete [OF d(1) costs] show ?thesis
    by (simp add: accounted_def keys_distinct_delete)
qed

lemma evict_cells_ok:
  assumes "accounted sz cache costs bytes" "evict_cells sz cache costs bytes = (cache', costs', bytes')"
  shows "accounted sz cache' costs' bytes' \<and> (\<exists>dropped. cache = dropped @ cache') \<and>
    length cache' \<le> MAX_CACHE_ENTRIES \<and> bytes' \<le> MAX_CACHE_BYTES"
  using assms
proof (induction sz cache costs bytes rule: evict_cells.induct)
  case (1 sz costs bytes)
  then show ?case by (auto simp: accounted_def MAX_CACHE_BYTES_def MAX_CACHE_ENTRIES_def)
next
  case (2 sz k c cache costs bytes)
  show ?case
  proof (cases "MAX_CACHE_ENTRIES < length ((k, c) # cache) \<or>
      MAX_CACHE_BYTES < positive_size sz ((k, c) # cache) costs bytes")
    case True
    with "2.IH" [OF True accounted_tail [OF "2.prems"(1)]] "2.prems"(2) show ?thesis
      by (auto simp del: append_Cons simp: append_Cons [symmetric])
  next
    case False
    with "2.prems" show ?thesis by (auto simp: positive_size_def)
  qed
qed

lemma evict_missing_ok:
  assumes "keys_distinct m" "bytes = cost_sum m" "evict_missing sz m bytes = (m', bytes')"
  shows "keys_distinct m' \<and> bytes' = cost_sum m' \<and> (\<exists>dropped. m = dropped @ m') \<and>
    length m' \<le> MAX_MISSING_ENTRIES \<and> bytes' \<le> MAX_MISSING_BYTES"
  using assms
proof (induction sz m bytes rule: evict_missing.induct)
  case (1 sz bytes)
  then show ?case by (auto simp: MAX_MISSING_BYTES_def)
next
  case (2 sz k n m bytes)
  show ?case
  proof (cases "MAX_MISSING_ENTRIES < length ((k, n) # m) \<or> MAX_MISSING_BYTES < negative_size sz ((k, n) # m) bytes")
    case True
    with "2.IH" [OF True] "2.prems" have "keys_distinct m' \<and> bytes' = cost_sum m' \<and> (\<exists>dropped. m = dropped @ m') \<and>
        length m' \<le> MAX_MISSING_ENTRIES \<and> bytes' \<le> MAX_MISSING_BYTES" by simp
    then show ?thesis by (auto intro: exI [of _ "(k, n) # _"])
  next
    case False
    with "2.prems" show ?thesis by (auto simp: negative_size_def)
  qed
qed

section \<open>The invariant\<close>

definition sound :: "journal \<Rightarrow> head_reader \<Rightarrow> bool" where
  "sound j h \<longleftrightarrow> journal_ok j \<and> hr_base h \<le> head_of j \<and>
     entries_ok (\<lambda>k c. state_at (j_versions j) (hr_base h) k = Some c) (hr_cache h) \<and>
     entries_ok (\<lambda>k n. state_at (j_versions j) (hr_base h) k = None) (hr_missing h)"

definition bounded :: "sizes \<Rightarrow> head_reader \<Rightarrow> bool" where
  "bounded sz h \<longleftrightarrow> accounted sz (hr_cache h) (hr_costs h) (hr_bytes h) \<and>
     keys_distinct (hr_missing h) \<and> hr_missing_bytes h = cost_sum (hr_missing h) \<and>
     length (hr_cache h) \<le> MAX_CACHE_ENTRIES \<and> hr_bytes h \<le> MAX_CACHE_BYTES \<and>
     length (hr_missing h) \<le> MAX_MISSING_ENTRIES \<and> hr_missing_bytes h \<le> MAX_MISSING_BYTES"

lemma entries_ok_iff: "entries_ok P al \<longleftrightarrow> keys_distinct al \<and> (\<forall>(k, v) \<in> set al. P k v)"
  unfolding entries_ok_def by (auto dest: map_of_SomeD)

lemma entries_ok_append:
  "entries_ok P (xs @ ys) \<longleftrightarrow> entries_ok P xs \<and> entries_ok P ys \<and> fst ` set xs \<inter> fst ` set ys = {}"
  by (auto simp: entries_ok_iff)

lemma entries_ok_new: "entries_ok P al \<Longrightarrow> map_of al k = None \<Longrightarrow> P k v \<Longrightarrow> entries_ok P (al @ [(k, v)])"
  by (auto simp: entries_ok_iff map_of_eq_None_iff)

text \<open>A row of the pinned revision, through the head index or the history.\<close>

lemma point_read_ok:
  assumes "journal_ok j" "base \<le> head_of j"
  shows "point_read j base k = state_at (j_versions j) base k"
proof (cases "map_of (j_current j) k")
  case None
  then show ?thesis by (simp add: point_read_def state_at_def)
next
  case (Some x)
  obtain v c where x: "x = (v, c)" by (cases x)
  show ?thesis
  proof (cases "v \<le> base")
    case True
    have head: "newest_at (j_versions j) k (head_of j) = Some (v, c)"
      using journal_okD(10) [OF assms(1), of k] Some x by simp
    note new = newest_at_Some [OF head]
    have "newest_at (j_versions j) k base = Some (v, c)"
      using new True assms(2) by (intro newest_atI journal_okD(2) [OF assms(1)]) auto
    with Some x True show ?thesis by (simp add: point_read_def state_at_def)
  next
    case False
    with Some x show ?thesis by (simp add: point_read_def state_at_def)
  qed
qed

section \<open>Operations keep it\<close>

definition head_inv :: "sizes \<Rightarrow> journal \<Rightarrow> head_reader \<Rightarrow> bool" where
  "head_inv sz j h \<longleftrightarrow> sound j h \<and> bounded sz h"

lemma new_head_reader_inv: "journal_ok j \<Longrightarrow> base \<le> head_of j \<Longrightarrow> head_inv sz j (new_head_reader base)"
  by (simp add: head_inv_def sound_def bounded_def new_head_reader_def accounted_def
      MAX_CACHE_BYTES_def MAX_MISSING_BYTES_def)

lemma bounded_forget: "bounded sz h \<Longrightarrow> bounded sz (forget_missing k h)"
  using cost_sum_delete [of "hr_missing h" k] length_delete_le [of k "hr_missing h"]
  by (auto simp: bounded_def forget_missing_def keys_distinct_delete split: option.split)

lemma sound_forget: "sound j h \<Longrightarrow> sound j (forget_missing k h)"
  by (auto simp: sound_def forget_missing_def entries_ok_delete split: option.split)

lemma forget_fields [simp]:
  "hr_base (forget_missing k h) = hr_base h" "hr_cache (forget_missing k h) = hr_cache h"
  "hr_costs (forget_missing k h) = hr_costs h" "hr_bytes (forget_missing k h) = hr_bytes h"
  "hr_closing (forget_missing k h) = hr_closing h"
  by (simp_all add: forget_missing_def split: option.split)

lemma accounted_touch: "accounted sz cache costs bytes \<Longrightarrow> accounted sz (od_touch k cache) costs bytes"
  by (simp add: accounted_def)

lemma length_od_touch: "keys_distinct al \<Longrightarrow> length (od_touch k al) = length al"
proof (cases "map_of al k")
  case (Some v)
  assume d: "keys_distinct al"
  from Some have k: "k \<in> set (map fst al)" by (auto dest: map_of_SomeD intro: rev_image_eqI)
  have "length (AList.delete k al) = length (removeAll k (map fst al))"
    by (metis AList.delete_keys length_map)
  also have "\<dots> = length al - 1"
    using k d by (metis distinct_remove1_removeAll length_map length_remove1)
  finally show ?thesis using Some k by (cases al) (auto simp: od_touch_def)
qed (simp add: od_touch_def)

lemma cost_sum_new: "map_of al k = None \<Longrightarrow> cost_sum (AList.update k n al) = cost_sum al + int n"
  by (induction al) auto

lemma accounted_add:
  assumes "accounted sz cache costs bytes" "map_of cache k = None"
  shows "accounted sz (cache @ [(k, c)]) (AList.update k (cell_cost sz k c) costs) (bytes + int (cell_cost sz k c))"
proof -
  have none: "map_of costs k = None" using assms by (simp add: accounted_def)
  have "map_of (AList.update k (cell_cost sz k c) costs) =
      (\<lambda>k'. map_option (cell_cost sz k') (map_of (cache @ [(k, c)]) k'))"
    using assms by (auto simp: accounted_def AList.update_conv' map_add_def fun_eq_iff split: option.splits
        simp del: map_of_eq_Some_iff)
  with cost_sum_new [OF none] assms show ?thesis
    by (auto simp: accounted_def map_of_eq_None_iff AList.distinct_update)
qed

lemma remember_cell_inv:
  assumes inv: "head_inv sz j h" and c: "state_at (j_versions j) (hr_base h) k = Some c"
  shows "head_inv sz j (remember_cell sz k c h)" "hr_base (remember_cell sz k c h) = hr_base h"
    "hr_closing (remember_cell sz k c h) = hr_closing h"
proof -
  let ?h = "forget_missing k h"
  have b: "bounded sz ?h" and s: "sound j ?h" using inv bounded_forget sound_forget by (auto simp: head_inv_def)
  show "hr_base (remember_cell sz k c h) = hr_base h" "hr_closing (remember_cell sz k c h) = hr_closing h"
    by (auto simp: remember_cell_def Let_def split: prod.split)
  show "head_inv sz j (remember_cell sz k c h)"
  proof (cases "map_of (hr_cache h) k = None \<and> int (cell_cost sz k c) + 1024 \<le> MAX_CACHE_BYTES")
    case False
    moreover have "head_inv sz j (?h\<lparr>hr_cache := od_touch k (hr_cache ?h)\<rparr>)"
      using b s accounted_touch [of sz "hr_cache ?h" "hr_costs ?h" "hr_bytes ?h" k]
        length_od_touch [OF entries_ok_distinct, of _ "hr_cache ?h" k]
      by (auto simp: head_inv_def bounded_def sound_def intro: entries_intros)
    ultimately show ?thesis using b s by (auto simp: remember_cell_def Let_def head_inv_def)
  next
    case True
    obtain cache costs bytes where ev: "evict_cells sz (hr_cache h @ [(k, c)])
        (AList.update k (cell_cost sz k c) (hr_costs h)) (hr_bytes h + int (cell_cost sz k c)) = (cache, costs, bytes)"
      by (cases "evict_cells sz (hr_cache h @ [(k, c)])
        (AList.update k (cell_cost sz k c) (hr_costs h)) (hr_bytes h + int (cell_cost sz k c))") auto
    have acc: "accounted sz (hr_cache h @ [(k, c)]) (AList.update k (cell_cost sz k c) (hr_costs h))
        (hr_bytes h + int (cell_cost sz k c))"
      using b True by (intro accounted_add) (auto simp: bounded_def)
    obtain dropped where ok: "accounted sz cache costs bytes" "hr_cache h @ [(k, c)] = dropped @ cache"
      "length cache \<le> MAX_CACHE_ENTRIES" "bytes \<le> MAX_CACHE_BYTES"
      using evict_cells_ok [OF acc ev] by blast
    have "entries_ok (\<lambda>k c. state_at (j_versions j) (hr_base h) k = Some c) (hr_cache h @ [(k, c)])"
      using s True c by (intro entries_ok_new) (auto simp: sound_def)
    then have "entries_ok (\<lambda>k c. state_at (j_versions j) (hr_base h) k = Some c) cache"
      unfolding ok(2) entries_ok_append by blast
    moreover have "costs = []" if "cache = []" using accounted_empty ok(1) that by blast
    ultimately show ?thesis
      using True ev ok b s by (auto simp: remember_cell_def Let_def head_inv_def bounded_def sound_def)
  qed
qed

lemma remember_missing_inv:
  assumes inv: "head_inv sz j h" and c: "state_at (j_versions j) (hr_base h) k = None"
  shows "head_inv sz j (remember_missing sz k h)" "hr_base (remember_missing sz k h) = hr_base h"
    "hr_closing (remember_missing sz k h) = hr_closing h"
proof -
  show "hr_base (remember_missing sz k h) = hr_base h" "hr_closing (remember_missing sz k h) = hr_closing h"
    by (auto simp: remember_missing_def Let_def split: prod.split)
  let ?m = "hr_missing h @ [(k, sz_text sz k + 96)]"
  show "head_inv sz j (remember_missing sz k h)"
  proof (cases "map_of (hr_missing h) k = None \<and> int (sz_text sz k + 96) + 512 \<le> MAX_MISSING_BYTES")
    case False
    have touched: "cost_sum (od_touch k m) = cost_sum m" if "keys_distinct m" for m
      using that cost_sum_delete [OF that] by (auto simp: od_touch_def split: option.split)
    have "head_inv sz j (h\<lparr>hr_missing := od_touch k (hr_missing h)\<rparr>)"
      using inv by (auto simp: head_inv_def bounded_def sound_def touched length_od_touch intro: entries_intros)
    with False inv show ?thesis by (auto simp: remember_missing_def Let_def)
  next
    case True
    obtain m bytes where ev: "evict_missing sz ?m (hr_missing_bytes h + int (sz_text sz k + 96)) = (m, bytes)"
      by fastforce
    have "keys_distinct ?m" "hr_missing_bytes h + int (sz_text sz k + 96) = cost_sum ?m"
      using inv True by (auto simp: head_inv_def bounded_def map_of_eq_None_iff)
    from evict_missing_ok [OF this ev] obtain dropped where ok: "keys_distinct m" "bytes = cost_sum m"
      "?m = dropped @ m" "length m \<le> MAX_MISSING_ENTRIES" "bytes \<le> MAX_MISSING_BYTES" by blast
    have "entries_ok (\<lambda>k n. state_at (j_versions j) (hr_base h) k = None) ?m"
      using inv True c by (intro entries_ok_new) (auto simp: head_inv_def sound_def)
    then have "entries_ok (\<lambda>k n. state_at (j_versions j) (hr_base h) k = None) m"
      unfolding ok(3) entries_ok_append by blast
    then show ?thesis
      using True ev ok inv by (auto simp: remember_missing_def Let_def head_inv_def bounded_def sound_def)
  qed
qed

text \<open>\<open>keeps\<close>: an operation that changes nothing but the caches, and keeps them sound.\<close>

definition keeps :: "sizes \<Rightarrow> journal \<Rightarrow> (head_reader \<Rightarrow> head_reader) \<Rightarrow> bool" where
  "keeps sz j f \<longleftrightarrow> (\<forall>h. head_inv sz j h \<longrightarrow>
     head_inv sz j (f h) \<and> hr_base (f h) = hr_base h \<and> hr_closing (f h) = hr_closing h)"

lemma keepsD: "keeps sz j f \<Longrightarrow> head_inv sz j h \<Longrightarrow> head_inv sz j (f h) \<and> hr_base (f h) = hr_base h \<and> hr_closing (f h) = hr_closing h"
  by (simp add: keeps_def)

lemma keeps_foldl: "(\<And>x. x \<in> set xs \<Longrightarrow> keeps sz j (\<lambda>h. f h x)) \<Longrightarrow> keeps sz j (\<lambda>h. foldl f h xs)"
proof (induction xs)
  case (Cons x xs)
  then have "keeps sz j (\<lambda>h. f h x)" "keeps sz j (\<lambda>h. foldl f h xs)" by auto
  then show ?case by (simp add: keeps_def)
qed (simp add: keeps_def)

lemma read_row_ok:
  assumes inv: "head_inv sz j h"
  shows "snd (read_row sz j k h) = state_at (j_versions j) (hr_base h) k"
    "head_inv sz j (fst (read_row sz j k h))" "hr_base (fst (read_row sz j k h)) = hr_base h"
    "hr_closing (fst (read_row sz j k h)) = hr_closing h"
proof -
  let ?g = "state_at (j_versions j) (hr_base h) k"
  have s: "sound j h" "bounded sz h" using inv by (auto simp: head_inv_def)
  then have row: "point_read j (hr_base h) k = ?g" by (auto simp: sound_def intro: point_read_ok)
  have hit: "?g = Some c" if "map_of (hr_cache h) k = Some c" for c
    using s(1) that by (auto simp: sound_def dest: entries_okD)
  have miss: "?g = None" if "map_of (hr_missing h) k = Some n" for n
    using s(1) that by (auto simp: sound_def dest: entries_okD)
  have t1: "head_inv sz j (h\<lparr>hr_cache := od_touch k (hr_cache h)\<rparr>)"
    using s accounted_touch [of sz "hr_cache h" "hr_costs h" "hr_bytes h" k]
      length_od_touch [OF entries_ok_distinct, of _ "hr_cache h" k]
    by (auto simp: head_inv_def bounded_def sound_def intro: entries_intros)
  have t2: "head_inv sz j (h\<lparr>hr_missing := od_touch k (hr_missing h)\<rparr>)"
  proof -
    have "cost_sum (od_touch k m) = cost_sum m" if "keys_distinct m" for m
      using that cost_sum_delete [OF that] by (auto simp: od_touch_def split: option.split)
    with s show ?thesis
      by (auto simp: head_inv_def bounded_def sound_def length_od_touch intro: entries_intros)
  qed
  have "snd (read_row sz j k h) = ?g \<and> head_inv sz j (fst (read_row sz j k h)) \<and>
      hr_base (fst (read_row sz j k h)) = hr_base h \<and> hr_closing (fst (read_row sz j k h)) = hr_closing h"
  proof (cases "map_of (hr_cache h) k")
    case (Some c)
    with hit t1 show ?thesis by (simp add: read_row_def del: map_of_eq_Some_iff)
  next
    case no_hit: None
    show ?thesis
    proof (cases "map_of (hr_missing h) k")
      case (Some n)
      with no_hit miss t2 show ?thesis by (simp add: read_row_def)
    next
      case None
      show ?thesis
      proof (cases ?g)
        case None
        with no_hit \<open>map_of (hr_missing h) k = None\<close> row remember_missing_inv [OF inv None] show ?thesis
          by (simp add: read_row_def)
      next
        case (Some c)
        with no_hit \<open>map_of (hr_missing h) k = None\<close> row remember_cell_inv [OF inv Some] show ?thesis
          by (simp add: read_row_def)
      qed
    qed
  qed
  then show "snd (read_row sz j k h) = ?g" "head_inv sz j (fst (read_row sz j k h))"
    "hr_base (fst (read_row sz j k h)) = hr_base h" "hr_closing (fst (read_row sz j k h)) = hr_closing h"
    by simp_all
qed

lemma read_row_keeps: "keeps sz j (\<lambda>h. fst (read_row sz j k h))"
  using read_row_ok by (simp add: keeps_def)

lemma prefetch_batch_keeps: "keeps sz j (prefetch_batch sz j batch)"
  unfolding keeps_def
proof (intro allI impI)
  fix h assume inv: "head_inv sz j h"
  let ?g = "state_at (j_versions j) (hr_base h)"
  define current where "current = (\<lambda>k. case map_of (j_current j) k of
       Some (v, c) \<Rightarrow> if v \<le> hr_base h then Some c else None | None \<Rightarrow> None)"
  have s: "journal_ok j" "hr_base h \<le> head_of j" using inv by (auto simp: head_inv_def sound_def)
  have cur: "current k = Some c \<Longrightarrow> ?g k = Some c" for k c
    using point_read_ok [OF s, of k] by (auto simp: current_def point_read_def split: option.splits if_splits)
  have past: "map_option snd (newest_at (j_versions j) k (hr_base h)) = ?g k" for k by (simp add: state_at_def)
  have put: "keeps sz j' (\<lambda>h'. h')" for j' by (simp add: keeps_def)
  have fold: "head_inv sz j (foldl f h' ks) \<and> hr_base (foldl f h' ks) = hr_base h \<and> hr_closing (foldl f h' ks) = hr_closing h"
    if "\<And>h' k. head_inv sz j h' \<Longrightarrow> hr_base h' = hr_base h \<Longrightarrow>
        head_inv sz j (f h' k) \<and> hr_base (f h' k) = hr_base h' \<and> hr_closing (f h' k) = hr_closing h'"
      and "head_inv sz j h'" "hr_base h' = hr_base h" "hr_closing h' = hr_closing h" for f h' and ks :: "string list"
    using that(2-)
  proof (induction ks arbitrary: h')
    case (Cons k ks)
    with that(1) [of h' k] show ?case by simp
  qed simp
  let ?wanted = "dedup (filter (\<lambda>k. map_of (hr_cache h) k = None \<and> map_of (hr_missing h) k = None) batch)"
  let ?rest = "filter (\<lambda>k. current k = None) ?wanted"
  let ?h1 = "foldl (\<lambda>h k. case current k of None \<Rightarrow> h | Some c \<Rightarrow> remember_cell sz k c h) h ?wanted"
  let ?h2 = "foldl (\<lambda>h' k. case ?g k of None \<Rightarrow> h' | Some c \<Rightarrow> remember_cell sz k c h') ?h1 ?rest"
  have h1: "head_inv sz j ?h1 \<and> hr_base ?h1 = hr_base h \<and> hr_closing ?h1 = hr_closing h"
    using inv by (intro fold) (auto simp: remember_cell_inv cur split: option.split)
  have h2: "head_inv sz j ?h2 \<and> hr_base ?h2 = hr_base h \<and> hr_closing ?h2 = hr_closing h"
    using h1 by (intro fold) (auto simp: remember_cell_inv split: option.split)
  have "prefetch_batch sz j batch h = foldl (\<lambda>h' k. if ?g k = None then remember_missing sz k h' else h') ?h2 ?rest"
    by (simp add: prefetch_batch_def Let_def current_def past)
  moreover have "head_inv sz j (foldl (\<lambda>h' k. if ?g k = None then remember_missing sz k h' else h') ?h2 ?rest) \<and>
      hr_base (foldl (\<lambda>h' k. if ?g k = None then remember_missing sz k h' else h') ?h2 ?rest) = hr_base h \<and>
      hr_closing (foldl (\<lambda>h' k. if ?g k = None then remember_missing sz k h' else h') ?h2 ?rest) = hr_closing h"
    using h2 by (intro fold) (auto simp: remember_missing_inv)
  ultimately show "head_inv sz j (prefetch_batch sz j batch h) \<and> hr_base (prefetch_batch sz j batch h) = hr_base h \<and>
      hr_closing (prefetch_batch sz j batch h) = hr_closing h" by simp
qed

lemma prefetch_keeps: "keeps sz j (\<lambda>h. fst (prefetch sz j ids h))"
proof -
  have "keeps sz j (\<lambda>h. foldl (\<lambda>h batch. prefetch_batch sz j batch h) h (chunks_of BATCH_SIZE ids))"
    by (intro keeps_foldl prefetch_batch_keeps)
  then show ?thesis by (simp add: keeps_def prefetch_def when_open_def)
qed

lemma enqueue_length:
  "enqueue limit level ts (f, q) = (f', q') \<Longrightarrow> length q \<le> limit \<Longrightarrow>
     length f' = length f + (length q' - length q) \<and> length q \<le> length q' \<and> length q' \<le> limit"
proof (induction ts arbitrary: f q)
  case (Cons t ts)
  show ?case
  proof (cases "t \<notin> set q \<and> length q < limit")
    case True
    with Cons.prems have "enqueue limit level ts (f @ [(t, level)], q @ [t]) = (f', q')" by (simp add: enqueue_def)
    from Cons.IH [OF this] True show ?thesis by auto
  next
    case False
    with Cons.prems have "enqueue limit level ts (f, q) = (f', q')" by (simp add: enqueue_def)
    from Cons.IH [OF this Cons.prems(2)] show ?thesis .
  qed
qed (simp add: enqueue_def)

lemma region_ok:
  assumes "head_inv sz j h" "length queued \<le> limit" "found + length frontier \<le> length queued"
    and "region sz j limit depth frontier queued found h = (h', n)"
  shows "head_inv sz j h' \<and> hr_base h' = hr_base h \<and> hr_closing h' = hr_closing h \<and> n \<le> limit"
  using assms
proof (induction sz j limit depth frontier queued found h rule: region.induct)
  case (1 sz j limit depth queued found h)
  then show ?case by simp
next
  case (2 sz j limit depth key level frontier queued found h)
  note R = read_row_ok [OF "2.prems"(1), of key]
  obtain h1 c where r: "read_row sz j key h = (h1, c)" by fastforce
  with R have h1: "head_inv sz j h1" "hr_base h1 = hr_base h" "hr_closing h1 = hr_closing h" by auto
  show ?case
  proof (cases c)
    case None
    from "2.IH"(1) [OF r [unfolded None, symmetric] refl h1(1) "2.prems"(2)] "2.prems"(3,4) r None h1 show ?thesis by simp
  next
    case (Some x)
    obtain f' q' where fq: "(if level < depth then enqueue limit (Suc level) [link0 x, link1 x] (frontier, queued)
        else (frontier, queued)) = (f', q')" by fastforce
    then have len: "length q' \<le> limit" "Suc found + length f' \<le> length q'"
      using "2.prems"(2,3) enqueue_length [of limit "Suc level" "[link0 x, link1 x]" frontier queued f' q']
      by (auto split: if_splits)
    have "region sz j limit depth f' q' (Suc found) h1 = (h', n)"
      using "2.prems"(4) r Some fq by simp
    from "2.IH"(2) [OF r [unfolded Some, symmetric] refl fq [symmetric] refl h1(1) len this] h1 show ?thesis by simp
  qed
qed

text \<open>The journal may grow under the reader.\<close>

lemma head_inv_grows:
  assumes "head_inv sz j h" "journal_ok j'" "extends j j'"
  shows "head_inv sz j' h"
proof -
  have "state_at (j_versions j') (hr_base h) = state_at (j_versions j) (hr_base h)"
    using assms by (intro extends_state) (auto simp: head_inv_def sound_def)
  with assms show ?thesis by (auto simp: head_inv_def sound_def extends_def)
qed

end
