(* ===== verification/HeadReaderProps.thy ===== *)
theory HeadReaderProps
  imports HeadReaderLaws
begin

text \<open>
  What the head reader promises. A reader lives from its opening through any sequence of reads,
  prefetches, walks, streams, hand-overs and appends to its journal (\<open>head_run\<close>); whatever
  happened, it answers from the graph of the revision it is pinned to, within its bounds.
\<close>

section \<open>Handing a cache over\<close>

lemma accounted_iff:
  "accounted sz cache costs bytes \<longleftrightarrow> keys_distinct cache \<and> keys_distinct costs \<and> bytes = cost_sum costs \<and>
     (\<forall>k. map_of costs k = map_option (cell_cost sz k) (map_of cache k))"
  by (auto simp: accounted_def fun_eq_iff)

lemma accounted_keys: "accounted sz cache costs bytes \<Longrightarrow> fst ` set costs = fst ` set cache"
  by (auto simp: accounted_iff dom_map_of_conv_image_fst [symmetric] simp del: map_of_eq_Some_iff)

lemma accounted_merge:
  assumes h: "accounted sz cache costs bytes" and s: "accounted sz cache' costs' bytes'"
    and kept: "kept = filter (\<lambda>(k, v). P k \<and> map_of cache' k = None) cache"
  shows "accounted sz (kept @ cache') (map (\<lambda>(k, v). (k, the (map_of costs k))) kept @ costs')
    (cost_sum (map (\<lambda>(k, v). (k, the (map_of costs k))) kept @ costs'))"
proof -
  let ?c = "map (\<lambda>(k, v). (k, the (map_of costs k))) kept"
  have d: "keys_distinct kept" using h by (auto simp: kept accounted_iff distinct_map_filter)
  have off: "fst ` set kept \<inter> fst ` set cache' = {}"
    by (force simp: kept map_of_eq_None_iff)
  have fst_c: "map fst ?c = map fst kept" by (induction kept) auto
  have cost: "map_of costs k = Some (cell_cost sz k c)" if "(k, c) \<in> set kept" for k c
  proof -
    have "(k, c) \<in> set cache" using that by (simp add: kept)
    then have "map_of cache k = Some c" using h by (intro map_of_is_SomeI) (auto simp: accounted_iff)
    then show ?thesis using h by (simp add: accounted_iff del: map_of_eq_Some_iff)
  qed
  have front: "map_of ?c k = map_option (cell_cost sz k) (map_of kept k)" for k
  proof -
    have "\<forall>(k, c) \<in> set xs. map_of costs k = Some (cell_cost sz k c) \<Longrightarrow>
        map_of (map (\<lambda>(k, v). (k, the (map_of costs k))) xs) k = map_option (cell_cost sz k) (map_of xs k)" for xs
      by (induction xs) (auto simp del: map_of_eq_Some_iff)
    from this [of kept] cost show ?thesis by blast
  qed
  have "keys_distinct (?c @ costs')"
    unfolding map_append distinct_append fst_c
    using d off s accounted_keys [OF s] by (auto simp: accounted_iff)
  moreover have "keys_distinct (kept @ cache')" using d off s by (simp add: accounted_iff)
  moreover have "map_of (?c @ costs') k = map_option (cell_cost sz k) (map_of (kept @ cache') k)" for k
    using front [of k] s by (simp add: accounted_iff map_add_def split: option.split del: map_of_eq_Some_iff)
  ultimately show ?thesis by (simp add: accounted_iff)
qed

lemma entries_ok_updates:
  "entries_ok P al \<Longrightarrow> (\<And>k v. (k, v) \<in> set new \<Longrightarrow> P k v) \<Longrightarrow>
     entries_ok P (foldl (\<lambda>al (k, v). AList.update k v al) al new)"
proof (induction new arbitrary: al)
  case (Cons x new)
  obtain k v where x: "x = (k, v)" by (cases x)
  have "entries_ok P (AList.update k v al)" using Cons.prems x by (intro entries_ok_update) auto
  from Cons.IH [OF this] Cons.prems(2) x show ?case by simp
qed simp


lemma hand_over_inv:
  assumes h: "head_inv sz j h" and s: "head_inv sz j s"
    and same: "\<And>k. k \<notin> rewritten \<Longrightarrow> state_at (j_versions j) (hr_base h) k = state_at (j_versions j) (hr_base s) k"
    and run: "hand_over sz foreign rewritten h s = (h', s')"
  shows "head_inv sz j h' \<and> head_inv sz j s' \<and> hr_base h' = hr_base h \<and> hr_base s' = hr_base s \<and>
    hr_closing h' = hr_closing h \<and> hr_closing s' = hr_closing s"
proof (cases foreign)
  case True
  with h s run show ?thesis by (auto simp: hand_over_def)
next
  case False
  define kept where "kept = filter (\<lambda>(k, v). k \<notin> rewritten \<and> map_of (hr_cache s) k = None) (hr_cache h)"
  define costs where "costs = map (\<lambda>(k, v). (k, the (map_of (hr_costs h) k))) kept @ hr_costs s"
  define missing where "missing = foldl (\<lambda>al (k, n). AList.update k n al)
    (filter (\<lambda>(k, n). k \<notin> rewritten \<and> map_of (kept @ hr_cache s) k = None) (hr_missing h)) (hr_missing s)"
  obtain cache' costs' bytes' where ec: "evict_cells sz (kept @ hr_cache s) costs (cost_sum costs) = (cache', costs', bytes')"
    by (cases "evict_cells sz (kept @ hr_cache s) costs (cost_sum costs)") auto
  obtain missing' mbytes' where em: "evict_missing sz missing (cost_sum missing) = (missing', mbytes')"
    by fastforce
  have eq: "hand_over sz foreign rewritten h s =
      (case evict_cells sz (kept @ hr_cache s) costs (cost_sum costs) of (cache, costs', bytes) \<Rightarrow>
         case evict_missing sz missing (cost_sum missing) of (missing', mbytes) \<Rightarrow>
        (h\<lparr>hr_cache := [], hr_costs := [], hr_bytes := 0, hr_missing := [], hr_missing_bytes := 0\<rparr>,
         s\<lparr>hr_cache := cache, hr_costs := costs', hr_bytes := bytes, hr_missing := missing',
            hr_missing_bytes := mbytes\<rparr>))"
    using False unfolding hand_over_def Let_def kept_def costs_def missing_def cost_sum_def by (simp only: if_False)
  have out: "h' = h\<lparr>hr_cache := [], hr_costs := [], hr_bytes := 0, hr_missing := [], hr_missing_bytes := 0\<rparr>"
    "s' = s\<lparr>hr_cache := cache', hr_costs := costs', hr_bytes := bytes', hr_missing := missing',
              hr_missing_bytes := mbytes'\<rparr>"
    using run unfolding eq ec em by simp_all
  let ?P = "\<lambda>k c. state_at (j_versions j) (hr_base s) k = Some c"
  let ?M = "\<lambda>k n. state_at (j_versions j) (hr_base s) k = None"
  have acc: "accounted sz (kept @ hr_cache s) costs (cost_sum costs)"
    unfolding costs_def
    by (rule accounted_merge [OF _ _ kept_def]) (use h s in \<open>auto simp: head_inv_def bounded_def\<close>)
  obtain dropped where cells: "accounted sz cache' costs' bytes'" "kept @ hr_cache s = dropped @ cache'"
    "length cache' \<le> MAX_CACHE_ENTRIES" "bytes' \<le> MAX_CACHE_BYTES"
    using evict_cells_ok [OF acc ec] by blast
  have "?P k c" if "(k, c) \<in> set (kept @ hr_cache s)" for k c
    using that h s same [of k] by (auto simp: kept_def head_inv_def sound_def entries_ok_iff)
  then have "entries_ok ?P (kept @ hr_cache s)" using acc by (auto simp: entries_ok_iff accounted_def)
  then have c: "entries_ok ?P cache'" unfolding cells(2) entries_ok_append by blast
  have "?M k n" if "(k, n) \<in> set (hr_missing h)" "k \<notin> rewritten" for k n
    using that h same [of k] by (auto simp: head_inv_def sound_def entries_ok_iff)
  then have m: "entries_ok ?M missing"
    unfolding missing_def using s h
    by (intro entries_ok_updates) (auto simp: head_inv_def sound_def entries_ok_iff distinct_map_filter)
  obtain dropped' where absent: "keys_distinct missing'" "mbytes' = cost_sum missing'" "missing = dropped' @ missing'"
    "length missing' \<le> MAX_MISSING_ENTRIES" "mbytes' \<le> MAX_MISSING_BYTES"
    using evict_missing_ok [OF entries_ok_distinct [OF m] refl em] by blast
  have "entries_ok ?M missing'" using m unfolding absent(3) entries_ok_append by blast
  then have "head_inv sz j s'"
    using c cells(1,3,4) absent(1,2,4,5) s by (simp add: out head_inv_def sound_def bounded_def)
  moreover have "accounted sz [] [] 0" by (simp add: accounted_def)
  then have "head_inv sz j h'"
    using h by (simp add: out head_inv_def sound_def bounded_def MAX_CACHE_BYTES_def MAX_MISSING_BYTES_def)
  ultimately show ?thesis by (simp add: out)
qed

text \<open>Two bases agree on what no revision between them wrote.\<close>

definition written_between :: "journal \<Rightarrow> nat \<Rightarrow> nat \<Rightarrow> string set" where
  "written_between j lo hi = {cid c |v c. (v, c) \<in> set (j_versions j) \<and> lo < v \<and> v \<le> hi}"

lemma unwritten_same:
  assumes "journal_ok j" "lo \<le> hi" "k \<notin> written_between j lo hi"
  shows "state_at (j_versions j) lo k = state_at (j_versions j) hi k"
proof (cases "newest_at (j_versions j) k hi")
  case None
  then have "newest_at (j_versions j) k lo = None"
    unfolding newest_at_None_iff using assms(2) le_trans by blast
  with None show ?thesis by (simp add: state_at_def)
next
  case (Some x)
  obtain v c where x: "newest_at (j_versions j) k hi = Some (v, c)" using Some by (cases x) auto
  note new = newest_at_Some [OF x]
  have "v \<le> lo" using new assms(3) by (fastforce simp: written_between_def not_le [symmetric])
  then have "newest_at (j_versions j) k lo = Some (v, c)"
    using new assms(2) by (intro newest_atI journal_okD(2) [OF assms(1)]) auto
  with x show ?thesis by (simp add: state_at_def)
qed


section \<open>The life of a reader\<close>

lemma when_open_inv:
  assumes "head_inv sz j h" "\<And>h. head_inv sz j h \<Longrightarrow> head_inv sz j (fst (f h))"
  shows "head_inv sz j (fst (when_open h f))"
  using assms by (auto simp: when_open_def split: prod.split) (metis fst_conv)

lemma stream_reads_ok:
  "head_inv sz j h \<Longrightarrow> head_inv sz j (fst (stream_reads sz j target rows h)) \<and>
     snd (stream_reads sz j target rows h) =
       filter (\<lambda>c. link0 c = target) (List.map_filter (\<lambda>(k, v). state_at (j_versions j) (hr_base h) k) rows)"
proof (induction rows arbitrary: h)
  case (Cons row rows)
  obtain k v where row: "row = (k, v)" by (cases row)
  note R = read_row_ok [OF Cons.prems, of k]
  from Cons.IH [OF R(2)] R row show ?case
    by (auto simp: split_beta List.map_filter_simps split: option.split)
qed (simp add: List.map_filter_simps)

inductive head_run :: "sizes \<Rightarrow> journal \<Rightarrow> head_reader \<Rightarrow> bool" for sz where
  opened: "journal_ok j \<Longrightarrow> base \<le> head_of j \<Longrightarrow> head_run sz j (new_head_reader base)"
| point: "head_run sz j h \<Longrightarrow> head_run sz j (fst (reader_read sz j k h))"
| warmed: "head_run sz j h \<Longrightarrow> head_run sz j (fst (prefetch sz j ids h))"
| walked: "head_run sz j h \<Longrightarrow> head_run sz j (fst (prefetch_region sz j root limit depth h))"
| streamed: "head_run sz j h \<Longrightarrow> head_run sz j (fst (stream_cells_with_link0 sz j target h))"
| forgotten: "head_run sz j h \<Longrightarrow> head_run sz j (forget_missing k h)"
| closed: "head_run sz j h \<Longrightarrow> head_run sz j (h\<lparr>hr_closing := True\<rparr>)"
| given: "head_run sz j h \<Longrightarrow> head_run sz j s \<Longrightarrow> hr_base h \<le> hr_base s \<Longrightarrow>
    written_between j (hr_base h) (hr_base s) \<subseteq> rewritten \<Longrightarrow> head_run sz j (fst (hand_over sz foreign rewritten h s))"
| taken: "head_run sz j h \<Longrightarrow> head_run sz j s \<Longrightarrow> hr_base h \<le> hr_base s \<Longrightarrow>
    written_between j (hr_base h) (hr_base s) \<subseteq> rewritten \<Longrightarrow> head_run sz j (snd (hand_over sz foreign rewritten h s))"
| grown: "head_run sz j h \<Longrightarrow> commit_rows_ok (state_at (j_versions j) (head_of j)) cs \<Longrightarrow>
    head_run sz (fst (journal_append fault phys j expected (Suc expected) cs)) h"

lemma head_inv_ok: "head_inv sz j h \<Longrightarrow> journal_ok j" "head_inv sz j h \<Longrightarrow> hr_base h \<le> head_of j"
  by (simp_all add: head_inv_def sound_def)

lemma handed_inv:
  assumes "head_inv sz j h" "head_inv sz j s" "hr_base h \<le> hr_base s"
    "written_between j (hr_base h) (hr_base s) \<subseteq> rewritten"
  shows "head_inv sz j (fst (hand_over sz foreign rewritten h s)) \<and>
    head_inv sz j (snd (hand_over sz foreign rewritten h s)) \<and>
    hr_base (fst (hand_over sz foreign rewritten h s)) = hr_base h \<and>
    hr_base (snd (hand_over sz foreign rewritten h s)) = hr_base s"
proof -
  have "state_at (j_versions j) (hr_base h) k = state_at (j_versions j) (hr_base s) k" if "k \<notin> rewritten" for k
    using that assms(4) by (intro unwritten_same [OF head_inv_ok(1) [OF assms(1)] assms(3)]) auto
  from hand_over_inv [OF assms(1,2) this prod.collapse [symmetric]] show ?thesis by blast
qed

lemma region_bounded:
  assumes "head_inv sz j h" "limit \<noteq> 0"
  shows "head_inv sz j (fst (region sz j limit depth [(root, 0)] [root] 0 h))"
    "snd (region sz j limit depth [(root, 0)] [root] 0 h) \<le> limit"
  using region_ok [OF assms(1) _ _ prod.collapse [symmetric], of "[root]" limit 0 "[(root, 0)]" depth] assms(2) by simp_all

lemma region_inv: "head_inv sz j h \<Longrightarrow> head_inv sz j (fst (prefetch_region sz j root limit depth h))"
  unfolding prefetch_region_def Let_def
  by (simp only: fst_conv split: if_split) (intro conjI impI TrueI when_open_inv region_bounded(1); assumption)

lemma appended_inv:
  assumes "head_inv sz j h" "commit_rows_ok (state_at (j_versions j) (head_of j)) cs"
  shows "head_inv sz (fst (journal_append fault phys j expected (Suc expected) cs)) h"
proof -
  note j = head_inv_ok(1) [OF assms(1)]
  have "distinct (map cid cs)" using assms(2) by (simp add: commit_rows_ok_def)
  note cases = journal_append_cases [OF j this, of fault phys expected]
  have "head_inv sz (appended j cs) h"
    using assms by (intro head_inv_grows [OF assms(1)] journal_ok_appended extends_appended j)
  with assms(1) show ?thesis by (auto simp: cases split: sum.split option.split)
qed

lemma head_run_inv: "head_run sz j h \<Longrightarrow> head_inv sz j h"
proof (induction rule: head_run.induct)
  case (opened j base)
  then show ?case by (rule new_head_reader_inv)
next
  case (point j h k)
  then show ?case unfolding reader_read_def by (intro when_open_inv) (auto simp: read_row_ok)
next
  case (warmed j h ids)
  then show ?case using keepsD [OF prefetch_keeps] by blast
next
  case (streamed j h target)
  then show ?case unfolding stream_cells_with_link0_def by (intro when_open_inv) (auto simp: stream_reads_ok)
next
  case (forgotten j h k)
  then show ?case by (simp add: head_inv_def sound_forget bounded_forget)
next
  case (closed j h)
  then show ?case by (simp add: head_inv_def sound_def bounded_def)
qed (auto simp: handed_inv region_inv appended_inv)


section \<open>Pages\<close>

lemma fst_page: "map fst (map (\<lambda>(k, v, c). (k, v)) xs) = map fst xs"
  by (induction xs) auto

lemma in_window_rows:
  "(k, v) \<in> set (window_rows j base (prefix, upper, target) None) \<longleftrightarrow>
     (\<exists>c. (k, v, c) \<in> set (j_current j) \<and> prefix \<le> k \<and> (case upper of None \<Rightarrow> True | Some u \<Rightarrow> k < u) \<and>
        (case target of None \<Rightarrow> True | Some t \<Rightarrow> (v \<le> base \<and> link0 c = t) \<or> base < v))"
  unfolding window_rows_def by (force cong: option.case_cong)

lemma window_rows_sorted:
  assumes "keys_distinct (j_current j)"
  shows "sorted_wrt (<) (map fst (window_rows j base w last_id))"
proof -
  have "sorted (map fst (filter P (sort_key fst (j_current j))))" for P
    by (rule sorted_filter) simp
  moreover have "distinct (map fst (filter P (sort_key fst (j_current j))))" for P
    using assms by (intro distinct_map_filter) (simp add: distinct_map)
  ultimately show ?thesis
    by (cases w) (simp only: window_rows_def prod.case fst_page strict_sorted_iff)
qed

lemma id_windows_eq: "keys_distinct (j_current j) \<Longrightarrow> id_windows j base w last_id = window_rows j base w last_id"
proof (induction j base w last_id rule: id_windows.induct)
  case (1 j base w last_id)
  let ?W = "window_rows j base w last_id"
  let ?rows = "take BATCH_SIZE ?W"
  show ?case
  proof (cases "?rows = []")
    case True
    then have "?W = []" by (auto simp: BATCH_SIZE_def)
    with True show ?thesis by (subst id_windows.simps) simp
  next
    case False
    let ?l = "fst (last ?rows)"
    have split: "?W = butlast ?rows @ last ?rows # drop BATCH_SIZE ?W"
      using False by (metis append_butlast_last_id append_take_drop_id append.assoc append_Cons append_Nil)
    have order: "sorted_wrt (<) (map fst ?W)" by (rule window_rows_sorted [OF "1.prems"])
    have "filter (\<lambda>x. ?l < fst x) (a @ x # b) = b" if "sorted_wrt (<) (map fst (a @ x # b))" "fst x = ?l" for a x b
      using that by (auto simp: sorted_wrt_append filter_empty_conv filter_id_conv dest: less_asym)
    from this [of "butlast ?rows" "last ?rows" "drop BATCH_SIZE ?W", folded split, OF order refl]
    have "filter (\<lambda>x. ?l < fst x) ?W = drop BATCH_SIZE ?W" .
    moreover have "?l \<in> fst ` set ?W" using False by (metis image_eqI in_set_takeD last_in_set)
    ultimately have "window_rows j base w (Some ?l) = drop BATCH_SIZE ?W"
      by (simp only: window_rows_later)
    moreover have "id_windows j base w (Some ?l) = window_rows j base w (Some ?l)"
      by (rule "1.IH" [OF refl False "1.prems"])
    ultimately show ?thesis using False by (subst id_windows.simps) (simp add: Let_def)
  qed
qed

lemma existed_iff:
  assumes "journal_ok j" "base \<le> head_of j" "(k, v, c) \<in> set (j_current j)"
  shows "existed j base (k, v) \<longleftrightarrow> state_at (j_versions j) base k \<noteq> None"
    and "v \<le> base \<Longrightarrow> state_at (j_versions j) base k = Some c"
proof -
  have cur: "map_of (j_current j) k = Some (v, c)" using assms(3) journal_okD(11) [OF assms(1)] by simp
  show "v \<le> base \<Longrightarrow> state_at (j_versions j) base k = Some c"
    using point_read_ok [OF assms(1,2), of k] cur by (simp add: point_read_def)
  then show "existed j base (k, v) \<longleftrightarrow> state_at (j_versions j) base k \<noteq> None"
    using endpoint_iff [of "j_versions j" k base] by (auto simp: existed_def)
qed

lemma current_covers:
  assumes "journal_ok j" "base \<le> head_of j" "state_at (j_versions j) base k = Some c"
  shows "\<exists>v d. (k, v, d) \<in> set (j_current j) \<and> (v \<le> base \<longrightarrow> d = c)"
proof -
  have "state_at (j_versions j) (head_of j) k \<noteq> None" using state_at_mono [of base "head_of j" "j_versions j" k] assms by simp
  then obtain v d where cur: "map_of (j_current j) k = Some (v, d)"
    using state_at_head_current [OF assms(1), of k] by (auto simp: map_option_case split: option.splits)
  then have "(k, v, d) \<in> set (j_current j)" by (rule map_of_SomeD)
  with existed_iff(2) [OF assms(1,2) this] assms(3) show ?thesis by auto
qed

lemma sorted_page:
  assumes "sorted_wrt (<) (map fst (xs :: (string \<times> nat) list))" "fst ` set xs = S"
  shows "map fst xs = sorted_list_of_set S"
  using assms sorted_list_of_set.idem_if_sorted_distinct [of "map fst xs"]
  by (auto simp: strict_sorted_iff)

section \<open>Properties\<close>

lemma stream_reads_frame:
  "head_inv sz j h \<Longrightarrow> head_inv sz j (fst (stream_reads sz j target rows h)) \<and>
     hr_base (fst (stream_reads sz j target rows h)) = hr_base h \<and>
     hr_closing (fst (stream_reads sz j target rows h)) = hr_closing h"
proof (induction rows arbitrary: h)
  case (Cons row rows)
  obtain k v where row: "row = (k, v)" by (cases row)
  note R = read_row_ok [OF Cons.prems, of k]
  from Cons.IH [OF R(2)] R row show ?case by (simp add: split_beta)
qed simp

text \<open>
  C16: A head reader is pinned. Whatever was read, prefetched, walked, evicted, handed over or
  appended to the journal since it was opened, a read answers with the Cell that its revision
  holds, or with its absence; it answers the same after any further append, and never answers
  once the journal is closing.
\<close>

theorem head_reader_is_pinned:
  assumes "head_run sz j h" "commit_rows_ok (state_at (j_versions j) (head_of j)) cs"
  shows "snd (reader_read sz j key h) =
      (if hr_closing h then Inl (InvalidCell ''cell store reader is closing or closed'')
       else Inr (state_at (j_versions j) (hr_base h) key)) \<and>
    snd (reader_read sz (fst (journal_append fault phys j expected (Suc expected) cs)) key h) =
      snd (reader_read sz j key h)"
proof -
  let ?j = "fst (journal_append fault phys j expected (Suc expected) cs)"
  have answer: "snd (reader_read sz j key h) = (if hr_closing h then Inl (InvalidCell ''cell store reader is closing or closed'')
       else Inr (state_at (j_versions j) (hr_base h) key))" if "head_inv sz j h" for j
    using read_row_ok(1) [OF that, of key] by (simp add: reader_read_def when_open_def split_beta)
  have inv: "head_inv sz j h" by (rule head_run_inv [OF assms(1)])
  have "distinct (map cid cs)" using assms(2) by (simp add: commit_rows_ok_def)
  note cases = journal_append_cases [OF head_inv_ok(1) [OF inv] this, of fault phys expected]
  have "state_at (j_versions ?j) (hr_base h) = state_at (j_versions j) (hr_base h)"
    using extends_state [OF extends_appended [OF head_inv_ok(1) [OF inv]] head_inv_ok(2) [OF inv], of cs]
    by (auto simp: cases split: sum.split option.split)
  with answer [OF inv] answer [OF appended_inv [OF inv assms(2), of fault phys expected]] show ?thesis by simp
qed

text \<open>A journal of three identities, used by the witnesses.\<close>

definition sample_cells :: "cell list" where
  "sample_cells = [\<lparr>cid = ''a'', link0 = NULL_CELL_ID, link1 = NULL_CELL_ID, atom = []\<rparr>,
     \<lparr>cid = ''b'', link0 = ''a'', link1 = NULL_CELL_ID, atom = []\<rparr>]"

definition sample_journal :: journal where
  "sample_journal = appended (journal_open empty_tables) sample_cells"

lemma open_empty: "journal_open empty_tables = \<lparr>j_revisions = [0], j_versions = [(0, null_cell)],
   j_current = [(NULL_CELL_ID, 0, null_cell)], j_fenced = True, j_checkpoints = [], j_recorded = []\<rparr>"
  by (simp add: journal_open_def empty_tables_def upsert_current_def)

lemma sample_rows_ok: "commit_rows_ok (state_at (j_versions (journal_open empty_tables)) (head_of (journal_open empty_tables))) sample_cells"
  by (simp add: open_empty head_of_def commit_rows_ok_def sample_cells_def NULL_CELL_ID_def state_at_def null_cell_def domIff)

lemma sample_journal_ok: "journal_ok sample_journal" "head_of sample_journal = 1"
  using journal_ok_appended [OF journal_ok_open_empty sample_rows_ok] head_of_appended [OF journal_ok_open_empty]
  by (simp_all add: sample_journal_def) (simp add: head_of_def open_empty)

lemma sample_versions: "j_versions sample_journal = (0, null_cell) # map (Pair 1) sample_cells"
  by (simp add: sample_journal_def appended_def open_empty head_of_def)

lemma sample_run: "head_run sz sample_journal (new_head_reader 1)"
  by (intro head_run.opened) (simp_all add: sample_journal_ok)

definition small_sizes :: sizes where
  "small_sizes = \<lparr>sz_text = (\<lambda>s. 49 + length s), sz_atom = (\<lambda>s. 33 + length s), sz_cell = (\<lambda>_. 64),
     sz_cache = (\<lambda>al. 200 + 100 * length al), sz_numbers = (\<lambda>al. 200 + 100 * length al)\<rparr>"

theorem head_reader_is_pinned_witness:
  "snd (reader_read small_sizes sample_journal ''b'' (new_head_reader 1)) = Inr (Some (sample_cells ! 1)) \<and>
   snd (reader_read small_sizes (fst (journal_append no_fault (Inr ()) sample_journal 1 2
      [\<lparr>cid = ''b'', link0 = ''b'', link1 = ''a'', atom = []\<rparr>])) ''b'' (new_head_reader 1)) = Inr (Some (sample_cells ! 1))"
proof -
  have "commit_rows_ok (state_at (j_versions sample_journal) (head_of sample_journal))
      [\<lparr>cid = ''b'', link0 = ''b'', link1 = ''a'', atom = []\<rparr>]"
    by (simp add: sample_versions sample_journal_ok commit_rows_ok_def sample_cells_def NULL_CELL_ID_def state_at_def null_cell_def domIff)
  from head_reader_is_pinned [OF sample_run this, of small_sizes "''b''" no_fault "Inr ()" 1] show ?thesis
    by (simp add: new_head_reader_def sample_versions sample_cells_def state_at_def null_cell_def NULL_CELL_ID_def numeral_2_eq_2)
qed




text \<open>The identities a store holds are texts: sequences of code points that can be encoded.\<close>

definition texts :: "journal \<Rightarrow> bool" where
  "texts j \<longleftrightarrow> (\<forall>(v, c) \<in> set (j_versions j). \<exists>cs. list_all scalar cs \<and> cid c = encode cs)"

lemma scalar_le: "list_all scalar cs \<Longrightarrow> list_all (\<lambda>c. c \<le> MAX_CODE_POINT) cs"
  by (auto simp: list_all_iff scalar_def)

lemma prefix_stream_ok:
  assumes inv: "head_inv sz j h" and "\<not> hr_closing h" "p = [] \<or> texts j" "list_all scalar p"
  shows "stream_ids_with_prefix j p h = (h,
    if case prefix_upper p of None \<Rightarrow> True | Some u \<Rightarrow> list_all scalar u
    then Inr (sorted_list_of_set {k. state_at (j_versions j) (hr_base h) k \<noteq> None \<and> starts_with k (encode p)})
    else Inl (ValueError ''surrogates not allowed''))"
proof (cases "case prefix_upper p of None \<Rightarrow> True | Some u \<Rightarrow> list_all scalar u")
  case False
  with assms(2,4) show ?thesis by (auto simp: stream_ids_with_prefix_def bind_text_def split: option.splits)
next
  case True
  define upper where "upper = map_option encode (prefix_upper p)"
  note j = head_inv_ok [OF inv]
  let ?g = "state_at (j_versions j) (hr_base h)"
  let ?w = "(encode p, upper, None)"
  let ?rows = "filter (existed j (hr_base h)) (window_rows j (hr_base h) ?w None)"
  have inside: "encode p \<le> k \<and> (case upper of None \<Rightarrow> True | Some u \<Rightarrow> k < u) \<longleftrightarrow> starts_with k (encode p)"
    if k: "?g k \<noteq> None" for k
  proof (cases "p = []")
    case True
    then show ?thesis by (simp add: upper_def prefix_upper_def starts_with_def)
  next
    case False
    obtain c where "?g k = Some c" using k by auto
    from state_at_rowD [OF this] obtain v where "(v, c) \<in> set (j_versions j)" "cid c = k" by blast
    then obtain cs where "list_all scalar cs" "k = encode cs" using assms(3) False by (auto simp: texts_def)
    then show ?thesis
      using prefix_interval_exact [OF scalar_le scalar_le [OF assms(4)], of cs] by (cases "prefix_upper p") (simp_all add: upper_def)
  qed
  have "fst ` set ?rows = {k. ?g k \<noteq> None \<and> starts_with k (encode p)}" (is "?A = ?B")
  proof (intro equalityI subsetI)
    fix k assume "k \<in> ?A"
    then obtain v where v: "(k, v) \<in> set (window_rows j (hr_base h) ?w None)" "existed j (hr_base h) (k, v)" by auto
    then obtain c where c: "(k, v, c) \<in> set (j_current j)" "encode p \<le> k" "case upper of None \<Rightarrow> True | Some u \<Rightarrow> k < u"
      by (auto simp: in_window_rows)
    then show "k \<in> ?B" using existed_iff(1) [OF j c(1)] v(2) inside [of k] by auto
  next
    fix k assume k: "k \<in> ?B"
    then obtain c where "?g k = Some c" by auto
    from current_covers [OF j this] obtain v d where d: "(k, v, d) \<in> set (j_current j)" by blast
    with k existed_iff(1) [OF j d] inside [of k] show "k \<in> ?A"
      by (intro image_eqI [of _ fst "(k, v)"]) (auto simp: in_window_rows)
  qed
  moreover have "sorted_wrt (<) (map fst ?rows)"
    using window_rows_sorted [OF journal_okD(11) [OF j(1)], of "hr_base h" ?w None]
    unfolding strict_sorted_iff by (auto intro: sorted_filter distinct_map_filter)
  ultimately have "map fst ?rows = sorted_list_of_set {k. ?g k \<noteq> None \<and> starts_with k (encode p)}"
    by (intro sorted_page)
  with True assms(2,4) show ?thesis
    by (auto simp: stream_ids_with_prefix_def bind_text_def upper_def id_windows_eq [OF journal_okD(11) [OF j(1)]]
        split: option.splits)
qed

lemma sample_texts: "texts sample_journal"
proof -
  have plain: "\<exists>cs. list_all scalar cs \<and> s = encode cs" if "list_all (\<lambda>c. of_char c < (128::nat)) s" for s
  proof (intro exI conjI)
    show "list_all scalar (map of_char s)" using that by (auto simp: list_all_iff scalar_def MAX_CODE_POINT_def)
    show "s = encode (map of_char s)" using that by (induction s) (auto simp: utf8_def)
  qed
  show ?thesis
    unfolding texts_def sample_versions
    by (auto intro!: plain simp: sample_cells_def null_cell_def NULL_CELL_ID_def)
qed

text \<open>
  C18: The prefix stream is exact. On a journal whose identities are texts, at any revision the
  reader is pinned to and whatever later revisions wrote, it gives every identity of that
  revision's graph that starts with the prefix, once and in order. When the upper bound of the
  prefix is no text, because its last code point is U+D7FF, it fails instead.
\<close>

theorem prefix_stream_is_exact:
  assumes "head_run sz j h" "\<not> hr_closing h" "texts j" "list_all scalar p"
  shows "stream_ids_with_prefix j p h = (h,
    if case prefix_upper p of None \<Rightarrow> True | Some u \<Rightarrow> list_all scalar u
    then Inr (sorted_list_of_set {k. state_at (j_versions j) (hr_base h) k \<noteq> None \<and> starts_with k (encode p)})
    else Inl (ValueError ''surrogates not allowed''))"
  by (rule prefix_stream_ok [OF head_run_inv [OF assms(1)] assms(2) disjI2 [OF assms(3)] assms(4)])

theorem prefix_stream_is_exact_witness:
  "stream_ids_with_prefix sample_journal [97] (new_head_reader 1) =
     (new_head_reader 1, Inr (sorted_list_of_set {k. state_at (j_versions sample_journal) 1 k \<noteq> None \<and> starts_with k ''a''})) \<and>
   snd (stream_ids_with_prefix sample_journal [97, 55295] (new_head_reader 1)) = Inl (ValueError ''surrogates not allowed'')"
proof -
  have up: "prefix_upper [97] = Some [98]" "prefix_upper [97, 55295] = Some [97, 55296]"
    by (simp_all add: prefix_upper_def MAX_CODE_POINT_def)
  have a: "encode [97] = ''a''" by code_simp
  show ?thesis
    using prefix_stream_is_exact [OF sample_run _ sample_texts, of "[97]"] prefix_stream_is_exact [OF sample_run _ sample_texts, of "[97, 55295]"]
    unfolding up a by (simp add: new_head_reader_def scalar_def MAX_CODE_POINT_def)
qed

lemma link_stream_and_count_ok:
  assumes inv: "head_inv sz j h" and "\<not> hr_closing h"
  shows "snd (stream_cells_with_link0 sz j target h) =
      Inr (map (\<lambda>k. the (state_at (j_versions j) (hr_base h) k))
        (sorted_list_of_set {k. \<exists>c. state_at (j_versions j) (hr_base h) k = Some c \<and> link0 c = target})) \<and>
    reader_count j h = (h, Inr (card (dom (state_at (j_versions j) (hr_base h)))))"
proof
  note j = head_inv_ok [OF inv]
  let ?g = "state_at (j_versions j) (hr_base h)"
  let ?w = "([], None, Some target) :: window"
  let ?W = "window_rows j (hr_base h) ?w None"
  let ?hit = "\<lambda>k. \<exists>c. ?g k = Some c \<and> link0 c = target"
  have "k \<in> fst ` set ?W" if k: "?hit k" for k
  proof -
    from k obtain c where c: "?g k = Some c" "link0 c = target" by blast
    from current_covers [OF j c(1)] obtain v d where d: "(k, v, d) \<in> set (j_current j)" "v \<le> hr_base h \<longrightarrow> d = c" by blast
    then show ?thesis using c(2) by (intro image_eqI [of _ fst "(k, v)"]) (auto simp: in_window_rows not_le)
  qed
  then have "fst ` set (filter (\<lambda>(k, v). ?hit k) ?W) = {k. ?hit k}" by fastforce
  moreover have "sorted_wrt (<) (map fst (filter (\<lambda>(k, v). ?hit k) ?W))"
    using window_rows_sorted [OF journal_okD(11) [OF j(1)], of "hr_base h" ?w None]
    unfolding strict_sorted_iff by (auto intro: sorted_filter distinct_map_filter)
  ultimately have hits: "map fst (filter (\<lambda>(k, v). ?hit k) ?W) = sorted_list_of_set {k. ?hit k}"
    by (intro sorted_page)
  have "filter (\<lambda>c. link0 c = target) (List.map_filter (\<lambda>(k, v). ?g k) rows) =
      map (\<lambda>k. the (?g k)) (map fst (filter (\<lambda>(k, v). ?hit k) rows))" for rows :: "(string \<times> nat) list"
    by (induction rows) (auto simp: List.map_filter_simps split: option.split)
  with stream_reads_ok [OF inv, of target ?W] assms(2) hits
  show "snd (stream_cells_with_link0 sz j target h) = Inr (map (\<lambda>k. the (?g k)) (sorted_list_of_set {k. ?hit k}))"
    by (simp add: stream_cells_with_link0_def when_open_def split_beta id_windows_eq [OF journal_okD(11) [OF j(1)]])
  let ?old = "filter (\<lambda>(k, v, c). v \<le> hr_base h) (j_current j)"
  let ?new = "filter (\<lambda>(k, v, c). hr_base h < v \<and> endpoint (j_versions j) k (hr_base h)) (j_current j)"
  let ?all = "filter (\<lambda>(k, v, c). existed j (hr_base h) (k, v)) (j_current j)"
  have "length (filter (\<lambda>(k, v, c). v \<le> hr_base h) xs) +
      length (filter (\<lambda>(k, v, c). hr_base h < v \<and> endpoint (j_versions j) k (hr_base h)) xs) =
      length (filter (\<lambda>(k, v, c). existed j (hr_base h) (k, v)) xs)" for xs :: "(string \<times> nat \<times> cell) list"
    by (induction xs) (auto simp: existed_def)
  then have sizes: "length ?old + length ?new = length ?all" .
  have "distinct (map fst ?all)" by (intro distinct_map_filter journal_okD(11) [OF j(1)])
  from distinct_card [OF this] have "length ?all = card (fst ` set ?all)" by (simp only: set_map length_map)
  moreover have "fst ` set ?all = dom ?g"
  proof (intro equalityI subsetI)
    fix k assume "k \<in> fst ` set ?all"
    then obtain v c where v: "(k, v, c) \<in> set (j_current j)" "existed j (hr_base h) (k, v)" by auto
    with existed_iff(1) [OF j v(1)] show "k \<in> dom ?g" by blast
  next
    fix k assume "k \<in> dom ?g"
    then obtain c where "?g k = Some c" by auto
    from current_covers [OF j this] obtain v d where d: "(k, v, d) \<in> set (j_current j)" by blast
    with existed_iff(1) [OF j d] \<open>k \<in> dom ?g\<close> show "k \<in> fst ` set ?all"
      by (intro image_eqI [of _ fst "(k, v, d)"]) auto
  qed
  ultimately show "reader_count j h = (h, Inr (card (dom ?g)))"
    using assms(2) unfolding reader_count_def when_open_def sizes by simp
qed

text \<open>
  The stream of the Cells with a given first link, and the count, are exact for the pinned
  revision, whatever the caches hold and whatever later revisions wrote.
\<close>

theorem link_stream_and_count_are_exact:
  assumes "head_run sz j h" "\<not> hr_closing h"
  shows "snd (stream_cells_with_link0 sz j target h) =
      Inr (map (\<lambda>k. the (state_at (j_versions j) (hr_base h) k))
        (sorted_list_of_set {k. \<exists>c. state_at (j_versions j) (hr_base h) k = Some c \<and> link0 c = target})) \<and>
    reader_count j h = (h, Inr (card (dom (state_at (j_versions j) (hr_base h)))))"
  by (rule link_stream_and_count_ok [OF head_run_inv [OF assms(1)] assms(2)])

theorem link_stream_and_count_are_exact_witness:
  "snd (reader_count sample_journal (new_head_reader 1)) = Inr (card (dom (state_at (j_versions sample_journal) 1)))"
  using link_stream_and_count_are_exact [OF sample_run] by (simp add: new_head_reader_def)

end
