(* ===== verification/Match.thy ===== *)
theory Match
  imports StoreHistory
begin

text \<open>
  Structural reading and rewriting of \<open>universal_cell.py\<close>: \<open>CellStore.match\<close> unifies a pattern
  graph with a target graph, \<open>CellStore.fingerprint\<close> hashes a reachable region and remembers the
  hash, \<open>prepare_rewrite\<close> and \<open>rewrite\<close> turn a match into an unpublished or published
  replacement. The work lists are stacks with the next entry first. Budgets count the entries
  taken from a work list, so they bound the loops. The fresh identities of \<open>uuid.uuid4\<close> are the
  argument \<open>draws\<close>, and BLAKE2b with a digest of 32 bytes is the argument \<open>blake\<close>.
\<close>

section \<open>Matching\<close>

text \<open>A pattern is the store's own mapping, or one the caller brings.\<close>

datatype pattern = Stored | Given "(string \<times> cell) list"

fun pattern_cells :: "store \<Rightarrow> pattern \<Rightarrow> cells" where
  "pattern_cells s Stored = st_cells s"
| "pattern_cells s (Given al) = map_of al"

fun dangling_pattern :: "pattern \<Rightarrow> string list \<Rightarrow> string option" where
  "dangling_pattern Stored vars = None"
| "dangling_pattern (Given al) vars =
     map_option (cid \<circ> snd) (find (\<lambda>(k, c). cid c \<notin> set vars \<and>
       (map_of al (link0 c) = None \<or> map_of al (link1 c) = None)) al)"

fun check_pattern_cells :: "pattern \<Rightarrow> unit result" where
  "check_pattern_cells Stored = Inr ()"
| "check_pattern_cells (Given al) = rbind (rmap validate_cell (map snd al)) (\<lambda>_. Inr ())"

definition check_pattern :: "store \<Rightarrow> pattern \<Rightarrow> string \<Rightarrow> string list \<Rightarrow> unit result" where
  "check_pattern s p root vars =
     rbind (check_pattern_cells p) (\<lambda>_.
     if pattern_cells s p root = None then Inl (InvalidCell ''pattern root is missing'')
     else if pattern_cells s p NULL_CELL_ID = None
     then Inl (InvalidCell ''pattern must contain the distinguished null cell'')
     else if \<not> list_all (\<lambda>v. pattern_cells s p v \<noteq> None) vars
     then Inl (InvalidCell ''every match variable must be a pattern cell'')
     else if NULL_CELL_ID \<in> set vars
     then Inl (InvalidCell ''the distinguished null cell cannot be a variable'')
     else case dangling_pattern p vars of
       Some k \<Rightarrow> Inl (InvalidCell (''pattern cell has a dangling link '' @ k))
     | None \<Rightarrow> Inr ())"

text \<open>
  The loop. \<open>b\<close> binds variables, \<open>m\<close> the other pattern identities met so far; \<open>n\<close> is what is
  left of the budget.
\<close>

type_synonym binding = "string \<rightharpoonup> string"

fun match_loop ::
  "cells \<Rightarrow> cells \<Rightarrow> string list \<Rightarrow> nat \<Rightarrow> (string \<times> string) list \<Rightarrow> binding \<Rightarrow> binding \<Rightarrow> binding result" where
  "match_loop P T vars n [] b m = Inr b"
| "match_loop P T vars 0 (x # xs) b m = Inl (MatchBudgetExceeded ''graph match exceeded its visited pairs'')"
| "match_loop P T vars (Suc n) ((p, t) # xs) b m =
     (if p \<in> set vars
      then (if b p \<noteq> None \<and> b p \<noteq> Some t then Inl (NoMatch ''one variable matched two target cells'')
            else match_loop P T vars n xs (b(p \<mapsto> t)) m)
      else case m p of
        Some t' \<Rightarrow> if t' \<noteq> t then Inl (NoMatch ''shared pattern structure was not preserved'')
                   else match_loop P T vars n xs b m
      | None \<Rightarrow>
          if p = NULL_CELL_ID
          then (if t \<noteq> NULL_CELL_ID then Inl (NoMatch ''null incidence did not match'')
                else match_loop P T vars n xs b (m(p \<mapsto> t)))
          else (case T t of
              None \<Rightarrow> Inl (NoMatch ''target incidence is missing'')
            | Some tc \<Rightarrow> (case P p of
                  None \<Rightarrow> Inl (KeyError p)
                | Some pc \<Rightarrow>
                    if atom pc \<noteq> atom tc then Inl (NoMatch ''opaque terminal atoms differ'')
                    else match_loop P T vars n ((link1 pc, link1 tc) # (link0 pc, link0 tc) # xs)
                           b (m(p \<mapsto> t)))))"

definition store_match ::
  "pattern \<Rightarrow> string \<Rightarrow> string \<Rightarrow> string list \<Rightarrow> nat \<Rightarrow> nat option \<Rightarrow> store \<Rightarrow> store \<times> binding result" where
  "store_match p pattern_root target_root vars budget revision s =
     (if budget < 1 then (s, Inl (MatchBudgetExceeded ''match budget must be positive''))
      else case check_pattern s p pattern_root vars of
        Inl e \<Rightarrow> (s, Inl e)
      | Inr _ \<Rightarrow>
          (case (case revision of None \<Rightarrow> (s, Inr (Snapshot (st_revision s) (st_cells s)))
                 | Some r \<Rightarrow> at_revision r s) of
             (s', Inl e) \<Rightarrow> (s', Inl e)
           | (s', Inr target) \<Rightarrow>
               if snap_cells target target_root = None then (s', Inl (NoMatch ''target root is missing''))
               else (s', match_loop (pattern_cells s p) (snap_cells target) vars budget
                           [(pattern_root, target_root)] Map.empty Map.empty)))"

section \<open>Fingerprints\<close>

text \<open>The reachable identities, in the order they are met; \<open>n\<close> is what is left of the budget.\<close>

function (sequential) collect_region ::
  "cells \<Rightarrow> string list \<Rightarrow> nat \<Rightarrow> string list \<Rightarrow> string list \<Rightarrow> string list result" where
  "collect_region T excluded n [] reachable = Inr reachable"
| "collect_region T excluded n (k # ks) reachable =
     (if k \<in> set reachable \<or> k \<in> set excluded then collect_region T excluded n ks reachable
      else case n of
        0 \<Rightarrow> Inl (MatchBudgetExceeded ''fingerprint exceeded its reachable cells'')
      | Suc m \<Rightarrow> (case T k of
            None \<Rightarrow> Inl (KeyError k)
          | Some c \<Rightarrow> collect_region T excluded m (link1 c # link0 c # ks) (reachable @ [k])))"
  by pat_completeness auto

termination
  by (relation "measures [\<lambda>(T, excluded, n, ks, reachable). n, \<lambda>(T, excluded, n, ks, reachable). length ks]") auto

text \<open>A field is its length in eight bytes, then its bytes.\<close>

definition add_field :: "bytes \<Rightarrow> bytes" where
  "add_field x = be_bytes 8 (length x) @ x"

definition fingerprint_cell :: "cell \<Rightarrow> bytes" where
  "fingerprint_cell c = add_field (cid c) @ add_field (link0 c) @ add_field (link1 c) @ add_field (atom c)"

definition region_digest :: "(bytes \<Rightarrow> bytes) \<Rightarrow> cells \<Rightarrow> string list \<Rightarrow> string" where
  "region_digest blake T ks = hex (blake (concat (map (\<lambda>k. fingerprint_cell (the (T k))) (sort ks))))"

definition fingerprint ::
  "(bytes \<Rightarrow> bytes) \<Rightarrow> string \<Rightarrow> nat \<Rightarrow> string list \<Rightarrow> store \<Rightarrow> store \<times> string result" where
  "fingerprint blake root budget excluded s =
     (let key = (root, set excluded) in
      if budget < 1 then (s, Inl (MatchBudgetExceeded ''fingerprint budget must be positive''))
      else if list_ex (\<lambda>k. k = []) excluded then (s, Inl (InvalidCell ''fingerprint exclusion root is invalid''))
      else if root \<in> set excluded then (s, Inl (InvalidCell ''fingerprint root cannot exclude itself''))
      else case map_of (st_fingerprints s) key of
        Some value \<Rightarrow> (s, Inr value)
      | None \<Rightarrow>
          if st_cells s root = None then (s, Inl (InvalidCell ''fingerprint root is missing''))
          else (case collect_region (st_cells s) excluded budget [root] [] of
              Inl e \<Rightarrow> (s, Inl e)
            | Inr reachable \<Rightarrow>
                let value = region_digest blake (st_cells s) reachable in
                (s\<lparr>st_fingerprints := AList.update key value (st_fingerprints s),
                   st_dependencies := AList.update key (set reachable) (st_dependencies s),
                   st_computes := AList.update key
                     (Suc (case map_of (st_computes s) key of None \<Rightarrow> 0 | Some n \<Rightarrow> n)) (st_computes s)\<rparr>,
                 Inr value)))"

definition fingerprint_computes :: "store \<Rightarrow> string \<Rightarrow> nat" where
  "fingerprint_computes s root = sum_list (map snd (filter (\<lambda>((r, ex), n). r = root) (st_computes s)))"

section \<open>Rewriting\<close>

record prepared_rewrite =
  pr_root :: string
  pr_expected :: nat
  pr_create :: "cell list"
  pr_replace :: "cell list"
  pr_bindings :: binding
  pr_materialized :: "(string \<times> string) list"

record rewrite_result =
  rr_root :: string
  rr_revision :: nat
  rr_bindings :: binding
  rr_materialized :: "(string \<times> string) list"

text \<open>A rule: the two stored graphs, the variables of the pattern, what the placeholders of the
  replacement stand for, and the budget.\<close>

record rule =
  pattern_root :: string
  pattern_variables :: "string list"
  replacement_root :: string
  replacement_variables :: "(string \<times> string) list"
  replacement_constants :: "(string \<times> string) list"
  rule_budget :: nat

definition check_rule :: "rule \<Rightarrow> string \<Rightarrow> cells \<Rightarrow> unit result" where
  "check_rule rl target_root base =
     (if target_root = NULL_CELL_ID then Inl (InvalidCell ''the distinguished null cell cannot be rewritten'')
      else if replacement_root rl \<in> fst ` set (replacement_variables rl)
      then Inl (InvalidCell ''replacement root cannot be a variable'')
      else if replacement_root rl \<in> fst ` set (replacement_constants rl)
      then Inl (InvalidCell ''replacement root cannot be a constant binding'')
      else if fst ` set (replacement_variables rl) \<inter> fst ` set (replacement_constants rl) \<noteq> {}
      then Inl (InvalidCell ''replacement placeholder has conflicting bindings'')
      else if \<not> snd ` set (replacement_variables rl) \<subseteq> set (pattern_variables rl)
      then Inl (InvalidCell ''replacement variables must map to declared pattern variables'')
      else if \<not> list_all (\<lambda>(k, v). base k \<noteq> None) (replacement_variables rl)
      then Inl (InvalidCell ''replacement variable cell is missing'')
      else if \<not> list_all (\<lambda>(k, v). base k \<noteq> None) (replacement_constants rl)
      then Inl (InvalidCell ''replacement constant placeholder is missing'')
      else if \<not> list_all (\<lambda>(k, v). base v \<noteq> None) (replacement_constants rl)
      then Inl (InvalidCell ''replacement constant target is missing'')
      else if base (replacement_root rl) = None then Inl (InvalidCell ''replacement root is missing'')
      else Inr ())"

text \<open>The identities of the replacement that become Cells.\<close>

definition placeholder :: "rule \<Rightarrow> string \<Rightarrow> bool" where
  "placeholder rl k \<longleftrightarrow> k = NULL_CELL_ID \<or> k \<in> fst ` set (replacement_variables rl) \<or>
     k \<in> fst ` set (replacement_constants rl)"

fun collect_templates :: "rule \<Rightarrow> cells \<Rightarrow> nat \<Rightarrow> string list \<Rightarrow> string list \<Rightarrow> string list result" where
  "collect_templates rl base n [] found = Inr found"
| "collect_templates rl base 0 (k # ks) found =
     Inl (MatchBudgetExceeded ''replacement traversal exceeded its cells'')"
| "collect_templates rl base (Suc n) (k # ks) found =
     (if placeholder rl k \<or> k \<in> set found then collect_templates rl base n ks found
      else case base k of
        None \<Rightarrow> Inl (InvalidCell ''replacement contains a dangling link'')
      | Some c \<Rightarrow> collect_templates rl base n (link1 c # link0 c # ks) (found @ [k]))"

text \<open>The first draw that is no identity of the store and was not taken by this rewrite.\<close>

fun fresh_id :: "cells \<Rightarrow> string list \<Rightarrow> string list \<Rightarrow> (string \<times> string list) result" where
  "fresh_id base occupied [] = Inl (Exhausted ''uuid4'')"
| "fresh_id base occupied (u # draws) =
     (if base u \<noteq> None \<or> u \<in> set occupied then fresh_id base occupied draws else Inr (u, draws))"

fun assign_fresh ::
  "cells \<Rightarrow> string list \<Rightarrow> string list \<Rightarrow> string list \<Rightarrow> (string \<times> string) list \<Rightarrow> (string \<times> string) list result" where
  "assign_fresh base [] occupied draws materialized = Inr materialized"
| "assign_fresh base (k # ks) occupied draws materialized =
     rbind (fresh_id base occupied draws) (\<lambda>(u, draws').
       assign_fresh base ks (u # occupied) draws' (materialized @ [(k, u)]))"

definition translated :: "rule \<Rightarrow> binding \<Rightarrow> (string \<times> string) list \<Rightarrow> string \<Rightarrow> string result" where
  "translated rl b materialized k =
     (if k = NULL_CELL_ID then Inr NULL_CELL_ID
      else case map_of (replacement_variables rl) k of
        Some v \<Rightarrow> (case b v of None \<Rightarrow> Inl (KeyError v) | Some t \<Rightarrow> Inr t)
      | None \<Rightarrow> (case map_of (replacement_constants rl) k of
            Some t \<Rightarrow> Inr t
          | None \<Rightarrow> (case map_of materialized k of
                None \<Rightarrow> Inl (InvalidCell ''replacement reference was not materialized'')
              | Some t \<Rightarrow> Inr t)))"

definition instance_of ::
  "rule \<Rightarrow> cells \<Rightarrow> binding \<Rightarrow> (string \<times> string) list \<Rightarrow> string \<Rightarrow> cell result" where
  "instance_of rl base b materialized k =
     (let c = the (base k) in
      rbind (translated rl b materialized (link0 c)) (\<lambda>l0.
      rbind (translated rl b materialized (link1 c)) (\<lambda>l1.
      Inr (Cell (the (map_of materialized k)) l0 l1 (atom c)))))"

definition prepare_rewrite ::
  "string list \<Rightarrow> nat \<Rightarrow> rule \<Rightarrow> string \<Rightarrow> store \<Rightarrow> store \<times> prepared_rewrite result" where
  "prepare_rewrite draws expected rl target_root s =
     (if expected \<noteq> st_revision s then (s, Inl (Conflict ''expected revision''))
      else case check_rule rl target_root (st_cells s) of
        Inl e \<Rightarrow> (s, Inl e)
      | Inr _ \<Rightarrow>
          (case store_match Stored (pattern_root rl) target_root (pattern_variables rl) (rule_budget rl)
                  (Some expected) s of
             (s', Inl e) \<Rightarrow> (s', Inl e)
           | (s', Inr b) \<Rightarrow>
               (s', rbind (collect_templates rl (st_cells s) (rule_budget rl) [replacement_root rl] []) (\<lambda>found.
                    let templates = sort found; root = replacement_root rl in
                    rbind (assign_fresh (st_cells s) (filter (\<lambda>k. k \<noteq> root) templates) [target_root] draws
                             [(root, target_root)]) (\<lambda>materialized.
                    rbind (rmap (instance_of rl (st_cells s) b materialized) templates) (\<lambda>cells.
                    let instances = zip templates cells in
                    Inr \<lparr>pr_root = target_root, pr_expected = expected,
                         pr_create = map snd (filter (\<lambda>(k, c). k \<noteq> root) instances),
                         pr_replace = map snd (filter (\<lambda>(k, c). k = root) instances),
                         pr_bindings = b, pr_materialized = materialized\<rparr>))))))"

definition rewrite ::
  "commit_env \<Rightarrow> string list \<Rightarrow> nat \<Rightarrow> rule \<Rightarrow> string \<Rightarrow> ctx \<times> store \<Rightarrow> (ctx \<times> store) \<times> rewrite_result result" where
  "rewrite env draws expected rl target_root cs =
     (let (c, s) = cs in
      case prepare_rewrite draws expected rl target_root s of
        (s', Inl e) \<Rightarrow> ((c, s'), Inl e)
      | (s', Inr pr) \<Rightarrow>
          (let (cs', res) = commit env expected (pr_create pr) (pr_replace pr) (c, s')
           in (cs', rbind res (\<lambda>r. Inr \<lparr>rr_root = target_root, rr_revision = r,
                 rr_bindings = pr_bindings pr, rr_materialized = pr_materialized pr\<rparr>))))"

section \<open>Migration\<close>

record migration_evidence =
  source_identity :: string
  destination_identity :: string
  source_revision :: nat
  destination_revision :: nat
  evidence_digest :: string

text \<open>
  One copied revision: the Cells the source wrote in it, split by whether the destination has them.
\<close>

definition migrate_revision ::
  "commit_env \<Rightarrow> nat \<Rightarrow> store \<Rightarrow> ctx \<times> store \<Rightarrow> store \<times> (ctx \<times> store) \<times> unit result" where
  "migrate_revision env r src dst =
     (case revision_changes src r of
        Inl e \<Rightarrow> (src, dst, Inl e)
      | Inr ids \<Rightarrow>
          (case cells_at r ids src of
             (src', Inl e) \<Rightarrow> (src', dst, Inl e)
           | (src', Inr changed) \<Rightarrow>
               (case store_snapshot (snd dst) of
                  Inl e \<Rightarrow> (src', dst, Inl e)
                | Inr sn \<Rightarrow>
                    let pick = (\<lambda>ks. map (\<lambda>k. the (map_of changed k)) ks);
                        (dst', res) = commit env (snap_revision sn)
                          (pick (filter (\<lambda>k. snap_cells sn k = None) ids))
                          (pick (filter (\<lambda>k. snap_cells sn k \<noteq> None) ids)) dst
                    in (src', dst', rbind res (\<lambda>_. Inr ())))))"

fun migrate_revisions ::
  "commit_env \<Rightarrow> nat list \<Rightarrow> store \<Rightarrow> ctx \<times> store \<Rightarrow> store \<times> (ctx \<times> store) \<times> unit result" where
  "migrate_revisions env [] src dst = (src, dst, Inr ())"
| "migrate_revisions env (r # rs) src dst =
     (case migrate_revision env r src dst of
        (src', dst', Inl e) \<Rightarrow> (src', dst', Inl e)
      | (src', dst', Inr _) \<Rightarrow> migrate_revisions env rs src' dst')"

definition migrate_cell_history ::
  "commit_env \<Rightarrow> string \<Rightarrow> string \<Rightarrow> store \<Rightarrow> ctx \<times> store \<Rightarrow> store \<times> (ctx \<times> store) \<times> migration_evidence result" where
  "migrate_cell_history env source_id destination_id src dst =
     (if source_id = destination_id
      then (src, dst, Inl (InvalidCell ''Cell migration requires distinct authorities''))
      else if st_revision (snd dst) \<noteq> 0
      then (src, dst, Inl (InvalidCell ''Cell migration destination must be at genesis''))
      else case store_snapshot (snd dst) of
        Inl e \<Rightarrow> (src, dst, Inl e)
      | Inr sn \<Rightarrow>
          if dom (snap_cells sn) \<noteq> {NULL_CELL_ID}
          then (src, dst, Inl (InvalidCell ''Cell migration destination must be at genesis''))
          else (case store_chain_digest (env_sha env) (Some (st_revision src)) src of
              (src1, Inl e) \<Rightarrow> (src1, dst, Inl e)
            | (src1, Inr digest) \<Rightarrow>
                (case migrate_revisions env [1..<Suc (st_revision src)] src1 dst of
                   (src2, dst2, Inl e) \<Rightarrow> (src2, dst2, Inl e)
                 | (src2, (c, d), Inr _) \<Rightarrow>
                     if st_revision src2 \<noteq> st_revision src
                     then (src2, (c, d), Inl (Conflict ''Cell migration source changed during history copy''))
                     else (case store_chain_digest (env_sha env) None d of
                         (d', Inl e) \<Rightarrow> (src2, (c, d'), Inl e)
                       | (d', Inr digest') \<Rightarrow>
                           if st_revision d' \<noteq> st_revision src \<or> digest' \<noteq> digest
                           then (src2, (c, d'), Inl (InvalidCell ''Cell migration history proof does not match''))
                           else (src2, (c, d'), Inr \<lparr>source_identity = source_id,
                                  destination_identity = destination_id, source_revision = st_revision src,
                                  destination_revision = st_revision d', evidence_digest = digest\<rparr>)))))"

end
