(* ===== verification/MatchLaws.thy ===== *)
theory MatchLaws
  imports Match StoreProps
begin

text \<open>
  The laws of matching and of fingerprints. A match is a structure-preserving map from pattern
  identities to target identities (\<open>is_match\<close>); a fingerprint hashes a region, the identities
  reachable from a root without entering excluded ones (\<open>region_of\<close>).
\<close>

section \<open>Structure-preserving maps\<close>

definition preserved :: "cells \<Rightarrow> cells \<Rightarrow> (string \<Rightarrow> string \<Rightarrow> bool) \<Rightarrow> string \<Rightarrow> string \<Rightarrow> bool" where
  "preserved P T rel p t \<longleftrightarrow>
     (if p = NULL_CELL_ID then t = NULL_CELL_ID
      else \<exists>pc tc. P p = Some pc \<and> T t = Some tc \<and> atom pc = atom tc \<and>
             rel (link0 pc) (link0 tc) \<and> rel (link1 pc) (link1 tc))"

definition is_match :: "cells \<Rightarrow> cells \<Rightarrow> string list \<Rightarrow> binding \<Rightarrow> bool" where
  "is_match P T vars f \<longleftrightarrow>
     (\<forall>p t. f p = Some t \<longrightarrow> p \<notin> set vars \<longrightarrow> preserved P T (\<lambda>p t. f p = Some t) p t)"

lemma preserved_mono: "preserved P T r p t \<Longrightarrow> (\<And>p t. r p t \<Longrightarrow> r' p t) \<Longrightarrow> preserved P T r' p t"
  by (auto simp: preserved_def split: if_splits)

text \<open>The state of the loop: what is bound so far is preserved, up to the pending pairs.\<close>

definition loop_ok :: "cells \<Rightarrow> cells \<Rightarrow> string list \<Rightarrow> (string \<times> string) list \<Rightarrow> binding \<Rightarrow> binding \<Rightarrow> bool" where
  "loop_ok P T vars xs b m \<longleftrightarrow> dom b \<subseteq> set vars \<and> dom m \<inter> set vars = {} \<and>
     (\<forall>p t. m p = Some t \<longrightarrow> preserved P T (\<lambda>p t. (b ++ m) p = Some t \<or> (p, t) \<in> set xs) p t)"

definition extends_to :: "binding \<Rightarrow> binding \<Rightarrow> bool" where
  "extends_to f g \<longleftrightarrow> (\<forall>k v. f k = Some v \<longrightarrow> g k = Some v)"

lemma extends_toD: "extends_to f g \<Longrightarrow> f k = Some v \<Longrightarrow> g k = Some v"
  by (simp add: extends_to_def)

lemma extends_to_trans: "extends_to f g \<Longrightarrow> extends_to g h \<Longrightarrow> extends_to f h"
  by (simp add: extends_to_def)

lemma loop_ok_grow:
  assumes ok: "loop_ok P T vars ((p, t) # xs) b m" and ext: "extends_to (b ++ m) (b' ++ m')"
    and here: "(b' ++ m') p = Some t" and more: "set xs \<subseteq> set ys"
    and dom: "dom b' \<subseteq> set vars" "dom m' \<inter> set vars = {}"
    and new: "\<And>k v. m' k = Some v \<Longrightarrow> m k = Some v \<or>
      preserved P T (\<lambda>p t. (b' ++ m') p = Some t \<or> (p, t) \<in> set ys) k v"
  shows "loop_ok P T vars ys b' m'"
  unfolding loop_ok_def
proof (intro conjI allI impI dom)
  fix k v assume "m' k = Some v"
  from new [OF this] show "preserved P T (\<lambda>p t. (b' ++ m') p = Some t \<or> (p, t) \<in> set ys) k v"
  proof
    assume "m k = Some v"
    with ok have "preserved P T (\<lambda>q u. (b ++ m) q = Some u \<or> (q, u) \<in> set ((p, t) # xs)) k v"
      by (simp add: loop_ok_def)
    then show ?thesis
    proof (rule preserved_mono)
      fix q u assume "(b ++ m) q = Some u \<or> (q, u) \<in> set ((p, t) # xs)"
      then consider "(b ++ m) q = Some u" | "q = p" "u = t" | "(q, u) \<in> set xs" by fastforce
      then show "(b' ++ m') q = Some u \<or> (q, u) \<in> set ys"
        by cases (simp_all only: extends_toD [OF ext] here subsetD [OF more] simp_thms)
    qed
  qed
qed

lemma match_loop_sound:
  assumes "match_loop P T vars n xs b m = Inr b'" "loop_ok P T vars xs b m"
  shows "\<exists>m'. loop_ok P T vars [] b' m' \<and> extends_to (b ++ m) (b' ++ m') \<and>
    (\<forall>(p, t) \<in> set xs. (b' ++ m') p = Some t)"
  using assms
proof (induction P T vars n xs b m rule: match_loop.induct)
  case (1 P T vars n b m)
  then show ?case by (intro exI [of _ m]) (auto simp: extends_to_def)
next
  case (2 P T vars x xs b m)
  then show ?case by simp
next
  case (3 P T vars n p t xs b m)
  have dom: "dom b \<subseteq> set vars" "dom m \<inter> set vars = {}" using "3.prems"(2) by (auto simp: loop_ok_def)
  have off: "k \<notin> set vars" if "m k = Some v" for k v using dom(2) that by auto
  have step: ?case if run: "match_loop P T vars n ys b1 m1 = Inr b'"
    and IH: "match_loop P T vars n ys b1 m1 = Inr b' \<Longrightarrow> loop_ok P T vars ys b1 m1 \<Longrightarrow>
      \<exists>m'. loop_ok P T vars [] b' m' \<and> extends_to (b1 ++ m1) (b' ++ m') \<and> (\<forall>(p, t) \<in> set ys. (b' ++ m') p = Some t)"
    and ext: "extends_to (b ++ m) (b1 ++ m1)" and here: "(b1 ++ m1) p = Some t" and sub: "set xs \<subseteq> set ys"
    and d: "dom b1 \<subseteq> set vars" "dom m1 \<inter> set vars = {}"
    and new: "\<And>k v. m1 k = Some v \<Longrightarrow> m k = Some v \<or> preserved P T (\<lambda>p t. (b1 ++ m1) p = Some t \<or> (p, t) \<in> set ys) k v"
    for ys b1 m1
  proof -
    have "loop_ok P T vars ys b1 m1" by (rule loop_ok_grow [OF "3.prems"(2) ext here sub d new])
    from IH [OF run this] obtain m' where m': "loop_ok P T vars [] b' m'" "extends_to (b1 ++ m1) (b' ++ m')"
      "\<forall>(p, t) \<in> set ys. (b' ++ m') p = Some t" by blast
    have "(b' ++ m') p = Some t" by (rule extends_toD [OF m'(2) here])
    with m' sub extends_to_trans [OF ext m'(2)] show ?thesis by (intro exI [of _ m']) auto
  qed
  consider (var) "p \<in> set vars" | (again) "p \<notin> set vars" "m p \<noteq> None"
    | (null) "p \<notin> set vars" "m p = None" "p = NULL_CELL_ID"
    | (real) "p \<notin> set vars" "m p = None" "p \<noteq> NULL_CELL_ID" by auto
  then show ?case
  proof cases
    case var
    with "3.prems"(1) have b: "b p = None \<or> b p = Some t" "match_loop P T vars n xs (b(p \<mapsto> t)) m = Inr b'"
      by (auto split: if_splits)
    have mp: "m p = None" using var dom(2) by auto
    show ?thesis
      by (rule step [OF b(2) "3.IH"(1) [OF var]])
        (use b mp dom var subsetD [OF dom(1) domI] in \<open>auto simp: extends_to_def map_add_def split: option.splits if_splits\<close>)
  next
    case again
    with "3.prems"(1) have run: "m p = Some t" "match_loop P T vars n xs b m = Inr b'" by (auto split: if_splits)
    show ?thesis
      by (rule step [OF run(2) "3.IH"(4) [OF again(1) run(1)]]) (use run dom in \<open>auto simp: extends_to_def\<close>)
  next
    case null
    with "3.prems"(1) have run: "t = NULL_CELL_ID" "match_loop P T vars n xs b (m(p \<mapsto> t)) = Inr b'" by (auto split: if_splits)
    have bp: "b p = None" using null(1) dom(1) by auto
    show ?thesis
      by (rule step [OF run(2) "3.IH"(2) [OF null]])
        (use run bp dom null off in \<open>auto simp: extends_to_def map_add_def preserved_def split: if_splits option.splits\<close>)
  next
    case real
    then obtain tc pc where c: "T t = Some tc" "P p = Some pc" "atom pc = atom tc"
      and run: "match_loop P T vars n ((link1 pc, link1 tc) # (link0 pc, link0 tc) # xs) b (m(p \<mapsto> t)) = Inr b'"
      using "3.prems"(1) by (auto split: if_splits option.splits)
    have bp: "b p = None" using real(1) dom(1) by auto
    show ?thesis
      by (rule step [OF run "3.IH"(3) [OF real(1,2,3) c(1,2)]])
        (use c bp dom real off in \<open>auto simp: extends_to_def map_add_def preserved_def split: if_splits option.splits\<close>)
  qed
qed


text \<open>A structure-preserving map guides the loop: it never fails but for the budget.\<close>

lemma match_loop_complete:
  assumes "is_match P T vars f" "finite (dom P)" "\<forall>(p, t) \<in> set xs. f p = Some t"
    and "extends_to (b ++ m) f" "dom b \<subseteq> set vars" "dom m \<inter> set vars = {}"
  shows "case match_loop P T vars n xs b m of
      Inr b' \<Rightarrow> extends_to b' f
    | Inl e \<Rightarrow> (\<exists>msg. e = MatchBudgetExceeded msg) \<and> n < length xs + 2 * card (dom P - dom m)"
  using assms
proof (induction P T vars n xs b m rule: match_loop.induct)
  case (1 P T vars n b m)
  have "(b ++ m) k = Some v" if "b k = Some v" for k v
    using 1(5,6) that by (auto simp: map_add_def split: option.split)
  with 1 show ?case by (auto simp: extends_to_def)
next
  case (2 P T vars x xs b m)
  then show ?case by simp
next
  case (3 P T vars n p t xs b m)
  note M = "3.prems"
  have here: "f p = Some t" and rest: "\<forall>(p, t) \<in> set xs. f p = Some t" using M(3) by auto
  have le: "(b ++ m) k = Some v \<Longrightarrow> f k = Some v" for k v using M(4) by (simp add: extends_to_def)
  consider (var) "p \<in> set vars" | (again) t' where "p \<notin> set vars" "m p = Some t'"
    | (null) "p \<notin> set vars" "m p = None" "p = NULL_CELL_ID"
    | (real) "p \<notin> set vars" "m p = None" "p \<noteq> NULL_CELL_ID" by auto
  then show ?case
  proof cases
    case var
    then have m: "m p = None" using M(6) by auto
    have b: "b p = None \<or> b p = Some t"
      using le [of p] here m by (cases "b p") (auto simp: map_add_def)
    have ext: "extends_to (b(p \<mapsto> t) ++ m) f" using le here m
      by (auto simp: extends_to_def map_add_def split: option.splits if_splits)
    have dom: "dom (b(p \<mapsto> t)) \<subseteq> set vars" using var M(5) by simp
    have nm: "\<not> (b p \<noteq> None \<and> b p \<noteq> Some t)" using b by auto
    have "case match_loop P T vars n xs (b(p \<mapsto> t)) m of Inr b' \<Rightarrow> extends_to b' f
       | Inl e \<Rightarrow> (\<exists>msg. e = MatchBudgetExceeded msg) \<and> n < length xs + 2 * card (dom P - dom m)"
      by (rule "3.IH"(1) [OF var nm M(1,2) rest ext dom M(6)])
    with var b show ?thesis by (auto split: sum.splits)
  next
    case again
    with le [of p t'] here have "t' = t" by simp
    with again have "case match_loop P T vars n xs b m of Inr b' \<Rightarrow> extends_to b' f
       | Inl e \<Rightarrow> (\<exists>msg. e = MatchBudgetExceeded msg) \<and> n < length xs + 2 * card (dom P - dom m)"
      by (intro "3.IH"(4) M rest) auto
    with again \<open>t' = t\<close> show ?thesis by (auto split: sum.splits)
  next
    case null
    have t: "t = NULL_CELL_ID"
      using M(1) here null unfolding is_match_def by (auto simp: preserved_def)
    have bp: "b p = None" using null M(5) by auto
    have ext: "extends_to (b ++ m(p \<mapsto> t)) f" "dom (m(p \<mapsto> t)) \<inter> set vars = {}"
      using le here bp null M(6) by (auto simp: extends_to_def map_add_def split: option.splits if_splits)
    have nt: "\<not> t \<noteq> NULL_CELL_ID" using t by simp
    have "case match_loop P T vars n xs b (m(p \<mapsto> t)) of Inr b' \<Rightarrow> extends_to b' f
       | Inl e \<Rightarrow> (\<exists>msg. e = MatchBudgetExceeded msg) \<and> n < length xs + 2 * card (dom P - dom (m(p \<mapsto> t)))"
      by (rule "3.IH"(2) [OF null nt M(1,2) rest ext(1) M(5) ext(2)])
    moreover have "card (dom P - dom (m(p \<mapsto> t))) \<le> card (dom P - dom m)"
      using M(2) by (intro card_mono) auto
    ultimately show ?thesis using null t by (auto split: sum.splits)
  next
    case real
    have "preserved P T (\<lambda>p t. f p = Some t) p t" using M(1) here real(1) unfolding is_match_def by blast
    with real(3) obtain pc tc where c: "P p = Some pc" "T t = Some tc" "atom pc = atom tc"
      "f (link0 pc) = Some (link0 tc)" "f (link1 pc) = Some (link1 tc)"
      by (auto simp: preserved_def)
    let ?ys = "(link1 pc, link1 tc) # (link0 pc, link0 tc) # xs"
    have bp: "b p = None" using real M(5) by auto
    have ext: "extends_to (b ++ m(p \<mapsto> t)) f" "dom (m(p \<mapsto> t)) \<inter> set vars = {}"
      using le here bp real M(6) by (auto simp: extends_to_def map_add_def split: option.splits if_splits)
    have na: "\<not> atom pc \<noteq> atom tc" using c(3) by simp
    have ys: "\<forall>(p, t) \<in> set ?ys. f p = Some t" using c(4,5) rest by auto
    have "case match_loop P T vars n ?ys b (m(p \<mapsto> t)) of Inr b' \<Rightarrow> extends_to b' f
       | Inl e \<Rightarrow> (\<exists>msg. e = MatchBudgetExceeded msg) \<and> n < length ?ys + 2 * card (dom P - dom (m(p \<mapsto> t)))"
      by (rule "3.IH"(3) [OF real c(2,1) na M(1,2) ys ext(1) M(5) ext(2)])
    moreover have "dom P - dom (m(p \<mapsto> t)) = (dom P - dom m) - {p}" "p \<in> dom P - dom m" using c(1) real by auto
    then have "Suc (card (dom P - dom (m(p \<mapsto> t)))) = card (dom P - dom m)"
      using card_Suc_Diff1 [OF finite_Diff [OF M(2)], of p "dom m"] by simp
    ultimately show ?thesis using real c by (auto split: sum.splits)
  qed
qed


section \<open>Regions\<close>

inductive_set region_of :: "cells \<Rightarrow> string set \<Rightarrow> string \<Rightarrow> string set" for T excluded root where
  start: "root \<notin> excluded \<Longrightarrow> root \<in> region_of T excluded root"
| left: "k \<in> region_of T excluded root \<Longrightarrow> T k = Some c \<Longrightarrow> link0 c \<notin> excluded \<Longrightarrow>
    link0 c \<in> region_of T excluded root"
| right: "k \<in> region_of T excluded root \<Longrightarrow> T k = Some c \<Longrightarrow> link1 c \<notin> excluded \<Longrightarrow>
    link1 c \<in> region_of T excluded root"

lemma region_of_dom:
  assumes "closed_graph T" "root \<in> dom T"
  shows "region_of T excluded root \<subseteq> dom T"
proof
  fix k assume "k \<in> region_of T excluded root"
  then show "k \<in> dom T"
    by (induction rule: region_of.induct) (use assms closed_graphD in blast)+
qed

lemma region_of_closed:
  assumes "root \<in> S" "\<And>k c. k \<in> S \<Longrightarrow> T k = Some c \<Longrightarrow> (link0 c \<in> S \<or> link0 c \<in> excluded) \<and> (link1 c \<in> S \<or> link1 c \<in> excluded)"
  shows "region_of T excluded root \<subseteq> S"
proof
  fix k assume "k \<in> region_of T excluded root"
  then show "k \<in> S" by (induction rule: region_of.induct) (use assms in blast)+
qed

text \<open>A write outside a region changes neither the region nor its Cells.\<close>

lemma region_of_cong:
  assumes "\<And>k. k \<in> region_of T excluded root \<Longrightarrow> T' k = T k"
  shows "region_of T' excluded root = region_of T excluded root"
proof
  show "region_of T excluded root \<subseteq> region_of T' excluded root"
  proof
    fix k assume k: "k \<in> region_of T excluded root"
    then show "k \<in> region_of T' excluded root"
    proof (induction rule: region_of.induct)
      case (left k c)
      then show ?case using assms [OF left(1)] by (intro region_of.left) auto
    next
      case (right k c)
      then show ?case using assms [OF right(1)] by (intro region_of.right) auto
    qed (rule region_of.start)
  qed
  show "region_of T' excluded root \<subseteq> region_of T excluded root"
  proof
    fix k assume k: "k \<in> region_of T' excluded root"
    then show "k \<in> region_of T excluded root"
    proof (induction rule: region_of.induct)
      case (left k c)
      then show ?case using assms [OF left(4)] by (intro region_of.left) auto
    next
      case (right k c)
      then show ?case using assms [OF right(4)] by (intro region_of.right) auto
    qed (rule region_of.start)
  qed
qed

text \<open>The loop collects exactly the region, one unit of budget for each identity.\<close>

definition collecting :: "cells \<Rightarrow> string set \<Rightarrow> string \<Rightarrow> string list \<Rightarrow> string list \<Rightarrow> bool" where
  "collecting T excluded root ks found \<longleftrightarrow> distinct found \<and> set found \<subseteq> region_of T excluded root \<and>
     set ks \<subseteq> region_of T excluded root \<union> excluded \<and> root \<in> set found \<union> set ks \<and>
     (\<forall>k \<in> set found. \<forall>c. T k = Some c \<longrightarrow> {link0 c, link1 c} \<subseteq> set found \<union> set ks \<union> excluded)"

lemma collecting_start: "root \<notin> excluded \<Longrightarrow> collecting T excluded root [root] []"
  by (auto simp: collecting_def intro: region_of.start)

lemma collecting_done:
  assumes "collecting T excluded root [] found"
  shows "distinct found" "set found = region_of T excluded root"
proof -
  have "region_of T excluded root \<subseteq> set found"
    using assms by (intro region_of_closed) (auto simp: collecting_def)
  with assms show "distinct found" "set found = region_of T excluded root" by (auto simp: collecting_def)
qed

lemma collecting_skip:
  assumes "collecting T excluded root (k # ks) found" "k \<in> set found \<or> k \<in> excluded" "root \<notin> excluded"
  shows "collecting T excluded root ks found"
  using assms by (fastforce simp: collecting_def)

lemma collecting_take:
  assumes "collecting T excluded root (k # ks) found" "k \<notin> set found" "k \<notin> excluded" "T k = Some c"
  shows "collecting T excluded root (link1 c # link0 c # ks) (found @ [k])" "k \<in> region_of T excluded root"
proof -
  show k: "k \<in> region_of T excluded root" using assms by (auto simp: collecting_def)
  show "collecting T excluded root (link1 c # link0 c # ks) (found @ [k])"
    using assms region_of.left [OF k assms(4)] region_of.right [OF k assms(4)] by (auto simp: collecting_def)
qed

lemma collect_region_ok:
  assumes "collecting T (set excluded) root ks found" "closed_graph T" "root \<in> dom T" "root \<notin> set excluded" "finite (dom T)"
  shows "case collect_region T excluded n ks found of
      Inr ids \<Rightarrow> distinct ids \<and> set ids = region_of T (set excluded) root \<and>
        card (region_of T (set excluded) root) \<le> n + length found
    | Inl e \<Rightarrow> e = MatchBudgetExceeded ''fingerprint exceeded its reachable cells'' \<and>
        n + length found < card (region_of T (set excluded) root)"
  using assms
proof (induction T excluded n ks found rule: collect_region.induct)
  case (1 T excluded n found)
  from collecting_done [OF 1(1)] show ?case by (simp add: distinct_card [symmetric])
next
  case (2 T excluded n k ks found)
  let ?R = "region_of T (set excluded) root"
  show ?case
  proof (cases "k \<in> set found \<or> k \<in> set excluded")
    case True
    have "collecting T (set excluded) root ks found" by (rule collecting_skip [OF "2.prems"(1) True "2.prems"(4)])
    from "2.IH"(1) [OF True this "2.prems"(2-5)] True show ?thesis by simp
  next
    case False
    then have k: "k \<in> ?R" using "2.prems"(1) by (auto simp: collecting_def)
    with region_of_dom [OF "2.prems"(2,3)] obtain c where c: "T k = Some c" by blast
    have fin: "finite ?R" using region_of_dom [OF "2.prems"(2,3)] "2.prems"(5) by (rule finite_subset)
    show ?thesis
    proof (cases n)
      case 0
      have "insert k (set found) \<subseteq> ?R" using k "2.prems"(1) by (auto simp: collecting_def)
      from card_mono [OF fin this] have "Suc (length found) \<le> card ?R"
        using False "2.prems"(1) by (simp add: collecting_def distinct_card)
      with False 0 show ?thesis by simp
    next
      case (Suc m)
      have "collecting T (set excluded) root (link1 c # link0 c # ks) (found @ [k])"
        using False by (intro collecting_take(1) [OF "2.prems"(1) _ _ c]) auto
      note IH = "2.IH"(2) [OF False Suc c this "2.prems"(2-5)]
      have "collect_region T excluded n (k # ks) found = collect_region T excluded m (link1 c # link0 c # ks) (found @ [k])"
        using False Suc c by (subst collect_region.simps(2)) (simp del: collect_region.simps)
      moreover have "m + length (found @ [k]) = n + length found" using Suc by simp
      ultimately show ?thesis using IH by (simp only:)
    qed
  qed
qed


section \<open>The fingerprint cache\<close>

definition region_bytes :: "cells \<Rightarrow> string set \<Rightarrow> string \<Rightarrow> bytes" where
  "region_bytes T excluded root =
     concat (map (\<lambda>k. cell_fields (the (T k))) (sorted_list_of_set (region_of T excluded root)))"

definition region_hash :: "(bytes \<Rightarrow> bytes) \<Rightarrow> cells \<Rightarrow> string set \<Rightarrow> string \<Rightarrow> string" where
  "region_hash blake T excluded root = hex (blake (region_bytes T excluded root))"

lemma fingerprint_cell_fields: "fingerprint_cell = cell_fields"
  by (rule ext) (simp add: fingerprint_cell_def cell_fields_def add_field_def field_def)

lemma region_digest_hash:
  assumes "distinct ids" "set ids = region_of T excluded root"
  shows "region_digest blake T ids = region_hash blake T excluded root"
  using assms sorted_list_of_set.idem_if_sorted_distinct [of "sort ids"]
  by (simp add: region_digest_def region_hash_def region_bytes_def fingerprint_cell_fields)

definition fp_ok :: "(bytes \<Rightarrow> bytes) \<Rightarrow> store \<Rightarrow> bool" where
  "fp_ok blake s \<longleftrightarrow> keys_distinct (st_fingerprints s) \<and> keys_distinct (st_dependencies s) \<and>
     (\<forall>root excluded v. map_of (st_fingerprints s) (root, excluded) = Some v \<longrightarrow>
        root \<in> dom (st_cells s) \<and>
        map_of (st_dependencies s) (root, excluded) = Some (region_of (st_cells s) excluded root) \<and>
        v = region_hash blake (st_cells s) excluded root)"

lemma region_hash_cong:
  assumes "\<And>k. k \<in> region_of T excluded root \<Longrightarrow> T' k = T k"
  shows "region_hash blake T' excluded root = region_hash blake T excluded root"
proof -
  have same: "region_of T' excluded root = region_of T excluded root" by (rule region_of_cong [OF assms])
  show ?thesis
  proof (cases "finite (region_of T excluded root)")
    case True
    then have eq: "map (\<lambda>k. cell_fields (the (T' k))) (sorted_list_of_set (region_of T excluded root)) =
        map (\<lambda>k. cell_fields (the (T k))) (sorted_list_of_set (region_of T excluded root))"
      using assms by (intro map_cong) auto
    show ?thesis unfolding region_hash_def region_bytes_def same eq by (rule refl)
  qed (simp add: region_hash_def region_bytes_def same)
qed

text \<open>What every operation does to the graph and to the remembered fingerprints.\<close>

definition fp_frame :: "store \<Rightarrow> store \<Rightarrow> bool" where
  "fp_frame s s' \<longleftrightarrow>
     st_cells s' = st_cells s \<and> st_fingerprints s' = st_fingerprints s \<and> st_dependencies s' = st_dependencies s \<or>
     st_fingerprints s' = [] \<and> st_dependencies s' = [] \<or>
     (\<exists>d. st_cells s' = put_cells d (st_cells s) \<and>
        st_fingerprints s' = st_fingerprints (invalidate_fingerprints (map cid d) s) \<and>
        st_dependencies s' = st_dependencies (invalidate_fingerprints (map cid d) s))"

lemma map_of_filter_keys: "keys_distinct al \<Longrightarrow> map_of (filter P al) k =
   (case map_of al k of None \<Rightarrow> None | Some v \<Rightarrow> if P (k, v) then Some v else None)"
  by (induction al) (auto simp: map_of_eq_None_iff split: option.split)

lemma fp_ok_frame:
  assumes ok: "fp_ok blake s" and frame: "fp_frame s s'"
  shows "fp_ok blake s'"
  using frame unfolding fp_frame_def
proof (elim disjE exE conjE)
  assume "st_cells s' = st_cells s" "st_fingerprints s' = st_fingerprints s" "st_dependencies s' = st_dependencies s"
  with ok show ?thesis by (simp add: fp_ok_def)
next
  assume "st_fingerprints s' = []" "st_dependencies s' = []"
  then show ?thesis by (simp add: fp_ok_def)
next
  fix d
  assume cells: "st_cells s' = put_cells d (st_cells s)"
    and fps: "st_fingerprints s' = st_fingerprints (invalidate_fingerprints (map cid d) s)"
    and deps: "st_dependencies s' = st_dependencies (invalidate_fingerprints (map cid d) s)"
  have distinct: "keys_distinct (st_fingerprints s)" "keys_distinct (st_dependencies s)" using ok by (auto simp: fp_ok_def)
  have "root \<in> dom (st_cells s') \<and>
      map_of (st_dependencies s') (root, excluded) = Some (region_of (st_cells s') excluded root) \<and>
      v = region_hash blake (st_cells s') excluded root"
    if hit: "map_of (st_fingerprints s') (root, excluded) = Some v" for root excluded v
  proof -
    let ?R = "region_of (st_cells s) excluded root"
    have old: "map_of (st_fingerprints s) (root, excluded) = Some v"
      and stale: "\<not> (case map_of (st_dependencies s) (root, excluded) of None \<Rightarrow> False
                      | Some deps \<Rightarrow> set (map cid d) \<inter> deps \<noteq> {})"
      using hit unfolding fps invalidate_fingerprints_def Let_def
      by (auto simp: map_of_filter_keys [OF distinct(1)] split: option.splits if_splits)
    from ok old have s: "root \<in> dom (st_cells s)" "map_of (st_dependencies s) (root, excluded) = Some ?R"
      "v = region_hash blake (st_cells s) excluded root" unfolding fp_ok_def by blast+
    with stale have off: "set (map cid d) \<inter> ?R = {}" by simp
    then have same: "k \<in> ?R \<Longrightarrow> st_cells s' k = st_cells s k" for k
      unfolding cells by (intro put_cells_notin) auto
    have "map_of (st_dependencies s') (root, excluded) = Some ?R"
      using off s(2) unfolding deps invalidate_fingerprints_def Let_def
      by (simp add: map_of_filter_keys [OF distinct(2)] del: map_of_eq_Some_iff)
    with s region_of_cong [of "st_cells s" excluded root "st_cells s'", OF same]
      region_hash_cong [of "st_cells s" excluded root "st_cells s'" blake, OF same] cells
    show ?thesis by auto
  qed
  moreover have "keys_distinct (st_fingerprints s')" "keys_distinct (st_dependencies s')"
    using distinct unfolding fps deps invalidate_fingerprints_def Let_def by (simp_all add: distinct_map_filter)
  ultimately show ?thesis by (simp only: fp_ok_def simp_thms) blast
qed

end
