(* ===== verification/MatchProps.thy ===== *)
theory MatchProps
  imports MatchLaws
begin

text \<open>
  The properties of matching, fingerprints, rewriting and migration, on every store that lived
  through any sequence of operations (\<open>lived\<close>): those of \<open>store_op\<close>, fingerprints, matches and
  rewrites.
\<close>

section \<open>Lives with fingerprints\<close>

lemma fp_frame_refl: "fp_frame s s"
  by (simp add: fp_frame_def)

lemma fp_frame_same:
  "st_cells s' = st_cells s \<Longrightarrow> st_fingerprints s' = st_fingerprints s \<Longrightarrow> st_dependencies s' = st_dependencies s \<Longrightarrow>
     fp_frame s s'"
  by (simp add: fp_frame_def)

lemma fp_frame_cleared: "st_fingerprints s' = [] \<Longrightarrow> st_dependencies s' = [] \<Longrightarrow> fp_frame s s'"
  by (simp add: fp_frame_def)

lemma reload_frame: "reload sha j s = (s', r) \<Longrightarrow> fp_frame s s'"
  by (auto simp: reload_def adopt_journal_state_def head_state_def
      split: prod.splits sum.splits if_splits intro: fp_frame_same fp_frame_cleared)

lemma at_memory_frame:
  "st_cells (fst (at_memory r s)) = st_cells s" "st_fingerprints (fst (at_memory r s)) = st_fingerprints s"
  "st_dependencies (fst (at_memory r s)) = st_dependencies s"
  by (simp_all add: at_memory_def Let_def split: prod.split sum.split option.split)

lemma at_journal_frame:
  "st_cells (fst (at_journal j rd r s)) = st_cells s" "st_fingerprints (fst (at_journal j rd r s)) = st_fingerprints s"
  "st_dependencies (fst (at_journal j rd r s)) = st_dependencies s"
  by (simp_all add: at_journal_def Let_def split: prod.split sum.split option.split)

lemma at_revision_frame: "fp_frame s (fst (at_revision r s))"
  by (rule fp_frame_same)
    (simp_all add: at_revision_def at_memory_frame at_journal_frame split: option.split)


lemma record_frame:
  "st_cells (record_set_accumulator r a w s) = st_cells s" "st_fingerprints (record_set_accumulator r a w s) = st_fingerprints s"
  "st_dependencies (record_set_accumulator r a w s) = st_dependencies s"
  by (simp_all add: record_set_accumulator_def Let_def split: option.split prod.split)

lemma accumulator_frame:
  "st_cells (fst (store_set_accumulator shake own sn s)) = st_cells s"
  "st_fingerprints (fst (store_set_accumulator shake own sn s)) = st_fingerprints s"
  "st_dependencies (fst (store_set_accumulator shake own sn s)) = st_dependencies s"
  by (simp_all add: store_set_accumulator_def Let_def record_frame split: option.split sum.split)

lemma accumulate_frame: "fp_frame s (fst (accumulate shake r s))"
  by (rule fp_frame_same)
    (simp_all add: accumulate_def accumulator_frame at_revision_def at_memory_frame at_journal_frame split_beta
      split: option.split sum.split)

lemma cells_at_frame: "fp_frame s (fst (cells_at r ids s))"
  by (rule fp_frame_same) (simp_all add: cells_at_def Let_def split: option.split)

lemma chain_digest_frame:
  "st_cells (fst (chain_digest_raw sha r s)) = st_cells s" "st_fingerprints (fst (chain_digest_raw sha r s)) = st_fingerprints s"
  "st_dependencies (fst (chain_digest_raw sha r s)) = st_dependencies s"
  by (simp_all add: chain_digest_raw_def Let_def split: option.split prod.split)

lemma transition_frame: "fp_frame s (fst (snapshot_transition sha r d s))"
  by (rule fp_frame_same) (simp_all add: snapshot_transition_def store_chain_digest_def chain_digest_frame Let_def split_beta)

lemma dense_frame: "fp_frame s (fst (dense_snapshot s))"
  by (rule fp_frame_same) (simp_all add: dense_snapshot_def Let_def split: option.split)

lemma opened_frame: "open_store sha j = (j', Inr s') \<Longrightarrow> fp_frame s s'"
  by (auto simp: open_store_def head_state_def blank_store_def split: prod.splits sum.splits intro!: fp_frame_cleared)

lemma reopen_frame: "fp_frame s (reopen sha s)"
  using opened_frame fp_frame_refl by (auto simp: reopen_def split: option.split prod.split sum.split)

lemma refresh_frame: "fp_frame s (fst (refresh sha s))"
  using reload_frame fp_frame_refl by (auto simp: refresh_def split: option.split prod.split)

lemma append_frame:
  assumes "append_to_journal env n d s = (s', r)"
  shows "fp_frame s s'" "r = Inr u \<Longrightarrow> st_cells s' = st_cells s \<and> st_fingerprints s' = st_fingerprints s \<and> st_dependencies s' = st_dependencies s"
  using assms reload_frame
  by (auto simp: append_to_journal_def fp_frame_refl split: option.splits prod.splits sum.splits kernel_error.splits
      intro: fp_frame_same)

lemma publish_frame:
  assumes run: "publish env decl cr ch s = (s', Inr r)"
  shows "fp_frame s s'"
proof -
  obtain t q where t: "record_history (env_sha env) (Suc (st_revision s)) (cr @ ch) (moved env cr ch s) = (t, q)"
    by fastforce
  then have same: "st_cells t = put_cells (cr @ ch) (st_cells s)" "st_fingerprints t = st_fingerprints s"
    "st_dependencies t = st_dependencies s"
    by (auto simp: record_history_def split: option.splits sum.splits)
  have out: "s' = (let s4 = invalidate_fingerprints (map cid (cr @ ch)) (t\<lparr>st_index := None\<rparr>)
      in s4\<lparr>st_failures := notify (env_listener env)
        \<lparr>ev_revision = Suc (st_revision s), ev_changed = map cid (cr @ ch), ev_declaration = decl\<rparr>
        (st_listeners s4) (st_failures s4)\<rparr>)"
    using run unfolding publish_eq t by (auto simp: Let_def split: sum.splits)
  have "st_fingerprints s' = st_fingerprints (invalidate_fingerprints (map cid (cr @ ch)) s)"
    "st_dependencies s' = st_dependencies (invalidate_fingerprints (map cid (cr @ ch)) s)"
    "st_cells s' = put_cells (cr @ ch) (st_cells s)"
    unfolding out Let_def using same by (simp_all add: invalidate_fingerprints_def Let_def)
  then show ?thesis unfolding fp_frame_def by blast
qed

lemma fp_frame_after: "st_cells s1 = st_cells s \<and> st_fingerprints s1 = st_fingerprints s \<and> st_dependencies s1 = st_dependencies s \<Longrightarrow>
    fp_frame s1 s' \<Longrightarrow> fp_frame s s'"
  by (simp add: fp_frame_def invalidate_fingerprints_def Let_def)

lemma commit_frame:
  assumes inv: "store_inv sha shake s j" and sha: "\<And>x. length (sha x) = 32"
    and run: "commit (hashed sha shake env) n create replace (c, s) = ((c', s'), res)"
  shows "fp_frame s s'"
  using commit_shape [OF run]
proof
  assume "attempted (hashed sha shake env) create replace s s' res"
  then obtain cr rs ch s1 r1 decl where plan: "commit_plan (st_cells s) cr rs = Inr ch" "cr @ ch \<noteq> []"
      "links_resolve (st_cells s) (cr @ ch)"
    and app: "append_to_journal (hashed sha shake env) (st_revision s) (cr @ ch) s = (s1, r1)"
    and out: "case r1 of Inl e \<Rightarrow> s' = s1 | Inr _ \<Rightarrow> publish (hashed sha shake env) decl cr ch s1 = (s', res)"
    unfolding attempted_def by blast
  show ?thesis
  proof (cases r1)
    case (Inl e)
    with out append_frame(1) [OF app] show ?thesis by simp
  next
    case (Inr u)
    have rows: "commit_rows_ok (st_cells s) (cr @ ch)"
      using commit_plan_rows [OF represents_graph_ok [OF store_invD(1) [OF inv]] plan(1)] plan(2,3) by simp
    have app': "append_to_journal (hashed sha shake env) (st_revision s) (cr @ ch) s = (s1, Inr ())"
      using app Inr by simp
    obtain s'' where "publish (hashed sha shake env) decl cr ch s1 = (s'', Inr (Suc (st_revision s)))"
      using publish_after_append [OF store_invD(1) [OF inv] hashed_simps(1) sha rows app'] by blast
    with out Inr have "publish (hashed sha shake env) decl cr ch s1 = (s', Inr (Suc (st_revision s)))" by simp
    from fp_frame_after [OF append_frame(2) [OF app Inr] publish_frame [OF this]] show ?thesis .
  qed
qed (simp add: fp_frame_refl)

lemma run_op_frame:
  assumes "store_inv sha shake s j" "\<And>x. length (sha x) = 32"
  shows "fp_frame s (run_op sha shake op s)"
proof (cases op)
  case (Commit env c n cr rp)
  obtain c' s' res where "commit (hashed sha shake env) n cr rp (c, s) = ((c', s'), res)" by (metis surj_pair)
  with commit_frame [OF assms this] Commit show ?thesis by simp
next
  case (ChainDigest r)
  then show ?thesis by (auto simp: chain_digest_frame intro: fp_frame_same)
qed (simp_all add: refresh_frame at_revision_frame cells_at_frame accumulate_frame transition_frame dense_frame reopen_frame,
  simp_all add: fp_frame_same subscribe_def unsubscribe_def require_declared_intent_def)


lemma match_frame: "fst (store_match p proot troot vars n r s) = s \<or>
    (\<exists>r'. fst (store_match p proot troot vars n r s) = fst (at_revision r' s))"
proof -
  have "fst (case x of (s', Inl e) \<Rightarrow> (s', Inl e) | (s', Inr t) \<Rightarrow> if A t then (s', B t) else (s', C t)) = fst x"
    for x :: "store \<times> snapshot result" and A B and C :: "snapshot \<Rightarrow> binding result"
    by (auto split: prod.split sum.split)
  then show ?thesis by (cases r) (auto simp: store_match_def split: sum.split)
qed

lemma prepare_frame: "fst (prepare_rewrite draws n rl root s) = s \<or>
    (\<exists>r'. fst (prepare_rewrite draws n rl root s) = fst (at_revision r' s))"
  using match_frame [of Stored "pattern_root rl" root "pattern_variables rl" "rule_budget rl" "Some n" s]
  by (auto simp: prepare_rewrite_def split: sum.split prod.split)

inductive lived :: "(bytes \<Rightarrow> bytes) \<Rightarrow> (bytes \<Rightarrow> bytes) \<Rightarrow> (bytes \<Rightarrow> bytes) \<Rightarrow> store \<Rightarrow> bool"
  for sha shake blake where
  born: "lived sha shake blake (new_store sha durable)"
| ran: "lived sha shake blake s \<Longrightarrow> lived sha shake blake (run_op sha shake op s)"
| printed: "lived sha shake blake s \<Longrightarrow> lived sha shake blake (fst (fingerprint blake root budget excluded s))"
| matched: "lived sha shake blake s \<Longrightarrow> lived sha shake blake (fst (store_match p proot troot vars n r s))"
| rewritten: "lived sha shake blake s \<Longrightarrow>
    lived sha shake blake (snd (fst (rewrite (hashed sha shake env) draws n rl root (c, s))))"

lemma fingerprint_outcome:
  assumes inv: "store_inv sha shake s j" and fp: "fp_ok blake s" and budget: "1 \<le> budget"
    and root: "root \<in> dom (st_cells s)" "root \<notin> set excluded" "[] \<notin> set excluded"
  shows "snd (fingerprint blake root budget excluded s) =
      (if map_of (st_fingerprints s) (root, set excluded) \<noteq> None \<or>
          card (region_of (st_cells s) (set excluded) root) \<le> budget
       then Inr (region_hash blake (st_cells s) (set excluded) root)
       else Inl (MatchBudgetExceeded ''fingerprint exceeded its reachable cells''))"
    "fp_ok blake (fst (fingerprint blake root budget excluded s))"
proof -
  let ?T = "st_cells s" and ?key = "(root, set excluded)"
  let ?R = "region_of ?T (set excluded) root"
  have ne: "\<not> list_ex (\<lambda>k. k = []) excluded" using root(3) by (auto simp: list_ex_iff)
  note G = graph_okD [OF represents_graph_ok [OF store_invD(1) [OF inv]]]
  have out: "snd (fingerprint blake root budget excluded s) =
      (if map_of (st_fingerprints s) ?key \<noteq> None \<or> card ?R \<le> budget then Inr (region_hash blake ?T (set excluded) root)
       else Inl (MatchBudgetExceeded ''fingerprint exceeded its reachable cells'')) \<and>
    fp_ok blake (fst (fingerprint blake root budget excluded s))"
  proof (cases "map_of (st_fingerprints s) ?key")
    case (Some v)
    then have "v = region_hash blake ?T (set excluded) root" using fp unfolding fp_ok_def by blast
    with Some ne root budget fp show ?thesis by (auto simp: fingerprint_def Let_def simp del: map_of_eq_Some_iff)
  next
    case None
    have "collecting ?T (set excluded) root [root] []"
      by (rule collecting_start [OF root(2)])
    note C = collect_region_ok [OF this G(2) root(1,2) G(4), of budget]
    show ?thesis
    proof (cases "collect_region ?T excluded budget [root] []")
      case (Inl e)
      with C None ne root budget fp show ?thesis by (auto simp: fingerprint_def Let_def)
    next
      case (Inr ids)
      with C have ids: "distinct ids" "set ids = ?R" "card ?R \<le> budget" by auto
      have hash: "region_digest blake ?T ids = region_hash blake ?T (set excluded) root"
        by (rule region_digest_hash [OF ids(1,2)])
      have "fp_ok blake (s\<lparr>st_fingerprints := AList.update ?key (region_hash blake ?T (set excluded) root) (st_fingerprints s),
          st_dependencies := AList.update ?key ?R (st_dependencies s), st_computes := n\<rparr>)" for n
        using fp root(1) unfolding fp_ok_def
        by (auto simp: AList.update_conv' AList.distinct_update simp del: map_of_eq_Some_iff)
      with Inr None ne root budget ids hash show ?thesis
        by (auto simp: fingerprint_def Let_def simp del: collect_region.simps)
    qed
  qed
  then show "snd (fingerprint blake root budget excluded s) =
      (if map_of (st_fingerprints s) ?key \<noteq> None \<or> card ?R \<le> budget then Inr (region_hash blake ?T (set excluded) root)
       else Inl (MatchBudgetExceeded ''fingerprint exceeded its reachable cells''))"
    "fp_ok blake (fst (fingerprint blake root budget excluded s))" by auto
qed

lemma fingerprint_same: "same_authority s (fst (fingerprint blake root budget excluded s)) \<and>
    st_historical (fst (fingerprint blake root budget excluded s)) = st_historical s \<and>
    st_dense (fst (fingerprint blake root budget excluded s)) = st_dense s \<and>
    st_index (fst (fingerprint blake root budget excluded s)) = st_index s \<and>
    st_accumulators (fst (fingerprint blake root budget excluded s)) = st_accumulators s \<and>
    st_chain_digests (fst (fingerprint blake root budget excluded s)) = st_chain_digests s"
  by (auto simp: fingerprint_def Let_def same_authority_def simp del: collect_region.simps split: option.split sum.split)

lemma fingerprint_keeps:
  assumes "store_inv sha shake s j" "fp_ok blake s"
  shows "store_inv sha shake (fst (fingerprint blake root budget excluded s)) j \<and>
    fp_ok blake (fst (fingerprint blake root budget excluded s))"
proof
  show "store_inv sha shake (fst (fingerprint blake root budget excluded s)) j"
    using assms(1) fingerprint_same [of s blake root budget excluded] by (subst store_inv_cong) auto
  show "fp_ok blake (fst (fingerprint blake root budget excluded s))"
  proof (cases "1 \<le> budget \<and> root \<in> dom (st_cells s) \<and> root \<notin> set excluded \<and> [] \<notin> set excluded")
    case True
    with fingerprint_outcome(2) [OF assms] show ?thesis by blast
  next
    case False
    then have "fst (fingerprint blake root budget excluded s) = s"
      by (auto simp: fingerprint_def Let_def list_ex_iff domIff split: option.split)
    with assms(2) show ?thesis by simp
  qed
qed

lemma lived_inv:
  assumes "lived sha shake blake s" and sha: "\<And>x. length (sha x) = 32"
  shows "\<exists>j. store_inv sha shake s j \<and> fp_ok blake s"
  using assms(1)
proof (induction rule: lived.induct)
  case (born durable)
  have "st_fingerprints (new_store sha durable) = []" "st_dependencies (new_store sha durable) = []"
    by (auto simp: new_store_def open_memory_def blank_store_def open_store_def head_state_def split: prod.split sum.split)
  then have "fp_ok blake (new_store sha durable)" by (simp add: fp_ok_def)
  moreover have "\<exists>j. store_inv sha shake (new_store sha durable) j" using new_store_inv [where sha = sha and shake = shake and durable = durable] sha by blast
  ultimately show ?case by blast
next
  case (ran s op)
  then obtain j where j: "store_inv sha shake s j" "fp_ok blake s" by blast
  with run_op_inv [OF j(1) sha] fp_ok_frame [OF j(2) run_op_frame [OF j(1) sha]] show ?case by blast
next
  case (printed s root budget excluded)
  then obtain j where j: "store_inv sha shake s j" "fp_ok blake s" by blast
  from fingerprint_keeps [OF this] show ?case by blast
next
  case (matched s p proot troot vars n r)
  then obtain j where j: "store_inv sha shake s j" "fp_ok blake s" by blast
  then show ?case
    using match_frame [of p proot troot vars n r s] at_revision_keeps [OF j(1)] fp_ok_frame [OF j(2) at_revision_frame] by metis
next
  case (rewritten s env draws n rl root c)
  then obtain j where j: "store_inv sha shake s j" "fp_ok blake s" by blast
  obtain s1 res where prep: "prepare_rewrite draws n rl root s = (s1, res)" by fastforce
  have s1: "store_inv sha shake s1 j" "fp_ok blake s1"
    using prepare_frame [of draws n rl root s] prep j at_revision_keeps [OF j(1)] fp_ok_frame [OF j(2) at_revision_frame]
    by (metis fst_conv)+
  show ?case
  proof (cases res)
    case (Inl e)
    with prep s1 show ?thesis by (auto simp: rewrite_def)
  next
    case (Inr pr)
    obtain c' s' q where run: "commit (hashed sha shake env) n (pr_create pr) (pr_replace pr) (c, s1) = ((c', s'), q)"
      by (metis surj_pair)
    obtain j' where "store_inv sha shake s' j'" using commit_inv [OF s1(1) _ _ sha run] by auto
    with fp_ok_frame [OF s1(2) commit_frame [OF s1(1) sha run]] prep Inr run show ?thesis
      by (auto simp: rewrite_def)
  qed
qed


section \<open>Fingerprints\<close>

text \<open>
  C21: Fingerprints are exact, cached or not. Whatever commits, rewrites, reloads and other
  fingerprints came before, the answer is the hash of the region as it is now: the Cells reachable
  from the root without entering an excluded identity, in identity order. It fails exactly when
  nothing is remembered and the region has more Cells than the budget.
\<close>

theorem fingerprints_are_exact:
  assumes "lived sha shake blake s" "\<And>x. length (sha x) = 32"
    and "root \<in> dom (st_cells s)" "root \<notin> set excluded" "[] \<notin> set excluded" "1 \<le> budget"
  shows "snd (fingerprint blake root budget excluded s) =
      (if map_of (st_fingerprints s) (root, set excluded) \<noteq> None \<or>
          card (region_of (st_cells s) (set excluded) root) \<le> budget
       then Inr (region_hash blake (st_cells s) (set excluded) root)
       else Inl (MatchBudgetExceeded ''fingerprint exceeded its reachable cells''))"
proof -
  obtain j where "store_inv sha shake s j" "fp_ok blake s" using lived_inv [OF assms(1,2)] by blast
  from fingerprint_outcome(1) [OF this assms(6,3,4,5)] show ?thesis .
qed

lemma lived_memory: "lived sha shake blake open_memory"
  using lived.born [of sha shake blake False] by (simp add: new_store_def)

lemma null_region: "region_of genesis {} NULL_CELL_ID = {NULL_CELL_ID}"
proof
  show "region_of genesis {} NULL_CELL_ID \<subseteq> {NULL_CELL_ID}"
    by (rule region_of_closed) (auto simp: genesis_def)
qed (auto intro: region_of.start)

theorem fingerprints_are_exact_witness:
  "snd (fingerprint fixed_sha NULL_CELL_ID 1 [] open_memory) = Inr (hex (fixed_sha (cell_fields null_cell)))"
proof -
  have g: "st_cells open_memory = genesis" by (simp add: open_memory_def blank_store_def)
  have "NULL_CELL_ID \<in> dom (st_cells open_memory)" by (simp add: g genesis_def)
  from fingerprints_are_exact [OF lived_memory fixed_sha_length this, where excluded = "[]" and budget = 1 and blake = fixed_sha]
  show ?thesis by (simp add: g null_region region_hash_def region_bytes_def) (simp add: genesis_def)
qed

text \<open>
  A fingerprint identifies its region. If two stores answer with the same fingerprint and
  BLAKE2b does not collide on the two byte strings hashed, then both regions have the same
  identities and the same Cells, whichever roots and exclusions were asked for.
\<close>

theorem fingerprints_identify_regions:
  assumes "lived sha shake blake s" "lived sha' shake' blake t" "\<And>x. length (sha x) = 32" "\<And>x. length (sha' x) = 32"
    and "snd (fingerprint blake root budget [] s) = Inr v" "snd (fingerprint blake root' budget' [] t) = Inr v"
    and "blake (region_bytes (st_cells s) {} root) = blake (region_bytes (st_cells t) {} root') \<Longrightarrow>
      region_bytes (st_cells s) {} root = region_bytes (st_cells t) {} root'"
    and "\<forall>c \<in> ran (st_cells s) \<union> ran (st_cells t). short_cell c"
  shows "region_of (st_cells s) {} root = region_of (st_cells t) {} root' \<and>
    (\<forall>k \<in> region_of (st_cells s) {} root. st_cells s k = st_cells t k)"
proof -
  have here: "region_hash blake (st_cells u) {} r = v \<and> r \<in> dom (st_cells u) \<and> graph_ok (st_cells u)"
    if life: "lived sh sk blake u" "\<And>x. length (sh x) = 32" and got: "snd (fingerprint blake r n [] u) = Inr v" for sh sk u r n
  proof -
    obtain j where j: "store_inv sh sk u j" "fp_ok blake u" using lived_inv [OF life] by blast
    have n: "1 \<le> n" using got by (auto simp: fingerprint_def Let_def split: if_splits)
    have "r \<in> dom (st_cells u)"
    proof (cases "map_of (st_fingerprints u) (r, {})")
      case None
      with got show ?thesis by (auto simp: fingerprint_def Let_def split: if_splits)
    next
      case (Some w)
      with j(2) show ?thesis unfolding fp_ok_def by blast
    qed
    with fingerprint_outcome(1) [OF j n this, of "[]"] got represents_graph_ok [OF store_invD(1) [OF j(1)]]
    show ?thesis by (auto split: if_splits)
  qed
  note S = here [OF assms(1,3,5)] and T = here [OF assms(2,4,6)]
  let ?R = "region_of (st_cells s) {} root" and ?R' = "region_of (st_cells t) {} root'"
  have sub: "?R \<subseteq> dom (st_cells s)" "?R' \<subseteq> dom (st_cells t)"
    using region_of_dom S T graph_okD(2) by blast+
  then have fin: "finite ?R" "finite ?R'" using S T graph_okD(4) finite_subset by blast+
  let ?cs = "map (\<lambda>k. the (st_cells s k)) (sorted_list_of_set ?R)"
    and ?ds = "map (\<lambda>k. the (st_cells t k)) (sorted_list_of_set ?R')"
  have "blake (region_bytes (st_cells s) {} root) = blake (region_bytes (st_cells t) {} root')"
    using S T unfolding region_hash_def by (metis hex_inj)
  from assms(7) [OF this] have "concat (map cell_fields ?cs) = concat (map cell_fields ?ds)"
    by (simp add: region_bytes_def comp_def)
  moreover have "list_all short_cell ?cs" "list_all short_cell ?ds"
    using assms(8) sub fin by (auto simp: list_all_iff intro!: bspec [OF assms(8)] dest!: subsetD intro: ranI)
  ultimately have eq: "?cs = ?ds" by (rule concat_cell_fields_inj)
  have ids: "map cid (map (\<lambda>k. the (m k)) (sorted_list_of_set R)) = sorted_list_of_set R"
    if "R \<subseteq> dom m" "finite R" "keyed m" for m :: cells and R
    using that by (auto intro!: map_idI dest: keyedD simp: keyed_def)
  have "sorted_list_of_set ?R = sorted_list_of_set ?R'"
    using ids [OF sub(1) fin(1)] ids [OF sub(2) fin(2)] S T eq graph_okD(1) by metis
  then have R: "?R = ?R'" using fin by (metis set_sorted_list_of_set)
  have "st_cells s k = st_cells t k" if "k \<in> ?R" for k
  proof -
    have "the (st_cells s k) = the (st_cells t k)"
      using eq that fin(1) unfolding R [symmetric] map_eq_conv by simp
    moreover have "k \<in> dom (st_cells s)" "k \<in> dom (st_cells t)" using that sub R by auto
    ultimately show ?thesis by (auto simp: domIff)
  qed
  with R show ?thesis by blast
qed

theorem fingerprints_identify_regions_witness:
  "\<exists>v. snd (fingerprint fixed_sha NULL_CELL_ID 1 [] open_memory) = Inr v \<and>
     region_of (st_cells open_memory) {} NULL_CELL_ID = region_of (st_cells open_memory) {} NULL_CELL_ID"
proof -
  have g: "st_cells open_memory = genesis" by (simp add: open_memory_def blank_store_def)
  have "NULL_CELL_ID \<in> dom (st_cells open_memory)" by (simp add: g genesis_def)
  from fingerprints_are_exact [OF lived_memory fixed_sha_length this, where excluded = "[]" and budget = 1 and blake = fixed_sha]
  obtain v where v: "snd (fingerprint fixed_sha NULL_CELL_ID 1 [] open_memory) = Inr v" by (simp add: g null_region)
  have "\<forall>c \<in> ran (st_cells open_memory) \<union> ran (st_cells open_memory). short_cell c"
    by (simp add: g genesis_def ran_def short_cell_def short_def NULL_CELL_ID_def)
  with fingerprints_identify_regions [OF lived_memory lived_memory fixed_sha_length fixed_sha_length v v] v show ?thesis by auto
qed


section \<open>Matching\<close>

lemma match_loop_match:
  assumes b: "match_loop P T vars n [(proot, troot)] Map.empty Map.empty = Inr b"
  shows "\<exists>f. is_match P T vars f \<and> f proot = Some troot \<and> b = f |` set vars"
proof -
  have "loop_ok P T vars [(proot, troot)] Map.empty Map.empty" by (simp add: loop_ok_def)
  from match_loop_sound [OF b this] obtain m where m: "loop_ok P T vars [] b m"
    "\<forall>(p, t) \<in> set [(proot, troot)]. (b ++ m) p = Some t" by blast
  then have root: "(b ++ m) proot = Some troot" by simp
  have "is_match P T vars (b ++ m)"
    unfolding is_match_def
  proof (intro allI impI)
    fix k v assume kv: "(b ++ m) k = Some v" "k \<notin> set vars"
    then have "b k = None" using m(1) by (auto simp: loop_ok_def)
    with kv(1) have "m k = Some v" by (simp add: map_add_def split: option.splits)
    with m(1) show "preserved P T (\<lambda>p t. (b ++ m) p = Some t) k v" by (simp add: loop_ok_def)
  qed
  moreover have "b = (b ++ m) |` set vars"
  proof
    fix k
    have "dom b \<subseteq> set vars" "dom m \<inter> set vars = {}" using m(1) by (simp_all only: loop_ok_def)
    then have "k \<in> set vars \<Longrightarrow> m k = None" "k \<notin> set vars \<Longrightarrow> b k = None" by (blast+)
    then show "b k = ((b ++ m) |` set vars) k" by (cases "k \<in> set vars") (simp_all add: restrict_map_def map_add_def)
  qed
  ultimately show ?thesis by (intro exI [of _ "b ++ m"] conjI root)
qed

text \<open>
  C19: Matching is sound and complete. A match answered for an admissible pattern and a revision of
  the store is the restriction to the variables of a map that preserves structure: it sends the
  pattern root to the target root, null to null, every other pattern Cell to a Cell with the same
  atom, and links to links; and every such map extends it. A refusal other than for the budget
  means that there is no such map, and a budget of twice the pattern's Cells plus one is never
  exceeded.
\<close>

theorem match_is_exact:
  assumes "lived sha shake blake s" "\<And>x. length (sha x) = 32" "\<not> st_closed s" "r \<le> st_revision s"
    and "check_pattern s p proot vars = Inr ()" "troot \<in> dom (graph_at s r)" "1 \<le> budget"
  shows "(case snd (store_match p proot troot vars budget (Some r) s) of
      Inr b \<Rightarrow> (\<exists>f. is_match (pattern_cells s p) (graph_at s r) vars f \<and> f proot = Some troot \<and> b = f |` set vars) \<and>
        (\<forall>f. is_match (pattern_cells s p) (graph_at s r) vars f \<and> f proot = Some troot \<longrightarrow> extends_to b f)
    | Inl e \<Rightarrow> (\<exists>m. e = MatchBudgetExceeded m) \<and> budget < 2 * card (dom (pattern_cells s p)) + 1 \<or>
        (\<nexists>f. is_match (pattern_cells s p) (graph_at s r) vars f \<and> f proot = Some troot))"
proof -
  obtain j where j: "store_inv sha shake s j" using lived_inv [OF assms(1,2)] by blast
  let ?P = "pattern_cells s p" and ?T = "graph_at s r"
  have fin: "finite (dom ?P)"
    using graph_okD(4) [OF represents_graph_ok [OF store_invD(1) [OF j]]] by (cases p) (auto simp: finite_dom_map_of)
  obtain h where "at_revision r s = (s\<lparr>st_historical := h\<rparr>, Inr (Snapshot r ?T))"
    using at_revision_ok [OF j assms(3,4)] store_inv_log(3) [OF j] by auto
  then have run: "snd (store_match p proot troot vars budget (Some r) s) =
      match_loop ?P ?T vars budget [(proot, troot)] Map.empty Map.empty"
    using assms(5-7) by (auto simp: store_match_def domIff)
  note sound = match_loop_match [of ?P ?T vars budget proot troot]
  have complete: "case match_loop ?P ?T vars budget [(proot, troot)] Map.empty Map.empty of
      Inr b' \<Rightarrow> extends_to b' f
    | Inl e \<Rightarrow> (\<exists>msg. e = MatchBudgetExceeded msg) \<and> budget < 2 * card (dom ?P) + 1"
    if "is_match ?P ?T vars f" "f proot = Some troot" for f
    using match_loop_complete [OF that(1) fin, of "[(proot, troot)]" Map.empty Map.empty budget] that(2)
    by (auto simp: extends_to_def split: sum.splits)
  show ?thesis
    unfolding run using sound complete by (auto split: sum.splits)
qed

text \<open>A pattern that is one variable.\<close>

definition hole :: pattern where
  "hole = Given [(NULL_CELL_ID, null_cell), (''x'', Cell ''x'' NULL_CELL_ID NULL_CELL_ID [])]"

lemma open_memory_fields: "\<not> st_closed open_memory" "st_revision open_memory = 0" "st_cells open_memory = genesis"
  "st_stable_depth open_memory = 0" "\<not> st_gated open_memory" "st_fingerprints open_memory = []"
  by (simp_all add: open_memory_def blank_store_def)

lemma graph_at_memory: "graph_at open_memory 0 = genesis"
  by (rule ext) (auto simp: graph_at_def history_log_def mem_log_def open_memory_def blank_store_def state_at_def genesis_def)

theorem match_is_exact_witness:
  "snd (store_match hole ''x'' NULL_CELL_ID [''x''] 1 (Some 0) open_memory) = Inr [''x'' \<mapsto> NULL_CELL_ID] \<and>
   (\<exists>f. is_match (pattern_cells open_memory hole) genesis [''x''] f \<and> f ''x'' = Some NULL_CELL_ID)"
proof -
  have ok: "check_pattern open_memory hole ''x'' [''x''] = Inr ()"
    by (simp add: check_pattern_def hole_def validate_cell_def NULL_CELL_ID_def null_cell_def)
  have "0 \<le> st_revision open_memory" "NULL_CELL_ID \<in> dom (graph_at open_memory 0)"
    by (simp_all add: graph_at_memory genesis_def)
  note M = match_is_exact [OF lived_memory fixed_sha_length open_memory_fields(1) this(1) ok this(2), of 1]
  have run: "snd (store_match hole ''x'' NULL_CELL_ID [''x''] 1 (Some 0) open_memory) = Inr [''x'' \<mapsto> NULL_CELL_ID]"
    using ok by (simp add: store_match_def at_revision_def open_memory_fields genesis_def numeral_eq_Suc)
  with M show ?thesis by (auto simp: graph_at_memory)
qed

end
