(* ===== verification/RewriteProps.thy ===== *)
theory RewriteProps
  imports MatchProps CommitEffect
begin

text \<open>
  Rewriting: what \<open>rewrite\<close> publishes is a copy of the replacement graph, with the placeholders
  substituted by what the match bound or by the constants of the rule, hung under the identity of
  the target root.
\<close>

section \<open>Templates, fresh identities and instances\<close>

lemma collect_templates_ok:
  assumes "collect_templates rl base n ks found = Inr ids" "collecting base {k. placeholder rl k} root ks found"
    "\<not> placeholder rl root" "set found \<subseteq> dom base"
  shows "distinct ids \<and> set ids = region_of base {k. placeholder rl k} root \<and> set ids \<subseteq> dom base"
  using assms
proof (induction rl base n ks found rule: collect_templates.induct)
  case (1 rl base n found)
  with collecting_done [OF 1(2)] show ?case by simp
next
  case (3 rl base n k ks found)
  show ?case
  proof (cases "placeholder rl k \<or> k \<in> set found")
    case True
    have "collecting base {k. placeholder rl k} root ks found"
      by (rule collecting_skip [OF "3.prems"(2)]) (use True "3.prems"(3) in auto)
    with "3.IH"(1) [OF True] "3.prems" True show ?thesis by auto
  next
    case False
    with "3.prems"(1) obtain c where c: "base k = Some c"
      "collect_templates rl base n (link1 c # link0 c # ks) (found @ [k]) = Inr ids"
      by (auto split: if_splits option.splits)
    have "collecting base {k. placeholder rl k} root (link1 c # link0 c # ks) (found @ [k])"
      by (rule collecting_take(1) [OF "3.prems"(2) _ _ c(1)]) (use False in auto)
    with "3.IH"(2) [OF False c] "3.prems"(3,4) c(1) show ?thesis by auto
  qed
qed simp

lemma fresh_id_ok: "fresh_id base occ draws = Inr (u, draws') \<Longrightarrow> u \<notin> dom base \<and> u \<notin> set occ"
  by (induction draws) (auto split: if_splits)

lemma assign_fresh_ok:
  assumes "assign_fresh base ks occ draws mat = Inr mat'"
  shows "\<exists>us. mat' = mat @ zip ks us \<and> length us = length ks \<and> distinct us \<and> set us \<inter> (dom base \<union> set occ) = {}"
  using assms
proof (induction base ks occ draws mat rule: assign_fresh.induct)
  case (2 base k ks occ draws mat)
  then obtain u draws' where u: "fresh_id base occ draws = Inr (u, draws')"
    "assign_fresh base ks (u # occ) draws' (mat @ [(k, u)]) = Inr mat'" by auto
  from "2.IH" [OF u(2)] obtain us where "mat' = (mat @ [(k, u)]) @ zip ks us" "length us = length ks" "distinct us"
    "set us \<inter> (dom base \<union> set (u # occ)) = {}" by blast
  with fresh_id_ok [OF u(1)] show ?case by (intro exI [of _ "u # us"]) auto
qed auto


text \<open>What a placeholder or a template becomes.\<close>

definition substitution :: "rule \<Rightarrow> binding \<Rightarrow> (string \<times> string) list \<Rightarrow> string \<Rightarrow> string" where
  "substitution rl b mat k =
     (if k = NULL_CELL_ID then NULL_CELL_ID
      else case map_of (replacement_variables rl) k of
        Some v \<Rightarrow> the (b v)
      | None \<Rightarrow> (case map_of (replacement_constants rl) k of Some t \<Rightarrow> t | None \<Rightarrow> the (map_of mat k)))"

lemma translated_Inr: "translated rl b mat k = Inr t \<Longrightarrow> t = substitution rl b mat k"
  by (auto simp: translated_def substitution_def split: if_splits option.splits)

definition copy_of :: "rule \<Rightarrow> cells \<Rightarrow> binding \<Rightarrow> (string \<times> string) list \<Rightarrow> string \<Rightarrow> cell" where
  "copy_of rl base b mat k =
     (let c = the (base k) in
      Cell (the (map_of mat k)) (substitution rl b mat (link0 c)) (substitution rl b mat (link1 c)) (atom c))"

lemma instance_of_Inr: "instance_of rl base b mat k = Inr c \<Longrightarrow> c = copy_of rl base b mat k"
  by (auto simp: instance_of_def copy_of_def Let_def dest!: translated_Inr)

lemma instances_Inr: "rmap (instance_of rl base b mat) ks = Inr cs \<Longrightarrow> cs = map (copy_of rl base b mat) ks"
  by (induction ks arbitrary: cs) (auto dest: instance_of_Inr)

lemma prepare_rewrite_Inr:
  assumes "prepare_rewrite draws n rl root s = (s1, Inr pr)"
  shows "s1 = s \<and> n = st_revision s \<and> \<not> st_closed s \<and> check_rule rl root (st_cells s) = Inr () \<and>
    (\<exists>b found mat. store_match Stored (pattern_root rl) root (pattern_variables rl) (rule_budget rl) (Some n) s = (s, Inr b) \<and>
       collect_templates rl (st_cells s) (rule_budget rl) [replacement_root rl] [] = Inr found \<and>
       assign_fresh (st_cells s) (filter (\<lambda>k. k \<noteq> replacement_root rl) (sort found)) [root] draws
         [(replacement_root rl, root)] = Inr mat \<and>
       pr_bindings pr = b \<and> pr_materialized pr = mat \<and>
       pr_create pr = map (copy_of rl (st_cells s) b mat) (filter (\<lambda>k. k \<noteq> replacement_root rl) (sort found)) \<and>
       pr_replace pr = map (copy_of rl (st_cells s) b mat) (filter (\<lambda>k. k = replacement_root rl) (sort found)))"
proof -
  have n: "n = st_revision s" and chk: "check_rule rl root (st_cells s) = Inr ()"
    using assms by (auto simp: prepare_rewrite_def split: if_splits sum.splits)
  obtain b where m: "store_match Stored (pattern_root rl) root (pattern_variables rl) (rule_budget rl) (Some n) s = (s1, Inr b)"
    using assms n chk by (auto simp: prepare_rewrite_def split: sum.splits prod.splits)
  have live: "\<not> st_closed s" and s1: "s1 = s"
    using m n by (auto simp: store_match_def at_revision_def split: if_splits sum.splits)
  obtain found mat cs where steps: "collect_templates rl (st_cells s) (rule_budget rl) [replacement_root rl] [] = Inr found"
    "assign_fresh (st_cells s) (filter (\<lambda>k. k \<noteq> replacement_root rl) (sort found)) [root] draws [(replacement_root rl, root)] = Inr mat"
    "rmap (instance_of rl (st_cells s) b mat) (sort found) = Inr cs"
    and pr: "pr = \<lparr>pr_root = root, pr_expected = n,
        pr_create = map snd (filter (\<lambda>(k, c). k \<noteq> replacement_root rl) (zip (sort found) cs)),
        pr_replace = map snd (filter (\<lambda>(k, c). k = replacement_root rl) (zip (sort found) cs)),
        pr_bindings = b, pr_materialized = mat\<rparr>"
    using assms n chk m by (auto simp: prepare_rewrite_def Let_def rbind_Inr_iff)
  have split: "map snd (filter (\<lambda>(k, c). P k) (zip ks (map g ks))) = map g (filter P ks)" for P g and ks :: "string list"
    by (induction ks) auto
  show ?thesis
    using n chk m live s1 steps pr instances_Inr [OF steps(3)]
    by (auto simp: split [of "\<lambda>k. k \<noteq> replacement_root rl"] split [of "\<lambda>k. k = replacement_root rl"])
qed


lemma assigned:
  assumes mat: "mat = [(r0, root)] @ zip ks us" and us: "length us = length ks" "distinct us" "set us \<inter> (D \<union> {root}) = {}"
    and ks: "distinct ks" "r0 \<notin> set ks"
  shows "map_of mat r0 = Some root" "\<And>k. k \<in> set ks \<Longrightarrow> the (map_of mat k) \<notin> D"
    "inj_on (\<lambda>k. the (map_of mat k)) (insert r0 (set ks))"
proof -
  show r0: "map_of mat r0 = Some root" by (simp add: mat)
  have in_us: "\<exists>u. map_of mat k = Some u \<and> u \<in> set us" if k: "k \<in> set ks" for k
  proof -
    obtain u where u: "map_of (zip ks us) k = Some u" using k us(1) by (metis map_of_zip_is_Some)
    then have "u \<in> set us" by (auto dest: map_of_SomeD set_zip_rightD)
    with u k ks(2) show ?thesis by (auto simp: mat)
  qed
  then show "the (map_of mat k) \<notin> D" if "k \<in> set ks" for k using us(3) in_us [OF that] by auto
  show "inj_on (\<lambda>k. the (map_of mat k)) (insert r0 (set ks))"
  proof (rule inj_onI)
    fix a b assume ab: "a \<in> insert r0 (set ks)" "b \<in> insert r0 (set ks)" "the (map_of mat a) = the (map_of mat b)"
    have zip: "map_of mat k = map_of (zip ks us) k" if "k \<in> set ks" for k using that ks(2) by (auto simp: mat)
    show "a = b"
    proof (cases "a = r0 \<or> b = r0")
      case True
      then show ?thesis using ab r0 in_us [of a] in_us [of b] us(3) by auto
    next
      case False
      then obtain i k where i: "i < length ks" "a = ks ! i" and k: "k < length ks" "b = ks ! k"
        using ab(1,2) by (auto simp: in_set_conv_nth)
      have "map_of (zip ks us) (ks ! m) = Some (us ! m)" if "m < length ks" for m
        using that us(1) ks(1) by (simp add: map_of_zip_nth)
      then have "us ! i = us ! k" using ab(3) i k zip [of a] zip [of b] by simp
      then show ?thesis using i k us(1,2) by (simp add: nth_eq_iff_index_eq)
    qed
  qed
qed

text \<open>
  C20: A rewrite publishes exactly the replacement. When it returns, the pattern matched at the
  target root by a structure-preserving map \<open>f\<close>; and the published graph is the old one, where
  every Cell of the replacement region (reached from its root without entering a placeholder) was
  copied under its substituted identity with its substituted links and its atom: null stays null,
  variables become what \<open>f\<close> bound, constants their targets, the replacement root the target root,
  and every other identity a different identity the graph did not have. Nothing else changed.
\<close>

theorem rewrite_is_exact:
  assumes "lived sha shake blake s" "\<And>x. length (sha x) = 32" "env_transform env = None"
    and run: "rewrite (hashed sha shake env) draws n rl root (c, s) = ((c', s'), Inr rr)"
  shows "\<exists>f. is_match (st_cells s) (st_cells s) (pattern_variables rl) f \<and> f (pattern_root rl) = Some root \<and>
     rr_bindings rr = f |` set (pattern_variables rl) \<and> rr_revision rr = st_revision s' \<and> n = st_revision s \<and>
    (let R = region_of (st_cells s) {k. placeholder rl k} (replacement_root rl);
         sub = substitution rl (rr_bindings rr) (rr_materialized rr) in
     sub (replacement_root rl) = root \<and> inj_on sub R \<and> sub ` (R - {replacement_root rl}) \<inter> dom (st_cells s) = {} \<and>
     (\<forall>k \<in> R. \<exists>c. st_cells s k = Some c \<and>
        st_cells s' (sub k) = Some (Cell (sub k) (sub (link0 c)) (sub (link1 c)) (atom c))) \<and>
     (\<forall>i. i \<notin> sub ` R \<longrightarrow> st_cells s' i = st_cells s i))"
proof -
  obtain j where j: "store_inv sha shake s j" using lived_inv [OF assms(1,2)] by blast
  let ?r0 = "replacement_root rl" and ?T = "st_cells s"
  obtain s1 pr where prep: "prepare_rewrite draws n rl root s = (s1, Inr pr)"
    using run by (auto simp: rewrite_def split: prod.splits sum.splits)
  obtain b found mat where n: "s1 = s" "n = st_revision s" "\<not> st_closed s" "check_rule rl root ?T = Inr ()"
    and steps: "store_match Stored (pattern_root rl) root (pattern_variables rl) (rule_budget rl) (Some n) s = (s, Inr b)"
      "collect_templates rl ?T (rule_budget rl) [?r0] [] = Inr found"
      "assign_fresh ?T (filter (\<lambda>k. k \<noteq> ?r0) (sort found)) [root] draws [(?r0, root)] = Inr mat"
    and pr: "pr_bindings pr = b" "pr_materialized pr = mat"
      "pr_create pr = map (copy_of rl ?T b mat) (filter (\<lambda>k. k \<noteq> ?r0) (sort found))"
      "pr_replace pr = map (copy_of rl ?T b mat) (filter (\<lambda>k. k = ?r0) (sort found))"
    using prepare_rewrite_Inr [OF prep] by blast
  obtain r where com: "commit (hashed sha shake env) n (pr_create pr) (pr_replace pr) (c, s) = ((c', s'), Inr r)"
    and rr: "rr = \<lparr>rr_root = root, rr_revision = r, rr_bindings = b, rr_materialized = mat\<rparr>"
    using run prep n(1) pr(1,2) by (auto simp: rewrite_def split: prod.splits)
  note C = commit_Inr [OF j assms(2) com assms(3)]
  have "match_loop ?T ?T (pattern_variables rl) (rule_budget rl) [(pattern_root rl, root)] Map.empty Map.empty = Inr b"
    using steps(1) n(2,3) by (auto simp: store_match_def at_revision_def split: if_splits sum.splits)
  from match_loop_match [OF this] obtain f where f: "is_match ?T ?T (pattern_variables rl) f" "f (pattern_root rl) = Some root"
    "b = f |` set (pattern_variables rl)" by blast
  have r0: "\<not> placeholder rl ?r0"
  proof
    assume "placeholder rl ?r0"
    with steps(2) have "found = []" by (cases "rule_budget rl") auto
    with C pr show False by simp
  qed
  let ?R = "region_of ?T {k. placeholder rl k} ?r0" and ?sub = "substitution rl b mat"
  have "collecting ?T {k. placeholder rl k} ?r0 [?r0] []" using r0 by (intro collecting_start) simp
  from collect_templates_ok [OF steps(2) this r0] have found: "distinct found" "set found = ?R" "?R \<subseteq> dom ?T" by auto
  let ?ks = "filter (\<lambda>k. k \<noteq> ?r0) (sort found)"
  obtain us where us: "mat = [(?r0, root)] @ zip ?ks us" "length us = length ?ks" "distinct us" "set us \<inter> (dom ?T \<union> {root}) = {}"
    using assign_fresh_ok [OF steps(3)] by auto
  have ks: "distinct ?ks" "?r0 \<notin> set ?ks" "insert ?r0 (set ?ks) = ?R"
    using found region_of.start [of ?r0 "{k. placeholder rl k}" ?T] r0 by auto
  note A = assigned [OF us ks(1,2)]
  have off: "\<not> placeholder rl k" if "k \<in> ?R" for k
    using that r0 by (induction rule: region_of.induct) auto
  have sub: "?sub k = the (map_of mat k)" if "k \<in> ?R" for k
    using off [OF that] by (auto simp: substitution_def placeholder_def split: option.split dest: map_of_SomeD intro: rev_image_eqI)
  have all: "set (pr_create pr @ pr_replace pr) = copy_of rl ?T b mat ` ?R" using pr found by auto
  have cid: "cid (copy_of rl ?T b mat k) = ?sub k" if "k \<in> ?R" for k by (simp add: copy_of_def Let_def sub [OF that])
  have ids: "cid ` set (pr_create pr @ pr_replace pr) = ?sub ` ?R"
    unfolding all image_image by (intro image_cong refl cid)
  have copy: "st_cells s' (?sub k) = Some (copy_of rl ?T b mat k)" if "k \<in> ?R" for k
  proof -
    have "copy_of rl ?T b mat k \<in> set (pr_create pr @ pr_replace pr)" using that all by blast
    with C put_cells_in [of "copy_of rl ?T b mat k" "pr_create pr @ pr_replace pr" ?T] cid [OF that] show ?thesis by simp
  qed
  have "st_cells s' i = ?T i" if "i \<notin> ?sub ` ?R" for i
    using C that ids put_cells_notin [of i "pr_create pr @ pr_replace pr" ?T] by simp
  moreover have "\<exists>c. ?T k = Some c \<and> st_cells s' (?sub k) = Some (Cell (?sub k) (?sub (link0 c)) (?sub (link1 c)) (atom c))"
    if "k \<in> ?R" for k
    using found(3) that copy [OF that] sub [OF that] by (auto simp: copy_of_def Let_def)
  moreover have "inj_on ?sub ?R" using A(3) unfolding ks(3) by (subst inj_on_cong [OF sub]) auto
  moreover have "?sub ?r0 = root" using sub [of ?r0] A(1) ks(3) by auto
  moreover have "?sub ` (?R - {?r0}) \<inter> dom ?T = {}" using A(2) sub ks(3) by auto
  ultimately show ?thesis using f C n(2) unfolding rr Let_def by (intro exI [of _ f]) simp
qed


definition template_cells :: "cell list" where
  "template_cells = [Cell ''a'' NULL_CELL_ID NULL_CELL_ID ''x'', Cell ''t'' ''u'' NULL_CELL_ID ''y'',
     Cell ''u'' NULL_CELL_ID NULL_CELL_ID ''z'']"

definition template_store :: store where
  "template_store = run_op fixed_sha fixed_sha (Commit plain_env idle_ctx 0 template_cells []) open_memory"

definition template_rule :: rule where
  "template_rule = \<lparr>pattern_root = ''a'', pattern_variables = [], replacement_root = ''t'', replacement_variables = [],
     replacement_constants = [], rule_budget = 10\<rparr>"

lemma template_store_fields: "st_cells template_store = put_cells template_cells genesis" "st_revision template_store = 1"
  "\<not> st_closed template_store" "st_journal template_store = None" "st_stable_depth template_store = 0"
  "\<not> st_gated template_store" "st_accumulators template_store = []" "st_reader template_store = None"
  by (simp_all add: template_store_def commit_def Let_def open_memory_def blank_store_def plain_env_def idle_ctx_def transformed_def
      commit_plan_def template_cells_def validate_cell_def genesis_def NULL_CELL_ID_def refusal_def
      current_declaration_def links_resolve_def outcome_def append_to_journal_def publish_def next_accumulator_def
      record_history_def require_def invalidate_fingerprints_def)

lemma template_rewrites:
  "\<exists>rr. snd (rewrite (hashed fixed_sha fixed_sha plain_env) [''a'', ''n''] 1 template_rule ''a'' (idle_ctx, template_store)) = Inr rr \<and>
     rr_materialized rr = [(''t'', ''a''), (''u'', ''n'')]"
  by (simp add: rewrite_def prepare_rewrite_def template_store_fields check_rule_def store_match_def template_rule_def
      check_pattern_def at_revision_def genesis_def template_cells_def NULL_CELL_ID_def placeholder_def numeral_eq_Suc
      Let_def instance_of_def translated_def null_cell_def commit_def plain_env_def transformed_def commit_plan_def
      validate_cell_def require_def refusal_def idle_ctx_def links_resolve_def outcome_def append_to_journal_def publish_def
      next_accumulator_def record_history_def)

theorem rewrite_is_exact_witness:
  "\<exists>s' :: store. st_cells s' ''a'' = Some (Cell ''a'' ''n'' NULL_CELL_ID ''y'') \<and>
     st_cells s' ''n'' = Some (Cell ''n'' NULL_CELL_ID NULL_CELL_ID ''z'') \<and> st_cells s' ''t'' = st_cells template_store ''t''"
proof -
  obtain c' s' rr where run: "rewrite (hashed fixed_sha fixed_sha plain_env) [''a'', ''n''] 1 template_rule ''a'' (idle_ctx, template_store) =
      ((c', s'), Inr rr)" and mat: "rr_materialized rr = [(''t'', ''a''), (''u'', ''n'')]"
    using template_rewrites by (metis prod.collapse)
  have live: "lived fixed_sha fixed_sha fixed_sha template_store"
    unfolding template_store_def by (intro lived.ran lived_memory)
  let ?R = "region_of (st_cells template_store) {k. placeholder template_rule k} ''t''"
  let ?sub = "substitution template_rule (rr_bindings rr) (rr_materialized rr)"
  have sub: "?sub ''t'' = ''a''" "?sub ''u'' = ''n''" "?sub NULL_CELL_ID = NULL_CELL_ID"
    by (simp_all add: substitution_def template_rule_def mat NULL_CELL_ID_def)
  have cells: "st_cells template_store ''t'' = Some (Cell ''t'' ''u'' NULL_CELL_ID ''y'')"
    "st_cells template_store ''u'' = Some (Cell ''u'' NULL_CELL_ID NULL_CELL_ID ''z'')"
    by (simp_all add: template_store_fields template_cells_def)
  have t: "''t'' \<in> ?R" by (intro region_of.start) (simp add: placeholder_def template_rule_def NULL_CELL_ID_def)
  have u: "''u'' \<in> ?R" using region_of.left [OF t cells(1)] by (simp add: placeholder_def template_rule_def NULL_CELL_ID_def)
  have "?R \<subseteq> {''t'', ''u''}"
    using cells by (intro region_of_closed) (auto simp: placeholder_def)
  then have R: "?R = {''t'', ''u''}" using t u by blast
  have "env_transform plain_env = None" by (simp add: plain_env_def)
  from rewrite_is_exact [OF live fixed_sha_length this run]
  have "\<forall>k \<in> ?R. \<exists>c. st_cells template_store k = Some c \<and>
        st_cells s' (?sub k) = Some (Cell (?sub k) (?sub (link0 c)) (?sub (link1 c)) (atom c))"
    and "\<forall>i. i \<notin> ?sub ` ?R \<longrightarrow> st_cells s' i = st_cells template_store i"
    unfolding Let_def by (auto simp: template_rule_def)
  with R sub cells show ?thesis by (intro exI [of _ s']) simp
qed

end
