(* ===== verification/CellMaps.thy ===== *)
theory CellMaps
  imports HeadReaderProps
begin

text \<open>
  The mappings a store publishes (\<open>universal_cell.py\<close>): a plain dictionary, \<open>_OverlayCellMap\<close> over a
  persistent trie, \<open>_LazyHeadCellMap\<close> over a head reader, \<open>_LoadingHeadMap\<close>, and the read-only
  overlay \<open>_BoundedCandidateCellMap\<close> over any of them; and how a commit chooses the next one. The
  trie is the package \<open>rpds.HashTrieMap\<close>: its operations are the record \<open>trie_ops\<close>, what the
  code relies on is the locale \<open>persistent_map\<close>. A lazy map reads through a head reader, which is
  explicit state; its other versions share that reader.
\<close>

section \<open>Persistent maps\<close>

record 't trie_ops =
  t_empty :: 't
  t_update :: "(string \<times> cell) list \<Rightarrow> 't \<Rightarrow> 't"
  t_discard :: "string \<Rightarrow> 't \<Rightarrow> 't"
  t_get :: "'t \<Rightarrow> string \<Rightarrow> cell option"
  t_items :: "'t \<Rightarrow> (string \<times> cell) list"

locale persistent_map =
  fixes ops :: "'t trie_ops"
  assumes get_empty: "t_get ops (t_empty ops) k = None"
    and get_update: "keys_distinct d \<Longrightarrow> t_get ops (t_update ops d t) k =
      (case map_of d k of Some c \<Rightarrow> Some c | None \<Rightarrow> t_get ops t k)"
    and get_discard: "t_get ops (t_discard ops k t) k' = (if k' = k then None else t_get ops t k')"
    and items_distinct: "keys_distinct (t_items ops t)"
    and items_get: "map_of (t_items ops t) k = t_get ops t k"

text \<open>A dictionary: \<open>dict(base)\<close>, \<open>update\<close>, \<open>pop\<close>.\<close>

definition dict_update :: "(string \<times> cell) list \<Rightarrow> (string \<times> cell) list \<Rightarrow> (string \<times> cell) list" where
  "dict_update d al = foldl (\<lambda>al (k, c). AList.update k c al) al d"

section \<open>Reading in sequence\<close>

definition rseq :: "'s \<times> 'a result \<Rightarrow> ('a \<Rightarrow> 's \<Rightarrow> 's \<times> 'b result) \<Rightarrow> 's \<times> 'b result" where
  "rseq m f = (case m of (s, Inl e) \<Rightarrow> (s, Inl e) | (s, Inr x) \<Rightarrow> f x s)"

text \<open>\<open>sum(1 for x in xs if p(x))\<close>.\<close>

fun count_where :: "('a \<Rightarrow> 's \<Rightarrow> 's \<times> bool result) \<Rightarrow> 'a list \<Rightarrow> 's \<Rightarrow> 's \<times> nat result" where
  "count_where p [] s = (s, Inr 0)"
| "count_where p (x # xs) s =
     rseq (p x s) (\<lambda>b s. rseq (count_where p xs s) (\<lambda>n s. (s, Inr (if b then Suc n else n))))"

section \<open>The lazy head\<close>

text \<open>What every read needs: the trie package, the sizes, and the journal as it is now.\<close>

record 't access =
  ac_trie :: "'t trie_ops"
  ac_sizes :: sizes
  ac_journal :: journal

record 't lazy_head =
  lz_overlay :: 't
  lz_base_count :: "int option"
  lz_created :: int
  lz_removed :: "string set"

abbreviation overlay_get :: "'t access \<Rightarrow> 't lazy_head \<Rightarrow> string \<Rightarrow> cell option" where
  "overlay_get a l k \<equiv> t_get (ac_trie a) (lz_overlay l) k"

abbreviation base_read :: "'t access \<Rightarrow> string \<Rightarrow> head_reader \<Rightarrow> head_reader \<times> cell option result" where
  "base_read a k h \<equiv> reader_read (ac_sizes a) (ac_journal a) k h"

definition lazy_get :: "'t access \<Rightarrow> 't lazy_head \<Rightarrow> string \<Rightarrow> head_reader \<Rightarrow> head_reader \<times> cell option result" where
  "lazy_get a l k h =
     (case overlay_get a l k of
        Some c \<Rightarrow> (h, Inr (Some c))
      | None \<Rightarrow> if k \<in> lz_removed l then (h, Inr None) else base_read a k h)"

definition lazy_getitem :: "'t access \<Rightarrow> 't lazy_head \<Rightarrow> string \<Rightarrow> head_reader \<Rightarrow> head_reader \<times> cell result" where
  "lazy_getitem a l k h =
     (case overlay_get a l k of
        Some c \<Rightarrow> (h, Inr c)
      | None \<Rightarrow>
          if k \<in> lz_removed l then (h, Inl (KeyError k))
          else rseq (base_read a k h) (\<lambda>c h. (h, case c of None \<Rightarrow> Inl (KeyError k) | Some c \<Rightarrow> Inr c)))"

definition lazy_contains :: "'t access \<Rightarrow> 't lazy_head \<Rightarrow> string \<Rightarrow> head_reader \<Rightarrow> head_reader \<times> bool result" where
  "lazy_contains a l k h =
     (if overlay_get a l k \<noteq> None then (h, Inr True)
      else if k \<in> lz_removed l then (h, Inr False)
      else rseq (base_read a k h) (\<lambda>c h. (h, Inr (c \<noteq> None))))"

definition new_lazy_head :: "'t access \<Rightarrow> int option \<Rightarrow> 't lazy_head" where
  "new_lazy_head a base_count =
     \<lparr>lz_overlay = t_empty (ac_trie a), lz_base_count = base_count, lz_created = 0, lz_removed = {}\<rparr>"

definition with_delta ::
  "'t access \<Rightarrow> 't lazy_head \<Rightarrow> (string \<times> cell) list \<Rightarrow> head_reader \<Rightarrow> head_reader \<times> 't lazy_head result" where
  "with_delta a l delta h =
     rseq (count_where (\<lambda>k h. rseq (lazy_contains a l k h) (\<lambda>b h. (h, Inr (\<not> b)))) (map fst delta) h) (\<lambda>n h.
       (h, Inr \<lparr>lz_overlay = t_update (ac_trie a) delta (lz_overlay l), lz_base_count = lz_base_count l,
                lz_created = lz_created l + int n, lz_removed = lz_removed l - set (map fst delta)\<rparr>))"

definition with_step_back ::
  "'t access \<Rightarrow> 't lazy_head \<Rightarrow> (string \<times> cell) list \<Rightarrow> string list \<Rightarrow> head_reader \<Rightarrow>
     head_reader \<times> 't lazy_head result" where
  "with_step_back a l restored removed h =
     (let gone = dedup removed;
          overlay = foldl (\<lambda>t k. t_discard (ac_trie a) k t) (t_update (ac_trie a) restored (lz_overlay l)) gone in
      rseq (count_where (\<lambda>k h. if overlay_get a l k \<noteq> None then (h, Inr False)
              else rseq (base_read a k h) (\<lambda>c h. (h, Inr (c = None)))) (map fst restored) h) (\<lambda>n h.
       (h, Inr \<lparr>lz_overlay = overlay, lz_base_count = lz_base_count l,
                lz_created = lz_created l + int n - int (length gone),
                lz_removed = (lz_removed l \<union> set gone) - set (map fst restored)\<rparr>)))"

definition lazy_prefetch :: "'t access \<Rightarrow> 't lazy_head \<Rightarrow> string list \<Rightarrow> head_reader \<Rightarrow> head_reader \<times> unit result" where
  "lazy_prefetch a l ids h =
     prefetch (ac_sizes a) (ac_journal a) (filter (\<lambda>k. overlay_get a l k = None) ids) h"

definition lazy_ids :: "'t access \<Rightarrow> 't lazy_head \<Rightarrow> head_reader \<Rightarrow> head_reader \<times> string list result" where
  "lazy_ids a l h =
     (let seen = map fst (t_items (ac_trie a) (lz_overlay l)) in
      rseq (stream_ids (ac_journal a) h) (\<lambda>ks h.
        (h, Inr (seen @ filter (\<lambda>k. k \<notin> set seen \<and> k \<notin> lz_removed l) ks))))"

definition lazy_ids_with_prefix ::
  "'t access \<Rightarrow> 't lazy_head \<Rightarrow> nat list \<Rightarrow> head_reader \<Rightarrow> head_reader \<times> string list result" where
  "lazy_ids_with_prefix a l prefix h =
     (let seen = filter (\<lambda>k. starts_with k (encode prefix)) (map fst (t_items (ac_trie a) (lz_overlay l))) in
      rseq (stream_ids_with_prefix (ac_journal a) prefix h) (\<lambda>ks h.
        (h, Inr (seen @ filter (\<lambda>k. k \<notin> set seen \<and> k \<notin> lz_removed l) ks))))"

definition lazy_cells_with_link0 ::
  "'t access \<Rightarrow> 't lazy_head \<Rightarrow> string \<Rightarrow> head_reader \<Rightarrow> head_reader \<times> cell list result" where
  "lazy_cells_with_link0 a l target h =
     (let hits = filter (\<lambda>(k, c). link0 c = target) (t_items (ac_trie a) (lz_overlay l)) in
      rseq (stream_cells_with_link0 (ac_sizes a) (ac_journal a) target h) (\<lambda>cs h.
        (h, Inr (map snd hits @ filter (\<lambda>c. cid c \<notin> fst ` set hits \<and> cid c \<notin> lz_removed l \<and>
                   overlay_get a l (cid c) = None) cs))))"

text \<open>\<open>__len__\<close>: the rows are counted once.\<close>

definition lazy_len :: "'t access \<Rightarrow> 't lazy_head \<Rightarrow> head_reader \<Rightarrow> head_reader \<times> ('t lazy_head \<times> int) result" where
  "lazy_len a l h =
     (case lz_base_count l of
        Some n \<Rightarrow> (h, Inr (l, n + lz_created l))
      | None \<Rightarrow> rseq (reader_count (ac_journal a) h) (\<lambda>n h.
          (h, Inr (l\<lparr>lz_base_count := Some (int n)\<rparr>, int n + lz_created l))))"

section \<open>The other mappings\<close>

datatype 't cell_map =
    Dict "(string \<times> cell) list"
  | Overlay 't nat
  | Lazy "'t lazy_head"
  | Loading "'t lazy_head" "(string \<times> cell) list"
  | Candidate "'t cell_map" "(string \<times> cell) list" int

definition MAX_OVERLAY_DEPTH :: nat where "MAX_OVERLAY_DEPTH = 32"
definition COPY_ON_COMMIT_CELL_LIMIT :: int where "COPY_ON_COMMIT_CELL_LIMIT = 100000"
definition SQLITE_HEAD_OVERLAY_MAX_BYTES :: nat where "SQLITE_HEAD_OVERLAY_MAX_BYTES = 8 * 1024 * 1024"
definition SQLITE_HEAD_OVERLAY_MAX_CELLS :: nat where "SQLITE_HEAD_OVERLAY_MAX_CELLS = 8192"

fun map_get :: "'t access \<Rightarrow> 't cell_map \<Rightarrow> string \<Rightarrow> head_reader \<Rightarrow> head_reader \<times> cell option result" where
  "map_get a (Dict al) k h = (h, Inr (map_of al k))"
| "map_get a (Overlay t d) k h = (h, Inr (t_get (ac_trie a) t k))"
| "map_get a (Lazy l) k h = lazy_get a l k h"
| "map_get a (Loading l w) k h = (case map_of w k of Some c \<Rightarrow> (h, Inr (Some c)) | None \<Rightarrow> lazy_get a l k h)"
| "map_get a (Candidate m d n) k h = (case map_of d k of Some c \<Rightarrow> (h, Inr (Some c)) | None \<Rightarrow> map_get a m k h)"

fun map_contains :: "'t access \<Rightarrow> 't cell_map \<Rightarrow> string \<Rightarrow> head_reader \<Rightarrow> head_reader \<times> bool result" where
  "map_contains a (Dict al) k h = (h, Inr (map_of al k \<noteq> None))"
| "map_contains a (Overlay t d) k h = (h, Inr (t_get (ac_trie a) t k \<noteq> None))"
| "map_contains a (Lazy l) k h = lazy_contains a l k h"
| "map_contains a (Loading l w) k h = (if map_of w k \<noteq> None then (h, Inr True) else lazy_contains a l k h)"
| "map_contains a (Candidate m d n) k h = (if map_of d k \<noteq> None then (h, Inr True) else map_contains a m k h)"

fun map_ids :: "'t access \<Rightarrow> 't cell_map \<Rightarrow> head_reader \<Rightarrow> head_reader \<times> string list result" where
  "map_ids a (Dict al) h = (h, Inr (map fst al))"
| "map_ids a (Overlay t d) h = (h, Inr (map fst (t_items (ac_trie a) t)))"
| "map_ids a (Lazy l) h = lazy_ids a l h"
| "map_ids a (Loading l w) h =
     rseq (lazy_ids a l h) (\<lambda>ks h. (h, Inr (map fst w @ filter (\<lambda>k. k \<notin> fst ` set w) ks)))"
| "map_ids a (Candidate m d n) h =
     rseq (map_ids a m h) (\<lambda>ks h. (h, Inr (ks @ filter (\<lambda>k. k \<notin> set ks) (map fst d))))"

text \<open>\<open>__len__\<close>; the mapping is returned because a lazy head keeps the count it made.\<close>

fun map_len :: "'t access \<Rightarrow> 't cell_map \<Rightarrow> head_reader \<Rightarrow> head_reader \<times> ('t cell_map \<times> int) result" where
  "map_len a (Dict al) h = (h, Inr (Dict al, int (length al)))"
| "map_len a (Overlay t d) h = (h, Inr (Overlay t d, int (length (t_items (ac_trie a) t))))"
| "map_len a (Lazy l) h = rseq (lazy_len a l h) (\<lambda>(l, n) h. (h, Inr (Lazy l, n)))"
| "map_len a (Loading l w) h =
     rseq (lazy_len a l h) (\<lambda>(l, n) h.
     rseq (count_where (\<lambda>k h. rseq (lazy_contains a l k h) (\<lambda>b h. (h, Inr (\<not> b)))) (map fst w) h) (\<lambda>m h.
       (h, Inr (Loading l w, n + int m))))"
| "map_len a (Candidate m d n) h = rseq (map_len a m h) (\<lambda>(m, k) h. (h, Inr (Candidate m d n, k + n)))"

text \<open>\<open>_LoadingHeadMap\<close>: assignment, deletion, and the head the load produced.\<close>

fun loading_set :: "string \<Rightarrow> cell \<Rightarrow> 't cell_map \<Rightarrow> 't cell_map" where
  "loading_set k c (Loading l w) = Loading l (AList.update k c w)"
| "loading_set k c m = m"

fun loading_del :: "string \<Rightarrow> 't cell_map \<Rightarrow> 't cell_map result" where
  "loading_del k (Loading l w) = (if map_of w k = None then Inl (KeyError k) else Inr (Loading l (AList.delete k w)))"
| "loading_del k m = Inr m"

fun loading_published :: "'t access \<Rightarrow> 't cell_map \<Rightarrow> head_reader \<Rightarrow> head_reader \<times> 't cell_map result" where
  "loading_published a (Loading l w) h =
     (if w = [] then (h, Inr (Lazy l)) else rseq (with_delta a l w h) (\<lambda>l h. (h, Inr (Lazy l))))"
| "loading_published a m h = (h, Inr m)"

text \<open>\<open>dict(cells)\<close> reads every identity and then its Cell.\<close>

fun read_items :: "'t access \<Rightarrow> 't cell_map \<Rightarrow> string list \<Rightarrow> head_reader \<Rightarrow> head_reader \<times> (string \<times> cell) list result" where
  "read_items a m [] h = (h, Inr [])"
| "read_items a m (k # ks) h =
     rseq (map_get a m k h) (\<lambda>c h.
     case c of None \<Rightarrow> (h, Inl (KeyError k))
     | Some c \<Rightarrow> rseq (read_items a m ks h) (\<lambda>cs h. (h, Inr ((k, c) # cs))))"

definition map_items :: "'t access \<Rightarrow> 't cell_map \<Rightarrow> head_reader \<Rightarrow> head_reader \<times> (string \<times> cell) list result" where
  "map_items a m h = rseq (map_ids a m h) (\<lambda>ks h. read_items a m ks h)"

definition compact_cell_map :: "'t access \<Rightarrow> 't cell_map \<Rightarrow> head_reader \<Rightarrow> head_reader \<times> 't cell_map result" where
  "compact_cell_map a m h = rseq (map_items a m h) (\<lambda>al h. (h, Inr (Dict al)))"

fun frozen_cells :: "'t access \<Rightarrow> 't cell_map \<Rightarrow> head_reader \<Rightarrow> head_reader \<times> 't cell_map result" where
  "frozen_cells a (Lazy l) h = (h, Inr (Lazy l))"
| "frozen_cells a m h = compact_cell_map a m h"

text \<open>\<open>_OverlayCellMap(base, delta)\<close>.\<close>

fun overlay_map :: "'t access \<Rightarrow> 't cell_map \<Rightarrow> (string \<times> cell) list \<Rightarrow> head_reader \<Rightarrow> head_reader \<times> 't cell_map result" where
  "overlay_map a (Overlay t d) delta h = (h, Inr (Overlay (t_update (ac_trie a) delta t) 1))"
| "overlay_map a m delta h =
     rseq (map_items a m h) (\<lambda>al h.
       (h, Inr (Overlay (t_update (ac_trie a) delta (t_update (ac_trie a) al (t_empty (ac_trie a)))) 1)))"

definition candidate_map ::
  "'t access \<Rightarrow> 't cell_map \<Rightarrow> (string \<times> cell) list \<Rightarrow> head_reader \<Rightarrow> head_reader \<times> 't cell_map result" where
  "candidate_map a m delta h =
     rseq (count_where (\<lambda>k h. rseq (map_contains a m k h) (\<lambda>b h. (h, Inr (\<not> b)))) (map fst delta) h) (\<lambda>n h.
       (h, Inr (Candidate m delta (int n))))"

text \<open>
  The module's \<open>ids_with_prefix\<close> and \<open>cells_with_link0\<close>: a mapping whose \<open>_head\<close> is a lazy head
  is answered from that head.
\<close>

fun ids_with_prefix ::
  "'t access \<Rightarrow> 't cell_map \<Rightarrow> nat list \<Rightarrow> head_reader \<Rightarrow> head_reader \<times> string list result" where
  "ids_with_prefix a (Lazy l) prefix h = lazy_ids_with_prefix a l prefix h"
| "ids_with_prefix a (Loading l w) prefix h = lazy_ids_with_prefix a l prefix h"
| "ids_with_prefix a m prefix h =
     rseq (map_ids a m h) (\<lambda>ks h. (h, Inr (filter (\<lambda>k. starts_with k (encode prefix)) ks)))"

fun cells_with_link0 ::
  "'t access \<Rightarrow> 't cell_map \<Rightarrow> string \<Rightarrow> head_reader \<Rightarrow> head_reader \<times> cell list result" where
  "cells_with_link0 a (Lazy l) target h = lazy_cells_with_link0 a l target h"
| "cells_with_link0 a (Loading l w) target h = lazy_cells_with_link0 a l target h"
| "cells_with_link0 a m target h =
     rseq (map_items a m h) (\<lambda>al h. (h, Inr (filter (\<lambda>c. link0 c = target) (map snd al))))"

section \<open>The next head\<close>

text \<open>
  The part of \<open>commit\<close> that allocates the next mapping, before the journal is written: a lazy head
  whose overlay has grown too big is rebased on a new reader, which is only read once the append is
  durable. \<open>created\<close> is the number of created Cells; \<open>bytes\<close> the estimate kept by the store.
\<close>

record 't next_head =
  nx_map :: "'t cell_map"
  nx_bytes :: nat
  nx_rewritten :: "string set option"

definition overlay_base :: "'t access \<Rightarrow> 't cell_map \<Rightarrow> head_reader \<Rightarrow> head_reader \<times> 't cell_map result" where
  "overlay_base a m h =
     (case m of Overlay t d \<Rightarrow> if MAX_OVERLAY_DEPTH \<le> d then compact_cell_map a m h else (h, Inr m)
      | _ \<Rightarrow> (h, Inr m))"

definition overlay_bytes :: "'t access \<Rightarrow> nat \<Rightarrow> (string \<times> cell) list \<Rightarrow> nat" where
  "overlay_bytes a bytes delta = bytes + (\<Sum>(k, c) \<leftarrow> delta. cell_cost (ac_sizes a) k c)"

definition rebase_due :: "'t access \<Rightarrow> 't lazy_head \<Rightarrow> (string \<times> cell) list \<Rightarrow> nat \<Rightarrow> bool" where
  "rebase_due a l delta bytes \<longleftrightarrow>
     SQLITE_HEAD_OVERLAY_MAX_BYTES \<le> overlay_bytes a bytes delta \<or>
     SQLITE_HEAD_OVERLAY_MAX_CELLS \<le> length (t_items (ac_trie a) (lz_overlay l)) +
       length (filter (\<lambda>(k, c). overlay_get a l k = None) delta)"

definition choose_head ::
  "'t access \<Rightarrow> bool \<Rightarrow> 't cell_map \<Rightarrow> (string \<times> cell) list \<Rightarrow> nat \<Rightarrow> nat \<Rightarrow> head_reader \<Rightarrow>
     head_reader \<times> 't next_head result" where
  "choose_head a sqlite m delta created bytes h =
     (case m of
        Lazy l \<Rightarrow>
          let owned = sqlite \<and> lz_removed l = {} in
          if owned \<and> rebase_due a l delta bytes
          then (h, Inr \<lparr>nx_map = Lazy (new_lazy_head a (map_option
                   (\<lambda>n. n + lz_created l + int created) (lz_base_count l))),
                 nx_bytes = 0,
                 nx_rewritten = Some (fst ` set (t_items (ac_trie a) (lz_overlay l)) \<union> fst ` set delta)\<rparr>)
          else rseq (with_delta a l delta h) (\<lambda>l h.
            (h, Inr \<lparr>nx_map = Lazy l, nx_bytes = (if owned then overlay_bytes a bytes delta else bytes),
                     nx_rewritten = None\<rparr>))
      | _ \<Rightarrow>
          rseq (map_len a m h) (\<lambda>(m, n) h.
          rseq (if n \<le> COPY_ON_COMMIT_CELL_LIMIT
                then rseq (map_items a m h) (\<lambda>al h. (h, Inr (Dict (dict_update delta al))))
                else overlay_map a m delta h) (\<lambda>m h.
          (h, Inr \<lparr>nx_map = m, nx_bytes = bytes, nx_rewritten = None\<rparr>))))"

text \<open>
  After the append: the map is published; at a rebase the old reader hands its cache to the new one,
  which is pinned to the new revision. The readers are the old one and the published one.
\<close>

definition take_over ::
  "'t access \<Rightarrow> 't next_head \<Rightarrow> nat \<Rightarrow> head_reader \<Rightarrow> head_reader \<times> head_reader" where
  "take_over a nx next h =
     (case nx_rewritten nx of
        None \<Rightarrow> (h, h)
      | Some rewritten \<Rightarrow> hand_over (ac_sizes a) False rewritten h (new_head_reader next))"

end
