(* ===== verification/CellMapLaws.thy ===== *)
theory CellMapLaws
  imports CellMaps
begin

text \<open>
  What the mappings hold (\<open>content\<close>) and that every way of reading them answers exactly that, for
  any trie with the laws of \<open>persistent_map\<close> and any state of the reader's caches. The
  interpretation on dictionaries shows that those laws are the ones of \<open>dict\<close>.
\<close>

section \<open>Dictionaries\<close>

lemma map_of_dict_update: "keys_distinct d \<Longrightarrow> map_of (dict_update d al) = map_of al ++ map_of d"
proof (induction d arbitrary: al)
  case (Cons x d)
  obtain k c where x: "x = (k, c)" by (cases x)
  have "map_of d k = None" using Cons.prems x by (simp add: map_of_eq_None_iff)
  with Cons.IH [of "AList.update k c al"] Cons.prems x show ?case
    by (auto simp: dict_update_def AList.update_conv' map_add_def fun_eq_iff split: option.splits)
qed (simp add: dict_update_def)

lemma keys_distinct_dict_update: "keys_distinct al \<Longrightarrow> keys_distinct (dict_update d al)"
proof (induction d arbitrary: al)
  case (Cons x d)
  obtain k c where x: "x = (k, c)" by (cases x)
  from Cons.IH [OF AList.distinct_update [OF Cons.prems, of k c]] x show ?case by (simp add: dict_update_def)
qed (simp add: dict_update_def)

definition dict_ops :: "(string \<times> cell) list trie_ops" where
  "dict_ops = \<lparr>t_empty = [], t_update = dict_update, t_discard = AList.delete, t_get = map_of,
     t_items = AList.clearjunk\<rparr>"

interpretation dict_map: persistent_map dict_ops
  by unfold_locales
    (auto simp: dict_ops_def map_of_dict_update map_add_def AList.delete_conv' AList.map_of_clearjunk
      AList.distinct_clearjunk split: option.split)

context persistent_map
begin

lemma items_keys: "fst ` set (t_items ops t) = dom (t_get ops t)"
  using items_get [of t] by (metis dom_map_of_conv_image_fst ext)

lemma items_iff: "(k, c) \<in> set (t_items ops t) \<longleftrightarrow> t_get ops t k = Some c"
  using items_get [of t k] items_distinct [of t] by (metis map_of_eq_Some_iff)

lemma finite_dom_get: "finite (dom (t_get ops t))"
  unfolding items_keys [symmetric] by simp

lemma get_discards: "t_get ops (foldl (\<lambda>t k. t_discard ops k t) t ks) k = (if k \<in> set ks then None else t_get ops t k)"
  by (induction ks arbitrary: t) (auto simp: get_discard)

lemma get_updates: "keys_distinct d \<Longrightarrow> t_get ops (t_update ops d t) = t_get ops t ++ map_of d"
  by (rule ext) (simp add: get_update map_add_def)

lemma length_items: "length (t_items ops t) = card (dom (t_get ops t))"
  unfolding items_keys [symmetric] using distinct_card [OF items_distinct [of t]] by simp

end

lemma in_keys_iff: "k \<in> fst ` set al \<longleftrightarrow> map_of al k \<noteq> None"
  by (simp add: map_of_eq_None_iff)

section \<open>Answers\<close>

text \<open>
  \<open>live\<close>: the reader is sound and not closing. A computation \<open>answers\<close> a value when it returns it
  and leaves a live reader pinned to the same revision.
\<close>

definition live :: "'t access \<Rightarrow> head_reader \<Rightarrow> bool" where
  "live a h \<longleftrightarrow> head_inv (ac_sizes a) (ac_journal a) h \<and> \<not> hr_closing h"

definition answers :: "'t access \<Rightarrow> head_reader \<Rightarrow> head_reader \<times> 'a result \<Rightarrow> 'a \<Rightarrow> bool" where
  "answers a h m x \<longleftrightarrow> (\<exists>h'. m = (h', Inr x) \<and> live a h' \<and> hr_base h' = hr_base h)"

named_theorems answers_intros \<open>computations that answer\<close>

lemma answers_pure [answers_intros]: "live a h \<Longrightarrow> answers a h (h, Inr x) x"
  by (auto simp: answers_def)

lemma rseq_Inr: "rseq m f = (h', Inr y) \<longleftrightarrow> (\<exists>h1 x. m = (h1, Inr x) \<and> f x h1 = (h', Inr y))"
  by (auto simp: rseq_def split: prod.splits sum.splits)

lemma answers_rseq:
  assumes "answers a h m x" "\<And>h'. live a h' \<Longrightarrow> hr_base h' = hr_base h \<Longrightarrow> answers a h' (f x h') y"
  shows "answers a h (rseq m f) y"
  using assms unfolding answers_def rseq_def by fastforce

lemma answers_map:
  assumes "answers a h m x" "q x = y" shows "answers a h (rseq m (\<lambda>b h. (h, Inr (q b)))) y"
  by (rule answers_rseq [OF assms(1)]) (simp add: assms(2) answers_pure)

lemma answers_count:
  assumes "live a h" "\<And>x h'. x \<in> set xs \<Longrightarrow> live a h' \<Longrightarrow> hr_base h' = hr_base h \<Longrightarrow> answers a h' (p x h') (q x)"
  shows "answers a h (count_where p xs h) (length (filter q xs))"
  using assms
proof (induction xs arbitrary: h)
  case Nil
  then show ?case by (simp add: answers_pure)
next
  case (Cons x xs)
  show ?case
    unfolding count_where.simps
  proof (rule answers_rseq)
    show "answers a h (p x h) (q x)" using Cons.prems by simp
    fix h' assume h': "live a h'" "hr_base h' = hr_base h"
    show "answers a h' (rseq (count_where p xs h') (\<lambda>n s. (s, Inr (if q x then Suc n else n)))) (length (filter q (x # xs)))"
    proof (rule answers_rseq)
      show "answers a h' (count_where p xs h') (length (filter q xs))"
        using Cons.prems h' by (intro Cons.IH) auto
    qed (auto intro: answers_pure)
  qed
qed

definition base_graph :: "'t access \<Rightarrow> head_reader \<Rightarrow> cells" where
  "base_graph a h = state_at (j_versions (ac_journal a)) (hr_base h)"

lemma base_graph_ok: "live a h \<Longrightarrow> graph_ok (base_graph a h)"
  unfolding base_graph_def live_def by (intro graph_ok_state_at) (simp add: head_inv_def sound_def)

lemma base_read_answers [answers_intros]: "live a h \<Longrightarrow> answers a h (base_read a k h) (base_graph a h k)"
  using read_row_ok [of "ac_sizes a" "ac_journal a" h k]
  by (auto simp: answers_def live_def reader_read_def when_open_def base_graph_def split_beta)

section \<open>The lazy head\<close>

definition lazy_content :: "'t access \<Rightarrow> cells \<Rightarrow> 't lazy_head \<Rightarrow> cells" where
  "lazy_content a g l = (\<lambda>k. case overlay_get a l k of Some c \<Rightarrow> Some c
     | None \<Rightarrow> if k \<in> lz_removed l then None else g k)"

definition lazy_ok :: "'t access \<Rightarrow> cells \<Rightarrow> 't lazy_head \<Rightarrow> bool" where
  "lazy_ok a g l \<longleftrightarrow> keyed (lazy_content a g l) \<and> (\<forall>n. lz_base_count l = Some n \<longrightarrow> n = int (card (dom g))) \<and>
     lz_created l = int (card (dom (lazy_content a g l))) - int (card (dom g))"

lemma lazy_get_answers: "live a h \<Longrightarrow> answers a h (lazy_get a l k h) (lazy_content a (base_graph a h) l k)"
  by (auto simp: lazy_get_def lazy_content_def intro: answers_intros split: option.split)

lemma lazy_contains_answers:
  "live a h \<Longrightarrow> answers a h (lazy_contains a l k h) (lazy_content a (base_graph a h) l k \<noteq> None)"
  unfolding lazy_contains_def lazy_content_def
  by (auto intro!: answers_intros answers_rseq [OF base_read_answers] split: option.split)

lemma lazy_getitem_answers:
  assumes "live a h" "lazy_content a (base_graph a h) l k = Some c"
  shows "answers a h (lazy_getitem a l k h) c"
  using assms unfolding lazy_getitem_def lazy_content_def
  by (auto intro!: answers_intros answers_rseq [OF base_read_answers] split: option.splits if_splits)


text \<open>How many identities a set of writes adds.\<close>

lemma card_dom_add:
  assumes "finite (dom m)" "keys_distinct d"
  shows "card (dom (m ++ map_of d)) = card (dom m) + length (filter (\<lambda>k. m k = None) (map fst d))"
proof -
  have "dom (m ++ map_of d) = dom m \<union> set (filter (\<lambda>k. m k = None) (map fst d))"
    by (auto simp: dom_map_of_conv_image_fst domIff)
  moreover have "dom m \<inter> set (filter (\<lambda>k. m k = None) (map fst d)) = {}" by auto
  ultimately show ?thesis
    using assms by (simp only: card_Un_disjoint finite_set distinct_card distinct_filter)
qed

lemma lazy_content_new [simp]: "persistent_map (ac_trie a) \<Longrightarrow> lazy_content a g (new_lazy_head a n) = g"
  by (auto simp: lazy_content_def new_lazy_head_def persistent_map.get_empty)

lemma lazy_ok_new:
  "persistent_map (ac_trie a) \<Longrightarrow> keyed g \<Longrightarrow> (\<forall>n. size0 = Some n \<longrightarrow> n = int (card (dom g))) \<Longrightarrow> lazy_ok a g (new_lazy_head a size0)"
  by (simp add: lazy_ok_def) (simp add: new_lazy_head_def)

lemma with_delta_answers:
  assumes trie: "persistent_map (ac_trie a)" and h: "live a h" and ok: "lazy_ok a (base_graph a h) l"
    and d: "keys_distinct d" "\<forall>(k, c) \<in> set d. cid c = k \<and> k \<noteq> []"
    and fin: "finite (dom (lazy_content a (base_graph a h) l))"
  shows "\<exists>l'. answers a h (with_delta a l d h) l' \<and> lazy_ok a (base_graph a h) l' \<and>
    lazy_content a (base_graph a h) l' = lazy_content a (base_graph a h) l ++ map_of d \<and>
    lz_overlay l' = t_update (ac_trie a) d (lz_overlay l) \<and> lz_base_count l' = lz_base_count l \<and>
    lz_removed l' = lz_removed l - set (map fst d)"
proof -
  let ?g = "base_graph a h"
  let ?n = "length (filter (\<lambda>k. lazy_content a ?g l k = None) (map fst d))"
  let ?l = "\<lparr>lz_overlay = t_update (ac_trie a) d (lz_overlay l), lz_base_count = lz_base_count l,
      lz_created = lz_created l + int ?n, lz_removed = lz_removed l - set (map fst d)\<rparr>"
  have "answers a h (count_where (\<lambda>k h. rseq (lazy_contains a l k h) (\<lambda>b h. (h, Inr (\<not> b)))) (map fst d) h) ?n"
  proof (rule answers_count [OF h])
    fix k h' assume "live a h'" "hr_base h' = hr_base h"
    then have "answers a h' (lazy_contains a l k h') (lazy_content a ?g l k \<noteq> None)"
      using lazy_contains_answers [of a h' l k] by (simp add: base_graph_def)
    then show "answers a h' (rseq (lazy_contains a l k h') (\<lambda>b h. (h, Inr (\<not> b)))) (lazy_content a ?g l k = None)"
      by (rule answers_map) simp
  qed
  then have run: "answers a h (with_delta a l d h) ?l"
    unfolding with_delta_def by (rule answers_rseq) (auto intro: answers_pure)
  have content: "lazy_content a ?g ?l = lazy_content a ?g l ++ map_of d"
    by (rule ext) (auto simp: lazy_content_def persistent_map.get_update [OF trie d(1)] map_add_def in_keys_iff split: option.split)
  have "keyed (lazy_content a ?g l ++ map_of d)"
    using ok d unfolding lazy_ok_def keyed_def by (auto simp: map_add_Some_iff dest!: map_of_SomeD)
  then have "lazy_ok a ?g ?l"
    using ok card_dom_add [OF fin d(1)] unfolding lazy_ok_def content by simp
  with run content show ?thesis by (intro exI [of _ ?l]) simp
qed

text \<open>Stepping back: restored Cells come back, removed identities go.\<close>

lemma with_step_back_answers:
  assumes trie: "persistent_map (ac_trie a)" and h: "live a h" and ok: "lazy_ok a (base_graph a h) l"
    and d: "keys_distinct d" "\<forall>(k, c) \<in> set d. cid c = k \<and> k \<noteq> []" "set ks \<inter> set (map fst d) = {}"
    and there: "set (map fst d) \<union> set ks \<subseteq> dom (lazy_content a (base_graph a h) l)"
    and fin: "finite (dom (lazy_content a (base_graph a h) l))"
  shows "\<exists>l'. answers a h (with_step_back a l d ks h) l' \<and> lazy_ok a (base_graph a h) l' \<and>
    lazy_content a (base_graph a h) l' = (lazy_content a (base_graph a h) l ++ map_of d) |` (- set ks)"
proof -
  let ?g = "base_graph a h" and ?new = "\<lambda>k. \<not> overlay_get a l k \<noteq> None \<and> base_graph a h k = None"
  let ?n = "length (filter ?new (map fst d))"
  have "filter ?new (map fst d) = []"
    using there by (auto simp: filter_empty_conv lazy_content_def split: option.splits if_splits)
  then have n: "?n = 0" by simp
  let ?t = "foldl (\<lambda>t k. t_discard (ac_trie a) k t) (t_update (ac_trie a) d (lz_overlay l)) (dedup ks)"
  let ?l = "\<lparr>lz_overlay = ?t, lz_base_count = lz_base_count l,
      lz_created = lz_created l + int ?n - int (length (dedup ks)), lz_removed = (lz_removed l \<union> set (dedup ks)) - set (map fst d)\<rparr>"
  have "answers a h (count_where (\<lambda>k h. if overlay_get a l k \<noteq> None then (h, Inr False)
              else rseq (base_read a k h) (\<lambda>c h. (h, Inr (c = None)))) (map fst d) h) ?n"
  proof (rule answers_count [OF h])
    fix k h' assume h': "live a h'" "hr_base h' = hr_base h"
    then have "answers a h' (base_read a k h') (base_graph a h k)"
      using base_read_answers [of a h' k] by (simp add: base_graph_def)
    from answers_map [OF this, of "\<lambda>c. c = None"] h' show "answers a h' (if overlay_get a l k \<noteq> None then (h', Inr False)
              else rseq (base_read a k h') (\<lambda>c h. (h, Inr (c = None)))) (?new k)"
      by (auto intro: answers_pure)
  qed
  then have run: "answers a h (with_step_back a l d ks h) ?l"
    unfolding with_step_back_def Let_def by (rule answers_rseq) (auto intro: answers_pure)
  have content: "lazy_content a ?g ?l = (lazy_content a ?g l ++ map_of d) |` (- set ks)"
    using d(3) by (intro ext)
      (auto simp: in_keys_iff lazy_content_def persistent_map.get_discards [OF trie] persistent_map.get_update [OF trie d(1)]
        map_add_def restrict_map_def disjoint_iff split: option.split)
  have dom: "dom (lazy_content a ?g ?l) = dom (lazy_content a ?g l) - set ks"
    using there unfolding content dom_restrict dom_map_add dom_map_of_conv_image_fst by auto
  have "keyed ((lazy_content a ?g l ++ map_of d) |` (- set ks))"
    using ok d(1,2) unfolding lazy_ok_def keyed_def by (auto simp: map_add_Some_iff restrict_map_def dest!: map_of_SomeD split: if_splits)
  moreover have "card (dom (lazy_content a ?g ?l)) + length (dedup ks) = card (dom (lazy_content a ?g l))"
    using fin there card_Diff_subset [of "set ks" "dom (lazy_content a ?g l)"] card_mono [OF fin, of "set ks"]
      distinct_card [OF distinct_dedup, of ks] unfolding dom by simp
  ultimately have "lazy_ok a ?g ?l"
    using ok n content unfolding lazy_ok_def by simp
  with run content show ?thesis by (intro exI [of _ ?l]) simp
qed

section \<open>Streaming\<close>

lemma stream_ids_answers: "live a h \<Longrightarrow> answers a h (stream_ids (ac_journal a) h) (sorted_list_of_set (dom (base_graph a h)))"
  using prefix_stream_ok [of "ac_sizes a" "ac_journal a" h "[]"]
  by (auto simp: live_def stream_ids_def answers_def base_graph_def prefix_upper_def starts_with_def dom_def)

text \<open>The prefixes an interval can be bound for.\<close>

definition bindable :: "nat list \<Rightarrow> bool" where
  "bindable p \<longleftrightarrow> list_all scalar p \<and> (case prefix_upper p of None \<Rightarrow> True | Some u \<Rightarrow> list_all scalar u)"

lemma stream_prefix_answers:
  assumes "live a h" "texts (ac_journal a)" "bindable p"
  shows "answers a h (stream_ids_with_prefix (ac_journal a) p h)
    (sorted_list_of_set {k \<in> dom (base_graph a h). starts_with k (encode p)})"
proof -
  have "{k \<in> dom (base_graph a h). starts_with k (encode p)} = {k. base_graph a h k \<noteq> None \<and> starts_with k (encode p)}"
    by auto
  then show ?thesis
    using assms prefix_stream_ok [of "ac_sizes a" "ac_journal a" h p]
    by (simp add: live_def answers_def base_graph_def bindable_def)
qed

lemma stream_link0_answers:
  assumes "live a h"
  shows "answers a h (stream_cells_with_link0 (ac_sizes a) (ac_journal a) target h)
    (map (\<lambda>k. the (base_graph a h k)) (sorted_list_of_set {k. \<exists>c. base_graph a h k = Some c \<and> link0 c = target}))"
proof -
  let ?m = "stream_cells_with_link0 (ac_sizes a) (ac_journal a) target h"
  have inv: "head_inv (ac_sizes a) (ac_journal a) h" "\<not> hr_closing h" using assms by (auto simp: live_def)
  have "live a (fst ?m) \<and> hr_base (fst ?m) = hr_base h"
    using stream_reads_frame [OF inv(1), of target] inv(2)
    by (simp add: stream_cells_with_link0_def when_open_def live_def split_beta)
  with link_stream_and_count_ok [OF inv, of target] show ?thesis
    unfolding answers_def base_graph_def by (intro exI [of _ "fst ?m"]) (simp add: prod_eq_iff)
qed

lemma reader_count_answers: "live a h \<Longrightarrow> answers a h (reader_count (ac_journal a) h) (card (dom (base_graph a h)))"
  using link_stream_and_count_ok [of "ac_sizes a" "ac_journal a" h] by (simp add: live_def answers_def base_graph_def)

text \<open>The overlay first, then what it leaves of the base.\<close>

lemma dom_lazy_content:
  "dom (lazy_content a g l) = dom (overlay_get a l) \<union> {k \<in> dom g. k \<notin> lz_removed l}"
  by (auto simp: lazy_content_def dom_def split: option.splits)

lemma overlaid_ids:
  assumes trie: "persistent_map (ac_trie a)" and fin: "finite (dom g)"
    and seen: "seen = filter P (map fst (t_items (ac_trie a) (lz_overlay l)))"
  shows "distinct (seen @ filter (\<lambda>k. k \<notin> set seen \<and> k \<notin> lz_removed l) (sorted_list_of_set {k \<in> dom g. P k}))"
    "set (seen @ filter (\<lambda>k. k \<notin> set seen \<and> k \<notin> lz_removed l) (sorted_list_of_set {k \<in> dom g. P k})) =
       {k \<in> dom (lazy_content a g l). P k}"
proof -
  have fin': "finite {k \<in> dom g. P k}" using fin by simp
  have set_seen: "set seen = {k \<in> dom (overlay_get a l). P k}"
    using persistent_map.items_keys [OF trie, of "lz_overlay l"] by (auto simp: seen)
  show "distinct (seen @ filter (\<lambda>k. k \<notin> set seen \<and> k \<notin> lz_removed l) (sorted_list_of_set {k \<in> dom g. P k}))"
    using persistent_map.items_distinct [OF trie, of "lz_overlay l"] by (auto simp: seen)
  show "set (seen @ filter (\<lambda>k. k \<notin> set seen \<and> k \<notin> lz_removed l) (sorted_list_of_set {k \<in> dom g. P k})) =
       {k \<in> dom (lazy_content a g l). P k}"
    using fin' by (auto simp: dom_lazy_content set_seen)
qed

text \<open>An enumeration: every element once.\<close>

definition enumerates :: "'a set \<Rightarrow> 'a list \<Rightarrow> bool" where
  "enumerates S xs \<longleftrightarrow> distinct xs \<and> set xs = S"

lemma lazy_ids_answers:
  assumes "persistent_map (ac_trie a)" "live a h"
  shows "\<exists>ks. answers a h (lazy_ids a l h) ks \<and> enumerates (dom (lazy_content a (base_graph a h) l)) ks"
proof -
  let ?seen = "map fst (t_items (ac_trie a) (lz_overlay l))"
  let ?ks = "?seen @ filter (\<lambda>k. k \<notin> set ?seen \<and> k \<notin> lz_removed l) (sorted_list_of_set (dom (base_graph a h)))"
  have "answers a h (lazy_ids a l h) ?ks"
    unfolding lazy_ids_def Let_def by (rule answers_map [OF stream_ids_answers [OF assms(2)] refl])
  moreover have "enumerates (dom (lazy_content a (base_graph a h) l)) ?ks"
    using overlaid_ids [OF assms(1) graph_okD(4) [OF base_graph_ok [OF assms(2)]], of ?seen "\<lambda>_. True" l]
    by (simp add: enumerates_def)
  ultimately show ?thesis by blast
qed

lemma lazy_prefix_answers:
  assumes "persistent_map (ac_trie a)" "live a h" "texts (ac_journal a)" "bindable p"
  shows "\<exists>ks. answers a h (lazy_ids_with_prefix a l p h) ks \<and>
    enumerates {k \<in> dom (lazy_content a (base_graph a h) l). starts_with k (encode p)} ks"
proof -
  let ?seen = "filter (\<lambda>k. starts_with k (encode p)) (map fst (t_items (ac_trie a) (lz_overlay l)))"
  let ?ks = "?seen @ filter (\<lambda>k. k \<notin> set ?seen \<and> k \<notin> lz_removed l)
    (sorted_list_of_set {k \<in> dom (base_graph a h). starts_with k (encode p)})"
  have "answers a h (lazy_ids_with_prefix a l p h) ?ks"
    unfolding lazy_ids_with_prefix_def Let_def by (rule answers_map [OF stream_prefix_answers [OF assms(2-4)] refl])
  moreover have "enumerates {k \<in> dom (lazy_content a (base_graph a h) l). starts_with k (encode p)} ?ks"
    unfolding enumerates_def
    using overlaid_ids [OF assms(1) graph_okD(4) [OF base_graph_ok [OF assms(2)]], of ?seen "\<lambda>k. starts_with k (encode p)" l]
    by blast
  ultimately show ?thesis by blast
qed

definition linking :: "cells \<Rightarrow> string \<Rightarrow> cell set" where
  "linking m target = {c \<in> ran m. link0 c = target}"

lemma lazy_link0_answers:
  assumes trie: "persistent_map (ac_trie a)" and h: "live a h" and ok: "lazy_ok a (base_graph a h) l"
  shows "\<exists>cs. answers a h (lazy_cells_with_link0 a l target h) cs \<and>
    enumerates (linking (lazy_content a (base_graph a h) l) target) cs"
proof -
  let ?g = "base_graph a h"
  let ?hit = "{k. \<exists>c. ?g k = Some c \<and> link0 c = target}"
  let ?hits = "filter (\<lambda>(k, c). link0 c = target) (t_items (ac_trie a) (lz_overlay l))"
  let ?base = "map (\<lambda>k. the (?g k)) (sorted_list_of_set ?hit)"
  let ?keep = "\<lambda>c. cid c \<notin> fst ` set ?hits \<and> cid c \<notin> lz_removed l \<and> overlay_get a l (cid c) = None"
  let ?cs = "map snd ?hits @ filter ?keep ?base"
  have run: "answers a h (lazy_cells_with_link0 a l target h) ?cs"
    unfolding lazy_cells_with_link0_def Let_def by (rule answers_map [OF stream_link0_answers [OF h] refl])
  note g = graph_okD [OF base_graph_ok [OF h]]
  have fin: "finite ?hit" by (rule finite_subset [OF _ g(4)]) auto
  have gid: "cid c = k" if "?g k = Some c" for k c using g(1) that by (rule keyedD)
  have oid: "cid c = k" if "overlay_get a l k = Some c" for k c
    using ok that by (auto simp: lazy_ok_def keyed_def lazy_content_def)
  have hits: "(k, c) \<in> set ?hits \<longleftrightarrow> overlay_get a l k = Some c \<and> link0 c = target" for k c
    using persistent_map.items_iff [OF trie, of k c "lz_overlay l"] by auto
  have base: "c \<in> set ?base \<longleftrightarrow> ?g (cid c) = Some c \<and> link0 c = target" for c
  proof -
    have "c \<in> set ?base \<longleftrightarrow> (\<exists>k \<in> ?hit. c = the (?g k))" using fin by (simp add: image_iff)
    also have "\<dots> \<longleftrightarrow> ?g (cid c) = Some c \<and> link0 c = target"
    proof
      assume "\<exists>k \<in> ?hit. c = the (?g k)"
      then obtain k where "?g k = Some c" "link0 c = target" by auto
      with gid [OF this(1)] show "?g (cid c) = Some c \<and> link0 c = target" by simp
    next
      assume "?g (cid c) = Some c \<and> link0 c = target"
      then show "\<exists>k \<in> ?hit. c = the (?g k)" by (intro bexI [of _ "cid c"]) auto
    qed
    finally show ?thesis .
  qed
  have dist_keys: "keys_distinct ?hits"
    using persistent_map.items_distinct [OF trie, of "lz_overlay l"] by (rule distinct_map_filter)
  have "map cid (map snd ?hits) = map fst ?hits"
    using hits oid by (auto simp: case_prod_beta)
  then have d1: "distinct (map snd ?hits)" using dist_keys by (metis distinct_map)
  have "map cid ?base = map id (sorted_list_of_set ?hit)"
    unfolding map_map
  proof (rule map_cong [OF refl])
    fix k assume "k \<in> set (sorted_list_of_set ?hit)"
    then have "k \<in> ?hit" using fin by (simp only: set_sorted_list_of_set)
    then obtain c where "?g k = Some c" by blast
    then show "(cid \<circ> (\<lambda>k. the (?g k))) k = id k" using gid [of k c] by simp
  qed
  then have "distinct (map cid ?base)" by (simp only: list.map_id distinct_sorted_list_of_set)
  then have d2: "distinct ?base" by (simp only: distinct_map)
  have "set (map snd ?hits) \<inter> set (filter ?keep ?base) = {}"
  proof (rule equals0I)
    fix c assume "c \<in> set (map snd ?hits) \<inter> set (filter ?keep ?base)"
    then obtain k where k: "(k, c) \<in> set ?hits" "overlay_get a l (cid c) = None" by auto
    from k(1) have "overlay_get a l k = Some c" unfolding hits by blast
    with oid [OF this] k(2) show False by simp
  qed
  then have "distinct ?cs" using d1 d2 by (simp only: distinct_append distinct_filter simp_thms)
  moreover have "set ?cs = linking (lazy_content a ?g l) target"
  proof (rule set_eqI)
    fix c
    have "c \<in> set (map snd ?hits) \<longleftrightarrow> overlay_get a l (cid c) = Some c \<and> link0 c = target"
      using hits oid by (force simp: image_iff)
    moreover have "c \<in> set (filter ?keep ?base) \<longleftrightarrow>
        overlay_get a l (cid c) = None \<and> cid c \<notin> lz_removed l \<and> ?g (cid c) = Some c \<and> link0 c = target"
    proof -
      have "overlay_get a l (cid c) = None \<Longrightarrow> cid c \<notin> fst ` set ?hits" using hits [of "cid c"] by force
      then show ?thesis unfolding set_filter mem_Collect_eq base [of c] by blast
    qed
    moreover have "c \<in> ran (lazy_content a ?g l) \<longleftrightarrow> lazy_content a ?g l (cid c) = Some c"
      using ok by (auto simp: lazy_ok_def ran_def dest: keyedD)
    ultimately show "c \<in> set ?cs \<longleftrightarrow> c \<in> linking (lazy_content a ?g l) target"
      unfolding linking_def set_append by (auto simp: lazy_content_def split: option.splits if_splits)
  qed
  ultimately show ?thesis using run unfolding enumerates_def by blast
qed

lemma lazy_len_answers:
  assumes h: "live a h" and ok: "lazy_ok a (base_graph a h) l"
  shows "\<exists>l'. answers a h (lazy_len a l h) (l', int (card (dom (lazy_content a (base_graph a h) l)))) \<and>
    lazy_ok a (base_graph a h) l' \<and> lazy_content a (base_graph a h) l' = lazy_content a (base_graph a h) l \<and>
    lz_removed l' = lz_removed l"
proof (cases "lz_base_count l")
  case (Some n)
  with ok h show ?thesis by (intro exI [of _ l]) (simp add: lazy_len_def lazy_ok_def answers_pure)
next
  case None
  let ?l = "l\<lparr>lz_base_count := Some (int (card (dom (base_graph a h))))\<rparr>"
  have "answers a h (lazy_len a l h) (?l, int (card (dom (base_graph a h))) + lz_created l)"
    unfolding lazy_len_def None option.case by (rule answers_map [OF reader_count_answers [OF h]]) simp
  moreover have "lazy_content a g ?l = lazy_content a g l" for g by (simp add: lazy_content_def fun_eq_iff)
  ultimately show ?thesis using ok by (intro exI [of _ ?l]) (simp add: lazy_ok_def)
qed

end
