(* ===== verification/CellMapProps.thy ===== *)
theory CellMapProps
  imports CellMapLaws
begin

text \<open>
  Every mapping a store publishes holds one graph (\<open>content\<close>), and reading it in any way answers
  from that graph. A commit's next head holds the old content under the delta, whether it was
  copied, overlaid, layered or rebased on a new reader, so a published head always holds the graph
  of the journal's last revision (\<open>head_life\<close>).
\<close>

section \<open>Contents\<close>

fun content :: "'t access \<Rightarrow> cells \<Rightarrow> 't cell_map \<Rightarrow> cells" where
  "content a g (Dict al) = map_of al"
| "content a g (Overlay t d) = t_get (ac_trie a) t"
| "content a g (Lazy l) = lazy_content a g l"
| "content a g (Loading l w) = lazy_content a g l ++ map_of w"
| "content a g (Candidate m d n) = content a g m ++ map_of d"

fun map_ok :: "'t access \<Rightarrow> cells \<Rightarrow> 't cell_map \<Rightarrow> bool" where
  "map_ok a g (Dict al) \<longleftrightarrow> keys_distinct al \<and> keyed (map_of al)"
| "map_ok a g (Overlay t d) \<longleftrightarrow> keyed (t_get (ac_trie a) t)"
| "map_ok a g (Lazy l) \<longleftrightarrow> lazy_ok a g l"
| "map_ok a g (Loading l w) \<longleftrightarrow> lazy_ok a g l \<and> keys_distinct w \<and> keyed (map_of w)"
| "map_ok a g (Candidate m d n) \<longleftrightarrow> map_ok a g m \<and> keys_distinct d \<and> keyed (map_of d) \<and>
     n = int (length (filter (\<lambda>k. content a g m k = None) (map fst d)))"

lemma keyed_add: "keyed m \<Longrightarrow> keyed d \<Longrightarrow> keyed (m ++ d)"
  by (auto simp: keyed_def)

lemma content_keyed: "map_ok a g m \<Longrightarrow> keyed (content a g m)"
  by (induction m) (auto simp: lazy_ok_def keyed_add)

lemma content_finite:
  assumes "persistent_map (ac_trie a)" "finite (dom g)"
  shows "finite (dom (content a g m))"
  using assms by (induction m) (auto simp: dom_lazy_content persistent_map.finite_dom_get finite_dom_map_of)

text \<open>Two reads in a row, the first one a lookup in a list.\<close>

lemma map_get_answers: "live a h \<Longrightarrow> answers a h (map_get a m k h) (content a (base_graph a h) m k)"
  by (induction m) (auto intro: answers_intros lazy_get_answers simp: map_add_def split: option.split)

lemma map_contains_answers: "live a h \<Longrightarrow> answers a h (map_contains a m k h) (content a (base_graph a h) m k \<noteq> None)"
proof (induction m)
  case (Loading l w)
  then show ?case using lazy_contains_answers [of a h l k] by (auto intro: answers_intros simp: map_add_def split: option.split)
next
  case (Candidate m d n)
  then show ?case by (auto intro: answers_intros simp: map_add_def split: option.split)
qed (use lazy_contains_answers in \<open>auto intro: answers_intros\<close>)

lemma base_graph_same: "hr_base h' = hr_base h \<Longrightarrow> base_graph a h' = base_graph a h"
  by (simp add: base_graph_def)

text \<open>How many of some identities a mapping does not hold.\<close>

lemma count_new_answers:
  assumes "live a h"
  shows "answers a h (count_where (\<lambda>k h. rseq (map_contains a m k h) (\<lambda>b h. (h, Inr (\<not> b)))) ks h)
    (length (filter (\<lambda>k. content a (base_graph a h) m k = None) ks))"
proof (rule answers_count [OF assms])
  fix k h' assume h': "live a h'" "hr_base h' = hr_base h"
  have "answers a h' (map_contains a m k h') (content a (base_graph a h) m k \<noteq> None)"
    using map_contains_answers [OF h'(1), of m k] by (simp only: base_graph_same [OF h'(2)])
  then show "answers a h' (rseq (map_contains a m k h') (\<lambda>b h. (h, Inr (\<not> b)))) (content a (base_graph a h) m k = None)"
    by (rule answers_map) simp
qed

lemma count_new_lazy_answers:
  "live a h \<Longrightarrow> answers a h (count_where (\<lambda>k h. rseq (lazy_contains a l k h) (\<lambda>b h. (h, Inr (\<not> b)))) ks h)
    (length (filter (\<lambda>k. lazy_content a (base_graph a h) l k = None) ks))"
  using count_new_answers [of a h "Lazy l" ks] by simp

section \<open>Enumerations and sizes\<close>

lemma enumerates_keys: "keys_distinct al \<Longrightarrow> enumerates (dom (map_of al)) (map fst al)"
  by (simp add: enumerates_def dom_map_of_conv_image_fst)

lemma enumerates_append:
  "enumerates S ks \<Longrightarrow> enumerates T js \<Longrightarrow> enumerates (T \<union> S) (ks @ filter (\<lambda>k. k \<notin> set ks) js)"
  by (auto simp: enumerates_def)

lemma answers_exI:
  "\<exists>x. answers a h m x \<and> P x \<Longrightarrow> (\<And>x. P x \<Longrightarrow> Q (f x)) \<Longrightarrow> \<exists>y. answers a h (rseq m (\<lambda>b h. (h, Inr (f b)))) y \<and> Q y"
  by (blast intro: answers_map)

lemma map_ids_answers:
  assumes "persistent_map (ac_trie a)" "live a h" "map_ok a (base_graph a h) m"
  shows "\<exists>ks. answers a h (map_ids a m h) ks \<and> enumerates (dom (content a (base_graph a h) m)) ks"
  using assms(3)
proof (induction m)
  case (Dict al)
  then show ?case using assms(2) enumerates_keys [of al] by (auto intro: answers_pure)
next
  case (Overlay t d)
  have "enumerates (dom (t_get (ac_trie a) t)) (map fst (t_items (ac_trie a) t))"
    using persistent_map.items_distinct [OF assms(1), of t] persistent_map.items_keys [OF assms(1), of t]
    by (simp add: enumerates_def)
  then show ?case using assms(2) by (auto intro: answers_pure)
next
  case (Lazy l)
  then show ?case using lazy_ids_answers [OF assms(1,2), of l] by simp
next
  case (Loading l w)
  have "enumerates (dom (lazy_content a (base_graph a h) l ++ map_of w)) (map fst w @ filter (\<lambda>k. k \<notin> fst ` set w) ks)"
    if "enumerates (dom (lazy_content a (base_graph a h) l)) ks" for ks
    using enumerates_append [OF enumerates_keys that, of w] Loading by (simp add: dom_map_add Un_commute)
  then show ?case
    unfolding map_ids.simps content.simps by (intro answers_exI [OF lazy_ids_answers [OF assms(1,2), of l]])
next
  case (Candidate m d n)
  have "enumerates (dom (content a (base_graph a h) m ++ map_of d)) (ks @ filter (\<lambda>k. k \<notin> set ks) (map fst d))"
    if "enumerates (dom (content a (base_graph a h) m)) ks" for ks
    using enumerates_append [OF that enumerates_keys, of d] Candidate.prems by (simp add: dom_map_add)
  then show ?case
    unfolding map_ids.simps content.simps using Candidate by (intro answers_exI [OF Candidate.IH]) auto
qed

lemma map_len_answers:
  assumes trie: "persistent_map (ac_trie a)" and h: "live a h"
  shows "map_ok a (base_graph a h) m \<Longrightarrow> \<exists>m'. answers a h (map_len a m h) (m', int (card (dom (content a (base_graph a h) m)))) \<and>
    map_ok a (base_graph a h) m' \<and> content a (base_graph a h) m' = content a (base_graph a h) m"
  (is "?ok m \<Longrightarrow> ?goal m")
proof (induction m)
  case (Dict al)
  then have "length al = card (dom (map_of al))"
    using distinct_card [of "map fst al"] by (simp add: dom_map_of_conv_image_fst)
  with Dict h show ?case by (intro exI [of _ "Dict al"]) (simp add: answers_pure)
next
  case (Overlay t d)
  with h show ?case by (intro exI [of _ "Overlay t d"]) (simp add: answers_pure persistent_map.length_items [OF trie])
next
  case (Lazy l)
  then obtain l' where l: "answers a h (lazy_len a l h) (l', int (card (dom (lazy_content a (base_graph a h) l))))"
    "lazy_ok a (base_graph a h) l'" "lazy_content a (base_graph a h) l' = lazy_content a (base_graph a h) l"
    using lazy_len_answers [OF h, of l] by auto
  have "answers a h (map_len a (Lazy l) h) (Lazy l', int (card (dom (lazy_content a (base_graph a h) l))))"
    unfolding map_len.simps by (rule answers_rseq [OF l(1)]) (simp add: answers_pure)
  with l show ?case by (intro exI [of _ "Lazy l'"]) simp
next
  case (Loading l w)
  let ?g = "base_graph a h"
  obtain l' where l: "answers a h (lazy_len a l h) (l', int (card (dom (lazy_content a ?g l))))"
    "lazy_ok a ?g l'" "lazy_content a ?g l' = lazy_content a ?g l"
    using lazy_len_answers [OF h, of l] Loading by auto
  let ?n = "int (card (dom (lazy_content a ?g l))) + int (length (filter (\<lambda>k. lazy_content a ?g l k = None) (map fst w)))"
  have "answers a h (map_len a (Loading l w) h) (Loading l' w, ?n)"
    unfolding map_len.simps
  proof (rule answers_rseq [OF l(1)], unfold prod.case)
    fix h' assume h': "live a h'" "hr_base h' = hr_base h"
    show "answers a h' (rseq (count_where (\<lambda>k h. rseq (lazy_contains a l' k h) (\<lambda>b h. (h, Inr (\<not> b)))) (map fst w) h')
        (\<lambda>m h. (h, Inr (Loading l' w, int (card (dom (lazy_content a ?g l))) + int m)))) (Loading l' w, ?n)"
      by (rule answers_map [OF count_new_lazy_answers [OF h'(1)]]) (simp only: base_graph_same [OF h'(2)] l(3))
  qed
  moreover have "finite (dom (lazy_content a ?g l))"
    using content_finite [OF trie graph_okD(4) [OF base_graph_ok [OF h]], of "Lazy l"] by simp
  ultimately show ?case
    using l Loading card_dom_add [of "lazy_content a ?g l" w] by (intro exI [of _ "Loading l' w"]) simp
next
  case (Candidate m d n)
  let ?g = "base_graph a h"
  from Candidate obtain m' where m: "answers a h (map_len a m h) (m', int (card (dom (content a ?g m))))"
    "map_ok a ?g m'" "content a ?g m' = content a ?g m" by auto
  have "answers a h (map_len a (Candidate m d n) h) (Candidate m' d n, int (card (dom (content a ?g m))) + n)"
    unfolding map_len.simps by (rule answers_rseq [OF m(1)]) (simp add: answers_pure)
  with m Candidate.prems card_dom_add [OF content_finite [OF trie graph_okD(4) [OF base_graph_ok [OF h]]], of d m]
  show ?case by (intro exI [of _ "Candidate m' d n"]) simp
qed

section \<open>Whole readings\<close>

lemma read_items_answers:
  assumes "live a h" "set ks \<subseteq> dom (content a (base_graph a h) m)"
  shows "answers a h (read_items a m ks h) (map (\<lambda>k. (k, the (content a (base_graph a h) m k))) ks)"
  using assms
proof (induction ks arbitrary: h)
  case (Cons k ks)
  let ?g = "base_graph a h"
  obtain c where c: "content a ?g m k = Some c" using Cons.prems(2) by auto
  show ?case
    unfolding read_items.simps
  proof (rule answers_rseq [OF map_get_answers [OF Cons.prems(1)]])
    fix h' assume h': "live a h'" "hr_base h' = hr_base h"
    have "answers a h' (read_items a m ks h') (map (\<lambda>k. (k, the (content a ?g m k))) ks)"
      using Cons.IH [OF h'(1)] Cons.prems(2) by (simp add: base_graph_same [OF h'(2)])
    then show "answers a h' (case content a ?g m k of None \<Rightarrow> (h', Inl (KeyError k))
        | Some c \<Rightarrow> rseq (read_items a m ks h') (\<lambda>cs h. (h, Inr ((k, c) # cs))))
        (map (\<lambda>k. (k, the (content a ?g m k))) (k # ks))"
      unfolding c option.case by (rule answers_map) (simp add: c)
  qed
qed (simp add: answers_pure)

definition holds_items :: "cells \<Rightarrow> (string \<times> cell) list \<Rightarrow> bool" where
  "holds_items m al \<longleftrightarrow> keys_distinct al \<and> map_of al = m"

lemma holds_items_map: "enumerates (dom m) ks \<Longrightarrow> holds_items m (map (\<lambda>k. (k, the (m k))) ks)"
  by (auto simp: holds_items_def enumerates_def map_of_map_restrict comp_def restrict_map_def fun_eq_iff)

lemma map_items_answers:
  assumes trie: "persistent_map (ac_trie a)" and h: "live a h" and ok: "map_ok a (base_graph a h) m"
  shows "\<exists>al. answers a h (map_items a m h) al \<and> holds_items (content a (base_graph a h) m) al"
proof -
  let ?m = "content a (base_graph a h) m"
  obtain ks where ks: "answers a h (map_ids a m h) ks" "enumerates (dom ?m) ks"
    using map_ids_answers [OF assms] by blast
  have "answers a h (map_items a m h) (map (\<lambda>k. (k, the (?m k))) ks)"
    unfolding map_items_def
  proof (rule answers_rseq [OF ks(1)])
    fix h' assume h': "live a h'" "hr_base h' = hr_base h"
    show "answers a h' (read_items a m ks h') (map (\<lambda>k. (k, the (?m k))) ks)"
      using read_items_answers [OF h'(1), of ks m] ks(2) by (simp add: base_graph_same [OF h'(2)] enumerates_def)
  qed
  then show ?thesis using holds_items_map [OF ks(2)] by blast
qed

lemma compact_answers:
  assumes "persistent_map (ac_trie a)" "live a h" "map_ok a (base_graph a h) m"
  shows "\<exists>al. answers a h (compact_cell_map a m h) (Dict al) \<and> holds_items (content a (base_graph a h) m) al"
  using map_items_answers [OF assms] unfolding compact_cell_map_def by (blast intro: answers_map)

text \<open>\<open>holds a g m x\<close>: the mapping is well formed and holds the graph.\<close>

definition holds :: "'t access \<Rightarrow> cells \<Rightarrow> cells \<Rightarrow> 't cell_map \<Rightarrow> bool" where
  "holds a g x m \<longleftrightarrow> map_ok a g m \<and> content a g m = x"

lemma holds_Dict: "holds_items x al \<Longrightarrow> keyed x \<Longrightarrow> holds a g x (Dict al)"
  by (simp add: holds_def holds_items_def)

lemma frozen_cells_answers:
  assumes "persistent_map (ac_trie a)" "live a h" "map_ok a (base_graph a h) m"
  shows "\<exists>m'. answers a h (frozen_cells a m h) m' \<and> holds a (base_graph a h) (content a (base_graph a h) m) m'"
proof (cases "\<exists>l. m = Lazy l")
  case True
  with assms show ?thesis by (intro exI [of _ m]) (auto simp: holds_def intro: answers_pure)
next
  case False
  then have "frozen_cells a m h = compact_cell_map a m h" by (cases m) auto
  with compact_answers [OF assms] holds_Dict content_keyed [OF assms(3)] show ?thesis by metis
qed

text \<open>What a commit writes.\<close>

definition writes :: "(string \<times> cell) list \<Rightarrow> bool" where
  "writes d \<longleftrightarrow> keys_distinct d \<and> (\<forall>(k, c) \<in> set d. cid c = k \<and> k \<noteq> [])"

lemma writes_keyed: "writes d \<Longrightarrow> keyed (map_of d)"
  by (auto simp: writes_def keyed_def dest: map_of_SomeD)

lemma overlay_map_answers:
  assumes trie: "persistent_map (ac_trie a)" and h: "live a h" and ok: "map_ok a (base_graph a h) m" and d: "writes d"
  shows "\<exists>m'. answers a h (overlay_map a m d h) m' \<and> holds a (base_graph a h) (content a (base_graph a h) m ++ map_of d) m'"
proof -
  let ?x = "content a (base_graph a h) m"
  have kd: "keys_distinct d" using d by (simp add: writes_def)
  have key: "keyed (?x ++ map_of d)" by (rule keyed_add [OF content_keyed [OF ok] writes_keyed [OF d]])
  note up = persistent_map.get_updates [OF trie]
  show ?thesis
  proof (cases "\<exists>t n. m = Overlay t n")
    case True
    then obtain t n where m: "m = Overlay t n" by blast
    with h kd key show ?thesis
      by (intro exI [of _ "Overlay (t_update (ac_trie a) d t) 1"]) (simp add: holds_def answers_pure up)
  next
    case False
    obtain al where al: "answers a h (map_items a m h) al" "holds_items ?x al"
      using map_items_answers [OF trie h ok] by blast
    let ?m = "Overlay (t_update (ac_trie a) d (t_update (ac_trie a) al (t_empty (ac_trie a)))) 1"
    from False have "overlay_map a m d h = rseq (map_items a m h) (\<lambda>al h.
       (h, Inr (Overlay (t_update (ac_trie a) d (t_update (ac_trie a) al (t_empty (ac_trie a)))) 1)))"
      by (cases m) auto
    then have "answers a h (overlay_map a m d h) ?m" using answers_map [OF al(1) refl] by simp
    moreover have "t_get (ac_trie a) (t_empty (ac_trie a)) = Map.empty"
      using persistent_map.get_empty [OF trie] by auto
    then have "holds a (base_graph a h) (?x ++ map_of d) ?m"
      using al(2) kd key by (simp add: holds_def holds_items_def up)
    ultimately show ?thesis by blast
  qed
qed

lemma overlay_map_not_loading: "overlay_map a m d h \<noteq> (h', Inr (Loading l w))"
  by (cases m) (auto simp: rseq_def split: prod.splits sum.splits)

lemma overlay_map_not_lazy: "overlay_map a m d h \<noteq> (h', Inr (Lazy l))"
  by (cases m) (auto simp: rseq_def split: prod.splits sum.splits)

lemma candidate_map_answers:
  assumes "live a h" "map_ok a (base_graph a h) m" "writes d"
  shows "\<exists>m'. answers a h (candidate_map a m d h) m' \<and> holds a (base_graph a h) (content a (base_graph a h) m ++ map_of d) m'"
proof -
  let ?m = "Candidate m d (int (length (filter (\<lambda>k. content a (base_graph a h) m k = None) (map fst d))))"
  have "answers a h (candidate_map a m d h) ?m"
    unfolding candidate_map_def by (rule answers_map [OF count_new_answers [OF assms(1)] refl])
  moreover have "holds a (base_graph a h) (content a (base_graph a h) m ++ map_of d) ?m"
    using assms writes_keyed [of d] by (simp add: holds_def writes_def)
  ultimately show ?thesis by blast
qed

section \<open>Searches\<close>

lemma ids_with_prefix_answers:
  assumes "persistent_map (ac_trie a)" "live a h" "map_ok a (base_graph a h) m"
    "texts (ac_journal a)" "bindable p" "\<nexists>l w. m = Loading l w"
  shows "\<exists>ks. answers a h (ids_with_prefix a m p h) ks \<and>
    enumerates {k \<in> dom (content a (base_graph a h) m). starts_with k (encode p)} ks"
proof (cases "\<exists>l. m = Lazy l")
  case True
  with lazy_prefix_answers [OF assms(1,2,4,5)] show ?thesis by auto
next
  case False
  with assms(6) have "ids_with_prefix a m p h =
      rseq (map_ids a m h) (\<lambda>ks h. (h, Inr (filter (\<lambda>k. starts_with k (encode p)) ks)))" by (cases m) auto
  then show ?thesis
    using answers_exI [OF map_ids_answers [OF assms(1-3)], of
        "enumerates {k \<in> dom (content a (base_graph a h) m). starts_with k (encode p)}" "filter (\<lambda>k. starts_with k (encode p))"]
    by (auto simp: enumerates_def)
qed

lemma linking_items:
  assumes "holds_items x al" "keyed x"
  shows "enumerates (linking x target) (filter (\<lambda>c. link0 c = target) (map snd al))"
proof -
  have ids: "cid c = k" if "(k, c) \<in> set al" for k c
    using assms that map_of_is_SomeI [of al k c] by (auto simp: holds_items_def keyed_def)
  then have "map cid (map snd al) = map fst al" by (auto simp: case_prod_beta)
  then have "distinct (map snd al)" using assms(1) by (metis distinct_map holds_items_def)
  moreover have "set (map snd al) = ran x"
    using assms(1) ran_distinct [of al] by (simp add: holds_items_def)
  ultimately show ?thesis by (auto simp: enumerates_def linking_def)
qed

lemma cells_with_link0_answers:
  assumes "persistent_map (ac_trie a)" "live a h" "map_ok a (base_graph a h) m" "\<nexists>l w. m = Loading l w"
  shows "\<exists>cs. answers a h (cells_with_link0 a m target h) cs \<and>
    enumerates (linking (content a (base_graph a h) m) target) cs"
proof (cases "\<exists>l. m = Lazy l")
  case True
  with lazy_link0_answers [OF assms(1,2)] assms(3) show ?thesis by auto
next
  case False
  with assms(4) have "cells_with_link0 a m target h =
      rseq (map_items a m h) (\<lambda>al h. (h, Inr (filter (\<lambda>c. link0 c = target) (map snd al))))" by (cases m) auto
  moreover obtain al where "answers a h (map_items a m h) al" "holds_items (content a (base_graph a h) m) al"
    using map_items_answers [OF assms(1-3)] by blast
  ultimately show ?thesis
    using linking_items [OF _ content_keyed [OF assms(3)], of al target]
      answers_map [of a h "map_items a m h" al "\<lambda>al. filter (\<lambda>c. link0 c = target) (map snd al)"] by auto
qed

section \<open>The next head\<close>

lemma overlay_base_answers:
  assumes "persistent_map (ac_trie a)" "live a h" "holds a (base_graph a h) x m"
  shows "\<exists>m'. answers a h (overlay_base a m h) m' \<and> holds a (base_graph a h) x m' \<and>
    (\<forall>l. m' = Lazy l \<longrightarrow> m = Lazy l)"
proof (cases "\<exists>t d. m = Overlay t d \<and> MAX_OVERLAY_DEPTH \<le> d")
  case True
  then have "overlay_base a m h = compact_cell_map a m h" by (auto simp: overlay_base_def)
  moreover have ok: "map_ok a (base_graph a h) m" "content a (base_graph a h) m = x" using assms(3) by (simp_all add: holds_def)
  ultimately show ?thesis
    using compact_answers [OF assms(1,2) ok(1)] holds_Dict content_keyed [OF ok(1)] ok(2) by (metis cell_map.distinct(3))
next
  case False
  then have "overlay_base a m h = (h, Inr m)" by (cases m) (auto simp: overlay_base_def)
  with assms show ?thesis by (auto intro: answers_pure)
qed

text \<open>
  \<open>prepared a h x nx\<close>: the next mapping, over the old reader or, at a rebase, over one pinned to
  the revision whose graph is \<open>x\<close>, holds \<open>x\<close>.
\<close>

definition prepared :: "'t access \<Rightarrow> cells \<Rightarrow> cells \<Rightarrow> 't next_head \<Rightarrow> bool" where
  "prepared a g x nx \<longleftrightarrow>
     (case nx_rewritten nx of
        None \<Rightarrow> holds a g x (nx_map nx)
      | Some rewritten \<Rightarrow> (\<exists>n. nx_map nx = Lazy (new_lazy_head a n) \<and> (\<forall>k. n = Some k \<longrightarrow> k = int (card (dom x)))) \<and>
          keyed x \<and> (\<forall>k. k \<notin> rewritten \<longrightarrow> x k = g k)) \<and>
     (\<forall>l. nx_map nx = Lazy l \<longrightarrow> lz_removed l = {}) \<and> (\<nexists>l w. nx_map nx = Loading l w)"

lemma rebased_prepared:
  assumes trie: "persistent_map (ac_trie a)" and fin: "finite (dom g)" and ok: "lazy_ok a g l" and none: "lz_removed l = {}"
    and d: "writes d" and new: "created = length (filter (\<lambda>k. lazy_content a g l k = None) (map fst d))"
  shows "prepared a g (lazy_content a g l ++ map_of d) \<lparr>nx_map = Lazy (new_lazy_head a (map_option
      (\<lambda>n. n + lz_created l + int created) (lz_base_count l))), nx_bytes = 0,
    nx_rewritten = Some (fst ` set (t_items (ac_trie a) (lz_overlay l)) \<union> fst ` set d)\<rparr>"
proof -
  have fin': "finite (dom (lazy_content a g l))" using content_finite [OF trie fin, of "Lazy l"] by simp
  have "lz_base_count l = Some n \<Longrightarrow>
      n + lz_created l + int created = int (card (dom (lazy_content a g l ++ map_of d)))" for n
    using ok d new card_dom_add [OF fin', of d] by (simp add: lazy_ok_def writes_def)
  moreover have "(lazy_content a g l ++ map_of d) k = g k"
    if "k \<notin> fst ` set (t_items (ac_trie a) (lz_overlay l))" "k \<notin> fst ` set d" for k
  proof -
    have "overlay_get a l k = None" using that(1) unfolding persistent_map.items_keys [OF trie] by auto
    moreover have "map_of d k = None" using that(2) by (simp only: map_of_eq_None_iff not_False_eq_True)
    ultimately show ?thesis using none by (simp add: lazy_content_def map_add_def)
  qed
  moreover have "keyed (lazy_content a g l ++ map_of d)"
    using ok writes_keyed [OF d] by (simp add: lazy_ok_def keyed_add)
  ultimately show ?thesis by (auto simp: prepared_def new_lazy_head_def)
qed

lemma choose_head_answers:
  assumes trie: "persistent_map (ac_trie a)" and h: "live a h" and m: "holds a (base_graph a h) x m"
    and none: "\<forall>l. m = Lazy l \<longrightarrow> lz_removed l = {}" and d: "writes d"
    and new: "created = length (filter (\<lambda>k. x k = None) (map fst d))"
  shows "\<exists>nx. answers a h (choose_head a sqlite m d created bytes h) nx \<and> prepared a (base_graph a h) (x ++ map_of d) nx"
proof -
  let ?g = "base_graph a h"
  have ok: "map_ok a ?g m" "content a ?g m = x" using m by (simp_all add: holds_def)
  have fin: "finite (dom ?g)" using graph_okD(4) [OF base_graph_ok [OF h]] .
  show ?thesis
  proof (cases "\<exists>l. m = Lazy l")
    case True
    then obtain l where l: "m = Lazy l" by blast
    have lz: "lazy_ok a ?g l" "lazy_content a ?g l = x" "lz_removed l = {}" using ok none l by auto
    show ?thesis
    proof (cases "sqlite \<and> rebase_due a l d bytes")
      case True
      with rebased_prepared [OF trie fin lz(1,3) d] new lz h show ?thesis
        unfolding l choose_head_def cell_map.case Let_def by (auto intro: answers_pure)
    next
      case False
      have "finite (dom (lazy_content a ?g l))" using content_finite [OF trie fin, of "Lazy l"] by simp
      from with_delta_answers [OF trie h lz(1) _ _ this, of d] d obtain l' where l':
        "answers a h (with_delta a l d h) l'" "lazy_ok a ?g l'" "lazy_content a ?g l' = x ++ map_of d" "lz_removed l' = {}"
        using lz by (auto simp: writes_def)
      have "choose_head a sqlite m d created bytes h = rseq (with_delta a l d h) (\<lambda>l h.
          (h, Inr \<lparr>nx_map = Lazy l, nx_bytes = (if sqlite then overlay_bytes a bytes d else bytes), nx_rewritten = None\<rparr>))"
        using False lz(3) unfolding l choose_head_def cell_map.case Let_def by auto
      then have "answers a h (choose_head a sqlite m d created bytes h)
          \<lparr>nx_map = Lazy l', nx_bytes = (if sqlite then overlay_bytes a bytes d else bytes), nx_rewritten = None\<rparr>"
        by (elim ssubst) (rule answers_map [OF l'(1) refl])
      with l' show ?thesis by (intro exI conjI) (assumption, simp add: prepared_def holds_def)
    qed
  next
    case False
    let ?next = "\<lambda>m n h. if n \<le> COPY_ON_COMMIT_CELL_LIMIT
        then rseq (map_items a m h) (\<lambda>al h. (h, Inr (Dict (dict_update d al)))) else overlay_map a m d h"
    obtain m' n where len: "answers a h (map_len a m h) (m', n)" "map_ok a ?g m'" "content a ?g m' = x"
      using map_len_answers [OF trie h ok(1)] ok(2) by auto
    have "\<exists>m2. answers a h (rseq (map_len a m h) (\<lambda>(m, n) h. ?next m n h)) m2 \<and>
        holds a ?g (x ++ map_of d) m2 \<and> (\<forall>l. m2 \<noteq> Lazy l) \<and> (\<forall>l w. m2 \<noteq> Loading l w)"
    proof -
      obtain h' where h': "map_len a m h = (h', Inr (m', n))" "live a h'" "hr_base h' = hr_base h"
        using len(1) by (auto simp: answers_def)
      have g': "base_graph a h' = ?g" by (rule base_graph_same [OF h'(3)])
      have "\<exists>m2. answers a h' (?next m' n h') m2 \<and> holds a ?g (x ++ map_of d) m2 \<and> (\<forall>l. m2 \<noteq> Lazy l) \<and> (\<forall>l w. m2 \<noteq> Loading l w)"
      proof (cases "n \<le> COPY_ON_COMMIT_CELL_LIMIT")
        case True
        obtain al where al: "answers a h' (map_items a m' h') al" "holds_items x al"
          using map_items_answers [OF trie h'(2), of m'] len(2,3) by (auto simp: g')
        then have "holds_items (x ++ map_of d) (dict_update d al)"
          using d by (simp add: holds_items_def map_of_dict_update keys_distinct_dict_update writes_def)
        moreover have "keyed (x ++ map_of d)" using content_keyed [OF ok(1)] ok(2) writes_keyed [OF d] by (simp add: keyed_add)
        ultimately have "holds a ?g (x ++ map_of d) (Dict (dict_update d al))" by (rule holds_Dict)
        with True show ?thesis using answers_map [OF al(1) refl, of "\<lambda>al. Dict (dict_update d al)"]
          by (intro exI [of _ "Dict (dict_update d al)"]) simp
      next
        case False
        then show ?thesis
          using overlay_map_answers [OF trie h'(2), of m' d] overlay_map_not_lazy [of a m' d h'] overlay_map_not_loading [of a m' d h'] len(2,3) d
          by (auto simp: g' answers_def)
      qed
      then show ?thesis using h' by (auto simp: rseq_def answers_def)
    qed
    then obtain m2 where m2: "answers a h (rseq (map_len a m h) (\<lambda>(m, n) h. ?next m n h)) m2"
      "holds a ?g (x ++ map_of d) m2" "\<forall>l. m2 \<noteq> Lazy l" "\<forall>l w. m2 \<noteq> Loading l w" by blast
    have "choose_head a sqlite m d created bytes h =
        rseq (rseq (map_len a m h) (\<lambda>(m, n) h. ?next m n h)) (\<lambda>m h. (h, Inr \<lparr>nx_map = m, nx_bytes = bytes, nx_rewritten = None\<rparr>))"
      using False by (cases m) (auto simp: choose_head_def rseq_def split: prod.splits sum.splits)
    then have "answers a h (choose_head a sqlite m d created bytes h) \<lparr>nx_map = m2, nx_bytes = bytes, nx_rewritten = None\<rparr>"
      by (elim ssubst) (rule answers_map [OF m2(1) refl])
    with m2 show ?thesis by (intro exI conjI) (assumption, simp add: prepared_def)
  qed
qed

section \<open>The life of a head\<close>

definition acc :: "'t trie_ops \<Rightarrow> sizes \<Rightarrow> journal \<Rightarrow> 't access" where
  "acc tr sz j = \<lparr>ac_trie = tr, ac_sizes = sz, ac_journal = j\<rparr>"

lemma acc_simps [simp]: "ac_trie (acc tr sz j) = tr" "ac_sizes (acc tr sz j) = sz" "ac_journal (acc tr sz j) = j"
  by (simp_all add: acc_def)

text \<open>What a mapping holds does not depend on the journal, only on the graph under it.\<close>

lemma lazy_content_acc: "lazy_content (acc tr sz j') g l = lazy_content (acc tr sz j) g l"
  by (simp add: lazy_content_def)

lemma content_acc: "content (acc tr sz j') g m = content (acc tr sz j) g m"
  by (induction m) (simp_all add: lazy_content_acc [of tr sz j' g _ j])

lemma map_ok_acc: "map_ok (acc tr sz j') g m = map_ok (acc tr sz j) g m"
  by (induction m) (simp_all add: lazy_ok_def lazy_content_acc [of tr sz j' g _ j] content_acc [of tr sz j' g _ j])

lemma holds_acc: "holds (acc tr sz j') g x m = holds (acc tr sz j) g x m"
  by (simp add: holds_def content_acc [of tr sz j' g m j] map_ok_acc [of tr sz j' g m j])

lemma new_lazy_head_acc: "new_lazy_head (acc tr sz j') n = new_lazy_head (acc tr sz j) n"
  by (simp add: new_lazy_head_def)

lemma prepared_acc: "prepared (acc tr sz j') g x nx = prepared (acc tr sz j) g x nx"
  by (simp add: prepared_def holds_acc [of tr sz j' g x _ j] new_lazy_head_acc [of tr sz j' _ j] split: option.split)

text \<open>
  A head is opened lazily, with or without a known size, or densely; it is read, counted, listed,
  searched and warmed in any order; and a commit takes it over once the append is durable.
\<close>

definition delta_of :: "cell list \<Rightarrow> (string \<times> cell) list" where
  "delta_of cs = map (\<lambda>c. (cid c, c)) cs"

definition created_in :: "cells \<Rightarrow> cell list \<Rightarrow> nat" where
  "created_in m cs = length (filter (\<lambda>c. m (cid c) = None) cs)"

inductive head_life :: "'t trie_ops \<Rightarrow> sizes \<Rightarrow> bool \<Rightarrow> journal \<Rightarrow> 't cell_map \<Rightarrow> head_reader \<Rightarrow> nat \<Rightarrow> bool"
  for tr sz sqlite where
  opened: "journal_ok j \<Longrightarrow> size0 = None \<or> size0 = Some (int (card (dom (state_at (j_versions j) (head_of j))))) \<Longrightarrow>
    head_life tr sz sqlite j (Lazy (new_lazy_head (acc tr sz j) size0)) (new_head_reader (head_of j)) 0"
| dense: "journal_ok j \<Longrightarrow> holds_items (state_at (j_versions j) (head_of j)) al \<Longrightarrow>
    head_life tr sz sqlite j (Dict al) (new_head_reader (head_of j)) 0"
| got: "head_life tr sz sqlite j m h b \<Longrightarrow> head_life tr sz sqlite j m (fst (map_get (acc tr sz j) m k h)) b"
| counted: "head_life tr sz sqlite j m h b \<Longrightarrow> map_len (acc tr sz j) m h = (h', Inr (m', n)) \<Longrightarrow> head_life tr sz sqlite j m' h' b"
| listed: "head_life tr sz sqlite j m h b \<Longrightarrow> head_life tr sz sqlite j m (fst (map_items (acc tr sz j) m h)) b"
| searched: "head_life tr sz sqlite j m h b \<Longrightarrow> head_life tr sz sqlite j m (fst (cells_with_link0 (acc tr sz j) m t h)) b"
| warmed: "head_life tr sz sqlite j m h b \<Longrightarrow> head_life tr sz sqlite j m (fst (lazy_prefetch (acc tr sz j) l ks h)) b"
| committed: "head_life tr sz sqlite j m h b \<Longrightarrow> commit_rows_ok (state_at (j_versions j) (head_of j)) cs \<Longrightarrow>
    overlay_base (acc tr sz j) m h = (h1, Inr m1) \<Longrightarrow>
    choose_head (acc tr sz j) sqlite m1 (delta_of cs) (created_in (state_at (j_versions j) (head_of j)) cs) b h1 = (h2, Inr nx) \<Longrightarrow>
    journal_append fault phys j (head_of j) (Suc (head_of j)) cs = (j', Inr u) \<Longrightarrow>
    take_over (acc tr sz j') nx (head_of j') h2 = (h3, h') \<Longrightarrow>
    head_life tr sz sqlite j' (nx_map nx) h' (nx_bytes nx)"

definition head_ok :: "'t trie_ops \<Rightarrow> sizes \<Rightarrow> journal \<Rightarrow> 't cell_map \<Rightarrow> head_reader \<Rightarrow> bool" where
  "head_ok tr sz j m h \<longleftrightarrow> live (acc tr sz j) h \<and>
     holds (acc tr sz j) (base_graph (acc tr sz j) h) (state_at (j_versions j) (head_of j)) m \<and>
     (\<forall>l. m = Lazy l \<longrightarrow> lz_removed l = {}) \<and> (\<nexists>l w. m = Loading l w)"

lemma writes_delta_of: "commit_rows_ok x cs \<Longrightarrow> writes (delta_of cs)"
  by (auto simp: writes_def delta_of_def commit_rows_ok_def comp_def)

lemma created_in_delta: "created_in x cs = length (filter (\<lambda>k. x k = None) (map fst (delta_of cs)))"
  by (simp add: created_in_def delta_of_def comp_def filter_map)

lemma put_delta: "distinct (map cid cs) \<Longrightarrow> put_cells cs x = x ++ map_of (delta_of cs)"
proof (induction cs arbitrary: x)
  case (Cons c cs)
  have "map_of (delta_of cs) (cid c) = None" using Cons.prems by (auto simp: map_of_eq_None_iff delta_of_def)
  with Cons show ?case by (auto simp: delta_of_def map_add_def fun_eq_iff split: option.split)
qed (simp add: delta_of_def)

lemma answers_fst: "answers a h m x \<Longrightarrow> live a (fst m) \<and> hr_base (fst m) = hr_base h"
  by (auto simp: answers_def)

lemma head_ok_moved: "head_ok tr sz j m h \<Longrightarrow> answers (acc tr sz j) h c x \<Longrightarrow> head_ok tr sz j m (fst c)"
  using answers_fst [of "acc tr sz j" h c x] base_graph_same [of "fst c" h "acc tr sz j"]
  by (simp add: head_ok_def)

text \<open>The mapping a commit prepared holds the new graph over the reader it is left with.\<close>

lemma take_over_ok:
  assumes h: "live (acc tr sz j) h" and nx: "prepared (acc tr sz j) (base_graph (acc tr sz j) h) (put_cells cs (state_at (j_versions j) (head_of j))) nx"
    and cs: "commit_rows_ok (state_at (j_versions j) (head_of j)) cs"
    and trie: "persistent_map tr"
    and run: "take_over (acc tr sz (appended j cs)) nx (head_of (appended j cs)) h = (h3, h')"
  shows "head_ok tr sz (appended j cs) (nx_map nx) h'"
proof -
  let ?j = "appended j cs" and ?x = "put_cells cs (state_at (j_versions j) (head_of j))"
  have inv: "head_inv sz j h" "\<not> hr_closing h" using h by (auto simp: live_def)
  note j = head_inv_ok [OF inv(1)]
  have d: "distinct (map cid cs)" using cs by (simp add: commit_rows_ok_def)
  have j': "journal_ok ?j" by (rule journal_ok_appended [OF j(1) cs])
  have inv': "head_inv sz ?j h" by (rule head_inv_grows [OF inv(1) j' extends_appended [OF j(1)]])
  have x: "state_at (j_versions ?j) (head_of ?j) = ?x" using appended_new_state [OF j(1) d] j(1) by simp
  have g: "base_graph (acc tr sz ?j) h = base_graph (acc tr sz j) h"
    using appended_old_state [OF j(2)] by (simp add: base_graph_def)
  have nx': "prepared (acc tr sz ?j) (base_graph (acc tr sz ?j) h) ?x nx"
    using nx prepared_acc [of tr sz ?j "base_graph (acc tr sz j) h" ?x nx j] g by simp
  show ?thesis
  proof (cases "nx_rewritten nx")
    case None
    with run have "h' = h" by (auto simp: take_over_def)
    with None nx' inv' inv(2) x show ?thesis by (simp add: head_ok_def live_def prepared_def)
  next
    case (Some rewritten)
    let ?s = "new_head_reader (head_of ?j)"
    have s: "head_inv sz ?j ?s" by (rule new_head_reader_inv [OF j' order_refl])
    have same: "state_at (j_versions ?j) (hr_base h) k = state_at (j_versions ?j) (hr_base ?s) k" if "k \<notin> rewritten" for k
      using nx' that Some x by (simp add: prepared_def base_graph_def new_head_reader_def)
    from run Some have "hand_over sz False rewritten h ?s = (h3, h')" by (simp add: take_over_def)
    from hand_over_inv [OF inv' s same this] inv(2) have h': "head_inv sz ?j h'" "hr_base h' = head_of ?j" "\<not> hr_closing h'"
      by (auto simp: new_head_reader_def)
    then have g': "base_graph (acc tr sz ?j) h' = ?x" by (simp add: base_graph_def x)
    obtain n where n: "nx_map nx = Lazy (new_lazy_head (acc tr sz ?j) n)" "\<forall>k. n = Some k \<longrightarrow> k = int (card (dom ?x))" "keyed ?x"
      using nx' Some by (auto simp: prepared_def)
    have "lazy_ok (acc tr sz ?j) ?x (new_lazy_head (acc tr sz ?j) n)" by (rule lazy_ok_new) (use trie n in simp_all)
    moreover have "lz_removed (new_lazy_head (acc tr sz ?j) n) = {}" by (simp add: new_lazy_head_def)
    ultimately show ?thesis using n(1) trie h' g' x by (simp add: head_ok_def live_def holds_def)
  qed
qed

lemma map_len_shape:
  "map_len a m h = (h', Inr (m', n)) \<Longrightarrow> (\<forall>l'. m' = Lazy l' \<longrightarrow> (\<exists>l. m = Lazy l \<and> lz_removed l' = lz_removed l)) \<and>
     ((\<exists>l w. m' = Loading l w) \<longrightarrow> (\<exists>l w. m = Loading l w))"
  by (cases m) (auto simp: rseq_Inr lazy_len_def split: option.splits)

lemma head_life_ok:
  assumes "persistent_map tr" shows "head_life tr sz sqlite j m h b \<Longrightarrow> head_ok tr sz j m h"
proof (induction rule: head_life.induct)
  case (opened j size0)
  have inv: "head_inv sz j (new_head_reader (head_of j))" by (rule new_head_reader_inv [OF opened(1) order_refl])
  have "keyed (state_at (j_versions j) (head_of j))" by (rule graph_okD(1) [OF graph_ok_state_at [OF opened(1)]])
  then have "lazy_ok (acc tr sz j) (state_at (j_versions j) (head_of j)) (new_lazy_head (acc tr sz j) size0)"
    using assms opened(2) by (intro lazy_ok_new) auto
  moreover have "hr_base (new_head_reader (head_of j)) = head_of j" "\<not> hr_closing (new_head_reader (head_of j))"
    by (simp_all add: new_head_reader_def)
  moreover have "lz_removed (new_lazy_head (acc tr sz j) size0) = {}" by (simp add: new_lazy_head_def)
  ultimately show ?case using inv assms by (simp add: head_ok_def live_def holds_def base_graph_def)
next
  case (dense j al)
  have inv: "head_inv sz j (new_head_reader (head_of j))" by (rule new_head_reader_inv [OF dense(1) order_refl])
  have "keyed (state_at (j_versions j) (head_of j))" by (rule graph_okD(1) [OF graph_ok_state_at [OF dense(1)]])
  with holds_Dict [OF dense(2)] inv show ?case by (simp add: head_ok_def live_def new_head_reader_def)
next
  case (got j m h b k)
  then have "live (acc tr sz j) h" by (simp add: head_ok_def)
  from head_ok_moved [OF got.IH map_get_answers [OF this]] show ?case .
next
  case (counted j m h b h' m' n)
  let ?a = "acc tr sz j"
  have ok: "live ?a h" "map_ok ?a (base_graph ?a h) m" using counted.IH by (simp_all add: head_ok_def holds_def)
  from map_len_answers [OF _ ok(1,2)] assms counted.hyps(2) have
    "live ?a h'" "hr_base h' = hr_base h" "map_ok ?a (base_graph ?a h) m'" "content ?a (base_graph ?a h) m' = content ?a (base_graph ?a h) m"
    by (auto simp: answers_def)
  note m = this
  from counted.IH have x: "content ?a (base_graph ?a h) m = state_at (j_versions j) (head_of j)"
    "\<forall>l. m = Lazy l \<longrightarrow> lz_removed l = {}" "\<nexists>l w. m = Loading l w" by (auto simp: head_ok_def holds_def)
  have "(\<forall>l. m' = Lazy l \<longrightarrow> lz_removed l = {}) \<and> (\<nexists>l w. m' = Loading l w)"
    using map_len_shape [OF counted.hyps(2)] x(2,3) by auto
  with m x(1) show ?case by (simp add: head_ok_def holds_def base_graph_same [OF m(2)])
next
  case (listed j m h b)
  then have "live (acc tr sz j) h" "map_ok (acc tr sz j) (base_graph (acc tr sz j) h) m"
    by (simp_all add: head_ok_def holds_def)
  with map_items_answers [of "acc tr sz j" h m] assms show ?case by (auto intro: head_ok_moved [OF listed.IH])
next
  case (searched j m h b t)
  then have "live (acc tr sz j) h" "map_ok (acc tr sz j) (base_graph (acc tr sz j) h) m" "\<nexists>l w. m = Loading l w"
    by (simp_all add: head_ok_def holds_def)
  with cells_with_link0_answers [of "acc tr sz j" h m t] assms show ?case by (auto intro: head_ok_moved [OF searched.IH])
next
  case (warmed j m h b l ks)
  let ?ks = "filter (\<lambda>k. overlay_get (acc tr sz j) l k = None) ks"
  have "live (acc tr sz j) h" using warmed.IH by (simp add: head_ok_def)
  then have "live (acc tr sz j) (fst (prefetch sz j ?ks h)) \<and> hr_base (fst (prefetch sz j ?ks h)) = hr_base h"
    using keepsD [OF prefetch_keeps, of sz j h ?ks] by (simp add: live_def)
  with warmed.IH base_graph_same [of "fst (prefetch sz j ?ks h)" h "acc tr sz j"] show ?case
    by (simp add: lazy_prefetch_def head_ok_def)
next
  case (committed j m h b cs h1 m1 h2 nx fault phys j' u h3 h')
  let ?a = "acc tr sz j" and ?x = "state_at (j_versions j) (head_of j)"
  have ok: "live ?a h" "holds ?a (base_graph ?a h) ?x m" "\<forall>l. m = Lazy l \<longrightarrow> lz_removed l = {}"
    using committed.IH by (auto simp: head_ok_def)
  from overlay_base_answers [OF _ ok(1,2)] assms committed.hyps(3) ok(3) have
    h1: "live ?a h1" "hr_base h1 = hr_base h" "holds ?a (base_graph ?a h) ?x m1" "\<forall>l. m1 = Lazy l \<longrightarrow> lz_removed l = {}"
    by (auto simp: answers_def)
  have g1: "base_graph ?a h1 = base_graph ?a h" by (rule base_graph_same [OF h1(2)])
  from choose_head_answers [OF _ h1(1) h1(3) [folded g1] h1(4) writes_delta_of [OF committed.hyps(2)] created_in_delta, of sqlite b]
    assms committed.hyps(4) have
    h2: "live ?a h2" "hr_base h2 = hr_base h1" "prepared ?a (base_graph ?a h1) (?x ++ map_of (delta_of cs)) nx"
    by (auto simp: answers_def)
  have g2: "base_graph ?a h2 = base_graph ?a h1" by (rule base_graph_same [OF h2(2)])
  have d: "distinct (map cid cs)" using committed.hyps(2) by (simp add: commit_rows_ok_def)
  have "journal_ok j" using ok(1) by (simp add: live_def head_inv_def sound_def)
  from committed.hyps(5) journal_append_cases [OF this d, of fault phys "head_of j"] have j': "j' = appended j cs"
    by (auto split: sum.splits option.splits)
  show ?case unfolding j'
  proof (rule take_over_ok)
    show "prepared ?a (base_graph ?a h2) (put_cells cs ?x) nx"
      using h2(3) unfolding g2 put_delta [OF d] .
  qed (use h2 committed.hyps assms in \<open>auto simp: j'\<close>)
qed

section \<open>Properties\<close>

text \<open>
  C22: A published head holds the graph of the journal's last revision. Whether it was opened lazily
  or densely, however often it was read, counted, searched and warmed, and whether its commits
  layered their deltas, copied the mapping, overlaid it or rebased the head on a new reader that
  took the old cache over, it answers every lookup from that graph, enumerates it without
  duplicates, and knows its size.
\<close>

theorem published_heads_hold_the_graph:
  assumes "persistent_map tr" "head_life tr sz sqlite j m h b"
  shows "snd (map_get (acc tr sz j) m k h) = Inr (state_at (j_versions j) (head_of j) k) \<and>
    snd (map_contains (acc tr sz j) m k h) = Inr (state_at (j_versions j) (head_of j) k \<noteq> None) \<and>
    (\<exists>h' ks. map_ids (acc tr sz j) m h = (h', Inr ks) \<and> distinct ks \<and> set ks = dom (state_at (j_versions j) (head_of j))) \<and>
    (\<exists>h' al. map_items (acc tr sz j) m h = (h', Inr al) \<and> map_of al = state_at (j_versions j) (head_of j)) \<and>
    (\<exists>h' m'. map_len (acc tr sz j) m h = (h', Inr (m', int (card (dom (state_at (j_versions j) (head_of j)))))))"
proof -
  let ?a = "acc tr sz j"
  have ok: "live ?a h" "map_ok ?a (base_graph ?a h) m" and x: "content ?a (base_graph ?a h) m = state_at (j_versions j) (head_of j)"
    using head_life_ok [OF assms] by (auto simp: head_ok_def holds_def)
  have trie: "persistent_map (ac_trie ?a)" using assms(1) by simp
  note reads = map_get_answers [OF ok(1), of m k] map_contains_answers [OF ok(1), of m k]
    map_ids_answers [OF trie ok] map_items_answers [OF trie ok] map_len_answers [OF trie ok]
  show ?thesis
    using reads unfolding x answers_def enumerates_def holds_items_def by (intro conjI) force+
qed

lemma sample_life: "head_life dict_ops small_sizes True sample_journal
    (Lazy (new_lazy_head (acc dict_ops small_sizes sample_journal) None)) (new_head_reader 1) 0"
  using head_life.opened [OF sample_journal_ok(1), of None dict_ops small_sizes True] sample_journal_ok(2) by simp

theorem published_heads_hold_the_graph_witness:
  "snd (map_get (acc dict_ops small_sizes sample_journal) (Lazy (new_lazy_head (acc dict_ops small_sizes sample_journal) None)) ''a''
     (new_head_reader 1)) = Inr (state_at (j_versions sample_journal) 1 ''a'')"
  using published_heads_hold_the_graph [OF dict_map.persistent_map_axioms sample_life, of "''a''"]
  by (simp add: sample_journal_ok(2))

text \<open>
  Searching a published head is exact: the identities with a prefix and the Cells with a given
  first link are exactly those of the graph of the journal's last revision, once each, on every
  prefix whose upper bound is a text.
\<close>

theorem searches_of_the_head_are_exact:
  assumes "persistent_map tr" "head_life tr sz sqlite j m h b" "texts j" "bindable p"
  shows "(\<exists>h' ks. ids_with_prefix (acc tr sz j) m p h = (h', Inr ks) \<and> distinct ks \<and>
      set ks = {k. state_at (j_versions j) (head_of j) k \<noteq> None \<and> starts_with k (encode p)}) \<and>
    (\<exists>h' cs. cells_with_link0 (acc tr sz j) m target h = (h', Inr cs) \<and> distinct cs \<and>
      set cs = {c. state_at (j_versions j) (head_of j) (cid c) = Some c \<and> link0 c = target})"
proof -
  let ?a = "acc tr sz j" and ?x = "state_at (j_versions j) (head_of j)"
  have ok: "live ?a h" "map_ok ?a (base_graph ?a h) m" and x: "content ?a (base_graph ?a h) m = ?x" and m: "\<nexists>l w. m = Loading l w"
    using head_life_ok [OF assms(1,2)] by (auto simp: head_ok_def holds_def)
  have trie: "persistent_map (ac_trie ?a)" using assms(1) by simp
  have "keyed ?x" using content_keyed [OF ok(2)] x by simp
  then have "linking ?x target = {c. ?x (cid c) = Some c \<and> link0 c = target}"
    by (auto simp: linking_def ran_def dest: keyedD)
  moreover have "{k \<in> dom ?x. starts_with k (encode p)} = {k. ?x k \<noteq> None \<and> starts_with k (encode p)}" by auto
  ultimately show ?thesis
    using ids_with_prefix_answers [OF trie ok _ assms(4) m] cells_with_link0_answers [OF trie ok m, of target] assms(3)
    unfolding x answers_def enumerates_def by (intro conjI) force+
qed

theorem searches_of_the_head_are_exact_witness:
  "(\<exists>h ks. ids_with_prefix (acc dict_ops small_sizes sample_journal)
       (Lazy (new_lazy_head (acc dict_ops small_sizes sample_journal) None)) [97] (new_head_reader 1) = (h, Inr ks) \<and>
     distinct ks \<and> set ks = {k. state_at (j_versions sample_journal) 1 k \<noteq> None \<and> starts_with k ''a''})"
proof -
  have "bindable [97]" by (simp add: bindable_def prefix_upper_def scalar_def MAX_CODE_POINT_def)
  moreover have "encode [97] = ''a''" by code_simp
  ultimately show ?thesis
    using searches_of_the_head_are_exact [OF dict_map.persistent_map_axioms sample_life sample_texts, of "[97]"]
    by (simp add: sample_journal_ok(2))
qed

text \<open>
  C23: Stepping a lazy head back one revision. Given the earlier versions of the Cells a revision
  replaced and the identities it created, the stepped map holds exactly the graph with those put
  back and removed, and its size stays exact; the head it came from is untouched.
\<close>

theorem step_back_is_exact:
  assumes "persistent_map tr" "head_life tr sz sqlite j (Lazy l) h b"
    "writes restored" "set created \<inter> fst ` set restored = {}"
    "set created \<union> fst ` set restored \<subseteq> dom (state_at (j_versions j) (head_of j))"
  shows "\<exists>h' l'. with_step_back (acc tr sz j) l restored created h = (h', Inr l') \<and>
    snd (lazy_get (acc tr sz j) l' k h') =
      Inr (((state_at (j_versions j) (head_of j) ++ map_of restored) |` (- set created)) k) \<and>
    (\<exists>h'' l''. lazy_len (acc tr sz j) l' h' = (h'', Inr (l'', int (card (dom (state_at (j_versions j) (head_of j)) - set created)))))"
proof -
  let ?a = "acc tr sz j" and ?x = "state_at (j_versions j) (head_of j)"
  have ok: "live ?a h" "lazy_ok ?a (base_graph ?a h) l" and x: "lazy_content ?a (base_graph ?a h) l = ?x"
    using head_life_ok [OF assms(1,2)] by (auto simp: head_ok_def holds_def)
  have trie: "persistent_map (ac_trie ?a)" using assms(1) by simp
  have fin: "finite (dom (lazy_content ?a (base_graph ?a h) l))" unfolding x by (rule finite_dom_state_at)
  obtain h' l' where l': "with_step_back ?a l restored created h = (h', Inr l')" "live ?a h'" "hr_base h' = hr_base h"
    "lazy_ok ?a (base_graph ?a h) l'" "lazy_content ?a (base_graph ?a h) l' = (?x ++ map_of restored) |` (- set created)"
    using with_step_back_answers [OF trie ok _ _ _ _ fin, of restored created] assms(3-5) unfolding x
    by (auto simp: answers_def writes_def Un_commute)
  have g: "base_graph ?a h' = base_graph ?a h" by (rule base_graph_same [OF l'(3)])
  have "dom ((?x ++ map_of restored) |` (- set created)) = dom ?x - set created"
    using assms(5) unfolding dom_restrict dom_map_add dom_map_of_conv_image_fst by auto
  with lazy_len_answers [OF l'(2), of l'] lazy_get_answers [OF l'(2), of l' k] l' show ?thesis
    unfolding g by (auto simp: answers_def)
qed

theorem step_back_is_exact_witness:
  "\<exists>h' l'. with_step_back (acc dict_ops small_sizes sample_journal) (new_lazy_head (acc dict_ops small_sizes sample_journal) None)
      [(''a'', \<lparr>cid = ''a'', link0 = ''a'', link1 = NULL_CELL_ID, atom = ''x''\<rparr>)] [''b''] (new_head_reader 1) = (h', Inr l') \<and>
    snd (lazy_get (acc dict_ops small_sizes sample_journal) l' ''b'' h') = Inr None"
proof -
  let ?d = "[(''a'', \<lparr>cid = ''a'', link0 = ''a'', link1 = NULL_CELL_ID, atom = ''x''\<rparr>)]"
  have "writes ?d" by (simp add: writes_def)
  moreover have "set [''b''] \<inter> fst ` set ?d = {}" by simp
  moreover have "set [''b''] \<union> fst ` set ?d \<subseteq> dom (state_at (j_versions sample_journal) (head_of sample_journal))"
    by (simp add: sample_journal_ok sample_versions sample_cells_def state_at_def null_cell_def NULL_CELL_ID_def domIff)
  ultimately show ?thesis
    using step_back_is_exact [OF dict_map.persistent_map_axioms sample_life, of ?d "[''b'']" "''b''"] by auto
qed

end
