(* ===== verification/PrefixProofs.thy ===== *)
theory PrefixProofs
  imports JournalLaws
begin

text \<open>
  The two fingerprints of an accepted prefix of the history (\<open>_SqliteHistoryReader\<close> in
  \<open>universal_cell.py\<close>): the count of the version rows at or before a revision, the newest row, and
  a digest of what the rows say, remembered in a file beside the journal. Version rows are
  numbered in the order they were inserted. BLAKE2b and the text \<open>repr\<close> gives a row are
  parameters; so is whether the file of proofs takes a write.
\<close>

section \<open>The rows of a prefix\<close>

type_synonym numbered_row = "nat \<times> nat \<times> cell"

definition numbered :: "(nat \<times> cell) list \<Rightarrow> numbered_row list" where
  "numbered vs = enumerate 1 vs"

definition prefix_rows :: "(nat \<times> cell) list \<Rightarrow> nat \<Rightarrow> numbered_row list" where
  "prefix_rows vs r = filter (\<lambda>(i, v, c). v \<le> r) (numbered vs)"

definition link_rows :: "(nat \<times> cell) list \<Rightarrow> nat \<Rightarrow> numbered_row list" where
  "link_rows vs r = filter (\<lambda>(i, v, c). v = r) (numbered vs)"

text \<open>\<open>SELECT COUNT(*), COALESCE(MAX(rowid), 0) \<dots> WHERE revision <= ?\<close>.\<close>

definition covered_at :: "(nat \<times> cell) list \<Rightarrow> nat \<Rightarrow> nat \<times> nat" where
  "covered_at vs r = (length (prefix_rows vs r), foldl max 0 (map fst (prefix_rows vs r)))"

section \<open>The recorded proofs\<close>

type_synonym proof_table = "(nat \<times> nat \<times> nat \<times> string) list"

definition trusted_proof :: "bool \<Rightarrow> nat \<times> nat \<Rightarrow> nat \<times> nat \<times> string \<Rightarrow> bool" where
  "trusted_proof fenced now held \<longleftrightarrow>
     (case held of (rows, newest, digest) \<Rightarrow> fenced \<and> (rows, newest) = now \<and> length digest = 64)"

definition accepted_prefix_fingerprint ::
  "(bytes \<Rightarrow> string) \<Rightarrow> (numbered_row \<Rightarrow> bytes) \<Rightarrow> bool \<Rightarrow> bool \<Rightarrow> (nat \<times> cell) list \<Rightarrow> nat \<Rightarrow> proof_table \<Rightarrow>
     proof_table \<times> (nat \<times> nat \<times> string)" where
  "accepted_prefix_fingerprint blake row_repr writable fenced vs target t =
     (let now = covered_at vs target;
          hash = (let rows = prefix_rows vs target;
                      full = (length rows, (if rows = [] then 0 else fst (last rows)), blake (concat (map row_repr rows)))
                  in (if writable then AList.update target full t else t, full))
      in case map_of t target of
           Some held \<Rightarrow> if trusted_proof fenced now held then (t, fst now, snd now, snd (snd held)) else hash
         | None \<Rightarrow> hash)"

section \<open>The chained fingerprint\<close>

definition PREFIX_CHAIN_DOMAIN :: bytes where
  "PREFIX_CHAIN_DOMAIN = ''ArchHub/prefix-chain/v2''"

definition chain_start :: string where
  "chain_start = replicate 64 CHR ''0''"

definition chain_link :: "(bytes \<Rightarrow> string) \<Rightarrow> (numbered_row \<Rightarrow> bytes) \<Rightarrow> string \<Rightarrow> numbered_row list \<Rightarrow> string" where
  "chain_link blake row_repr previous rows = blake (PREFIX_CHAIN_DOMAIN @ previous @ concat (map row_repr rows))"

datatype proof_write = BeginBatch | InsertLink nat | CommitBatch

text \<open>
  The nearest recorded link below the target that still stands, among the 64 nearest.
\<close>

definition nearest_link :: "bool \<Rightarrow> (nat \<times> cell) list \<Rightarrow> nat \<Rightarrow> proof_table \<Rightarrow> (nat \<times> string) option" where
  "nearest_link fenced vs target t =
     (if fenced
      then map_option (\<lambda>(r, n, w, d). (r, d))
        (find (\<lambda>(r, held). trusted_proof True (covered_at vs r) held)
          (take 64 (rev (sort_key fst (filter (\<lambda>(r, held). r < target) t)))))
      else None)"

text \<open>
  One link per revision. The batch of writes is open while it is \<open>Some\<close>; a write that fails rolls
  it back and no more is recorded.
\<close>

fun chain_links ::
  "(bytes \<Rightarrow> string) \<Rightarrow> (numbered_row \<Rightarrow> bytes) \<Rightarrow> (proof_write \<Rightarrow> bool) \<Rightarrow> (nat \<times> cell) list \<Rightarrow> nat list \<Rightarrow>
     string \<Rightarrow> nat \<Rightarrow> nat \<Rightarrow> proof_table option \<Rightarrow> string \<times> proof_table option" where
  "chain_links blake row_repr fault vs [] previous rows newest batch = (previous, batch)"
| "chain_links blake row_repr fault vs (r # rs) previous rows newest batch =
     (let here = link_rows vs r;
          previous' = chain_link blake row_repr previous here;
          rows' = rows + length here;
          newest' = foldl (\<lambda>n i. if n < i then i else n) newest (map fst here);
          batch' = (case batch of None \<Rightarrow> None
            | Some t \<Rightarrow> if fault (InsertLink r) then None else Some (AList.update r (rows', newest', previous') t))
      in chain_links blake row_repr fault vs rs previous' rows' newest' batch')"

definition chained_prefix_fingerprint ::
  "(bytes \<Rightarrow> string) \<Rightarrow> (numbered_row \<Rightarrow> bytes) \<Rightarrow> (proof_write \<Rightarrow> bool) \<Rightarrow> bool \<Rightarrow> (nat \<times> cell) list \<Rightarrow> nat \<Rightarrow>
     proof_table \<Rightarrow> proof_table \<times> (nat \<times> nat \<times> string)" where
  "chained_prefix_fingerprint blake row_repr fault fenced vs target t =
     (let now = covered_at vs target;
          chain =
            (let link = nearest_link fenced vs target t;
                 start = (case link of None \<Rightarrow> 0 | Some (r, d) \<Rightarrow> Suc r);
                 previous = (case link of None \<Rightarrow> chain_start | Some (r, d) \<Rightarrow> d);
                 (rows, newest) = (case link of None \<Rightarrow> (0, 0) | Some (r, d) \<Rightarrow> covered_at vs r);
                 (digest, batch) = chain_links blake row_repr fault vs [start ..< Suc target] previous rows newest
                   (if fault BeginBatch then None else Some t)
             in ((case batch of Some t' \<Rightarrow> if fault CommitBatch then t else t' | None \<Rightarrow> t),
                 (fst now, snd now, digest)))
      in case map_of t target of
           Some held \<Rightarrow> if trusted_proof fenced now held then (t, (fst now, snd now, snd (snd held))) else chain
         | None \<Rightarrow> chain)"

section \<open>The digests recomputed\<close>

definition prefix_digest :: "(bytes \<Rightarrow> string) \<Rightarrow> (numbered_row \<Rightarrow> bytes) \<Rightarrow> (nat \<times> cell) list \<Rightarrow> nat \<Rightarrow> string" where
  "prefix_digest blake row_repr vs r = blake (concat (map row_repr (prefix_rows vs r)))"

fun chained_digest :: "(bytes \<Rightarrow> string) \<Rightarrow> (numbered_row \<Rightarrow> bytes) \<Rightarrow> (nat \<times> cell) list \<Rightarrow> nat \<Rightarrow> string" where
  "chained_digest blake row_repr vs 0 = chain_link blake row_repr chain_start (link_rows vs 0)"
| "chained_digest blake row_repr vs (Suc r) =
     chain_link blake row_repr (chained_digest blake row_repr vs r) (link_rows vs (Suc r))"

text \<open>
  A proof is sound when it covers no more rows than there are, and is the digest recomputed when it
  covers them all.
\<close>

definition proofs_ok :: "((nat \<times> cell) list \<Rightarrow> nat \<Rightarrow> string) \<Rightarrow> (nat \<times> cell) list \<Rightarrow> proof_table \<Rightarrow> bool" where
  "proofs_ok digest vs = entries_ok (\<lambda>r (n, w, d). n \<le> fst (covered_at vs r) \<and>
     (n = fst (covered_at vs r) \<longrightarrow> d = digest vs r))"

lemma proofs_ok_empty [simp]: "proofs_ok digest vs []"
  by (simp add: proofs_ok_def)

lemma proofs_ok_update:
  "proofs_ok digest vs t \<Longrightarrow> n = fst (covered_at vs r) \<Longrightarrow> d = digest vs r \<Longrightarrow>
     proofs_ok digest vs (AList.update r (n, w, d) t)"
  unfolding proofs_ok_def by (rule entries_ok_update) simp_all

lemma trusted_proof_right:
  assumes "proofs_ok digest vs t" "(r, held) \<in> set t" "trusted_proof fenced (covered_at vs r) held"
  shows "snd (snd held) = digest vs r"
proof -
  obtain n w d where held: "held = (n, w, d)" by (cases held) auto
  have "map_of t r = Some held" using assms(1,2) by (intro map_of_is_SomeI) (auto simp: proofs_ok_def entries_ok_def)
  from entries_okD [OF assms(1) [unfolded proofs_ok_def] this] assms(3) show ?thesis
    by (cases "covered_at vs r") (auto simp: held trusted_proof_def)
qed

lemma numbered_append: "numbered (vs @ new) = numbered vs @ enumerate (Suc (length vs)) new"
  by (simp add: numbered_def enumerate_append_eq)

lemma prefix_rows_append:
  "prefix_rows (vs @ new) r = prefix_rows vs r @ filter (\<lambda>(i, v, c). v \<le> r) (enumerate (Suc (length vs)) new)"
  by (simp add: prefix_rows_def numbered_append)

lemma covered_grows: "fst (covered_at vs r) \<le> fst (covered_at (vs @ new) r)"
  by (simp add: covered_at_def prefix_rows_append)

lemma covered_same:
  assumes "fst (covered_at (vs @ new) r) = fst (covered_at vs r)"
  shows "prefix_rows (vs @ new) r = prefix_rows vs r"
    and "r' \<le> r \<Longrightarrow> link_rows (vs @ new) r' = link_rows vs r'"
proof -
  have none: "filter (\<lambda>(i, v, c). v \<le> r) (enumerate (Suc (length vs)) new) = []"
    using assms by (simp add: covered_at_def prefix_rows_append)
  then show "prefix_rows (vs @ new) r = prefix_rows vs r" by (simp add: prefix_rows_append)
  show "link_rows (vs @ new) r' = link_rows vs r'" if "r' \<le> r"
  proof -
    have "filter (\<lambda>(i, v, c). v = r') (enumerate (Suc (length vs)) new) = []"
      using none that by (auto simp: filter_empty_conv)
    then show ?thesis by (simp add: link_rows_def numbered_append)
  qed
qed

lemma chained_digest_same:
  "(\<And>r'. r' \<le> r \<Longrightarrow> link_rows vs' r' = link_rows vs r') \<Longrightarrow> chained_digest blake row_repr vs' r = chained_digest blake row_repr vs r"
  by (induction r) auto

text \<open>Appending rows keeps every recorded proof sound.\<close>

lemma proofs_ok_append:
  assumes "proofs_ok digest vs t"
    "\<And>r. fst (covered_at (vs @ new) r) = fst (covered_at vs r) \<Longrightarrow> digest (vs @ new) r = digest vs r"
  shows "proofs_ok digest (vs @ new) t"
proof -
  have "case held of (n, w, d) \<Rightarrow> n \<le> fst (covered_at (vs @ new) r) \<and> (n = fst (covered_at (vs @ new) r) \<longrightarrow> d = digest (vs @ new) r)"
    if "map_of t r = Some held" for r held
    using entries_okD [OF assms(1) [unfolded proofs_ok_def] that] assms(2) [of r] covered_grows [of vs r new]
    by (auto split: prod.splits)
  then show ?thesis using assms(1) by (auto simp: proofs_ok_def entries_ok_def)
qed

section \<open>Both fingerprints are the digests recomputed\<close>

lemma foldl_max_sorted: "sorted_wrt (<) (n # xs) \<Longrightarrow> foldl max n xs = (if xs = [] then n else last xs)" for n :: nat
  by (induction xs arbitrary: n) (auto simp: max_def)

lemma newest_row:
  "foldl max 0 (map fst (prefix_rows vs r)) = (if prefix_rows vs r = [] then 0 else fst (last (prefix_rows vs r)))"
proof -
  have "sorted_wrt (<) (map fst (numbered vs))" by (simp add: numbered_def del: upt_Suc)
  then have "sorted_wrt (<) (map fst (prefix_rows vs r))"
    unfolding prefix_rows_def sorted_wrt_map by (rule sorted_wrt_filter)
  moreover have "\<forall>i \<in> set (map fst (prefix_rows vs r)). 0 < i"
    by (auto simp: prefix_rows_def numbered_def in_set_enumerate_eq)
  ultimately have "sorted_wrt (<) (0 # map fst (prefix_rows vs r))" by simp
  from foldl_max_sorted [OF this] show ?thesis by (simp add: last_map)
qed

lemma accepted_ok:
  assumes "proofs_ok (prefix_digest blake row_repr) vs t"
  shows "snd (accepted_prefix_fingerprint blake row_repr writable fenced vs r t) =
      (fst (covered_at vs r), snd (covered_at vs r), prefix_digest blake row_repr vs r) \<and>
    proofs_ok (prefix_digest blake row_repr) vs (fst (accepted_prefix_fingerprint blake row_repr writable fenced vs r t))"
proof (cases "\<exists>held. map_of t r = Some held \<and> trusted_proof fenced (covered_at vs r) held")
  case True
  then obtain held where held: "map_of t r = Some held" "trusted_proof fenced (covered_at vs r) held" by blast
  with trusted_proof_right [OF assms map_of_SomeD held(2)] assms show ?thesis
    by (simp add: accepted_prefix_fingerprint_def Let_def)
next
  case False
  let ?full = "(length (prefix_rows vs r), (if prefix_rows vs r = [] then 0 else fst (last (prefix_rows vs r))),
    blake (concat (map row_repr (prefix_rows vs r))))"
  have "accepted_prefix_fingerprint blake row_repr writable fenced vs r t =
      (if writable then AList.update r ?full t else t, ?full)"
    using False by (auto simp: accepted_prefix_fingerprint_def Let_def split: option.split)
  moreover have "proofs_ok (prefix_digest blake row_repr) vs (AList.update r ?full t)"
    by (rule proofs_ok_update [OF assms]) (simp_all add: covered_at_def prefix_digest_def)
  ultimately show ?thesis using assms by (simp add: covered_at_def newest_row prefix_digest_def)
qed

definition previous_link :: "(bytes \<Rightarrow> string) \<Rightarrow> (numbered_row \<Rightarrow> bytes) \<Rightarrow> (nat \<times> cell) list \<Rightarrow> nat \<Rightarrow> string" where
  "previous_link blake row_repr vs r = (case r of 0 \<Rightarrow> chain_start | Suc q \<Rightarrow> chained_digest blake row_repr vs q)"

definition rows_before :: "(nat \<times> cell) list \<Rightarrow> nat \<Rightarrow> nat" where
  "rows_before vs r = length (filter (\<lambda>(i, v, c). v < r) (numbered vs))"

lemma rows_before_step: "rows_before vs r + length (link_rows vs r) = fst (covered_at vs r)"
proof -
  have "length (filter (\<lambda>(i, v, c). v < r) xs) + length (filter (\<lambda>(i, v, c). v = r) xs) = length (filter (\<lambda>(i, v, c). v \<le> r) xs)"
    for xs :: "numbered_row list" by (induction xs) auto
  then show ?thesis by (simp add: rows_before_def link_rows_def covered_at_def prefix_rows_def)
qed

lemma rows_before_Suc: "rows_before vs (Suc r) = fst (covered_at vs r)"
  by (simp add: rows_before_def covered_at_def prefix_rows_def less_Suc_eq_le)

lemma rows_before_0 [simp]: "rows_before vs 0 = 0"
  by (simp add: rows_before_def)

lemma chain_links_ok:
  assumes "\<forall>t. batch = Some t \<longrightarrow> proofs_ok (chained_digest blake row_repr) vs t"
  shows "fst (chain_links blake row_repr fault vs [r ..< r + n] (previous_link blake row_repr vs r) (rows_before vs r) w batch) =
      previous_link blake row_repr vs (r + n) \<and>
    (\<forall>t. snd (chain_links blake row_repr fault vs [r ..< r + n] (previous_link blake row_repr vs r) (rows_before vs r) w batch) = Some t \<longrightarrow>
      proofs_ok (chained_digest blake row_repr) vs t)"
  using assms
proof (induction n arbitrary: r w batch)
  case (Suc n)
  let ?d = "chain_link blake row_repr (previous_link blake row_repr vs r) (link_rows vs r)"
  have d: "?d = chained_digest blake row_repr vs r" by (cases r) (simp_all add: previous_link_def)
  then have prev: "?d = previous_link blake row_repr vs (Suc r)" by (simp add: previous_link_def)
  have rows: "rows_before vs r + length (link_rows vs r) = rows_before vs (Suc r)"
    by (simp add: rows_before_step rows_before_Suc)
  define w' where "w' = foldl (\<lambda>n i. if n < i then i else n) w (map fst (link_rows vs r))"
  define batch' where "batch' = (case batch of None \<Rightarrow> None
    | Some t \<Rightarrow> if fault (InsertLink r) then None else Some (AList.update r (rows_before vs (Suc r), w', ?d) t))"
  have "proofs_ok (chained_digest blake row_repr) vs (AList.update r (rows_before vs (Suc r), w', ?d) t)"
    if "batch = Some t" for t
    using Suc.prems that by (intro proofs_ok_update) (simp_all add: d rows_before_Suc)
  then have "\<forall>t. batch' = Some t \<longrightarrow> proofs_ok (chained_digest blake row_repr) vs t"
    by (auto simp: batch'_def split: option.splits if_splits)
  note IH = Suc.IH [OF this, of "Suc r" w', folded prev]
  have list: "[r ..< r + Suc n] = r # [Suc r ..< Suc r + n]" by (simp add: upt_conv_Cons del: upt_Suc)
  have step: "chain_links blake row_repr fault vs [r ..< r + Suc n] (previous_link blake row_repr vs r) (rows_before vs r) w batch =
      chain_links blake row_repr fault vs [Suc r ..< Suc r + n] ?d (rows_before vs (Suc r)) w' batch'"
    unfolding list chain_links.simps Let_def rows w'_def batch'_def ..
  from IH show ?case unfolding step unfolding add_Suc add_Suc_right .
qed (use assms in simp)

lemma find_SomeD: "find P xs = Some x \<Longrightarrow> x \<in> set xs \<and> P x"
  by (induction xs) (auto split: if_splits)

lemma nearest_link_right:
  assumes "proofs_ok (chained_digest blake row_repr) vs t" "nearest_link fenced vs target t = Some (r, d)"
  shows "r < target" "d = chained_digest blake row_repr vs r"
proof -
  from assms(2) obtain n w where f: "find (\<lambda>(r, held). trusted_proof True (covered_at vs r) held)
      (take 64 (rev (sort_key fst (filter (\<lambda>(r, held). r < target) t)))) = Some (r, n, w, d)" "fenced"
    by (auto simp: nearest_link_def split: if_splits)
  then have "(r, n, w, d) \<in> set (take 64 (rev (sort_key fst (filter (\<lambda>(r, held). r < target) t))))"
    and trusted: "trusted_proof True (covered_at vs r) (n, w, d)"
    using find_SomeD [OF f(1)] by simp_all
  then have "(r, n, w, d) \<in> set (filter (\<lambda>(r, held). r < target) t)" by (auto dest: in_set_takeD)
  then have "(r, n, w, d) \<in> set t" "r < target" by auto
  with trusted_proof_right [OF assms(1) this(1) trusted] show "r < target" "d = chained_digest blake row_repr vs r" by simp_all
qed

lemma chained_ok:
  assumes "proofs_ok (chained_digest blake row_repr) vs t"
  shows "snd (chained_prefix_fingerprint blake row_repr fault fenced vs target t) =
      (fst (covered_at vs target), snd (covered_at vs target), chained_digest blake row_repr vs target) \<and>
    proofs_ok (chained_digest blake row_repr) vs (fst (chained_prefix_fingerprint blake row_repr fault fenced vs target t))"
proof (cases "\<exists>held. map_of t target = Some held \<and> trusted_proof fenced (covered_at vs target) held")
  case True
  then obtain held where held: "map_of t target = Some held" "trusted_proof fenced (covered_at vs target) held" by blast
  with trusted_proof_right [OF assms map_of_SomeD held(2)] assms show ?thesis
    by (simp add: chained_prefix_fingerprint_def Let_def)
next
  case False
  define link where "link = nearest_link fenced vs target t"
  define start where "start = (case link of None \<Rightarrow> 0 | Some (r, d) \<Rightarrow> Suc r)"
  define w where "w = (case link of None \<Rightarrow> 0 | Some (r, d) \<Rightarrow> snd (covered_at vs r))"
  have le: "start \<le> Suc target" and prev: "(case link of None \<Rightarrow> chain_start | Some (r, d) \<Rightarrow> d) = previous_link blake row_repr vs start"
    and rows: "(case link of None \<Rightarrow> (0, 0) | Some (r, d) \<Rightarrow> covered_at vs r) = (rows_before vs start, w)"
    using nearest_link_right [OF assms, of fenced target]
    by (auto simp: start_def w_def link_def previous_link_def rows_before_Suc prod_eq_iff split: option.split)
  define out where "out = chain_links blake row_repr fault vs [start ..< Suc target] (previous_link blake row_repr vs start)
    (rows_before vs start) w (if fault BeginBatch then None else Some t)"
  obtain n where n: "Suc target = start + n" using le le_Suc_ex by blast
  have "\<forall>t'. (if fault BeginBatch then None else Some t) = Some t' \<longrightarrow> proofs_ok (chained_digest blake row_repr) vs t'"
    using assms by simp
  note links = chain_links_ok [OF this, of fault start n w, folded n, folded out_def]
  have out: "fst out = chained_digest blake row_repr vs target"
    "\<forall>t. snd out = Some t \<longrightarrow> proofs_ok (chained_digest blake row_repr) vs t"
    using links by (simp_all add: previous_link_def)
  have "chained_prefix_fingerprint blake row_repr fault fenced vs target t =
      ((case snd out of Some t' \<Rightarrow> if fault CommitBatch then t else t' | None \<Rightarrow> t),
       (fst (covered_at vs target), snd (covered_at vs target), fst out))"
    using False
    unfolding chained_prefix_fingerprint_def Let_def link_def [symmetric] start_def [symmetric] prev rows prod.case out_def [symmetric]
    by (auto simp: split_beta split: option.split)
  with out assms show ?thesis by (auto split: option.split)
qed

section \<open>Properties\<close>

text \<open>
  The file of proofs lives beside a history that is only appended to: fingerprints are asked for at
  any revision, with any writes to the file failing and the fence seen or not.
\<close>

inductive proof_life :: "(bytes \<Rightarrow> string) \<Rightarrow> (numbered_row \<Rightarrow> bytes) \<Rightarrow> (nat \<times> cell) list \<Rightarrow> proof_table \<Rightarrow> proof_table \<Rightarrow> bool"
  for blake row_repr where
  fresh: "proof_life blake row_repr vs [] []"
| grown: "proof_life blake row_repr vs t u \<Longrightarrow> proof_life blake row_repr (vs @ new) t u"
| accepted: "proof_life blake row_repr vs t u \<Longrightarrow>
    proof_life blake row_repr vs (fst (accepted_prefix_fingerprint blake row_repr writable fenced vs r t)) u"
| chained: "proof_life blake row_repr vs t u \<Longrightarrow>
    proof_life blake row_repr vs t (fst (chained_prefix_fingerprint blake row_repr fault fenced vs r u))"

lemma proof_life_ok:
  "proof_life blake row_repr vs t u \<Longrightarrow> proofs_ok (prefix_digest blake row_repr) vs t \<and> proofs_ok (chained_digest blake row_repr) vs u"
proof (induction rule: proof_life.induct)
  case (grown vs t u new)
  have "prefix_digest blake row_repr (vs @ new) r = prefix_digest blake row_repr vs r"
    "chained_digest blake row_repr (vs @ new) r = chained_digest blake row_repr vs r"
    if "fst (covered_at (vs @ new) r) = fst (covered_at vs r)" for r
    using covered_same [OF that] by (auto simp: prefix_digest_def intro: chained_digest_same)
  with grown.IH show ?case by (auto intro: proofs_ok_append)
qed (auto simp: accepted_ok chained_ok)

text \<open>
  C24: The prefix fingerprints are exact. Whatever was remembered in the file of proofs, whatever was
  appended since, and whichever writes to it failed, both fingerprints answer with the count of
  the rows at or before the revision, the newest of them, and the digest recomputed from those
  rows, with every link of the chained one computed from the start.
\<close>

theorem prefix_fingerprints_are_exact:
  assumes "proof_life blake row_repr vs t u"
  shows "snd (accepted_prefix_fingerprint blake row_repr writable fenced vs r t) =
      (length (prefix_rows vs r), foldl max 0 (map fst (prefix_rows vs r)), blake (concat (map row_repr (prefix_rows vs r)))) \<and>
    snd (chained_prefix_fingerprint blake row_repr fault fenced vs r u) =
      (length (prefix_rows vs r), foldl max 0 (map fst (prefix_rows vs r)),
       fst (chain_links blake row_repr (\<lambda>_. True) vs [0 ..< Suc r] chain_start 0 0 None))"
proof -
  have "fst (chain_links blake row_repr (\<lambda>_. True) vs [0 ..< 0 + Suc r] chain_start 0 0 None) = chained_digest blake row_repr vs r"
    using chain_links_ok [of None blake row_repr vs "\<lambda>_. True" 0 "Suc r" 0]
    by (simp add: previous_link_def del: upt_Suc)
  then show ?thesis
    using accepted_ok [of blake row_repr vs t writable fenced r] chained_ok [of blake row_repr vs u fault fenced r]
      proof_life_ok [OF assms]
    by (simp add: covered_at_def prefix_digest_def del: upt_Suc)
qed

theorem prefix_fingerprints_are_exact_witness:
  "\<exists>u. snd (chained_prefix_fingerprint (\<lambda>b. replicate 64 CHR ''a'') (\<lambda>_. []) (\<lambda>_. False) True [(0, null_cell), (1, null_cell)] 0 u) =
     (1, 1, replicate 64 CHR ''a'') \<and> u \<noteq> []"
proof -
  let ?b = "\<lambda>b :: bytes. replicate 64 CHR ''a''" and ?r = "\<lambda>_ :: numbered_row. [] :: bytes"
  let ?u = "fst (chained_prefix_fingerprint ?b ?r (\<lambda>_. False) True [(0, null_cell)] 0 [])"
  have "proof_life ?b ?r ([(0, null_cell)] @ [(1, null_cell)]) [] ?u"
    by (intro proof_life.intros)
  from prefix_fingerprints_are_exact [OF this, where r = 0 and fault = "\<lambda>_. False" and fenced = True]
  have "snd (chained_prefix_fingerprint ?b ?r (\<lambda>_. False) True [(0, null_cell), (1, null_cell)] 0 ?u) = (1, 1, replicate 64 CHR ''a'')"
    by (simp add: prefix_rows_def numbered_def Let_def chain_link_def)
  moreover have "?u \<noteq> []" by (simp add: chained_prefix_fingerprint_def nearest_link_def Let_def)
  ultimately show ?thesis by blast
qed

end
