(* ===== verification/Migration.thy ===== *)
theory Migration
  imports PastProps Match
begin

text \<open>
  No revision repeats a version: a commit drops the replacements that change nothing, so every row
  of a history differs from what its identity held one revision before. It follows that a history
  can be replayed, and so that \<open>migrate_cell_history\<close> copies it exactly.
\<close>

section \<open>Histories without repetition\<close>

definition effective :: "version_row list \<Rightarrow> bool" where
  "effective vs \<longleftrightarrow> (\<forall>(v, c) \<in> set vs. 0 < v \<longrightarrow> state_at vs (v - 1) (cid c) \<noteq> Some c)"

lemma effective_appended:
  assumes j: "journal_ok j" and old: "effective (j_versions j)"
    and new: "\<forall>c \<in> set d. state_at (j_versions j) (head_of j) (cid c) \<noteq> Some c"
  shows "effective (j_versions (appended j d))"
  unfolding effective_def
proof clarify
  fix v c assume row: "(v, c) \<in> set (j_versions (appended j d))" and v: "0 < v"
    and same: "state_at (j_versions (appended j d)) (v - 1) (cid c) = Some c"
  show False
  proof (cases "(v, c) \<in> set (j_versions j)")
    case True
    then have "v \<le> head_of j" by (rule journal_okD(3) [OF j])
    with True old v same appended_old_state [of "v - 1" j d] show False by (force simp: effective_def)
  next
    case False
    with row have "v = Suc (head_of j)" "c \<in> set d" by (auto simp: appended_def)
    with new same appended_old_state [of "head_of j" j d] show False by simp
  qed
qed

lemma commit_plan_new: "commit_plan base cr rs = Inr ch \<Longrightarrow> \<forall>c \<in> set (cr @ ch). base (cid c) \<noteq> Some c"
  by (auto simp: commit_plan_Inr changes_of_def)

lemma commit_effective:
  assumes inv: "store_inv sha shake s j" and env: "env_sha env = sha" "env_shake env = shake" "\<And>x. length (sha x) = 32"
    and run: "commit env n create replace (c, s) = ((c', s'), res)" and eff: "effective (j_versions j)"
  shows "effective (history_log s')"
proof -
  note rep = store_invD(1) [OF inv]
  note log = represents_history(1) [OF rep] and jok = representsD(1) [OF rep]
  from commit_shape [OF run] show ?thesis
  proof
    assume "s' = s" with log eff show ?thesis by simp
  next
    assume "attempted env create replace s s' res"
    then obtain cr rs ch s1 r1 decl where plan: "commit_plan (st_cells s) cr rs = Inr ch" and ne: "cr @ ch \<noteq> []"
      and links: "links_resolve (st_cells s) (cr @ ch)"
      and app: "append_to_journal env (st_revision s) (cr @ ch) s = (s1, r1)"
      and out: "case r1 of Inl e \<Rightarrow> s' = s1 | Inr _ \<Rightarrow> publish env decl cr ch s1 = (s', res)"
      unfolding attempted_def by blast
    have rows: "commit_rows_ok (st_cells s) (cr @ ch)"
      using commit_plan_rows [OF represents_graph_ok [OF rep] plan] ne links by auto
    have good: "effective (j_versions (appended j (cr @ ch)))" if "st_revision s = head_of j"
      using effective_appended [OF jok eff] commit_plan_new [OF plan] st_cells_at [OF rep that] by simp
    show ?thesis
    proof (cases "st_journal s")
      case None
      then have "st_revision s = head_of j" "s1 = s" "r1 = Inr ()"
        using representsD(6) [OF rep None] app by (auto simp: append_to_journal_def)
      with publish_memory [OF rep None rows, of env decl] out represents_history(1) good show ?thesis by auto
    next
      case (Some j0)
      with representsD(5) [OF rep] have sj: "st_journal s = Some j" by simp
      from append_to_journal_cases [OF rep sj env(1,3) rows app]
      consider "st_revision s = head_of j" "r1 = Inr ()" "s1 = s\<lparr>st_journal := Some (appended j (cr @ ch))\<rparr>"
        | e where "r1 = Inl e" "s1 = s"
        | e where "st_revision s = head_of j" "r1 = Inl e" "s1 = s\<lparr>st_journal := Some (appended j (cr @ ch))\<rparr>"
        | e j' where "r1 = Inl e" "represents sha s1 j'" "j_versions j' = j_versions j"
        | e j' where "r1 = Inl e" "represents sha s1 j'" "st_revision s = head_of j" "j_versions j' = j_versions (appended j (cr @ ch))"
        by blast
      then show ?thesis
      proof cases
        case 1
        obtain t rec where t: "publish env decl cr ch s1 = (t, Inr (Suc (head_of j)))"
          "represents sha t (appended j (cr @ ch)\<lparr>j_recorded := rec\<rparr>)"
          using publish_journal [OF rep sj 1(1) rows env(1,3), of decl] 1(3) by auto
        with out 1(2) have "s' = t" by simp
        with represents_history(1) [OF t(2)] good 1(1) show ?thesis by simp
      next
        case 2 with out log eff show ?thesis by simp
      next
        case 3 with out good show ?thesis by (simp add: history_log_def)
      next
        case 4 with out eff represents_history(1) [OF 4(2)] show ?thesis by simp
      next
        case 5 with out good represents_history(1) [OF 5(2)] show ?thesis by simp
      qed
    qed
  qed
qed

lemma run_ops_effective:
  assumes sha: "\<And>x. length (sha x) = 32"
  shows "store_inv sha shake s j \<Longrightarrow> effective (j_versions j) \<Longrightarrow> effective (history_log (run_ops sha shake ops s))"
proof (induction ops arbitrary: s j)
  case Nil
  then show ?case using store_inv_log(1) by simp
next
  case (Cons op ops)
  obtain k where k: "store_inv sha shake (run_op sha shake op s) k"
    "(\<forall>env c n cr rp. op \<noteq> Commit env c n cr rp) \<longrightarrow> j_versions k = j_versions j"
    using run_op_inv [OF Cons.prems(1) sha] by blast
  have "effective (j_versions k)"
  proof (cases "\<exists>env c n cr rp. op = Commit env c n cr rp")
    case True
    then obtain env c n cr rp where op: "op = Commit env c n cr rp" by blast
    obtain c' s' res where run: "commit (hashed sha shake env) n cr rp (c, s) = ((c', s'), res)"
      by (metis surj_pair)
    from commit_effective [OF Cons.prems(1) _ _ sha run Cons.prems(2)] store_inv_log(1) [OF k(1)] run
    show ?thesis by (simp add: op)
  next
    case False
    with k(2) Cons.prems(2) show ?thesis by auto
  qed
  from Cons.IH [OF k(1) this] show ?case by simp
qed

lemma reachable_effective:
  assumes "reachable sha shake s" "\<And>x. length (sha x) = 32"
  shows "effective (history_log s)"
proof -
  obtain durable ops where s: "s = run_ops sha shake ops (new_store sha durable)"
    using assms(1) by (auto simp: reachable_def)
  obtain j where j: "store_inv sha shake (new_store sha durable) j" "j_versions j = [(0, null_cell)]"
    using new_store_inv [where sha = sha and durable = durable and shake = shake] assms(2) by blast
  have "effective (j_versions j)" by (simp add: j(2) effective_def)
  from run_ops_effective [OF assms(2) j(1) this] show ?thesis unfolding s .
qed

section \<open>Replaying a history\<close>

lemma refusal_None: "refusal g c = (c', None) \<Longrightarrow> c' = c"
  by (auto simp: refusal_def split: option.splits if_splits)

lemma commit_ctx: "commit env n create replace (c, s) = ((c', s'), Inr r) \<Longrightarrow> c' = c"
  unfolding commit_def Let_def
  by (auto split: if_splits sum.splits prod.splits option.splits dest: refusal_None)

lemma cells_at_revision [simp]: "st_revision (fst (cells_at r ids s)) = st_revision s"
  by (simp add: cells_at_def Let_def split: option.split)

lemma same_rows_same_graph:
  assumes "unique_rows us" "unique_rows vs" "\<forall>v \<le> r. rows_of us v = rows_of vs v"
  shows "state_at us r = state_at vs r"
  using assms(3) by (induction r) (simp_all add: state_at_0 state_at_Suc assms(1,2))

lemma same_rows_same_digest:
  "\<forall>v \<le> r. rows_of us v = rows_of vs v \<Longrightarrow> chain_digest_at sha us r = chain_digest_at sha vs r"
  unfolding chain_digest_at_def by (intro arg_cong [where f = "chain_from sha zero_digest 0"] map_cong) auto

lemma sort_split:
  assumes "sorted (map cid rows)" "distinct (map cid rows)"
  shows "sort_key cid (filter P rows @ filter (\<lambda>c. \<not> P c) rows) = rows"
proof (rule sort_key_inj_key_eq)
  show "mset (filter P rows @ filter (\<lambda>c. \<not> P c) rows) = mset rows" by (simp add: mset_filter multiset_partition [symmetric])
  show "inj_on cid (set (filter P rows @ filter (\<lambda>c. \<not> P c) rows))"
    using assms(2) by (auto simp: distinct_map inj_on_def)
qed (rule assms(1))

text \<open>The destination holds the source's history up to a revision.\<close>

definition holds_prefix :: "(bytes \<Rightarrow> bytes) \<Rightarrow> (bytes \<Rightarrow> bytes) \<Rightarrow> journal \<Rightarrow> nat \<Rightarrow> store \<Rightarrow> bool" where
  "holds_prefix sha shake j r d \<longleftrightarrow> ready d \<and> st_revision d = r \<and>
     (\<exists>k. store_inv sha shake d k \<and> (\<forall>v \<le> r. rows_of (j_versions k) v = rows_of (j_versions j) v))"

text \<open>The Cells a revision wrote, against the graph below it: what a destination is asked to commit.\<close>

lemma replayed_revision:
  assumes j: "journal_ok j" and r: "Suc r \<le> head_of j" and eff: "effective (j_versions j)"
    and g: "st_cells d = state_at (j_versions j) r" and ref: "snd (refusal (st_gated d) c) = None"
    and rows: "rows = rows_of (j_versions j) (Suc r)"
    and cr: "cr = filter (\<lambda>c. st_cells d (cid c) = None) rows" and rp: "rp = filter (\<lambda>c. st_cells d (cid c) \<noteq> None) rows"
  shows "admitted d c cr rp" "changes_of (st_cells d) rp = rp" "cr @ rp \<noteq> []"
proof -
  note D = journal_okD [OF j]
  have row: "(Suc r, c) \<in> set (j_versions j)" if "c \<in> set rows" for c using that rows by simp
  have dist: "distinct (map cid rows)" unfolding rows by (rule distinct_rows_of [OF D(2)])
  have "st_cells d (cid c) \<noteq> Some c" if "c \<in> set rows" for c
    using eff row [OF that] by (force simp: effective_def g)
  then show changes: "changes_of (st_cells d) rp = rp"
    unfolding changes_of_def filter_id_conv rp by auto
  have ne: "rows \<noteq> []" using D(9) [OF r] rows by simp
  have parts: "set (cr @ rp) = set rows" by (auto simp: cr rp)
  then show ne': "cr @ rp \<noteq> []" using ne by (metis set_empty2)
  have "st_cells d k \<noteq> None \<or> k \<in> cid ` set rows" if "endpoint (j_versions j) k (Suc r)" for k
  proof -
    have "state_at (j_versions j) (Suc r) k \<noteq> None" using that by (simp add: endpoint_iff)
    then have "k \<in> dom (put_cells rows (st_cells d))" by (simp add: g rows state_at_Suc [OF D(2)] domIff del: dom_put_cells)
    then show ?thesis by auto
  qed
  then have "links_resolve (st_cells d) (cr @ rp)"
    unfolding links_resolve_def list_all_iff parts using D(7,8) row by blast
  moreover have "distinct (map cid (cr @ rp))"
    using dist by (auto simp: cr rp distinct_map_filter)
  moreover have "cid x \<noteq> [] \<and> cid x \<noteq> NULL_CELL_ID" if "x \<in> set rows" for x
    using D(4) [OF row [OF that]] D(6) [OF row [OF that]] by simp
  ultimately show "admitted d c cr rp"
    using changes ne' ref unfolding admitted_def cr rp by simp
qed

lemma replayed_commit:
  assumes j: "journal_ok j" and r: "Suc r \<le> head_of j" and eff: "effective (j_versions j)"
    and sha: "\<And>x. length (sha x) = 32" and env: "plain env"
    and d: "holds_prefix sha shake j r d" and ref: "snd (refusal (st_gated d) c) = None"
    and rows: "rows = rows_of (j_versions j) (Suc r)"
  shows "\<exists>d'. commit (hashed sha shake env) r (filter (\<lambda>c. st_cells d (cid c) = None) rows)
      (filter (\<lambda>c. st_cells d (cid c) \<noteq> None) rows) (c, d) = ((c, d'), Inr (Suc r)) \<and>
    holds_prefix sha shake j (Suc r) d' \<and> st_gated d' = st_gated d"
proof -
  let ?cr = "filter (\<lambda>c. st_cells d (cid c) = None) rows" and ?rp = "filter (\<lambda>c. st_cells d (cid c) \<noteq> None) rows"
  obtain k where k: "store_inv sha shake d k" "\<forall>v \<le> r. rows_of (j_versions k) v = rows_of (j_versions j) v"
    and rdy: "ready d" "st_revision d = r" using d by (auto simp: holds_prefix_def)
  note K = representsD [OF store_invD(1) [OF k(1)]]
  have head: "head_of k = r" using rdy store_inv_log(2) [OF k(1)] by (simp add: ready_def)
  have g: "st_cells d = state_at (j_versions j) r"
    using K(4) rdy(2) same_rows_same_graph [OF journal_okD(2) [OF K(1)] journal_okD(2) [OF j] k(2)] by simp
  note A = replayed_revision [OF j r eff g ref rows refl refl]
  obtain c' d' res where run: "commit (hashed sha shake env) r ?cr ?rp (c, d) = ((c', d'), res)" by (metis surj_pair)
  from plain_commit_effect [OF k(1) sha env rdy(1) run] A rdy(2) obtain k' where
    k': "res = Inr (Suc r)" "store_inv sha shake d' k'" "published d k (?cr @ ?rp) d' k'" by auto
  have vs: "j_versions k' = j_versions k @ map (Pair (Suc r)) (?cr @ ?rp)" "head_of k' = Suc r" "st_revision d' = Suc r"
    using k'(3) rdy(2) by (simp_all add: published_def)
  have "rows_of (j_versions k') (Suc r) = sort_key cid (?cr @ ?rp)"
    using appended_rows_of(1) [OF K(1), of "?cr @ ?rp"] head vs(1) by (simp add: appended_versions)
  also have "\<dots> = rows"
  proof (rule sort_split)
    show "sorted (map cid rows)" by (simp add: rows rows_of_def)
    show "distinct (map cid rows)" unfolding rows by (rule distinct_rows_of [OF journal_okD(2) [OF j]])
  qed
  finally have new: "rows_of (j_versions k') (Suc r) = rows" .
  have old: "rows_of (j_versions k') v = rows_of (j_versions k) v" if "v \<le> r" for v
    using appended_rows_of(2) [OF K(1), of v "?cr @ ?rp"] that head vs(1) by (simp add: appended_versions)
  have "\<forall>v \<le> Suc r. rows_of (j_versions k') v = rows_of (j_versions j) v"
    using new old k(2) rows by (auto simp: le_Suc_eq)
  moreover have flags: "st_closed d' = st_closed d \<and> st_stable_depth d' = st_stable_depth d \<and> st_gated d' = st_gated d"
    by (rule commit_flags [OF run])
  moreover have "durable_head d' = st_revision d'" using store_inv_log(2) [OF k'(2)] vs by simp
  ultimately have "holds_prefix sha shake j (Suc r) d'"
    using rdy(1) k'(2) vs(3) unfolding holds_prefix_def ready_def by auto
  with run k'(1) commit_ctx [of "hashed sha shake env" r ?cr ?rp c d c' d' "Suc r"] flags show ?thesis by auto
qed

lemma pick_filter:
  "(\<And>c. c \<in> set rows \<Longrightarrow> f (cid c) = c) \<Longrightarrow> map f (filter P (map cid rows)) = filter (\<lambda>c. P (cid c)) rows"
  by (induction rows) auto

lemma migrate_revision_ok:
  assumes src: "store_inv sha shake src j" and r: "Suc r \<le> st_revision src" and eff: "effective (j_versions j)"
    and sha: "\<And>x. length (sha x) = 32" and env: "plain env"
    and d: "holds_prefix sha shake j r d" and ref: "snd (refusal (st_gated d) c) = None"
  shows "\<exists>src' d'. migrate_revision (hashed sha shake env) (Suc r) src (c, d) = (src', (c, d'), Inr ()) \<and>
    store_inv sha shake src' j \<and> st_revision src' = st_revision src \<and>
    holds_prefix sha shake j (Suc r) d' \<and> st_gated d' = st_gated d"
proof -
  note S = representsD [OF store_invD(1) [OF src]]
  let ?rows = "rows_of (j_versions j) (Suc r)" and ?g = "state_at (j_versions j) (Suc r)"
  have head: "Suc r \<le> head_of j" using r S(3) by simp
  have in_g: "?g (cid c) = Some c" if "c \<in> set ?rows" for c
    using put_cells_in [of c ?rows] distinct_rows_of [OF journal_okD(2) [OF S(1)]] that
    unfolding state_at_Suc [OF journal_okD(2) [OF S(1)]] by blast
  have ids: "revision_changes src (Suc r) = Inr (map cid ?rows)" by (rule revision_changes_ok [OF store_invD(1) [OF src] r])
  have "set (map cid ?rows) \<subseteq> dom ?g" using in_g by auto
  then obtain src' where src': "cells_at (Suc r) (map cid ?rows) src =
      (src', Inr (map (\<lambda>k. (k, the (?g k))) (map cid ?rows)))" "store_inv sha shake src' j"
    using cells_at_ok [OF src r, of "map cid ?rows"] dedup_distinct [OF distinct_rows_of [OF journal_okD(2) [OF S(1)]], of "Suc r"]
    by auto
  have "st_revision (fst (cells_at (Suc r) (map cid ?rows) src)) = st_revision src" by simp
  then have rev: "st_revision src' = st_revision src" by (simp add: src'(1))
  have rd: "ready d" "st_revision d = r" using d by (simp_all add: holds_prefix_def)
  let ?pick = "\<lambda>ks. map (\<lambda>k. the (map_of (map (\<lambda>k. (k, the (?g k))) (map cid ?rows)) k)) ks"
  have pick: "?pick (filter P (map cid ?rows)) = filter (\<lambda>c. P (cid c)) ?rows" for P
  proof -
    have "the (map_of (map (\<lambda>k. (k, the (?g k))) (map cid ?rows)) (cid c)) = c" if "c \<in> set ?rows" for c
    proof -
      have "map_of (map (\<lambda>k. (k, the (?g k))) ks) k = (if k \<in> set ks then Some (the (?g k)) else None)" for ks k
        by (induction ks) auto
      from this [of "map cid ?rows" "cid c"] that in_g [OF that] show ?thesis by simp
    qed
    then show ?thesis by (rule pick_filter)
  qed
  obtain d' where d': "commit (hashed sha shake env) r (filter (\<lambda>c. st_cells d (cid c) = None) ?rows)
      (filter (\<lambda>c. st_cells d (cid c) \<noteq> None) ?rows) (c, d) = ((c, d'), Inr (Suc r))"
    "holds_prefix sha shake j (Suc r) d'" "st_gated d' = st_gated d"
    using replayed_commit [OF S(1) head eff sha env d ref refl] by blast
  have "migrate_revision (hashed sha shake env) (Suc r) src (c, d) = (src', (c, d'), Inr ())"
    unfolding migrate_revision_def ids src'(1) sum.case prod.case Let_def pick snd_conv
    using rd d'(1) by (simp add: store_snapshot_def ready_def)
  with src' rev d' show ?thesis by blast
qed

lemma migrate_revisions_ok:
  assumes eff: "effective (j_versions j)" and sha: "\<And>x. length (sha x) = 32" and env: "plain env"
  shows "store_inv sha shake src j \<Longrightarrow> r + n \<le> st_revision src \<Longrightarrow> holds_prefix sha shake j r d \<Longrightarrow>
    snd (refusal (st_gated d) c) = None \<Longrightarrow>
    \<exists>src' d'. migrate_revisions (hashed sha shake env) [Suc r ..< Suc (r + n)] src (c, d) = (src', (c, d'), Inr ()) \<and>
      store_inv sha shake src' j \<and> st_revision src' = st_revision src \<and> holds_prefix sha shake j (r + n) d'"
proof (induction n arbitrary: r src d)
  case (Suc n)
  obtain src1 d1 where one: "migrate_revision (hashed sha shake env) (Suc r) src (c, d) = (src1, (c, d1), Inr ())"
    "store_inv sha shake src1 j" "st_revision src1 = st_revision src"
    "holds_prefix sha shake j (Suc r) d1" "st_gated d1 = st_gated d"
    using migrate_revision_ok [OF Suc.prems(1) _ eff sha env Suc.prems(3,4)] Suc.prems(2) by auto
  obtain src2 d2 where two: "migrate_revisions (hashed sha shake env) [Suc (Suc r) ..< Suc (Suc r + n)] src1 (c, d1) =
      (src2, (c, d2), Inr ())" "store_inv sha shake src2 j" "st_revision src2 = st_revision src1"
    "holds_prefix sha shake j (Suc r + n) d2"
    using Suc.IH [OF one(2) _ one(4)] one Suc.prems(2,4) by auto
  have "[Suc r ..< Suc (r + Suc n)] = Suc r # [Suc (Suc r) ..< Suc (Suc r + n)]"
    by (simp add: upt_conv_Cons del: upt_Suc)
  then have "migrate_revisions (hashed sha shake env) [Suc r ..< Suc (r + Suc n)] src (c, d) = (src2, (c, d2), Inr ())"
    using one(1) two(1) by (simp del: upt_Suc)
  with two(2-4) one(3) show ?case by (intro exI [of _ src2] exI [of _ d2] conjI) (simp_all del: upt_Suc)
qed simp

section \<open>Properties\<close>

text \<open>
  No revision repeats a version. In every history a store can stand on, whatever commits,
  faults, transforms and reopenings produced it, each Cell a revision above genesis wrote differs
  from what its identity held one revision before.
\<close>

theorem no_revision_repeats_a_version:
  assumes "reachable sha shake s" "\<And>x. length (sha x) = 32" "(v, c) \<in> set (history_log s)" "0 < v"
  shows "graph_at s (v - 1) (cid c) \<noteq> Some c"
  using reachable_effective [OF assms(1,2)] assms(3,4) by (force simp: effective_def graph_at_def)

text \<open>A store with one revision above genesis.\<close>

definition one_cell_store :: store where
  "one_cell_store = run_ops fixed_sha fixed_sha [store_op.Commit plain_env idle_ctx 0 [one_cell] []] open_memory"

lemma one_cell_store:
  "reachable fixed_sha fixed_sha one_cell_store" "st_revision one_cell_store = 1"
  "history_log one_cell_store = [(0, null_cell), (1, one_cell)]"
proof -
  show "reachable fixed_sha fixed_sha one_cell_store"
    unfolding one_cell_store_def by (rule reachable_run [OF reachable_memory])
  obtain c' s' where run: "commit (hashed fixed_sha fixed_sha plain_env) 0 [one_cell] [] (idle_ctx, open_memory) = ((c', s'), Inr 1)"
    using one_cell_commits by (metis surj_pair snd_conv)
  then have s': "one_cell_store = s'" by (simp add: one_cell_store_def)
  have "ready open_memory" "plain plain_env" "st_revision open_memory = 0" "changes_of (st_cells open_memory) [] = []"
    by (simp_all add: ready_def open_memory_def blank_store_def durable_head_def plain_def plain_env_def changes_of_def)
  with plain_commit_effect [OF open_memory_inv fixed_sha_length _ _ run]
  obtain j' where "store_inv fixed_sha fixed_sha s' j'" "published open_memory (journal_open empty_tables) [one_cell] s' j'"
    by (auto split: if_splits)
  then show "st_revision one_cell_store = 1" "history_log one_cell_store = [(0, null_cell), (1, one_cell)]"
    using \<open>st_revision open_memory = 0\<close> store_inv_log(1) [of fixed_sha fixed_sha s' j']
    by (simp_all add: s' published_def journal_open_def empty_tables_def)
qed

theorem no_revision_repeats_a_version_witness:
  "graph_at one_cell_store 0 ''a'' \<noteq> Some one_cell"
  using no_revision_repeats_a_version [OF one_cell_store(1) fixed_sha_length, of 1 one_cell] one_cell_store(3)
  by (simp add: one_cell_def)

text \<open>
  C25: Migration reproduces the history. Copying a reachable source into a fresh destination (in
  memory or durable, gated or not as long as its gate admits the copy) succeeds; the evidence
  carries the source's own chain digest; and afterwards the destination publishes, at every
  revision, exactly the graph the source had there.
\<close>

theorem migration_reproduces_the_history:
  assumes "reachable sha shake src" "reachable sha shake d" "\<And>x. length (sha x) = 32" "plain env"
    "ready d" "st_revision d = 0" "snd (refusal (st_gated d) c) = None" "source_id \<noteq> destination_id"
  shows "\<exists>src' d' digest. migrate_cell_history (hashed sha shake env) source_id destination_id src (c, d) =
      (src', (c, d'), Inr \<lparr>source_identity = source_id, destination_identity = destination_id,
         source_revision = st_revision src, destination_revision = st_revision src, evidence_digest = digest\<rparr>) \<and>
    snd (store_chain_digest sha None src) = Inr digest \<and> snd (store_chain_digest sha None d') = Inr digest \<and>
    st_revision d' = st_revision src \<and> (\<forall>r \<le> st_revision src. graph_at d' r = graph_at src r)"
proof -
  obtain j where j: "store_inv sha shake src j" and log: "history_log src = j_versions j" "graph_at src = state_at (j_versions j)"
    using reachable_log [OF assms(1,3)] by blast
  obtain k where k: "store_inv sha shake d k" using reachable_inv [OF assms(2,3)] by blast
  have eff: "effective (j_versions j)" using reachable_effective [OF assms(1,3)] log by simp
  note J = representsD [OF store_invD(1) [OF j]] and K = representsD [OF store_invD(1) [OF k]]
  have prefix: "holds_prefix sha shake j 0 d"
    using assms(5,6) k rows_of_genesis [OF J(1)] rows_of_genesis [OF K(1)] by (auto simp: holds_prefix_def)
  have dom: "dom (st_cells d) = {NULL_CELL_ID}"
    using K(4) assms(6) rows_of_genesis [OF K(1)] state_at_0 [OF journal_okD(2) [OF K(1)]] by (simp add: null_cell_def)
  obtain dg where dg: "chain_digest_at sha (j_versions j) (st_revision src) = Inr dg" "length dg = 32"
    using chain_digest_ok [OF J(1), where sha = sha and r = "st_revision src"] assms(3) J(3) by fastforce
  obtain cache where raw: "chain_digest_raw sha (st_revision src) src = (src\<lparr>st_chain_digests := cache\<rparr>, Inr dg)"
    "store_inv sha shake (src\<lparr>st_chain_digests := cache\<rparr>) j"
    using chain_digest_raw_ok [OF j order_refl assms(3)] dg(1) by auto
  let ?src = "src\<lparr>st_chain_digests := cache\<rparr>"
  have d1: "store_chain_digest sha (Some (st_revision src)) src = (?src, Inr (hex dg))" "store_chain_digest sha None src = (?src, Inr (hex dg))"
    using raw by (simp_all add: store_chain_digest_def)
  obtain src2 d2 where copied: "migrate_revisions (hashed sha shake env) [Suc 0 ..< Suc (0 + st_revision src)] ?src (c, d) =
      (src2, (c, d2), Inr ())" "store_inv sha shake src2 j" "st_revision src2 = st_revision ?src"
    "holds_prefix sha shake j (0 + st_revision src) d2"
    using migrate_revisions_ok [OF eff assms(3,4) raw(2), of 0 "st_revision src" d c] prefix assms(7) by auto
  obtain k2 where k2: "store_inv sha shake d2 k2" "\<forall>v \<le> st_revision src. rows_of (j_versions k2) v = rows_of (j_versions j) v"
    and rev2: "st_revision d2 = st_revision src" using copied(4) by (auto simp: holds_prefix_def)
  have "chain_digest_at sha (j_versions k2) (st_revision src) = Inr dg"
    using same_rows_same_digest [OF k2(2)] dg(1) by simp
  then obtain cache2 where raw2: "chain_digest_raw sha (st_revision d2) d2 = (d2\<lparr>st_chain_digests := cache2\<rparr>, Inr dg)"
    "store_inv sha shake (d2\<lparr>st_chain_digests := cache2\<rparr>) k2"
    using chain_digest_raw_ok [OF k2(1) order_refl assms(3)] rev2 by auto
  let ?d = "d2\<lparr>st_chain_digests := cache2\<rparr>"
  have d2: "store_chain_digest sha None d2 = (?d, Inr (hex dg))" using raw2 by (simp add: store_chain_digest_def)
  have "\<exists>c3. chain_digest_raw sha (st_revision ?d) ?d = (?d\<lparr>st_chain_digests := c3\<rparr>, chain_digest_at sha (j_versions k2) (st_revision ?d))"
    using chain_digest_raw_ok [OF raw2(2) order_refl assms(3)] by blast
  then have d3: "snd (store_chain_digest sha None ?d) = Inr (hex dg)"
    using \<open>chain_digest_at sha (j_versions k2) (st_revision src) = Inr dg\<close> rev2 by (auto simp: store_chain_digest_def)
  have "migrate_cell_history (hashed sha shake env) source_id destination_id src (c, d) =
      (src2, (c, ?d), Inr \<lparr>source_identity = source_id, destination_identity = destination_id,
         source_revision = st_revision src, destination_revision = st_revision src, evidence_digest = hex dg\<rparr>)"
    using assms(5,6,8) dom d1 copied d2 rev2
    by (simp add: migrate_cell_history_def store_snapshot_def ready_def del: upt_Suc)
  moreover have "graph_at ?d r = graph_at src r" if "r \<le> st_revision src" for r
    using same_rows_same_graph [OF journal_okD(2) [OF representsD(1) [OF store_invD(1) [OF k2(1)]]] journal_okD(2) [OF J(1)], of r]
      k2(2) that store_inv_log(3) [OF raw2(2)] log(2) by simp
  ultimately show ?thesis using d1(2) d3 rev2 by (intro exI conjI) (assumption, simp_all)
qed

theorem migration_reproduces_the_history_witness:
  "\<exists>src' d' ev. migrate_cell_history (hashed fixed_sha fixed_sha plain_env) ''old'' ''new'' one_cell_store
      (idle_ctx, new_store fixed_sha True) = (src', (idle_ctx, d'), Inr ev) \<and>
    destination_revision ev = 1 \<and> graph_at d' 1 = graph_at one_cell_store 1"
proof -
  have rev: "st_revision one_cell_store = 1" by (rule one_cell_store(2))
  note N = new_durable_store [of fixed_sha, OF fixed_sha_length]
  have "plain plain_env" by (simp add: plain_def plain_env_def)
  moreover have "ready (new_store fixed_sha True)" using N by (simp add: ready_def)
  moreover have "snd (refusal (st_gated (new_store fixed_sha True)) idle_ctx) = None"
    using N(3) by (simp add: refusal_def idle_ctx_def)
  moreover have "''old'' \<noteq> ''new''" by simp
  ultimately have "\<exists>src' d' digest. migrate_cell_history (hashed fixed_sha fixed_sha plain_env) ''old'' ''new'' one_cell_store
      (idle_ctx, new_store fixed_sha True) = (src', (idle_ctx, d'), Inr \<lparr>source_identity = ''old'', destination_identity = ''new'',
         source_revision = st_revision one_cell_store, destination_revision = st_revision one_cell_store, evidence_digest = digest\<rparr>) \<and>
      (\<forall>r \<le> st_revision one_cell_store. graph_at d' r = graph_at one_cell_store r)"
    using migration_reproduces_the_history [OF one_cell_store(1) reachable_new fixed_sha_length, of plain_env True idle_ctx "''old''" "''new''"]
      N(6) by blast
  then show ?thesis unfolding rev by fastforce
qed

end
