(* ===== verification/Relations.thy ===== *)
theory Relations
  imports Store
begin

text \<open>
  Relations (\<open>01.APP/nodelang/cell_protocols.py\<close>): compositions of Cells above the kernel. A
  relation is a chain of Cells; each chain Cell points to an incidence Cell and to the next chain
  Cell, and each incidence to a role and a participant. This theory models \<open>CellBatch\<close>,
  composing and reading a relation, and every edit: append, insert, remove, reorder, rewire.
  \<open>uuid.uuid4()\<close> is the argument \<open>draw\<close>, the texts the calls of one operation draw in turn.
  Warming reads (\<open>prefetch\<close>, \<open>read_scope\<close>) do not change an answer and are left out.
\<close>

section \<open>Composing\<close>

record relation_build =
  rb_root :: string
  rb_incidences :: "string list"
  rb_chains :: "string list"

record relation_cells =
  rc_build :: relation_build
  rc_cells :: "cell list"

record relation_member =
  incidence_id :: string
  role_id :: string
  participant_id :: string

abbreviation Member :: "string \<Rightarrow> string \<Rightarrow> string \<Rightarrow> relation_member" where
  "Member i r p \<equiv> \<lparr>incidence_id = i, role_id = r, participant_id = p\<rparr>"

definition new_id :: "string \<Rightarrow> string \<Rightarrow> string" where
  "new_id prefix u = prefix @ '':'' @ u"

definition head_or_null :: "string list \<Rightarrow> string" where
  "head_or_null ks = (case ks of [] \<Rightarrow> NULL_CELL_ID | k # _ \<Rightarrow> k)"

text \<open>The loop over the pairs: an incidence, and the chain Cell that points to it and to the next.\<close>

fun weave :: "string list \<Rightarrow> string list \<Rightarrow> (string \<times> string) list \<Rightarrow> cell list" where
  "weave (c # cs) (i # is) ((r, p) # ps) = Cell i r p [] # Cell c i (head_or_null cs) [] # weave cs is ps"
| "weave _ _ _ = []"

definition compose_relation_cells :: "(string \<times> string) list \<Rightarrow> string option \<Rightarrow> string \<Rightarrow> relation_cells" where
  "compose_relation_cells pairs relation_id u =
     (let root = (case relation_id of None \<Rightarrow> new_id ''relation'' u
                  | Some r \<Rightarrow> if r = [] then new_id ''relation'' u else r)
      in if pairs = []
         then \<lparr>rc_build = \<lparr>rb_root = root, rb_incidences = [], rb_chains = [root]\<rparr>,
               rc_cells = [Cell root NULL_CELL_ID NULL_CELL_ID []]\<rparr>
         else let incidences = map (\<lambda>i. root @ '':incidence:'' @ show_nat i) [0..<length pairs];
                  chains = root # map (\<lambda>i. root @ '':chain:'' @ show_nat i) [1..<length pairs]
              in \<lparr>rc_build = \<lparr>rb_root = root, rb_incidences = incidences, rb_chains = chains\<rparr>,
                  rc_cells = weave chains incidences pairs\<rparr>)"

section \<open>Batches\<close>

record cell_batch =
  bt_existing :: cells
  bt_cells :: "(string \<times> cell) list"
  bt_committed :: bool

definition new_batch :: "store \<Rightarrow> cell_batch result" where
  "new_batch s = rbind (store_snapshot s) (\<lambda>sn.
     Inr \<lparr>bt_existing = snap_cells sn, bt_cells = [], bt_committed = False\<rparr>)"

definition batch_add :: "cell \<Rightarrow> cell_batch \<Rightarrow> cell_batch result" where
  "batch_add c b =
     (if bt_committed b then Inl (InvalidCell ''a committed batch cannot be reused'')
      else if map_of (bt_cells b) (cid c) \<noteq> None \<or> bt_existing b (cid c) \<noteq> None
      then Inl (InvalidCell (''batch cell identity already exists: '' @ cid c))
      else Inr (b\<lparr>bt_cells := bt_cells b @ [(cid c, c)]\<rparr>))"

fun batch_add_all :: "cell list \<Rightarrow> cell_batch \<Rightarrow> cell_batch result" where
  "batch_add_all [] b = Inr b"
| "batch_add_all (c # cs) b = rbind (batch_add c b) (batch_add_all cs)"

definition batch_relation ::
  "(string \<times> string) list \<Rightarrow> string option \<Rightarrow> string \<Rightarrow> cell_batch \<Rightarrow> (cell_batch \<times> relation_build) result" where
  "batch_relation pairs relation_id u b =
     (let composed = compose_relation_cells pairs relation_id u
      in rbind (batch_add_all (rc_cells composed) b) (\<lambda>b. Inr (b, rc_build composed)))"

definition batch_commit ::
  "commit_env \<Rightarrow> cell_batch \<Rightarrow> ctx \<times> store \<Rightarrow> cell_batch \<times> (ctx \<times> store) \<times> nat result" where
  "batch_commit env b cs =
     (if bt_committed b then (b, cs, Inl (InvalidCell ''a committed batch cannot be reused''))
      else (b\<lparr>bt_committed := True\<rparr>,
            commit env (st_revision (snd cs)) (map snd (bt_cells b)) [] cs))"

definition build_relation ::
  "commit_env \<Rightarrow> (string \<times> string) list \<Rightarrow> string option \<Rightarrow> string \<Rightarrow> ctx \<times> store \<Rightarrow>
     (ctx \<times> store) \<times> relation_build result" where
  "build_relation env pairs relation_id u cs =
     (case rbind (new_batch (snd cs)) (batch_relation pairs relation_id u) of
        Inl e \<Rightarrow> (cs, Inl e)
      | Inr (b, build) \<Rightarrow>
          (case batch_commit env b cs of (_, cs', res) \<Rightarrow> (cs', rbind res (\<lambda>_. Inr build))))"

section \<open>Reading\<close>

text \<open>
  \<open>_read_relation_walk\<close>: the members, the number of chain Cells walked and the Cells read. The
  budget bounds the walk.
\<close>

type_synonym relation_walk = "relation_member list \<times> nat \<times> cell list"

fun read_walk :: "cells \<Rightarrow> nat \<Rightarrow> string list \<Rightarrow> string \<Rightarrow> relation_walk result" where
  "read_walk m 0 seen cursor =
     (if cursor = NULL_CELL_ID then Inr ([], 0, [])
      else Inl (MatchBudgetExceeded ''relation projection exceeded its chain cells''))"
| "read_walk m (Suc n) seen cursor =
     (if cursor = NULL_CELL_ID then Inr ([], 0, [])
      else if cursor \<in> set seen then Inl (InvalidCell ''relation chain contains a cycle'')
      else case m cursor of
        None \<Rightarrow> Inl (InvalidCell ''relation chain contains a dangling cell'')
      | Some chain \<Rightarrow>
          if link0 chain = NULL_CELL_ID
          then (if link1 chain \<noteq> NULL_CELL_ID then Inl (InvalidCell ''empty relation root has a non-empty tail'')
                else Inr ([], 1, [chain]))
          else case m (link0 chain) of
            None \<Rightarrow> Inl (InvalidCell ''relation incidence is missing'')
          | Some inc \<Rightarrow>
              if m (link0 inc) = None \<or> m (link1 inc) = None
              then Inl (InvalidCell ''relation incidence contains a dangling link'')
              else rbind (read_walk m n (cursor # seen) (link1 chain)) (\<lambda>(members, steps, source).
                Inr (Member (cid inc) (link0 inc) (link1 inc) # members, Suc steps, chain # inc # source)))"

definition relation_walk :: "cells \<Rightarrow> string \<Rightarrow> nat \<Rightarrow> relation_walk result" where
  "relation_walk m root budget =
     (if m root = None then Inl (InvalidCell ''relation root is missing'') else read_walk m budget [] root)"

text \<open>\<open>read_relation\<close> outside every request scope; the request cache is a theory of its own.\<close>

definition read_relation :: "cells \<Rightarrow> string \<Rightarrow> nat \<Rightarrow> relation_member list result" where
  "read_relation m root budget =
     (if budget < 1 then Inl (MatchBudgetExceeded ''relation projection budget must be positive'')
      else rbind (relation_walk m root budget) (\<lambda>(members, steps, source). Inr members))"

section \<open>Appending\<close>

record relation_patch =
  rp_incidences :: "string list"
  rp_create :: "cell list"
  rp_replace :: "cell list"

abbreviation Patch :: "string list \<Rightarrow> cell list \<Rightarrow> cell list \<Rightarrow> relation_patch" where
  "Patch is cr rp \<equiv> \<lparr>rp_incidences = is, rp_create = cr, rp_replace = rp\<rparr>"

text \<open>The walk to the last chain Cell.\<close>

fun append_tail :: "cells \<Rightarrow> nat \<Rightarrow> string list \<Rightarrow> string \<Rightarrow> cell result" where
  "append_tail m 0 seen cursor = Inl (MatchBudgetExceeded ''relation append exceeded its chain cells'')"
| "append_tail m (Suc n) seen cursor =
     (if cursor \<in> set seen then Inl (InvalidCell ''relation chain contains a cycle'')
      else case m cursor of
        None \<Rightarrow> Inl (KeyError cursor)
      | Some chain \<Rightarrow>
          if link0 chain = NULL_CELL_ID
          then (if link1 chain \<noteq> NULL_CELL_ID then Inl (InvalidCell ''empty relation root has a non-empty tail'')
                else Inr chain)
          else if link1 chain = NULL_CELL_ID then Inr chain
          else append_tail m n (cursor # seen) (link1 chain))"

definition drawn :: "string \<Rightarrow> nat \<Rightarrow> nat \<Rightarrow> (nat \<Rightarrow> string) \<Rightarrow> string list" where
  "drawn prefix lo n draw = map (\<lambda>i. new_id prefix (draw i)) [lo..<lo + n]"

definition append_patch :: "cell \<Rightarrow> (string \<times> string) list \<Rightarrow> (nat \<Rightarrow> string) \<Rightarrow> relation_patch" where
  "append_patch tail pairs draw =
     (let incidences = drawn ''incidence'' 0 (length pairs) draw in
      if link0 tail = NULL_CELL_ID
      then let chains = drawn ''chain'' (length pairs) (length pairs - 1) draw
           in Patch incidences
                (Cell (hd incidences) (fst (hd pairs)) (snd (hd pairs)) [] # weave chains (tl incidences) (tl pairs))
                [Cell (cid tail) (hd incidences) (head_or_null chains) (atom tail)]
      else let chains = drawn ''chain'' (length pairs) (length pairs) draw
           in Patch incidences (weave chains incidences pairs)
                [Cell (cid tail) (link0 tail) (head_or_null chains) (atom tail)])"

definition prepare_append_relation_members ::
  "cells \<Rightarrow> string \<Rightarrow> (string \<times> string) list \<Rightarrow> nat \<Rightarrow> (nat \<Rightarrow> string) \<Rightarrow> relation_patch result" where
  "prepare_append_relation_members m root pairs budget draw =
     (if pairs = [] then Inr (Patch [] [] [])
      else if m root = None then Inl (InvalidCell ''relation root is missing'')
      else rbind (append_tail m budget [] root) (\<lambda>tail. Inr (append_patch tail pairs draw)))"

definition prepare_append_relation_member ::
  "cells \<Rightarrow> string \<Rightarrow> string \<Rightarrow> string \<Rightarrow> nat \<Rightarrow> (nat \<Rightarrow> string) \<Rightarrow> relation_patch result" where
  "prepare_append_relation_member m root role participant budget draw =
     prepare_append_relation_members m root [(role, participant)] budget draw"

text \<open>Publishing a prepared edit against the snapshot it was prepared from.\<close>

definition commit_patch ::
  "commit_env \<Rightarrow> (cells \<Rightarrow> (relation_patch \<times> 'a) result) \<Rightarrow> ctx \<times> store \<Rightarrow> (ctx \<times> store) \<times> 'a result" where
  "commit_patch env prepare cs =
     (case rbind (store_snapshot (snd cs)) (\<lambda>sn. rbind (prepare (snap_cells sn)) (\<lambda>p. Inr (sn, p))) of
        Inl e \<Rightarrow> (cs, Inl e)
      | Inr (sn, patch, x) \<Rightarrow>
          (case commit env (snap_revision sn) (rp_create patch) (rp_replace patch) cs of
             (cs', res) \<Rightarrow> (cs', rbind res (\<lambda>_. Inr x))))"

definition append_relation_member ::
  "commit_env \<Rightarrow> string \<Rightarrow> string \<Rightarrow> string \<Rightarrow> nat \<Rightarrow> (nat \<Rightarrow> string) \<Rightarrow> ctx \<times> store \<Rightarrow> (ctx \<times> store) \<times> string result" where
  "append_relation_member env root role participant budget draw =
     commit_patch env (\<lambda>m. rbind (prepare_append_relation_member m root role participant budget draw)
       (\<lambda>p. Inr (p, hd (rp_incidences p))))"

section \<open>Inserting\<close>

fun chain_walk :: "cells \<Rightarrow> nat \<Rightarrow> string list \<Rightarrow> string \<Rightarrow> string list result" where
  "chain_walk m n seen cursor =
     (if cursor = NULL_CELL_ID then Inr []
      else case n of
        0 \<Rightarrow> Inl (MatchBudgetExceeded ''relation traversal exceeded its chain cells'')
      | Suc n' \<Rightarrow>
          if cursor \<in> set seen then Inl (InvalidCell ''relation chain contains a cycle'')
          else case m cursor of
            None \<Rightarrow> Inl (KeyError cursor)
          | Some chain \<Rightarrow> rbind (chain_walk m n' (cursor # seen) (link1 chain)) (\<lambda>ks. Inr (cursor # ks)))"

declare chain_walk.simps [simp del]

definition relation_chain_ids :: "cells \<Rightarrow> string \<Rightarrow> nat \<Rightarrow> string list result" where
  "relation_chain_ids m root budget =
     (if m root = None then Inl (InvalidCell ''relation root is missing'') else chain_walk m budget [] root)"

text \<open>\<open>tuple.index\<close>, and reading a Cell by subscript.\<close>

fun index_of :: "'a \<Rightarrow> 'a list \<Rightarrow> nat result" where
  "index_of x [] = Inl (ValueError ''tuple.index(x): x not in tuple'')"
| "index_of x (y # ys) = (if y = x then Inr 0 else rbind (index_of x ys) (\<lambda>n. Inr (Suc n)))"

definition cell_of :: "cells \<Rightarrow> string \<Rightarrow> cell result" where
  "cell_of m k = (case m k of None \<Rightarrow> Inl (KeyError k) | Some c \<Rightarrow> Inr c)"

definition insert_patch ::
  "cells \<Rightarrow> string \<Rightarrow> string \<Rightarrow> string \<Rightarrow> string option \<Rightarrow> string option \<Rightarrow> nat \<Rightarrow> (nat \<Rightarrow> string) \<Rightarrow> relation_patch result" where
  "insert_patch m root role participant before after budget draw =
     (if before \<noteq> None \<and> after \<noteq> None then Inl (InvalidCell ''relation insertion accepts one anchor direction'')
      else
        rbind (relation_chain_ids m root budget) (\<lambda>chains.
        rbind (read_relation m root budget) (\<lambda>members.
        let ids = map incidence_id members;
            anchor = (if before = None \<or> before = Some [] then after else before);
            inc = new_id ''incidence'' (draw 0);
            incidence = Cell inc role participant [];
            fresh = new_id ''chain'' (draw 1) in
        if (case anchor of None \<Rightarrow> False | Some a \<Rightarrow> a \<notin> set ids)
        then Inl (InvalidCell ''relation insertion anchor is not a member'')
        else
          rbind (cell_of m root) (\<lambda>rc.
          if members = [] then Inr (Patch [inc] [incidence] [Cell (cid rc) inc NULL_CELL_ID (atom rc)])
          else case before of
            Some b \<Rightarrow>
              rbind (index_of b ids) (\<lambda>i.
              if i = 0
              then Inr (Patch [inc] [incidence, Cell fresh (link0 rc) (link1 rc) []] [Cell (cid rc) inc fresh (atom rc)])
              else rbind (cell_of m (chains ! (i - 1))) (\<lambda>pred.
                Inr (Patch [inc] [incidence, Cell fresh inc (chains ! i) []]
                  [Cell (cid pred) (link0 pred) fresh (atom pred)])))
          | None \<Rightarrow>
              rbind (index_of (case after of None \<Rightarrow> last ids | Some a \<Rightarrow> a) ids) (\<lambda>i.
              rbind (cell_of m (chains ! i)) (\<lambda>target.
                Inr (Patch [inc] [incidence, Cell fresh inc (link1 target) []]
                  [Cell (cid target) (link0 target) fresh (atom target)])))))))"

definition insert_relation_member ::
  "commit_env \<Rightarrow> string \<Rightarrow> string \<Rightarrow> string \<Rightarrow> string option \<Rightarrow> string option \<Rightarrow> nat \<Rightarrow> (nat \<Rightarrow> string) \<Rightarrow>
     ctx \<times> store \<Rightarrow> (ctx \<times> store) \<times> string result" where
  "insert_relation_member env root role participant before after budget draw =
     commit_patch env (\<lambda>m. rbind (insert_patch m root role participant before after budget draw)
       (\<lambda>p. Inr (p, hd (rp_incidences p))))"

section \<open>Removing and reordering\<close>

text \<open>The chain Cells of the members that remain, linked past the removed ones.\<close>

fun relink :: "cells \<Rightarrow> (string \<times> string) list \<Rightarrow> cell list result" where
  "relink m [] = Inr []"
| "relink m ((k, inc) # rest) =
     rbind (cell_of m k) (\<lambda>chain.
     rbind (relink m rest) (\<lambda>cells.
     let c = Cell (cid chain) inc (head_or_null (map fst rest)) (atom chain)
     in Inr (if c \<noteq> chain then c # cells else cells)))"

definition prepare_remove_relation_members ::
  "cells \<Rightarrow> string \<Rightarrow> string list \<Rightarrow> nat \<Rightarrow> (relation_member list \<times> cell list) result" where
  "prepare_remove_relation_members m root incidences budget =
     (let requested = dedup incidences in
      if requested = [] then Inr ([], [])
      else
        rbind (relation_chain_ids m root budget) (\<lambda>chains.
        rbind (read_relation m root budget) (\<lambda>members.
        let by_incidence = map_of (rev (map (\<lambda>x. (incidence_id x, x)) members)) in
        if \<exists>i \<in> set requested. by_incidence i = None
        then Inl (InvalidCell ''relation removal target is not a member'')
        else
          let removed = map (\<lambda>i. the (by_incidence i)) requested;
              remaining = filter (\<lambda>(k, x). incidence_id x \<notin> set requested) (zip chains members) in
          rbind (cell_of m root) (\<lambda>rc.
          case remaining of
            [] \<Rightarrow> Inr (removed, [Cell (cid rc) NULL_CELL_ID NULL_CELL_ID (atom rc)])
          | (k, x) # rest \<Rightarrow>
              let c = Cell (cid rc) (incidence_id x) (head_or_null (map fst rest)) (atom rc) in
              rbind (relink m (map (\<lambda>(k, x). (k, incidence_id x)) rest)) (\<lambda>cells.
              Inr (removed, if c \<noteq> rc then c # cells else cells))))))"

definition prepare_remove_relation_member ::
  "cells \<Rightarrow> string \<Rightarrow> string \<Rightarrow> nat \<Rightarrow> (relation_member \<times> relation_patch) result" where
  "prepare_remove_relation_member m root inc budget =
     rbind (prepare_remove_relation_members m root [inc] budget) (\<lambda>(removed, cells).
       Inr (hd removed, Patch [inc] [] cells))"

definition remove_relation_member ::
  "commit_env \<Rightarrow> string \<Rightarrow> string \<Rightarrow> nat \<Rightarrow> ctx \<times> store \<Rightarrow> (ctx \<times> store) \<times> relation_member result" where
  "remove_relation_member env root inc budget =
     commit_patch env (\<lambda>m. rbind (prepare_remove_relation_member m root inc budget) (\<lambda>(x, p). Inr (p, x)))"

definition prepare_reorder_relation_members ::
  "cells \<Rightarrow> string \<Rightarrow> string list \<Rightarrow> nat \<Rightarrow> cell list result" where
  "prepare_reorder_relation_members m root requested budget =
     rbind (relation_chain_ids m root budget) (\<lambda>chains.
     rbind (read_relation m root budget) (\<lambda>members.
     if \<not> distinct requested \<or> set requested \<noteq> set (map incidence_id members)
     then Inl (InvalidCell ''relation reorder must be an exact member permutation'')
     else rbind (rmap (\<lambda>(k, inc). rbind (cell_of m k) (\<lambda>chain. Inr (chain, inc))) (zip chains requested))
       (\<lambda>moves. Inr (map (\<lambda>(chain, inc). Cell (cid chain) inc (link1 chain) (atom chain))
         (filter (\<lambda>(chain, inc). link0 chain \<noteq> inc) moves)))))"

definition reorder_relation_members ::
  "commit_env \<Rightarrow> string \<Rightarrow> string list \<Rightarrow> nat \<Rightarrow> ctx \<times> store \<Rightarrow> (ctx \<times> store) \<times> nat result" where
  "reorder_relation_members env root requested budget cs =
     (case rbind (store_snapshot (snd cs)) (\<lambda>sn.
        rbind (prepare_reorder_relation_members (snap_cells sn) root requested budget) (\<lambda>rs. Inr (sn, rs))) of
        Inl e \<Rightarrow> (cs, Inl e)
      | Inr (sn, rs) \<Rightarrow> if rs = [] then (cs, Inr (snap_revision sn)) else commit env (snap_revision sn) [] rs cs)"

definition rewire_incidence ::
  "commit_env \<Rightarrow> string \<Rightarrow> string \<Rightarrow> ctx \<times> store \<Rightarrow> (ctx \<times> store) \<times> nat result" where
  "rewire_incidence env inc participant cs =
     (case read_cell (snd cs) inc of
        Inl e \<Rightarrow> (cs, Inl e)
      | Inr c \<Rightarrow> commit env (st_revision (snd cs)) [] [Cell (cid c) (link0 c) participant (atom c)] cs)"

end
