(* ===== verification/Lenses.thy ===== *)
theory Lenses
  imports Relations
begin

text \<open>
  Reading a graph through its relations (the rest of \<open>01.APP/nodelang/cell_protocols.py\<close>):
  property rows, wired lenses, the region a composition reaches, and writing a property's atom.
\<close>

section \<open>Roles\<close>

record property_projection =
  pp_relation :: string
  pp_owner :: string
  pp_value :: string
  pp_label :: string

abbreviation Row :: "string \<Rightarrow> string \<Rightarrow> string \<Rightarrow> string \<Rightarrow> property_projection" where
  "Row r w v l \<equiv> \<lparr>pp_relation = r, pp_owner = w, pp_value = v, pp_label = l\<rparr>"

definition participants :: "string \<Rightarrow> relation_member list \<Rightarrow> string list" where
  "participants role members = map participant_id (filter (\<lambda>x. role_id x = role) members)"

definition participant_for_role :: "relation_member list \<Rightarrow> string \<Rightarrow> string option result" where
  "participant_for_role members role =
     (case participants role members of
        [] \<Rightarrow> Inr None
      | [p] \<Rightarrow> Inr (Some p)
      | _ \<Rightarrow> Inl (InvalidCell ''a single-valued lens role has multiple participants''))"

section \<open>Property rows\<close>

fun inspect_properties ::
  "cells \<Rightarrow> string \<Rightarrow> string list \<Rightarrow> string \<Rightarrow> string \<Rightarrow> string \<Rightarrow> nat \<Rightarrow> property_projection list result" where
  "inspect_properties m selected [] owner_role value_role label_role budget = Inr []"
| "inspect_properties m selected (r # rs) owner_role value_role label_role budget =
     rbind (read_relation m r budget) (\<lambda>members.
     rbind (participant_for_role members owner_role) (\<lambda>owner.
     if owner \<noteq> Some selected then inspect_properties m selected rs owner_role value_role label_role budget
     else
       rbind (participant_for_role members value_role) (\<lambda>v.
       rbind (participant_for_role members label_role) (\<lambda>l.
       rbind (inspect_properties m selected rs owner_role value_role label_role budget) (\<lambda>rows.
       Inr (case (v, l) of (Some v, Some l) \<Rightarrow> Row r selected v l # rows | _ \<Rightarrow> rows))))))"

definition inspect_wired_properties ::
  "cells \<Rightarrow> string \<Rightarrow> string \<Rightarrow> string \<Rightarrow> string \<Rightarrow> string \<Rightarrow> string \<Rightarrow> nat \<Rightarrow> property_projection list result" where
  "inspect_wired_properties m lens selection_role scope_role owner_role value_role label_role budget =
     rbind (read_relation m lens budget) (\<lambda>lens_members.
     rbind (participant_for_role lens_members selection_role) (\<lambda>selection.
     case selection of
       None \<Rightarrow> Inr []
     | Some selected \<Rightarrow>
         inspect_properties m selected (participants scope_role lens_members)
           owner_role value_role label_role budget))"

section \<open>The region a composition reaches\<close>

text \<open>
  The loop of \<open>open_composition\<close>: \<open>pending\<close> is the stack (its top first) and \<open>opened\<close> the set as
  the list of its elements, newest first. Each turn pops the stack or opens one more Cell, and no
  more than \<open>budget\<close> Cells are opened.
\<close>

function open_walk :: "cells \<Rightarrow> nat \<Rightarrow> string list \<Rightarrow> string list \<Rightarrow> string list result" where
  "open_walk m budget [] opened = Inr opened"
| "open_walk m budget (k # pending) opened =
     (if k \<in> set opened then open_walk m budget pending opened
      else if budget \<le> length opened then Inl (MatchBudgetExceeded ''composition exceeded its reachable cells'')
      else case m k of
        None \<Rightarrow> Inl (InvalidCell ''composition contains a dangling physical link'')
      | Some c \<Rightarrow> open_walk m budget (link1 c # link0 c # pending) (k # opened))"
  by pat_completeness auto

termination
  by (relation "(\<lambda>(m, budget, pending, opened). budget - length opened) <*mlex*>
      measure (\<lambda>(m, budget, pending, opened). length pending)") (auto intro: mlex_less mlex_leq wf_mlex)

definition open_composition :: "cells \<Rightarrow> string \<Rightarrow> nat \<Rightarrow> string set result" where
  "open_composition m root budget =
     (if m root = None then Inl (InvalidCell ''composition root is missing'')
      else if budget < 1 then Inl (MatchBudgetExceeded ''composition budget must be positive'')
      else rbind (open_walk m budget [root] []) (\<lambda>opened. Inr (set opened)))"

text \<open>The second walk of \<open>_relation_region\<close>, over a chain that \<open>read_relation\<close> has validated.\<close>

fun region_walk :: "cells \<Rightarrow> nat \<Rightarrow> string \<Rightarrow> string list result" where
  "region_walk m n cursor =
     (if cursor = NULL_CELL_ID then Inr []
      else case n of
        0 \<Rightarrow> Inl (MatchBudgetExceeded ''relation region exceeded its chain cells'')
      | Suc n' \<Rightarrow>
          rbind (cell_of m cursor) (\<lambda>chain.
          rbind (if link0 chain = NULL_CELL_ID then Inr []
                 else rbind (cell_of m (link0 chain)) (\<lambda>inc. Inr [cid inc, link0 inc, link1 inc])) (\<lambda>ks.
          rbind (region_walk m n' (link1 chain)) (\<lambda>rest. Inr (cid chain # ks @ rest)))))"

declare region_walk.simps [simp del]

definition relation_region :: "cells \<Rightarrow> string \<Rightarrow> nat \<Rightarrow> (string set \<times> relation_member list) result" where
  "relation_region m root budget =
     rbind (read_relation m root budget) (\<lambda>members.
     rbind (region_walk m budget root) (\<lambda>ks. Inr (set (root # NULL_CELL_ID # ks), members)))"

fun open_members :: "cells \<Rightarrow> string \<Rightarrow> nat \<Rightarrow> relation_member list \<Rightarrow> string set \<Rightarrow> string set result" where
  "open_members m scope_role budget [] opened = Inr opened"
| "open_members m scope_role budget (x # xs) opened =
     rbind (if role_id x = scope_role
            then rbind (relation_region m (participant_id x) budget) (\<lambda>(region, _). Inr (opened \<union> region))
            else Inr (insert (participant_id x) opened)) (\<lambda>opened.
     if budget < card opened then Inl (MatchBudgetExceeded ''scoped composition exceeded its cells'')
     else open_members m scope_role budget xs opened)"

text \<open>\<open>member_role\<close> does not matter: both of its branches add the participant.\<close>

definition open_scoped_composition :: "cells \<Rightarrow> string \<Rightarrow> string \<Rightarrow> string \<Rightarrow> nat \<Rightarrow> string set result" where
  "open_scoped_composition m root member_role scope_role budget =
     rbind (relation_region m root budget) (\<lambda>(region, members).
       open_members m scope_role budget members region)"

section \<open>Writing a property\<close>

definition set_property_atom ::
  "commit_env \<Rightarrow> string \<Rightarrow> string \<Rightarrow> bytes \<Rightarrow> nat \<Rightarrow> ctx \<times> store \<Rightarrow> (ctx \<times> store) \<times> string result" where
  "set_property_atom env root value_role x budget cs =
     (case rbind (store_snapshot (snd cs)) (\<lambda>sn.
        rbind (read_relation (snap_cells sn) root budget) (\<lambda>members.
        participant_for_role members value_role)) of
        Inl e \<Rightarrow> (cs, Inl e)
      | Inr None \<Rightarrow> (cs, Inl (InvalidCell ''property relation has no value participant''))
      | Inr (Some v) \<Rightarrow>
          (case read_cell (snd cs) v of
             Inl e \<Rightarrow> (cs, Inl e)
           | Inr c \<Rightarrow>
               (case commit env (st_revision (snd cs)) [] [Cell (cid c) (link0 c) (link1 c) x] cs of
                  (cs', res) \<Rightarrow> (cs', rbind res (\<lambda>_. Inr v)))))"

end
