(* ===== verification/RelationLaws.thy ===== *)
theory RelationLaws
  imports Relations
begin

text \<open>
  What a relation is, and what the reader and the edits of \<open>Relations\<close> do to it. A relation is
  spelled by a thread: the pairs of a chain Cell and its incidence, in order. A thread may end in
  an empty chain Cell instead of the null Cell (\<open>ending\<close>); an empty relation is only that Cell.
\<close>

section \<open>Threads\<close>

type_synonym thread = "(string \<times> string) list"

definition thread_head :: "thread \<Rightarrow> string \<Rightarrow> string" where
  "thread_head ts e = (case ts of [] \<Rightarrow> e | (k, i) # _ \<Rightarrow> k)"

definition incidence_ok :: "cells \<Rightarrow> string \<Rightarrow> bool" where
  "incidence_ok m i \<longleftrightarrow> (\<exists>r p x. m i = Some (Cell i r p x) \<and> m r \<noteq> None \<and> m p \<noteq> None)"

fun threaded :: "cells \<Rightarrow> thread \<Rightarrow> string \<Rightarrow> bool" where
  "threaded m [] e \<longleftrightarrow> True"
| "threaded m ((k, i) # ts) e \<longleftrightarrow>
     k \<noteq> NULL_CELL_ID \<and> i \<noteq> NULL_CELL_ID \<and> incidence_ok m i \<and>
     (\<exists>x. m k = Some (Cell k i (thread_head ts e) x)) \<and> threaded m ts e"

definition ending :: "cells \<Rightarrow> string \<Rightarrow> bool" where
  "ending m e \<longleftrightarrow> e = NULL_CELL_ID \<or> (\<exists>x. m e = Some (Cell e NULL_CELL_ID NULL_CELL_ID x))"

text \<open>The chain Cells of a thread, and the Cells a reader of it must read.\<close>

definition chain_ids :: "thread \<Rightarrow> string \<Rightarrow> string list" where
  "chain_ids ts e = map fst ts @ (if e = NULL_CELL_ID then [] else [e])"

fun thread_cells :: "cells \<Rightarrow> thread \<Rightarrow> string \<Rightarrow> cell list" where
  "thread_cells m [] e = (if e = NULL_CELL_ID then [] else [the (m e)])"
| "thread_cells m ((k, i) # ts) e = the (m k) # the (m i) # thread_cells m ts e"

definition member_of :: "cells \<Rightarrow> string \<Rightarrow> relation_member" where
  "member_of m i = Member i (link0 (the (m i))) (link1 (the (m i)))"

definition members_of :: "cells \<Rightarrow> thread \<Rightarrow> relation_member list" where
  "members_of m ts = map (\<lambda>(k, i). member_of m i) ts"

definition relation :: "cells \<Rightarrow> string \<Rightarrow> thread \<Rightarrow> string \<Rightarrow> bool" where
  "relation m root ts e \<longleftrightarrow>
     m root \<noteq> None \<and> root = thread_head ts e \<and> threaded m ts e \<and> ending m e \<and> distinct (chain_ids ts e)"

text \<open>A relation whose incidences are its own: no two alike, and none of them a chain Cell.\<close>

definition proper :: "thread \<Rightarrow> string \<Rightarrow> bool" where
  "proper ts e \<longleftrightarrow> distinct (map snd ts) \<and> set (map snd ts) \<inter> set (chain_ids ts e) = {}"

named_theorems thread_simps \<open>unfolding of threads\<close>

lemma thread_head_simps [simp, thread_simps]:
  "thread_head [] e = e" "thread_head ((k, i) # ts) e = k"
  by (simp_all add: thread_head_def)

lemma chain_ids_simps [simp, thread_simps]:
  "chain_ids ((k, i) # ts) e = k # chain_ids ts e"
  "chain_ids [] e = (if e = NULL_CELL_ID then [] else [e])"
  by (simp_all add: chain_ids_def)

lemma members_of_simps [simp]:
  "members_of m [] = []" "members_of m ((k, i) # ts) = member_of m i # members_of m ts"
  "members_of m (ts @ us) = members_of m ts @ members_of m us"
  by (simp_all add: members_of_def)

lemma length_members_of [simp]: "length (members_of m ts) = length ts"
  by (simp add: members_of_def)

lemma member_of_fields [simp]:
  "incidence_id (member_of m i) = i" "role_id (member_of m i) = link0 (the (m i))"
  "participant_id (member_of m i) = link1 (the (m i))"
  by (simp_all add: member_of_def)

lemma incidences_of_members [simp]: "map incidence_id (members_of m ts) = map snd ts"
  by (simp add: members_of_def split_beta)

lemma thread_head_append [simp]: "thread_head (ts @ us) e = thread_head ts (thread_head us e)"
  by (cases ts) auto

lemma threaded_append [simp]:
  "threaded m (ts @ us) e \<longleftrightarrow> threaded m ts (thread_head us e) \<and> threaded m us e"
  by (induction ts) auto

lemma chain_ids_append: "chain_ids (ts @ us) e = map fst ts @ chain_ids us e"
  by (simp add: chain_ids_def)

lemma threaded_chain_not_null: "threaded m ts e \<Longrightarrow> k \<in> set (map fst ts) \<Longrightarrow> k \<noteq> NULL_CELL_ID"
  by (induction ts) auto

lemma chain_ids_not_null: "threaded m ts e \<Longrightarrow> NULL_CELL_ID \<notin> set (chain_ids ts e)"
  by (induction ts) auto

lemma threaded_incidence: "threaded m ts e \<Longrightarrow> (k, i) \<in> set ts \<Longrightarrow> i \<noteq> NULL_CELL_ID \<and> incidence_ok m i"
  by (induction ts) auto

lemma threaded_in_dom: "threaded m ts e \<Longrightarrow> k \<in> set (map fst ts) \<Longrightarrow> m k \<noteq> None"
  by (induction ts) (force split: prod.splits)+

lemma incidence_in_dom: "incidence_ok m i \<Longrightarrow> m i \<noteq> None"
  by (auto simp: incidence_ok_def)

section \<open>What the walk reads\<close>

lemma keyed_Cell:
  assumes "keyed m" "m k = Some c"
  shows "c = Cell k (link0 c) (link1 c) (atom c)"
  using assms keyedD [of m k c] by (cases c) simp

text \<open>The walk succeeds exactly along a thread of Cells not seen before, within its budget.\<close>

lemma read_walk_sound:
  assumes "read_walk m n seen cur = Inr (ms, steps, src)" "keyed m"
  shows "\<exists>ts e. cur = thread_head ts e \<and> threaded m ts e \<and> ending m e \<and> distinct (chain_ids ts e) \<and>
      set (chain_ids ts e) \<inter> set seen = {} \<and> ms = members_of m ts \<and>
      steps = length (chain_ids ts e) \<and> steps \<le> n \<and> src = thread_cells m ts e"
  using assms
proof (induction m n seen cur arbitrary: ms steps src rule: read_walk.induct)
  case (1 m seen cur)
  then show ?case
    by (intro exI [of _ "[]"] exI [of _ NULL_CELL_ID]) (auto simp: ending_def split: if_splits)
next
  case (2 m n seen cur)
  show ?case
  proof (cases "cur = NULL_CELL_ID")
    case True
    with 2 show ?thesis
      by (intro exI [of _ "[]"] exI [of _ NULL_CELL_ID]) (auto simp: ending_def)
  next
    case False
    with 2 have new: "cur \<notin> set seen" by (auto split: if_splits)
    from False new 2 obtain c where c: "m cur = Some c" by (auto split: option.splits)
    note c' = keyed_Cell [OF \<open>keyed m\<close> c]
    show ?thesis
    proof (cases "link0 c = NULL_CELL_ID")
      case True
      with False new c 2 have "link1 c = NULL_CELL_ID" "ms = []" "steps = 1" "src = [c]"
        by (auto split: if_splits)
      moreover from this True c c' have "ending m cur" by (auto simp: ending_def)
      ultimately show ?thesis using False new c
        by (intro exI [of _ "[]"] exI [of _ cur]) simp
    next
      case l0: False
      with False new c 2 obtain inc where inc: "m (link0 c) = Some inc" by (auto split: option.splits)
      note inc' = keyed_Cell [OF \<open>keyed m\<close> inc]
      from False new c l0 inc "2.prems"(1) have dom: "m (link0 inc) \<noteq> None" "m (link1 inc) \<noteq> None"
        by (auto split: if_splits)
      with False new c l0 inc dom "2.prems"(1) obtain ms' st src' where
        r: "read_walk m n (cur # seen) (link1 c) = Inr (ms', st, src')"
        and out: "ms = Member (cid inc) (link0 inc) (link1 inc) # ms'" "steps = Suc st" "src = c # inc # src'"
        by auto
      from "2.IH" [OF False new c l0 inc _ r "2.prems"(2)] dom obtain ts e where
        t: "link1 c = thread_head ts e" "threaded m ts e" "ending m e" "distinct (chain_ids ts e)"
          "set (chain_ids ts e) \<inter> set (cur # seen) = {}" "ms' = members_of m ts"
          "st = length (chain_ids ts e)" "st \<le> n" "src' = thread_cells m ts e"
        by auto
      have ok: "incidence_ok m (link0 c)"
        unfolding incidence_ok_def
        by (rule exI [of _ "link0 inc"], rule exI [of _ "link1 inc"], rule exI [of _ "atom inc"])
          (use inc inc' dom in simp)
      have k: "\<exists>x. m cur = Some (Cell cur (link0 c) (thread_head ts e) x)"
        by (rule exI [of _ "atom c"]) (use c c' t(1) in simp)
      have "cid inc = link0 c" using inc \<open>keyed m\<close> by (simp add: keyedD)
      with False l0 ok k t out inc new c show ?thesis
        by (intro exI [of _ "(cur, link0 c) # ts"] exI [of _ e]) (auto simp: member_of_def)
    qed
  qed
qed

lemma read_walk_complete:
  assumes "threaded m ts e" "ending m e" "distinct (chain_ids ts e)"
    "set (chain_ids ts e) \<inter> set seen = {}"
  shows "read_walk m n seen (thread_head ts e) =
    (if length (chain_ids ts e) \<le> n then Inr (members_of m ts, length (chain_ids ts e), thread_cells m ts e)
     else Inl (MatchBudgetExceeded ''relation projection exceeded its chain cells''))"
  using assms
proof (induction ts arbitrary: n seen)
  case Nil
  then show ?case by (cases n) (auto simp: ending_def)
next
  case (Cons t ts)
  obtain k i where t: "t = (k, i)" by (cases t)
  from Cons.prems(1) t obtain x r p y where
    k: "k \<noteq> NULL_CELL_ID" "m k = Some (Cell k i (thread_head ts e) x)" and
    i: "i \<noteq> NULL_CELL_ID" "m i = Some (Cell i r p y)" "m r \<noteq> None" "m p \<noteq> None"
    by (auto simp: incidence_ok_def)
  show ?case
  proof (cases n)
    case 0
    with k t show ?thesis by simp
  next
    case (Suc n')
    have IH: "read_walk m n' (k # seen) (thread_head ts e) =
      (if length (chain_ids ts e) \<le> n' then Inr (members_of m ts, length (chain_ids ts e), thread_cells m ts e)
       else Inl (MatchBudgetExceeded ''relation projection exceeded its chain cells''))"
      using Cons.prems t by (intro Cons.IH) auto
    from k i t Suc Cons.prems IH show ?thesis by (simp add: member_of_def)
  qed
qed

lemma relation_walk_Inr_iff:
  assumes "keyed m"
  shows "relation_walk m root n = Inr (ms, steps, src) \<longleftrightarrow>
    (\<exists>ts e. relation m root ts e \<and> ms = members_of m ts \<and> steps = length (chain_ids ts e) \<and>
      steps \<le> n \<and> src = thread_cells m ts e)"
proof
  assume "relation_walk m root n = Inr (ms, steps, src)"
  then have "m root \<noteq> None" "read_walk m n [] root = Inr (ms, steps, src)"
    by (auto simp: relation_walk_def split: if_splits)
  with read_walk_sound [OF this(2) assms] show "\<exists>ts e. relation m root ts e \<and> ms = members_of m ts \<and>
    steps = length (chain_ids ts e) \<and> steps \<le> n \<and> src = thread_cells m ts e"
    unfolding relation_def by blast
next
  assume "\<exists>ts e. relation m root ts e \<and> ms = members_of m ts \<and> steps = length (chain_ids ts e) \<and>
    steps \<le> n \<and> src = thread_cells m ts e"
  then obtain ts e where r: "relation m root ts e" and
    o: "ms = members_of m ts" "steps = length (chain_ids ts e)" "steps \<le> n" "src = thread_cells m ts e"
    by blast
  from r have "m root \<noteq> None" "root = thread_head ts e" by (auto simp: relation_def)
  with r read_walk_complete [of m ts e "[]" n] o show "relation_walk m root n = Inr (ms, steps, src)"
    by (auto simp: relation_walk_def relation_def)
qed

lemma relation_walk_relation:
  assumes "relation m root ts e"
  shows "relation_walk m root n =
    (if length (chain_ids ts e) \<le> n then Inr (members_of m ts, length (chain_ids ts e), thread_cells m ts e)
     else Inl (MatchBudgetExceeded ''relation projection exceeded its chain cells''))"
proof -
  from assms have "m root \<noteq> None" "root = thread_head ts e" by (auto simp: relation_def)
  with assms read_walk_complete [of m ts e "[]" n] show ?thesis
    by (auto simp: relation_walk_def relation_def)
qed

text \<open>A relation spells one thread.\<close>

lemma threaded_inj:
  assumes "threaded m ts e" "threaded m us f" "ending m e" "ending m f"
    "thread_head ts e = thread_head us f"
  shows "ts = us \<and> e = f"
  using assms
proof (induction ts arbitrary: us)
  case Nil
  then show ?case by (cases us) (auto simp: ending_def)
next
  case (Cons t ts)
  then obtain k i where t: "t = (k, i)" by (cases t)
  from Cons.prems t show ?case
  proof (cases us)
    case Nil
    with Cons.prems t show ?thesis by (auto simp: ending_def)
  next
    case us: (Cons u us')
    obtain k' i' where u: "u = (k', i')" by (cases u)
    from Cons.prems t us u have "k' = k" by simp
    with Cons.prems t us u have "i' = i" "thread_head ts e = thread_head us' f" by auto
    with Cons.IH [of us'] Cons.prems t us u \<open>k' = k\<close> show ?thesis by simp
  qed
qed

lemma relation_inj: "relation m root ts e \<Longrightarrow> relation m root us f \<Longrightarrow> ts = us \<and> e = f"
  unfolding relation_def by (elim conjE) (rule threaded_inj, auto)

lemma read_relation_Inr_iff:
  assumes "keyed m"
  shows "read_relation m root n = Inr ms \<longleftrightarrow>
    (\<exists>ts e. relation m root ts e \<and> ms = members_of m ts \<and> length (chain_ids ts e) \<le> n \<and> 1 \<le> n)"
  unfolding read_relation_def
  by (auto simp: rbind_Inr_iff relation_walk_Inr_iff [OF assms] not_less split: prod.splits)

lemma read_relation_relation:
  assumes "relation m root ts e" "length (chain_ids ts e) \<le> n" "1 \<le> n"
  shows "read_relation m root n = Inr (members_of m ts)"
  using assms by (simp add: read_relation_def relation_walk_relation)

section \<open>Threads in another graph\<close>

definition present :: "cells \<Rightarrow> cell list \<Rightarrow> bool" where
  "present m cs \<longleftrightarrow> (\<forall>c \<in> set cs. m (cid c) = Some c)"

lemma present_simps [simp]:
  "present m []" "present m (c # cs) \<longleftrightarrow> m (cid c) = Some c \<and> present m cs"
  "present m (cs @ ds) \<longleftrightarrow> present m cs \<and> present m ds"
  by (auto simp: present_def)

lemma present_put_cells: "distinct (map cid cs) \<Longrightarrow> present (put_cells cs m) cs"
  by (simp add: present_def put_cells_in)

lemma incidence_ok_frame: "incidence_ok m i \<Longrightarrow> m' i = m i \<Longrightarrow> dom m \<subseteq> dom m' \<Longrightarrow> incidence_ok m' i"
  unfolding incidence_ok_def by (metis domIff subset_iff)

lemma threaded_frame:
  assumes "threaded m ts e" "\<forall>k \<in> set (map fst ts) \<union> set (map snd ts). m' k = m k" "dom m \<subseteq> dom m'"
  shows "threaded m' ts e"
  using assms by (induction ts) (auto intro: incidence_ok_frame)

lemma members_frame: "\<forall>k \<in> set (map snd ts). m' k = m k \<Longrightarrow> members_of m' ts = members_of m ts"
  by (auto simp: members_of_def member_of_def)

lemma ending_frame: "ending m e \<Longrightarrow> m' e = m e \<Longrightarrow> ending m' e"
  by (simp add: ending_def)

lemma ending_NULL [simp]: "ending m NULL_CELL_ID"
  by (simp add: ending_def)

text \<open>A woven list of Cells is a thread, in a graph that holds them.\<close>

lemma weave_thread:
  assumes "present m (weave ks is ps)" "length ks = length ps" "length is = length ps"
    "NULL_CELL_ID \<notin> set ks" "NULL_CELL_ID \<notin> set is" "\<forall>(r, p) \<in> set ps. m r \<noteq> None \<and> m p \<noteq> None"
  shows "threaded m (zip ks is) NULL_CELL_ID \<and>
    members_of m (zip ks is) = map2 (\<lambda>i (r, p). Member i r p) is ps"
  using assms
proof (induction ks "is" ps rule: weave.induct)
  case (1 k ks i "is" r p ps)
  have "thread_head (zip ks is) NULL_CELL_ID = head_or_null ks"
    using "1.prems"(2,3) by (cases ks; cases "is") (auto simp: head_or_null_def)
  with 1 show ?case by (auto simp: incidence_ok_def member_of_def)
qed auto

lemma weave_cids:
  assumes "length ks = length ps" "length is = length ps"
  shows "set (map cid (weave ks is ps)) = set ks \<union> set is"
  using assms by (induction ks "is" ps rule: weave.induct) auto

lemma distinct_weave:
  assumes "length ks = length ps" "length is = length ps" "distinct (ks @ is)"
  shows "distinct (map cid (weave ks is ps))"
  using assms
proof (induction ks "is" ps rule: weave.induct)
  case (1 k ks i "is" r p ps)
  then have "set (map cid (weave ks is ps)) = set ks \<union> set is" by (intro weave_cids) auto
  moreover have "distinct (map cid (weave ks is ps))" using 1 by auto
  ultimately show ?case using 1 by auto
qed auto

lemma head_or_null_zip: "length ks = length is \<Longrightarrow> thread_head (zip ks is) NULL_CELL_ID = head_or_null ks"
  by (cases ks; cases "is") (auto simp: head_or_null_def)

end
