(* ===== verification/RelationEdits.thy ===== *)
theory RelationEdits
  imports RelationLaws
begin

text \<open>
  What the edits of \<open>Relations\<close> do to a relation, once the patch they prepare is laid on the graph:
  append, insert, remove and reorder act on the members as the list operations do, and leave a
  proper relation proper.
\<close>

section \<open>A patch laid on a graph\<close>

definition laid :: "cells \<Rightarrow> cell list \<Rightarrow> cell list \<Rightarrow> cells \<Rightarrow> bool" where
  "laid m cr rp m' \<longleftrightarrow>
     m' = put_cells (cr @ rp) m \<and> distinct (map cid (cr @ rp)) \<and> graph_ok m \<and> graph_ok m' \<and>
     (\<forall>c \<in> set cr. m (cid c) = None) \<and> (\<forall>c \<in> set rp. m (cid c) \<noteq> None \<and> cid c \<noteq> NULL_CELL_ID)"

lemma laidD:
  assumes "laid m cr rp m'"
  shows "present m' cr" "present m' rp" "dom m \<subseteq> dom m'" "distinct (map cid cr)" "graph_ok m" "graph_ok m'"
    "\<And>k. m k \<noteq> None \<Longrightarrow> k \<notin> cid ` set rp \<Longrightarrow> m' k = m k"
    "\<And>c. c \<in> set cr \<Longrightarrow> m (cid c) = None" "\<And>c. c \<in> set rp \<Longrightarrow> m (cid c) \<noteq> None \<and> cid c \<noteq> NULL_CELL_ID"
proof -
  from assms have "present m' (cr @ rp)" unfolding laid_def by (metis present_put_cells)
  then show "present m' cr" "present m' rp" by simp_all
  from assms have m': "m' = put_cells (cr @ rp) m" by (simp add: laid_def)
  show "dom m \<subseteq> dom m'" unfolding m' dom_put_cells by blast
  show "m' k = m k" if "m k \<noteq> None" "k \<notin> cid ` set rp" for k
    unfolding m' using assms that by (intro put_cells_notin) (auto simp: laid_def)
qed (use assms in \<open>auto simp: laid_def\<close>)

text \<open>
  A patch of a larger commit: the Cells it creates and replaces are in the new graph, and the Cells
  of a footprint \<open>F\<close> that it does not replace are as they were.
\<close>

definition lays :: "string set \<Rightarrow> cells \<Rightarrow> cell list \<Rightarrow> cell list \<Rightarrow> cells \<Rightarrow> bool" where
  "lays F m cr rp m' \<longleftrightarrow>
     present m' cr \<and> present m' rp \<and> dom m \<subseteq> dom m' \<and> distinct (map cid cr) \<and>
     m NULL_CELL_ID = Some null_cell \<and> graph_ok m' \<and>
     (\<forall>k \<in> F. m k \<noteq> None \<longrightarrow> k \<notin> cid ` set rp \<longrightarrow> m' k = m k) \<and>
     (\<forall>c \<in> set cr. m (cid c) = None) \<and> (\<forall>c \<in> set rp. m (cid c) \<noteq> None \<and> cid c \<noteq> NULL_CELL_ID)"

lemma laysD:
  assumes "lays F m cr rp m'"
  shows "present m' cr" "present m' rp" "dom m \<subseteq> dom m'" "distinct (map cid cr)" "m NULL_CELL_ID = Some null_cell"
    "graph_ok m'" "\<And>k. k \<in> F \<Longrightarrow> m k \<noteq> None \<Longrightarrow> k \<notin> cid ` set rp \<Longrightarrow> m' k = m k"
    "\<And>c. c \<in> set cr \<Longrightarrow> m (cid c) = None" "\<And>c. c \<in> set rp \<Longrightarrow> m (cid c) \<noteq> None \<and> cid c \<noteq> NULL_CELL_ID"
  using assms unfolding lays_def by blast+

lemma laid_lays: "laid m cr rp m' \<Longrightarrow> lays F m cr rp m'"
  unfolding lays_def using laidD [of m cr rp m'] graph_okD(3) [of m] by blast

text \<open>The Cells of a relation: its chain Cells and its incidences.\<close>

definition touched :: "thread \<Rightarrow> string \<Rightarrow> string set" where
  "touched ts e = set (map snd ts) \<union> set (chain_ids ts e)"

lemma thread_touched: "set (map fst ts) \<union> set (map snd ts) \<subseteq> touched ts e"
  by (auto simp: touched_def chain_ids_def)

lemma touched_append:
  "touched (ts @ us) e = set (map fst ts) \<union> set (map snd ts) \<union> touched us e"
  by (auto simp: touched_def chain_ids_append)

text \<open>A part of a thread away from the replaced Cells is as it was.\<close>

definition away :: "thread \<Rightarrow> cell list \<Rightarrow> bool" where
  "away ts rp \<longleftrightarrow> (set (map fst ts) \<union> set (map snd ts)) \<inter> cid ` set rp = {}"

lemma lays_thread:
  assumes l: "lays F m cr rp m'" and ts: "threaded m ts e" and away: "away ts rp"
    and F: "set (map fst ts) \<union> set (map snd ts) \<subseteq> F"
  shows "threaded m' ts e" "members_of m' ts = members_of m ts"
proof -
  have same: "\<forall>k \<in> set (map fst ts) \<union> set (map snd ts). m' k = m k"
  proof
    fix k assume k: "k \<in> set (map fst ts) \<union> set (map snd ts)"
    then have "m k \<noteq> None"
      using ts threaded_in_dom threaded_incidence incidence_in_dom by fastforce
    moreover have "k \<in> F" "k \<notin> cid ` set rp" using k F away unfolding away_def by blast+
    ultimately show "m' k = m k" using laysD(7) [OF l] by blast
  qed
  with ts laysD(3) [OF l] show "threaded m' ts e" by (blast intro: threaded_frame)
  from same show "members_of m' ts = members_of m ts" by (intro members_frame) auto
qed

lemma lays_incidence:
  assumes l: "lays F m cr rp m'" and i: "incidence_ok m i" "i \<notin> cid ` set rp" "i \<in> F"
  shows "incidence_ok m' i" "member_of m' i = member_of m i"
proof -
  have "m' i = m i" using laysD(7) [OF l i(3) incidence_in_dom [OF i(1)] i(2)] .
  with i(1) laysD(3) [OF l] show "incidence_ok m' i" "member_of m' i = member_of m i"
    by (auto intro: incidence_ok_frame simp: member_of_def)
qed

lemma laid_thread:
  assumes "laid m cr rp m'" "threaded m ts e" "away ts rp"
  shows "threaded m' ts e" "members_of m' ts = members_of m ts"
  using lays_thread [OF laid_lays [OF assms(1), of UNIV] assms(2,3)] by simp_all

lemma laid_incidence:
  assumes "laid m cr rp m'" "incidence_ok m i" "i \<notin> cid ` set rp"
  shows "incidence_ok m' i" "member_of m' i = member_of m i"
  using lays_incidence [OF laid_lays [OF assms(1), of UNIV] assms(2,3)] by simp_all

lemma laid_ending:
  assumes l: "laid m cr rp m'" and e: "ending m e" "e \<notin> cid ` set rp"
  shows "ending m' e"
proof (cases "e = NULL_CELL_ID")
  case False
  then have "m e \<noteq> None" using e(1) by (auto simp: ending_def)
  from laidD(7) [OF l this e(2)] e(1) show ?thesis by (rule ending_frame [rotated])
qed simp

text \<open>A Cell the new graph holds resolves: what it links to is there.\<close>

lemma graph_links: "graph_ok m \<Longrightarrow> m k = Some c \<Longrightarrow> m (link0 c) \<noteq> None \<and> m (link1 c) \<noteq> None"
  using closed_graphD [of m k c] graph_okD(2) by blast

lemma graph_incidence: "graph_ok m \<Longrightarrow> m i = Some (Cell i r p x) \<Longrightarrow> incidence_ok m i"
  using graph_links [of m i "Cell i r p x"] by (simp add: incidence_ok_def)

definition fresh_members :: "string list \<Rightarrow> (string \<times> string) list \<Rightarrow> relation_member list" where
  "fresh_members is ps = map2 (\<lambda>i (r, p). Member i r p) is ps"

lemma woven_thread:
  assumes "graph_ok m" "present m (weave ks is ps)" "length ks = length ps" "length is = length ps"
    "NULL_CELL_ID \<notin> set ks" "NULL_CELL_ID \<notin> set is"
  shows "threaded m (zip ks is) NULL_CELL_ID" "members_of m (zip ks is) = fresh_members is ps"
proof -
  have inc: "m i = Some (Cell i r p [])" if "(i, r, p) \<in> set (zip is ps)" for i r p
    using assms(2,3,4) that by (induction ks "is" ps rule: weave.induct) auto
  have "\<forall>(r, p) \<in> set ps. m r \<noteq> None \<and> m p \<noteq> None"
  proof (clarify)
    fix r p assume "(r, p) \<in> set ps"
    then obtain i where "(i, r, p) \<in> set (zip is ps)"
      using assms(4) by (metis in_set_impl_in_set_zip2)
    from graph_links [OF assms(1) inc [OF this]] show "m r \<noteq> None \<and> m p \<noteq> None" by simp
  qed
  with weave_thread [of m ks "is" ps] assms
  show "threaded m (zip ks is) NULL_CELL_ID" "members_of m (zip ks is) = fresh_members is ps"
    by (simp_all add: fresh_members_def)
qed

section \<open>Appending\<close>

lemma append_tail_thread:
  assumes "threaded m ts e" "ending m e" "distinct (chain_ids ts e)" "set (chain_ids ts e) \<inter> set seen = {}"
    "chain_ids ts e \<noteq> []"
  shows "append_tail m n seen (thread_head ts e) =
    (if length (chain_ids ts e) \<le> n then Inr (the (m (last (chain_ids ts e))))
     else Inl (MatchBudgetExceeded ''relation append exceeded its chain cells''))"
  using assms
proof (induction ts arbitrary: n seen)
  case Nil
  then show ?case by (cases n) (auto simp: ending_def split: if_splits)
next
  case (Cons t ts)
  obtain k i where t: "t = (k, i)" by (cases t)
  from Cons.prems(1) t obtain x where
    k: "k \<noteq> NULL_CELL_ID" "i \<noteq> NULL_CELL_ID" "m k = Some (Cell k i (thread_head ts e) x)"
    by auto
  show ?case
  proof (cases n)
    case 0
    then show ?thesis using t by simp
  next
    case (Suc n')
    show ?thesis
    proof (cases "chain_ids ts e = []")
      case True
      then have "thread_head ts e = NULL_CELL_ID" by (cases ts) (auto split: if_splits)
      with True k Suc t Cons.prems(4) show ?thesis by simp
    next
      case False
      then have "thread_head ts e \<noteq> NULL_CELL_ID"
        using Cons.prems(1) t by (cases ts) (auto split: if_splits)
      with False k Suc t Cons show ?thesis by (simp add: Cons.IH [of "k # seen" n'])
    qed
  qed
qed

lemma drawn_simps [simp]:
  "length (drawn pre lo n draw) = n"
  by (simp add: drawn_def)

lemma drawn_not_null: "pre \<in> {''incidence'', ''chain''} \<Longrightarrow> NULL_CELL_ID \<notin> set (drawn pre lo n draw)"
  by (auto simp: drawn_def new_id_def NULL_CELL_ID_def)

lemma proper_append:
  "proper (ts @ us) e \<longleftrightarrow>
     distinct (map snd ts) \<and> distinct (map snd us) \<and> set (map snd ts) \<inter> set (map snd us) = {} \<and>
     (set (map snd ts) \<union> set (map snd us)) \<inter> (set (map fst ts) \<union> set (chain_ids us e)) = {}"
  by (auto simp: proper_def chain_ids_append)

lemma chain_ids_in_dom:
  assumes "threaded m ts e" "ending m e" "k \<in> set (chain_ids ts e)"
  shows "m k \<noteq> None"
proof -
  from assms(3) consider "k \<in> set (map fst ts)" | "k = e" "e \<noteq> NULL_CELL_ID"
    by (auto simp: chain_ids_def split: if_splits)
  then show ?thesis
    using assms threaded_in_dom by cases (auto simp: ending_def)
qed

lemma incidences_in_dom:
  assumes "threaded m ts e" "i \<in> set (map snd ts)"
  shows "m i \<noteq> None"
  using assms threaded_incidence incidence_in_dom by fastforce


lemma relation_frame:
  assumes r: "relation m root ts e" and F: "\<forall>k \<in> touched ts e. m' k = m k" and dom: "dom m \<subseteq> dom m'"
  shows "relation m' root ts e" "members_of m' ts = members_of m ts"
proof -
  have t: "threaded m ts e" "ending m e" "m root \<noteq> None" using r by (auto simp: relation_def)
  have sub: "set (map fst ts) \<union> set (map snd ts) \<subseteq> touched ts e" using thread_touched .
  have "\<forall>k \<in> set (map fst ts) \<union> set (map snd ts). m' k = m k" using F sub by (meson subsetD)
  from threaded_frame [OF t(1) this dom] have "threaded m' ts e" .
  moreover have "ending m' e"
  proof (cases "e = NULL_CELL_ID")
    case False
    then have "e \<in> touched ts e" by (simp add: touched_def chain_ids_def)
    then have "m' e = m e" using F by blast
    with t(2) show ?thesis by (rule ending_frame)
  qed simp
  moreover have "m' root \<noteq> None" using t(3) dom by (meson domIff subsetD)
  ultimately show "relation m' root ts e" using r unfolding relation_def by simp
  have "\<forall>k \<in> set (map snd ts). m' k = m k" using F by (simp add: touched_def)
  then show "members_of m' ts = members_of m ts" by (rule members_frame)
qed

lemma touched_in_dom: "relation m root ts e \<Longrightarrow> k \<in> touched ts e \<Longrightarrow> m k \<noteq> None"
  using chain_ids_in_dom incidences_in_dom unfolding relation_def touched_def by blast

lemma lays_relation:
  assumes r: "relation m root ts e" and l: "lays F m cr rp m'"
    and F: "touched ts e \<subseteq> F" "touched ts e \<inter> cid ` set rp = {}"
  shows "relation m' root ts e" "members_of m' ts = members_of m ts"
proof -
  have "\<forall>k \<in> touched ts e. m' k = m k"
  proof
    fix k assume k: "k \<in> touched ts e"
    then have "k \<in> F" "k \<notin> cid ` set rp" using F by blast+
    with laysD(7) [OF l] touched_in_dom [OF r k] show "m' k = m k" by blast
  qed
  with r laysD(3) [OF l] show "relation m' root ts e" "members_of m' ts = members_of m ts"
    by (auto intro: relation_frame)
qed


text \<open>
  The suffix: its chain Cells are the empty tail, if there is one, and new Cells; its incidences are
  new Cells.
\<close>

lemma apart_sets:
  assumes "F \<subseteq> H" "H \<inter> C = {}" "S \<inter> C = {}" "U \<subseteq> C" "V \<subseteq> C \<union> X" "X \<subseteq> H" "S \<inter> H = {}" "V \<inter> U = {}"
  shows "S \<inter> U = {} \<and> (S \<union> U) \<inter> (F \<union> V) = {}"
  using assms by blast

lemma grown_relation:
  assumes r: "relation m root ts e" "proper ts e" and l: "lays F m cr rp m'"
    and thread: "threaded m' (ts @ us) NULL_CELL_ID" and mem: "members_of m' ts = members_of m ts"
    and new: "distinct (map fst us)" "distinct (map snd us)" "set (map fst us) \<inter> set (map snd us) = {}"
      "set (map snd us) \<subseteq> cid ` set cr" "set (map fst us) \<subseteq> cid ` set cr \<union> (if e = NULL_CELL_ID then {} else {e})"
    and hd: "root = thread_head (ts @ us) NULL_CELL_ID"
  shows "relation m' root (ts @ us) NULL_CELL_ID \<and> proper (ts @ us) NULL_CELL_ID \<and>
    members_of m' (ts @ us) = members_of m ts @ members_of m' us"
proof -
  from r have t: "threaded m ts e" "ending m e" "distinct (chain_ids ts e)" "m root \<noteq> None"
    by (auto simp: relation_def)
  have fresh: "k \<notin> cid ` set cr" if "k \<in> set (chain_ids ts e) \<union> set (map snd ts)" for k
  proof
    assume "k \<in> cid ` set cr"
    then have "m k = None" using laysD(8) [OF l] by auto
    with that chain_ids_in_dom [OF t(1,2)] incidences_in_dom [OF t(1)] show False by blast
  qed
  have chains: "set (map fst ts) \<subseteq> set (chain_ids ts e)" "e \<notin> set (map fst ts)"
    "e \<noteq> NULL_CELL_ID \<Longrightarrow> e \<in> set (chain_ids ts e)"
    using t(3) threaded_chain_not_null [OF t(1)] by (auto simp: chain_ids_def split: if_splits)
  have apart: "set (chain_ids ts e) \<inter> cid ` set cr = {}" "set (map snd ts) \<inter> cid ` set cr = {}"
    using fresh by blast+
  have us: "set (map fst us) \<subseteq> cid ` set cr \<union> ({e} - {NULL_CELL_ID})"
    using new(5) by (cases "e = NULL_CELL_ID") auto
  have old: "set (map snd ts) \<inter> set (chain_ids ts e) = {}" "distinct (map snd ts)" "distinct (map fst ts)"
    using r(2) t(3) by (auto simp: proper_def chain_ids_def)
  have "set (map fst ts) \<inter> set (map fst us) = {}"
    using chains(1,2) apart(1) us by blast
  with old(3) new(1) have "distinct (map fst (ts @ us))" unfolding map_append distinct_append by blast
  then have "relation m' root (ts @ us) NULL_CELL_ID"
    using thread hd t(4) laysD(3) [OF l] by (auto simp: relation_def chain_ids_def)
  moreover have "proper (ts @ us) NULL_CELL_ID"
  proof -
    have "set (map snd ts) \<inter> set (map snd us) = {}"
      "(set (map snd ts) \<union> set (map snd us)) \<inter> (set (map fst ts) \<union> set (map fst us)) = {}"
      using apart_sets [OF chains(1) apart new(4) us _ old(1) new(3)] chains(3) by blast+
    moreover have "set (chain_ids us NULL_CELL_ID) = set (map fst us)" by (simp add: chain_ids_def)
    ultimately show ?thesis using old(2) new(2) unfolding proper_append by blast
  qed
  ultimately show ?thesis using mem by simp
qed

lemma weave_cids_list:
  "length ks = length ps \<Longrightarrow> length is = length ps \<Longrightarrow> cid ` set (weave ks is ps) = set ks \<union> set is"
  using weave_cids [of ks ps "is"] by simp

lemma distinct_weave_iff:
  assumes "length ks = length ps" "length is = length ps"
  shows "distinct (map cid (weave ks is ps)) \<longleftrightarrow> distinct (ks @ is)"
  using assms
proof (induction ks "is" ps rule: weave.induct)
  case (1 k ks i "is" r p ps)
  then have "cid ` set (weave ks is ps) = set ks \<union> set is" by (intro weave_cids_list) auto
  with 1 show ?case by auto
qed auto

lemma append_to_tail:
  assumes r: "relation m root ts e" "proper ts e" and e: "e \<noteq> NULL_CELL_ID"
    and l: "lays F m (Cell (hd is) (fst (hd ps)) (snd (hd ps)) [] # weave ks (tl is) (tl ps))
      [Cell e (hd is) (head_or_null ks) x] m'"
    and len: "length is = length ps" "length ks = length ps - 1" "ps \<noteq> []"
    and null: "NULL_CELL_ID \<notin> set is" "NULL_CELL_ID \<notin> set ks" and F: "touched ts e \<subseteq> F"
  shows "\<exists>us. relation m' root (ts @ us) NULL_CELL_ID \<and> proper (ts @ us) NULL_CELL_ID \<and>
    members_of m' (ts @ us) = members_of m ts @ fresh_members is ps \<and>
    touched us NULL_CELL_ID = insert e (set is \<union> set ks)"
proof -
  have F': "set (map fst ts) \<union> set (map snd ts) \<subseteq> F" using F thread_touched [of ts e] by blast
  obtain i is' r p ps' where ip: "is = i # is'" "ps = (r, p) # ps'" "length is' = length ps'"
    using len by (cases "is"; cases ps) auto
  note l = l [unfolded ip list.sel fst_conv snd_conv]
  define us where "us = (e, i) # zip ks is'"
  have t: "threaded m ts e" "ending m e" "distinct (chain_ids ts e)" "root = thread_head ts e"
    using r by (auto simp: relation_def)
  have ks: "length ks = length ps'" using len ip by simp
  have w: "threaded m' (zip ks is') NULL_CELL_ID" "members_of m' (zip ks is') = fresh_members is' ps'"
    using laysD(1,6) [OF l] ks ip null by (intro woven_thread; simp)+
  have inc: "m' i = Some (Cell i r p [])" using laysD(1) [OF l] by simp
  have "m' e = Some (Cell e i (head_or_null ks) x)" using laysD(2) [OF l] by simp
  with e w(1) inc null ip ks graph_incidence [OF laysD(6) [OF l] inc] head_or_null_zip [of ks is']
  have us: "threaded m' us NULL_CELL_ID" by (auto simp: us_def)
  have e_not: "e \<notin> set (map fst ts)" using t(3) e by (simp add: chain_ids_def)
  have "away ts [Cell e i (head_or_null ks) x]"
    using r(2) e e_not by (auto simp: away_def proper_def chain_ids_def)
  from lays_thread [OF l t(1) this F'] have old: "threaded m' ts e" "members_of m' ts = members_of m ts" by auto
  have d: "distinct (i # ks @ is')"
    using laysD(4) [OF l] ks ip distinct_weave_iff [of ks ps' is'] weave_cids_list [of ks ps' is'] by auto
  have e_new: "e \<notin> cid ` set (Cell i r p [] # weave ks is' ps')"
  proof
    assume "e \<in> cid ` set (Cell i r p [] # weave ks is' ps')"
    then obtain c where c: "c \<in> set (Cell i r p [] # weave ks is' ps')" "e = cid c" by (rule imageE)
    then have "m e = None" using laysD(8) [OF l c(1)] by simp
    with chain_ids_in_dom [OF t(1,2), of e] e show False by (simp add: chain_ids_def)
  qed
  have fst_us: "map fst us = e # ks" "map snd us = i # is'" using ks ip by (auto simp: us_def)
  have cids: "cid ` set (Cell i r p [] # weave ks is' ps') = insert i (set ks \<union> set is')"
    using weave_cids_list [of ks ps' is'] ks ip by simp
  have "relation m' root (ts @ us) NULL_CELL_ID \<and> proper (ts @ us) NULL_CELL_ID \<and>
      members_of m' (ts @ us) = members_of m ts @ members_of m' us"
  proof (rule grown_relation [OF r l _ old(2)])
    show "threaded m' (ts @ us) NULL_CELL_ID" using old(1) us by (simp add: us_def)
    show "root = thread_head (ts @ us) NULL_CELL_ID" using t(4) by (simp add: us_def)
  qed (unfold fst_us cids, use d e e_new [unfolded cids] in auto)
  moreover have "members_of m' us = fresh_members is ps"
    using w(2) inc ip by (simp add: us_def fresh_members_def member_of_def)
  moreover have "touched us NULL_CELL_ID = insert e (set is \<union> set ks)"
    unfolding touched_def chain_ids_def fst_us ip(1) by auto
  ultimately show ?thesis by metis
qed

lemma append_to_last:
  assumes r: "relation m root (ts @ [(k, i)]) NULL_CELL_ID" "proper (ts @ [(k, i)]) NULL_CELL_ID"
    and l: "lays F m (weave ks is ps) [Cell k i (head_or_null ks) x] m'"
    and len: "length is = length ps" "length ks = length ps"
    and null: "NULL_CELL_ID \<notin> set is" "NULL_CELL_ID \<notin> set ks" and F: "touched (ts @ [(k, i)]) NULL_CELL_ID \<subseteq> F"
  shows "\<exists>us. relation m' root ((ts @ [(k, i)]) @ us) NULL_CELL_ID \<and> proper ((ts @ [(k, i)]) @ us) NULL_CELL_ID \<and>
    members_of m' ((ts @ [(k, i)]) @ us) = members_of m (ts @ [(k, i)]) @ fresh_members is ps \<and>
    touched us NULL_CELL_ID = set is \<union> set ks"
proof -
  have F': "set (map fst ts) \<union> set (map snd ts) \<subseteq> F" using F by (auto simp: touched_append)
  define us where "us = zip ks is"
  have t: "threaded m ts k" "threaded m [(k, i)] NULL_CELL_ID" "distinct (map fst ts @ [k])"
      "root = thread_head (ts @ [(k, i)]) NULL_CELL_ID"
    using r by (auto simp: relation_def chain_ids_def)
  have w: "threaded m' us NULL_CELL_ID" "members_of m' us = fresh_members is ps"
    unfolding us_def using laysD(1,6) [OF l] len null by (intro woven_thread; simp)+
  have i: "i \<noteq> NULL_CELL_ID" "incidence_ok m i" "k \<noteq> NULL_CELL_ID" "i \<noteq> k"
    using t(2) r(2) by (auto simp: proper_append)
  have "away ts [Cell k i (head_or_null ks) x]"
    using r(2) t(3) by (auto simp: away_def proper_append)
  from lays_thread [OF l t(1) this F'] have old: "threaded m' ts k" "members_of m' ts = members_of m ts" by auto
  have inc: "incidence_ok m' i" "member_of m' i = member_of m i"
    using lays_incidence [OF l i(2)] i(4) F thread_touched [of "ts @ [(k, i)]"] by auto
  have "m' k = Some (Cell k i (head_or_null ks) x)" using laysD(2) [OF l] by simp
  with i inc len head_or_null_zip [of ks "is"]
  have "threaded m' ((k, i) # us) NULL_CELL_ID" using w(1) by (auto simp: us_def)
  with old(1) have thread: "threaded m' ((ts @ [(k, i)]) @ us) NULL_CELL_ID" by simp
  have d: "distinct (ks @ is)" using laysD(4) [OF l] len distinct_weave_iff [of ks ps "is"] by simp
  have cids: "cid ` set (weave ks is ps) = set ks \<union> set is" using weave_cids_list [of ks ps "is"] len by simp
  have us_sets: "map fst us = ks" "map snd us = is" using len by (auto simp: us_def)
  have "relation m' root ((ts @ [(k, i)]) @ us) NULL_CELL_ID \<and> proper ((ts @ [(k, i)]) @ us) NULL_CELL_ID \<and>
      members_of m' ((ts @ [(k, i)]) @ us) = members_of m (ts @ [(k, i)]) @ members_of m' us"
  proof (rule grown_relation [OF r l thread])
    show "members_of m' (ts @ [(k, i)]) = members_of m (ts @ [(k, i)])" using old(2) inc(2) by simp
    show "root = thread_head ((ts @ [(k, i)]) @ us) NULL_CELL_ID" using t(4) by (cases ts) auto
    show "distinct (map fst us)" "distinct (map snd us)" "set (map fst us) \<inter> set (map snd us) = {}"
      unfolding us_sets using d by auto
    show "set (map snd us) \<subseteq> cid ` set (weave ks is ps)"
      "set (map fst us) \<subseteq> cid ` set (weave ks is ps) \<union> (if NULL_CELL_ID = NULL_CELL_ID then {} else {NULL_CELL_ID})"
      unfolding us_sets cids by auto
  qed
  moreover have "touched us NULL_CELL_ID = set is \<union> set ks"
    unfolding touched_def chain_ids_def us_sets by auto
  ultimately show ?thesis using w(2) by metis
qed

text \<open>Appending, whatever the relation ends in.\<close>

lemma prepare_append_Inr:
  assumes r: "relation m root ts e" and ps: "ps \<noteq> []"
    and p: "prepare_append_relation_members m root ps n draw = Inr p"
  shows "if chain_ids ts e = [] then p = append_patch (the (m NULL_CELL_ID)) ps draw \<or> m NULL_CELL_ID \<noteq> Some null_cell
    else p = append_patch (the (m (last (chain_ids ts e)))) ps draw \<and> length (chain_ids ts e) \<le> n"
proof (cases "chain_ids ts e = []")
  case True
  then have "root = NULL_CELL_ID" using r by (cases ts) (auto simp: relation_def split: if_splits)
  with True p ps show ?thesis
    by (cases n) (auto simp: prepare_append_relation_members_def split: if_splits option.splits)
next
  case False
  from append_tail_thread [of m ts e "[]" n] r False
  have "append_tail m n [] root =
    (if length (chain_ids ts e) \<le> n then Inr (the (m (last (chain_ids ts e))))
     else Inl (MatchBudgetExceeded ''relation append exceeded its chain cells''))"
    by (auto simp: relation_def)
  with False p ps show ?thesis
    by (auto simp: prepare_append_relation_members_def split: if_splits)
qed

lemma append_edit_grows:
  assumes r: "relation m root ts e" "proper ts e"
    and p: "prepare_append_relation_members m root ps n draw = Inr p"
    and l: "lays F m (rp_create p) (rp_replace p) m'" and F: "touched ts e \<subseteq> F"
  shows "(\<exists>us f. relation m' root us f \<and> proper us f \<and>
    members_of m' us = members_of m ts @ fresh_members (rp_incidences p) ps \<and>
    touched us f \<subseteq> touched ts e \<union> cid ` set (rp_create p)) \<and> cid ` set (rp_replace p) \<subseteq> touched ts e"
proof (cases "ps = []")
  case True
  with p have p: "p = Patch [] [] []" by (simp add: prepare_append_relation_members_def)
  with lays_relation [OF r(1) l] F r True show ?thesis by (intro conjI exI [of _ ts] exI [of _ e]) (auto simp: fresh_members_def)
next
  case ps: False
  have t: "threaded m ts e" "ending m e" using r by (auto simp: relation_def)
  have not_empty: "chain_ids ts e \<noteq> []"
  proof
    assume "chain_ids ts e = []"
    with prepare_append_Inr [OF r(1) ps p] laysD(5) [OF l]
    have "cid (hd (rp_replace p)) = NULL_CELL_ID" "rp_replace p \<noteq> []"
      by (auto simp: append_patch_def Let_def)
    with laysD(9) [OF l, of "hd (rp_replace p)"] show False by simp
  qed
  then have p: "p = append_patch (the (m (last (chain_ids ts e)))) ps draw"
    using prepare_append_Inr [OF r(1) ps p] by simp
  show ?thesis
  proof (cases "e = NULL_CELL_ID")
    case False
    let ?is = "drawn ''incidence'' 0 (length ps) draw" and ?ks = "drawn ''chain'' (length ps) (length ps - 1) draw"
    from False t obtain x where x: "m e = Some (Cell e NULL_CELL_ID NULL_CELL_ID x)" by (auto simp: ending_def)
    have "last (chain_ids ts e) = e" using False by (simp add: chain_ids_def)
    with x p have p: "p = Patch ?is (Cell (hd ?is) (fst (hd ps)) (snd (hd ps)) [] # weave ?ks (tl ?is) (tl ps))
        [Cell e (hd ?is) (head_or_null ?ks) x]"
      by (simp add: append_patch_def Let_def)
    have "\<exists>us. relation m' root (ts @ us) NULL_CELL_ID \<and> proper (ts @ us) NULL_CELL_ID \<and>
        members_of m' (ts @ us) = members_of m ts @ fresh_members ?is ps \<and> touched us NULL_CELL_ID = insert e (set ?is \<union> set ?ks)"
      using append_to_tail [OF r False _ _ _ ps drawn_not_null drawn_not_null F] l p by simp
    then obtain us where us: "relation m' root (ts @ us) NULL_CELL_ID" "proper (ts @ us) NULL_CELL_ID"
      "members_of m' (ts @ us) = members_of m ts @ fresh_members ?is ps" "touched us NULL_CELL_ID = insert e (set ?is \<union> set ?ks)"
      by blast
    have "cid ` set (rp_create p) = set ?is \<union> set ?ks"
    proof -
      obtain i is' where i: "?is = i # is'" using ps by (cases ?is) (auto simp: drawn_def)
      have "length is' = length (tl ps)" using arg_cong [OF i, of length] by simp
      then show ?thesis using weave_cids_list [of ?ks "tl ps" is'] unfolding p i by (simp add: Un_commute)
    qed
    moreover have "e \<in> touched ts e" "set (map fst ts) \<union> set (map snd ts) \<subseteq> touched ts e"
      using False thread_touched by (auto simp: touched_def chain_ids_def)
    ultimately have "touched (ts @ us) NULL_CELL_ID \<subseteq> touched ts e \<union> cid ` set (rp_create p)"
      unfolding touched_append us(4) by blast
    with us \<open>e \<in> touched ts e\<close> show ?thesis unfolding p by (auto intro!: exI [of _ "ts @ us"] exI [of _ NULL_CELL_ID])
  next
    case True
    let ?is = "drawn ''incidence'' 0 (length ps) draw" and ?ks = "drawn ''chain'' (length ps) (length ps) draw"
    from True not_empty obtain us k i where ts: "ts = us @ [(k, i)]"
      by (cases ts rule: rev_cases) auto
    with t True obtain x where x: "m k = Some (Cell k i NULL_CELL_ID x)" "i \<noteq> NULL_CELL_ID" by auto
    have "last (chain_ids ts e) = k" using ts True by (simp add: chain_ids_def)
    with x p have p: "p = Patch ?is (weave ?ks ?is ps) [Cell k i (head_or_null ?ks) x]"
      by (simp add: append_patch_def Let_def)
    have "\<exists>vs. relation m' root (ts @ vs) NULL_CELL_ID \<and> proper (ts @ vs) NULL_CELL_ID \<and>
        members_of m' (ts @ vs) = members_of m ts @ fresh_members ?is ps \<and> touched vs NULL_CELL_ID = set ?is \<union> set ?ks"
      using append_to_last [of m root us k i F ?ks ?is ps x m', OF _ _ _ _ _ drawn_not_null drawn_not_null] r l p F ts True
      by simp
    then obtain vs where us: "relation m' root (ts @ vs) NULL_CELL_ID" "proper (ts @ vs) NULL_CELL_ID"
      "members_of m' (ts @ vs) = members_of m ts @ fresh_members ?is ps" "touched vs NULL_CELL_ID = set ?is \<union> set ?ks"
      by blast
    have "cid ` set (rp_create p) = set ?is \<union> set ?ks" using weave_cids_list [of ?ks ps ?is] unfolding p by (simp add: Un_commute)
    moreover have "k \<in> touched ts e" using ts by (simp add: touched_def chain_ids_def)
    ultimately have "touched (ts @ vs) NULL_CELL_ID \<subseteq> touched ts e \<union> cid ` set (rp_create p)"
      unfolding touched_append us(4) using thread_touched [of ts e] by blast
    with us \<open>k \<in> touched ts e\<close> show ?thesis unfolding p by (auto intro!: exI [of _ "ts @ vs"] exI [of _ NULL_CELL_ID])
  qed
qed

lemma append_edit:
  assumes "relation m root ts e" "proper ts e" "prepare_append_relation_members m root ps n draw = Inr p"
    and "laid m (rp_create p) (rp_replace p) m'"
  shows "\<exists>us f. relation m' root us f \<and> proper us f \<and>
    members_of m' us = members_of m ts @ fresh_members (rp_incidences p) ps"
  using append_edit_grows [OF assms(1-3) laid_lays [OF assms(4), of UNIV] subset_UNIV] by blast

section \<open>Inserting\<close>

lemma thread_in_dom:
  assumes "relation m root ts e" "j \<in> set (chain_ids ts e) \<union> set (map snd ts)"
  shows "m j \<noteq> None"
proof -
  from assms(1) have "threaded m ts e" "ending m e" by (auto simp: relation_def)
  with assms(2) show ?thesis using chain_ids_in_dom incidences_in_dom by blast
qed

lemma chain_walk_thread:
  assumes "threaded m ts e" "ending m e" "distinct (chain_ids ts e)" "set (chain_ids ts e) \<inter> set seen = {}"
  shows "chain_walk m n seen (thread_head ts e) =
    (if length (chain_ids ts e) \<le> n then Inr (chain_ids ts e)
     else Inl (MatchBudgetExceeded ''relation traversal exceeded its chain cells''))"
  using assms
proof (induction ts arbitrary: n seen)
  case Nil
  show ?case
  proof (cases "e = NULL_CELL_ID")
    case True
    then show ?thesis by (simp add: chain_walk.simps [of m n])
  next
    case False
    with Nil obtain x where "m e = Some (Cell e NULL_CELL_ID NULL_CELL_ID x)" by (auto simp: ending_def)
    with False Nil show ?thesis
      by (cases n) (auto simp: chain_walk.simps [of m 0] chain_walk.simps [of m "Suc _"]
          chain_walk.simps [of m _ _ NULL_CELL_ID])
  qed
next
  case (Cons t ts)
  obtain k i where t: "t = (k, i)" by (cases t)
  from Cons.prems(1) t obtain x where k: "k \<noteq> NULL_CELL_ID" "m k = Some (Cell k i (thread_head ts e) x)"
    by auto
  show ?case
  proof (cases n)
    case 0
    then show ?thesis using t k by (simp add: chain_walk.simps [of m 0])
  next
    case (Suc n')
    have "chain_walk m n' (k # seen) (thread_head ts e) =
      (if length (chain_ids ts e) \<le> n' then Inr (chain_ids ts e)
       else Inl (MatchBudgetExceeded ''relation traversal exceeded its chain cells''))"
      using Cons.prems t by (intro Cons.IH) auto
    with k Suc t Cons.prems(4) show ?thesis by (simp add: chain_walk.simps [of m "Suc n'"])
  qed
qed

lemma relation_chain_ids_relation:
  assumes "relation m root ts e"
  shows "relation_chain_ids m root n =
    (if length (chain_ids ts e) \<le> n then Inr (chain_ids ts e)
     else Inl (MatchBudgetExceeded ''relation traversal exceeded its chain cells''))"
proof -
  from assms have "m root \<noteq> None" "root = thread_head ts e" by (auto simp: relation_def)
  with assms chain_walk_thread [of m ts e "[]" n] show ?thesis
    by (auto simp: relation_chain_ids_def relation_def)
qed

text \<open>A member spliced in after one of the thread, and one put before the first.\<close>

lemma splice_after:
  assumes r: "relation m root (xs @ (k, i) # ys) e" "proper (xs @ (k, i) # ys) e"
    and l: "laid m [Cell inc role p [], Cell c inc (thread_head ys e) []] [Cell k i c x] m'"
    and null: "inc \<noteq> NULL_CELL_ID" "c \<noteq> NULL_CELL_ID"
  shows "relation m' root (xs @ (k, i) # (c, inc) # ys) e \<and> proper (xs @ (k, i) # (c, inc) # ys) e \<and>
    members_of m' (xs @ (k, i) # (c, inc) # ys) =
      members_of m (xs @ [(k, i)]) @ Member inc role p # members_of m ys"
proof -
  have t: "threaded m xs k" "threaded m ys e" "k \<noteq> NULL_CELL_ID" "i \<noteq> NULL_CELL_ID" "incidence_ok m i"
    "ending m e" "m root \<noteq> None" "root = thread_head xs k"
    "distinct (map fst xs @ k # chain_ids ys e)"
    using r(1) by (auto simp: relation_def chain_ids_append)
  have pr: "distinct (map snd xs @ i # map snd ys)"
    "(set (map snd xs) \<union> {i} \<union> set (map snd ys)) \<inter> (set (map fst xs) \<union> {k} \<union> set (chain_ids ys e)) = {}"
    using r(2) unfolding proper_append by auto
  have fsty: "set (map fst ys) \<subseteq> set (chain_ids ys e)" by (auto simp: chain_ids_def)
  have aw: "away xs [Cell k i c x]" "away ys [Cell k i c x]"
    using t(9) pr(2) fsty by (auto simp: away_def)
  note old = laid_thread [OF l t(1) aw(1)] laid_thread [OF l t(2) aw(2)]
  have "i \<notin> cid ` set [Cell k i c x]" using pr by auto
  note oldi = laid_incidence [OF l t(5) this]
  have new: "m' inc = Some (Cell inc role p [])" "m' c = Some (Cell c inc (thread_head ys e) [])"
    "m' k = Some (Cell k i c x)"
    using laidD(1,2) [OF l] by auto
  have "e \<notin> cid ` set [Cell k i c x]" using t(3,9) by (auto simp: chain_ids_def split: if_splits)
  with l t(6) have "ending m' e" by (rule laid_ending)
  moreover have inc: "incidence_ok m' inc" by (rule graph_incidence [OF laidD(6) [OF l] new(1)])
  ultimately have thread: "threaded m' (xs @ (k, i) # (c, inc) # ys) e \<and> ending m' e"
    using old oldi new t(3,4) null by auto
  have fresh: "m inc = None" "m c = None" "c \<noteq> inc"
    using laidD(4) [OF l] laidD(8) [OF l, of "Cell inc role p []"] laidD(8) [OF l, of "Cell c inc (thread_head ys e) []"]
    by simp_all
  have in_dom: "m j \<noteq> None" if "j \<in> set (map fst xs) \<union> {k} \<union> set (chain_ids ys e) \<union> set (map snd xs) \<union> {i} \<union> set (map snd ys)" for j
    by (rule thread_in_dom [OF r(1)])
      (use that in \<open>simp only: chain_ids_append chain_ids_simps list.map map_append set_append list.set snd_conv fst_conv Un_iff insert_iff empty_iff; elim disjE; simp\<close>)
  have notin: "inc \<notin> set (map fst xs) \<union> {k} \<union> set (chain_ids ys e) \<union> set (map snd xs) \<union> {i} \<union> set (map snd ys)"
    "c \<notin> set (map fst xs) \<union> {k} \<union> set (chain_ids ys e) \<union> set (map snd xs) \<union> {i} \<union> set (map snd ys)"
    using in_dom [of inc] in_dom [of c] fresh(1,2) by argo+
  have "distinct (chain_ids (xs @ (k, i) # (c, inc) # ys) e)"
    using t(9) notin(2) by (auto simp: chain_ids_append)
  moreover have "proper (xs @ (k, i) # (c, inc) # ys) e"
    using pr notin fresh(3) by (auto simp: proper_append)
  moreover have "m' root \<noteq> None" using t(7) laidD(3) [OF l] by auto
  moreover have "root = thread_head (xs @ (k, i) # (c, inc) # ys) e" using t(8) by simp
  moreover have "member_of m' inc = Member inc role p" using new(1) by (simp add: member_of_def)
  ultimately show ?thesis using thread old oldi by (simp add: relation_def)
qed

lemma splice_front:
  assumes r: "relation m k ((k, i) # ys) e" "proper ((k, i) # ys) e"
    and l: "laid m [Cell inc role p [], Cell c i (thread_head ys e) []] [Cell k inc c x] m'"
    and null: "inc \<noteq> NULL_CELL_ID" "c \<noteq> NULL_CELL_ID"
  shows "relation m' k ((k, inc) # (c, i) # ys) e \<and> proper ((k, inc) # (c, i) # ys) e \<and>
    members_of m' ((k, inc) # (c, i) # ys) = Member inc role p # members_of m ((k, i) # ys)"
proof -
  have t: "threaded m ys e" "k \<noteq> NULL_CELL_ID" "i \<noteq> NULL_CELL_ID" "incidence_ok m i"
    "ending m e" "m k \<noteq> None" "distinct (k # chain_ids ys e)"
    using r(1) by (auto simp: relation_def)
  have pr: "distinct (i # map snd ys)" "({i} \<union> set (map snd ys)) \<inter> ({k} \<union> set (chain_ids ys e)) = {}"
    using r(2) unfolding proper_def by auto
  have fsty: "set (map fst ys) \<subseteq> set (chain_ids ys e)" by (auto simp: chain_ids_def)
  have aw: "away ys [Cell k inc c x]" using t(7) pr(2) fsty by (auto simp: away_def)
  note old = laid_thread [OF l t(1) aw]
  have "i \<notin> cid ` set [Cell k inc c x]" using pr by auto
  note oldi = laid_incidence [OF l t(4) this]
  have new: "m' inc = Some (Cell inc role p [])" "m' c = Some (Cell c i (thread_head ys e) [])"
    "m' k = Some (Cell k inc c x)"
    using laidD(1,2) [OF l] by auto
  have "e \<notin> cid ` set [Cell k inc c x]" using t(2,7) by (auto simp: chain_ids_def split: if_splits)
  with l t(5) have "ending m' e" by (rule laid_ending)
  moreover have inc: "incidence_ok m' inc" by (rule graph_incidence [OF laidD(6) [OF l] new(1)])
  ultimately have thread: "threaded m' ((k, inc) # (c, i) # ys) e \<and> ending m' e"
    using old oldi new t(2,3) null by auto
  have fresh: "m inc = None" "m c = None" "c \<noteq> inc"
    using laidD(4) [OF l] laidD(8) [OF l, of "Cell inc role p []"] laidD(8) [OF l, of "Cell c i (thread_head ys e) []"]
    by simp_all
  have in_dom: "m j \<noteq> None" if "j \<in> {k} \<union> set (chain_ids ys e) \<union> {i} \<union> set (map snd ys)" for j
    by (rule thread_in_dom [OF r(1)])
      (use that in \<open>simp only: chain_ids_append chain_ids_simps list.map map_append set_append list.set snd_conv fst_conv Un_iff insert_iff empty_iff; elim disjE; simp\<close>)
  have notin: "inc \<notin> {k} \<union> set (chain_ids ys e) \<union> {i} \<union> set (map snd ys)"
    "c \<notin> {k} \<union> set (chain_ids ys e) \<union> {i} \<union> set (map snd ys)"
    using in_dom [of inc] in_dom [of c] fresh(1,2) by argo+
  have "distinct (chain_ids ((k, inc) # (c, i) # ys) e)" using t(7) notin(2) by auto
  moreover have "proper ((k, inc) # (c, i) # ys) e" using pr notin fresh(3) by (auto simp: proper_def)
  moreover have "member_of m' inc = Member inc role p" using new(1) by (simp add: member_of_def)
  ultimately show ?thesis using thread old oldi new(3) by (simp add: relation_def)
qed

text \<open>The first member of an empty relation.\<close>

lemma first_member:
  assumes r: "relation m root [] e"
    and l: "laid m [Cell inc role p []] [Cell root inc NULL_CELL_ID x] m'"
    and null: "inc \<noteq> NULL_CELL_ID"
  shows "relation m' root [(root, inc)] NULL_CELL_ID \<and> proper [(root, inc)] NULL_CELL_ID \<and>
    members_of m' [(root, inc)] = [Member inc role p]"
proof -
  have new: "m' inc = Some (Cell inc role p [])" "m' root = Some (Cell root inc NULL_CELL_ID x)"
    using laidD(1,2) [OF l] by auto
  have "root \<noteq> NULL_CELL_ID" "inc \<noteq> root"
    using laidD(8) [OF l, of "Cell inc role p []"] laidD(9) [OF l, of "Cell root inc NULL_CELL_ID x"] by auto
  with new null graph_incidence [OF laidD(6) [OF l] new(1)] show ?thesis
    by (simp add: relation_def proper_def member_of_def)
qed

text \<open>Where an insertion puts its member.\<close>

definition position :: "'a \<Rightarrow> 'a list \<Rightarrow> nat" where
  "position x xs = length (takeWhile (\<lambda>y. y \<noteq> x) xs)"

definition place :: "string option \<Rightarrow> string option \<Rightarrow> string list \<Rightarrow> nat" where
  "place before after ids =
     (case before of Some b \<Rightarrow> position b ids
      | None \<Rightarrow> (case after of Some a \<Rightarrow> Suc (position a ids) | None \<Rightarrow> length ids))"

definition insert_at :: "nat \<Rightarrow> 'a \<Rightarrow> 'a list \<Rightarrow> 'a list" where
  "insert_at n x xs = take n xs @ x # drop n xs"

lemma index_of_Inr:
  "index_of x ys = Inr n \<Longrightarrow> \<exists>as bs. ys = as @ x # bs \<and> x \<notin> set as \<and> n = length as \<and> position x ys = n"
proof (induction ys arbitrary: n)
  case (Cons y ys)
  show ?case
  proof (cases "y = x")
    case True
    with Cons.prems show ?thesis by (intro exI [of _ "[]"] exI [of _ ys]) (auto simp: position_def)
  next
    case False
    with Cons.prems obtain n' where n': "index_of x ys = Inr n'" "n = Suc n'" by auto
    from Cons.IH [OF n'(1)] obtain as bs where
      "ys = as @ x # bs" "x \<notin> set as" "n' = length as" "position x ys = n'"
      by blast
    with False n' show ?thesis by (intro exI [of _ "y # as"] exI [of _ bs]) (auto simp: position_def)
  qed
qed simp

lemma index_of_thread:
  assumes "index_of i (map snd ts) = Inr n"
  obtains xs k ys where "ts = xs @ (k, i) # ys" "n = length xs" "position i (map snd ts) = n"
proof -
  from index_of_Inr [OF assms] obtain as bs where
    s: "map snd ts = as @ i # bs" "n = length as" "position i (map snd ts) = n" by blast
  from s(1) obtain xs t ys where "ts = xs @ t # ys" "map snd xs = as" "snd t = i"
    by (auto simp: map_eq_append_conv map_eq_Cons_conv)
  with s that show ?thesis by (cases t) auto
qed

lemma new_id_not_null: "pre \<in> {''incidence'', ''chain''} \<Longrightarrow> new_id pre u \<noteq> NULL_CELL_ID"
  by (auto simp: new_id_def NULL_CELL_ID_def)

lemma cell_of_Inr [simp]: "cell_of m k = Inr c \<longleftrightarrow> m k = Some c"
  by (simp add: cell_of_def split: option.splits)

lemma insert_at_members:
  "insert_at (length xs) y (members_of m (xs @ ys)) = members_of m xs @ y # members_of m ys"
  by (simp add: insert_at_def)

lemma insert_after_edit:
  assumes r: "relation m root ts e" "proper ts e" and ts: "ts = xs @ (k, i) # ys"
    and c: "m k = Some c"
    and l: "laid m [Cell inc role p [], Cell new inc (link1 c) []] [Cell (cid c) (link0 c) new (atom c)] m'"
    and null: "inc \<noteq> NULL_CELL_ID" "new \<noteq> NULL_CELL_ID"
  shows "\<exists>us f. relation m' root us f \<and> proper us f \<and>
    members_of m' us = insert_at (Suc (length xs)) (Member inc role p) (members_of m ts)"
proof -
  from r ts c have "c = Cell k i (thread_head ys e) (atom c)"
    by (auto simp: relation_def)
  with l have l: "laid m [Cell inc role p [], Cell new inc (thread_head ys e) []] [Cell k i new (atom c)] m'"
    by (metis cell.select_convs)
  from splice_after [OF r [unfolded ts] l null] show ?thesis
    using insert_at_members [of "xs @ [(k, i)]" "Member inc role p" m ys] ts by fastforce
qed

lemma insert_edit:
  assumes r: "relation m root ts e" "proper ts e"
    and p: "insert_patch m root role participant before after n draw = Inr p"
    and l: "laid m (rp_create p) (rp_replace p) m'"
  shows "\<exists>us f. relation m' root us f \<and> proper us f \<and> members_of m' us =
    insert_at (place before after (map snd ts)) (Member (hd (rp_incidences p)) role participant) (members_of m ts)"
proof -
  let ?inc = "new_id ''incidence'' (draw 0)" and ?new = "new_id ''chain'' (draw 1)"
  have null: "?inc \<noteq> NULL_CELL_ID" "?new \<noteq> NULL_CELL_ID" by (simp_all add: new_id_not_null)
  note D = insert_patch_def
  from p obtain chains members where chains: "relation_chain_ids m root n = Inr chains"
    and members: "read_relation m root n = Inr members"
    unfolding insert_patch_def by (auto split: if_splits)
  from chains have chains': "chains = chain_ids ts e"
    using relation_chain_ids_relation [OF r(1)] by (auto split: if_splits)
  from members have members': "members = members_of m ts"
    using graph_okD(1) [OF laidD(5) [OF l]] read_relation_Inr_iff relation_inj [OF r(1)] by metis
  obtain rc where rc: "m root = Some rc" using r by (auto simp: relation_def)
  have cid_rc: "cid rc = root" using keyedD [OF graph_okD(1) [OF laidD(5) [OF l]] rc] .
  show ?thesis
  proof (cases ts)
    case Nil
    with p chains members members' rc have "p = Patch [?inc] [Cell ?inc role participant []] [Cell root ?inc NULL_CELL_ID (atom rc)]"
      "place before after (map snd ts) = 0 \<or> before = None \<and> after \<noteq> None"
      by (auto simp: insert_patch_def Let_def cid_rc place_def position_def split: if_splits option.splits)
    moreover from p chains members members' Nil have "\<not> (before = None \<and> after \<noteq> None)"
      by (auto simp: insert_patch_def Let_def split: if_splits)
    ultimately show ?thesis
      using first_member [OF r(1) [unfolded Nil], of ?inc role participant "atom rc" m'] l null Nil
      by (fastforce simp: insert_at_def)
  next
    case (Cons t0 ts0)
    have ids: "map incidence_id members = map snd ts" using members' by simp
    have ne: "members \<noteq> []" using members' Cons by (cases t0) simp
    show ?thesis
    proof (cases before)
      case (Some b)
      with p chains members ids rc ne obtain j where j: "index_of b (map snd ts) = Inr j"
        by (auto simp: insert_patch_def Let_def split: if_splits)
      then obtain xs k ys where s: "ts = xs @ (k, b) # ys" "j = length xs" "position b (map snd ts) = j"
        by (rule index_of_thread)
      have pl: "place before after (map snd ts) = length xs" using Some s by (simp add: place_def)
      show ?thesis
      proof (cases xs rule: rev_cases)
        case Nil
        have root: "root = k" using r(1) s(1) Nil by (simp add: relation_def)
        from p chains members ids rc ne Some j s Nil
        have p': "p = Patch [?inc] [Cell ?inc role participant [], Cell ?new (link0 rc) (link1 rc) []]
            [Cell root ?inc ?new (atom rc)]"
          by (auto simp: insert_patch_def Let_def cid_rc split: if_splits)
        have "link0 rc = b" "link1 rc = thread_head ys e"
          using r(1) s(1) Nil rc root by (auto simp: relation_def)
        with p' l root have l: "laid m [Cell ?inc role participant [], Cell ?new b (thread_head ys e) []]
            [Cell k ?inc ?new (atom rc)] m'"
          by simp
        from splice_front [OF r [unfolded s(1) Nil append_Nil root] l null] show ?thesis
          using pl Nil s(1) p' root by (fastforce simp: insert_at_def)
      next
        case (snoc xs' t)
        obtain k' i' where t: "t = (k', i')" by (cases t)
        have ts': "ts = xs' @ (k', i') # (k, b) # ys" using s(1) snoc t by simp
        from r(1) ts' obtain x where x: "m k' = Some (Cell k' i' k x)" by (auto simp: relation_def)
        have "chains ! (j - 1) = k'" "chains ! j = k"
          using s(2) snoc t ts' chains' by (simp_all add: chain_ids_append nth_append)
        with p chains members ids rc ne Some j s snoc x
        have p': "p = Patch [?inc] [Cell ?inc role participant [], Cell ?new ?inc k []] [Cell k' i' ?new x]"
          by (auto simp: insert_patch_def Let_def split: if_splits)
        with insert_after_edit [OF r ts' x, of ?inc role participant ?new m'] l null pl snoc show ?thesis
          by simp
      qed
    next
      case None
      define a where "a = (case after of None \<Rightarrow> last (map incidence_id members) | Some a \<Rightarrow> a)"
      from p chains members rc ne None obtain j c where j': "index_of a (map incidence_id members) = Inr j"
        and c: "m (chains ! j) = Some c"
        and p': "p = Patch [?inc] [Cell ?inc role participant [], Cell ?new ?inc (link1 c) []]
          [Cell (cid c) (link0 c) ?new (atom c)]"
        by (auto simp: insert_patch_def Let_def a_def split: if_splits simp del: set_map)
      from j' have j: "index_of a (map snd ts) = Inr j" by (simp add: ids)
      then obtain xs k ys where s: "ts = xs @ (k, a) # ys" "j = length xs" "position a (map snd ts) = j"
        by (rule index_of_thread)
      have "place before after (map snd ts) = Suc (length xs)"
      proof (cases after)
        case None
        then have "a = last (map snd ts)" by (simp add: a_def ids)
        with s(1) have "last (map snd (xs @ (k, a) # ys)) = a" by simp
        moreover have "distinct (map snd (xs @ (k, a) # ys))" using r(2) s(1) by (simp add: proper_def)
        ultimately have "ys = []" by (cases ys rule: rev_cases) auto
        with s(1) None \<open>before = None\<close> show ?thesis by (simp add: place_def)
      next
        case (Some a')
        with s \<open>before = None\<close> show ?thesis by (simp add: place_def a_def)
      qed
      moreover have "chains ! j = k" using s chains' by (simp add: chain_ids_append nth_append)
      with c have c: "m k = Some c" by simp
      ultimately show ?thesis
        using insert_after_edit [OF r s(1) c, of ?inc role participant ?new m'] l null p' by simp
    qed
  qed
qed

section \<open>Removing\<close>

lemma relink_cids: "relink m ts = Inr cells \<Longrightarrow> keyed m \<Longrightarrow> set (map cid cells) \<subseteq> set (map fst ts)"
proof (induction m ts arbitrary: cells rule: relink.induct)
  case (2 m k i ts)
  from "2.prems"(1) obtain c cells' where c: "m k = Some c" "relink m ts = Inr cells'"
    and cells: "cells = (if Cell (cid c) i (head_or_null (map fst ts)) (atom c) \<noteq> c
        then Cell (cid c) i (head_or_null (map fst ts)) (atom c) # cells' else cells')"
    by (auto simp: Let_def)
  have "set (map cid cells') \<subseteq> set (map fst ts)" using "2.IH" [OF c(2) "2.prems"(2)] .
  with cells c(1) "2.prems"(2) show ?case by (auto simp: keyedD split: if_splits)
qed simp

text \<open>The chain Cells that remain spell the incidences that remain.\<close>

lemma relink_thread:
  assumes "relink m ts = Inr cells" "keyed m" "distinct (map fst ts)" "present m' cells"
    and "\<forall>k \<in> set (map fst ts). k \<notin> cid ` set cells \<longrightarrow> m' k = m k" "NULL_CELL_ID \<notin> set (map fst ts)"
    and "\<forall>(k, i) \<in> set ts. i \<noteq> NULL_CELL_ID \<and> incidence_ok m' i"
  shows "threaded m' ts NULL_CELL_ID"
  using assms
proof (induction m ts arbitrary: cells rule: relink.induct)
  case (2 m k i ts)
  from "2.prems"(1) obtain c cells' where c: "m k = Some c" and cells': "relink m ts = Inr cells'"
    and cells: "cells = (if Cell (cid c) i (head_or_null (map fst ts)) (atom c) \<noteq> c
        then Cell (cid c) i (head_or_null (map fst ts)) (atom c) # cells' else cells')"
    by (auto simp: Let_def)
  have cid: "cid c = k" using c "2.prems"(2) by (simp add: keyedD)
  have sub: "cid ` set cells' \<subseteq> set (map fst ts)" using relink_cids [OF cells' "2.prems"(2)] by simp
  have nxt: "head_or_null (map fst ts) = thread_head ts NULL_CELL_ID"
    by (cases ts) (auto simp: head_or_null_def)
  have notin: "k \<notin> cid ` set cells'" using sub "2.prems"(3) by auto
  have "m' k = Some (Cell k i (thread_head ts NULL_CELL_ID) (atom c))"
  proof (cases "Cell (cid c) i (head_or_null (map fst ts)) (atom c) = c")
    case True
    then have "cells = cells'" using cells by simp
    with "2.prems"(5) notin have "m' k = m k" by simp
    with c True cid nxt show ?thesis by metis
  next
    case False
    with cells "2.prems"(4) cid nxt show ?thesis by simp
  qed
  moreover have "threaded m' ts NULL_CELL_ID"
  proof (rule "2.IH" [OF cells' "2.prems"(2)])
    show "present m' cells'" using "2.prems"(4) cells by (simp split: if_splits)
    show "\<forall>j \<in> set (map fst ts). j \<notin> cid ` set cells' \<longrightarrow> m' j = m j"
    proof (intro ballI impI)
      fix j assume j: "j \<in> set (map fst ts)" "j \<notin> cid ` set cells'"
      then have "j \<noteq> k" using "2.prems"(3) by auto
      with j cells cid have "j \<notin> cid ` set cells" by (auto split: if_splits)
      with bspec [OF "2.prems"(5), of j] j(1) show "m' j = m j" by simp
    qed
  qed (use "2.prems" in auto)
  ultimately show ?case using "2.prems"(6,7) by auto
qed simp

lemma removed_members:
  assumes "distinct (map snd ts)" "i \<in> set (map snd ts)"
  shows "map_of (rev (map (\<lambda>x. (incidence_id x, x)) (members_of m ts))) i = Some (member_of m i)"
proof -
  have "distinct (map fst (rev (map (\<lambda>x. (incidence_id x, x)) (members_of m ts))))"
    using assms(1) by (simp add: rev_map [symmetric] members_of_def comp_def split_beta)
  moreover have "(i, member_of m i) \<in> set (rev (map (\<lambda>x. (incidence_id x, x)) (members_of m ts)))"
    using assms(2) by (force simp: members_of_def)
  ultimately show ?thesis by (rule map_of_is_SomeI)
qed

lemma remaining_thread:
  "map (\<lambda>(k, x). (k, incidence_id x)) (filter (\<lambda>(k, x). incidence_id x \<notin> A) (zip (chain_ids ts e) (members_of m ts))) =
    filter (\<lambda>(k, i). i \<notin> A) ts"
proof -
  have "zip (chain_ids ts e) (members_of m ts) = map (\<lambda>(k, i). (k, member_of m i)) ts"
    by (induction ts) auto
  then show ?thesis by (simp add: filter_map comp_def split_def)
qed

lemma members_filter:
  "members_of m (filter (\<lambda>(k, i). i \<notin> A) ts) = filter (\<lambda>x. incidence_id x \<notin> A) (members_of m ts)"
  by (induction ts) auto

text \<open>The patch of a removal: the thread that remains, relinked from the root.\<close>

lemma prepare_remove_Inr:
  assumes r: "relation m root ts e" "proper ts e" and m: "graph_ok m" and req: "incs \<noteq> []"
    and p: "prepare_remove_relation_members m root incs n = Inr (removed, cells)"
  shows "removed = map (member_of m) (dedup incs) \<and> set incs \<subseteq> set (map snd ts) \<and>
    (case filter (\<lambda>(k, i). i \<notin> set incs) ts of
       [] \<Rightarrow> cells = [Cell root NULL_CELL_ID NULL_CELL_ID (atom (the (m root)))]
     | (k, i) # rest \<Rightarrow> relink m ((root, i) # rest) = Inr cells)"
proof -
  from req have "dedup incs \<noteq> []" by (cases incs) auto
  with p obtain chains members where chains: "relation_chain_ids m root n = Inr chains"
    and members: "read_relation m root n = Inr members"
    unfolding prepare_remove_relation_members_def Let_def by auto
  from chains have chains': "chains = chain_ids ts e"
    using relation_chain_ids_relation [OF r(1)] by (auto split: if_splits)
  from members have members': "members = members_of m ts"
    using graph_okD(1) [OF m] read_relation_Inr_iff relation_inj [OF r(1)] by metis
  obtain rc where rc: "m root = Some rc" using r by (auto simp: relation_def)
  have cid_rc: "cid rc = root" using keyedD [OF graph_okD(1) [OF m] rc] .
  let ?by = "map_of (rev (map (\<lambda>x. (incidence_id x, x)) members))"
  let ?rem = "filter (\<lambda>(k, x). incidence_id x \<notin> set incs) (zip chains members)"
  from p \<open>dedup incs \<noteq> []\<close> chains members rc have known: "\<forall>i \<in> set incs. ?by i \<noteq> None"
    and removed: "removed = map (\<lambda>i. the (?by i)) (dedup incs)"
    and cells: "(case ?rem of [] \<Rightarrow> cells = [Cell (cid rc) NULL_CELL_ID NULL_CELL_ID (atom rc)]
      | (k, x) # rest \<Rightarrow> rbind (relink m (map (\<lambda>(k, x). (k, incidence_id x)) rest)) (\<lambda>cs.
          Inr (if Cell (cid rc) (incidence_id x) (head_or_null (map fst rest)) (atom rc) \<noteq> rc
            then Cell (cid rc) (incidence_id x) (head_or_null (map fst rest)) (atom rc) # cs else cs)) = Inr cells)"
    unfolding prepare_remove_relation_members_def Let_def
    by (auto split: if_splits list.splits)
  have sub: "set incs \<subseteq> set (map snd ts)"
  proof
    fix i assume "i \<in> set incs"
    with known obtain x where "?by i = Some x" by auto
    from map_of_SomeD [OF this] have "i \<in> set (map incidence_id members)" by auto
    then show "i \<in> set (map snd ts)" unfolding members' incidences_of_members .
  qed
  have "removed = map (member_of m) (dedup incs)"
    unfolding removed members'
  proof (intro map_cong refl)
    fix i assume "i \<in> set (dedup incs)"
    then have "i \<in> set (map snd ts)" using sub by auto
    moreover have "distinct (map snd ts)" using r(2) by (simp add: proper_def)
    ultimately show "the (map_of (rev (map (\<lambda>x. (incidence_id x, x)) (members_of m ts))) i) = member_of m i"
      by (simp add: removed_members)
  qed
  moreover have "case filter (\<lambda>(k, i). i \<notin> set incs) ts of
       [] \<Rightarrow> cells = [Cell root NULL_CELL_ID NULL_CELL_ID (atom (the (m root)))]
     | (k, i) # rest \<Rightarrow> relink m ((root, i) # rest) = Inr cells"
  proof (cases ?rem)
    case Nil
    then have "filter (\<lambda>(k, i). i \<notin> set incs) ts = []"
      using remaining_thread [of "set incs" ts e m] chains' members' by simp
    with Nil cells rc cid_rc show ?thesis by simp
  next
    case (Cons t rest)
    obtain k x where t: "t = (k, x)" by (cases t)
    define ps where "ps = map (\<lambda>(k, x). (k, incidence_id x)) rest"
    from Cons t have keep: "filter (\<lambda>(k, i). i \<notin> set incs) ts = (k, incidence_id x) # ps"
      using remaining_thread [of "set incs" ts e m] chains' members' by (simp add: ps_def)
    have fst_ps: "map fst ps = map fst rest" by (simp add: ps_def comp_def split_def)
    have "relink m ((root, incidence_id x) # ps) = Inr cells"
      using cells rc unfolding Cons t list.case prod.case relink.simps cell_of_def Let_def fst_ps ps_def [symmetric]
      by simp
    with keep show ?thesis by simp
  qed
  ultimately show ?thesis using sub by blast
qed

lemma remove_edit:
  assumes r: "relation m root ts e" "proper ts e"
    and p: "prepare_remove_relation_members m root incs n = Inr (removed, cells)"
    and l: "laid m [] cells m'"
  shows "\<exists>us f. relation m' root us f \<and> proper us f \<and>
    members_of m' us = filter (\<lambda>x. incidence_id x \<notin> set incs) (members_of m ts)"
proof (cases "incs = []")
  case True
  with p have "cells = []" by (simp add: prepare_remove_relation_members_def)
  with l have "m' = m" by (simp add: laid_def)
  with r True show ?thesis by auto
next
  case False
  have m: "graph_ok m" "graph_ok m'" "keyed m" using laidD(5,6) [OF l] graph_okD(1) by auto
  note P = prepare_remove_Inr [OF r m(1) False p]
  have t: "threaded m ts e" "ending m e" "distinct (chain_ids ts e)" "m root \<noteq> None" "root = thread_head ts e"
    using r(1) by (auto simp: relation_def)
  let ?keep = "filter (\<lambda>(k, i). i \<notin> set incs) ts"
  have fstts: "distinct (map fst ts)" "set (map fst ts) \<subseteq> set (chain_ids ts e)"
    using t(3) by (auto simp: chain_ids_def)
  have "ts \<noteq> []" using P False by (cases incs) auto
  then obtain k0 i0 ts0 where ts: "ts = (k0, i0) # ts0" by (cases ts) auto
  with t(5) have root: "root = k0" by simp
  show ?thesis
  proof (cases ?keep)
    case Nil
    with P have cells: "cells = [Cell root NULL_CELL_ID NULL_CELL_ID (atom (the (m root)))]" by simp
    with laidD(2,9) [OF l] have "m' root = Some (Cell root NULL_CELL_ID NULL_CELL_ID (atom (the (m root))))"
      "root \<noteq> NULL_CELL_ID"
      by auto
    then have "relation m' root [] root \<and> proper [] root" by (simp add: relation_def ending_def proper_def)
    moreover have "filter (\<lambda>x. incidence_id x \<notin> set incs) (members_of m ts) = []"
      using members_filter [of m "set incs" ts] Nil by simp
    ultimately show ?thesis by (metis members_of_simps(1))
  next
    case (Cons t1 rest)
    obtain k i where t1: "t1 = (k, i)" by (cases t1)
    with Cons P have relink: "relink m ((root, i) # rest) = Inr cells" by simp
    have keep: "set ((k, i) # rest) \<subseteq> set ts" "distinct (map fst ((k, i) # rest))" "distinct (map snd ((k, i) # rest))"
      using Cons t1 fstts(1) r(2) distinct_map_filter [of fst ts] distinct_map_filter [of snd ts]
      by (metis filter_is_subset, metis, metis proper_def)
    have rest: "set rest \<subseteq> set ts0"
    proof -
      have "filter (\<lambda>(k, i). i \<notin> set incs) ts0 = (if i0 \<in> set incs then (k, i) # rest else rest)"
        using Cons t1 ts by (auto split: if_splits)
      then show ?thesis by (metis filter_is_subset list.set_intros(2) subset_code(1))
    qed
    then have root_new: "root \<notin> set (map fst rest)" using fstts(1) ts root by auto
    have chains: "set (map fst ((root, i) # rest)) \<subseteq> set (map fst ts)" using rest ts root by auto
    have incs: "set (map snd ((root, i) # rest)) \<subseteq> set (map snd ts)"
      using image_mono [OF keep(1), of snd] by simp
    have cids: "cid ` set cells \<subseteq> set (map fst ((root, i) # rest))" using relink_cids [OF relink m(3)] by simp
    have apart: "set (map snd ts) \<inter> cid ` set cells = {}"
      using r(2) cids chains fstts(2) unfolding proper_def by blast
    have inc: "j \<noteq> NULL_CELL_ID \<and> incidence_ok m' j \<and> member_of m' j = member_of m j"
      if "j \<in> set (map snd ts)" for j
    proof -
      from that obtain k' where "(k', j) \<in> set ts" by auto
      from threaded_incidence [OF t(1) this] have "j \<noteq> NULL_CELL_ID" "incidence_ok m j" by auto
      with laid_incidence [OF l this(2)] apart that show ?thesis by blast
    qed
    have thread: "threaded m' ((root, i) # rest) NULL_CELL_ID"
    proof (rule relink_thread [OF relink m(3)])
      show "distinct (map fst ((root, i) # rest))" using root_new keep(2) by simp
      show "present m' cells" using laidD(2) [OF l] .
      show "\<forall>k \<in> set (map fst ((root, i) # rest)). k \<notin> cid ` set cells \<longrightarrow> m' k = m k"
        using laidD(7) [OF l] threaded_in_dom [OF t(1)] chains by blast
      show "NULL_CELL_ID \<notin> set (map fst ((root, i) # rest))" using chains threaded_chain_not_null [OF t(1)] by blast
      show "\<forall>(k, i) \<in> set ((root, i) # rest). i \<noteq> NULL_CELL_ID \<and> incidence_ok m' i"
      proof clarify
        fix k' i' assume "(k', i') \<in> set ((root, i) # rest)"
        then have "i' \<in> set (map snd ((root, i) # rest))" by force
        with incs inc show "i' \<noteq> NULL_CELL_ID \<and> incidence_ok m' i'" by blast
      qed
    qed
    have "m' root \<noteq> None" using t(4) laidD(3) [OF l] by blast
    moreover have "distinct (chain_ids ((root, i) # rest) NULL_CELL_ID)"
      using root_new keep(2) by (simp add: chain_ids_def)
    ultimately have "relation m' root ((root, i) # rest) NULL_CELL_ID" using thread by (simp add: relation_def)
    moreover have "set (chain_ids ((root, i) # rest) NULL_CELL_ID) \<subseteq> set (chain_ids ts e)"
      using chains fstts(2) by (auto simp: chain_ids_def)
    then have "set (map snd ((root, i) # rest)) \<inter> set (chain_ids ((root, i) # rest) NULL_CELL_ID) = {}"
      using incs r(2) unfolding proper_def by blast
    then have "proper ((root, i) # rest) NULL_CELL_ID" using keep(3) unfolding proper_def by simp
    moreover have "members_of m' ((root, i) # rest) = members_of m ((k, i) # rest)"
    proof -
      have "map (member_of m') (map snd ((root, i) # rest)) = map (member_of m) (map snd ((root, i) # rest))"
        using inc incs by (intro map_cong refl) blast
      then show ?thesis by (simp add: members_of_def split_def comp_def)
    qed
    then have "members_of m' ((root, i) # rest) = filter (\<lambda>x. incidence_id x \<notin> set incs) (members_of m ts)"
      using members_filter [of m "set incs" ts] Cons t1 by simp
    ultimately show ?thesis by blast
  qed
qed

section \<open>Reordering\<close>

lemma relinked_thread:
  assumes "threaded m ts e" "length req = length ts"
    and "\<forall>(k, i) \<in> set (zip (map fst ts) req). \<exists>x. m' k = Some (Cell k i (link1 (the (m k))) x)"
    and "\<forall>i \<in> set req. i \<noteq> NULL_CELL_ID \<and> incidence_ok m' i"
  shows "threaded m' (zip (map fst ts) req) e"
  using assms
proof (induction ts arbitrary: req)
  case (Cons t ts)
  obtain k i where t: "t = (k, i)" by (cases t)
  obtain i' req' where req: "req = i' # req'" "length req' = length ts" using Cons.prems(2) by (cases req) auto
  have "thread_head (zip (map fst ts) req') e = thread_head ts e"
    using req(2) by (cases ts; cases req') auto
  with Cons t req show ?case by auto
qed simp

lemma reorder_edit:
  assumes r: "relation m root ts e" "proper ts e"
    and p: "prepare_reorder_relation_members m root req n = Inr cells"
    and l: "laid m [] cells m'"
  shows "set req = set (map snd ts) \<and> distinct req \<and>
    (\<exists>us. relation m' root us e \<and> proper us e \<and> members_of m' us = map (member_of m) req)"
proof -
  have m: "graph_ok m" "graph_ok m'" "keyed m" using laidD(5,6) [OF l] graph_okD(1) by auto
  have t: "threaded m ts e" "ending m e" "distinct (chain_ids ts e)" "m root \<noteq> None" "root = thread_head ts e"
    using r(1) by (auto simp: relation_def)
  from p obtain chains members where chains: "relation_chain_ids m root n = Inr chains"
    and members: "read_relation m root n = Inr members"
    unfolding prepare_reorder_relation_members_def by auto
  from chains have chains': "chains = chain_ids ts e"
    using relation_chain_ids_relation [OF r(1)] by (auto split: if_splits)
  from members have members': "members = members_of m ts"
    using m(3) read_relation_Inr_iff relation_inj [OF r(1)] by metis
  let ?ids = "map incidence_id members"
  from p chains members obtain moves where req: "distinct req" "set req = set ?ids"
    and moves: "rmap (\<lambda>(k, inc). rbind (cell_of m k) (\<lambda>chain. Inr (chain, inc))) (zip chains req) = Inr moves"
    and cells: "cells = map (\<lambda>(chain, inc). Cell (cid chain) inc (link1 chain) (atom chain))
      (filter (\<lambda>(chain, inc). link0 chain \<noteq> inc) moves)"
    unfolding prepare_reorder_relation_members_def by (auto split: if_splits simp del: set_map)
  have ids: "?ids = map snd ts" using members' by simp
  have snds: "distinct (map snd ts)" using r(2) by (simp add: proper_def)
  have "length req = length (map snd ts)"
    using distinct_card [OF req(1)] distinct_card [OF snds] req(2) unfolding ids by simp
  then have len: "length req = length ts" by simp
  define ps where "ps = zip (map fst ts) req"
  have zip: "zip chains req = ps"
    using len unfolding chains' chain_ids_def ps_def by (simp add: zip_append1)
  have ps: "map fst ps = map fst ts" "map snd ps = req" using len by (simp_all add: ps_def)
  have chain_cell: "m k = Some (the (m k)) \<and> cid (the (m k)) = k" if "k \<in> set (map fst ts)" for k
    using threaded_in_dom [OF t(1) that] keyedD [OF m(3)] by (cases "m k") auto
  have "rmap (\<lambda>(k, inc). rbind (cell_of m k) (\<lambda>chain. Inr (chain, inc))) ps =
      Inr (map (\<lambda>(k, inc). (the (m k), inc)) ps)"
  proof (rule rmap_pure)
    fix y assume y: "y \<in> set ps"
    obtain k i where ki: "y = (k, i)" by (cases y)
    have "k \<in> set (map fst ps)" using y ki by force
    then have "cell_of m k = Inr (the (m k))" using chain_cell [of k] unfolding ps(1) cell_of_def by (cases "m k") auto
    with ki show "(\<lambda>(k, inc). rbind (cell_of m k) (\<lambda>chain. Inr (chain, inc))) y =
        Inr ((\<lambda>(k, inc). (the (m k), inc)) y)"
      by (simp del: cell_of_Inr)
  qed
  with moves zip have moves': "moves = map (\<lambda>(k, inc). (the (m k), inc)) ps" by simp
  have new: "\<exists>x. m' k = Some (Cell k i (link1 (the (m k))) x)" if "(k, i) \<in> set ps" for k i
  proof -
    have k: "k \<in> set (map fst ts)" using that unfolding ps(1) [symmetric] by force
    note c = chain_cell [OF k]
    show ?thesis
    proof (cases "link0 (the (m k)) = i")
      case False
      then have "Cell k i (link1 (the (m k))) (atom (the (m k))) \<in> set cells"
        unfolding cells moves' using that c by force
      with laidD(2) [OF l] have "m' k = Some (Cell k i (link1 (the (m k))) (atom (the (m k))))"
        unfolding present_def by (metis cell.select_convs(1))
      then show ?thesis by blast
    next
      case True
      have "k \<notin> cid ` set cells"
      proof
        assume "k \<in> cid ` set cells"
        then obtain k' i' where ki: "(k', i') \<in> set ps" "link0 (the (m k')) \<noteq> i'" "k = cid (the (m k'))"
          unfolding cells moves' by auto
        have "k' \<in> set (map fst ts)" using ki(1) unfolding ps(1) [symmetric] by force
        with chain_cell ki(3) have "k' = k" by simp
        moreover have "distinct (map fst ps)" unfolding ps(1) using t(3) by (simp add: chain_ids_def)
        ultimately have "i' = i" using ki(1) that by (meson eq_key_imp_eq_value)
        with True ki(2) \<open>k' = k\<close> show False by simp
      qed
      then have "m' k = m k" using laidD(7) [OF l] threaded_in_dom [OF t(1) k] by blast
      with c True show ?thesis by (metis cell_eta)
    qed
  qed
  have cids: "cid ` set cells \<subseteq> set (map fst ts)"
  proof
    fix k assume "k \<in> cid ` set cells"
    then obtain k' i' where ki: "(k', i') \<in> set ps" "k = cid (the (m k'))"
      unfolding cells moves' by auto
    have "k' \<in> set (map fst ts)" using ki(1) unfolding ps(1) [symmetric] by force
    with chain_cell ki(2) show "k \<in> set (map fst ts)" by simp
  qed
  have sub: "set (map fst ts) \<subseteq> set (chain_ids ts e)" by (simp add: chain_ids_def)
  have inc: "i \<noteq> NULL_CELL_ID \<and> incidence_ok m' i \<and> member_of m' i = member_of m i" if "i \<in> set req" for i
  proof -
    from that req(2) ids have i: "i \<in> set (map snd ts)" by simp
    then obtain k where "(k, i) \<in> set ts" by auto
    note ok = threaded_incidence [OF t(1) this]
    have "i \<notin> cid ` set cells" using i cids sub r(2) unfolding proper_def by blast
    with laid_incidence [OF l _ this] ok show ?thesis by blast
  qed
  have "threaded m' ps e"
    unfolding ps_def
    by (rule relinked_thread [OF t(1) len]) (use new inc in \<open>auto simp: ps_def\<close>)
  moreover have e_out: "e \<notin> cid ` set cells \<or> e = NULL_CELL_ID"
    using cids t(3) by (auto simp: chain_ids_def split: if_splits)
  then have "ending m' e" using laid_ending [OF l t(2)] by (cases "e = NULL_CELL_ID") auto
  moreover have chain_ps: "chain_ids ps e = chain_ids ts e" by (simp add: chain_ids_def ps(1))
  moreover have "thread_head ps e = thread_head ts e"
    using ps(1) by (cases ps; cases ts) auto
  moreover have "m' root \<noteq> None" using t(4) laidD(3) [OF l] by blast
  ultimately have "relation m' root ps e" using t(3,5) by (simp add: relation_def)
  moreover have "proper ps e"
    using r(2) req ids unfolding proper_def chain_ps ps(2) by auto
  moreover have "members_of m' ps = map (member_of m) req"
  proof -
    have "members_of m' ps = map (member_of m') (map snd ps)" by (simp add: members_of_def split_def)
    also have "\<dots> = map (member_of m) req" unfolding ps(2) using inc by simp
    finally show ?thesis .
  qed
  ultimately show ?thesis using req ids by auto
qed

section \<open>Composing\<close>

lemma compose_edit_grows:
  assumes l: "lays F m (rc_cells (compose_relation_cells ps rid u)) rp m'"
  shows "\<exists>ts e. relation m' (rb_root (rc_build (compose_relation_cells ps rid u))) ts e \<and> proper ts e \<and>
    members_of m' ts = fresh_members (rb_incidences (rc_build (compose_relation_cells ps rid u))) ps \<and>
    rb_incidences (rc_build (compose_relation_cells ps rid u)) = map snd ts \<and>
    rb_chains (rc_build (compose_relation_cells ps rid u)) = chain_ids ts e \<and>
    touched ts e = cid ` set (rc_cells (compose_relation_cells ps rid u))"
proof -
  define root where "root = rb_root (rc_build (compose_relation_cells ps rid u))"
  show ?thesis
  proof (cases "ps = []")
    case True
    then have c: "compose_relation_cells ps rid u = \<lparr>rc_build = \<lparr>rb_root = root, rb_incidences = [], rb_chains = [root]\<rparr>,
        rc_cells = [Cell root NULL_CELL_ID NULL_CELL_ID []]\<rparr>"
      by (simp add: root_def compose_relation_cells_def Let_def)
    from l c have new: "m' root = Some (Cell root NULL_CELL_ID NULL_CELL_ID [])" "m root = None"
      using laysD(1) [OF l] laysD(8) [OF l, of "Cell root NULL_CELL_ID NULL_CELL_ID []"] by simp_all
    with laysD(5) [OF l] have "root \<noteq> NULL_CELL_ID" by auto
    with new c True show ?thesis
      by (intro exI [of _ "[]"] exI [of _ root]) (simp add: relation_def proper_def ending_def fresh_members_def touched_def)
  next
    case False
    define incs where "incs = map (\<lambda>i. root @ '':incidence:'' @ show_nat i) [0..<length ps]"
    define chains where "chains = root # map (\<lambda>i. root @ '':chain:'' @ show_nat i) [1..<length ps]"
    have c: "compose_relation_cells ps rid u = \<lparr>rc_build = \<lparr>rb_root = root, rb_incidences = incs, rb_chains = chains\<rparr>,
        rc_cells = weave chains incs ps\<rparr>"
      using False by (simp add: root_def compose_relation_cells_def Let_def incs_def chains_def)
    have len: "length chains = length ps" "length incs = length ps"
      using False by (simp_all add: chains_def incs_def Suc_diff_Suc)
    have l: "lays F m (weave chains incs ps) rp m'" using l unfolding c relation_cells.select_convs .
    have cids: "cid ` set (weave chains incs ps) = set chains \<union> set incs" using weave_cids_list [OF len] .
    have null: "NULL_CELL_ID \<notin> set chains \<union> set incs"
    proof
      assume "NULL_CELL_ID \<in> set chains \<union> set incs"
      then obtain x where x: "x \<in> set (weave chains incs ps)" "NULL_CELL_ID = cid x" unfolding cids [symmetric] by (rule imageE)
      from laysD(8) [OF l x(1)] x(2) laysD(5) [OF l] show False by simp
    qed
    have d: "distinct (chains @ incs)" using laysD(4) [OF l] distinct_weave_iff [OF len] by simp
    from woven_thread [OF laysD(6) [OF l] laysD(1) [OF l] len] null
    have w: "threaded m' (zip chains incs) NULL_CELL_ID" "members_of m' (zip chains incs) = fresh_members incs ps"
      by auto
    have z: "map fst (zip chains incs) = chains" "map snd (zip chains incs) = incs" using len by simp_all
    have hd: "thread_head (zip chains incs) NULL_CELL_ID = root"
      using head_or_null_zip [of chains incs] len by (simp add: chains_def head_or_null_def)
    have "m' root \<noteq> None"
    proof -
      have "root \<in> set (map fst (zip chains incs))" unfolding z(1) by (simp add: chains_def)
      then show ?thesis using threaded_in_dom [OF w(1)] by blast
    qed
    with w(1) hd d have "relation m' root (zip chains incs) NULL_CELL_ID"
      by (simp add: relation_def chain_ids_def z)
    moreover have "proper (zip chains incs) NULL_CELL_ID" using d by (auto simp: proper_def chain_ids_def z)
    moreover have "touched (zip chains incs) NULL_CELL_ID = cid ` set (weave chains incs ps)"
      unfolding touched_def chain_ids_def z cids by auto
    ultimately show ?thesis using w(2) c
      by (intro exI [of _ "zip chains incs"] exI [of _ NULL_CELL_ID]) (simp add: chain_ids_def z)
  qed
qed

lemma compose_edit:
  assumes "laid m (rc_cells (compose_relation_cells ps rid u)) [] m'"
  shows "\<exists>ts e. relation m' (rb_root (rc_build (compose_relation_cells ps rid u))) ts e \<and> proper ts e \<and>
    members_of m' ts = fresh_members (rb_incidences (rc_build (compose_relation_cells ps rid u))) ps \<and>
    rb_incidences (rc_build (compose_relation_cells ps rid u)) = map snd ts \<and>
    rb_chains (rc_build (compose_relation_cells ps rid u)) = chain_ids ts e"
  using compose_edit_grows [OF laid_lays [OF assms, of UNIV]] by blast

end
