(* ===== verification/RelationProps.thy ===== *)
theory RelationProps
  imports RelationEdits CommitEffect
begin

text \<open>
  The properties of relations in a reachable store: what a read answers, that a composed relation
  reads back, and that the committed edits act on the members as the list operations do.
\<close>

section \<open>From a commit to a patch laid on the graph\<close>

lemma commit_lays:
  assumes inv: "store_inv sha shake s j" and sha: "\<And>x. length (sha x) = 32" and env: "env_transform env = None"
    and run: "commit (hashed sha shake env) exp create replace (c, s) = ((c', s'), Inr r)"
  shows "laid (st_cells s) create replace (st_cells s')"
proof -
  obtain ch where "commit_plan (st_cells s) create replace = Inr ch"
    using commit_Inr_plan [OF run] env by auto
  note plan = this [unfolded commit_plan_Inr]
  obtain j' where "store_inv sha shake s' j'" using commit_inv [OF inv _ _ sha run] by auto
  then have "graph_ok (st_cells s')" "graph_ok (st_cells s)"
    using represents_graph_ok store_invD(1) inv by blast+
  with plan commit_Inr [OF inv sha run env] show ?thesis by (auto simp: laid_def)
qed

text \<open>A successful prepared edit lays its patch, and its store is reachable.\<close>

lemma resolves:
  assumes "\<And>x. x \<in> set create \<union> set replaced \<Longrightarrow> link0 x \<in> dom m \<union> cid ` set create \<and> link1 x \<in> dom m \<union> cid ` set create"
  shows "links_resolve m (create @ changes_of m replaced)"
proof -
  have "set (changes_of m replaced) \<subseteq> set replaced" by (auto simp: changes_of_def)
  then have "link0 x \<in> dom m \<union> cid ` set create \<and> link1 x \<in> dom m \<union> cid ` set create"
    if "x \<in> set (create @ changes_of m replaced)" for x
    using assms [of x] that by auto
  then show ?thesis unfolding links_resolve_def list_all_iff by (fastforce simp: domIff)
qed

lemma commit_reachable:
  assumes "reachable sha shake s" "commit (hashed sha shake env) exp create replace (c, s) = ((c', s'), res)"
  shows "reachable sha shake s'"
  using reachable_run [OF assms(1), of "[store_op.Commit env c exp create replace]"] assms(2) by simp

lemma commit_patch_lays:
  assumes s: "reachable sha shake s" "\<And>x. length (sha x) = 32" and env: "env_transform env = None"
    and run: "commit_patch (hashed sha shake env) prepare (c, s) = ((c', s'), Inr x)"
  obtains p where "prepare (st_cells s) = Inr (p, x)" "laid (st_cells s) (rp_create p) (rp_replace p) (st_cells s')"
    "reachable sha shake s'"
proof -
  obtain j where inv: "store_inv sha shake s j" using reachable_inv [OF s] by blast
  from run obtain p where p: "prepare (st_cells s) = Inr (p, x)"
    and "\<exists>r. commit (hashed sha shake env) (st_revision s) (rp_create p) (rp_replace p) (c, s) = ((c', s'), Inr r)"
    unfolding commit_patch_def store_snapshot_def
    by (auto split: if_splits sum.splits prod.splits)
  then obtain r where r: "commit (hashed sha shake env) (st_revision s) (rp_create p) (rp_replace p) (c, s) =
      ((c', s'), Inr r)" by blast
  from that [OF p commit_lays [OF inv s(2) env r] commit_reachable [OF s(1) r]] show thesis .
qed

section \<open>Reading\<close>

lemma reachable_graph:
  assumes "reachable sha shake s" "\<And>x. length (sha x) = 32"
  shows "graph_ok (st_cells s)"
proof -
  obtain j where "store_inv sha shake s j" using reachable_inv [OF assms] by blast
  then show ?thesis using represents_graph_ok store_invD(1) by blast
qed

definition lists :: "cells \<Rightarrow> string \<Rightarrow> relation_member list \<Rightarrow> bool" where
  "lists m root ms \<longleftrightarrow> (\<exists>ts e. relation m root ts e \<and> proper ts e \<and> ms = members_of m ts)"

lemma lists_read: "lists m root ms \<Longrightarrow> length ms < n \<Longrightarrow> read_relation m root n = Inr ms"
proof -
  assume "lists m root ms" "length ms < n"
  then obtain ts e where "relation m root ts e" "ms = members_of m ts" by (auto simp: lists_def)
  moreover have "length (chain_ids ts e) \<le> Suc (length ts)" by (simp add: chain_ids_def)
  ultimately show ?thesis using \<open>length ms < n\<close> by (intro read_relation_relation [THEN trans]) auto
qed

text \<open>
  C29: Reading a relation is exact. On a well-formed graph a read within a budget answers exactly
  the members a relation spells from the root (an incidence per chain Cell, in chain order), every
  chain Cell visited once and at most \<open>budget\<close> of them; a root, a graph or a budget for which there
  is no such relation is refused.
\<close>

theorem relation_reads_are_exact:
  assumes "graph_ok m"
  shows "(read_relation m root budget = Inr ms \<longleftrightarrow>
      (\<exists>ts e. relation m root ts e \<and> ms = members_of m ts \<and> length (chain_ids ts e) \<le> budget \<and> 1 \<le> budget)) \<and>
    (\<forall>ts e. relation m root ts e \<longrightarrow> relation_chain_ids m root budget =
      (if length (chain_ids ts e) \<le> budget then Inr (chain_ids ts e)
       else Inl (MatchBudgetExceeded ''relation traversal exceeded its chain cells'')))"
  using read_relation_Inr_iff [OF graph_okD(1) [OF assms]] relation_chain_ids_relation by blast

theorem relation_reads_are_exact_witness:
  "read_relation genesis NULL_CELL_ID 1 = Inr []"
proof -
  have "relation genesis NULL_CELL_ID [] NULL_CELL_ID" by (simp add: relation_def genesis_def)
  with relation_reads_are_exact [OF graph_ok_genesis, of NULL_CELL_ID 1 "[]"] show ?thesis
    by (metis chain_ids_simps(2) length_0_conv less_eq_nat.simps(1) members_of_simps(1) order_refl)
qed

section \<open>Composing\<close>

text \<open>A store of one commit to an empty one, and the commits it admits.\<close>

definition seeded :: "cell list \<Rightarrow> store" where
  "seeded cs = run_ops fixed_sha fixed_sha [store_op.Commit plain_env idle_ctx 0 cs []] open_memory"

lemma seeded:
  assumes "admitted open_memory idle_ctx cs []"
  shows "reachable fixed_sha fixed_sha (seeded cs)" "st_cells (seeded cs) = put_cells cs genesis"
    "ready (seeded cs)" "\<not> st_gated (seeded cs)" "st_revision (seeded cs) = 1"
proof -
  show "reachable fixed_sha fixed_sha (seeded cs)" unfolding seeded_def by (rule reachable_run [OF reachable_memory])
  have plan: "commit_plan genesis cs [] = Inr []" "cs \<noteq> []" "links_resolve genesis cs"
    using assms by (auto simp: admitted_def commit_plan_Inr changes_of_def open_memory_def blank_store_def)
  have run: "seeded cs = snd (fst (commit (hashed fixed_sha fixed_sha plain_env) 0 cs [] (idle_ctx, open_memory)))"
    by (simp add: seeded_def)
  show "st_cells (seeded cs) = put_cells cs genesis" "ready (seeded cs)" "\<not> st_gated (seeded cs)"
    "st_revision (seeded cs) = 1"
    unfolding run using plan
    by (simp_all add: ready_def durable_head_def commit_def Let_def open_memory_def blank_store_def plain_env_def
      idle_ctx_def transformed_def refusal_def current_declaration_def outcome_def append_to_journal_def publish_def
      next_accumulator_def record_history_def)
qed

lemma seeded_commit:
  assumes "admitted open_memory idle_ctx cs []" "admitted (seeded cs) idle_ctx create replace"
    "create @ changes_of (st_cells (seeded cs)) replace \<noteq> []"
  shows "\<exists>c' s'. commit (hashed fixed_sha fixed_sha plain_env) (st_revision (seeded cs)) create replace
    (idle_ctx, seeded cs) = ((c', s'), Inr 2)"
proof -
  note S = seeded [OF assms(1)]
  obtain j where inv: "store_inv fixed_sha fixed_sha (seeded cs) j"
    using reachable_inv [OF S(1)] fixed_sha_length by blast
  have "plain plain_env" by (simp add: plain_def plain_env_def)
  from plain_commit [OF inv fixed_sha_length this S(3), where create = create and replace = replace and c = idle_ctx]
    assms(2,3)
  have "snd (commit (hashed fixed_sha fixed_sha plain_env) (st_revision (seeded cs)) create replace
      (idle_ctx, seeded cs)) = Inr 2"
    using S(5) by (auto split: sum.splits)
  then show ?thesis by (metis prod.collapse)
qed

lemma one_cell_admitted: "admitted open_memory idle_ctx [one_cell] []"
  by (simp add: admitted_def open_memory_def blank_store_def genesis_def NULL_CELL_ID_def one_cell_def changes_of_def
      refusal_def idle_ctx_def links_resolve_def)

definition one_store :: store where
  "one_store = seeded [one_cell]"

lemma one_store:
  "reachable fixed_sha fixed_sha one_store" "st_cells one_store = genesis(''a'' \<mapsto> one_cell)"
  "ready one_store" "\<not> st_gated one_store" "st_revision one_store = 1"
  using seeded [OF one_cell_admitted] by (simp_all add: one_store_def one_cell_def)

lemmas one_store_commit = seeded_commit [OF one_cell_admitted, folded one_store_def]

text \<open>
  C27: A composed relation reads back. When \<open>build_relation\<close> commits, the root it returns reads as
  the pairs it was given, in order, under the incidences it returns; those are new and as many as
  the pairs; and everything the graph held before is as it was.
\<close>

theorem composed_relations_read_back:
  assumes "reachable sha shake s" "\<And>x. length (sha x) = 32" "env_transform env = None"
    and run: "build_relation (hashed sha shake env) pairs rid u (c, s) = ((c', s'), Inr b)"
    and budget: "length pairs < budget"
  shows "read_relation (st_cells s') (rb_root b) budget = Inr (map2 (\<lambda>i (r, p). Member i r p) (rb_incidences b) pairs) \<and>
    length (rb_incidences b) = length pairs \<and> (\<forall>k. st_cells s k \<noteq> None \<longrightarrow> st_cells s' k = st_cells s k)"
proof -
  obtain j where inv: "store_inv sha shake s j" using reachable_inv [OF assms(1,2)] by blast
  let ?comp = "compose_relation_cells pairs rid u"
  have add: "bt_cells b' = bt_cells b0 @ map (\<lambda>c. (cid c, c)) cs \<and> bt_committed b' = bt_committed b0"
    if "batch_add_all cs b0 = Inr b'" for cs b0 b'
    using that by (induction cs arbitrary: b0) (auto simp: batch_add_def split: if_splits)
  from run obtain r where b: "b = rc_build ?comp"
    and r: "commit (hashed sha shake env) (st_revision s) (rc_cells ?comp) [] (c, s) = ((c', s'), Inr r)"
    unfolding build_relation_def new_batch_def store_snapshot_def batch_relation_def batch_commit_def Let_def
    by (auto split: if_splits sum.splits prod.splits dest!: add simp: comp_def)
  have l: "laid (st_cells s) (rc_cells ?comp) [] (st_cells s')" using commit_lays [OF inv assms(2,3) r] .
  from compose_edit [OF l] obtain ts e where ts: "relation (st_cells s') (rb_root b) ts e" "proper ts e"
    "members_of (st_cells s') ts = fresh_members (rb_incidences b) pairs" "rb_incidences b = map snd ts"
    unfolding b by blast
  have "length (fresh_members (rb_incidences b) pairs) = length ts" using ts(3) length_members_of by metis
  moreover have len: "length (rb_incidences b) = length pairs" unfolding b by (simp add: compose_relation_cells_def Let_def)
  ultimately have "length ts = length pairs" by (simp add: fresh_members_def)
  moreover have "lists (st_cells s') (rb_root b) (fresh_members (rb_incidences b) pairs)"
    unfolding lists_def ts(3) [symmetric] using ts(1,2) by blast
  ultimately have "read_relation (st_cells s') (rb_root b) budget = Inr (fresh_members (rb_incidences b) pairs)"
    using budget len by (intro lists_read) (simp_all add: fresh_members_def)
  with len laidD(7) [OF l] show ?thesis by (simp add: fresh_members_def)
qed

lemma one_cell_composed:
  "\<exists>c' s'. build_relation (hashed fixed_sha fixed_sha plain_env) [(''a'', NULL_CELL_ID)] (Some ''b'') []
    (idle_ctx, one_store) = ((c', s'), Inr \<lparr>rb_root = ''b'', rb_incidences = [''b:incidence:0''], rb_chains = [''b'']\<rparr>)"
proof -
  let ?cells = "[Cell ''b:incidence:0'' ''a'' NULL_CELL_ID [], Cell ''b'' ''b:incidence:0'' NULL_CELL_ID []]"
  have comp: "compose_relation_cells [(''a'', NULL_CELL_ID)] (Some ''b'') [] =
      \<lparr>rc_build = \<lparr>rb_root = ''b'', rb_incidences = [''b:incidence:0''], rb_chains = [''b'']\<rparr>, rc_cells = ?cells\<rparr>"
    by (simp add: compose_relation_cells_def Let_def show_nat.simps [of 0] head_or_null_def char_of_def bit_iff_odd)
  have null: "''b'' \<noteq> NULL_CELL_ID" "''b:incidence:0'' \<noteq> NULL_CELL_ID" by (simp_all add: NULL_CELL_ID_def)
  have "admitted one_store idle_ctx ?cells []"
    by (simp add: admitted_def one_store genesis_def NULL_CELL_ID_def changes_of_def links_resolve_def
        refusal_def idle_ctx_def one_cell_def)
  from one_store_commit [OF this] obtain c' s' where
    "commit (hashed fixed_sha fixed_sha plain_env) (st_revision one_store) ?cells [] (idle_ctx, one_store) =
      ((c', s'), Inr 2)" by auto
  moreover have "new_batch one_store = Inr \<lparr>bt_existing = genesis(''a'' \<mapsto> one_cell), bt_cells = [], bt_committed = False\<rparr>"
    using one_store by (simp add: new_batch_def store_snapshot_def ready_def)
  ultimately show ?thesis
    using null by (simp add: build_relation_def batch_relation_def comp batch_add_def genesis_def batch_commit_def)
qed

theorem composed_relations_read_back_witness:
  "\<exists>s' :: store. read_relation (st_cells s') ''b'' 2 = Inr [Member ''b:incidence:0'' ''a'' NULL_CELL_ID] \<and>
    st_cells s' ''a'' = Some one_cell"
proof -
  obtain c' s' where run: "build_relation (hashed fixed_sha fixed_sha plain_env) [(''a'', NULL_CELL_ID)] (Some ''b'') []
    (idle_ctx, one_store) = ((c', s'), Inr \<lparr>rb_root = ''b'', rb_incidences = [''b:incidence:0''], rb_chains = [''b'']\<rparr>)"
    using one_cell_composed by blast
  have "env_transform plain_env = None" by (simp add: plain_env_def)
  from composed_relations_read_back [OF one_store(1) fixed_sha_length this run, of 2]
  have "read_relation (st_cells s') ''b'' 2 = Inr [Member ''b:incidence:0'' ''a'' NULL_CELL_ID]"
    "st_cells one_store ''a'' \<noteq> None \<longrightarrow> st_cells s' ''a'' = st_cells one_store ''a''"
    by auto
  then show ?thesis by (auto simp: one_store)
qed

section \<open>Editing\<close>

datatype relation_edit =
    Append string string
  | Insert string string "string option" "string option"
  | Remove string
  | Reorder "string list"

text \<open>Running an edit, with its own environment and draws; the new incidence, if it makes one.\<close>

fun run_edit ::
  "commit_env \<Rightarrow> string \<Rightarrow> nat \<Rightarrow> (nat \<Rightarrow> string) \<Rightarrow> relation_edit \<Rightarrow> ctx \<times> store \<Rightarrow> (ctx \<times> store) \<times> string result" where
  "run_edit env root n draw (Append role p) cs = append_relation_member env root role p n draw cs"
| "run_edit env root n draw (Insert role p before after) cs =
     insert_relation_member env root role p before after n draw cs"
| "run_edit env root n draw (Remove i) cs =
     (case remove_relation_member env root i n cs of (cs', res) \<Rightarrow> (cs', rbind res (\<lambda>x. Inr (incidence_id x))))"
| "run_edit env root n draw (Reorder ids) cs =
     (case reorder_relation_members env root ids n cs of (cs', res) \<Rightarrow> (cs', rbind res (\<lambda>_. Inr [])))"

fun edited :: "relation_edit \<Rightarrow> string \<Rightarrow> relation_member list \<Rightarrow> relation_member list" where
  "edited (Append role p) new ms = ms @ [Member new role p]"
| "edited (Insert role p before after) new ms =
     insert_at (place before after (map incidence_id ms)) (Member new role p) ms"
| "edited (Remove i) new ms = filter (\<lambda>x. incidence_id x \<noteq> i) ms"
| "edited (Reorder ids) new ms = map (\<lambda>i. the (find (\<lambda>x. incidence_id x = i) ms)) ids"

type_synonym edit_run = "commit_env \<times> nat \<times> (nat \<Rightarrow> string) \<times> relation_edit"

fun run_edits ::
  "(bytes \<Rightarrow> bytes) \<Rightarrow> (bytes \<Rightarrow> bytes) \<Rightarrow> string \<Rightarrow> edit_run list \<Rightarrow> ctx \<times> store \<Rightarrow> (ctx \<times> store) \<times> string list result" where
  "run_edits sha shake root [] cs = (cs, Inr [])"
| "run_edits sha shake root ((env, n, draw, ed) # eds) cs =
     (case run_edit (hashed sha shake env) root n draw ed cs of
        (cs', Inl e) \<Rightarrow> (cs', Inl e)
      | (cs', Inr new) \<Rightarrow>
          (case run_edits sha shake root eds cs' of (cs'', res) \<Rightarrow> (cs'', rbind res (\<lambda>news. Inr (new # news)))))"

fun edited_all :: "edit_run list \<Rightarrow> string list \<Rightarrow> relation_member list \<Rightarrow> relation_member list" where
  "edited_all ((_, _, _, ed) # eds) (new # news) ms = edited_all eds news (edited ed new ms)"
| "edited_all _ _ ms = ms"

lemma find_member:
  assumes "i \<in> set (map snd ts)"
  shows "find (\<lambda>x. incidence_id x = i) (members_of m ts) = Some (member_of m i)"
  using assms by (induction ts) force+

lemma run_edit_lists:
  assumes s: "reachable sha shake s" "\<And>x. length (sha x) = 32" and env: "env_transform env = None"
    and ms: "lists (st_cells s) root ms"
    and run: "run_edit (hashed sha shake env) root n draw ed (c, s) = ((c', s'), Inr new)"
  shows "lists (st_cells s') root (edited ed new ms) \<and> reachable sha shake s'"
proof -
  from ms obtain ts e where r: "relation (st_cells s) root ts e" "proper ts e" and ms: "ms = members_of (st_cells s) ts"
    by (auto simp: lists_def)
  show ?thesis
  proof (cases ed)
    case (Append role q)
    with run have "commit_patch (hashed sha shake env) (\<lambda>m. rbind (prepare_append_relation_member m root role q n draw)
        (\<lambda>p. Inr (p, hd (rp_incidences p)))) (c, s) = ((c', s'), Inr new)"
      by (simp add: append_relation_member_def)
    from commit_patch_lays [OF s env this] obtain p where
      p: "prepare_append_relation_members (st_cells s) root [(role, q)] n draw = Inr p" "new = hd (rp_incidences p)"
      and l: "laid (st_cells s) (rp_create p) (rp_replace p) (st_cells s')" and re: "reachable sha shake s'"
      by (auto simp: prepare_append_relation_member_def)
    have "length (rp_incidences p) = 1"
      using p(1) by (auto simp: prepare_append_relation_members_def append_patch_def Let_def split: if_splits)
    then have "fresh_members (rp_incidences p) [(role, q)] = [Member new role q]"
      using p(2) by (cases "rp_incidences p") (auto simp: fresh_members_def)
    with append_edit [OF r p(1) l] re ms Append show ?thesis unfolding lists_def by force
  next
    case (Insert role q before after)
    with run have "commit_patch (hashed sha shake env) (\<lambda>m. rbind (insert_patch m root role q before after n draw)
        (\<lambda>p. Inr (p, hd (rp_incidences p)))) (c, s) = ((c', s'), Inr new)"
      by (simp add: insert_relation_member_def)
    from commit_patch_lays [OF s env this] obtain p where
      p: "insert_patch (st_cells s) root role q before after n draw = Inr p" "new = hd (rp_incidences p)"
      and l: "laid (st_cells s) (rp_create p) (rp_replace p) (st_cells s')" and re: "reachable sha shake s'"
      by auto
    from insert_edit [OF r p(1) l] re ms Insert p(2) show ?thesis unfolding lists_def by force
  next
    case (Remove i)
    with run obtain x where x: "commit_patch (hashed sha shake env)
        (\<lambda>m. rbind (prepare_remove_relation_member m root i n) (\<lambda>(x, p). Inr (p, x))) (c, s) = ((c', s'), Inr x)"
      by (auto simp: remove_relation_member_def split: prod.splits)
    from commit_patch_lays [OF s env x] obtain p where
      p': "rbind (prepare_remove_relation_member (st_cells s) root i n) (\<lambda>(x, p). Inr (p, x)) = Inr (p, x)"
      and l: "laid (st_cells s) (rp_create p) (rp_replace p) (st_cells s')" and re: "reachable sha shake s'" .
    from p' obtain removed cells where
      p: "prepare_remove_relation_members (st_cells s) root [i] n = Inr (removed, cells)" "p = Patch [i] [] cells"
      by (auto simp: prepare_remove_relation_member_def)
    from l p(2) have l: "laid (st_cells s) [] cells (st_cells s')" by simp
    from remove_edit [OF r p(1) l] re ms Remove show ?thesis unfolding lists_def by force
  next
    case (Reorder ids)
    obtain j where inv: "store_inv sha shake s j" using reachable_inv [OF s] by blast
    have g: "graph_ok (st_cells s)" using reachable_graph [OF s] .
    from run Reorder obtain cells where p: "prepare_reorder_relation_members (st_cells s) root ids n = Inr cells"
      and out: "cells = [] \<and> s' = s \<or>
        (\<exists>r. commit (hashed sha shake env) (st_revision s) [] cells (c, s) = ((c', s'), Inr r))"
      by (auto simp: reorder_relation_members_def store_snapshot_def split: if_splits sum.splits prod.splits)
    have l: "laid (st_cells s) [] cells (st_cells s') \<and> reachable sha shake s'"
      using out
    proof
      assume "cells = [] \<and> s' = s"
      with s(1) g show ?thesis by (simp add: laid_def)
    next
      assume "\<exists>r. commit (hashed sha shake env) (st_revision s) [] cells (c, s) = ((c', s'), Inr r)"
      then show ?thesis using commit_lays [OF inv s(2) env] commit_reachable [OF s(1)] by blast
    qed
    from reorder_edit [OF r p conjunct1 [OF l]] obtain us where
      us: "set ids = set (map snd ts)" "relation (st_cells s') root us e" "proper us e"
        "members_of (st_cells s') us = map (member_of (st_cells s)) ids"
      by blast
    have "edited ed new ms = map (member_of (st_cells s)) ids"
      unfolding Reorder ms edited.simps using find_member us(1) by (intro map_cong refl) simp
    with us l show ?thesis unfolding lists_def by force
  qed
qed

text \<open>
  C26: Edits of a relation are edits of a list. However a sequence of committed appends, insertions,
  removals and reorderings runs, the relation afterwards reads as the members it had with the list
  operations applied in the same order: appended at the end, inserted before or after the anchor
  named (or at the end), removed, or put in the order asked for.
\<close>

theorem relation_edits_refine_list_edits:
  assumes "reachable sha shake s" "\<And>x. length (sha x) = 32" "\<forall>(env, _) \<in> set eds. env_transform env = None"
    and "lists (st_cells s) root ms"
    and "run_edits sha shake root eds (c, s) = ((c', s'), Inr news)"
    and "length (edited_all eds news ms) < budget"
  shows "read_relation (st_cells s') root budget = Inr (edited_all eds news ms)"
proof -
  have "lists (st_cells s') root (edited_all eds news ms)"
    using assms(1,3-5)
  proof (induction eds arbitrary: c s ms news)
    case (Cons x eds)
    obtain env n draw ed where x: "x = (env, n, draw, ed)" by (metis prod_cases4)
    from Cons.prems(4) x obtain c1 s1 new news' where
      one: "run_edit (hashed sha shake env) root n draw ed (c, s) = ((c1, s1), Inr new)" and
      rest: "run_edits sha shake root eds (c1, s1) = ((c', s'), Inr news')" "news = new # news'"
      by (auto split: prod.splits sum.splits)
    from run_edit_lists [OF Cons.prems(1) assms(2) _ Cons.prems(3) one] Cons.prems(2) x
    have "lists (st_cells s1) root (edited ed new ms)" "reachable sha shake s1" by auto
    from Cons.IH [OF this(2) _ this(1) rest(1)] Cons.prems(2) x rest(2) show ?case by simp
  qed simp
  then show ?thesis using assms(6) by (rule lists_read)
qed


lemma one_cell_edited:
  "\<exists>c' s' new. run_edits fixed_sha fixed_sha ''a'' [(plain_env, 5, (\<lambda>i. ''u''), Append ''a'' NULL_CELL_ID)]
    (idle_ctx, one_store) = ((c', s'), Inr [new])"
proof -
  let ?inc = "new_id ''incidence'' ''u''"
  let ?p = "Patch [?inc] [Cell ?inc ''a'' NULL_CELL_ID []] [Cell ''a'' ?inc NULL_CELL_ID ''x'']"
  have prep: "prepare_append_relation_members (genesis(''a'' \<mapsto> one_cell)) ''a'' [(''a'', NULL_CELL_ID)] 5 (\<lambda>i. ''u'') = Inr ?p"
    by (simp add: prepare_append_relation_members_def eval_nat_numeral one_cell_def append_patch_def drawn_def
        head_or_null_def Let_def)
  have "admitted one_store idle_ctx (rp_create ?p) (rp_replace ?p)"
    by (simp add: admitted_def one_store genesis_def NULL_CELL_ID_def changes_of_def links_resolve_def
        refusal_def idle_ctx_def one_cell_def new_id_def)
  from one_store_commit [OF this] obtain c' s' where
    "commit (hashed fixed_sha fixed_sha plain_env) (st_revision one_store) (rp_create ?p) (rp_replace ?p)
      (idle_ctx, one_store) = ((c', s'), Inr 2)" by auto
  moreover have "\<not> st_closed one_store" using one_store by (simp add: ready_def)
  ultimately show ?thesis
    by (simp add: append_relation_member_def commit_patch_def store_snapshot_def one_store
        prepare_append_relation_member_def prep)
qed

theorem relation_edits_refine_list_edits_witness:
  "\<exists>(s' :: store) new. read_relation (st_cells s') ''a'' 2 = Inr [Member new ''a'' NULL_CELL_ID]"
proof -
  obtain c' s' new where run: "run_edits fixed_sha fixed_sha ''a'' [(plain_env, 5, (\<lambda>i. ''u''), Append ''a'' NULL_CELL_ID)]
    (idle_ctx, one_store) = ((c', s'), Inr [new])"
    using one_cell_edited by blast
  have "relation (st_cells one_store) ''a'' [] ''a''" "proper [] ''a''"
    by (simp_all add: relation_def ending_def proper_def one_store one_cell_def NULL_CELL_ID_def)
  then have "lists (st_cells one_store) ''a'' []" unfolding lists_def by (metis members_of_simps(1))
  from relation_edits_refine_list_edits [OF one_store(1) fixed_sha_length _ this run, of 2] show ?thesis
    by (auto simp: plain_env_def)
qed

end
