(* ===== verification/LensProps.thy ===== *)
theory LensProps
  imports Lenses RelationProps
begin

text \<open>
  Properties of the lens readings: \<open>open_composition\<close> ends with exactly the reachable region, and
  writing a property's atom changes that Cell's atom and nothing else.
\<close>

section \<open>Reachability\<close>

inductive reaches :: "cells \<Rightarrow> string \<Rightarrow> string \<Rightarrow> bool" for m root where
  start: "reaches m root root"
| first_link: "reaches m root k \<Longrightarrow> m k = Some c \<Longrightarrow> reaches m root (link0 c)"
| second_link: "reaches m root k \<Longrightarrow> m k = Some c \<Longrightarrow> reaches m root (link1 c)"

definition reach :: "cells \<Rightarrow> string \<Rightarrow> string set" where
  "reach m root = {k. reaches m root k}"

definition closed_set :: "cells \<Rightarrow> string set \<Rightarrow> string set \<Rightarrow> bool" where
  "closed_set m A B \<longleftrightarrow> (\<forall>k \<in> A. \<exists>c. m k = Some c \<and> link0 c \<in> B \<and> link1 c \<in> B)"

lemma reach_minimal:
  assumes "closed_set m A A" "root \<in> A"
  shows "reach m root \<subseteq> A"
proof
  fix k assume "k \<in> reach m root"
  then have "reaches m root k" by (simp add: reach_def)
  then show "k \<in> A"
    by induction (use assms in \<open>auto simp: closed_set_def\<close>)
qed

lemma reach_dom:
  assumes "graph_ok m" "m root \<noteq> None"
  shows "reach m root \<subseteq> dom m"
proof (rule reach_minimal)
  show "closed_set m (dom m) (dom m)"
    unfolding closed_set_def using graph_links [OF assms(1)] by blast
qed (use assms(2) in blast)

text \<open>
  The invariant of the loop: what is opened and pending is reachable, and the links of what is
  opened are opened or pending.
\<close>

definition walk_inv :: "cells \<Rightarrow> string \<Rightarrow> nat \<Rightarrow> string list \<Rightarrow> string list \<Rightarrow> bool" where
  "walk_inv m root budget pending opened \<longleftrightarrow>
     distinct opened \<and> length opened \<le> budget \<and> set pending \<union> set opened \<subseteq> reach m root \<and>
     root \<in> set pending \<union> set opened \<and> closed_set m (set opened) (set pending \<union> set opened)"

lemma open_walk_exact:
  assumes "graph_ok m" "m root \<noteq> None" "walk_inv m root budget pending opened"
  shows "case open_walk m budget pending opened of
      Inr ks \<Rightarrow> set ks = reach m root \<and> card (reach m root) \<le> budget
    | Inl e \<Rightarrow> e = MatchBudgetExceeded ''composition exceeded its reachable cells'' \<and> budget < card (reach m root)"
  using assms
proof (induction m budget pending opened rule: open_walk.induct)
  case (1 m budget opened)
  then have o: "closed_set m (set opened) (set opened)" "root \<in> set opened" "set opened \<subseteq> reach m root"
    "distinct opened" "length opened \<le> budget"
    by (auto simp: walk_inv_def)
  from reach_minimal [OF o(1,2)] o(3) have "set opened = reach m root" by blast
  with o(4,5) distinct_card [OF o(4)] show ?case by simp
next
  case (2 m budget k pending opened)
  note o = "2.prems"(3) [unfolded walk_inv_def]
  have fin: "finite (reach m root)"
    using reach_dom [OF "2.prems"(1,2)] graph_okD(4) [OF "2.prems"(1)] by (rule finite_subset)
  have k: "k \<in> reach m root" using o by simp
  with reach_dom [OF "2.prems"(1,2)] obtain c where c: "m k = Some c" by blast
  show ?case
  proof (cases "k \<in> set opened")
    case True
    with o have "walk_inv m root budget pending opened"
      unfolding walk_inv_def by (auto simp: insert_absorb)
    from "2.IH"(1) [OF True "2.prems"(1,2) this] True show ?thesis by simp
  next
    case new: False
    show ?thesis
    proof (cases "budget \<le> length opened")
      case True
      have "card (insert k (set opened)) \<le> card (reach m root)"
        using o k by (intro card_mono [OF fin]) auto
      moreover have "card (insert k (set opened)) = Suc (length opened)"
        using new o by (simp add: distinct_card)
      ultimately show ?thesis using True new by simp
    next
      case False
      have "link0 c \<in> reach m root" "link1 c \<in> reach m root"
        using k c by (auto simp: reach_def intro: reaches.intros)
      moreover have "closed_set m (set (k # opened)) (set (link1 c # link0 c # pending) \<union> set (k # opened))"
        unfolding closed_set_def
      proof
        fix i assume "i \<in> set (k # opened)"
        then consider "i = k" | "i \<in> set opened" by auto
        then show "\<exists>d. m i = Some d \<and> link0 d \<in> set (link1 c # link0 c # pending) \<union> set (k # opened) \<and>
            link1 d \<in> set (link1 c # link0 c # pending) \<union> set (k # opened)"
          by cases (use c o in \<open>auto simp: closed_set_def\<close>)
      qed
      ultimately have "walk_inv m root budget (link1 c # link0 c # pending) (k # opened)"
        using o new False k unfolding walk_inv_def by auto
      from "2.IH"(2) [OF new False c "2.prems"(1,2) this] new False c show ?thesis by simp
    qed
  qed
qed

text \<open>
  C28: Opening a composition ends, and exactly. The walk over arbitrary, possibly cyclic links ends
  for every root and budget; on a well-formed graph it returns the set of the Cells reachable from
  the root when there are at most \<open>budget\<close> of them, and fails on the budget when there are more.
\<close>

theorem open_composition_is_exact:
  assumes "graph_ok m" "m root \<noteq> None" "1 \<le> budget"
  shows "open_composition m root budget =
    (if card (reach m root) \<le> budget then Inr (reach m root)
     else Inl (MatchBudgetExceeded ''composition exceeded its reachable cells''))"
proof -
  have "walk_inv m root budget [root] []"
    by (auto simp: walk_inv_def closed_set_def reach_def intro: reaches.start)
  from open_walk_exact [OF assms(1,2) this] assms(2,3) show ?thesis
    by (cases "open_walk m budget [root] []") (auto simp: open_composition_def)
qed

lemma reach_genesis: "reach genesis NULL_CELL_ID = {NULL_CELL_ID}"
proof
  show "reach genesis NULL_CELL_ID \<subseteq> {NULL_CELL_ID}"
    by (rule reach_minimal) (auto simp: closed_set_def genesis_def)
qed (simp add: reach_def reaches.start)

theorem open_composition_is_exact_witness:
  "open_composition genesis NULL_CELL_ID 1 = Inr {NULL_CELL_ID}"
  using open_composition_is_exact [OF graph_ok_genesis, of NULL_CELL_ID 1]
  by (simp add: reach_genesis) (simp add: genesis_def)

section \<open>Writing a property\<close>

text \<open>Reading a relation looks at links only.\<close>

definition same_links :: "cells \<Rightarrow> cells \<Rightarrow> bool" where
  "same_links m m' \<longleftrightarrow>
     (\<forall>k. map_option (\<lambda>c. (cid c, link0 c, link1 c)) (m' k) = map_option (\<lambda>c. (cid c, link0 c, link1 c)) (m k))"

lemma same_linksD:
  "same_links m m' \<Longrightarrow>
     map_option (\<lambda>c. (cid c, link0 c, link1 c)) (m' k) = map_option (\<lambda>c. (cid c, link0 c, link1 c)) (m k)"
  unfolding same_links_def by (rule spec)

lemma same_links_None: "same_links m m' \<Longrightarrow> m' k = None \<longleftrightarrow> m k = None"
  using same_linksD [of m m' k] by (cases "m k"; cases "m' k") auto

lemma same_links_Some:
  assumes "same_links m m'" "m k = Some c"
  obtains d where "m' k = Some d" "cid d = cid c" "link0 d = link0 c" "link1 d = link1 c"
proof -
  have "map_option (\<lambda>c. (cid c, link0 c, link1 c)) (m' k) = Some (cid c, link0 c, link1 c)"
    using same_linksD [OF assms(1), of k] assms(2) by simp
  with that show thesis by auto
qed

definition projected :: "relation_walk result \<Rightarrow> (relation_member list \<times> nat) result" where
  "projected w = rbind w (\<lambda>(ms, steps, src). Inr (ms, steps))"

lemma projected_step:
  "projected (rbind w (\<lambda>(ms, steps, src). Inr (x # ms, Suc steps, f src))) =
    rbind (projected w) (\<lambda>(ms, steps). Inr (x # ms, Suc steps))"
  by (cases w) (auto simp: projected_def)

lemma read_walk_links:
  assumes "same_links m m'"
  shows "projected (read_walk m' n seen cur) = projected (read_walk m n seen cur)"
proof (induction n arbitrary: seen cur)
  case 0
  show ?case by simp
next
  case (Suc n)
  show ?case
  proof (cases "cur = NULL_CELL_ID \<or> cur \<in> set seen \<or> m cur = None")
    case True
    then show ?thesis using same_links_None [OF assms, of cur] by auto
  next
    case False
    then obtain c where c: "m cur = Some c" by auto
    obtain d where d: "m' cur = Some d" "cid d = cid c" "link0 d = link0 c" "link1 d = link1 c"
      by (rule same_links_Some [OF assms c])
    show ?thesis
    proof (cases "link0 c = NULL_CELL_ID \<or> m (link0 c) = None")
      case True
      then show ?thesis using False c d same_links_None [OF assms, of "link0 c"] by (auto simp: projected_def)
    next
      case l0: False
      then obtain i where i: "m (link0 c) = Some i" by auto
      obtain j where j: "m' (link0 c) = Some j" "cid j = cid i" "link0 j = link0 i" "link1 j = link1 i"
        by (rule same_links_Some [OF assms i])
      show ?thesis
        using False c d l0 i j same_links_None [OF assms, of "link0 i"] same_links_None [OF assms, of "link1 i"]
          Suc.IH [of "cur # seen" "link1 c"]
        by (simp add: projected_step)
    qed
  qed
qed

lemma read_relation_links:
  assumes "same_links m m'"
  shows "read_relation m' r n = read_relation m r n"
proof -
  have p: "rbind w (\<lambda>(ms, steps, src). Inr ms) = rbind (projected w) (\<lambda>(ms, steps). Inr ms)" for w :: "relation_walk result"
    by (cases w) (auto simp: projected_def)
  have "projected (relation_walk m' r n) = projected (relation_walk m r n)"
    using read_walk_links [OF assms] same_links_None [OF assms, of r] by (simp add: relation_walk_def)
  then show ?thesis by (simp add: read_relation_def p)
qed

text \<open>
  A property write is local. When \<open>set_property_atom\<close> succeeds, the Cell it names is the one
  participant of the relation under the value role; afterwards that Cell holds the new atom and
  its old links, every other Cell is as it was, and so every relation reads as before.
\<close>

theorem property_writes_are_local:
  assumes "reachable sha shake s" "\<And>x. length (sha x) = 32" "env_transform env = None"
    and run: "set_property_atom (hashed sha shake env) root value_role x budget (c, s) = ((c', s'), Inr v)"
  shows "\<exists>ms d. read_relation (st_cells s) root budget = Inr ms \<and> participants value_role ms = [v] \<and>
    st_cells s v = Some d \<and> st_cells s' = (st_cells s)(v \<mapsto> d\<lparr>atom := x\<rparr>) \<and>
    (\<forall>r n. read_relation (st_cells s') r n = read_relation (st_cells s) r n)"
proof -
  obtain j where inv: "store_inv sha shake s j" using reachable_inv [OF assms(1,2)] by blast
  from run obtain ms d r where ms: "read_relation (st_cells s) root budget = Inr ms"
    and v: "participant_for_role ms value_role = Inr (Some v)" and d: "st_cells s v = Some d"
    and r: "commit (hashed sha shake env) (st_revision s) [] [Cell (cid d) (link0 d) (link1 d) x] (c, s) = ((c', s'), Inr r)"
    unfolding set_property_atom_def store_snapshot_def read_cell_def
    by (auto split: if_splits sum.splits prod.splits option.splits)
  have cid: "cid d = v" using keyedD [OF graph_okD(1) [OF reachable_graph [OF assms(1,2)]] d] .
  have "laid (st_cells s) [] [Cell (cid d) (link0 d) (link1 d) x] (st_cells s')"
    by (rule commit_lays [OF inv assms(2,3) r])
  then have new: "st_cells s' = (st_cells s)(v \<mapsto> Cell v (link0 d) (link1 d) x)" by (simp add: laid_def cid)
  have upd: "d\<lparr>atom := x\<rparr> = Cell v (link0 d) (link1 d) x" using cid by (cases d) simp
  have s': "st_cells s' = (st_cells s)(v \<mapsto> d\<lparr>atom := x\<rparr>)" unfolding upd by (rule new)
  then have "same_links (st_cells s) (st_cells s')" using d cid by (simp add: same_links_def)
  moreover have "participants value_role ms = [v]"
    using v by (auto simp: participant_for_role_def split: list.splits)
  ultimately show ?thesis using ms d s' read_relation_links by blast
qed

text \<open>A store with one property: the relation \<open>p\<close> gives the Cell \<open>v\<close> the role \<open>a\<close>.\<close>

definition property_cells :: "cell list" where
  "property_cells = [one_cell, Cell ''v'' NULL_CELL_ID NULL_CELL_ID [], Cell ''i'' ''a'' ''v'' [],
     Cell ''p'' ''i'' NULL_CELL_ID []]"

definition property_store :: store where
  "property_store = seeded property_cells"

lemma property_cells_admitted: "admitted open_memory idle_ctx property_cells []"
  by (simp add: admitted_def open_memory_def blank_store_def genesis_def NULL_CELL_ID_def one_cell_def changes_of_def
      refusal_def idle_ctx_def links_resolve_def property_cells_def)

lemmas property_store = seeded [OF property_cells_admitted, folded property_store_def]

lemma property_graph:
  "st_cells property_store ''a'' = Some one_cell"
  "st_cells property_store ''v'' = Some (Cell ''v'' NULL_CELL_ID NULL_CELL_ID [])"
  "st_cells property_store ''i'' = Some (Cell ''i'' ''a'' ''v'' [])"
  "st_cells property_store ''p'' = Some (Cell ''p'' ''i'' NULL_CELL_ID [])"
  by (simp_all add: property_store property_cells_def one_cell_def)

lemma property_reads: "read_relation (st_cells property_store) ''p'' 5 = Inr [Member ''i'' ''a'' ''v'']"
  by (simp add: read_relation_def relation_walk_def property_graph eval_nat_numeral NULL_CELL_ID_def)

theorem property_writes_are_local_witness:
  "\<exists>s' :: store. st_cells s' = (st_cells property_store)(''v'' \<mapsto> Cell ''v'' NULL_CELL_ID NULL_CELL_ID ''z'')"
proof -
  have "admitted property_store idle_ctx [] [Cell ''v'' NULL_CELL_ID NULL_CELL_ID ''z'']"
    by (simp add: admitted_def property_graph changes_of_def links_resolve_def property_store(2,4) NULL_CELL_ID_def
        refusal_def idle_ctx_def property_cells_def genesis_def one_cell_def)
  from seeded_commit [OF property_cells_admitted, folded property_store_def, OF this] obtain c' s' where
    "commit (hashed fixed_sha fixed_sha plain_env) (st_revision property_store) []
      [Cell ''v'' NULL_CELL_ID NULL_CELL_ID ''z''] (idle_ctx, property_store) = ((c', s'), Inr 2)"
    by (auto simp: changes_of_def property_graph)
  moreover have "\<not> st_closed property_store" using property_store(3) by (simp add: ready_def)
  ultimately have "set_property_atom (hashed fixed_sha fixed_sha plain_env) ''p'' ''a'' ''z'' 5 (idle_ctx, property_store) =
      ((c', s'), Inr ''v'')"
    by (simp add: set_property_atom_def store_snapshot_def property_reads participant_for_role_def participants_def
        read_cell_def property_graph)
  from property_writes_are_local [OF property_store(1) fixed_sha_length _ this] show ?thesis
    by (auto simp: plain_env_def property_graph)
qed

end
