(* ===== verification/RelationCache.thy ===== *)
theory RelationCache
  imports Relations Digests
begin

text \<open>
  The request-local reuse of relation walks (\<open>cell_protocols.py\<close>): \<open>relation_projection_scope\<close>, the
  unbounded and the bounded cache with its seals, \<open>read_relation\<close> through a cache, and the capture,
  fingerprint and seeding of a batch of walks across one commit. A mapping and a tuple have an
  \<open>id()\<close>; it is a number here (the code keeps no reference to the mapping, so a dead one's number may be
  given again: \<open>ReuseLives\<close>; a seal keeps its tuple, so that \<open>is\<close> on tuples under one number is equality),
  and the sizes of objects are the parameter \<open>reuse_sizes\<close>.
\<close>

section \<open>Walks kept for reuse\<close>

record relation_reuse =
  ru_revision :: nat
  ru_root :: string
  ru_members :: "relation_member list"
  ru_steps :: nat
  ru_source :: "cell list"

text \<open>A cache key: revision, \<open>id(snapshot.cells)\<close> and relation root.\<close>

type_synonym reuse_key = "nat \<times> nat \<times> string"

record reuse_sizes =
  rz_reuse :: "relation_reuse \<Rightarrow> nat"
  rz_members :: "relation_member list \<Rightarrow> nat"
  rz_cells :: "cell list \<Rightarrow> nat"
  rz_member :: "relation_member \<Rightarrow> nat"
  rz_cell :: "cell \<Rightarrow> nat"
  rz_text :: "string \<Rightarrow> nat"
  rz_atom :: "bytes \<Rightarrow> nat"
  rz_key :: "reuse_key \<Rightarrow> nat"
  rz_seal :: "relation_reuse list \<times> string \<Rightarrow> nat"
  rz_batch :: "relation_reuse list \<Rightarrow> nat"

definition projection_retained_cost :: "reuse_sizes \<Rightarrow> relation_reuse \<Rightarrow> nat" where
  "projection_retained_cost sz e =
     rz_reuse sz e + rz_members sz (ru_members e) + rz_cells sz (ru_source e) + 256 +
     sum_list (map (\<lambda>x. rz_member sz x + rz_text sz (incidence_id x) + rz_text sz (role_id x) +
       rz_text sz (participant_id x)) (ru_members e)) +
     sum_list (map (\<lambda>c. rz_cell sz c + rz_text sz (cid c) + rz_text sz (link0 c) + rz_text sz (link1 c) +
       rz_atom sz (atom c)) (ru_source e))"

definition key_cost :: "reuse_sizes \<Rightarrow> reuse_key \<Rightarrow> relation_reuse \<Rightarrow> nat" where
  "key_cost sz k e = projection_retained_cost sz e + rz_key sz k + rz_text sz (snd (snd k))"

section \<open>The bounded cache\<close>

record bounded_cache =
  bc_entries :: "(reuse_key \<times> relation_reuse) list"
  bc_costs :: "(reuse_key \<times> nat) list"
  bc_max_bytes :: nat
  bc_max_entries :: nat
  bc_retained :: int
  bc_peak_bytes :: int
  bc_peak_entries :: nat
  bc_evicted :: nat
  bc_refused :: nat
  bc_newest :: "nat option"

definition new_bounded_cache :: "nat option \<Rightarrow> nat option \<Rightarrow> bounded_cache result" where
  "new_bounded_cache max_bytes max_entries =
     (case (max_bytes, max_entries) of
        (Some b, Some n) \<Rightarrow>
          if b < 1 \<or> n < 1 then Inl (InvalidCell ''bounded relation projection budget is invalid'')
          else Inr \<lparr>bc_entries = [], bc_costs = [], bc_max_bytes = b, bc_max_entries = n, bc_retained = 0,
            bc_peak_bytes = 0, bc_peak_entries = 0, bc_evicted = 0, bc_refused = 0, bc_newest = None\<rparr>
      | _ \<Rightarrow> Inl (InvalidCell ''bounded relation projection budget is invalid''))"

definition cost_of :: "('k \<times> nat) list \<Rightarrow> 'k \<Rightarrow> int" where
  "cost_of costs k = (case map_of costs k of None \<Rightarrow> 0 | Some n \<Rightarrow> int n)"

definition bounded_drop :: "reuse_key \<Rightarrow> bounded_cache \<Rightarrow> bounded_cache" where
  "bounded_drop k c = c\<lparr>bc_entries := AList.delete k (bc_entries c), bc_costs := AList.delete k (bc_costs c),
     bc_retained := bc_retained c - cost_of (bc_costs c) k\<rparr>"

text \<open>\<open>cache[key]\<close>: the entry becomes the most recently used one.\<close>

definition bounded_getitem :: "reuse_key \<Rightarrow> bounded_cache \<Rightarrow> bounded_cache \<times> relation_reuse option" where
  "bounded_getitem k c = (c\<lparr>bc_entries := od_touch k (bc_entries c)\<rparr>, map_of (bc_entries c) k)"

text \<open>The entries of revisions older than the newest two go.\<close>

fun drop_stale :: "reuse_key list \<Rightarrow> bounded_cache \<Rightarrow> bounded_cache" where
  "drop_stale [] c = c"
| "drop_stale (k # ks) c = drop_stale ks ((bounded_drop k c)\<lparr>bc_evicted := bc_evicted c + 1\<rparr>)"

text \<open>The eviction loop, least recently used first; there is a turn for every entry held.\<close>

fun bounded_evict :: "nat \<Rightarrow> bounded_cache \<Rightarrow> bounded_cache" where
  "bounded_evict 0 c = c"
| "bounded_evict (Suc n) c =
     (if bc_max_entries c < length (bc_entries c) \<or> int (bc_max_bytes c) < bc_retained c
      then (case bc_entries c of
              [] \<Rightarrow> c
            | (k, _) # _ \<Rightarrow> bounded_evict n ((bounded_drop k c)\<lparr>bc_evicted := bc_evicted c + 1\<rparr>))
      else c)"

declare bounded_evict.simps [simp del]

definition bounded_store :: "reuse_sizes \<Rightarrow> reuse_key \<Rightarrow> relation_reuse \<Rightarrow> bounded_cache \<Rightarrow> bounded_cache" where
  "bounded_store sz k e c0 =
     (let c = (if map_of (bc_entries c0) k = None then c0 else bounded_drop k c0);
          cost = key_cost sz k e in
      if bc_max_bytes c < cost then c\<lparr>bc_refused := bc_refused c + 1\<rparr>
      else let held = c\<lparr>bc_entries := bc_entries c @ [(k, e)], bc_costs := AList.update k cost (bc_costs c),
                        bc_retained := bc_retained c + int cost\<rparr>;
               kept = bounded_evict (length (bc_entries held)) held
           in kept\<lparr>bc_peak_bytes := max (bc_peak_bytes kept) (bc_retained kept),
                   bc_peak_entries := max (bc_peak_entries kept) (length (bc_entries kept))\<rparr>)"

definition bounded_setitem :: "reuse_sizes \<Rightarrow> reuse_key \<Rightarrow> relation_reuse \<Rightarrow> bounded_cache \<Rightarrow> bounded_cache" where
  "bounded_setitem sz k e c =
     (let revision = fst k in
      case bc_newest c of
        None \<Rightarrow> bounded_store sz k e (drop_stale (filter (\<lambda>h. fst h + 1 < revision) (map fst (bc_entries c)))
          (c\<lparr>bc_newest := Some revision\<rparr>))
      | Some newest \<Rightarrow>
          if newest < revision
          then bounded_store sz k e (drop_stale (filter (\<lambda>h. fst h + 1 < revision) (map fst (bc_entries c)))
            (c\<lparr>bc_newest := Some revision\<rparr>))
          else if revision + 1 < newest then c\<lparr>bc_refused := bc_refused c + 1\<rparr>
          else bounded_store sz k e c)"

text \<open>Seals: the fingerprint of a batch, kept under the \<open>id()\<close> of its tuple.\<close>

record bounded_seals =
  bs_seals :: "(nat \<times> relation_reuse list \<times> string) list"
  bs_costs :: "(nat \<times> nat) list"
  bs_max_bytes :: nat
  bs_max_entries :: nat
  bs_retained :: int
  bs_peak_bytes :: int
  bs_evicted :: nat
  bs_refused :: nat

definition new_bounded_seals :: "nat \<Rightarrow> nat \<Rightarrow> bounded_seals result" where
  "new_bounded_seals max_bytes max_entries =
     (if max_bytes < 1 \<or> max_entries < 1 then Inl (InvalidCell ''bounded relation projection seal budget is invalid'')
      else Inr \<lparr>bs_seals = [], bs_costs = [], bs_max_bytes = max_bytes, bs_max_entries = max_entries,
        bs_retained = 0, bs_peak_bytes = 0, bs_evicted = 0, bs_refused = 0\<rparr>)"

definition seals_drop :: "nat \<Rightarrow> bounded_seals \<Rightarrow> bounded_seals" where
  "seals_drop k s = s\<lparr>bs_seals := AList.delete k (bs_seals s), bs_costs := AList.delete k (bs_costs s),
     bs_retained := bs_retained s - cost_of (bs_costs s) k\<rparr>"

fun seals_evict :: "nat \<Rightarrow> bounded_seals \<Rightarrow> bounded_seals" where
  "seals_evict 0 s = s"
| "seals_evict (Suc n) s =
     (if bs_max_entries s < length (bs_seals s) \<or> int (bs_max_bytes s) < bs_retained s
      then (case bs_seals s of
              [] \<Rightarrow> s
            | (k, _) # _ \<Rightarrow> seals_evict n ((seals_drop k s)\<lparr>bs_evicted := bs_evicted s + 1\<rparr>))
      else s)"

declare seals_evict.simps [simp del]

definition seal_cost :: "reuse_sizes \<Rightarrow> relation_reuse list \<times> string \<Rightarrow> nat" where
  "seal_cost sz sealed = rz_seal sz sealed + rz_batch sz (fst sealed) + 256 +
     sum_list (map (projection_retained_cost sz) (fst sealed))"

definition seals_setitem :: "reuse_sizes \<Rightarrow> nat \<Rightarrow> relation_reuse list \<times> string \<Rightarrow> bounded_seals \<Rightarrow> bounded_seals" where
  "seals_setitem sz k sealed s0 =
     (let s = (if map_of (bs_seals s0) k = None then s0 else seals_drop k s0);
          cost = seal_cost sz sealed in
      if bs_max_bytes s < cost then s\<lparr>bs_refused := bs_refused s + 1\<rparr>
      else let held = s\<lparr>bs_seals := bs_seals s @ [(k, sealed)], bs_costs := AList.update k cost (bs_costs s),
                        bs_retained := bs_retained s + int cost\<rparr>;
               kept = seals_evict (length (bs_seals held)) held
           in kept\<lparr>bs_peak_bytes := max (bs_peak_bytes kept) (bs_retained kept)\<rparr>)"

section \<open>The request scope\<close>

datatype reuse_cache = Unbounded "(reuse_key \<times> relation_reuse) list" | Bounded bounded_cache

datatype reuse_seals = UnboundedSeals "(nat \<times> relation_reuse list \<times> string) list" | BoundedSeals bounded_seals

record reuse_scope =
  rs_cache :: "reuse_cache option"
  rs_seals :: "reuse_seals option"

fun cache_entries :: "reuse_cache \<Rightarrow> (reuse_key \<times> relation_reuse) list" where
  "cache_entries (Unbounded al) = al"
| "cache_entries (Bounded c) = bc_entries c"

fun cache_getitem :: "reuse_key \<Rightarrow> reuse_cache \<Rightarrow> reuse_cache \<times> relation_reuse option" where
  "cache_getitem k (Unbounded al) = (Unbounded al, map_of al k)"
| "cache_getitem k (Bounded c) = (case bounded_getitem k c of (c', e) \<Rightarrow> (Bounded c', e))"

fun cache_setitem :: "reuse_sizes \<Rightarrow> reuse_key \<Rightarrow> relation_reuse \<Rightarrow> reuse_cache \<Rightarrow> reuse_cache" where
  "cache_setitem sz k e (Unbounded al) = Unbounded (AList.update k e al)"
| "cache_setitem sz k e (Bounded c) = Bounded (bounded_setitem sz k e c)"

fun seals_entries :: "reuse_seals \<Rightarrow> (nat \<times> relation_reuse list \<times> string) list" where
  "seals_entries (UnboundedSeals al) = al"
| "seals_entries (BoundedSeals s) = bs_seals s"

fun seals_set :: "reuse_sizes \<Rightarrow> nat \<Rightarrow> relation_reuse list \<times> string \<Rightarrow> reuse_seals \<Rightarrow> reuse_seals" where
  "seals_set sz k sealed (UnboundedSeals al) = UnboundedSeals (AList.update k sealed al)"
| "seals_set sz k sealed (BoundedSeals s) = BoundedSeals (seals_setitem sz k sealed s)"

definition BOUNDED_PROJECTION_MAX_SEALS :: nat where "BOUNDED_PROJECTION_MAX_SEALS = 256"
definition RESTORE_MAX_BYTES :: nat where "RESTORE_MAX_BYTES = 128 * 1024 * 1024"
definition RESTORE_MAX_ENTRIES :: nat where "RESTORE_MAX_ENTRIES = 32768"

definition open_scope :: "nat option \<Rightarrow> nat option \<Rightarrow> reuse_scope result" where
  "open_scope max_bytes max_entries =
     (if max_bytes = None \<and> max_entries = None
      then Inr \<lparr>rs_cache = Some (Unbounded []), rs_seals = Some (UnboundedSeals [])\<rparr>
      else rbind (new_bounded_cache max_bytes max_entries) (\<lambda>c.
           rbind (new_bounded_seals (max 1 (bc_max_bytes c div 4)) BOUNDED_PROJECTION_MAX_SEALS) (\<lambda>s.
           Inr \<lparr>rs_cache = Some (Bounded c), rs_seals = Some (BoundedSeals s)\<rparr>)))"

text \<open>
  \<open>with relation_projection_scope(...): body\<close>. A nested scope joins the outer one; an outer one is
  gone when its body ends, however it ends.
\<close>

definition relation_projection_scope ::
  "nat option \<Rightarrow> nat option \<Rightarrow> (reuse_scope \<Rightarrow> reuse_scope \<times> 'a result) \<Rightarrow> reuse_scope \<Rightarrow> reuse_scope \<times> 'a result" where
  "relation_projection_scope max_bytes max_entries body sc =
     (if rs_cache sc \<noteq> None
      then (if rs_seals sc = None then (sc, Inl (InvalidCell ''relation projection request scope is incomplete''))
            else body sc)
      else case open_scope max_bytes max_entries of
        Inl e \<Rightarrow> (sc, Inl e)
      | Inr inner \<Rightarrow> (sc, snd (body inner)))"

definition with_restore_scope :: "(reuse_scope \<Rightarrow> reuse_scope \<times> 'a result) \<Rightarrow> reuse_scope \<Rightarrow> reuse_scope \<times> 'a result" where
  "with_restore_scope = relation_projection_scope (Some RESTORE_MAX_BYTES) (Some RESTORE_MAX_ENTRIES)"

text \<open>\<open>relation_projection_retention\<close>: the counters of a bounded scope.\<close>

definition relation_projection_retention :: "reuse_scope \<Rightarrow> (string \<times> int) list option" where
  "relation_projection_retention sc =
     (case (rs_cache sc, rs_seals sc) of
        (Some (Bounded c), Some (BoundedSeals s)) \<Rightarrow> Some
          [(''entries'', int (length (bc_entries c))), (''retained_bytes'', bc_retained c),
           (''peak_bytes'', bc_peak_bytes c), (''peak_entries'', int (bc_peak_entries c)),
           (''evicted'', int (bc_evicted c)), (''refused'', int (bc_refused c)),
           (''max_bytes'', int (bc_max_bytes c)), (''max_entries'', int (bc_max_entries c)),
           (''seal_retained_bytes'', bs_retained s), (''seal_peak_bytes'', bs_peak_bytes s),
           (''seal_max_bytes'', int (bs_max_bytes s)), (''seal_max_entries'', int (bs_max_entries s))]
      | _ \<Rightarrow> None)"

section \<open>Reading through the cache\<close>

definition read_relation_in ::
  "reuse_sizes \<Rightarrow> nat \<Rightarrow> snapshot \<Rightarrow> string \<Rightarrow> nat \<Rightarrow> bool \<Rightarrow> reuse_scope \<Rightarrow> reuse_scope \<times> relation_member list result" where
  "read_relation_in sz ident sn root budget retain sc =
     (if budget < 1 then (sc, Inl (MatchBudgetExceeded ''relation projection budget must be positive''))
      else
        let key = (snap_revision sn, ident, root);
            walk = relation_walk (snap_cells sn) root budget in
        case (if retain then rs_cache sc else None) of
          None \<Rightarrow> (sc, rbind walk (\<lambda>(members, steps, source). Inr members))
        | Some cache \<Rightarrow>
            if map_of (cache_entries cache) key \<noteq> None
            then (case cache_getitem key cache of (cache', entry) \<Rightarrow>
                    (sc\<lparr>rs_cache := Some cache'\<rparr>,
                     if budget < ru_steps (the entry)
                     then Inl (MatchBudgetExceeded ''relation projection exceeded its chain cells'')
                     else Inr (ru_members (the entry))))
            else (case walk of
                    Inl e \<Rightarrow> (sc, Inl e)
                  | Inr (members, steps, source) \<Rightarrow>
                      (sc\<lparr>rs_cache := Some (cache_setitem sz key
                          \<lparr>ru_revision = snap_revision sn, ru_root = root, ru_members = members,
                           ru_steps = steps, ru_source = source\<rparr> cache)\<rparr>, Inr members)))"

section \<open>Carrying walks across one commit\<close>

fun capture_all :: "nat \<Rightarrow> snapshot \<Rightarrow> string list \<Rightarrow> reuse_cache \<Rightarrow> reuse_cache \<times> relation_reuse list" where
  "capture_all ident sn [] cache = (cache, [])"
| "capture_all ident sn (root # roots) cache =
     (let key = (snap_revision sn, ident, root) in
      if map_of (cache_entries cache) key = None then capture_all ident sn roots cache
      else (case cache_getitem key cache of (cache1, entry) \<Rightarrow>
            (case capture_all ident sn roots cache1 of (cache2, es) \<Rightarrow> (cache2, the entry # es))))"

definition capture_relation_projections ::
  "nat \<Rightarrow> snapshot \<Rightarrow> string list \<Rightarrow> reuse_scope \<Rightarrow> reuse_scope \<times> relation_reuse list result" where
  "capture_relation_projections ident sn roots sc =
     (case rs_cache sc of
        None \<Rightarrow> (sc, Inl (InvalidCell ''relation projection capture requires a request scope''))
      | Some cache \<Rightarrow> (case capture_all ident sn (dedup roots) cache of
          (cache', es) \<Rightarrow> (sc\<lparr>rs_cache := Some cache'\<rparr>, Inr es)))"

definition reuse_bytes :: "relation_reuse \<Rightarrow> bytes" where
  "reuse_bytes e =
     field (show_nat (ru_revision e)) @ field (ru_root e) @ field (show_nat (ru_steps e)) @
     field (show_nat (length (ru_members e))) @
     concat (map (\<lambda>x. field (incidence_id x) @ field (role_id x) @ field (participant_id x)) (ru_members e)) @
     field (show_nat (length (ru_source e))) @
     concat (map (\<lambda>c. field (cid c) @ field (link0 c) @ field (link1 c) @ field (atom c)) (ru_source e))"

definition relation_projection_fingerprint ::
  "(bytes \<Rightarrow> bytes) \<Rightarrow> reuse_sizes \<Rightarrow> nat \<Rightarrow> relation_reuse list \<Rightarrow> reuse_scope \<Rightarrow> reuse_scope \<times> string result" where
  "relation_projection_fingerprint sha sz tuple_id entries sc =
     (if \<exists>e \<in> set entries. ru_steps e < 1 \<or> ru_source e = []
      then (sc, Inl (InvalidCell ''relation projection reuse is invalid''))
      else let fp = hex (sha (field (show_nat (length entries)) @ concat (map reuse_bytes entries)))
           in (case rs_seals sc of
                 None \<Rightarrow> (sc, Inr fp)
               | Some seals \<Rightarrow> (sc\<lparr>rs_seals := Some (seals_set sz tuple_id (entries, fp) seals)\<rparr>, Inr fp)))"

text \<open>The loop of \<open>seed_relation_projections\<close>; what was seeded before a refusal stays.\<close>

fun seed_entries ::
  "reuse_sizes \<Rightarrow> nat \<Rightarrow> snapshot \<Rightarrow> nat \<Rightarrow> string list \<Rightarrow> string list \<Rightarrow> relation_reuse list \<Rightarrow> reuse_cache \<Rightarrow>
     reuse_cache \<times> unit result" where
  "seed_entries sz ident sn source changed seen [] cache = (cache, Inr ())"
| "seed_entries sz ident sn source changed seen (e # es) cache =
     (if ru_revision e \<notin> {source, Suc source} \<or> ru_root e \<in> set seen
      then (cache, Inl (InvalidCell ''relation projection reuse revision drifted''))
      else if \<exists>c \<in> set (ru_source e). cid c \<in> set changed \<and> snap_cells sn (cid c) \<noteq> Some c
      then (cache, Inl (InvalidCell ''relation projection source Cell drifted''))
      else
        let key = (snap_revision sn, ident, ru_root e);
            (cache1, existing) = (if map_of (cache_entries cache) key = None then (cache, None) else cache_getitem key cache) in
        if existing \<noteq> None \<and> existing \<noteq> Some e
        then (cache1, Inl (InvalidCell ''relation projection cache conflicts''))
        else seed_entries sz ident sn source changed (ru_root e # seen) es (cache_setitem sz key e cache1))"

definition seed_relation_projections ::
  "(bytes \<Rightarrow> bytes) \<Rightarrow> reuse_sizes \<Rightarrow> nat \<Rightarrow> nat \<Rightarrow> snapshot \<Rightarrow> relation_reuse list \<Rightarrow> nat \<Rightarrow> nat \<Rightarrow> string \<Rightarrow> string list \<Rightarrow>
     reuse_scope \<Rightarrow> reuse_scope \<times> unit result" where
  "seed_relation_projections sha sz ident tuple_id sn entries source target fingerprint changed sc =
     (case rs_cache sc of
        None \<Rightarrow> (sc, Inl (InvalidCell ''relation projection seed requires a request scope''))
      | Some cache \<Rightarrow>
          if target \<noteq> Suc source \<or> snap_revision sn \<noteq> target
          then (sc, Inl (InvalidCell ''relation projection reuse revision drifted''))
          else
            let registered = (case rs_seals sc of None \<Rightarrow> None | Some seals \<Rightarrow> map_of (seals_entries seals) tuple_id);
                (sc1, fp) = (case registered of
                    Some (es, fp) \<Rightarrow> (sc, Inr (es = entries \<and> fp = fingerprint))
                  | None \<Rightarrow> (case relation_projection_fingerprint sha sz tuple_id entries sc of
                      (sc', res) \<Rightarrow> (sc', rbind res (\<lambda>fp. Inr (fp = fingerprint))))) in
            (case fp of
               Inl e \<Rightarrow> (sc1, Inl e)
             | Inr ok \<Rightarrow>
                 if \<not> ok then (sc1, Inl (InvalidCell ''relation projection fingerprint drifted''))
                 else if \<not> distinct changed
                 then (sc1, Inl (InvalidCell ''relation projection changed-root receipt is invalid''))
                 else (case seed_entries sz ident sn source changed [] entries cache of
                         (cache', res) \<Rightarrow> (sc1\<lparr>rs_cache := Some cache'\<rparr>, res))))"

end
