(* ===== verification/RelationCacheProps.thy ===== *)
theory RelationCacheProps
  imports RelationCache RelationLaws Cells
begin

text \<open>
  The reuse of relation walks is invisible: a read through a cache answers what a fresh walk would,
  whatever was read, evicted, captured or seeded before; and a bounded cache keeps its bounds.
\<close>

section \<open>Walks in another graph\<close>

lemma walk_any_budget:
  assumes "keyed m" "relation_walk m root n = Inr (ms, steps, src)"
  shows "relation_walk m root budget =
    (if steps \<le> budget then Inr (ms, steps, src)
     else Inl (MatchBudgetExceeded ''relation projection exceeded its chain cells''))"
proof -
  from assms obtain ts e where "relation m root ts e" "ms = members_of m ts" "steps = length (chain_ids ts e)"
    "src = thread_cells m ts e"
    unfolding relation_walk_Inr_iff [OF assms(1)] by blast
  then show ?thesis by (simp add: relation_walk_relation)
qed

lemma thread_cells_frame:
  assumes "threaded m ts e" "ending m e" "\<forall>c \<in> set (thread_cells m ts e). m' (cid c) = Some c" "dom m \<subseteq> dom m'"
  shows "threaded m' ts e \<and> ending m' e \<and> members_of m' ts = members_of m ts \<and> thread_cells m' ts e = thread_cells m ts e"
  using assms
proof (induction ts)
  case Nil
  then show ?case by (auto simp: ending_def)
next
  case (Cons t ts)
  obtain k i where t: "t = (k, i)" by (cases t)
  from Cons.prems(1) t obtain x r p y where
    k: "k \<noteq> NULL_CELL_ID" "m k = Some (Cell k i (thread_head ts e) x)" and
    i: "i \<noteq> NULL_CELL_ID" "m i = Some (Cell i r p y)" "m r \<noteq> None" "m p \<noteq> None" and ts: "threaded m ts e"
    by (auto simp: incidence_ok_def)
  from Cons.prems(3) t k(2) i(2) have new: "m' k = Some (Cell k i (thread_head ts e) x)" "m' i = Some (Cell i r p y)"
    by auto
  have "m' r \<noteq> None" "m' p \<noteq> None" using i(3,4) Cons.prems(4) by auto
  with new have "incidence_ok m' i" by (auto simp: incidence_ok_def)
  with Cons.IH [OF ts Cons.prems(2)] Cons.prems(3,4) t k i new show ?case by (auto simp: member_of_def)
qed

lemma walk_frame:
  assumes "keyed m" "keyed m'" "relation_walk m root n = Inr (ms, steps, src)"
    and "\<forall>c \<in> set src. m' (cid c) = Some c" "dom m \<subseteq> dom m'"
  shows "relation_walk m' root n = Inr (ms, steps, src)"
proof -
  from assms(1,3) obtain ts e where r: "relation m root ts e" and o: "ms = members_of m ts"
    "steps = length (chain_ids ts e)" "steps \<le> n" "src = thread_cells m ts e"
    unfolding relation_walk_Inr_iff [OF assms(1)] by blast
  from r have t: "threaded m ts e" "ending m e" "m root \<noteq> None" "root = thread_head ts e" "distinct (chain_ids ts e)"
    by (auto simp: relation_def)
  from thread_cells_frame [OF t(1,2) _ assms(5)] assms(4) o(4)
  have f: "threaded m' ts e" "ending m' e" "members_of m' ts = members_of m ts" "thread_cells m' ts e = thread_cells m ts e"
    by auto
  have "m' root \<noteq> None" using t(3) assms(5) by blast
  with f t have "relation m' root ts e" by (simp add: relation_def)
  with f o show ?thesis by (simp add: relation_walk_relation)
qed

section \<open>Caches that hold exact walks\<close>

text \<open>
  An exact walk of a mapping; a cache entry that is one, of the mapping \<open>graphs\<close> gives for the
  identity in its key, at the root in its key.
\<close>

definition exact_walk :: "cells \<Rightarrow> relation_reuse \<Rightarrow> bool" where
  "exact_walk m e \<longleftrightarrow> relation_walk m (ru_root e) (ru_steps e) = Inr (ru_members e, ru_steps e, ru_source e)"

definition walk_ok :: "(nat \<Rightarrow> cells) \<Rightarrow> reuse_key \<Rightarrow> relation_reuse \<Rightarrow> bool" where
  "walk_ok graphs k e \<longleftrightarrow> ru_root e = snd (snd k) \<and> exact_walk (graphs (fst (snd k))) e"

abbreviation cache_ok :: "(nat \<Rightarrow> cells) \<Rightarrow> reuse_cache \<Rightarrow> bool" where
  "cache_ok graphs c \<equiv> entries_ok (walk_ok graphs) (cache_entries c)"

definition scope_ok :: "(nat \<Rightarrow> cells) \<Rightarrow> reuse_scope \<Rightarrow> bool" where
  "scope_ok graphs sc \<longleftrightarrow> (\<forall>c. rs_cache sc = Some c \<longrightarrow> cache_ok graphs c)"

lemma drop_entries [simp]: "bc_entries (bounded_drop k c) = AList.delete k (bc_entries c)"
  by (simp add: bounded_drop_def)

lemma drop_stale_ok: "entries_ok P (bc_entries c) \<Longrightarrow> entries_ok P (bc_entries (drop_stale ks c))"
  by (induction ks c rule: drop_stale.induct) (auto intro: entries_ok_delete)

lemma bounded_evict_ok: "entries_ok P (bc_entries c) \<Longrightarrow> entries_ok P (bc_entries (bounded_evict n c))"
proof (induction n arbitrary: c)
  case (Suc n)
  show ?case
  proof (cases "bc_entries c")
    case (Cons x xs)
    obtain k v where x: "x = (k, v)" by (cases x)
    have "entries_ok P (bc_entries ((bounded_drop k c)\<lparr>bc_evicted := bc_evicted c + 1\<rparr>))"
      using entries_ok_delete [OF Suc.prems] by simp
    from Suc.IH [OF this] Suc.prems Cons x show ?thesis by (simp add: bounded_evict.simps)
  qed (use Suc.prems in \<open>simp add: bounded_evict.simps\<close>)
qed (simp add: bounded_evict.simps)

lemma entries_ok_snoc:
  "entries_ok P al \<Longrightarrow> map_of al k = None \<Longrightarrow> P k e \<Longrightarrow> entries_ok P (al @ [(k, e)])"
  unfolding entries_ok_def
  by (auto simp: map_add_def map_of_eq_None_iff dom_map_of_conv_image_fst split: option.splits)

lemma bounded_store_ok:
  assumes "entries_ok P (bc_entries c)" "P k e"
  shows "entries_ok P (bc_entries (bounded_store sz k e c))"
proof -
  let ?c = "if map_of (bc_entries c) k = None then c else bounded_drop k c"
  have "entries_ok P (bc_entries ?c)" using assms(1) by (simp add: entries_ok_delete)
  moreover have "map_of (bc_entries ?c) k = None" by (auto simp: AList.delete_conv)
  ultimately have "entries_ok P (bc_entries ?c @ [(k, e)])" using assms(2) by (intro entries_ok_snoc)
  with \<open>entries_ok P (bc_entries ?c)\<close> show ?thesis
    unfolding bounded_store_def Let_def by (simp add: bounded_evict_ok)
qed

lemma bounded_setitem_ok:
  assumes "entries_ok P (bc_entries c)" "P k e"
  shows "entries_ok P (bc_entries (bounded_setitem sz k e c))"
proof -
  have "entries_ok P (bc_entries (bounded_store sz k e (drop_stale ks (c\<lparr>bc_newest := x\<rparr>))))" for ks x
    using assms by (intro bounded_store_ok drop_stale_ok) simp_all
  then show ?thesis
    unfolding bounded_setitem_def Let_def using assms bounded_store_ok [OF assms] by (auto split: option.split)
qed

lemma cache_setitem_ok:
  "entries_ok P (cache_entries c) \<Longrightarrow> P k e \<Longrightarrow> entries_ok P (cache_entries (cache_setitem sz k e c))"
  by (cases c) (auto intro: entries_ok_update bounded_setitem_ok)

lemma cache_getitem_ok:
  "entries_ok P (cache_entries c) \<Longrightarrow> entries_ok P (cache_entries (fst (cache_getitem k c)))"
  by (cases c) (auto simp: bounded_getitem_def intro: entries_ok_touch)

lemma cache_getitem_value: "snd (cache_getitem k c) = map_of (cache_entries c) k"
  by (cases c) (auto simp: bounded_getitem_def)

lemma walk_okI:
  "relation_walk (graphs i) root n = Inr (ms, steps, src) \<Longrightarrow> keyed (graphs i) \<Longrightarrow>
     walk_ok graphs (r, i, root) \<lparr>ru_revision = v, ru_root = root, ru_members = ms, ru_steps = steps, ru_source = src\<rparr>"
  using walk_any_budget [of "graphs i" root n ms steps src steps] by (simp add: walk_ok_def exact_walk_def)

text \<open>Nothing is an exact walk of the empty mapping; so an identity without a mapping has no entry.\<close>

lemma exact_walk_empty [simp]: "\<not> exact_walk (\<lambda>k. None) e"
  by (simp add: exact_walk_def relation_walk_def)

lemma cache_ok_grow:
  assumes "cache_ok graphs c" "\<And>i. graphs i \<noteq> (\<lambda>k. None) \<Longrightarrow> graphs' i = graphs i"
  shows "cache_ok graphs' c"
proof (rule entries_ok_mono [OF assms(1)])
  fix k e assume k: "walk_ok graphs k e"
  then have "graphs (fst (snd k)) \<noteq> (\<lambda>k. None)" by (auto simp: walk_ok_def)
  with assms(2) [of "fst (snd k)"] k show "walk_ok graphs' k e" by (simp add: walk_ok_def)
qed

lemma scope_ok_grow:
  "scope_ok graphs sc \<Longrightarrow> (\<And>i. graphs i \<noteq> (\<lambda>k. None) \<Longrightarrow> graphs' i = graphs i) \<Longrightarrow> scope_ok graphs' sc"
  using cache_ok_grow by (fastforce simp: scope_ok_def)

lemma read_relation_in_exact:
  assumes sc: "scope_ok graphs sc" and sn: "snap_cells sn = graphs ident" "keyed (graphs ident)"
  shows "scope_ok graphs (fst (read_relation_in sz ident sn root budget retain sc)) \<and>
    snd (read_relation_in sz ident sn root budget retain sc) = read_relation (graphs ident) root budget"
proof (cases "budget < 1 \<or> \<not> retain \<or> rs_cache sc = None")
  case True
  then show ?thesis using sc sn(1) by (auto simp: read_relation_in_def read_relation_def Let_def)
next
  case False
  then obtain cache where cache: "rs_cache sc = Some cache" "retain" "\<not> budget < 1" by auto
  with sc have ok: "cache_ok graphs cache" by (simp add: scope_ok_def)
  let ?key = "(snap_revision sn, ident, root)"
  show ?thesis
  proof (cases "map_of (cache_entries cache) ?key")
    case (Some e)
    have "walk_ok graphs ?key e" using entries_okD [OF ok Some] .
    then have "relation_walk (graphs ident) root (ru_steps e) = Inr (ru_members e, ru_steps e, ru_source e)"
      by (auto simp: walk_ok_def exact_walk_def)
    from walk_any_budget [OF sn(2) this, of budget] have
      "read_relation (graphs ident) root budget = (if budget < ru_steps e
        then Inl (MatchBudgetExceeded ''relation projection exceeded its chain cells'') else Inr (ru_members e))"
      using cache(3) by (simp add: read_relation_def)
    with Some cache cache_getitem_value [of ?key cache] cache_getitem_ok [OF ok, of ?key] show ?thesis
      by (auto simp: read_relation_in_def Let_def scope_ok_def split: prod.splits)
  next
    case None
    show ?thesis
    proof (cases "relation_walk (graphs ident) root budget")
      case (Inl e)
      with None cache sn sc show ?thesis by (simp add: read_relation_in_def read_relation_def Let_def)
    next
      case (Inr w)
      obtain ms steps src where w: "w = (ms, steps, src)" by (metis prod_cases3)
      from Inr w have "walk_ok graphs ?key \<lparr>ru_revision = snap_revision sn, ru_root = root, ru_members = ms,
          ru_steps = steps, ru_source = src\<rparr>"
        using sn(2) by (intro walk_okI) auto
      with None cache sn Inr w show ?thesis
        by (auto simp: read_relation_in_def read_relation_def Let_def scope_ok_def intro!: cache_setitem_ok [OF ok])
    qed
  qed
qed

section \<open>Carrying walks across a commit\<close>

lemma capture_all_ok:
  "cache_ok graphs c \<Longrightarrow> cache_ok graphs (fst (capture_all ident sn roots c)) \<and>
    (\<forall>e \<in> set (snd (capture_all ident sn roots c)). \<exists>root. walk_ok graphs (snap_revision sn, ident, root) e)"
proof (induction roots arbitrary: c)
  case (Cons root roots)
  let ?key = "(snap_revision sn, ident, root)"
  show ?case
  proof (cases "map_of (cache_entries c) ?key")
    case None
    with Cons show ?thesis by (simp add: Let_def)
  next
    case (Some e)
    from entries_okD [OF Cons.prems Some] have "walk_ok graphs ?key e" .
    with Some Cons.IH [OF cache_getitem_ok [OF Cons.prems, of ?key]] cache_getitem_value [of ?key c] show ?thesis
      by (auto simp: Let_def split: prod.splits)
  qed
qed simp

lemma captured_exact:
  assumes "scope_ok graphs sc" "capture_relation_projections i sn roots sc = (sc', Inr es)"
  shows "\<forall>e \<in> set es. exact_walk (graphs i) e"
proof -
  obtain c c' where c: "rs_cache sc = Some c" "capture_all i sn (dedup roots) c = (c', es)"
    using assms(2) by (auto simp: capture_relation_projections_def split: option.splits prod.splits)
  with assms(1) have "cache_ok graphs c" by (simp add: scope_ok_def)
  from capture_all_ok [OF this, of i sn "dedup roots"] c(2) show ?thesis by (fastforce simp: walk_ok_def)
qed

text \<open>
  A change receipt from one mapping to another: it names every Cell in which they differ, and no
  Cell is gone.
\<close>

definition receipt :: "cells \<Rightarrow> cells \<Rightarrow> string list \<Rightarrow> bool" where
  "receipt before after changed \<longleftrightarrow>
     dom before \<subseteq> dom after \<and> (\<forall>k. before k \<noteq> after k \<longrightarrow> k \<in> set changed)"

lemma seeded_walk:
  assumes e: "exact_walk before e" "keyed before" and m: "keyed (graphs i)" and r: "receipt before (graphs i) changed"
    and ok: "\<not> (\<exists>c \<in> set (ru_source e). cid c \<in> set changed \<and> graphs i (cid c) \<noteq> Some c)"
  shows "walk_ok graphs (n, i, ru_root e) e"
proof -
  note w = e(1) [unfolded exact_walk_def]
  from r have k: "dom before \<subseteq> dom (graphs i)" "\<And>k. k \<notin> set changed \<Longrightarrow> before k = graphs i k"
    by (auto simp: receipt_def)
  from w obtain ts f where t: "relation before (ru_root e) ts f" "ru_source e = thread_cells before ts f"
    unfolding relation_walk_Inr_iff [OF e(2)] by blast
  have src: "before (cid c) = Some c" if "c \<in> set (ru_source e)" for c
  proof -
    from t(1) have "threaded before ts f" "ending before f" by (auto simp: relation_def)
    then show ?thesis using that unfolding t(2)
      by (induction ts) (auto simp: ending_def incidence_ok_def split: if_splits)
  qed
  have "\<forall>c \<in> set (ru_source e). graphs i (cid c) = Some c"
    using src k(2) ok by metis
  from walk_frame [OF e(2) m w this k(1)] show ?thesis by (simp add: walk_ok_def exact_walk_def)
qed

lemma seed_entries_ok:
  assumes all: "\<forall>e \<in> set all. exact_walk before e" "keyed before" "receipt before (graphs ident) changed"
    and m: "keyed (graphs ident)" "snap_cells sn = graphs ident"
  shows "set es \<subseteq> set all \<Longrightarrow> cache_ok graphs c \<Longrightarrow> cache_ok graphs (fst (seed_entries sz ident sn source changed seen es c))"
proof (induction es arbitrary: seen c)
  case (Cons e es)
  let ?key = "(snap_revision sn, ident, ru_root e)"
  show ?case
  proof (cases "ru_revision e \<notin> {source, Suc source} \<or> ru_root e \<in> set seen \<or>
      (\<exists>c \<in> set (ru_source e). cid c \<in> set changed \<and> snap_cells sn (cid c) \<noteq> Some c)")
    case True
    with Cons.prems(2) show ?thesis by auto
  next
    case False
    with m(2) Cons.prems(1) all have w: "walk_ok graphs ?key e" by (intro seeded_walk [where graphs = graphs, OF _ all(2) m(1) all(3)]) auto
    obtain c1 x where c1: "(if map_of (cache_entries c) ?key = None then (c, None) else cache_getitem ?key c) = (c1, x)"
      by (metis surj_pair)
    have ok1: "cache_ok graphs c1"
      using c1 Cons.prems(2) cache_getitem_ok [OF Cons.prems(2), of ?key] by (auto split: if_splits)
    have "cache_ok graphs (cache_setitem sz ?key e c1)" by (rule cache_setitem_ok [OF ok1 w])
    with Cons.IH [OF _ this] Cons.prems(1) False c1 ok1 show ?thesis by (auto simp: Let_def)
  qed
qed simp

end
