(* ===== verification/BoundedReuse.thy ===== *)
theory BoundedReuse
  imports RelationCache
begin

text \<open>
  The accounting that the bounded cache and the bounded seals of \<open>RelationCache\<close> share, as a locale:
  a dictionary with a cost per entry, a running total and an eviction loop. It is interpreted on
  both.
\<close>

section \<open>Accounting\<close>

locale accounting =
  fixes entries :: "'s \<Rightarrow> ('k \<times> 'v) list" and costs :: "'s \<Rightarrow> ('k \<times> nat) list" and retained :: "'s \<Rightarrow> int"
    and drop1 :: "'k \<Rightarrow> 's \<Rightarrow> 's" and cost :: "'k \<Rightarrow> 'v \<Rightarrow> nat"
    and max_bytes :: "'s \<Rightarrow> nat" and max_entries :: "'s \<Rightarrow> nat" and evict :: "nat \<Rightarrow> 's \<Rightarrow> 's"
    and count_one :: "'s \<Rightarrow> 's"
  assumes drop1_entries: "entries (drop1 k s) = AList.delete k (entries s)"
    and drop1_costs: "costs (drop1 k s) = AList.delete k (costs s)"
    and drop1_retained: "retained (drop1 k s) = retained s - cost_of (costs s) k"
    and count_same: "entries (count_one s) = entries s" "costs (count_one s) = costs s" "retained (count_one s) = retained s"
    and limits_kept: "max_bytes (count_one (drop1 k s)) = max_bytes s" "max_entries (count_one (drop1 k s)) = max_entries s"
    and evict_0: "evict 0 s = s"
    and evict_Suc: "evict (Suc n) s =
      (if max_entries s < length (entries s) \<or> int (max_bytes s) < retained s
       then (case entries s of [] \<Rightarrow> s | (k, _) # _ \<Rightarrow> evict n (count_one (drop1 k s))) else s)"
begin

definition total_cost :: "('k \<times> 'v) list \<Rightarrow> int" where
  "total_cost al = sum_list (map (\<lambda>(k, v). int (cost k v)) al)"

definition accounted :: "'s \<Rightarrow> bool" where
  "accounted s \<longleftrightarrow> keys_distinct (entries s) \<and> retained s = total_cost (entries s) \<and>
     (\<forall>k. map_of (costs s) k = map_option (cost k) (map_of (entries s) k))"

lemma total_cost_delete:
  "keys_distinct al \<Longrightarrow> total_cost (AList.delete k al) =
    total_cost al - (case map_of al k of None \<Rightarrow> 0 | Some v \<Rightarrow> int (cost k v))"
proof (induction al)
  case (Cons x al)
  obtain k' v where x: "x = (k', v)" by (cases x)
  show ?case
  proof (cases "k' = k")
    case True
    then have "AList.delete k al = al" using Cons.prems x by (intro delete_id) auto
    with True x show ?thesis by (simp add: total_cost_def)
  next
    case False
    with x Cons show ?thesis by (simp add: total_cost_def)
  qed
qed (simp add: total_cost_def)

lemma accounted_drop: "accounted s \<Longrightarrow> accounted (drop1 k s)"
  unfolding accounted_def drop1_entries drop1_costs drop1_retained
  using total_cost_delete [of "entries s" k]
  by (auto simp: cost_of_def AList.delete_conv AList.distinct_delete split: option.splits)

lemma accounted_cong:
  "entries t = entries s \<Longrightarrow> costs t = costs s \<Longrightarrow> retained t = retained s \<Longrightarrow> accounted t = accounted s"
  by (simp add: accounted_def)

lemma accounted_grow:
  assumes "accounted s" "map_of (entries s) k = None" "entries t = entries s @ [(k, v)]"
    "costs t = AList.update k (cost k v) (costs s)" "retained t = retained s + int (cost k v)"
  shows "accounted t"
proof -
  have "k \<notin> fst ` set (entries s)" using assms(2) by (simp add: map_of_eq_None_iff)
  moreover have "map_of (entries s @ [(k, v)]) = (map_of (entries s))(k \<mapsto> v)"
    using assms(2) by (auto simp: map_add_def split: option.splits)
  ultimately show ?thesis
    using assms unfolding accounted_def by (auto simp: AList.update_conv' total_cost_def)
qed

lemma evicted:
  assumes "accounted s" "length (entries s) \<le> n"
  shows "accounted (evict n s) \<and> length (entries (evict n s)) \<le> max_entries (evict n s) \<and>
    retained (evict n s) \<le> int (max_bytes (evict n s)) \<and>
    max_bytes (evict n s) = max_bytes s \<and> max_entries (evict n s) = max_entries s \<and>
    set (entries (evict n s)) \<subseteq> set (entries s)"
  using assms
proof (induction n arbitrary: s)
  case 0
  then show ?case by (simp add: evict_0 accounted_def total_cost_def)
next
  case (Suc n)
  show ?case
  proof (cases "max_entries s < length (entries s) \<or> int (max_bytes s) < retained s")
    case False
    with Suc.prems show ?thesis by (simp add: evict_Suc)
  next
    case True
    show ?thesis
    proof (cases "entries s")
      case Nil
      with Suc.prems True show ?thesis by (simp add: accounted_def total_cost_def)
    next
      case (Cons x xs)
      obtain k v where x: "x = (k, v)" by (cases x)
      let ?s = "count_one (drop1 k s)"
      have del: "entries ?s = AList.delete k (entries s)" by (simp add: count_same drop1_entries)
      have "accounted ?s" using accounted_drop [OF Suc.prems(1)] accounted_cong count_same by blast
      moreover have "length (AList.delete k xs) \<le> length xs" by (rule length_delete_le)
      then have "length (entries ?s) \<le> n" using Suc.prems(2) Cons x unfolding del by simp
      moreover have "set (AList.delete k (entries s)) \<subseteq> set (entries s)" by (simp add: AList.delete_eq)
      ultimately show ?thesis
        using Suc.IH [of ?s] True Cons x del by (auto simp: evict_Suc limits_kept)
    qed
  qed
qed

end

definition count_eviction :: "bounded_cache \<Rightarrow> bounded_cache" where
  "count_eviction c = c\<lparr>bc_evicted := bc_evicted c + 1\<rparr>"

definition count_unsealed :: "bounded_seals \<Rightarrow> bounded_seals" where
  "count_unsealed s = s\<lparr>bs_evicted := bs_evicted s + 1\<rparr>"

interpretation cached: accounting bc_entries bc_costs bc_retained bounded_drop "key_cost sz" bc_max_bytes bc_max_entries
    bounded_evict count_eviction
  for sz
  by unfold_locales (auto simp: bounded_drop_def count_eviction_def bounded_evict.simps split: list.split)

interpretation sealed: accounting bs_seals bs_costs bs_retained seals_drop "\<lambda>k v. seal_cost sz v" bs_max_bytes bs_max_entries
    seals_evict count_unsealed
  for sz
  by unfold_locales (auto simp: seals_drop_def count_unsealed_def seals_evict.simps split: list.split)

end
