(* ===== verification/ReuseProps.thy ===== *)
theory ReuseProps
  imports RelationCacheProps BoundedReuse "HOL-Library.Multiset"
begin

text \<open>
  Sequences of reads, captures, fingerprints, seeds of any batch and nested scopes: a bounded scope
  stays within its bounds.
\<close>

section \<open>Sequences of operations in a request scope\<close>

datatype reuse_op =
    ReadRelation nat nat string nat bool
  | Capture nat nat "string list"
  | Fingerprint nat "relation_reuse list"
  | Seed nat nat nat "relation_reuse list" nat nat string "string list"
  | Nested "nat option" "nat option" "reuse_op list"

text \<open>
  \<open>ReadRelation i r root budget retain\<close> reads in the mapping with identity \<open>i\<close> at revision \<open>r\<close>;
  \<open>Seed i t r entries source target fingerprint changed\<close> seeds the batch of tuple \<open>t\<close>.
\<close>

fun run_reuse :: "(bytes \<Rightarrow> bytes) \<Rightarrow> reuse_sizes \<Rightarrow> (nat \<Rightarrow> cells) \<Rightarrow> reuse_op list \<Rightarrow> reuse_scope \<Rightarrow>
    reuse_scope \<times> relation_member list result list"
  and run_reuse_op :: "(bytes \<Rightarrow> bytes) \<Rightarrow> reuse_sizes \<Rightarrow> (nat \<Rightarrow> cells) \<Rightarrow> reuse_op \<Rightarrow> reuse_scope \<Rightarrow>
    reuse_scope \<times> relation_member list result list" where
  "run_reuse sha sz graphs [] sc = (sc, [])"
| "run_reuse sha sz graphs (op # ops) sc =
     (case run_reuse_op sha sz graphs op sc of (sc1, as) \<Rightarrow>
      (case run_reuse sha sz graphs ops sc1 of (sc2, bs) \<Rightarrow> (sc2, as @ bs)))"
| "run_reuse_op sha sz graphs (ReadRelation i r root budget retain) sc =
     (case read_relation_in sz i (Snapshot r (graphs i)) root budget retain sc of (sc', a) \<Rightarrow> (sc', [a]))"
| "run_reuse_op sha sz graphs (Capture i r roots) sc =
     (fst (capture_relation_projections i (Snapshot r (graphs i)) roots sc), [])"
| "run_reuse_op sha sz graphs (Fingerprint t entries) sc =
     (fst (relation_projection_fingerprint sha sz t entries sc), [])"
| "run_reuse_op sha sz graphs (Seed i t r entries source target fp changed) sc =
     (fst (seed_relation_projections sha sz i t (Snapshot r (graphs i)) entries source target fp changed sc), [])"
| "run_reuse_op sha sz graphs (Nested b n ops) sc =
     (case relation_projection_scope b n (\<lambda>sc. case run_reuse sha sz graphs ops sc of (sc', as) \<Rightarrow> (sc', Inr as)) sc of
        (sc', Inl e) \<Rightarrow> (sc', [Inl e])
      | (sc', Inr as) \<Rightarrow> (sc', as))"

definition unit_sizes :: reuse_sizes where
  "unit_sizes = \<lparr>rz_reuse = \<lambda>_. 1, rz_members = \<lambda>_. 1, rz_cells = \<lambda>_. 1, rz_member = \<lambda>_. 1, rz_cell = \<lambda>_. 1,
     rz_text = length, rz_atom = length, rz_key = \<lambda>_. 1, rz_seal = \<lambda>_. 1, rz_batch = \<lambda>_. 1\<rparr>"

section \<open>Bounds\<close>

definition cache_bounded :: "reuse_sizes \<Rightarrow> nat \<Rightarrow> nat \<Rightarrow> bounded_cache \<Rightarrow> bool" where
  "cache_bounded sz b n c \<longleftrightarrow>
     bc_max_bytes c = b \<and> bc_max_entries c = n \<and> cached.accounted sz c \<and>
     length (bc_entries c) \<le> n \<and> bc_retained c \<le> int b \<and> bc_peak_bytes c \<le> int b \<and> bc_peak_entries c \<le> n \<and>
     (\<forall>k \<in> set (map fst (bc_entries c)). \<exists>r. bc_newest c = Some r \<and> fst k \<le> r \<and> r \<le> Suc (fst k))"

definition seals_bounded :: "reuse_sizes \<Rightarrow> nat \<Rightarrow> nat \<Rightarrow> bounded_seals \<Rightarrow> bool" where
  "seals_bounded sz b n s \<longleftrightarrow>
     bs_max_bytes s = b \<and> bs_max_entries s = n \<and> sealed.accounted sz s \<and>
     length (bs_seals s) \<le> n \<and> bs_retained s \<le> int b \<and> bs_peak_bytes s \<le> int b"

lemma drop_fields [simp]:
  "bc_max_bytes (bounded_drop k c) = bc_max_bytes c" "bc_max_entries (bounded_drop k c) = bc_max_entries c"
  "bc_newest (bounded_drop k c) = bc_newest c" "bc_peak_bytes (bounded_drop k c) = bc_peak_bytes c"
  "bc_peak_entries (bounded_drop k c) = bc_peak_entries c"
  "bc_retained (bounded_drop k c) = bc_retained c - cost_of (bc_costs c) k"
  by (simp_all add: bounded_drop_def)

lemma cost_of_nonneg [simp]: "0 \<le> cost_of costs k"
  by (simp add: cost_of_def split: option.split)

lemma set_delete: "set (AList.delete k al) = {x \<in> set al. fst x \<noteq> k}"
  by (auto simp: AList.delete_eq)

lemma drop_bounded:
  assumes "cache_bounded sz b n c"
  shows "cache_bounded sz b n (bounded_drop k c)"
  using assms cached.accounted_drop [of sz c k] order_trans [OF length_delete_le [of k "bc_entries c"], of n]
  by (auto simp: cache_bounded_def set_delete) (use cost_of_nonneg [of "bc_costs c" k] in linarith)

lemma cache_bounded_cong:
  "cache_bounded sz b n c \<Longrightarrow> cache_bounded sz b n (c\<lparr>bc_evicted := x\<rparr>)"
  "cache_bounded sz b n c \<Longrightarrow> cache_bounded sz b n (c\<lparr>bc_refused := y\<rparr>)"
  by (simp_all add: cache_bounded_def cached.accounted_def)

text \<open>A newer revision: what is older than the two newest goes.\<close>

lemma drop_stale_bounded:
  assumes "bc_max_bytes c = b" "bc_max_entries c = n" "cached.accounted sz c" "length (bc_entries c) \<le> n"
    "bc_retained c \<le> int b" "bc_peak_bytes c \<le> int b" "bc_peak_entries c \<le> n"
    "\<forall>k \<in> set (map fst (bc_entries c)) - set ks. \<exists>r. bc_newest c = Some r \<and> fst k \<le> r \<and> r \<le> Suc (fst k)"
  shows "cache_bounded sz b n (drop_stale ks c)"
  using assms
proof (induction ks arbitrary: c)
  case (Cons k ks)
  let ?c = "(bounded_drop k c)\<lparr>bc_evicted := bc_evicted c + 1\<rparr>"
  have "cached.accounted sz ?c" using cached.accounted_drop [OF Cons.prems(3), of k] by (simp add: cached.accounted_def)
  moreover have "length (bc_entries ?c) \<le> n"
    using order_trans [OF length_delete_le Cons.prems(4)] by simp
  moreover have "bc_retained ?c \<le> int b"
    using Cons.prems(5) by simp (use cost_of_nonneg [of "bc_costs c" k] in linarith)
  moreover have "\<forall>j \<in> set (map fst (bc_entries ?c)) - set ks. \<exists>r. bc_newest ?c = Some r \<and> fst j \<le> r \<and> r \<le> Suc (fst j)"
    using Cons.prems(8) by (auto simp: set_delete)
  ultimately show ?case using Cons.prems by (simp add: Cons.IH)
qed (simp add: cache_bounded_def)

lemma bounded_store_bounded:
  assumes c: "cache_bounded sz b n c" and new: "bc_newest c = Some r" "fst k \<le> r" "r \<le> Suc (fst k)"
  shows "cache_bounded sz b n (bounded_store sz k e c)"
proof -
  let ?c = "if map_of (bc_entries c) k = None then c else bounded_drop k c"
  have c1: "cache_bounded sz b n ?c" "bc_newest ?c = Some r" using c drop_bounded new(1) by auto
  have none: "map_of (bc_entries ?c) k = None" by (auto simp: AList.delete_conv)
  show ?thesis
  proof (cases "bc_max_bytes ?c < key_cost sz k e")
    case True
    then show ?thesis unfolding bounded_store_def Let_def using cache_bounded_cong(2) [OF c1(1)] by simp
  next
    case False
    let ?held = "?c\<lparr>bc_entries := bc_entries ?c @ [(k, e)], bc_costs := AList.update k (key_cost sz k e) (bc_costs ?c),
      bc_retained := bc_retained ?c + int (key_cost sz k e)\<rparr>"
    let ?kept = "bounded_evict (length (bc_entries ?held)) ?held"
    have "cached.accounted sz ?held"
      by (rule cached.accounted_grow [of sz ?c k]) (use c1 none in \<open>auto simp: cache_bounded_def\<close>)
    from cached.evicted [OF this order_refl]
    have kept: "cached.accounted sz ?kept" "length (bc_entries ?kept) \<le> n" "bc_retained ?kept \<le> int b"
      "bc_max_bytes ?kept = b" "bc_max_entries ?kept = n" "set (bc_entries ?kept) \<subseteq> set (bc_entries ?held)"
      using c1(1) by (auto simp: cache_bounded_def)
    have same: "bc_newest (bounded_evict m d) = bc_newest d" "bc_peak_bytes (bounded_evict m d) = bc_peak_bytes d"
      "bc_peak_entries (bounded_evict m d) = bc_peak_entries d" for m d
      by (induction m arbitrary: d) (auto simp: bounded_evict.simps split: list.split)
    have "\<forall>j \<in> set (map fst (bc_entries ?kept)). \<exists>r. bc_newest ?kept = Some r \<and> fst j \<le> r \<and> r \<le> Suc (fst j)"
    proof
      fix j assume "j \<in> set (map fst (bc_entries ?kept))"
      then have "j \<in> set (map fst (bc_entries ?held))"
        using image_mono [OF kept(6), of fst] unfolding set_map by (rule rev_subsetD)
      then consider "j = k" | "j \<in> set (map fst (bc_entries ?c))" by auto
      then show "\<exists>r. bc_newest ?kept = Some r \<and> fst j \<le> r \<and> r \<le> Suc (fst j)"
        using c1 new(2,3) by cases (auto simp: same cache_bounded_def)
    qed
    with kept c1 have "cache_bounded sz b n (?kept\<lparr>bc_peak_bytes := max (bc_peak_bytes ?kept) (bc_retained ?kept),
        bc_peak_entries := max (bc_peak_entries ?kept) (length (bc_entries ?kept))\<rparr>)"
      by (auto simp: cache_bounded_def cached.accounted_def same)
    with False show ?thesis unfolding bounded_store_def Let_def by simp
  qed
qed

lemma bounded_setitem_bounded:
  assumes c: "cache_bounded sz b n c"
  shows "cache_bounded sz b n (bounded_setitem sz k e c)"
proof -
  let ?stale = "filter (\<lambda>h. fst h + 1 < fst k) (map fst (bc_entries c))"
  have fresh: "cache_bounded sz b n (bounded_store sz k e (drop_stale ?stale (c\<lparr>bc_newest := Some (fst k)\<rparr>)))"
    if "\<forall>h \<in> set (map fst (bc_entries c)). fst h \<le> fst k"
  proof -
    have "cache_bounded sz b n (drop_stale ?stale (c\<lparr>bc_newest := Some (fst k)\<rparr>))"
      by (rule drop_stale_bounded) (use c that in \<open>auto simp: cache_bounded_def cached.accounted_def\<close>)
    moreover have "bc_newest (drop_stale ks d) = bc_newest d" for ks d
      by (induction ks d rule: drop_stale.induct) auto
    ultimately show ?thesis by (intro bounded_store_bounded [where r = "fst k"]) auto
  qed
  show ?thesis
  proof (cases "bc_newest c")
    case None
    have "bc_entries c = []"
    proof (rule ccontr)
      assume "bc_entries c \<noteq> []"
      then have "fst (hd (bc_entries c)) \<in> set (map fst (bc_entries c))" by simp
      with c None show False unfolding cache_bounded_def by fastforce
    qed
    with fresh None show ?thesis by (simp add: bounded_setitem_def)
  next
    case (Some r)
    have old: "\<forall>h \<in> set (map fst (bc_entries c)). fst h \<le> r" using c Some by (auto simp: cache_bounded_def)
    show ?thesis
    proof (cases "r < fst k")
      case True
      with old have "\<forall>h \<in> set (map fst (bc_entries c)). fst h \<le> fst k" by auto
      from fresh [OF this] Some True show ?thesis by (simp add: bounded_setitem_def Let_def)
    next
      case False
      with Some cache_bounded_cong(2) [OF c] bounded_store_bounded [OF c Some, of k e] show ?thesis
        by (auto simp: bounded_setitem_def Let_def)
    qed
  qed
qed

lemma seals_cong:
  "seals_bounded sz b n s \<Longrightarrow> seals_bounded sz b n (s\<lparr>bs_refused := x\<rparr>)"
  by (simp add: seals_bounded_def sealed.accounted_def)

lemma seals_drop_bounded:
  assumes "seals_bounded sz b n s"
  shows "seals_bounded sz b n (seals_drop k s)"
proof -
  have "sealed.accounted sz (seals_drop k s)"
    using assms sealed.accounted_drop [of sz s k] by (simp add: seals_bounded_def)
  moreover have "length (bs_seals (seals_drop k s)) \<le> n"
    using assms order_trans [OF length_delete_le [of k "bs_seals s"], of n] by (simp add: seals_bounded_def seals_drop_def)
  moreover have "bs_retained (seals_drop k s) \<le> int b"
    using assms by (simp add: seals_bounded_def seals_drop_def) (use cost_of_nonneg [of "bs_costs s" k] in linarith)
  ultimately show ?thesis using assms by (simp add: seals_bounded_def seals_drop_def)
qed

lemma seals_setitem_bounded:
  assumes s: "seals_bounded sz b n s"
  shows "seals_bounded sz b n (seals_setitem sz k x s)"
proof -
  let ?s = "if map_of (bs_seals s) k = None then s else seals_drop k s"
  have s1: "seals_bounded sz b n ?s" using s seals_drop_bounded by auto
  have none: "map_of (bs_seals ?s) k = None" by (auto simp: AList.delete_conv seals_drop_def)
  show ?thesis
  proof (cases "bs_max_bytes ?s < seal_cost sz x")
    case True
    then show ?thesis unfolding seals_setitem_def Let_def using seals_cong [OF s1] by simp
  next
    case False
    let ?held = "?s\<lparr>bs_seals := bs_seals ?s @ [(k, x)], bs_costs := AList.update k (seal_cost sz x) (bs_costs ?s),
      bs_retained := bs_retained ?s + int (seal_cost sz x)\<rparr>"
    let ?kept = "seals_evict (length (bs_seals ?held)) ?held"
    have "sealed.accounted sz ?held"
      by (rule sealed.accounted_grow [of sz ?s k]) (use s1 none in \<open>auto simp: seals_bounded_def\<close>)
    from sealed.evicted [OF this order_refl]
    have kept: "sealed.accounted sz ?kept" "length (bs_seals ?kept) \<le> n" "bs_retained ?kept \<le> int b"
      "bs_max_bytes ?kept = b" "bs_max_entries ?kept = n"
      using s1 by (auto simp: seals_bounded_def)
    have same: "bs_peak_bytes (seals_evict m d) = bs_peak_bytes d" for m d
      by (induction m arbitrary: d) (auto simp: seals_evict.simps seals_drop_def split: list.split)
    from kept s1 have "seals_bounded sz b n (?kept\<lparr>bs_peak_bytes := max (bs_peak_bytes ?kept) (bs_retained ?kept)\<rparr>)"
      by (auto simp: seals_bounded_def sealed.accounted_def same)
    with False show ?thesis unfolding seals_setitem_def Let_def by simp
  qed
qed

text \<open>A bounded request scope, and what its operations keep.\<close>

definition scope_bounded :: "reuse_sizes \<Rightarrow> nat \<Rightarrow> nat \<Rightarrow> reuse_scope \<Rightarrow> bool" where
  "scope_bounded sz b n sc \<longleftrightarrow>
     (\<exists>c s. rs_cache sc = Some (Bounded c) \<and> rs_seals sc = Some (BoundedSeals s) \<and> cache_bounded sz b n c \<and>
        seals_bounded sz (max 1 (b div 4)) BOUNDED_PROJECTION_MAX_SEALS s)"

lemma open_scope_bounded:
  assumes "open_scope (Some b) (Some n) = Inr sc"
  shows "scope_bounded sz b n sc"
  using assms
  by (auto simp: open_scope_def new_bounded_cache_def new_bounded_seals_def scope_bounded_def cache_bounded_def
      seals_bounded_def cached.accounted_def sealed.accounted_def cached.total_cost_def sealed.total_cost_def
      split: if_splits)

lemma sum_list_mset: "mset xs = mset ys \<Longrightarrow> sum_list (map f xs) = (sum_list (map f ys) :: int)"
  by (metis mset_map sum_mset_sum_list)

lemma touch_bounded: "cache_bounded sz b n c \<Longrightarrow> cache_bounded sz b n (fst (bounded_getitem k c))"
proof -
  assume c: "cache_bounded sz b n c"
  have perm: "mset (od_touch k al) = mset al" if "keys_distinct al" for al :: "(reuse_key \<times> relation_reuse) list"
  proof (cases "map_of al k")
    case (Some v)
    then have "(k, v) \<in> set al" by (rule map_of_SomeD)
    then obtain xs ys where al: "al = xs @ (k, v) # ys" by (meson split_list)
    with that have "k \<notin> fst ` set xs" "k \<notin> fst ` set ys" by auto
    then have "AList.delete k xs = xs" "AList.delete k ys = ys" by (auto intro: delete_id)
    then have "AList.delete k al = xs @ ys" unfolding al AList.delete_eq by simp
    with Some show ?thesis by (simp add: od_touch_def al)
  qed (simp add: od_touch_def)
  have d: "keys_distinct (bc_entries c)" using c by (simp add: cache_bounded_def cached.accounted_def)
  note p = perm [OF d]
  have "length (od_touch k (bc_entries c)) = length (bc_entries c)" using p by (metis size_mset)
  moreover have "set (od_touch k (bc_entries c)) = set (bc_entries c)" using p by (metis set_mset_mset)
  moreover have "cached.total_cost sz (od_touch k (bc_entries c)) = cached.total_cost sz (bc_entries c)"
    unfolding cached.total_cost_def using p by (rule sum_list_mset)
  ultimately show ?thesis
    using c by (simp add: bounded_getitem_def cache_bounded_def cached.accounted_def)
qed

lemma cache_op_bounded:
  assumes "cache_bounded sz b n c"
  shows "\<exists>c'. fst (cache_getitem k (Bounded c)) = Bounded c' \<and> cache_bounded sz b n c'"
    and "\<exists>c'. cache_setitem sz k e (Bounded c) = Bounded c' \<and> cache_bounded sz b n c'"
  using touch_bounded [OF assms, of k] bounded_setitem_bounded [OF assms, of k e]
  by (cases "bounded_getitem k c"; simp)+

lemma capture_all_bounded:
  "cache_bounded sz b n c \<Longrightarrow> \<exists>c'. fst (capture_all i sn roots (Bounded c)) = Bounded c' \<and> cache_bounded sz b n c'"
proof (induction roots arbitrary: c)
  case (Cons root roots)
  let ?key = "(snap_revision sn, i, root)"
  obtain c1 e where c1: "cache_getitem ?key (Bounded c) = (Bounded c1, e)" "cache_bounded sz b n c1"
    using cache_op_bounded(1) [OF Cons.prems, of ?key] by (metis fst_conv surj_pair)
  show ?case
    using Cons.IH [OF Cons.prems] Cons.IH [OF c1(2)] c1(1) by (auto simp: Let_def split: prod.splits)
qed simp

lemma seed_entries_bounded:
  "cache_bounded sz b n c \<Longrightarrow>
    \<exists>c'. fst (seed_entries sz i sn source changed seen es (Bounded c)) = Bounded c' \<and> cache_bounded sz b n c'"
proof (induction es arbitrary: seen c)
  case (Cons e es)
  let ?key = "(snap_revision sn, i, ru_root e)"
  obtain c1 x where c1: "(if map_of (cache_entries (Bounded c)) ?key = None then (Bounded c, None)
      else cache_getitem ?key (Bounded c)) = (Bounded c1, x)" "cache_bounded sz b n c1"
    using cache_op_bounded(1) [OF Cons.prems, of ?key] Cons.prems by (metis fst_conv surj_pair)
  obtain c2 where c2: "cache_setitem sz ?key e (Bounded c1) = Bounded c2" "cache_bounded sz b n c2"
    using cache_op_bounded(2) [OF c1(2)] by blast
  show ?case
    using Cons.IH [OF c2(2)] Cons.prems c1 c2(1)
    by (simp add: Let_def del: cache_getitem.simps cache_setitem.simps)
qed auto


lemma fingerprint_bounded:
  assumes "scope_bounded sz b n sc"
  shows "scope_bounded sz b n (fst (relation_projection_fingerprint sha sz t es sc))"
  using assms seals_setitem_bounded
  by (auto simp: scope_bounded_def relation_projection_fingerprint_def Let_def)

lemma run_reuse_bounded:
  "scope_bounded sz b n sc \<Longrightarrow> scope_bounded sz b n (fst (run_reuse sha sz graphs ops sc))"
  "scope_bounded sz b n sc \<Longrightarrow> scope_bounded sz b n (fst (run_reuse_op sha sz graphs op sc))"
proof (induction sha sz graphs ops sc and sha sz graphs op sc rule: run_reuse_run_reuse_op.induct)
  case (2 sha sz graphs op ops sc)
  then show ?case by (auto split: prod.splits)
next
  case (3 sha sz graphs i r root budget retain sc)
  then obtain c s where c: "rs_cache sc = Some (Bounded c)" "rs_seals sc = Some (BoundedSeals s)" "cache_bounded sz b n c"
    "seals_bounded sz (max 1 (b div 4)) BOUNDED_PROJECTION_MAX_SEALS s"
    by (auto simp: scope_bounded_def)
  have "\<exists>c'. rs_cache (fst (read_relation_in sz i (Snapshot r (graphs i)) root budget retain sc)) = Some (Bounded c') \<and>
      cache_bounded sz b n c' \<and> rs_seals (fst (read_relation_in sz i (Snapshot r (graphs i)) root budget retain sc)) = rs_seals sc"
    using c(1,3) touch_bounded [OF c(3), of "(r, i, root)"] bounded_setitem_bounded [OF c(3)]
    by (auto simp: read_relation_in_def Let_def split: sum.split prod.split)
  with c(2,4) show ?case by (auto simp: scope_bounded_def split: prod.split)
next
  case (4 sha sz graphs i r roots sc)
  then obtain c s where c: "rs_cache sc = Some (Bounded c)" "rs_seals sc = Some (BoundedSeals s)" "cache_bounded sz b n c"
    "seals_bounded sz (max 1 (b div 4)) BOUNDED_PROJECTION_MAX_SEALS s"
    by (auto simp: scope_bounded_def)
  obtain c' es where "capture_all i (Snapshot r (graphs i)) (dedup roots) (Bounded c) = (Bounded c', es)" "cache_bounded sz b n c'"
    using capture_all_bounded [OF c(3), of i "Snapshot r (graphs i)" "dedup roots"] by (metis fst_conv surj_pair)
  with c show ?case by (simp add: scope_bounded_def capture_relation_projections_def)
next
  case (5 sha sz graphs t entries sc)
  then show ?case by (simp add: fingerprint_bounded)
next
  case (6 sha sz graphs i t r entries source target fp changed sc)
  then obtain c s where c: "rs_cache sc = Some (Bounded c)" "rs_seals sc = Some (BoundedSeals s)" "cache_bounded sz b n c"
    "seals_bounded sz (max 1 (b div 4)) BOUNDED_PROJECTION_MAX_SEALS s"
    by (auto simp: scope_bounded_def)
  obtain sc1 res where fp: "relation_projection_fingerprint sha sz t entries sc = (sc1, res)" by (metis surj_pair)
  with fingerprint_bounded [OF 6, of sha t entries] have s1: "scope_bounded sz b n sc1" by simp
  obtain c' res' where en: "seed_entries sz i (Snapshot r (graphs i)) source changed [] entries (Bounded c) = (Bounded c', res')"
    "cache_bounded sz b n c'"
    using seed_entries_bounded [OF c(3), of i "Snapshot r (graphs i)" source changed "[]" entries] by (metis fst_conv surj_pair)
  have put: "scope_bounded sz b n (x\<lparr>rs_cache := Some (Bounded c')\<rparr>)" if "scope_bounded sz b n x" for x
    using that en(2) by (auto simp: scope_bounded_def)
  from 6 c(1) fp s1 en(1) put show ?case
    unfolding run_reuse_op.simps seed_relation_projections_def Let_def
    by (auto split: option.split sum.split)
next
  case (7 sha sz graphs lb ln ops sc)
  then have "rs_cache sc \<noteq> None" "rs_seals sc \<noteq> None" by (auto simp: scope_bounded_def)
  with "7.IH" [OF "7.prems"] "7.prems" show ?case
    by (cases "run_reuse sha sz graphs ops sc") (simp add: relation_projection_scope_def)
qed auto

text \<open>
  C31: A bounded scope is bounded. Whatever is read, captured, fingerprinted or seeded in it, a
  scope opened with limits holds at most its number of walks and at most its bytes, the running
  total being the sum of the costs of the walks held; the high-water marks stay within the limits;
  only walks of the two newest revisions are held; and the seals stay within theirs, 256 and a
  quarter of the bytes.
\<close>

theorem bounded_reuse_is_bounded:
  assumes "open_scope (Some b) (Some n) = Inr sc" "run_reuse sha sz graphs ops sc = (sc', answers)"
  shows "\<exists>c s. rs_cache sc' = Some (Bounded c) \<and> rs_seals sc' = Some (BoundedSeals s) \<and>
    length (bc_entries c) \<le> n \<and> bc_peak_entries c \<le> n \<and>
    bc_retained c = sum_list (map (\<lambda>(k, e). int (key_cost sz k e)) (bc_entries c)) \<and>
    bc_retained c \<le> int b \<and> bc_peak_bytes c \<le> int b \<and>
    (\<forall>k e. (k, e) \<in> set (bc_entries c) \<longrightarrow> (\<exists>r. bc_newest c = Some r \<and> fst k \<le> r \<and> r \<le> Suc (fst k))) \<and>
    length (bs_seals s) \<le> 256 \<and> bs_retained s \<le> int (max 1 (b div 4)) \<and>
    bs_retained s = sum_list (map (\<lambda>(k, x). int (seal_cost sz x)) (bs_seals s))"
proof -
  have "scope_bounded sz b n sc'"
    using run_reuse_bounded(1) [OF open_scope_bounded [OF assms(1)], where sha = sha and graphs = graphs and ops = ops and sz = sz] assms(2) by simp
  then obtain c s where c: "rs_cache sc' = Some (Bounded c)" "rs_seals sc' = Some (BoundedSeals s)" "cache_bounded sz b n c"
    "seals_bounded sz (max 1 (b div 4)) BOUNDED_PROJECTION_MAX_SEALS s"
    by (auto simp: scope_bounded_def)
  then have "\<forall>k e. (k, e) \<in> set (bc_entries c) \<longrightarrow> (\<exists>r. bc_newest c = Some r \<and> fst k \<le> r \<and> r \<le> Suc (fst k))"
    by (fastforce simp: cache_bounded_def)
  with c show ?thesis
    unfolding cache_bounded_def seals_bounded_def cached.accounted_def sealed.accounted_def cached.total_cost_def
      sealed.total_cost_def BOUNDED_PROJECTION_MAX_SEALS_def
    by blast
qed

theorem bounded_reuse_is_bounded_witness:
  "\<exists>sc c. open_scope (Some 1000) (Some 2) = Inr sc \<and>
     rs_cache (fst (run_reuse fixed_sha unit_sizes (\<lambda>i. genesis) [ReadRelation 0 0 NULL_CELL_ID 3 True] sc)) = Some (Bounded c) \<and>
     length (bc_entries c) \<le> 2"
proof -
  obtain sc where sc: "open_scope (Some 1000) (Some 2) = Inr sc"
    by (simp add: open_scope_def new_bounded_cache_def new_bounded_seals_def BOUNDED_PROJECTION_MAX_SEALS_def)
  obtain sc' as where "run_reuse fixed_sha unit_sizes (\<lambda>i. genesis) [ReadRelation 0 0 NULL_CELL_ID 3 True] sc = (sc', as)"
    by (metis surj_pair)
  from bounded_reuse_is_bounded [OF sc this] sc this show ?thesis by (metis fst_conv)
qed

end
