(* ===== verification/ReuseLives.thy ===== *)
theory ReuseLives
  imports ReuseProps StoreProps
begin

text \<open>
  The reuse of relation walks is invisible, over the lives of the objects it is keyed by. Mappings
  come and go and \<open>id()\<close> gives a dead one's number to a new one; batches of walks are captured in
  one request scope and seeded in another. \<open>perform\<close> runs such a history through the cache,
  \<open>plainly\<close> answers it by fresh walks wherever the client keeps to the objects' lives.
\<close>

section \<open>A client's history\<close>

text \<open>
  \<open>Bind i m\<close>: a new mapping gets the identity \<open>i\<close>; \<open>Free i\<close>: its last reference goes.
  \<open>Walk i r root budget retain\<close>: \<open>read_relation\<close> of a snapshot of revision \<open>r\<close> over the mapping
  \<open>i\<close>. \<open>Take i r roots\<close>: \<open>capture_relation_projections\<close>, whose batch is kept.
  \<open>Stamp t k\<close>: the fingerprint of the \<open>k\<close>-th batch, its tuple having the identity \<open>t\<close>.
  \<open>Carry i t k r source target fingerprint changed\<close>: \<open>seed_relation_projections\<close> of that batch
  into a snapshot of revision \<open>r\<close> over \<open>i\<close>. \<open>Within b n acts\<close>: a request scope.
\<close>

datatype reuse_act =
    Bind nat cells
  | Free nat
  | Walk nat nat string nat bool
  | Take nat nat "string list"
  | Stamp nat nat
  | Carry nat nat nat nat nat nat string "string list"
  | Within "nat option" "nat option" "reuse_act list"

record reuse_world =
  rw_live :: "nat \<rightharpoonup> cells"
  rw_batches :: "relation_reuse list list"
  rw_scope :: reuse_scope

type_synonym answers = "relation_member list result list"

fun perform :: "(bytes \<Rightarrow> bytes) \<Rightarrow> reuse_sizes \<Rightarrow> reuse_act list \<Rightarrow> reuse_world \<Rightarrow> reuse_world \<times> answers"
  and perform_act :: "(bytes \<Rightarrow> bytes) \<Rightarrow> reuse_sizes \<Rightarrow> reuse_act \<Rightarrow> reuse_world \<Rightarrow> reuse_world \<times> answers" where
  "perform sha sz [] w = (w, [])"
| "perform sha sz (act # acts) w =
     (case perform_act sha sz act w of (w1, xs) \<Rightarrow>
      (case perform sha sz acts w1 of (w2, ys) \<Rightarrow> (w2, xs @ ys)))"
| "perform_act sha sz (Bind i m) w = (w\<lparr>rw_live := (rw_live w)(i \<mapsto> m)\<rparr>, [])"
| "perform_act sha sz (Free i) w = (w\<lparr>rw_live := (rw_live w)(i := None)\<rparr>, [])"
| "perform_act sha sz (Walk i r root budget retain) w =
     (case rw_live w i of
        None \<Rightarrow> (w, [])
      | Some m \<Rightarrow> (case read_relation_in sz i (Snapshot r m) root budget retain (rw_scope w) of
          (sc, a) \<Rightarrow> (w\<lparr>rw_scope := sc\<rparr>, [a])))"
| "perform_act sha sz (Take i r roots) w =
     (case rw_live w i of
        None \<Rightarrow> (w, [])
      | Some m \<Rightarrow> (case capture_relation_projections i (Snapshot r m) roots (rw_scope w) of
          (sc, Inl e) \<Rightarrow> (w\<lparr>rw_scope := sc\<rparr>, [Inl e])
        | (sc, Inr es) \<Rightarrow> (w\<lparr>rw_scope := sc, rw_batches := rw_batches w @ [es]\<rparr>, [])))"
| "perform_act sha sz (Stamp t k) w =
     (if k < length (rw_batches w)
      then (w\<lparr>rw_scope := fst (relation_projection_fingerprint sha sz t (rw_batches w ! k) (rw_scope w))\<rparr>, [])
      else (w, []))"
| "perform_act sha sz (Carry i t k r source target fp changed) w =
     (case rw_live w i of
        None \<Rightarrow> (w, [])
      | Some m \<Rightarrow>
          if k < length (rw_batches w)
          then (w\<lparr>rw_scope := fst (seed_relation_projections sha sz i t (Snapshot r m) (rw_batches w ! k)
                 source target fp changed (rw_scope w))\<rparr>, [])
          else (w, []))"
| "perform_act sha sz (Within b n acts) w =
     (case relation_projection_scope b n
        (\<lambda>sc. case perform sha sz acts (w\<lparr>rw_scope := sc\<rparr>) of (w', xs) \<Rightarrow> (rw_scope w', Inr (w', xs))) (rw_scope w) of
        (sc, Inl e) \<Rightarrow> (w\<lparr>rw_scope := sc\<rparr>, [Inl e])
      | (sc, Inr (w', xs)) \<Rightarrow> (w'\<lparr>rw_scope := sc\<rparr>, xs))"

section \<open>The same history without reuse\<close>

text \<open>
  What the client must know of its objects: the live mappings, the identities a walk of the current
  scope may be filed under, and for each batch the mapping it was captured from. \<open>plainly\<close> is
  undefined where the client breaks the lives of its objects or the contract of a seed:
  a new mapping has an identity no live one has (what \<open>id()\<close> promises); a mapping whose walks the
  current scope may hold is not freed before the scope ends; and a batch is seeded with a receipt
  of what changed since the mapping it was captured from.
\<close>

record lifetimes =
  lt_live :: "nat \<rightharpoonup> cells"
  lt_kept :: "nat list"
  lt_taken :: "cells list"

fun plainly :: "bool \<Rightarrow> reuse_act list \<Rightarrow> lifetimes \<Rightarrow> (lifetimes \<times> answers) option"
  and plain_act :: "bool \<Rightarrow> reuse_act \<Rightarrow> lifetimes \<Rightarrow> (lifetimes \<times> answers) option" where
  "plainly inside [] v = Some (v, [])"
| "plainly inside (act # acts) v =
     (case plain_act inside act v of
        None \<Rightarrow> None
      | Some (v1, xs) \<Rightarrow> (case plainly inside acts v1 of None \<Rightarrow> None | Some (v2, ys) \<Rightarrow> Some (v2, xs @ ys)))"
| "plain_act inside (Bind i m) v =
     (if lt_live v i = None \<and> keyed m then Some (v\<lparr>lt_live := (lt_live v)(i \<mapsto> m)\<rparr>, []) else None)"
| "plain_act inside (Free i) v =
     (if inside \<and> i \<in> set (lt_kept v) then None else Some (v\<lparr>lt_live := (lt_live v)(i := None)\<rparr>, []))"
| "plain_act inside (Walk i r root budget retain) v =
     (case lt_live v i of
        None \<Rightarrow> None
      | Some m \<Rightarrow> Some (if retain then v\<lparr>lt_kept := i # lt_kept v\<rparr> else v, [read_relation m root budget]))"
| "plain_act inside (Take i r roots) v =
     (case lt_live v i of
        None \<Rightarrow> None
      | Some m \<Rightarrow>
          if inside then Some (v\<lparr>lt_kept := i # lt_kept v, lt_taken := lt_taken v @ [m]\<rparr>, [])
          else Some (v, [Inl (InvalidCell ''relation projection capture requires a request scope'')]))"
| "plain_act inside (Stamp t k) v = (if k < length (lt_taken v) then Some (v, []) else None)"
| "plain_act inside (Carry i t k r source target fp changed) v =
     (case lt_live v i of
        None \<Rightarrow> None
      | Some m \<Rightarrow>
          if k < length (lt_taken v) \<and> receipt (lt_taken v ! k) m changed
          then Some (v\<lparr>lt_kept := i # lt_kept v\<rparr>, []) else None)"
| "plain_act inside (Within b n acts) v =
     (if inside then plainly True acts v
      else case open_scope b n of
        Inl e \<Rightarrow> Some (v, [Inl e])
      | Inr _ \<Rightarrow> plainly True acts (v\<lparr>lt_kept := []\<rparr>))"

section \<open>What ties the two\<close>

definition held :: "lifetimes \<Rightarrow> nat \<Rightarrow> cells" where
  "held v i = (if i \<in> set (lt_kept v) then case lt_live v i of None \<Rightarrow> Map.empty | Some m \<Rightarrow> m else Map.empty)"

definition complete :: "reuse_scope \<Rightarrow> bool" where
  "complete sc \<longleftrightarrow> (rs_cache sc = None \<longleftrightarrow> rs_seals sc = None)"

definition taken_ok :: "cells list \<Rightarrow> relation_reuse list list \<Rightarrow> bool" where
  "taken_ok ms bs \<longleftrightarrow> list_all2 (\<lambda>m es. keyed m \<and> (\<forall>e \<in> set es. exact_walk m e)) ms bs"

definition tied :: "bool \<Rightarrow> lifetimes \<Rightarrow> reuse_world \<Rightarrow> bool" where
  "tied inside v w \<longleftrightarrow> lt_live v = rw_live w \<and> (inside \<longleftrightarrow> rs_cache (rw_scope w) \<noteq> None) \<and> complete (rw_scope w) \<and>
     (\<forall>i m. lt_live v i = Some m \<longrightarrow> keyed m) \<and> taken_ok (lt_taken v) (rw_batches w) \<and>
     scope_ok (held v) (rw_scope w)"

lemma tiedD:
  assumes "tied inside v w"
  shows "rw_live w = lt_live v" "inside \<longleftrightarrow> rs_cache (rw_scope w) \<noteq> None" "complete (rw_scope w)"
    "lt_live v i = Some m \<Longrightarrow> keyed m" "taken_ok (lt_taken v) (rw_batches w)" "scope_ok (held v) (rw_scope w)"
  using assms by (auto simp: tied_def)

lemma taken_okD:
  assumes "taken_ok ms bs"
  shows "length bs = length ms" "k < length ms \<Longrightarrow> keyed (ms ! k) \<and> (\<forall>e \<in> set (bs ! k). exact_walk (ms ! k) e)"
  using assms by (auto simp: taken_ok_def list_all2_conv_all_nth)

lemma scope_ok_closed: "rs_cache sc = None \<Longrightarrow> scope_ok graphs sc"
  by (simp add: scope_ok_def)

lemma held_grows:
  assumes "scope_ok (held v) sc"
  shows "scope_ok (held (v\<lparr>lt_kept := i # lt_kept v\<rparr>)) sc"
  using assms by (rule scope_ok_grow) (auto simp: held_def)

lemma held_taken [simp]: "held (v\<lparr>lt_taken := x\<rparr>) = held v"
  by (simp add: held_def fun_eq_iff)

lemma held_kept: "lt_live v i = Some m \<Longrightarrow> held (v\<lparr>lt_kept := i # lt_kept v\<rparr>) i = m"
  by (simp add: held_def)

lemma fingerprint_scope:
  "rs_cache (fst (relation_projection_fingerprint sha sz t es sc)) = rs_cache sc"
  "complete sc \<Longrightarrow> complete (fst (relation_projection_fingerprint sha sz t es sc))"
  by (auto simp: relation_projection_fingerprint_def Let_def complete_def split: option.split)

lemma read_scope:
  "complete sc \<Longrightarrow> complete (fst (read_relation_in sz i sn root budget retain sc))"
  "rs_cache (fst (read_relation_in sz i sn root budget retain sc)) = None \<longleftrightarrow> rs_cache sc = None"
  "\<not> retain \<Longrightarrow> read_relation_in sz i sn root budget retain sc = (sc, read_relation (snap_cells sn) root budget)"
  by (auto simp: complete_def read_relation_in_def read_relation_def Let_def split: option.split sum.split prod.split)

lemma open_scope_ok:
  assumes "open_scope b n = Inr sc"
  shows "scope_ok graphs sc" "complete sc" "rs_cache sc \<noteq> None"
  using assms
  by (auto simp: open_scope_def new_bounded_cache_def new_bounded_seals_def scope_ok_def complete_def rbind_Inr_iff
      split: if_splits option.splits)

section \<open>Acts\<close>

lemma walk_tied:
  assumes t: "tied inside v w" and m: "lt_live v i = Some m"
    and run: "read_relation_in sz i (Snapshot r m) root budget retain (rw_scope w) = (sc, a)"
  shows "tied inside (if retain then v\<lparr>lt_kept := i # lt_kept v\<rparr> else v) (w\<lparr>rw_scope := sc\<rparr>) \<and>
    a = read_relation m root budget"
proof (cases retain)
  case True
  let ?v = "v\<lparr>lt_kept := i # lt_kept v\<rparr>"
  note T = tiedD [OF t]
  have "snap_cells (Snapshot r m) = held ?v i" "keyed (held ?v i)" using held_kept [OF m] T(4) [OF m] by simp_all
  from read_relation_in_exact [OF held_grows [OF T(6), of i] this, of sz root budget retain] run
  have "scope_ok (held ?v) sc" "a = read_relation m root budget" using held_kept [OF m] by auto
  moreover have "complete sc" "rs_cache sc = None \<longleftrightarrow> rs_cache (rw_scope w) = None"
    using read_scope(1) [OF T(3), of sz i "Snapshot r m" root budget retain] run
      read_scope(2) [of sz i "Snapshot r m" root budget retain "rw_scope w"] by auto
  ultimately show ?thesis using True t by (simp add: tied_def)
next
  case False
  with read_scope(3) [OF False, of sz i "Snapshot r m" root budget "rw_scope w"] run t show ?thesis by auto
qed

lemma take_tied:
  assumes t: "tied True v w" and m: "lt_live v i = Some m"
  shows "\<exists>sc es. capture_relation_projections i (Snapshot r m) roots (rw_scope w) = (sc, Inr es) \<and>
    tied True (v\<lparr>lt_kept := i # lt_kept v, lt_taken := lt_taken v @ [m]\<rparr>)
      (w\<lparr>rw_scope := sc, rw_batches := rw_batches w @ [es]\<rparr>)"
proof -
  let ?v = "v\<lparr>lt_kept := i # lt_kept v\<rparr>"
  note T = tiedD [OF t]
  from T(2) obtain c where c: "rs_cache (rw_scope w) = Some c" by auto
  obtain c' es where e: "capture_all i (Snapshot r m) (dedup roots) c = (c', es)" by (metis surj_pair)
  let ?sc = "(rw_scope w)\<lparr>rs_cache := Some c'\<rparr>"
  have run: "capture_relation_projections i (Snapshot r m) roots (rw_scope w) = (?sc, Inr es)"
    using c e by (simp add: capture_relation_projections_def)
  note ok = held_grows [OF T(6), of i]
  then have "cache_ok (held ?v) c" using c by (simp add: scope_ok_def)
  from capture_all_ok [OF this, of i "Snapshot r m" "dedup roots"] e have "scope_ok (held ?v) ?sc" by (simp add: scope_ok_def)
  moreover have "\<forall>x \<in> set es. exact_walk m x" using captured_exact [OF ok run] held_kept [OF m] by simp
  ultimately have "tied True (v\<lparr>lt_kept := i # lt_kept v, lt_taken := lt_taken v @ [m]\<rparr>)
      (w\<lparr>rw_scope := ?sc, rw_batches := rw_batches w @ [es]\<rparr>)"
    using t c T(4) [OF m] by (simp add: tied_def taken_ok_def list_all2_appendI complete_def held_def)
  with run show ?thesis by blast
qed

lemma carry_tied:
  assumes t: "tied inside v w" and m: "lt_live v i = Some m"
    and k: "k < length (lt_taken v)" "receipt (lt_taken v ! k) m changed"
  shows "tied inside (v\<lparr>lt_kept := i # lt_kept v\<rparr>) (w\<lparr>rw_scope := fst (seed_relation_projections sha sz i t0
    (Snapshot r m) (rw_batches w ! k) source target fp changed (rw_scope w))\<rparr>)"
proof -
  let ?v = "v\<lparr>lt_kept := i # lt_kept v\<rparr>" and ?sc = "rw_scope w" and ?es = "rw_batches w ! k"
  let ?seed = "seed_relation_projections sha sz i t0 (Snapshot r m) ?es source target fp changed ?sc"
  note T = tiedD [OF t]
  note ok = held_grows [OF T(6), of i] and h = held_kept [OF m]
  have good: "scope_ok (held ?v) (fst ?seed) \<and> complete (fst ?seed) \<and> (rs_cache (fst ?seed) = None \<longleftrightarrow> rs_cache ?sc = None)"
  proof (cases "rs_cache ?sc")
    case None
    with ok T(3) show ?thesis by (simp add: seed_relation_projections_def)
  next
    case (Some c)
    have B: "\<forall>e \<in> set ?es. exact_walk (lt_taken v ! k) e" "keyed (lt_taken v ! k)"
      using taken_okD(2) [OF T(5) k(1)] by auto
    have "cache_ok (held ?v) c" using ok Some by (simp add: scope_ok_def)
    then have seeded: "cache_ok (held ?v) (fst (seed_entries sz i (Snapshot r m) source changed [] ?es c))"
      by (intro seed_entries_ok [OF B]) (use k(2) h T(4) [OF m] in simp_all)
    obtain sc1 res where fp: "relation_projection_fingerprint sha sz t0 ?es ?sc = (sc1, res)" by (metis surj_pair)
    with fingerprint_scope(1) [of sha sz t0 ?es ?sc] fingerprint_scope(2) [OF T(3), of sha sz t0 ?es]
    have s1: "rs_cache sc1 = rs_cache ?sc" "complete sc1" by auto
    obtain c' res' where en: "seed_entries sz i (Snapshot r m) source changed [] ?es c = (c', res')" by (metis surj_pair)
    with seeded have "cache_ok (held ?v) c'" by simp
    with ok T(3) s1 Some fp en show ?thesis
      unfolding seed_relation_projections_def Let_def
      by (auto simp: scope_ok_def complete_def split: option.splits sum.splits)
  qed
  with t show ?thesis by (simp add: tied_def)
qed

lemma bind_tied:
  assumes t: "tied inside v w" and "lt_live v i = None" "keyed m"
  shows "tied inside (v\<lparr>lt_live := (lt_live v)(i \<mapsto> m)\<rparr>) (w\<lparr>rw_live := (rw_live w)(i \<mapsto> m)\<rparr>)"
proof -
  have "scope_ok (held (v\<lparr>lt_live := (lt_live v)(i \<mapsto> m)\<rparr>)) (rw_scope w)"
    using tiedD(6) [OF t] by (rule scope_ok_grow) (use assms(2) in \<open>auto simp: held_def split: if_splits\<close>)
  with assms show ?thesis by (auto simp: tied_def)
qed

lemma free_tied:
  assumes t: "tied inside v w" and "\<not> (inside \<and> i \<in> set (lt_kept v))"
  shows "tied inside (v\<lparr>lt_live := (lt_live v)(i := None)\<rparr>) (w\<lparr>rw_live := (rw_live w)(i := None)\<rparr>)"
proof -
  have "scope_ok (held (v\<lparr>lt_live := (lt_live v)(i := None)\<rparr>)) (rw_scope w)"
  proof (cases inside)
    case True
    with assms(2) have "i \<notin> set (lt_kept v)" by simp
    then have "held (v\<lparr>lt_live := (lt_live v)(i := None)\<rparr>) = held v" by (auto simp: held_def fun_eq_iff)
    then show ?thesis using tiedD(6) [OF t] by simp
  next
    case False
    then show ?thesis using tiedD(2) [OF t] by (intro scope_ok_closed) simp
  qed
  with t show ?thesis by (auto simp: tied_def)
qed

lemma perform_plainly:
  shows "tied inside v w \<Longrightarrow> plainly inside acts v = Some (v', answers) \<Longrightarrow>
      snd (perform sha sz acts w) = answers \<and> tied inside v' (fst (perform sha sz acts w))"
    and "tied inside v w \<Longrightarrow> plain_act inside act v = Some (v', answers) \<Longrightarrow>
      snd (perform_act sha sz act w) = answers \<and> tied inside v' (fst (perform_act sha sz act w))"
proof (induction inside acts v and inside act v arbitrary: w v' answers and w v' answers rule: plainly_plain_act.induct)
  case (2 inside act acts v)
  then obtain v1 xs ys where a: "plain_act inside act v = Some (v1, xs)" "plainly inside acts v1 = Some (v', ys)"
    "answers = xs @ ys"
    by (auto split: option.splits)
  from "2.IH"(1) [OF "2.prems"(1) a(1)] have w1: "snd (perform_act sha sz act w) = xs"
    "tied inside v1 (fst (perform_act sha sz act w))" by auto
  from "2.IH"(2) [OF a(1) refl w1(2) a(2)] w1(1) a(3) show ?case by (auto split: prod.splits)
next
  case (3 inside i m v)
  then show ?case using bind_tied by (auto split: if_splits)
next
  case (4 inside i v)
  then show ?case using free_tied by (auto split: if_splits)
next
  case (5 inside i r root budget retain v)
  then obtain m where m: "lt_live v i = Some m" by (auto split: option.splits)
  obtain sc a where run: "read_relation_in sz i (Snapshot r m) root budget retain (rw_scope w) = (sc, a)" by (metis surj_pair)
  from walk_tied [OF "5.prems"(1) m run] "5.prems"(2) m run tiedD(1) [OF "5.prems"(1)] show ?case by auto
next
  case (6 inside i r roots v)
  then obtain m where m: "lt_live v i = Some m" by (auto split: option.splits)
  note T = tiedD [OF "6.prems"(1)]
  show ?case
  proof (cases inside)
    case True
    with take_tied [of v w i m r roots] "6.prems" m obtain sc es where
      "capture_relation_projections i (Snapshot r m) roots (rw_scope w) = (sc, Inr es)"
      "tied True (v\<lparr>lt_kept := i # lt_kept v, lt_taken := lt_taken v @ [m]\<rparr>)
        (w\<lparr>rw_scope := sc, rw_batches := rw_batches w @ [es]\<rparr>)" by auto
    with True "6.prems"(2) m T(1) show ?thesis by auto
  next
    case False
    with T(2) have "rs_cache (rw_scope w) = None" by simp
    with False "6.prems" m T(1) show ?thesis by (auto simp: capture_relation_projections_def)
  qed
next
  case (7 inside t k v)
  note T = tiedD [OF "7.prems"(1)]
  have "tied inside v (w\<lparr>rw_scope := fst (relation_projection_fingerprint sha sz t (rw_batches w ! k) (rw_scope w))\<rparr>)"
    using "7.prems"(1) fingerprint_scope(1) [of sha sz t "rw_batches w ! k" "rw_scope w"]
      fingerprint_scope(2) [OF T(3), of sha sz t "rw_batches w ! k"]
    by (simp add: tied_def scope_ok_def)
  with 7 show ?case using taken_okD(1) [OF T(5)] by (auto split: if_splits)
next
  case (8 inside i t k r source target fp changed v)
  then obtain m where m: "lt_live v i = Some m" "k < length (lt_taken v)" "receipt (lt_taken v ! k) m changed"
    by (auto split: option.splits if_splits)
  note T = tiedD [OF "8.prems"(1)]
  from carry_tied [OF "8.prems"(1) m, of sha sz t r source target fp] "8.prems"(2) m T(1) taken_okD(1) [OF T(5)]
  show ?case by auto
next
  case (9 inside b n acts v)
  note T = tiedD [OF "9.prems"(1)]
  show ?case
  proof (cases inside)
    case True
    with T(2,3) have "rs_cache (rw_scope w) \<noteq> None" "rs_seals (rw_scope w) \<noteq> None" by (auto simp: complete_def)
    have "tied True v w" using "9.prems"(1) True by simp
    from "9.IH"(1) [OF True this] "9.prems"(2) True \<open>rs_cache (rw_scope w) \<noteq> None\<close> \<open>rs_seals (rw_scope w) \<noteq> None\<close>
    show ?thesis
      by (auto simp: relation_projection_scope_def split: prod.split)
  next
    case False
    with T(2) have none: "rs_cache (rw_scope w) = None" by simp
    show ?thesis
    proof (cases "open_scope b n")
      case (Inl e)
      with "9.prems" False none show ?thesis by (auto simp: relation_projection_scope_def)
    next
      case (Inr sc)
      note O = open_scope_ok [OF Inr]
      have "tied True (v\<lparr>lt_kept := []\<rparr>) (w\<lparr>rw_scope := sc\<rparr>)"
        using "9.prems"(1) O by (auto simp: tied_def)
      from "9.IH"(2) [OF False Inr this] "9.prems"(2) False Inr
      obtain w' where run: "perform sha sz acts (w\<lparr>rw_scope := sc\<rparr>) = (w', answers)" "tied True v' w'"
        by (cases "perform sha sz acts (w\<lparr>rw_scope := sc\<rparr>)") auto
      have "tied False v' (w'\<lparr>rw_scope := rw_scope w\<rparr>)"
        using run(2) T(3) none by (auto simp: tied_def intro: scope_ok_closed)
      with run(1) False Inr none show ?thesis by (simp add: relation_projection_scope_def)
    qed
  qed
qed auto

section \<open>Invisible reuse\<close>

definition no_world :: reuse_world where
  "no_world = \<lparr>rw_live = Map.empty, rw_batches = [], rw_scope = \<lparr>rs_cache = None, rs_seals = None\<rparr>\<rparr>"

definition no_lives :: lifetimes where
  "no_lives = \<lparr>lt_live = Map.empty, lt_kept = [], lt_taken = []\<rparr>"

lemma no_world_tied: "tied False no_lives no_world"
  by (simp add: tied_def no_world_def no_lives_def complete_def taken_ok_def scope_ok_closed)

text \<open>The receipt of a seed across one commit: the identities the store's history has at the revision.\<close>

lemma revision_receipt:
  assumes "reachable sha shake s" "\<And>x. length (sha x) = 32"
  shows "receipt (graph_at s r) (graph_at s (Suc r)) (map cid (rows_of (history_log s) (Suc r)))"
proof -
  obtain j where j: "store_inv sha shake s j" "history_log s = j_versions j" "graph_at s = state_at (j_versions j)"
    using reachable_log [OF assms] by blast
  have "state_at (j_versions j) (Suc r) = put_cells (rows_of (j_versions j) (Suc r)) (state_at (j_versions j) r)"
    using state_at_Suc [OF journal_okD(2) [OF representsD(1) [OF store_invD(1) [OF j(1)]]]] by simp
  moreover have "k \<in> cid ` set cs" if "m k \<noteq> put_cells cs m k" for m :: cells and cs k
    using that put_cells_notin [of k cs m] by metis
  ultimately show ?thesis unfolding receipt_def j(2,3) set_map by (simp only: dom_put_cells) blast
qed

text \<open>
  C30: Reuse of relation walks is invisible while objects live. Take any history of mappings that
  come and go, relation reads, captures, fingerprints, seeds and (nested, bounded or unbounded)
  request scopes, in which a new mapping has an identity no live mapping has, a mapping whose
  retained walks the current scope may hold stays alive until the scope ends, and a captured batch is
  seeded with a receipt naming every Cell that changed since the mapping it was captured from, none
  being gone (which is what the store's own \<open>revision_changes\<close> gives across a commit, by
  \<open>revision_receipt\<close>). Then every read answers exactly what a fresh walk of its mapping answers
  within the same budget, errors included, whatever was cached, evicted, captured or seeded before,
  and whatever identities were given again once their mappings had died.
\<close>

theorem relation_reuse_is_invisible:
  assumes "plainly False acts no_lives = Some (v, answers)"
  shows "snd (perform sha sz acts no_world) = answers"
  using perform_plainly(1) [OF no_world_tied assms] by blast

text \<open>
  A relation of two chain Cells is read in one scope, its batch captured and sealed; the participant
  is changed, the first mapping dies and a mapping without the relation gets its identity; the batch
  is seeded into the second mapping in another, bounded scope and read there, within two budgets.
\<close>

definition first_graph :: cells where
  "first_graph = genesis(''r'' \<mapsto> Cell ''r'' ''i'' ''q'' [], ''q'' \<mapsto> Cell ''q'' ''i'' NULL_CELL_ID [],
     ''i'' \<mapsto> Cell ''i'' ''p'' ''p'' [], ''p'' \<mapsto> Cell ''p'' NULL_CELL_ID NULL_CELL_ID ''1'')"

definition second_graph :: cells where
  "second_graph = first_graph(''p'' \<mapsto> Cell ''p'' NULL_CELL_ID NULL_CELL_ID ''2'')"

definition two_requests :: "reuse_act list" where
  "two_requests =
     [Bind 0 first_graph,
      Within None None [Walk 0 1 ''r'' 5 True, Take 0 1 [''r''], Stamp 7 0],
      Bind 1 second_graph, Free 0, Bind 0 genesis,
      Within (Some 10000) (Some 2)
        [Carry 1 8 0 2 1 2 (hex (fixed_sha [])) [''p''], Walk 1 2 ''r'' 5 True, Walk 1 2 ''r'' 1 True,
         Walk 0 2 ''r'' 5 True]]"

lemma example_keyed: "keyed first_graph" "keyed second_graph" "keyed genesis"
  by (auto simp: keyed_def first_graph_def second_graph_def genesis_def NULL_CELL_ID_def split: if_splits)

lemma example_receipt: "receipt first_graph second_graph [''p'']"
  by (auto simp: receipt_def second_graph_def split: if_splits)

lemma example_reads:
  "read_relation first_graph ''r'' 5 = Inr [Member ''i'' ''p'' ''p'', Member ''i'' ''p'' ''p'']"
  "read_relation second_graph ''r'' 5 = Inr [Member ''i'' ''p'' ''p'', Member ''i'' ''p'' ''p'']"
  "read_relation second_graph ''r'' 1 = Inl (MatchBudgetExceeded ''relation projection exceeded its chain cells'')"
  "read_relation genesis ''r'' 5 = Inl (InvalidCell ''relation root is missing'')"
proof -
  note graphs = first_graph_def second_graph_def genesis_def NULL_CELL_ID_def
  show "read_relation first_graph ''r'' 5 = Inr [Member ''i'' ''p'' ''p'', Member ''i'' ''p'' ''p'']"
    "read_relation second_graph ''r'' 5 = Inr [Member ''i'' ''p'' ''p'', Member ''i'' ''p'' ''p'']"
    "read_relation genesis ''r'' 5 = Inl (InvalidCell ''relation root is missing'')"
    by (simp_all add: read_relation_def relation_walk_def graphs eval_nat_numeral)
  have "relation_walk second_graph ''r'' 1 = Inl (MatchBudgetExceeded ''relation projection exceeded its chain cells'')"
    by (simp add: relation_walk_def graphs)
  then show "read_relation second_graph ''r'' 1 = Inl (MatchBudgetExceeded ''relation projection exceeded its chain cells'')"
    by (simp add: read_relation_def)
qed

theorem relation_reuse_is_invisible_witness:
  "snd (perform fixed_sha unit_sizes two_requests no_world) =
     [Inr [Member ''i'' ''p'' ''p'', Member ''i'' ''p'' ''p''], Inr [Member ''i'' ''p'' ''p'', Member ''i'' ''p'' ''p''],
      Inl (MatchBudgetExceeded ''relation projection exceeded its chain cells''),
      Inl (InvalidCell ''relation root is missing'')]"
proof -
  obtain sc where sc: "open_scope None None = Inr sc" by (simp add: open_scope_def)
  obtain sc' where sc': "open_scope (Some 10000) (Some 2) = Inr sc'"
    by (simp add: open_scope_def new_bounded_cache_def new_bounded_seals_def BOUNDED_PROJECTION_MAX_SEALS_def)
  have "\<exists>v. plainly False two_requests no_lives = Some (v,
      [Inr [Member ''i'' ''p'' ''p'', Member ''i'' ''p'' ''p''], Inr [Member ''i'' ''p'' ''p'', Member ''i'' ''p'' ''p''],
       Inl (MatchBudgetExceeded ''relation projection exceeded its chain cells''),
       Inl (InvalidCell ''relation root is missing'')])"
    by (simp add: two_requests_def no_lives_def sc sc' example_keyed example_receipt example_reads
        example_reads(3) [simplified])
  then show ?thesis using relation_reuse_is_invisible by blast
qed

text \<open>
  The condition on lives is needed. A mapping freed inside the scope that read it may leave its
  identity to another one of the same revision, and a read of that one answers from the dead one.
\<close>

definition given_again :: "reuse_act list" where
  "given_again = [Bind 0 first_graph,
     Within None None [Walk 0 1 ''r'' 5 True, Free 0, Bind 0 genesis, Walk 0 1 ''r'' 5 True]]"

theorem identity_given_again_is_stale:
  "snd (perform fixed_sha unit_sizes given_again no_world) =
     [read_relation first_graph ''r'' 5, read_relation first_graph ''r'' 5]"
  "read_relation genesis ''r'' 5 \<noteq> read_relation first_graph ''r'' 5"
  "plainly False given_again no_lives = None"
proof -
  obtain ms steps src where w: "relation_walk first_graph ''r'' 5 = Inr (ms, steps, src)" "steps \<le> 5"
    by (simp add: relation_walk_def first_graph_def genesis_def NULL_CELL_ID_def eval_nat_numeral)
  then show "snd (perform fixed_sha unit_sizes given_again no_world) =
     [read_relation first_graph ''r'' 5, read_relation first_graph ''r'' 5]"
    by (simp add: given_again_def no_world_def relation_projection_scope_def open_scope_def read_relation_in_def
        read_relation_def)
  show "plainly False given_again no_lives = None"
    by (simp add: given_again_def no_lives_def open_scope_def example_keyed)
qed (simp add: example_reads)

end
