(* ===== verification/StateMachine.thy ===== *)
theory StateMachine
  imports Lenses Digests
begin

text \<open>
  Operational state machines held in the graph (\<open>01.APP/nodelang/cell_state_machine.py\<close>): the
  protocol's roles, transitions, evidence and its admissions, the machine, and the transition that
  consumes evidence, moves the current state and appends to the history in one commit.
  \<open>time.time()\<close> is the argument \<open>now\<close>, the UUIDs drawn are \<open>token\<close> and \<open>draw\<close>.
\<close>

section \<open>The protocol\<close>

definition ROLE_NAMES :: "string list" where
  "ROLE_NAMES = [''vocabulary-member'', ''state'', ''current-state'', ''transition'', ''from-state'', ''to-state'',
     ''event'', ''required-evidence-type'', ''required-evidence-admission'', ''evidence-type'', ''evidence'',
     ''payload'', ''digest'', ''issuer'', ''history'', ''history-member'', ''actor'', ''context'', ''timestamp'']"

record machine_protocol =
  mp_root :: string
  mp_roles :: "(string \<times> string) list"

definition proto_role :: "machine_protocol \<Rightarrow> string \<Rightarrow> string result" where
  "proto_role p name =
     (case map_of (mp_roles p) name of
        None \<Rightarrow> Inl (InvalidCell (''unknown state-machine role '' @ [CHR 0x27] @ name @ [CHR 0x27]))
      | Some r \<Rightarrow> Inr r)"

text \<open>A list of pairs, its roles given by name.\<close>

definition with_roles :: "machine_protocol \<Rightarrow> (string \<times> string) list \<Rightarrow> (string \<times> string) list result" where
  "with_roles p pairs = rmap (\<lambda>(name, x). rbind (proto_role p name) (\<lambda>r. Inr (r, x))) pairs"

record transition_decl =
  tr_root :: string
  tr_from :: string
  tr_to :: string
  tr_event :: string
  tr_types :: "string list"
  tr_admissions :: "string list"

record evidence_item =
  ev_root :: string
  ev_type :: string
  ev_payload_root :: string
  ev_digest_root :: string
  ev_issuer :: string
  ev_payload :: bytes

record evidence_admission =
  ea_root :: string
  ea_type :: string
  ea_issuer :: string

record state_machine =
  sm_root :: string
  sm_states :: "string list"
  sm_transitions :: "string list"
  sm_current :: string
  sm_current_incidence :: string
  sm_history :: string

record transition_event =
  te_root :: string
  te_event :: string
  te_from :: string
  te_to :: string
  te_actor :: string
  te_timestamp :: string
  te_evidence :: "string list"
  te_contexts :: "string list"

definition one_value :: "relation_member list \<Rightarrow> string \<Rightarrow> string \<Rightarrow> string result" where
  "one_value members role label =
     (case participants role members of
        [x] \<Rightarrow> Inr x
      | _ \<Rightarrow> Inl (InvalidCell (''state graph requires exactly one '' @ label)))"

definition role_value :: "machine_protocol \<Rightarrow> relation_member list \<Rightarrow> string \<Rightarrow> string \<Rightarrow> string result" where
  "role_value p members name label = rbind (proto_role p name) (\<lambda>r. one_value members r label)"

definition role_values :: "machine_protocol \<Rightarrow> relation_member list \<Rightarrow> string \<Rightarrow> string list result" where
  "role_values p members name = rbind (proto_role p name) (\<lambda>r. Inr (participants r members))"

definition closed_roles :: "machine_protocol \<Rightarrow> relation_member list \<Rightarrow> string list \<Rightarrow> string \<Rightarrow> unit result" where
  "closed_roles p members names label =
     rbind (rmap (proto_role p) names) (\<lambda>allowed.
     require (\<forall>x \<in> set members. role_id x \<in> set allowed) (InvalidCell (label @ '' contains an undeclared field'')))"

definition terminal :: "string \<Rightarrow> bytes \<Rightarrow> cell" where
  "terminal k x = Cell k NULL_CELL_ID NULL_CELL_ID x"

definition protocol_at :: "string \<Rightarrow> machine_protocol" where
  "protocol_at prefix = \<lparr>mp_root = prefix @ '':root'', mp_roles = map (\<lambda>n. (n, prefix @ '':role:'' @ n)) ROLE_NAMES\<rparr>"

definition bootstrap_state_machine_protocol ::
  "commit_env \<Rightarrow> string \<Rightarrow> ctx \<times> store \<Rightarrow> (ctx \<times> store) \<times> machine_protocol result" where
  "bootstrap_state_machine_protocol env prefix cs =
     (let p = protocol_at prefix in
      case rbind (new_batch (snd cs)) (\<lambda>b.
           rbind (batch_add_all (map (\<lambda>(n, r). terminal r n) (mp_roles p)) b) (\<lambda>b.
           rbind (proto_role p ''vocabulary-member'') (\<lambda>v.
           batch_relation (map (\<lambda>(n, r). (v, r)) (mp_roles p)) (Some (mp_root p)) [] b))) of
        Inl e \<Rightarrow> (cs, Inl e)
      | Inr (b, build) \<Rightarrow> (case batch_commit env b cs of (_, cs', res) \<Rightarrow> (cs', rbind res (\<lambda>_. Inr p))))"

section \<open>Evidence and its admissions\<close>

definition read_evidence_admission :: "cells \<Rightarrow> machine_protocol \<Rightarrow> string \<Rightarrow> evidence_admission result" where
  "read_evidence_admission m p root =
     rbind (read_relation m root 128) (\<lambda>members.
     rbind (closed_roles p members [''evidence-type'', ''issuer''] ''evidence admission'') (\<lambda>_.
     rbind (role_value p members ''evidence-type'' ''evidence type'') (\<lambda>t.
     rbind (role_value p members ''issuer'' ''evidence issuer'') (\<lambda>i.
     Inr \<lparr>ea_root = root, ea_type = t, ea_issuer = i\<rparr>))))"

definition build_evidence_admission ::
  "commit_env \<Rightarrow> machine_protocol \<Rightarrow> string \<Rightarrow> string \<Rightarrow> string \<Rightarrow> string \<Rightarrow> ctx \<times> store \<Rightarrow> (ctx \<times> store) \<times> string result" where
  "build_evidence_admission env p admission_id type_root issuer_root u cs =
     (case rbind (store_snapshot (snd cs)) (\<lambda>sn.
        if snap_cells sn type_root = None \<or> snap_cells sn issuer_root = None
        then Inl (InvalidCell ''evidence admission references a missing node'')
        else with_roles p [(''evidence-type'', type_root), (''issuer'', issuer_root)]) of
        Inl e \<Rightarrow> (cs, Inl e)
      | Inr pairs \<Rightarrow> (case build_relation env pairs (Some admission_id) u cs of
          (cs', res) \<Rightarrow> (cs', rbind res (\<lambda>_. Inr admission_id))))"

definition MAX_EVIDENCE_PAYLOAD :: nat where "MAX_EVIDENCE_PAYLOAD = 1048576"

definition compose_evidence_cells ::
  "(bytes \<Rightarrow> bytes) \<Rightarrow> cells \<Rightarrow> machine_protocol \<Rightarrow> string \<Rightarrow> string \<Rightarrow> bytes \<Rightarrow> string \<Rightarrow> string \<Rightarrow> cell list result" where
  "compose_evidence_cells sha m p evidence_id type_root payload issuer_root u =
     (if MAX_EVIDENCE_PAYLOAD < length payload
      then Inl (InvalidCell ''evidence payload exceeds the graph envelope limit'')
      else if m type_root = None \<or> m issuer_root = None
      then Inl (InvalidCell ''evidence references a missing node'')
      else rbind (with_roles p [(''evidence-type'', type_root), (''payload'', evidence_id @ '':payload''),
               (''digest'', evidence_id @ '':digest''), (''issuer'', issuer_root)]) (\<lambda>pairs.
           let cells = terminal (evidence_id @ '':payload'') payload #
             terminal (evidence_id @ '':digest'') (hex (sha payload)) #
             rc_cells (compose_relation_cells pairs (Some evidence_id) u)
           in if \<not> distinct (map cid cells)
              then Inl (InvalidCell ''evidence physical region repeats a cell identity'')
              else if \<exists>c \<in> set cells. m (cid c) \<noteq> None
              then Inl (InvalidCell ''evidence identity already exists'')
              else Inr cells))"

definition build_evidence ::
  "commit_env \<Rightarrow> machine_protocol \<Rightarrow> string \<Rightarrow> string \<Rightarrow> bytes \<Rightarrow> string \<Rightarrow> string \<Rightarrow> ctx \<times> store \<Rightarrow>
     (ctx \<times> store) \<times> string result" where
  "build_evidence env p evidence_id type_root payload issuer_root u cs =
     (case rbind (store_snapshot (snd cs)) (\<lambda>sn.
        rbind (compose_evidence_cells (env_sha env) (snap_cells sn) p evidence_id type_root payload issuer_root u)
          (\<lambda>cells. Inr (sn, cells))) of
        Inl e \<Rightarrow> (cs, Inl e)
      | Inr (sn, cells) \<Rightarrow> (case commit env (snap_revision sn) cells [] cs of
          (cs', res) \<Rightarrow> (cs', rbind res (\<lambda>_. Inr evidence_id))))"

definition read_evidence :: "(bytes \<Rightarrow> bytes) \<Rightarrow> cells \<Rightarrow> machine_protocol \<Rightarrow> string \<Rightarrow> evidence_item result" where
  "read_evidence sha m p root =
     rbind (read_relation m root 128) (\<lambda>members.
     rbind (closed_roles p members [''evidence-type'', ''payload'', ''digest'', ''issuer''] ''evidence'') (\<lambda>_.
     rbind (role_value p members ''evidence-type'' ''evidence type'') (\<lambda>t.
     rbind (role_value p members ''payload'' ''evidence payload'') (\<lambda>payload_root.
     rbind (role_value p members ''digest'' ''evidence digest'') (\<lambda>digest_root.
     rbind (role_value p members ''issuer'' ''evidence issuer'') (\<lambda>i.
     rbind (cell_of m payload_root) (\<lambda>pc.
     rbind (cell_of m digest_root) (\<lambda>dc.
     if atom dc \<noteq> hex (sha (atom pc)) then Inl (InvalidCell ''evidence content digest does not match'')
     else Inr \<lparr>ev_root = root, ev_type = t, ev_payload_root = payload_root, ev_digest_root = digest_root,
            ev_issuer = i, ev_payload = atom pc\<rparr>))))))))"

section \<open>Transitions\<close>

text \<open>The checks that building and reading a transition share.\<close>

definition evidence_requirements_ok :: "string list \<Rightarrow> string list \<Rightarrow> unit result" where
  "evidence_requirements_ok required admissions =
     (if \<not> distinct required then Inl (InvalidCell ''transition repeats an evidence type'')
      else if \<not> distinct admissions then Inl (InvalidCell ''transition repeats an evidence admission'')
      else if required \<noteq> [] \<and> admissions \<noteq> []
      then Inl (InvalidCell ''transition cannot mix legacy evidence types and evidence admissions'')
      else Inr ())"

definition admission_pairs :: "cells \<Rightarrow> machine_protocol \<Rightarrow> string list \<Rightarrow> (string \<times> string) list result" where
  "admission_pairs m p admissions =
     rbind (rmap (read_evidence_admission m p) admissions) (\<lambda>items.
       let pairs = map (\<lambda>x. (ea_type x, ea_issuer x)) items in
       if distinct pairs then Inr pairs else Inl (InvalidCell ''transition repeats an evidence admission pair''))"

definition build_transition ::
  "commit_env \<Rightarrow> machine_protocol \<Rightarrow> string \<Rightarrow> string \<Rightarrow> string \<Rightarrow> string \<Rightarrow> string list \<Rightarrow> string list \<Rightarrow> string \<Rightarrow>
     ctx \<times> store \<Rightarrow> (ctx \<times> store) \<times> string result" where
  "build_transition env p transition_id from_root to_root event_root required admissions u cs =
     (case rbind (evidence_requirements_ok required admissions) (\<lambda>_.
        if from_root = to_root then Inl (InvalidCell ''state transition must change state'')
        else rbind (store_snapshot (snd cs)) (\<lambda>sn.
          if \<exists>r \<in> set (from_root # to_root # event_root # required @ admissions). snap_cells sn r = None
          then Inl (InvalidCell ''transition references a missing node'')
          else rbind (admission_pairs (snap_cells sn) p admissions) (\<lambda>_.
            with_roles p ([(''from-state'', from_root), (''to-state'', to_root), (''event'', event_root)] @
              map (Pair ''required-evidence-type'') required @ map (Pair ''required-evidence-admission'') admissions)))) of
        Inl e \<Rightarrow> (cs, Inl e)
      | Inr pairs \<Rightarrow> (case build_relation env pairs (Some transition_id) u cs of
          (cs', res) \<Rightarrow> (cs', rbind res (\<lambda>_. Inr transition_id))))"

definition read_transition :: "cells \<Rightarrow> machine_protocol \<Rightarrow> string \<Rightarrow> transition_decl result" where
  "read_transition m p root =
     rbind (read_relation m root 256) (\<lambda>members.
     rbind (closed_roles p members [''from-state'', ''to-state'', ''event'', ''required-evidence-type'',
         ''required-evidence-admission''] ''state transition'') (\<lambda>_.
     rbind (role_values p members ''required-evidence-type'') (\<lambda>required.
     rbind (role_values p members ''required-evidence-admission'') (\<lambda>admissions.
     rbind (evidence_requirements_ok required admissions) (\<lambda>_.
     rbind (admission_pairs m p admissions) (\<lambda>pairs.
     rbind (role_value p members ''from-state'' ''source state'') (\<lambda>from_root.
     rbind (role_value p members ''to-state'' ''target state'') (\<lambda>to_root.
     rbind (role_value p members ''event'' ''transition event'') (\<lambda>event_root.
     Inr \<lparr>tr_root = root, tr_from = from_root, tr_to = to_root, tr_event = event_root,
       tr_types = (if pairs \<noteq> [] then map fst pairs else required), tr_admissions = admissions\<rparr>)))))))))"

section \<open>Machines\<close>

definition build_state_machine ::
  "commit_env \<Rightarrow> machine_protocol \<Rightarrow> string \<Rightarrow> string list \<Rightarrow> string list \<Rightarrow> string \<Rightarrow> string \<Rightarrow>
     ctx \<times> store \<Rightarrow> (ctx \<times> store) \<times> string result" where
  "build_state_machine env p machine_id states transitions initial u cs =
     (case
        (if states = [] \<or> \<not> distinct states then Inl (InvalidCell ''state machine states must be nonempty and unique'')
         else if \<not> distinct transitions then Inl (InvalidCell ''state machine repeats a transition'')
         else if initial \<notin> set states then Inl (InvalidCell ''initial state is outside the state machine'')
         else rbind (store_snapshot (snd cs)) (\<lambda>sn.
           if \<exists>r \<in> set states. snap_cells sn r = None
           then Inl (InvalidCell ''state machine references a missing state'')
           else rbind (rmap (\<lambda>r. rbind (read_transition (snap_cells sn) p r) (\<lambda>t.
                  require (tr_from t \<in> set states \<and> tr_to t \<in> set states)
                    (InvalidCell ''transition state is outside the state machine''))) transitions) (\<lambda>_.
                rbind (with_roles p (map (Pair ''state'') states @ map (Pair ''transition'') transitions @
                    [(''current-state'', initial), (''history'', machine_id @ '':history'')])) (\<lambda>pairs.
                Inr (sn, rc_cells (compose_relation_cells [] (Some (machine_id @ '':history'')) []) @
                  rc_cells (compose_relation_cells pairs (Some machine_id) u)))))) of
        Inl e \<Rightarrow> (cs, Inl e)
      | Inr (sn, cells) \<Rightarrow> (case commit env (snap_revision sn) cells [] cs of
          (cs', res) \<Rightarrow> (cs', rbind res (\<lambda>_. Inr machine_id))))"

definition read_state_machine :: "cells \<Rightarrow> machine_protocol \<Rightarrow> string \<Rightarrow> state_machine result" where
  "read_state_machine m p root =
     rbind (read_relation m root 100000) (\<lambda>members.
     rbind (closed_roles p members [''state'', ''transition'', ''current-state'', ''history''] ''state machine'') (\<lambda>_.
     rbind (role_values p members ''state'') (\<lambda>states.
     rbind (role_values p members ''transition'') (\<lambda>transitions.
     rbind (role_value p members ''current-state'' ''current state'') (\<lambda>current.
     rbind (role_value p members ''history'' ''state history'') (\<lambda>history.
     if current \<notin> set states then Inl (InvalidCell ''current state is outside the state machine'')
     else if \<not> distinct states \<or> \<not> distinct transitions
     then Inl (InvalidCell ''state machine repeats a declaration'')
     else rbind (proto_role p ''current-state'') (\<lambda>r.
       Inr \<lparr>sm_root = root, sm_states = states, sm_transitions = transitions, sm_current = current,
         sm_current_incidence = incidence_id (hd (filter (\<lambda>x. role_id x = r) members)), sm_history = history\<rparr>)))))))"

text \<open>The machines among the rules of an instance; a rule that is no machine is passed over.\<close>

fun readable_machines :: "cells \<Rightarrow> machine_protocol \<Rightarrow> string list \<Rightarrow> state_machine list result" where
  "readable_machines m p [] = Inr []"
| "readable_machines m p (r # rs) =
     (case read_state_machine m p r of
        Inr x \<Rightarrow> rbind (readable_machines m p rs) (\<lambda>xs. Inr (x # xs))
      | Inl (InvalidCell _) \<Rightarrow> readable_machines m p rs
      | Inl (CommitRefused _) \<Rightarrow> readable_machines m p rs
      | Inl e \<Rightarrow> Inl e)"

definition read_instance_state_machine ::
  "cells \<Rightarrow> (string \<Rightarrow> string result) \<Rightarrow> machine_protocol \<Rightarrow> string \<Rightarrow> state_machine result" where
  "read_instance_state_machine m assembly_role p instance_root =
     rbind (read_relation m instance_root 100000) (\<lambda>members.
     rbind (assembly_role ''capability'') (\<lambda>capability.
     if mp_root p \<notin> set (participants capability members)
     then Inl (InvalidCell ''assembly instance has no state-machine capability'')
     else rbind (assembly_role ''rule'') (\<lambda>rule.
          rbind (readable_machines m p (participants rule members)) (\<lambda>machines.
          case machines of
            [x] \<Rightarrow> Inr x
          | _ \<Rightarrow> Inl (InvalidCell ''assembly instance requires one operational state machine'')))))"

definition read_transition_event :: "cells \<Rightarrow> machine_protocol \<Rightarrow> string \<Rightarrow> transition_event result" where
  "read_transition_event m p root =
     rbind (read_relation m root 256) (\<lambda>members.
     rbind (closed_roles p members [''event'', ''from-state'', ''to-state'', ''actor'', ''context'', ''timestamp'',
         ''evidence''] ''state history event'') (\<lambda>_.
     rbind (role_value p members ''event'' ''event'') (\<lambda>event_root.
     rbind (role_value p members ''from-state'' ''source state'') (\<lambda>from_root.
     rbind (role_value p members ''to-state'' ''target state'') (\<lambda>to_root.
     rbind (role_value p members ''actor'' ''actor'') (\<lambda>actor_root.
     rbind (role_value p members ''timestamp'' ''timestamp'') (\<lambda>timestamp_root.
     rbind (role_values p members ''evidence'') (\<lambda>evidence_roots.
     rbind (role_values p members ''context'') (\<lambda>context_roots.
     Inr \<lparr>te_root = root, te_event = event_root, te_from = from_root, te_to = to_root, te_actor = actor_root,
       te_timestamp = timestamp_root, te_evidence = evidence_roots, te_contexts = context_roots\<rparr>)))))))))"

definition machine_history :: "cells \<Rightarrow> machine_protocol \<Rightarrow> string \<Rightarrow> transition_event list result" where
  "machine_history m p root =
     rbind (read_state_machine m p root) (\<lambda>machine.
     rbind (read_relation m (sm_history machine) 100000) (\<lambda>members.
     rbind (if members = [] then Inr () else rbind (proto_role p ''history-member'') (\<lambda>r.
       require (\<forall>x \<in> set members. role_id x = r) (InvalidCell ''state history contains an undeclared member''))) (\<lambda>_.
     rmap (\<lambda>x. read_transition_event m p (participant_id x)) members)))"

section \<open>Taking a transition\<close>

record prepared_transition =
  pt_event :: string
  pt_create :: "cell list"
  pt_replace :: "cell list"

text \<open>The declared transition for the current state and the event, exactly one.\<close>

definition admitted_transition :: "cells \<Rightarrow> machine_protocol \<Rightarrow> state_machine \<Rightarrow> string \<Rightarrow> transition_decl result" where
  "admitted_transition m p machine event_root =
     rbind (rmap (read_transition m p) (sm_transitions machine)) (\<lambda>ts.
     case filter (\<lambda>t. tr_from t = sm_current machine \<and> tr_event t = event_root) ts of
       [] \<Rightarrow> Inl (InvalidCell ''state transition is not admitted'')
     | [t] \<Rightarrow> Inr t
     | _ \<Rightarrow> Inl (InvalidCell ''state transition declaration is ambiguous''))"

definition evidence_ok ::
  "(bytes \<Rightarrow> bytes) \<Rightarrow> cells \<Rightarrow> machine_protocol \<Rightarrow> transition_decl \<Rightarrow> string list \<Rightarrow> string list \<Rightarrow> unit result" where
  "evidence_ok sha m p t evidence_ids trusted =
     (if \<not> distinct evidence_ids then Inl (InvalidCell ''state transition repeats evidence'')
      else rbind (rmap (read_evidence sha m p) evidence_ids) (\<lambda>evidence.
        if \<exists>x \<in> set evidence. ev_issuer x \<notin> set trusted
        then Inl (InvalidCell ''state transition evidence issuer is not trusted'')
        else if \<not> set (tr_types t) \<subseteq> ev_type ` set evidence
        then Inl (InvalidCell ''state transition is missing required evidence'')
        else if tr_admissions t = [] then Inr ()
        else rbind (rmap (read_evidence_admission m p) (tr_admissions t)) (\<lambda>required.
          require ((\<lambda>x. (ea_type x, ea_issuer x)) ` set required \<subseteq> (\<lambda>x. (ev_type x, ev_issuer x)) ` set evidence)
            (InvalidCell ''state transition evidence does not satisfy declared admissions''))))"

text \<open>\<open>d[cell.id] = cell\<close> in a dictionary of Cells: a repeated key keeps its place.\<close>

definition put_by_id :: "cell \<Rightarrow> cell list \<Rightarrow> cell list" where
  "put_by_id c cs = (if cid c \<in> cid ` set cs then map (\<lambda>d. if cid d = cid c then c else d) cs else cs @ [c])"

definition prepare_transition ::
  "(bytes \<Rightarrow> bytes) \<Rightarrow> cells \<Rightarrow> machine_protocol \<Rightarrow> string \<Rightarrow> string \<Rightarrow> string \<Rightarrow> string \<Rightarrow> string list \<Rightarrow> string list \<Rightarrow>
     string list \<Rightarrow> bytes \<Rightarrow> string \<Rightarrow> (nat \<Rightarrow> string) \<Rightarrow> prepared_transition result" where
  "prepare_transition sha m p machine_root event_root expected actor_root evidence_ids trusted contexts now token draw =
     rbind (read_state_machine m p machine_root) (\<lambda>machine.
     if sm_current machine \<noteq> expected then Inl (InvalidCell ''state transition rejected a stale expected state'')
     else if m actor_root = None \<or> m event_root = None
     then Inl (InvalidCell ''state transition references a missing node'')
     else if \<not> distinct contexts \<or> (\<exists>r \<in> set contexts. m r = None)
     then Inl (InvalidCell ''state transition context is missing or duplicated'')
     else
       rbind (admitted_transition m p machine event_root) (\<lambda>t.
       rbind (evidence_ok sha m p t evidence_ids trusted) (\<lambda>_.
       let timestamp_root = ''state-event:timestamp:'' @ token; event_id = ''state-event:'' @ token in
       rbind (with_roles p ([(''event'', event_root), (''from-state'', sm_current machine), (''to-state'', tr_to t),
           (''actor'', actor_root)] @ map (Pair ''context'') contexts @ [(''timestamp'', timestamp_root)] @
           map (Pair ''evidence'') evidence_ids)) (\<lambda>pairs.
       rbind (with_roles p [(''history-member'', event_id)]) (\<lambda>appended.
       rbind (prepare_append_relation_members m (sm_history machine) appended 100000 draw) (\<lambda>patch.
       rbind (cell_of m (sm_current_incidence machine)) (\<lambda>inc.
       Inr \<lparr>pt_event = event_id,
         pt_create = terminal timestamp_root now # rc_cells (compose_relation_cells pairs (Some event_id) []) @ rp_create patch,
         pt_replace = fold put_by_id (rp_replace patch) [Cell (cid inc) (link0 inc) (tr_to t) (atom inc)]\<rparr>)))))))"

text \<open>Cells that ride along with the transition.\<close>

definition sidecar_ok :: "cells \<Rightarrow> cell list \<Rightarrow> cell list \<Rightarrow> bool" where
  "sidecar_ok m create replace \<longleftrightarrow>
     distinct (map cid create) \<and> distinct (map cid replace) \<and> cid ` set create \<inter> cid ` set replace = {} \<and>
     (\<forall>c \<in> set create. m (cid c) = None) \<and> (\<forall>c \<in> set replace. m (cid c) \<noteq> None)"

fun merge_replacements :: "cell list \<Rightarrow> cell list \<Rightarrow> cell list result" where
  "merge_replacements acc [] = Inr acc"
| "merge_replacements acc (c # cs) =
     (if \<exists>d \<in> set acc. cid d = cid c \<and> d \<noteq> c
      then Inl (InvalidCell ''state transition sidecar replacement conflicts'')
      else merge_replacements (put_by_id c acc) cs)"

definition transition_machine ::
  "commit_env \<Rightarrow> machine_protocol \<Rightarrow> string \<Rightarrow> string \<Rightarrow> string \<Rightarrow> string \<Rightarrow> string list \<Rightarrow> string list \<Rightarrow> string list \<Rightarrow>
     cell list \<Rightarrow> cell list \<Rightarrow> bytes \<Rightarrow> string \<Rightarrow> (nat \<Rightarrow> string) \<Rightarrow> ctx \<times> store \<Rightarrow> (ctx \<times> store) \<times> (string \<times> nat) result" where
  "transition_machine env p machine_root event_root expected actor_root evidence_ids trusted contexts create replace
     now token draw cs =
     (case rbind (store_snapshot (snd cs)) (\<lambda>sn.
        if \<not> sidecar_ok (snap_cells sn) create replace
        then Inl (InvalidCell ''state transition sidecar cells are invalid'')
        else rbind (overlay_read_snapshot sn create replace) (\<lambda>candidate.
          rbind (prepare_transition (env_sha env) (snap_cells candidate) p machine_root event_root expected actor_root
              evidence_ids trusted contexts now token draw) (\<lambda>t.
          if \<not> distinct (map cid (create @ pt_create t))
          then Inl (InvalidCell ''state transition sidecar collides with transition cells'')
          else rbind (merge_replacements replace (pt_replace t)) (\<lambda>replaced. Inr (sn, t, replaced))))) of
        Inl e \<Rightarrow> (cs, Inl e)
      | Inr (sn, t, replaced) \<Rightarrow>
          (case commit env (snap_revision sn) (create @ pt_create t) replaced cs of
             (cs', res) \<Rightarrow> (cs', rbind res (\<lambda>r. Inr (pt_event t, r)))))"

text \<open>The commit guard of the second form is the argument \<open>guard\<close>: what it raises on the snapshot, if anything.\<close>

definition transition_machine_with_new_evidence ::
  "commit_env \<Rightarrow> machine_protocol \<Rightarrow> string \<Rightarrow> string \<Rightarrow> string \<Rightarrow> string \<Rightarrow> string \<Rightarrow> string \<Rightarrow> bytes \<Rightarrow> string \<Rightarrow>
     string list \<Rightarrow> string list \<Rightarrow> (snapshot \<Rightarrow> unit result) option \<Rightarrow> bytes \<Rightarrow> string \<Rightarrow> (nat \<Rightarrow> string) \<Rightarrow> string \<Rightarrow>
     ctx \<times> store \<Rightarrow> (ctx \<times> store) \<times> (string \<times> string \<times> nat) result" where
  "transition_machine_with_new_evidence env p machine_root event_root expected actor_root evidence_id type_root payload
     issuer trusted contexts guard now token draw u cs =
     (case rbind (store_snapshot (snd cs)) (\<lambda>sn.
        rbind (compose_evidence_cells (env_sha env) (snap_cells sn) p evidence_id type_root payload issuer u) (\<lambda>cells.
        rbind (overlay_read_snapshot sn cells []) (\<lambda>candidate.
        rbind (prepare_transition (env_sha env) (snap_cells candidate) p machine_root event_root expected actor_root
            [evidence_id] trusted contexts now token draw) (\<lambda>t.
        rbind (case guard of None \<Rightarrow> Inr () | Some g \<Rightarrow> g sn) (\<lambda>_. Inr (sn, cells, t)))))) of
        Inl e \<Rightarrow> (cs, Inl e)
      | Inr (sn, cells, t) \<Rightarrow>
          (case commit env (snap_revision sn) (cells @ pt_create t) (pt_replace t) cs of
             (cs', res) \<Rightarrow> (cs', rbind res (\<lambda>r. Inr (evidence_id, pt_event t, r)))))"

end
