(* ===== verification/RelationFrames.thy ===== *)
theory RelationFrames
  imports RelationEdits Lenses
begin

text \<open>
  Relations under commits that edit several at once: a relation with the Cells it is made of
  (\<open>spelled\<close>), which a patch elsewhere leaves alone, an append extends, a composition makes and a
  rewired incidence changes in one member.
\<close>

section \<open>A patch as part of a commit\<close>

lemma lays_part:
  assumes l: "lays G m cr rp m'" and cr: "set cr' \<subseteq> set cr" "distinct (map cid cr')" and rp: "set rp' \<subseteq> set rp"
    and F: "F \<subseteq> G" "\<And>c. c \<in> set rp \<Longrightarrow> c \<notin> set rp' \<Longrightarrow> cid c \<notin> F"
  shows "lays F m cr' rp' m'"
proof -
  have "m' k = m k" if "k \<in> F" "m k \<noteq> None" "k \<notin> cid ` set rp'" for k
  proof -
    have "k \<notin> cid ` set rp" using F(2) that by blast
    with laysD(7) [OF l _ that(2)] F(1) that(1) show ?thesis by blast
  qed
  moreover have "present m' cr'" "present m' rp'"
    using laysD(1,2) [OF l] cr(1) rp unfolding present_def by blast+
  ultimately show ?thesis
    unfolding lays_def using laysD(3,5,6,8,9) [OF l] cr rp by blast
qed

text \<open>The second part of a commit, seen from the graph with the first part laid on it.\<close>

lemma lays_after:
  assumes l: "laid m (cr1 @ cr2) rp m'" and rp: "set rp = set rp1 \<union> set rp2" "distinct (map cid rp1)"
  shows "lays UNIV (put_cells (cr1 @ rp1) m) cr2 rp2 m'" "keyed m \<Longrightarrow> \<forall>c \<in> set (cr1 @ rp1). cid c \<noteq> [] \<Longrightarrow> keyed (put_cells (cr1 @ rp1) m)"
proof -
  let ?a = "put_cells (cr1 @ rp1) m"
  have new: "m (cid c) = None" if "c \<in> set (cr1 @ cr2)" for c using laidD(8) [OF l that] .
  have old: "m (cid c) \<noteq> None \<and> cid c \<noteq> NULL_CELL_ID" if "c \<in> set rp1 \<union> set rp2" for c
    using laidD(9) [OF l, of c] that rp(1) by simp
  have d: "distinct (map cid (cr1 @ cr2))" using laidD(4) [OF l] .
  have new': "m k = None" if "k \<in> cid ` set cr1 \<union> cid ` set cr2" for k using that new by auto
  have old': "m k \<noteq> None \<and> k \<noteq> NULL_CELL_ID" if "k \<in> cid ` set rp1 \<union> cid ` set rp2" for k using that old by auto
  have apart: "cid ` set cr1 \<inter> cid ` set rp1 = {}" "cid ` set cr2 \<inter> cid ` set rp1 = {}"
    using new' old' by blast+
  have d1: "distinct (map cid (cr1 @ rp1))" using d rp(2) apart by auto
  have in_a: "?a (cid c) = Some c" if "c \<in> set (cr1 @ rp1)" for c using put_cells_in [OF that d1] .
  have out_a: "?a k = m k" if "k \<notin> cid ` set cr1" "k \<notin> cid ` set rp1" for k
    using that by (intro put_cells_notin) auto
  have pres: "present m' (cr1 @ rp1)" "present m' cr2" "present m' rp2"
    using laidD(1,2) [OF l] rp(1) by (auto simp: present_def)
  have null: "m NULL_CELL_ID = Some null_cell" using graph_okD(3) laidD(5) [OF l] .
  have null_out: "NULL_CELL_ID \<notin> cid ` set cr1" "NULL_CELL_ID \<notin> cid ` set rp1"
    using new' [of NULL_CELL_ID] old' [of NULL_CELL_ID] null by auto
  show "lays UNIV ?a cr2 rp2 m'"
    unfolding lays_def
  proof (intro conjI ballI impI)
    show "dom ?a \<subseteq> dom m'"
      unfolding dom_put_cells using laidD(3) [OF l] pres(1) by (auto simp: present_def)
    show "distinct (map cid cr2)" using d by simp
    show "?a NULL_CELL_ID = Some null_cell" using out_a null_out null by simp
    show "graph_ok m'" using laidD(6) [OF l] .
    show "m' k = ?a k" if "?a k \<noteq> None" "k \<notin> cid ` set rp2" for k
    proof (cases "k \<in> cid ` set (cr1 @ rp1)")
      case True
      then obtain c where "c \<in> set (cr1 @ rp1)" "k = cid c" by auto
      with in_a pres(1) show ?thesis by (simp add: present_def)
    next
      case False
      then have "?a k = m k" using out_a by auto
      moreover have "k \<notin> cid ` set rp" using False that(2) rp(1) by auto
      ultimately show ?thesis using laidD(7) [OF l] that(1) by simp
    qed
    show "?a (cid c) = None" if "c \<in> set cr2" for c
    proof -
      have "cid c \<notin> cid ` set cr1" "cid c \<notin> cid ` set rp1" using that d apart(2) by auto
      with out_a new that show ?thesis by simp
    qed
    show "?a (cid c) \<noteq> None" "cid c \<noteq> NULL_CELL_ID" if "c \<in> set rp2" for c
    proof -
      have c: "m (cid c) \<noteq> None" "cid c \<noteq> NULL_CELL_ID" using old that by auto
      show "cid c \<noteq> NULL_CELL_ID" by (rule c(2))
      have "cid c \<in> dom m" using c(1) by (simp add: domIff)
      then have "cid c \<in> dom ?a" unfolding dom_put_cells by blast
      then show "?a (cid c) \<noteq> None" by (simp only: domIff) simp
    qed
  qed (use pres in simp_all)
  show "keyed ?a" if "keyed m" "\<forall>c \<in> set (cr1 @ rp1). cid c \<noteq> []"
    using that by (intro keyed_put_cells) auto
qed

section \<open>Relations with their Cells\<close>

definition spelled :: "cells \<Rightarrow> string \<Rightarrow> relation_member list \<Rightarrow> string set \<Rightarrow> bool" where
  "spelled m root ms F \<longleftrightarrow> (\<exists>ts e. relation m root ts e \<and> proper ts e \<and> ms = members_of m ts \<and> F = touched ts e)"

lemma spelled_read: "spelled m root ms F \<Longrightarrow> length ms < n \<Longrightarrow> read_relation m root n = Inr ms"
proof -
  assume "spelled m root ms F" "length ms < n"
  then obtain ts e where "relation m root ts e" "ms = members_of m ts" by (auto simp: spelled_def)
  moreover have "length (chain_ids ts e) \<le> Suc (length ts)" by (simp add: chain_ids_def)
  ultimately show ?thesis using \<open>length ms < n\<close> by (intro read_relation_relation [THEN trans]) auto
qed

lemma spelled_only: "spelled m root ms F \<Longrightarrow> read_relation m root n = Inr xs \<Longrightarrow> xs = ms"
  by (auto simp: spelled_def read_relation_def relation_walk_relation rbind_Inr_iff split: if_splits)

lemma spelled_dom: "spelled m root ms F \<Longrightarrow> F \<subseteq> dom m"
  unfolding spelled_def using touched_in_dom by blast

lemma spelled_root: "spelled m root ms F \<Longrightarrow> m root \<noteq> None"
  by (auto simp: spelled_def relation_def)

lemma spelled_distinct: "spelled m root ms F \<Longrightarrow> distinct (map incidence_id ms)"
  by (auto simp: spelled_def proper_def)

lemma spelled_incidence: "spelled m root ms F \<Longrightarrow> x \<in> set ms \<Longrightarrow> incidence_id x \<in> F"
  unfolding spelled_def touched_def members_of_def by force

lemma spelled_frame:
  assumes "spelled m root ms F" "dom m \<subseteq> dom m'" "\<forall>k \<in> F. m' k = m k"
  shows "spelled m' root ms F"
proof -
  from assms(1) obtain ts e where r: "relation m root ts e" "proper ts e" "ms = members_of m ts" "F = touched ts e"
    by (auto simp: spelled_def)
  from relation_frame [OF r(1) _ assms(2)] assms(3) r show ?thesis unfolding spelled_def by metis
qed

lemma spelled_append:
  assumes "spelled m root ms F" "prepare_append_relation_members m root ps n draw = Inr p"
    and "lays F m (rp_create p) (rp_replace p) m'"
  shows "\<exists>F'. spelled m' root (ms @ fresh_members (rp_incidences p) ps) F' \<and> F' \<subseteq> F \<union> cid ` set (rp_create p)"
proof -
  from assms(1) obtain ts e where r: "relation m root ts e" "proper ts e" "ms = members_of m ts" "F = touched ts e"
    by (auto simp: spelled_def)
  from append_edit_grows [OF r(1,2) assms(2,3)] r(3,4) show ?thesis
    unfolding spelled_def by (metis order_refl)
qed

text \<open>An append replaces one Cell, a chain Cell of the relation.\<close>

lemma append_replaces:
  assumes "spelled m root ms F" "prepare_append_relation_members m root ps n draw = Inr p" "ps \<noteq> []"
    and "m NULL_CELL_ID = Some null_cell" "keyed m"
  shows "\<exists>y. rp_replace p = [y] \<and> (cid y = NULL_CELL_ID \<or> cid y \<in> F)"
proof -
  from assms(1) obtain ts e where r: "relation m root ts e" and F: "F = touched ts e" by (auto simp: spelled_def)
  note p = prepare_append_Inr [OF r assms(3,2)]
  show ?thesis
  proof (cases "chain_ids ts e = []")
    case True
    with p assms(4) show ?thesis by (auto simp: append_patch_def Let_def)
  next
    case False
    let ?k = "last (chain_ids ts e)"
    have k: "?k \<in> F" using False last_in_set [OF False] unfolding F touched_def by blast
    then have "m ?k \<noteq> None" using touched_in_dom [OF r] F by blast
    then have "cid (the (m ?k)) = ?k" using keyedD [OF assms(5)] by auto
    with p False k show ?thesis by (auto simp: append_patch_def Let_def)
  qed
qed

lemma spelled_compose:
  assumes "lays F m (rc_cells (compose_relation_cells ps rid u)) rp m'"
  shows "spelled m' (rb_root (rc_build (compose_relation_cells ps rid u)))
    (fresh_members (rb_incidences (rc_build (compose_relation_cells ps rid u))) ps)
    (cid ` set (rc_cells (compose_relation_cells ps rid u)))"
  using compose_edit_grows [OF assms] unfolding spelled_def by metis

lemma compose_root [simp]: "root \<noteq> [] \<Longrightarrow> rb_root (rc_build (compose_relation_cells ps (Some root) u)) = root"
  by (simp add: compose_relation_cells_def Let_def)

lemma compose_incidences [simp]: "length (rb_incidences (rc_build (compose_relation_cells ps rid u))) = length ps"
  by (simp add: compose_relation_cells_def Let_def)

section \<open>One incidence rewired\<close>

lemma threaded_swap:
  assumes "threaded m ts e" "\<forall>k \<in> set (map fst ts). m' k = m k" "\<forall>i \<in> set (map snd ts). incidence_ok m' i"
  shows "threaded m' ts e"
  using assms by (induction ts) auto

definition rewired :: "string \<Rightarrow> string \<Rightarrow> relation_member list \<Rightarrow> relation_member list" where
  "rewired i new ms = map (\<lambda>x. if incidence_id x = i then x\<lparr>participant_id := new\<rparr> else x) ms"

lemma length_rewired [simp]: "length (rewired i new ms) = length ms"
  by (simp add: rewired_def)

lemma spelled_rewired:
  assumes s: "spelled m root ms F" and dom: "dom m \<subseteq> dom m'" and same: "\<And>k. k \<in> F \<Longrightarrow> k \<noteq> i \<Longrightarrow> m' k = m k"
    and i: "i \<in> incidence_id ` set ms" "m' i = Some (Cell i (link0 (the (m i))) new x)" and ok: "graph_ok m'"
  shows "spelled m' root (rewired i new ms) F"
proof -
  from s obtain ts e where r: "relation m root ts e" "proper ts e" "ms = members_of m ts" "F = touched ts e"
    by (auto simp: spelled_def)
  have t: "threaded m ts e" "ending m e" "m root \<noteq> None" using r(1) by (auto simp: relation_def)
  have "set (map incidence_id ms) = set (map snd ts)" by (simp only: r(3) incidences_of_members)
  then have i_in: "i \<in> set (map snd ts)" using i(1) by simp
  have chain: "m' k = m k" if "k \<in> set (chain_ids ts e)" for k
  proof -
    have "k \<noteq> i" "k \<in> F" using r(2,4) i_in that unfolding proper_def touched_def by blast+
    then show ?thesis by (rule same [rotated])
  qed
  have inc: "incidence_ok m' j \<and> (j \<noteq> i \<longrightarrow> m' j = m j)" if "j \<in> set (map snd ts)" for j
  proof (cases "j = i")
    case True
    with graph_incidence [OF ok i(2)] show ?thesis by simp
  next
    case False
    have "j \<in> F" using that unfolding r(4) touched_def by blast
    then have eq: "m' j = m j" using False by (rule same)
    from that obtain k where "(k, j) \<in> set ts" by auto
    with threaded_incidence [OF t(1)] have "incidence_ok m j" by blast
    from incidence_ok_frame [OF this eq dom] eq show ?thesis by simp
  qed
  have "threaded m' ts e"
    by (rule threaded_swap [OF t(1)]) (use chain inc in \<open>auto simp: chain_ids_def\<close>)
  moreover have "ending m' e"
  proof (cases "e = NULL_CELL_ID")
    case False
    then have "m' e = m e" by (intro chain) (simp add: chain_ids_def)
    with t(2) show ?thesis by (rule ending_frame)
  qed simp
  moreover have "m' root \<noteq> None" using t(3) dom by (meson domIff subsetD)
  ultimately have "relation m' root ts e" using r(1) by (simp add: relation_def)
  moreover have "members_of m' ts = rewired i new ms"
  proof -
    have "members_of m' ts = map (member_of m') (map snd ts)" by (simp add: members_of_def split_def)
    also have "\<dots> = map (\<lambda>j. if j = i then (member_of m j)\<lparr>participant_id := new\<rparr> else member_of m j) (map snd ts)"
      using inc i(2) by (intro map_cong refl) (auto simp: member_of_def)
    also have "\<dots> = rewired i new ms" unfolding r(3) by (simp add: rewired_def members_of_def split_def comp_def)
    finally show ?thesis .
  qed
  ultimately show ?thesis using r(2,4) unfolding spelled_def by metis
qed

lemma filter_one: "filter P xs = [y] \<Longrightarrow> y \<in> set xs \<and> P y"
proof -
  assume "filter P xs = [y]"
  from arg_cong [OF this, of set] show ?thesis by (auto simp: set_eq_iff)
qed

text \<open>What a role holds after its only member is rewired.\<close>

lemma participants_rewired:
  assumes "distinct (map incidence_id ms)" "filter (\<lambda>x. role_id x = r) ms = [y]"
  shows "participants r (rewired (incidence_id y) new ms) = [new]"
    "r' \<noteq> r \<Longrightarrow> participants r' (rewired (incidence_id y) new ms) = participants r' ms"
    "filter (\<lambda>x. role_id x = r) (rewired (incidence_id y) new ms) = [y\<lparr>participant_id := new\<rparr>]"
proof -
  let ?f = "\<lambda>x. if incidence_id x = incidence_id y then x\<lparr>participant_id := new\<rparr> else x"
  have y: "y \<in> set ms" "role_id y = r" using filter_one [OF assms(2)] by auto
  have only: "x = y" if "x \<in> set ms" "incidence_id x = incidence_id y" for x
    using assms(1) that y(1) by (metis distinct_map inj_onD)
  have keep: "role_id (?f x) = role_id x" for x by simp
  have f: "filter (\<lambda>x. role_id x = r'') (rewired (incidence_id y) new ms) = map ?f (filter (\<lambda>x. role_id x = r'') ms)" for r''
    unfolding rewired_def by (simp add: filter_map comp_def keep)
  show "filter (\<lambda>x. role_id x = r) (rewired (incidence_id y) new ms) = [y\<lparr>participant_id := new\<rparr>]"
    unfolding f assms(2) by simp
  then show "participants r (rewired (incidence_id y) new ms) = [new]" by (simp add: participants_def)
  show "participants r' (rewired (incidence_id y) new ms) = participants r' ms" if "r' \<noteq> r"
  proof -
    have "map ?f (filter (\<lambda>x. role_id x = r') ms) = filter (\<lambda>x. role_id x = r') ms"
      by (rule map_idI) (use only y(2) that in auto)
    then show ?thesis unfolding participants_def f by simp
  qed
qed

lemma roles_rewired [simp]: "role_id ` set (rewired i new ms) = role_id ` set ms"
proof -
  have "map role_id (rewired i new ms) = map role_id ms" by (auto simp: rewired_def)
  from arg_cong [OF this, of set] show ?thesis by simp
qed

section \<open>What an edit needs and links to\<close>

lemma weave_links:
  assumes "length ks = length ps" "length is = length ps" "x \<in> set (weave ks is ps)"
  shows "link0 x \<in> set is \<union> fst ` set ps \<and> link1 x \<in> insert NULL_CELL_ID (set ks \<union> snd ` set ps)"
  using assms
proof (induction ks "is" ps rule: weave.induct)
  case (1 k ks i "is" r p ps)
  have "head_or_null ks \<in> insert NULL_CELL_ID (set ks)" by (cases ks) (simp_all add: head_or_null_def)
  with 1 show ?case by auto
qed auto

lemma compose_links:
  assumes "x \<in> set (rc_cells (compose_relation_cells ps rid u))"
  shows "link0 x \<in> insert NULL_CELL_ID (cid ` set (rc_cells (compose_relation_cells ps rid u)) \<union> fst ` set ps) \<and>
    link1 x \<in> insert NULL_CELL_ID (cid ` set (rc_cells (compose_relation_cells ps rid u)) \<union> snd ` set ps)"
proof (cases "ps = []")
  case True
  with assms show ?thesis by (simp add: compose_relation_cells_def Let_def)
next
  case False
  define root where "root = rb_root (rc_build (compose_relation_cells ps rid u))"
  define incs where "incs = map (\<lambda>i. root @ '':incidence:'' @ show_nat i) [0..<length ps]"
  define chains where "chains = root # map (\<lambda>i. root @ '':chain:'' @ show_nat i) [1..<length ps]"
  have c: "rc_cells (compose_relation_cells ps rid u) = weave chains incs ps"
    using False by (simp add: root_def compose_relation_cells_def Let_def incs_def chains_def)
  have len: "length chains = length ps" "length incs = length ps"
    using False by (simp_all add: chains_def incs_def Suc_diff_Suc)
  from weave_links [OF len assms [unfolded c]] weave_cids_list [OF len] show ?thesis unfolding c by auto
qed

lemma append_succeeds:
  assumes "spelled m root ms F" "root \<noteq> NULL_CELL_ID" "length ms < n"
  shows "\<exists>p. prepare_append_relation_members m root ps n draw = Inr p"
proof -
  from assms(1) obtain ts e where r: "relation m root ts e" "ms = members_of m ts" by (auto simp: spelled_def)
  then have t: "threaded m ts e" "ending m e" "distinct (chain_ids ts e)" "root = thread_head ts e" "m root \<noteq> None"
    by (auto simp: relation_def)
  have "chain_ids ts e \<noteq> []" using assms(2) t(4) by (cases ts) auto
  moreover have "length (chain_ids ts e) \<le> Suc (length ts)" by (simp add: chain_ids_def)
  then have "length (chain_ids ts e) \<le> n" using assms(3) r(2) by simp
  ultimately have "append_tail m n [] root = Inr (the (m (last (chain_ids ts e))))"
    using append_tail_thread [OF t(1-3), of "[]" n] t(4) by simp
  with t(5) show ?thesis by (auto simp: prepare_append_relation_members_def)
qed

lemma append_replaced:
  assumes s: "spelled m root ms F" "root \<noteq> NULL_CELL_ID"
    and p: "prepare_append_relation_members m root ps n draw = Inr p" "ps \<noteq> []" and keyed: "keyed m"
  shows "\<exists>y. rp_replace p = [y] \<and> cid y \<in> F \<and> cid y \<noteq> NULL_CELL_ID"
proof -
  from s(1) obtain ts e where rel: "relation m root ts e" "F = touched ts e" by (auto simp: spelled_def)
  then have t: "threaded m ts e" "ending m e" "root = thread_head ts e" by (auto simp: relation_def)
  have ne: "chain_ids ts e \<noteq> []" using s(2) t(3) by (cases ts) auto
  let ?k = "last (chain_ids ts e)"
  have k: "?k \<in> set (chain_ids ts e)" using last_in_set [OF ne] .
  then have "?k \<noteq> NULL_CELL_ID" "m ?k \<noteq> None" using chain_ids_not_null [OF t(1)] chain_ids_in_dom [OF t(1,2)] by metis+
  moreover from this(2) have "cid (the (m ?k)) = ?k" using keyedD [OF keyed] by auto
  moreover have "p = append_patch (the (m ?k)) ps draw" using prepare_append_Inr [OF rel(1) p(2,1)] ne by simp
  ultimately show ?thesis using k rel(2) by (auto simp: append_patch_def Let_def touched_def)
qed

lemma spelled_not_null: "spelled m root ms F \<Longrightarrow> k \<in> F \<Longrightarrow> k \<noteq> NULL_CELL_ID"
proof -
  assume "spelled m root ms F" "k \<in> F"
  then obtain ts e where t: "threaded m ts e" "k \<in> touched ts e" by (auto simp: spelled_def relation_def)
  show ?thesis
  proof (cases "k \<in> set (map snd ts)")
    case True
    then obtain c where "(c, k) \<in> set ts" by auto
    with threaded_incidence [OF t(1)] show ?thesis by blast
  next
    case False
    with t chain_ids_not_null [OF t(1)] show ?thesis unfolding touched_def by blast
  qed
qed

lemma compose_root_in: "root \<noteq> [] \<Longrightarrow> root \<in> cid ` set (rc_cells (compose_relation_cells ps (Some root) u))"
proof (cases ps)
  case (Cons q qs)
  assume "root \<noteq> []"
  with Cons show ?thesis
    by (cases q) (simp add: compose_relation_cells_def Let_def upt_conv_Cons del: upt_Suc)
qed (simp add: compose_relation_cells_def Let_def)

text \<open>The Cells an append of one member makes link to what is there, to each other and to the member.\<close>

lemma append_one_links:
  assumes s: "spelled m root ms F" "root \<noteq> NULL_CELL_ID" and ok: "graph_ok m"
    and p: "prepare_append_relation_members m root [(r, x)] n draw = Inr p"
    and D: "dom m \<subseteq> D" "cid ` set (rp_create p) \<subseteq> D" "r \<in> D" "x \<in> D"
  shows "\<forall>y \<in> set (rp_create p) \<union> set (rp_replace p). link0 y \<in> D \<and> link1 y \<in> D"
proof -
  from s(1) obtain ts e where rel: "relation m root ts e" by (auto simp: spelled_def)
  then have t: "threaded m ts e" "ending m e" "root = thread_head ts e" by (auto simp: relation_def)
  have ne: "chain_ids ts e \<noteq> []" using s(2) t(3) by (cases ts) auto
  then have p: "p = append_patch (the (m (last (chain_ids ts e)))) [(r, x)] draw"
    using prepare_append_Inr [OF rel _ p] by simp
  have "m (last (chain_ids ts e)) \<noteq> None" using chain_ids_in_dom [OF t(1,2)] last_in_set [OF ne] by blast
  then obtain tail where tail: "m (last (chain_ids ts e)) = Some tail" by blast
  have "link0 tail \<in> D" using graph_links [OF ok tail] D(1) by (meson domIff subsetD)
  moreover have "NULL_CELL_ID \<in> D" using graph_okD(3) [OF ok] D(1) by auto
  ultimately show ?thesis using D(2-4) tail
    by (simp add: p append_patch_def Let_def drawn_def head_or_null_def split: if_splits)
qed

lemma read_relation_root: "read_relation m root n = Inr ms \<Longrightarrow> m root \<noteq> None"
  by (auto simp: read_relation_def relation_walk_def rbind_Inr_iff split: if_splits)

lemma spelled_participant:
  assumes "spelled m root ms F" "x \<in> set ms"
  shows "m (participant_id x) \<noteq> None"
proof -
  from assms(1) obtain ts e where "threaded m ts e" "ms = members_of m ts" by (auto simp: spelled_def relation_def)
  with assms(2) obtain k i where "(k, i) \<in> set ts" "x = member_of m i" by (auto simp: members_of_def)
  with threaded_incidence [OF \<open>threaded m ts e\<close> this(1)] show ?thesis by (auto simp: incidence_ok_def)
qed

section \<open>Relations that are only read\<close>

text \<open>A relation made of Cells of a set: it reads the same wherever those are the same.\<close>

definition settled :: "cells \<Rightarrow> string set \<Rightarrow> string \<Rightarrow> bool" where
  "settled m X root \<longleftrightarrow> (\<exists>ts e. relation m root ts e \<and> touched ts e \<subseteq> X)"

lemma settled_frame:
  assumes "settled m X root" "dom m \<subseteq> dom m'" "\<forall>k \<in> X. m' k = m k"
  shows "settled m' X root" "read_relation m' root n = read_relation m root n"
proof -
  from assms(1) obtain ts e where r: "relation m root ts e" "touched ts e \<subseteq> X" by (auto simp: settled_def)
  then have "\<forall>k \<in> touched ts e. m' k = m k" using assms(3) by blast
  note r' = relation_frame [OF r(1) this assms(2)]
  with r show "settled m' X root" by (auto simp: settled_def)
  show "read_relation m' root n = read_relation m root n"
    using relation_walk_relation [OF r(1)] relation_walk_relation [OF r'(1)] r'(2) by (auto simp: read_relation_def)
qed

lemma settled_mono: "settled m X root \<Longrightarrow> X \<subseteq> Y \<Longrightarrow> settled m Y root"
  unfolding settled_def by (meson order_trans)

lemma spelled_settled: "spelled m root ms F \<Longrightarrow> settled m F root"
  unfolding spelled_def settled_def by blast

lemma read_settled: "keyed m \<Longrightarrow> read_relation m root n = Inr ms \<Longrightarrow> settled m (dom m) root"
  unfolding read_relation_Inr_iff settled_def using touched_in_dom by blast

section \<open>Members by the name of their role\<close>

text \<open>A protocol under a prefix names its roles after what they are.\<close>

definition mrole :: "string \<Rightarrow> string \<Rightarrow> string" where
  "mrole prefix name = prefix @ '':role:'' @ name"

lemma mrole_inj [simp]: "mrole pre n = mrole pre n' \<longleftrightarrow> n = n'"
  by (simp add: mrole_def)

lemma map_of_names: "map_of (map (\<lambda>n. (n, f n)) ns) n = (if n \<in> set ns then Some (f n) else None)"
  by (induction ns) auto

definition named :: "string \<Rightarrow> (string \<times> string) list \<Rightarrow> (string \<times> string) list" where
  "named pre pairs = map (\<lambda>(n, x). (mrole pre n, x)) pairs"

lemma length_named [simp]: "length (named pre pairs) = length pairs"
  by (simp add: named_def)

lemma participants_named:
  assumes "length is = length pairs"
  shows "participants (mrole pre n) (fresh_members is (named pre pairs)) = map snd (filter (\<lambda>(k, x). k = n) pairs)"
  using assms
proof (induction pairs arbitrary: "is")
  case (Cons y pairs)
  then obtain i is' where "is = i # is'" "length is' = length pairs" by (cases "is") auto
  with Cons.IH [of is'] show ?case
    by (cases y) (simp add: fresh_members_def participants_def named_def)
qed (simp add: fresh_members_def participants_def named_def)

lemma roles_named:
  assumes "length is = length pairs"
  shows "role_id ` set (fresh_members is (named pre pairs)) = mrole pre ` fst ` set pairs"
  using assms
proof (induction pairs arbitrary: "is")
  case (Cons y pairs)
  then obtain i is' where "is = i # is'" "length is' = length pairs" by (cases "is") auto
  with Cons.IH [of is'] show ?case by (cases y) (simp add: fresh_members_def named_def)
qed (simp add: fresh_members_def named_def)

lemma length_fresh_members [simp]: "length (fresh_members is ps) = min (length is) (length ps)"
  by (simp add: fresh_members_def)

lemma fresh_one: "fresh_members is [(r, x)] = [Member (hd is) r x]" if "length is = 1"
  using that by (cases "is") (auto simp: fresh_members_def)

lemma append_one_incidence:
  "prepare_append_relation_members m root [(r, x)] n draw = Inr p \<Longrightarrow> length (rp_incidences p) = 1"
  by (auto simp: prepare_append_relation_members_def append_patch_def Let_def rbind_Inr_iff split: if_splits)

end
