(* ===== verification/StateMachineLaws.thy ===== *)
theory StateMachineLaws
  imports StateMachine RelationFrames
begin

text \<open>
  What a prepared transition does to the machine it was prepared on: the invariant \<open>machine_at\<close> of a
  machine, its history and its declarations in the graph, and the one step that a commit of the
  prepared Cells takes.
\<close>

section \<open>Roles of the protocol\<close>

lemma proto_role_at: "n \<in> set ROLE_NAMES \<Longrightarrow> proto_role (protocol_at pre) n = Inr (mrole pre n)"
  by (simp add: proto_role_def protocol_at_def map_of_names mrole_def)

lemma proto_roles [simp]:
  "proto_role (protocol_at pre) ''state'' = Inr (mrole pre ''state'')"
  "proto_role (protocol_at pre) ''current-state'' = Inr (mrole pre ''current-state'')"
  "proto_role (protocol_at pre) ''transition'' = Inr (mrole pre ''transition'')"
  "proto_role (protocol_at pre) ''from-state'' = Inr (mrole pre ''from-state'')"
  "proto_role (protocol_at pre) ''to-state'' = Inr (mrole pre ''to-state'')"
  "proto_role (protocol_at pre) ''event'' = Inr (mrole pre ''event'')"
  "proto_role (protocol_at pre) ''required-evidence-type'' = Inr (mrole pre ''required-evidence-type'')"
  "proto_role (protocol_at pre) ''required-evidence-admission'' = Inr (mrole pre ''required-evidence-admission'')"
  "proto_role (protocol_at pre) ''evidence-type'' = Inr (mrole pre ''evidence-type'')"
  "proto_role (protocol_at pre) ''evidence'' = Inr (mrole pre ''evidence'')"
  "proto_role (protocol_at pre) ''payload'' = Inr (mrole pre ''payload'')"
  "proto_role (protocol_at pre) ''digest'' = Inr (mrole pre ''digest'')"
  "proto_role (protocol_at pre) ''issuer'' = Inr (mrole pre ''issuer'')"
  "proto_role (protocol_at pre) ''history'' = Inr (mrole pre ''history'')"
  "proto_role (protocol_at pre) ''history-member'' = Inr (mrole pre ''history-member'')"
  "proto_role (protocol_at pre) ''actor'' = Inr (mrole pre ''actor'')"
  "proto_role (protocol_at pre) ''context'' = Inr (mrole pre ''context'')"
  "proto_role (protocol_at pre) ''timestamp'' = Inr (mrole pre ''timestamp'')"
  by (rule proto_role_at, simp add: ROLE_NAMES_def)+

lemma with_roles_at:
  assumes "fst ` set pairs \<subseteq> set ROLE_NAMES"
  shows "with_roles (protocol_at pre) pairs = Inr (named pre pairs)"
  unfolding with_roles_def named_def
proof (rule rmap_pure)
  fix y assume "y \<in> set pairs"
  then have "fst y \<in> set ROLE_NAMES" using assms by blast
  then show "(\<lambda>(n, x). rbind (proto_role (protocol_at pre) n) (\<lambda>r. Inr (r, x))) y = Inr ((\<lambda>(n, x). (mrole pre n, x)) y)"
    by (simp add: proto_role_at split_def)
qed

lemma one_value_Inr [simp]: "one_value ms r l = Inr x \<longleftrightarrow> participants r ms = [x]"
  by (auto simp: one_value_def split: list.splits)

section \<open>What the readers read\<close>

definition machine_members :: "string \<Rightarrow> string \<Rightarrow> relation_member list \<Rightarrow> state_machine \<Rightarrow> bool" where
  "machine_members pre root ms M \<longleftrightarrow>
     role_id ` set ms \<subseteq> mrole pre ` {''state'', ''transition'', ''current-state'', ''history''} \<and>
     sm_root M = root \<and> sm_states M = participants (mrole pre ''state'') ms \<and>
     sm_transitions M = participants (mrole pre ''transition'') ms \<and>
     participants (mrole pre ''history'') ms = [sm_history M] \<and>
     (\<exists>y. filter (\<lambda>x. role_id x = mrole pre ''current-state'') ms = [y] \<and> sm_current M = participant_id y \<and>
        sm_current_incidence M = incidence_id y) \<and>
     sm_current M \<in> set (sm_states M) \<and> distinct (sm_states M) \<and> distinct (sm_transitions M)"

lemma machine_membersD:
  assumes "machine_members pre root ms M"
  shows "sm_states M = participants (mrole pre ''state'') ms" "sm_current M \<in> set (sm_states M)" "distinct (sm_transitions M)"
  using assms unfolding machine_members_def by blast+

lemma participants_one: "participants r ms = [x] \<longleftrightarrow> (\<exists>y. filter (\<lambda>x. role_id x = r) ms = [y] \<and> x = participant_id y)"
  by (auto simp: participants_def map_eq_Cons_conv)

lemma read_state_machine_Inr:
  "read_state_machine m (protocol_at pre) root = Inr M \<longleftrightarrow>
     (\<exists>ms. read_relation m root 100000 = Inr ms \<and> machine_members pre root ms M)"
proof -
  have "read_state_machine m (protocol_at pre) root = Inr M \<longleftrightarrow>
    (\<exists>ms current. read_relation m root 100000 = Inr ms \<and>
       role_id ` set ms \<subseteq> mrole pre ` {''state'', ''transition'', ''current-state'', ''history''} \<and>
       participants (mrole pre ''current-state'') ms = [current] \<and> participants (mrole pre ''history'') ms = [sm_history M] \<and>
       current \<in> set (participants (mrole pre ''state'') ms) \<and> distinct (participants (mrole pre ''state'') ms) \<and>
       distinct (participants (mrole pre ''transition'') ms) \<and>
       M = \<lparr>sm_root = root, sm_states = participants (mrole pre ''state'') ms,
         sm_transitions = participants (mrole pre ''transition'') ms, sm_current = current,
         sm_current_incidence = incidence_id (hd (filter (\<lambda>x. role_id x = mrole pre ''current-state'') ms)),
         sm_history = sm_history M\<rparr>)"
    unfolding read_state_machine_def
    by (cases M) (auto simp: rbind_Inr_iff closed_roles_def role_values_def role_value_def image_subset_iff)
  also have "\<dots> \<longleftrightarrow> (\<exists>ms. read_relation m root 100000 = Inr ms \<and> machine_members pre root ms M)"
    by (cases M) (fastforce simp: machine_members_def participants_one)
  finally show ?thesis .
qed

lemma machine_members_rewired:
  assumes "machine_members pre root ms M" "distinct (map incidence_id ms)" "new \<in> set (sm_states M)"
  shows "machine_members pre root (rewired (sm_current_incidence M) new ms) (M\<lparr>sm_current := new\<rparr>)"
proof -
  from assms(1) obtain y where y: "filter (\<lambda>x. role_id x = mrole pre ''current-state'') ms = [y]"
    "sm_current_incidence M = incidence_id y" unfolding machine_members_def by blast
  from assms(1,3) y(2) show ?thesis
    unfolding machine_members_def by (elim conjE) (simp add: participants_rewired [OF assms(2) y(1)])
qed

definition event_members :: "string \<Rightarrow> string \<Rightarrow> relation_member list \<Rightarrow> transition_event \<Rightarrow> bool" where
  "event_members pre root ms x \<longleftrightarrow>
     role_id ` set ms \<subseteq> mrole pre ` {''event'', ''from-state'', ''to-state'', ''actor'', ''context'', ''timestamp'', ''evidence''} \<and>
     te_root x = root \<and> participants (mrole pre ''event'') ms = [te_event x] \<and>
     participants (mrole pre ''from-state'') ms = [te_from x] \<and> participants (mrole pre ''to-state'') ms = [te_to x] \<and>
     participants (mrole pre ''actor'') ms = [te_actor x] \<and> participants (mrole pre ''timestamp'') ms = [te_timestamp x] \<and>
     participants (mrole pre ''evidence'') ms = te_evidence x \<and> participants (mrole pre ''context'') ms = te_contexts x"

lemma read_transition_event_Inr:
  "read_transition_event m (protocol_at pre) root = Inr x \<longleftrightarrow>
     (\<exists>ms. read_relation m root 256 = Inr ms \<and> event_members pre root ms x)"
  unfolding read_transition_event_def event_members_def
  by (cases x) (auto simp: rbind_Inr_iff closed_roles_def role_values_def role_value_def image_subset_iff)

text \<open>The pairs a transition writes for its event are read back.\<close>

definition event_pairs ::
  "string \<Rightarrow> string \<Rightarrow> string \<Rightarrow> string \<Rightarrow> string list \<Rightarrow> string \<Rightarrow> string list \<Rightarrow> (string \<times> string) list" where
  "event_pairs ev from_root to_root actor_root contexts ts evidence =
     [(''event'', ev), (''from-state'', from_root), (''to-state'', to_root), (''actor'', actor_root)] @
     map (Pair ''context'') contexts @ [(''timestamp'', ts)] @ map (Pair ''evidence'') evidence"

lemma event_pairs_read:
  assumes "length is = length (event_pairs ev from_root to_root actor_root contexts ts evidence)"
  shows "event_members pre root (fresh_members is (named pre (event_pairs ev from_root to_root actor_root contexts ts evidence)))
    \<lparr>te_root = root, te_event = ev, te_from = from_root, te_to = to_root, te_actor = actor_root, te_timestamp = ts,
     te_evidence = evidence, te_contexts = contexts\<rparr>"
proof -
  note P = participants_named [OF assms, of pre] roles_named [OF assms, of pre]
  show ?thesis
    unfolding event_members_def P
    by (auto simp: event_pairs_def filter_map comp_def)
qed

section \<open>The machine in the graph\<close>

text \<open>
  The invariant: the machine, its history and a set of Cells \<open>X\<close> that the events and the declared
  transitions are made of, pairwise apart; \<open>R\<close> is all of them together.
\<close>

definition declared :: "cells \<Rightarrow> string \<Rightarrow> string set \<Rightarrow> state_machine \<Rightarrow> bool" where
  "declared m pre X M \<longleftrightarrow>
     (\<forall>t \<in> set (sm_transitions M). settled m X t \<and>
        (\<exists>d. read_transition m (protocol_at pre) t = Inr d \<and> tr_from d \<in> set (sm_states M) \<and>
           tr_to d \<in> set (sm_states M) \<and> (\<forall>a \<in> set (tr_admissions d). settled m X a)))"

definition event_at :: "cells \<Rightarrow> string \<Rightarrow> string set \<Rightarrow> relation_member \<Rightarrow> transition_event \<Rightarrow> bool" where
  "event_at m pre X x ev \<longleftrightarrow>
     role_id x = mrole pre ''history-member'' \<and> settled m X (participant_id x) \<and>
     read_transition_event m (protocol_at pre) (participant_id x) = Inr ev"

definition machine_at ::
  "cells \<Rightarrow> string \<Rightarrow> string \<Rightarrow> state_machine \<Rightarrow> transition_event list \<Rightarrow> string set \<Rightarrow> bool" where
  "machine_at m pre root M evs R \<longleftrightarrow> (\<exists>Fm Fh X ms hs.
     R = Fm \<union> Fh \<union> X \<and> X \<subseteq> dom m \<and> sm_history M \<noteq> NULL_CELL_ID \<and> Fm \<inter> Fh = {} \<and> (Fm \<union> Fh) \<inter> X = {} \<and>
     spelled m root ms Fm \<and> length ms < 100000 \<and> machine_members pre root ms M \<and>
     spelled m (sm_history M) hs Fh \<and> length hs < 100000 \<and> list_all2 (event_at m pre X) hs evs \<and> declared m pre X M)"

lemma machine_at_reads:
  assumes "machine_at m pre root M evs R"
  shows "read_state_machine m (protocol_at pre) root = Inr M" "machine_history m (protocol_at pre) root = Inr evs"
    "R \<subseteq> dom m"
proof -
  from assms obtain Fm Fh X ms hs where R: "R = Fm \<union> Fh \<union> X" "X \<subseteq> dom m" and
    ms: "spelled m root ms Fm" "length ms < 100000" "machine_members pre root ms M" and
    hs: "spelled m (sm_history M) hs Fh" "length hs < 100000" "list_all2 (event_at m pre X) hs evs"
    unfolding machine_at_def by blast
  show M: "read_state_machine m (protocol_at pre) root = Inr M"
    using read_state_machine_Inr spelled_read [OF ms(1,2)] ms(3) by blast
  have "\<forall>x \<in> set hs. role_id x = mrole pre ''history-member''"
    using hs(3) unfolding list_all2_conv_all_nth event_at_def by (auto simp: in_set_conv_nth)
  moreover have "rmap (\<lambda>x. read_transition_event m (protocol_at pre) (participant_id x)) hs = Inr evs"
    unfolding rmap_Inr_iff using hs(3) by (rule list_all2_mono) (simp add: event_at_def)
  ultimately show "machine_history m (protocol_at pre) root = Inr evs"
    by (simp add: machine_history_def M spelled_read [OF hs(1,2)])
  show "R \<subseteq> dom m" using R spelled_dom [OF ms(1)] spelled_dom [OF hs(1)] by blast
qed

lemma admission_pairs_frame:
  assumes "dom m \<subseteq> dom m'" "\<forall>k \<in> X. m' k = m k" "\<forall>a \<in> set as. settled m X a"
  shows "admission_pairs m' p as = admission_pairs m p as"
proof -
  have "rmap (read_evidence_admission m' p) as = rmap (read_evidence_admission m p) as"
    using assms(3) settled_frame(2) [OF _ assms(1,2)] by (intro rmap_cong refl) (simp add: read_evidence_admission_def)
  then show ?thesis by (simp add: admission_pairs_def)
qed

lemma read_transition_frame:
  assumes "dom m \<subseteq> dom m'" "\<forall>k \<in> X. m' k = m k" "settled m X t"
    and d: "read_transition m p t = Inr d" "\<forall>a \<in> set (tr_admissions d). settled m X a"
  shows "read_transition m' p t = Inr d"
proof -
  from d(1) obtain ms required admissions where
    r: "read_relation m t 256 = Inr ms" "role_values p ms ''required-evidence-type'' = Inr required"
      "role_values p ms ''required-evidence-admission'' = Inr admissions" and a: "tr_admissions d = admissions"
    unfolding read_transition_def by (auto simp: rbind_Inr_iff)
  have "read_relation m' t 256 = Inr ms" using settled_frame(2) [OF assms(3,1,2)] r(1) by simp
  moreover have "admission_pairs m' p admissions = admission_pairs m p admissions"
    using admission_pairs_frame [OF assms(1,2)] d(2) a by blast
  ultimately show ?thesis using d(1) r unfolding read_transition_def by simp
qed

lemma declared_frame:
  assumes "dom m \<subseteq> dom m'" "\<forall>k \<in> X. m' k = m k" "declared m pre X M"
  shows "declared m' pre X M"
  unfolding declared_def
proof (intro ballI conjI)
  fix t assume "t \<in> set (sm_transitions M)"
  with assms(3) obtain d where t: "settled m X t" "read_transition m (protocol_at pre) t = Inr d"
    "tr_from d \<in> set (sm_states M)" "tr_to d \<in> set (sm_states M)" "\<forall>a \<in> set (tr_admissions d). settled m X a"
    unfolding declared_def by blast
  show "settled m' X t" using settled_frame(1) [OF t(1) assms(1,2)] .
  show "\<exists>d. read_transition m' (protocol_at pre) t = Inr d \<and> tr_from d \<in> set (sm_states M) \<and>
      tr_to d \<in> set (sm_states M) \<and> (\<forall>a \<in> set (tr_admissions d). settled m' X a)"
    using read_transition_frame [OF assms(1,2) t(1,2,5)] t(3-5) settled_frame(1) [OF _ assms(1,2)] by blast
qed

lemma declared_reads:
  assumes "dom m \<subseteq> dom m'" "\<forall>k \<in> X. m' k = m k" "declared m pre X M"
  shows "\<forall>t \<in> set (sm_transitions M). read_transition m' (protocol_at pre) t = read_transition m (protocol_at pre) t"
  using assms(3) read_transition_frame [OF assms(1,2)] unfolding declared_def by metis

lemma event_at_frame:
  assumes "dom m \<subseteq> dom m'" "\<forall>k \<in> X. m' k = m k" "event_at m pre X x ev"
  shows "event_at m' pre X x ev"
  using assms(3) settled_frame [OF _ assms(1,2)] by (simp add: event_at_def read_transition_event_def)

lemma event_at_mono: "event_at m pre X x ev \<Longrightarrow> X \<subseteq> Y \<Longrightarrow> event_at m pre Y x ev"
  unfolding event_at_def using settled_mono by blast

lemma declared_mono: "declared m pre X M \<Longrightarrow> X \<subseteq> Y \<Longrightarrow> declared m pre Y M"
  unfolding declared_def using settled_mono by meson

lemma machine_at_frame:
  assumes "machine_at m pre root M evs R" and dom: "dom m \<subseteq> dom m'" and same: "\<forall>k \<in> R. m' k = m k"
  shows "machine_at m' pre root M evs R"
proof -
  from assms(1) obtain Fm Fh X ms hs where
    R: "R = Fm \<union> Fh \<union> X" "X \<subseteq> dom m" "Fm \<inter> Fh = {}" "(Fm \<union> Fh) \<inter> X = {}" and hist: "sm_history M \<noteq> NULL_CELL_ID" and
    ms: "spelled m root ms Fm" "length ms < 100000" "machine_members pre root ms M" and
    hs: "spelled m (sm_history M) hs Fh" "length hs < 100000" "list_all2 (event_at m pre X) hs evs" and
    decl: "declared m pre X M"
    unfolding machine_at_def by blast
  have sub: "\<forall>k \<in> Fm. m' k = m k" "\<forall>k \<in> Fh. m' k = m k" "\<forall>k \<in> X. m' k = m k"
    using same R(1) by simp_all
  have "list_all2 (event_at m' pre X) hs evs"
    using hs(3) by (rule list_all2_mono) (rule event_at_frame [OF dom sub(3)])
  moreover have "X \<subseteq> dom m'" using R(2) dom by blast
  ultimately show ?thesis
    using R hist ms(2,3) hs(2) spelled_frame [OF ms(1) dom sub(1)] spelled_frame [OF hs(1) dom sub(2)]
      declared_frame [OF dom sub(3) decl]
    unfolding machine_at_def by blast
qed

section \<open>Preparing a transition\<close>

definition transition_taken ::
  "cells \<Rightarrow> string \<Rightarrow> state_machine \<Rightarrow> string \<Rightarrow> transition_decl \<Rightarrow> bool" where
  "transition_taken m pre M ev d \<longleftrightarrow>
     tr_root d \<in> set (sm_transitions M) \<and> read_transition m (protocol_at pre) (tr_root d) = Inr d \<and>
     tr_from d = sm_current M \<and> tr_event d = ev \<and>
     (\<forall>t \<in> set (sm_transitions M). \<forall>d'. read_transition m (protocol_at pre) t = Inr d' \<longrightarrow>
        tr_from d' = sm_current M \<longrightarrow> tr_event d' = ev \<longrightarrow> d' = d)"

lemma read_transition_root: "read_transition m p t = Inr d \<Longrightarrow> tr_root d = t"
  unfolding read_transition_def by (auto simp: rbind_Inr_iff)

lemma admitted_transition_taken:
  assumes "admitted_transition m (protocol_at pre) M ev = Inr d"
  shows "transition_taken m pre M ev d"
proof -
  from assms obtain ts where ts: "rmap (read_transition m (protocol_at pre)) (sm_transitions M) = Inr ts"
    and one: "filter (\<lambda>t. tr_from t = sm_current M \<and> tr_event t = ev) ts = [d]"
    unfolding admitted_transition_def by (auto split: list.splits)
  note ts = rmap_set [OF ts]
  have sel: "d' = d" if "d' \<in> set ts" "tr_from d' = sm_current M" "tr_event d' = ev" for d'
    using arg_cong [OF one, of set] that by auto
  have "d \<in> set ts" "tr_from d = sm_current M" "tr_event d = ev" using arg_cong [OF one, of set] by auto
  moreover from this(1) ts obtain t where "t \<in> set (sm_transitions M)" "read_transition m (protocol_at pre) t = Inr d"
    by blast
  moreover have "d' \<in> set ts" if "t \<in> set (sm_transitions M)" "read_transition m (protocol_at pre) t = Inr d'" for t d'
    using ts that by blast
  ultimately show ?thesis
    unfolding transition_taken_def using sel read_transition_root by blast
qed

lemma event_pairs_roles:
  "with_roles (protocol_at pre) ([(''event'', ev), (''from-state'', from_root), (''to-state'', to_root),
     (''actor'', actor_root)] @ map (Pair ''context'') contexts @ [(''timestamp'', ts)] @
     map (Pair ''evidence'') evidence) =
   Inr (named pre (event_pairs ev from_root to_root actor_root contexts ts evidence))"
  unfolding event_pairs_def by (rule with_roles_at) (auto simp: ROLE_NAMES_def)

lemma history_role: "with_roles (protocol_at pre) [(''history-member'', x)] = Inr [(mrole pre ''history-member'', x)]"
  by (simp add: with_roles_def)

lemma prepare_transition_Inr:
  assumes "prepare_transition sha m (protocol_at pre) root ev expected actor_root evidence trusted contexts now token draw = Inr t"
  obtains M d patch inc where
    "read_state_machine m (protocol_at pre) root = Inr M" "sm_current M = expected" "m actor_root \<noteq> None" "m ev \<noteq> None"
    "distinct contexts" "\<forall>r \<in> set contexts. m r \<noteq> None" "transition_taken m pre M ev d"
    "evidence_ok sha m (protocol_at pre) d evidence trusted = Inr ()"
    "prepare_append_relation_members m (sm_history M) [(mrole pre ''history-member'', ''state-event:'' @ token)] 100000 draw =
       Inr patch"
    "m (sm_current_incidence M) = Some inc" "pt_event t = ''state-event:'' @ token"
    "pt_create t = terminal (''state-event:timestamp:'' @ token) now # rc_cells (compose_relation_cells
       (named pre (event_pairs ev (sm_current M) (tr_to d) actor_root contexts (''state-event:timestamp:'' @ token) evidence))
       (Some (''state-event:'' @ token)) []) @ rp_create patch"
    "pt_replace t = fold put_by_id (rp_replace patch) [Cell (cid inc) (link0 inc) (tr_to d) (atom inc)]"
proof -
  from assms show thesis
    unfolding prepare_transition_def Let_def event_pairs_roles history_role rbind_simps
    apply (clarsimp simp: rbind_Inr_iff split: if_splits simp del: One_nat_def)
    apply (rule that)
    apply (assumption | rule admitted_transition_taken | simp)+
    done
qed

section \<open>The step a transition takes\<close>

definition taken_event :: "string \<Rightarrow> string \<Rightarrow> string \<Rightarrow> string \<Rightarrow> string \<Rightarrow> string list \<Rightarrow> string list \<Rightarrow> transition_event" where
  "taken_event token ev from_root to_root actor_root contexts evidence =
     \<lparr>te_root = ''state-event:'' @ token, te_event = ev, te_from = from_root, te_to = to_root, te_actor = actor_root,
      te_timestamp = ''state-event:timestamp:'' @ token, te_evidence = evidence, te_contexts = contexts\<rparr>"

lemma length_event_pairs [simp]:
  "length (event_pairs ev from_root to_root actor_root contexts ts evidence) = 5 + length contexts + length evidence"
  by (simp add: event_pairs_def)

text \<open>The pieces of the step: the event, the history with it, and the machine in its new state.\<close>

lemma composed_event_at:
  assumes l: "lays F m (rc_cells (compose_relation_cells
       (named pre (event_pairs ev from_root to_root actor_root contexts (''state-event:timestamp:'' @ token) evidence))
       (Some (''state-event:'' @ token)) [])) rp m'"
    and few: "length contexts + length evidence < 251"
    and X: "cid ` set (rc_cells (compose_relation_cells
       (named pre (event_pairs ev from_root to_root actor_root contexts (''state-event:timestamp:'' @ token) evidence))
       (Some (''state-event:'' @ token)) [])) \<subseteq> X"
    and x: "role_id x = mrole pre ''history-member''" "participant_id x = ''state-event:'' @ token"
  shows "event_at m' pre X x (taken_event token ev from_root to_root actor_root contexts evidence)"
proof -
  let ?pairs = "event_pairs ev from_root to_root actor_root contexts (''state-event:timestamp:'' @ token) evidence"
  let ?comp = "compose_relation_cells (named pre ?pairs) (Some (''state-event:'' @ token)) []"
  note s = spelled_compose [OF l]
  then have s: "spelled m' (''state-event:'' @ token) (fresh_members (rb_incidences (rc_build ?comp)) (named pre ?pairs))
      (cid ` set (rc_cells ?comp))" by simp
  have "read_relation m' (''state-event:'' @ token) 256 = Inr (fresh_members (rb_incidences (rc_build ?comp)) (named pre ?pairs))"
    using spelled_read [OF s] few by simp
  moreover have "event_members pre (''state-event:'' @ token) (fresh_members (rb_incidences (rc_build ?comp)) (named pre ?pairs))
      (taken_event token ev from_root to_root actor_root contexts evidence)"
    unfolding taken_event_def by (rule event_pairs_read) simp
  ultimately have "read_transition_event m' (protocol_at pre) (''state-event:'' @ token) =
      Inr (taken_event token ev from_root to_root actor_root contexts evidence)"
    using read_transition_event_Inr by blast
  with settled_mono [OF spelled_settled [OF s] X] x show ?thesis by (simp add: event_at_def)
qed

lemma machine_rewired:
  assumes s: "spelled m root ms Fm" and M: "machine_members pre root ms M" and new: "new \<in> set (sm_states M)"
    and dom: "dom m \<subseteq> dom m'" and same: "\<And>k. k \<in> Fm \<Longrightarrow> k \<noteq> sm_current_incidence M \<Longrightarrow> m' k = m k"
    and inc: "m (sm_current_incidence M) = Some inc" "m' (sm_current_incidence M) = Some (Cell (cid inc) (link0 inc) new (atom inc))"
    and ok: "graph_ok m'" "keyed m"
  shows "spelled m' root (rewired (sm_current_incidence M) new ms) Fm \<and>
    machine_members pre root (rewired (sm_current_incidence M) new ms) (M\<lparr>sm_current := new\<rparr>)"
proof -
  from M obtain y where y: "filter (\<lambda>x. role_id x = mrole pre ''current-state'') ms = [y]"
    "sm_current_incidence M = incidence_id y" unfolding machine_members_def by blast
  have "y \<in> set ms" using filter_one [OF y(1)] by simp
  then have i: "sm_current_incidence M \<in> incidence_id ` set ms" using y(2) by simp
  have "cid inc = sm_current_incidence M" using keyedD [OF ok(2) inc(1)] .
  with inc have "m' (sm_current_incidence M) =
      Some (Cell (sm_current_incidence M) (link0 (the (m (sm_current_incidence M)))) new (atom inc))" by simp
  from spelled_rewired [OF s dom same i this ok(1)] machine_members_rewired [OF M spelled_distinct [OF s] new]
  show ?thesis by blast
qed

lemma current_in_region:
  assumes "spelled m root ms Fm" "machine_members pre root ms M"
  shows "sm_current_incidence M \<in> Fm"
proof -
  from assms(2) obtain y where y: "filter (\<lambda>x. role_id x = mrole pre ''current-state'') ms = [y]"
    "sm_current_incidence M = incidence_id y" unfolding machine_members_def by blast
  have "y \<in> set ms" using filter_one [OF y(1)] by simp
  with spelled_incidence [OF assms(1)] y(2) show ?thesis by simp
qed

lemma regions_apart:
  assumes "A \<inter> B = {}" "(A \<union> B) \<inter> X = {}" "(A \<union> B \<union> X) \<inter> C = {}" "E \<subseteq> C" "G \<subseteq> C" "E \<inter> G = {}" "B' \<subseteq> B \<union> G"
  shows "A \<inter> B' = {}" "(A \<union> B') \<inter> (X \<union> E) = {}" "A \<union> B' \<union> (X \<union> E) \<subseteq> (A \<union> B \<union> X) \<union> C"
  using assms by blast+

lemma machine_step:
  assumes at: "machine_at m pre root M evs R"
    and prep: "prepare_transition sha m (protocol_at pre) root ev expected actor_root evidence trusted contexts now token draw = Inr t"
    and l: "lays UNIV m (pt_create t) (pt_replace t) m'" and keyed: "keyed m"
    and few: "Suc (length evs) < 100000" "length contexts + length evidence < 251"
  shows "\<exists>d R'. transition_taken m pre M ev d \<and> sm_current M = expected \<and>
    evidence_ok sha m (protocol_at pre) d evidence trusted = Inr () \<and> pt_event t = ''state-event:'' @ token \<and>
    machine_at m' pre root (M\<lparr>sm_current := tr_to d\<rparr>)
      (evs @ [taken_event token ev (sm_current M) (tr_to d) actor_root contexts evidence]) R' \<and>
    R' \<subseteq> R \<union> cid ` set (pt_create t) \<and>
    (\<forall>t \<in> set (sm_transitions M). read_transition m' (protocol_at pre) t = read_transition m (protocol_at pre) t)"
proof -
  from prep obtain M' d patch inc where M': "read_state_machine m (protocol_at pre) root = Inr M'" "sm_current M' = expected"
    and d: "transition_taken m pre M' ev d" "evidence_ok sha m (protocol_at pre) d evidence trusted = Inr ()"
    and patch: "prepare_append_relation_members m (sm_history M') [(mrole pre ''history-member'', ''state-event:'' @ token)] 100000 draw =
       Inr patch" and inc: "m (sm_current_incidence M') = Some inc" and t: "pt_event t = ''state-event:'' @ token"
    "pt_create t = terminal (''state-event:timestamp:'' @ token) now # rc_cells (compose_relation_cells
       (named pre (event_pairs ev (sm_current M') (tr_to d) actor_root contexts (''state-event:timestamp:'' @ token) evidence))
       (Some (''state-event:'' @ token)) []) @ rp_create patch"
    "pt_replace t = fold put_by_id (rp_replace patch) [Cell (cid inc) (link0 inc) (tr_to d) (atom inc)]"
    by (rule prepare_transition_Inr)
  have M: "M' = M" using M'(1) machine_at_reads(1) [OF at] by simp
  note d = d [unfolded M] and patch = patch [unfolded M] and inc = inc [unfolded M] and t = t [unfolded M]
  let ?x = "''state-event:'' @ token"
  define ev' where "ev' = rc_cells (compose_relation_cells
       (named pre (event_pairs ev (sm_current M) (tr_to d) actor_root contexts (''state-event:timestamp:'' @ token) evidence))
       (Some (''state-event:'' @ token)) [])"
  define c where "c = Cell (cid inc) (link0 inc) (tr_to d) (atom inc)"
  define stamp where "stamp = terminal (''state-event:timestamp:'' @ token) now"
  note t = t [folded ev'_def c_def stamp_def]
  from at obtain Fm Fh X ms hs where
    R: "R = Fm \<union> Fh \<union> X" "X \<subseteq> dom m" "Fm \<inter> Fh = {}" "(Fm \<union> Fh) \<inter> X = {}" and hist: "sm_history M \<noteq> NULL_CELL_ID" and
    ms: "spelled m root ms Fm" "length ms < 100000" "machine_members pre root ms M" and
    hs: "spelled m (sm_history M) hs Fh" "length hs < 100000" "list_all2 (event_at m pre X) hs evs" and
    decl: "declared m pre X M"
    unfolding machine_at_def by blast
  have inc_id: "cid c = sm_current_incidence M" using keyedD [OF keyed inc] by (simp add: c_def)
  have inc_F: "cid c \<in> Fm" using current_in_region [OF ms(1,3)] inc_id by simp
  obtain y where y: "rp_replace patch = [y]" "cid y = NULL_CELL_ID \<or> cid y \<in> Fh"
    using append_replaces [OF hs(1) patch _ laysD(5) [OF l] keyed] by auto
  have rep: "pt_replace t = put_by_id y [c]" using t(3) y(1) by simp
  then have "y \<in> set (pt_replace t)" by (auto simp: put_by_id_def)
  with laysD(9) [OF l] y(2) have y_F: "cid y \<in> Fh" by blast
  with inc_F R(3) have "cid y \<noteq> cid c" by (metis disjoint_iff)
  with rep have rep: "pt_replace t = [c, y]" by (simp add: put_by_id_def)
  have same: "m' k = m k" if "m k \<noteq> None" "k \<noteq> cid c" "k \<noteq> cid y" for k
    using laysD(7) [OF l UNIV_I that(1)] that(2,3) rep by simp
  have fresh: "m k = None" if "k \<in> cid ` set (pt_create t)" for k
  proof -
    from that obtain c' where "k = cid c'" "c' \<in> set (pt_create t)" by (rule imageE)
    with laysD(8) [OF l this(2)] show ?thesis by simp
  qed
  note dist = laysD(4) [OF l, unfolded t(2)]
  have sub: "cid ` set ev' \<subseteq> cid ` set (pt_create t)" "cid ` set (rp_create patch) \<subseteq> cid ` set (pt_create t)"
    unfolding t(2) list.set set_append image_insert image_Un by blast+
  \<comment> \<open>the event\<close>
  have lays_ev: "lays {} m ev' [] m'"
    by (rule lays_part [OF l]) (use dist in \<open>auto simp: t(2)\<close>)
  have event: "event_at m' pre (X \<union> cid ` set ev') x (taken_event token ev (sm_current M) (tr_to d) actor_root contexts evidence)"
    if "role_id x = mrole pre ''history-member''" "participant_id x = ?x" for x
    using composed_event_at [OF lays_ev [unfolded ev'_def] few(2) _ that] unfolding ev'_def by blast
  \<comment> \<open>the history\<close>
  have "lays Fh m (rp_create patch) (rp_replace patch) m'"
  proof (rule lays_part [OF l])
    show "set (rp_create patch) \<subseteq> set (pt_create t)" "distinct (map cid (rp_create patch))"
      using dist unfolding t(2) by auto
    show "set (rp_replace patch) \<subseteq> set (pt_replace t)" unfolding rep y(1) by simp
    show "cid c' \<notin> Fh" if "c' \<in> set (pt_replace t)" "c' \<notin> set (rp_replace patch)" for c'
      using that inc_F R(3) unfolding rep y(1) by auto
  qed simp
  from spelled_append [OF hs(1) patch this] obtain Fh' where
    Fh': "spelled m' (sm_history M) (hs @ fresh_members (rp_incidences patch) [(mrole pre ''history-member'', ?x)]) Fh'"
      "Fh' \<subseteq> Fh \<union> cid ` set (rp_create patch)" by blast
  define x where "x = Member (hd (rp_incidences patch)) (mrole pre ''history-member'') ?x"
  note Fh' = Fh' [unfolded fresh_one [OF append_one_incidence [OF patch]], folded x_def]
  have dom: "dom m \<subseteq> dom m'" using laysD(3) [OF l] .
  have same_X: "\<forall>k \<in> X. m' k = m k"
  proof
    fix k assume k: "k \<in> X"
    then have "k \<noteq> cid c" "k \<noteq> cid y" "m k \<noteq> None" using R(2,4) inc_F y_F by blast+
    then show "m' k = m k" by (intro same)
  qed
  let ?X = "X \<union> cid ` set ev'"
  have "list_all2 (event_at m' pre ?X) hs evs"
    using hs(3) by (rule list_all2_mono) (rule event_at_mono [OF event_at_frame [OF dom same_X]], auto)
  then have events: "list_all2 (event_at m' pre ?X) (hs @ [x])
      (evs @ [taken_event token ev (sm_current M) (tr_to d) actor_root contexts evidence])"
    using event [of x] by (auto intro!: list_all2_appendI simp: x_def)
  \<comment> \<open>the machine\<close>
  have to: "tr_to d \<in> set (sm_states M)"
    using d(1) decl unfolding transition_taken_def declared_def by auto
  have "m' k = m k" if "k \<in> Fm" "k \<noteq> sm_current_incidence M" for k
    using spelled_dom [OF ms(1)] that y_F R(3) inc_id by (intro same) blast+
  moreover have "m' (sm_current_incidence M) = Some (Cell (cid inc) (link0 inc) (tr_to d) (atom inc))"
    using laysD(2) [OF l] rep inc_id by (simp add: c_def)
  ultimately have machine: "spelled m' root (rewired (sm_current_incidence M) (tr_to d) ms) Fm \<and>
      machine_members pre root (rewired (sm_current_incidence M) (tr_to d) ms) (M\<lparr>sm_current := tr_to d\<rparr>)"
    by (intro machine_rewired [OF ms(1,3) to dom _ inc _ laysD(6) [OF l] keyed])
  \<comment> \<open>apart\<close>
  have own: "cid ` set ev' \<inter> cid ` set (rp_create patch) = {}" using dist by auto
  have new: "(Fm \<union> Fh \<union> X) \<inter> cid ` set (pt_create t) = {}"
    using fresh machine_at_reads(3) [OF at] unfolding R(1) by (meson disjoint_iff domIff subsetD)
  note apart = regions_apart [OF R(3,4) new sub own Fh'(2), folded R(1)]
  have "length (hs @ [x]) < 100000" using hs(3) few(1) by (simp add: list_all2_lengthD)
  moreover have "?X \<subseteq> dom m'" using R(2) dom laysD(1) [OF lays_ev] unfolding present_def by auto
  moreover have "declared m' pre ?X (M\<lparr>sm_current := tr_to d\<rparr>)"
    using declared_mono [OF declared_frame [OF dom same_X decl], of ?X] by (simp add: declared_def)
  ultimately have "machine_at m' pre root (M\<lparr>sm_current := tr_to d\<rparr>)
      (evs @ [taken_event token ev (sm_current M) (tr_to d) actor_root contexts evidence]) (Fm \<union> Fh' \<union> ?X)"
    unfolding machine_at_def using hist apart(1,2) conjunct1 [OF machine] conjunct2 [OF machine] ms(2) Fh'(1) events
    by (intro exI [of _ Fm] exI [of _ Fh'] exI [of _ ?X] exI [of _ "rewired (sm_current_incidence M) (tr_to d) ms"]
        exI [of _ "hs @ [x]"]) simp
  with d t(1) apart(3) M'(2) M declared_reads [OF dom same_X decl] show ?thesis by blast
qed

lemma transition_taken_frame:
  assumes "dom m \<subseteq> dom m'" "\<forall>k \<in> X. m' k = m k" "declared m pre X M" "transition_taken m' pre M ev d"
  shows "transition_taken m pre M ev d"
proof -
  have fwd: "read_transition m' (protocol_at pre) t = Inr d'"
    if "t \<in> set (sm_transitions M)" "read_transition m (protocol_at pre) t = Inr d'" for t d'
  proof -
    from assms(3) that obtain d0 where "settled m X t" "read_transition m (protocol_at pre) t = Inr d0"
      "\<forall>a \<in> set (tr_admissions d0). settled m X a" unfolding declared_def by blast
    with that(2) read_transition_frame [OF assms(1,2)] show ?thesis by simp
  qed
  from assms(4) have d: "tr_root d \<in> set (sm_transitions M)" "read_transition m' (protocol_at pre) (tr_root d) = Inr d"
    "tr_from d = sm_current M" "tr_event d = ev" unfolding transition_taken_def by auto
  from assms(3) d(1) obtain d0 where "read_transition m (protocol_at pre) (tr_root d) = Inr d0" unfolding declared_def by blast
  with fwd [OF d(1) this] d(2) have "read_transition m (protocol_at pre) (tr_root d) = Inr d" by simp
  with d assms(4) fwd show ?thesis unfolding transition_taken_def by blast
qed

lemma machine_at_declared:
  assumes "machine_at m pre root M evs R"
  shows "declared m pre R M"
proof -
  from assms obtain X where "X \<subseteq> R" "declared m pre X M" unfolding machine_at_def by blast
  then show ?thesis using declared_mono by blast
qed

end
