(* ===== verification/StateMachineRun.thy ===== *)
theory StateMachineRun
  imports StateMachineLaws RelationProps
begin

text \<open>
  State machines in a reachable store: from a committed transition to its step, the lives made of
  such steps and of any other commits, what building a machine starts, and when a transition can be
  taken.
\<close>

section \<open>From a committed transition to its step\<close>

lemma merge_replacements_set: "merge_replacements acc cs = Inr rs \<Longrightarrow> set rs = set acc \<union> set cs"
proof (induction cs arbitrary: acc)
  case (Cons c cs)
  then have same: "\<forall>d \<in> set acc. cid d = cid c \<longrightarrow> d = c" and r: "merge_replacements (put_by_id c acc) cs = Inr rs"
    by (auto split: if_splits)
  have "set (put_by_id c acc) = insert c (set acc)"
  proof (cases "cid c \<in> cid ` set acc")
    case True
    then have "c \<in> set acc" using same by auto
    moreover have "map (\<lambda>d. if cid d = cid c then c else d) acc = acc" by (rule map_idI) (use same in auto)
    ultimately show ?thesis using True by (auto simp: put_by_id_def)
  qed (auto simp: put_by_id_def)
  with Cons.IH [OF r] show ?case by auto
qed simp

lemma merge_distinct: "distinct (map cid (acc @ cs)) \<Longrightarrow> merge_replacements acc cs = Inr (acc @ cs)"
proof (induction cs arbitrary: acc)
  case (Cons c cs)
  then have "cid c \<notin> cid ` set acc" by auto
  then have "put_by_id c acc = acc @ [c]" "\<not> (\<exists>d \<in> set acc. cid d = cid c \<and> d \<noteq> c)"
    by (simp_all add: put_by_id_def) (metis image_eqI)
  with Cons.IH [of "acc @ [c]"] Cons.prems show ?case by simp
qed simp

lemma transition_machine_Inr:
  assumes "transition_machine env p root ev expected actor_root evidence trusted contexts create replace now token draw (c, s) =
    ((c', s'), Inr (x, r))"
  obtains t replaced where
    "prepare_transition (env_sha env) (put_cells (create @ replace) (st_cells s)) p root ev expected actor_root evidence
       trusted contexts now token draw = Inr t"
    "sidecar_ok (st_cells s) create replace" "\<forall>x \<in> set (create @ replace). cid x \<noteq> []"
    "merge_replacements replace (pt_replace t) = Inr replaced" "x = pt_event t"
    "commit env (st_revision s) (create @ pt_create t) replaced (c, s) = ((c', s'), Inr r)"
  using assms unfolding transition_machine_def store_snapshot_def
  by (auto simp: overlay_read_snapshot_Inr_iff rbind_Inr_iff split: sum.splits if_splits prod.splits)

lemma sidecar_lays:
  assumes s: "reachable sha shake s" "\<And>x. length (sha x) = 32" and env: "env_transform env = None"
    and run: "commit (hashed sha shake env) n (create @ cr) replaced (c, s) = ((c', s'), Inr r)"
    and set: "set replaced = set replace \<union> set rp" and ok: "sidecar_ok (st_cells s) create replace"
      "\<forall>x \<in> set (create @ replace). cid x \<noteq> []"
  shows "lays UNIV (put_cells (create @ replace) (st_cells s)) cr rp (st_cells s')"
    "keyed (put_cells (create @ replace) (st_cells s))" "dom (st_cells s) \<subseteq> dom (st_cells s')" "reachable sha shake s'"
    "\<And>x. x \<in> set create \<union> set cr \<Longrightarrow> st_cells s (cid x) = None"
proof -
  obtain j where inv: "store_inv sha shake s j" using reachable_inv [OF s] by blast
  note l = commit_lays [OF inv s(2) env run]
  have d: "distinct (map cid replace)" using ok(1) by (simp add: sidecar_ok_def)
  show "lays UNIV (put_cells (create @ replace) (st_cells s)) cr rp (st_cells s')"
    using lays_after(1) [OF l set d] .
  have "keyed (st_cells s)" using reachable_graph [OF s] graph_okD(1) by blast
  with ok(2) show "keyed (put_cells (create @ replace) (st_cells s))" using lays_after(2) [OF l set d] by blast
  show "dom (st_cells s) \<subseteq> dom (st_cells s')" using laidD(3) [OF l] .
  show "reachable sha shake s'" using commit_reachable [OF s(1) run] .
  show "\<And>x. x \<in> set create \<union> set cr \<Longrightarrow> st_cells s (cid x) = None" using laidD(8) [OF l] by auto
qed

lemma sidecar_frame:
  assumes "sidecar_ok m create replace" "R \<subseteq> dom m" "cid ` set replace \<inter> R = {}"
  shows "dom m \<subseteq> dom (put_cells (create @ replace) m)" "\<forall>k \<in> R. put_cells (create @ replace) m k = m k"
proof -
  show "dom m \<subseteq> dom (put_cells (create @ replace) m)" unfolding dom_put_cells by blast
  show "\<forall>k \<in> R. put_cells (create @ replace) m k = m k"
  proof
    fix k assume k: "k \<in> R"
    then have "k \<notin> cid ` set replace" "k \<in> dom m" using assms by blast+
    moreover have "k \<notin> cid ` set create"
      using \<open>k \<in> dom m\<close> assms(1) unfolding sidecar_ok_def by force
    ultimately show "put_cells (create @ replace) m k = m k" by (intro put_cells_notin) auto
  qed
qed

text \<open>What a transition, with whatever rides along, does to the machine of a store.\<close>

definition steps_to ::
  "(bytes \<Rightarrow> bytes) \<Rightarrow> string \<Rightarrow> string \<Rightarrow> state_machine \<Rightarrow> transition_event list \<Rightarrow> string set \<Rightarrow> store \<Rightarrow> store \<Rightarrow>
     string \<Rightarrow> string \<Rightarrow> string \<Rightarrow> string list \<Rightarrow> string list \<Rightarrow> string \<Rightarrow> transition_decl \<Rightarrow> string set \<Rightarrow> bool" where
  "steps_to sha pre root M evs R s s' ev expected actor_root evidence contexts token d R' \<longleftrightarrow>
     transition_taken (st_cells s) pre M ev d \<and> sm_current M = expected \<and>
     machine_at (st_cells s') pre root (M\<lparr>sm_current := tr_to d\<rparr>)
       (evs @ [taken_event token ev (sm_current M) (tr_to d) actor_root contexts evidence]) R' \<and>
     R' \<inter> dom (st_cells s) \<subseteq> R \<and> (\<forall>t \<in> set (sm_transitions M).
       read_transition (st_cells s') (protocol_at pre) t = read_transition (st_cells s) (protocol_at pre) t)"

lemma committed_step:
  assumes s: "reachable sha shake s" "\<And>x. length (sha x) = 32" and env: "env_transform env = None"
    and at: "machine_at (st_cells s) pre root M evs R"
    and prep: "prepare_transition sha (put_cells (create @ replace) (st_cells s)) (protocol_at pre) root ev expected actor_root
       evidence trusted contexts now token draw = Inr t"
    and run: "commit (hashed sha shake env) n (create @ pt_create t) replaced (c, s) = ((c', s'), Inr r)"
    and set: "set replaced = set replace \<union> set (pt_replace t)" and ok: "sidecar_ok (st_cells s) create replace"
      "\<forall>x \<in> set (create @ replace). cid x \<noteq> []"
    and away: "cid ` set replace \<inter> R = {}"
    and few: "Suc (length evs) < 100000" "length contexts + length evidence < 251"
  shows "\<exists>d R'. steps_to sha pre root M evs R s s' ev expected actor_root evidence contexts token d R' \<and>
    evidence_ok sha (put_cells (create @ replace) (st_cells s)) (protocol_at pre) d evidence trusted = Inr () \<and>
    reachable sha shake s' \<and> pt_event t = ''state-event:'' @ token"
proof -
  let ?a = "put_cells (create @ replace) (st_cells s)"
  note C = sidecar_lays [OF s env run set ok]
  note F = sidecar_frame [OF ok(1) machine_at_reads(3) [OF at] away]
  from machine_step [OF machine_at_frame [OF at F] prep C(1,2) few] obtain d R' where
    d: "transition_taken ?a pre M ev d" "sm_current M = expected"
      "evidence_ok sha ?a (protocol_at pre) d evidence trusted = Inr ()" "pt_event t = ''state-event:'' @ token"
      "machine_at (st_cells s') pre root (M\<lparr>sm_current := tr_to d\<rparr>)
        (evs @ [taken_event token ev (sm_current M) (tr_to d) actor_root contexts evidence]) R'"
      "R' \<subseteq> R \<union> cid ` set (pt_create t)" and same: "\<forall>t \<in> set (sm_transitions M).
        read_transition (st_cells s') (protocol_at pre) t = read_transition ?a (protocol_at pre) t" by blast
  from transition_taken_frame [OF F machine_at_declared [OF at] d(1)]
  have "transition_taken (st_cells s) pre M ev d" .
  moreover have "cid ` set (pt_create t) \<inter> dom (st_cells s) = {}" using C(5) by (auto simp: domIff)
  then have "R' \<inter> dom (st_cells s) \<subseteq> R" using d(6) by blast
  moreover have "\<forall>t \<in> set (sm_transitions M).
      read_transition (st_cells s') (protocol_at pre) t = read_transition (st_cells s) (protocol_at pre) t"
    using same declared_reads [OF F machine_at_declared [OF at]] by simp
  ultimately show ?thesis using d C(4) unfolding steps_to_def by blast
qed

section \<open>Lives\<close>

text \<open>
  What can be committed in the life of a machine: a transition, a transition with new evidence, or
  anything else.
\<close>

datatype machine_act =
    Take commit_env string string string "string list" "string list" "string list" "cell list" "cell list" bytes string
      "nat \<Rightarrow> string"
  | Take_new commit_env string string string string string bytes string "string list" "string list"
      "(snapshot \<Rightarrow> unit result) option" bytes string "nat \<Rightarrow> string" string
  | Elsewhere commit_env "cell list" "cell list"

fun run_act ::
  "(bytes \<Rightarrow> bytes) \<Rightarrow> (bytes \<Rightarrow> bytes) \<Rightarrow> string \<Rightarrow> string \<Rightarrow> machine_act \<Rightarrow> ctx \<times> store \<Rightarrow> (ctx \<times> store) \<times> unit result" where
  "run_act sha shake pre root (Take env ev expected actor_root evidence trusted contexts create replace now token draw) cs =
     (case transition_machine (hashed sha shake env) (protocol_at pre) root ev expected actor_root evidence trusted contexts
        create replace now token draw cs of (cs', res) \<Rightarrow> (cs', rbind res (\<lambda>_. Inr ())))"
| "run_act sha shake pre root (Take_new env ev expected actor_root evidence_id type_root payload issuer trusted contexts guard
     now token draw u) cs =
     (case transition_machine_with_new_evidence (hashed sha shake env) (protocol_at pre) root ev expected actor_root evidence_id
        type_root payload issuer trusted contexts guard now token draw u cs of (cs', res) \<Rightarrow> (cs', rbind res (\<lambda>_. Inr ())))"
| "run_act sha shake pre root (Elsewhere env create replace) cs =
     (case commit (hashed sha shake env) (st_revision (snd cs)) create replace cs of (cs', res) \<Rightarrow> (cs', rbind res (\<lambda>_. Inr ())))"

fun run_acts ::
  "(bytes \<Rightarrow> bytes) \<Rightarrow> (bytes \<Rightarrow> bytes) \<Rightarrow> string \<Rightarrow> string \<Rightarrow> machine_act list \<Rightarrow> ctx \<times> store \<Rightarrow> (ctx \<times> store) \<times> unit result" where
  "run_acts sha shake pre root [] cs = (cs, Inr ())"
| "run_acts sha shake pre root (a # as) cs =
     (case run_act sha shake pre root a cs of
        (cs', Inl e) \<Rightarrow> (cs', Inl e)
      | (cs', Inr _) \<Rightarrow> run_acts sha shake pre root as cs')"

fun act_events :: "machine_act \<Rightarrow> string list" where
  "act_events (Take env ev expected actor_root evidence trusted contexts create replace now token draw) = [ev]"
| "act_events (Take_new env ev expected actor_root evidence_id type_root payload issuer trusted contexts guard now token draw u) =
     [ev]"
| "act_events (Elsewhere env create replace) = []"

text \<open>
  An act is fit for a machine apart from the Cells \<open>A\<close> when it replaces only Cells of \<open>A\<close> of its
  own, and its event has at most 250 contexts and pieces of evidence.
\<close>

fun fit_act :: "string set \<Rightarrow> machine_act \<Rightarrow> bool" where
  "fit_act A (Take env ev expected actor_root evidence trusted contexts create replace now token draw) \<longleftrightarrow>
     env_transform env = None \<and> cid ` set replace \<subseteq> A \<and> length contexts + length evidence < 251"
| "fit_act A (Take_new env ev expected actor_root evidence_id type_root payload issuer trusted contexts guard now token draw u) \<longleftrightarrow>
     env_transform env = None \<and> length contexts < 250"
| "fit_act A (Elsewhere env create replace) \<longleftrightarrow> env_transform env = None \<and> cid ` set replace \<subseteq> A"

text \<open>A history is a path of declared transitions.\<close>

fun follows :: "transition_event list \<Rightarrow> string \<Rightarrow> string \<Rightarrow> bool" where
  "follows [] a b \<longleftrightarrow> a = b"
| "follows (e # es) a b \<longleftrightarrow> te_from e = a \<and> follows es (te_to e) b"

definition declared_event :: "cells \<Rightarrow> string \<Rightarrow> state_machine \<Rightarrow> transition_event \<Rightarrow> bool" where
  "declared_event m pre M e \<longleftrightarrow> (\<exists>t \<in> set (sm_transitions M). \<exists>d. read_transition m (protocol_at pre) t = Inr d \<and>
     tr_from d = te_from e \<and> tr_to d = te_to e \<and> tr_event d = te_event e)"

lemma transition_machine_with_new_evidence_Inr:
  assumes "transition_machine_with_new_evidence env p root ev expected actor_root evidence_id type_root payload issuer trusted
    contexts guard now token draw u (c, s) = ((c', s'), Inr (x, y, r))"
  obtains t cells where
    "compose_evidence_cells (env_sha env) (st_cells s) p evidence_id type_root payload issuer u = Inr cells"
    "prepare_transition (env_sha env) (put_cells cells (st_cells s)) p root ev expected actor_root [evidence_id]
       trusted contexts now token draw = Inr t"
    "sidecar_ok (st_cells s) cells []" "\<forall>x \<in> set cells. cid x \<noteq> []" "x = evidence_id" "y = pt_event t"
    "commit env (st_revision s) (cells @ pt_create t) (pt_replace t) (c, s) = ((c', s'), Inr r)"
proof -
  have new: "sidecar_ok (st_cells s) cells []"
    if "compose_evidence_cells (env_sha env) (st_cells s) p evidence_id type_root payload issuer u = Inr cells" for cells
    using that unfolding compose_evidence_cells_def Let_def by (auto simp: rbind_Inr_iff sidecar_ok_def split: if_splits)
  from assms show thesis
    unfolding transition_machine_with_new_evidence_def store_snapshot_def
    apply (clarsimp simp: overlay_read_snapshot_Inr_iff rbind_Inr_iff split: sum.splits if_splits prod.splits)
    apply (rule that)
    apply (assumption | rule new | simp)+
    done
qed

lemma run_act_step:
  assumes s: "reachable sha shake s" "\<And>x. length (sha x) = 32" and fit: "fit_act A a"
    and at: "machine_at (st_cells s) pre root M evs R" and A: "A \<inter> R = {}" and few: "Suc (length evs) < 100000"
    and run: "run_act sha shake pre root a (c, s) = ((c', s'), Inr u)"
  shows "reachable sha shake s' \<and> dom (st_cells s) \<subseteq> dom (st_cells s') \<and>
    (\<exists>M' new R'. machine_at (st_cells s') pre root M' (evs @ new) R' \<and> R' \<inter> dom (st_cells s) \<subseteq> R \<and>
       sm_states M' = sm_states M \<and> sm_transitions M' = sm_transitions M \<and>
       follows new (sm_current M) (sm_current M') \<and> map te_event new = act_events a \<and>
       (\<forall>e \<in> set new. declared_event (st_cells s) pre M e) \<and> (\<forall>t \<in> set (sm_transitions M).
         read_transition (st_cells s') (protocol_at pre) t = read_transition (st_cells s) (protocol_at pre) t))"
proof -
  have by_step: ?thesis
    if "steps_to sha pre root M evs R s s' ev expected actor_root evidence contexts token d R'" "act_events a = [ev]"
      "reachable sha shake s'" "dom (st_cells s) \<subseteq> dom (st_cells s')"
    for ev expected actor_root evidence contexts token d R'
  proof -
    let ?e = "taken_event token ev (sm_current M) (tr_to d) actor_root contexts evidence"
    note T = that(1) [unfolded steps_to_def]
    have e: "te_from ?e = sm_current M" "te_to ?e = tr_to d" "te_event ?e = ev" by (simp_all add: taken_event_def)
    from T have "tr_root d \<in> set (sm_transitions M)" "read_transition (st_cells s) (protocol_at pre) (tr_root d) = Inr d"
      "tr_from d = te_from ?e" "tr_event d = te_event ?e" unfolding transition_taken_def e by simp_all
    then have "declared_event (st_cells s) pre M ?e" unfolding declared_event_def using e(2) by metis
    moreover have "follows [?e] (sm_current M) (sm_current (M\<lparr>sm_current := tr_to d\<rparr>))" using e by simp
    moreover have "map te_event [?e] = act_events a" using e that(2) by simp
    moreover have "machine_at (st_cells s') pre root (M\<lparr>sm_current := tr_to d\<rparr>) (evs @ [?e]) R'"
      "R' \<inter> dom (st_cells s) \<subseteq> R" "\<forall>t \<in> set (sm_transitions M).
         read_transition (st_cells s') (protocol_at pre) t = read_transition (st_cells s) (protocol_at pre) t"
      using T by blast+
    ultimately show ?thesis
      using that(3,4) by (intro conjI exI [of _ "M\<lparr>sm_current := tr_to d\<rparr>"] exI [of _ R'] exI [of _ "[?e]"]; (assumption | simp))
  qed
  show ?thesis
  proof (cases a)
    case (Take env ev expected actor_root evidence trusted contexts create replace now token draw)
    with run obtain x r where "transition_machine (hashed sha shake env) (protocol_at pre) root ev expected actor_root evidence
        trusted contexts create replace now token draw (c, s) = ((c', s'), Inr (x, r))"
      by (auto simp: rbind_Inr_iff split: prod.splits)
    then obtain t replaced where
      t: "prepare_transition sha (put_cells (create @ replace) (st_cells s)) (protocol_at pre) root ev expected actor_root evidence
         trusted contexts now token draw = Inr t"
        "sidecar_ok (st_cells s) create replace" "\<forall>x \<in> set (create @ replace). cid x \<noteq> []"
        "merge_replacements replace (pt_replace t) = Inr replaced"
        "commit (hashed sha shake env) (st_revision s) (create @ pt_create t) replaced (c, s) = ((c', s'), Inr r)"
      by (rule transition_machine_Inr) simp
    from fit Take have f: "env_transform env = None" "cid ` set replace \<subseteq> A" "length contexts + length evidence < 251" by auto
    then have "cid ` set replace \<inter> R = {}" using A by blast
    from committed_step [OF s f(1) at t(1,5) merge_replacements_set [OF t(4)] t(2,3) this few f(3)]
      sidecar_lays(3) [OF s f(1) t(5) merge_replacements_set [OF t(4)] t(2,3)]
    show ?thesis using by_step Take by auto
  next
    case (Take_new env ev expected actor_root evidence_id type_root payload issuer trusted contexts guard now token draw w)
    with run obtain x y r where "transition_machine_with_new_evidence (hashed sha shake env) (protocol_at pre) root ev expected
        actor_root evidence_id type_root payload issuer trusted contexts guard now token draw w (c, s) = ((c', s'), Inr (x, y, r))"
      by (auto simp: rbind_Inr_iff split: prod.splits)
    then obtain t cells where
      t: "prepare_transition sha (put_cells (cells @ []) (st_cells s)) (protocol_at pre) root ev expected actor_root [evidence_id]
         trusted contexts now token draw = Inr t"
        "sidecar_ok (st_cells s) cells []" "\<forall>x \<in> set (cells @ []). cid x \<noteq> []"
        "commit (hashed sha shake env) (st_revision s) (cells @ pt_create t) (pt_replace t) (c, s) = ((c', s'), Inr r)"
      by (rule transition_machine_with_new_evidence_Inr) simp
    from fit Take_new have f: "env_transform env = None" "length contexts + length [evidence_id] < 251" by auto
    have same: "set (pt_replace t) = set [] \<union> set (pt_replace t)" by simp
    from committed_step [OF s f(1) at t(1,4) same t(2,3) _ few f(2)]
      sidecar_lays(3) [OF s f(1) t(4) same t(2,3)]
    show ?thesis using by_step Take_new by auto
  next
    case (Elsewhere env create replace)
    with run obtain r where r: "commit (hashed sha shake env) (st_revision s) create replace (c, s) = ((c', s'), Inr r)"
      by (auto simp: rbind_Inr_iff split: prod.splits)
    from fit Elsewhere have f: "env_transform env = None" "cid ` set replace \<subseteq> A" by auto
    obtain j where inv: "store_inv sha shake s j" using reachable_inv [OF s] by blast
    note l = commit_lays [OF inv s(2) f(1) r]
    have same: "\<forall>k \<in> R. st_cells s' k = st_cells s k"
    proof
      fix k assume k: "k \<in> R"
      then have "k \<notin> cid ` set replace" using f(2) A by blast
      moreover have "st_cells s k \<noteq> None" using k machine_at_reads(3) [OF at] by auto
      ultimately show "st_cells s' k = st_cells s k" using laidD(7) [OF l] by simp
    qed
    note dom = laidD(3) [OF l]
    from machine_at_frame [OF at dom same] declared_reads [OF dom same machine_at_declared [OF at]]
      commit_reachable [OF s(1) r] dom Elsewhere
    show ?thesis by (intro conjI exI [of _ M] exI [of _ "[]"] exI [of _ R]) auto
  qed
qed

lemma follows_append [simp]: "follows (es @ fs) a c \<longleftrightarrow> (\<exists>b. follows es a b \<and> follows fs b c)"
  by (induction es arbitrary: a) auto

lemma run_acts_machine:
  assumes "reachable sha shake s" and sha: "\<And>x. length (sha x) = 32" and "\<forall>a \<in> set as. fit_act A a"
    and "machine_at (st_cells s) pre root M evs R" "A \<inter> R = {}" "A \<subseteq> dom (st_cells s)"
    and "length evs + length as < 100000" "run_acts sha shake pre root as (c, s) = ((c', s'), Inr u)"
  shows "\<exists>M' new R'. machine_at (st_cells s') pre root M' (evs @ new) R' \<and> A \<inter> R' = {} \<and>
    sm_states M' = sm_states M \<and> sm_transitions M' = sm_transitions M \<and>
    follows new (sm_current M) (sm_current M') \<and> map te_event new = concat (map act_events as) \<and>
    (\<forall>e \<in> set new. declared_event (st_cells s) pre M e)"
  using assms(1,3-)
proof (induction as arbitrary: c s M evs R)
  case Nil
  then show ?case by (intro exI [of _ M] exI [of _ "[]"] exI [of _ R]) simp
next
  case (Cons a as)
  from Cons.prems(7) obtain c1 s1 v where one: "run_act sha shake pre root a (c, s) = ((c1, s1), Inr v)"
    and rest: "run_acts sha shake pre root as (c1, s1) = ((c', s'), Inr u)"
    by (auto split: prod.splits sum.splits)
  have fit: "fit_act A a" "\<forall>a \<in> set as. fit_act A a" using Cons.prems(2) by simp_all
  have few: "Suc (length evs) < 100000" using Cons.prems(6) by simp
  from run_act_step [OF Cons.prems(1) sha fit(1) Cons.prems(3,4) few one] obtain M1 new1 R1 where
    s1: "reachable sha shake s1" "dom (st_cells s) \<subseteq> dom (st_cells s1)" and
    at: "machine_at (st_cells s1) pre root M1 (evs @ new1) R1" "R1 \<inter> dom (st_cells s) \<subseteq> R" and
    M1: "sm_states M1 = sm_states M" "sm_transitions M1 = sm_transitions M" and
    new1: "follows new1 (sm_current M) (sm_current M1)" "map te_event new1 = act_events a"
      "\<forall>e \<in> set new1. declared_event (st_cells s) pre M e" and
    reads: "\<forall>t \<in> set (sm_transitions M).
      read_transition (st_cells s1) (protocol_at pre) t = read_transition (st_cells s) (protocol_at pre) t"
    by blast
  have A: "A \<inter> R1 = {}" "A \<subseteq> dom (st_cells s1)" using at(2) s1(2) Cons.prems(4,5) by blast+
  have "length (act_events a) \<le> 1" by (cases a) simp_all
  then have few: "length (evs @ new1) + length as < 100000"
    using Cons.prems(6) arg_cong [OF new1(2), of length] by simp
  from Cons.IH [OF s1(1) fit(2) at(1) A few rest] obtain M' new R' where
    IH: "machine_at (st_cells s') pre root M' ((evs @ new1) @ new) R'" "A \<inter> R' = {}" "sm_states M' = sm_states M1"
      "sm_transitions M' = sm_transitions M1" "follows new (sm_current M1) (sm_current M')"
      "map te_event new = concat (map act_events as)" "\<forall>e \<in> set new. declared_event (st_cells s1) pre M1 e"
    by blast
  have "\<forall>e \<in> set new. declared_event (st_cells s) pre M e"
    using IH(7) reads unfolding declared_event_def M1(2) by metis
  with IH M1 new1 show ?case
    by (intro exI [of _ M'] exI [of _ "new1 @ new"] exI [of _ R']) auto
qed

section \<open>Building\<close>

definition machine_pairs :: "string list \<Rightarrow> string list \<Rightarrow> string \<Rightarrow> string \<Rightarrow> (string \<times> string) list" where
  "machine_pairs states transitions initial history =
     map (Pair ''state'') states @ map (Pair ''transition'') transitions @ [(''current-state'', initial), (''history'', history)]"

lemma machine_pairs_roles:
  "with_roles (protocol_at pre) (map (Pair ''state'') states @ map (Pair ''transition'') transitions @
     [(''current-state'', initial), (''history'', history)]) = Inr (named pre (machine_pairs states transitions initial history))"
  unfolding machine_pairs_def by (rule with_roles_at) (auto simp: ROLE_NAMES_def)

lemma machine_pairs_read:
  assumes "length is = length (machine_pairs states transitions initial history)"
    and "initial \<in> set states" "distinct states" "distinct transitions"
  shows "\<exists>i. machine_members pre root (fresh_members is (named pre (machine_pairs states transitions initial history)))
    \<lparr>sm_root = root, sm_states = states, sm_transitions = transitions, sm_current = initial, sm_current_incidence = i,
     sm_history = history\<rparr>"
proof -
  note P = participants_named [OF assms(1), of pre] roles_named [OF assms(1), of pre]
  have "participants (mrole pre ''current-state'') (fresh_members is (named pre (machine_pairs states transitions initial history))) =
      [initial]"
    unfolding P by (simp add: machine_pairs_def filter_map comp_def)
  then obtain y where y: "filter (\<lambda>x. role_id x = mrole pre ''current-state'')
      (fresh_members is (named pre (machine_pairs states transitions initial history))) = [y]" "initial = participant_id y"
    unfolding participants_one by blast
  have "role_id ` set (fresh_members is (named pre (machine_pairs states transitions initial history))) \<subseteq>
      mrole pre ` {''state'', ''transition'', ''current-state'', ''history''}"
    unfolding P by (auto simp: machine_pairs_def)
  moreover have "participants (mrole pre ''state'') (fresh_members is (named pre (machine_pairs states transitions initial history))) = states"
    "participants (mrole pre ''transition'') (fresh_members is (named pre (machine_pairs states transitions initial history))) = transitions"
    "participants (mrole pre ''history'') (fresh_members is (named pre (machine_pairs states transitions initial history))) = [history]"
    unfolding P by (simp_all add: machine_pairs_def filter_map comp_def)
  ultimately show ?thesis
    using y assms(2-) by (intro exI [of _ "incidence_id y"]) (simp add: machine_members_def)
qed

lemma length_machine_pairs [simp]:
  "length (machine_pairs states transitions initial history) = Suc (Suc (length states + length transitions))"
  by (simp add: machine_pairs_def)

lemma build_state_machine_Inr:
  assumes "build_state_machine env (protocol_at pre) root states transitions initial u (c, s) = ((c', s'), Inr x)"
  obtains r where "x = root" "distinct states" "distinct transitions" "initial \<in> set states"
    "\<forall>t \<in> set transitions. \<exists>d. read_transition (st_cells s) (protocol_at pre) t = Inr d \<and> tr_from d \<in> set states \<and> tr_to d \<in> set states"
    "commit env (st_revision s) (rc_cells (compose_relation_cells [] (Some (root @ '':history'')) []) @
       rc_cells (compose_relation_cells (named pre (machine_pairs states transitions initial (root @ '':history''))) (Some root) u)) []
       (c, s) = ((c', s'), Inr r)"
proof -
  let ?check = "rmap (\<lambda>r. rbind (read_transition (st_cells s) (protocol_at pre) r) (\<lambda>t.
    require (tr_from t \<in> set states \<and> tr_to t \<in> set states) (InvalidCell ''transition state is outside the state machine''))) transitions"
  from assms obtain us r where out: "x = root" "distinct states" "distinct transitions" "initial \<in> set states" "?check = Inr us"
    "commit env (st_revision s) (rc_cells (compose_relation_cells [] (Some (root @ '':history'')) []) @
       rc_cells (compose_relation_cells (named pre (machine_pairs states transitions initial (root @ '':history''))) (Some root) u)) []
       (c, s) = ((c', s'), Inr r)"
    unfolding build_state_machine_def machine_pairs_roles store_snapshot_def
    by (auto simp: rbind_Inr_iff split: sum.splits if_splits prod.splits)
  have "\<exists>d. read_transition (st_cells s) (protocol_at pre) t = Inr d \<and> tr_from d \<in> set states \<and> tr_to d \<in> set states"
    if "t \<in> set transitions" for t
  proof -
    from rmap_each [OF out(5) that] show ?thesis by (auto simp: rbind_Inr_iff)
  qed
  with out that show thesis by blast
qed

lemma built_machine_at:
  assumes s: "reachable sha shake s" "\<And>x. length (sha x) = 32" and env: "env_transform env = None"
    and run: "build_state_machine (hashed sha shake env) (protocol_at pre) root states transitions initial u (c, s) = ((c', s'), Inr x)"
    and root: "root \<noteq> []" and few: "length states + length transitions < 99998"
    and X: "X \<subseteq> dom (st_cells s)" "\<forall>t \<in> set transitions. settled (st_cells s) X t \<and>
      (\<forall>d. read_transition (st_cells s) (protocol_at pre) t = Inr d \<longrightarrow> (\<forall>a \<in> set (tr_admissions d). settled (st_cells s) X a))"
  shows "\<exists>i R. machine_at (st_cells s') pre root \<lparr>sm_root = root, sm_states = states, sm_transitions = transitions,
      sm_current = initial, sm_current_incidence = i, sm_history = root @ '':history''\<rparr> [] R \<and>
    R \<inter> dom (st_cells s) \<subseteq> X \<and> reachable sha shake s' \<and> dom (st_cells s) \<subseteq> dom (st_cells s')"
proof -
  let ?h = "root @ '':history''"
  let ?hist = "compose_relation_cells [] (Some ?h) []"
  let ?mach = "compose_relation_cells (named pre (machine_pairs states transitions initial ?h)) (Some root) u"
  from run obtain r where b: "distinct states" "distinct transitions" "initial \<in> set states"
    "\<forall>t \<in> set transitions. \<exists>d. read_transition (st_cells s) (protocol_at pre) t = Inr d \<and> tr_from d \<in> set states \<and> tr_to d \<in> set states"
    and r: "commit (hashed sha shake env) (st_revision s) (rc_cells ?hist @ rc_cells ?mach) [] (c, s) = ((c', s'), Inr r)"
    by (rule build_state_machine_Inr) blast
  obtain j where inv: "store_inv sha shake s j" using reachable_inv [OF s] by blast
  note l = commit_lays [OF inv s(2) env r]
  have d: "distinct (map cid (rc_cells ?hist @ rc_cells ?mach))" using laidD(4) [OF l] .
  have l1: "lays {} (st_cells s) (rc_cells ?hist) [] (st_cells s')" "lays {} (st_cells s) (rc_cells ?mach) [] (st_cells s')"
    by (rule lays_part [OF laid_lays [OF l, of UNIV]]; use d in simp)+
  have hist: "spelled (st_cells s') ?h [] (cid ` set (rc_cells ?hist))"
    using spelled_compose [OF l1(1)] by (simp add: fresh_members_def)
  define ms where "ms = fresh_members (rb_incidences (rc_build ?mach)) (named pre (machine_pairs states transitions initial ?h))"
  have mach: "spelled (st_cells s') root ms (cid ` set (rc_cells ?mach))"
    using spelled_compose [OF l1(2)] root by (simp add: ms_def)
  obtain i where M: "machine_members pre root ms \<lparr>sm_root = root, sm_states = states, sm_transitions = transitions,
      sm_current = initial, sm_current_incidence = i, sm_history = ?h\<rparr>"
    using machine_pairs_read [of "rb_incidences (rc_build ?mach)" states transitions initial ?h pre root] b ms_def by auto
  have new: "st_cells s k = None" if "k \<in> cid ` set (rc_cells ?hist) \<union> cid ` set (rc_cells ?mach)" for k
  proof -
    from that obtain c0 where "c0 \<in> set (rc_cells ?hist @ rc_cells ?mach)" "k = cid c0" by auto
    with laidD(8) [OF l this(1)] show ?thesis by simp
  qed
  have same: "\<forall>k \<in> X. st_cells s' k = st_cells s k"
  proof
    fix k assume "k \<in> X"
    then have "st_cells s k \<noteq> None" using X(1) by auto
    with laidD(7) [OF l] show "st_cells s' k = st_cells s k" by simp
  qed
  note dom = laidD(3) [OF l]
  let ?M = "\<lparr>sm_root = root, sm_states = states, sm_transitions = transitions, sm_current = initial, sm_current_incidence = i,
    sm_history = ?h\<rparr>"
  have "declared (st_cells s) pre X ?M" using X(2) b(4) by (force simp: declared_def)
  note decl = declared_frame [OF dom same this]
  have hist_root: "?h \<in> cid ` set (rc_cells ?hist)" by (simp add: compose_relation_cells_def Let_def)
  have "?h \<noteq> NULL_CELL_ID"
  proof
    assume "?h = NULL_CELL_ID"
    with new [of ?h] hist_root graph_okD(3) [OF reachable_graph [OF s]] show False by simp
  qed
  moreover have "cid ` set (rc_cells ?mach) \<inter> cid ` set (rc_cells ?hist) = {}" using d by auto
  moreover have out: "(cid ` set (rc_cells ?mach) \<union> cid ` set (rc_cells ?hist)) \<inter> dom (st_cells s) = {}"
    using new by (auto simp: domIff)
  then have "(cid ` set (rc_cells ?mach) \<union> cid ` set (rc_cells ?hist)) \<inter> X = {}" using X(1) by blast
  moreover have "X \<subseteq> dom (st_cells s')" using X(1) dom by blast
  moreover have "length ms < 100000" using few by (simp add: ms_def)
  ultimately have "machine_at (st_cells s') pre root ?M [] (cid ` set (rc_cells ?mach) \<union> cid ` set (rc_cells ?hist) \<union> X)"
    unfolding machine_at_def using mach hist M decl
    by (intro exI [of _ "cid ` set (rc_cells ?mach)"] exI [of _ "cid ` set (rc_cells ?hist)"] exI [of _ X] exI [of _ ms] exI [of _ "[]"]) simp
  moreover have "(cid ` set (rc_cells ?mach) \<union> cid ` set (rc_cells ?hist) \<union> X) \<inter> dom (st_cells s) \<subseteq> X" using out by blast
  ultimately show ?thesis using commit_reachable [OF s(1) r] dom by blast
qed

section \<open>Enabled transitions\<close>

lemma admitted_transition_exists:
  assumes "declared m pre X M" "distinct (sm_transitions M)" "transition_taken m pre M ev d"
  shows "admitted_transition m (protocol_at pre) M ev = Inr d"
proof -
  let ?f = "read_transition m (protocol_at pre)"
  have "\<forall>t \<in> set (sm_transitions M). \<exists>d. ?f t = Inr d" using assms(1) unfolding declared_def by blast
  then obtain g where g: "\<forall>t \<in> set (sm_transitions M). ?f t = Inr (g t)" by metis
  then have ts: "rmap ?f (sm_transitions M) = Inr (map g (sm_transitions M))" by (intro rmap_pure) simp
  have root: "tr_root (g t) = t" if "t \<in> set (sm_transitions M)" for t using g that read_transition_root by blast
  have d: "tr_root d \<in> set (sm_transitions M)" "g (tr_root d) = d" "tr_from d = sm_current M" "tr_event d = ev"
    and only: "\<And>t. t \<in> set (sm_transitions M) \<Longrightarrow> tr_from (g t) = sm_current M \<Longrightarrow> tr_event (g t) = ev \<Longrightarrow> g t = d"
    using assms(3) g unfolding transition_taken_def by auto
  have one: "filter (\<lambda>t. tr_from (g t) = sm_current M \<and> tr_event (g t) = ev) ts = [tr_root d]"
    if "distinct ts" "set ts \<subseteq> set (sm_transitions M)" "tr_root d \<in> set ts" for ts
    using that
  proof (induction ts)
    case (Cons t ts)
    show ?case
    proof (cases "t = tr_root d")
      case True
      have "filter (\<lambda>t. tr_from (g t) = sm_current M \<and> tr_event (g t) = ev) ts = []"
        unfolding filter_empty_conv using Cons.prems True only root by (metis distinct.simps(2) list.set_intros(2) subsetD)
      with True d show ?thesis by simp
    next
      case False
      then have "\<not> (tr_from (g t) = sm_current M \<and> tr_event (g t) = ev)"
        using only root Cons.prems(2) by (metis list.set_intros(1) subsetD)
      moreover have "tr_root d \<in> set ts" using Cons.prems(3) False by simp
      ultimately show ?thesis using Cons by auto
    qed
  qed simp
  have "filter (\<lambda>t. tr_from t = sm_current M \<and> tr_event t = ev) (map g (sm_transitions M)) = [d]"
    using one [OF assms(2) order_refl d(1)] d(2) by (simp add: filter_map comp_def)
  with ts show ?thesis by (simp add: admitted_transition_def)
qed

lemma event_pairs_in:
  "{ev, from_root, to_root, actor_root, ts} \<union> set contexts \<union> set evidence \<subseteq> D \<Longrightarrow>
    snd ` set (event_pairs ev from_root to_root actor_root contexts ts evidence) \<subseteq> D"
  by (auto simp: event_pairs_def)

lemma enabled_prepared:
  assumes ok: "graph_ok m" and at: "machine_at m pre root M evs R"
    and d: "transition_taken m pre M ev d" "evidence_ok sha m (protocol_at pre) d evidence trusted = Inr ()"
    and here: "m actor_root \<noteq> None" "m ev \<noteq> None" "distinct contexts" "\<forall>r \<in> set contexts. m r \<noteq> None"
    and roles: "\<forall>n \<in> set ROLE_NAMES. m (mrole pre n) \<noteq> None"
  shows "\<exists>t. prepare_transition sha m (protocol_at pre) root ev (sm_current M) actor_root evidence trusted contexts now token draw = Inr t \<and>
    distinct (map cid (pt_replace t)) \<and> (\<forall>x \<in> set (pt_replace t). m (cid x) \<noteq> None \<and> cid x \<noteq> NULL_CELL_ID \<and> cid x \<noteq> []) \<and>
    (\<forall>x \<in> set (pt_create t) \<union> set (pt_replace t). link0 x \<in> dom m \<union> cid ` set (pt_create t) \<and>
       link1 x \<in> dom m \<union> cid ` set (pt_create t))"
proof -
  from at obtain Fm Fh X ms hs where
    R: "Fm \<inter> Fh = {}" "sm_history M \<noteq> NULL_CELL_ID" and
    ms: "spelled m root ms Fm" "machine_members pre root ms M" and
    hs: "spelled m (sm_history M) hs Fh" "length hs < 100000" and decl: "declared m pre X M"
    unfolding machine_at_def by blast
  have keyed: "keyed m" and null: "m NULL_CELL_ID = Some null_cell" using ok graph_okD by blast+
  note M = machine_membersD [OF ms(2)]
  note adm = admitted_transition_exists [OF decl M(3) d(1)]
  let ?x = "''state-event:'' @ token"
  obtain patch where patch: "prepare_append_relation_members m (sm_history M) [(mrole pre ''history-member'', ?x)] 100000 draw = Inr patch"
    using append_succeeds [OF hs(1) R(2) hs(2)] by blast
  have inc_F: "sm_current_incidence M \<in> Fm" using current_in_region [OF ms] .
  then obtain inc where inc: "m (sm_current_incidence M) = Some inc" using spelled_dom [OF ms(1)] by blast
  define stamp where "stamp = terminal (''state-event:timestamp:'' @ token) now"
  define pairs where "pairs = event_pairs ev (sm_current M) (tr_to d) actor_root contexts (''state-event:timestamp:'' @ token) evidence"
  define comp where "comp = rc_cells (compose_relation_cells (named pre pairs) (Some ?x) [])"
  define c where "c = Cell (cid inc) (link0 inc) (tr_to d) (atom inc)"
  define t where "t = \<lparr>pt_event = ?x, pt_create = stamp # comp @ rp_create patch, pt_replace = fold put_by_id (rp_replace patch) [c]\<rparr>"
  have prep: "prepare_transition sha m (protocol_at pre) root ev (sm_current M) actor_root evidence trusted contexts now token draw = Inr t"
    unfolding prepare_transition_def Let_def event_pairs_roles history_role
    using machine_at_reads(1) [OF at] here adm d(2) patch inc
    by (simp add: t_def stamp_def comp_def c_def pairs_def cell_of_def)
  have c_id: "cid c = sm_current_incidence M" using keyedD [OF keyed inc] by (simp add: c_def)
  have hist_root: "\<exists>y. rp_replace patch = [y] \<and> cid y \<in> Fh \<and> cid y \<noteq> NULL_CELL_ID"
    using append_replaced [OF hs(1) R(2) patch _ keyed] by simp
  then obtain y where y: "rp_replace patch = [y]" "cid y \<in> Fh" "cid y \<noteq> NULL_CELL_ID" by blast
  have "cid y \<noteq> cid c" using y(2) inc_F c_id R(1) by (metis disjoint_iff)
  with y(1) have rep: "pt_replace t = [c, y]" by (simp add: t_def put_by_id_def)
  have in_dom: "m k \<noteq> None" if "k \<in> Fm \<union> Fh" for k using spelled_dom [OF ms(1)] spelled_dom [OF hs(1)] that by blast
  have nonempty: "k \<noteq> []" if "m k \<noteq> None" for k using that keyed by (auto simp: keyed_def)
  have "sm_current_incidence M \<noteq> NULL_CELL_ID"
    using spelled_not_null [OF ms(1) inc_F] .
  then have reps: "\<forall>x \<in> set (pt_replace t). m (cid x) \<noteq> None \<and> cid x \<noteq> NULL_CELL_ID \<and> cid x \<noteq> []"
    unfolding rep using c_id inc_F y(2,3) in_dom nonempty by auto
  let ?D = "dom m \<union> cid ` set (pt_create t)"
  have null_D: "NULL_CELL_ID \<in> ?D" using null by auto
  have role_D: "mrole pre n \<in> ?D" if "n \<in> set ROLE_NAMES" for n using roles that by (auto simp: domIff)
  have states: "s \<in> ?D" if "s \<in> set (sm_states M)" for s
  proof -
    have "s \<in> participant_id ` set ms" using that unfolding M(1) by (auto simp: participants_def)
    then show ?thesis using spelled_participant [OF ms(1)] by (auto simp: domIff)
  qed
  have to: "tr_to d \<in> set (sm_states M)" "sm_current M \<in> set (sm_states M)"
    using d(1) decl M(2) unfolding transition_taken_def declared_def by auto
  have ev_D: "r \<in> ?D" if "r \<in> set evidence" for r
  proof -
    from d(2) obtain items where "rmap (read_evidence sha m (protocol_at pre)) evidence = Inr items"
      unfolding evidence_ok_def by (auto simp: rbind_Inr_iff split: if_splits)
    from rmap_each [OF this that] show ?thesis
      using read_relation_root by (auto simp: read_evidence_def rbind_Inr_iff domIff)
  qed
  have stamp_D: "''state-event:timestamp:'' @ token \<in> ?D" by (simp add: t_def stamp_def terminal_def)
  have pairs_D: "fst ` set (named pre pairs) \<subseteq> ?D" "snd ` set (named pre pairs) \<subseteq> ?D"
  proof -
    have "fst ` set pairs \<subseteq> set ROLE_NAMES" by (auto simp: pairs_def event_pairs_def ROLE_NAMES_def)
    then have "\<forall>q \<in> set pairs. mrole pre (fst q) \<in> ?D" using role_D by blast
    then show "fst ` set (named pre pairs) \<subseteq> ?D" by (auto simp: named_def)
    have "{ev, sm_current M, tr_to d, actor_root, ''state-event:timestamp:'' @ token} \<union> set contexts \<union> set evidence \<subseteq> ?D"
    proof -
      have "ev \<in> ?D" "actor_root \<in> ?D" "set contexts \<subseteq> ?D" using here by blast+
      moreover have "set evidence \<subseteq> ?D" using ev_D by blast
      ultimately show ?thesis using states [OF to(1)] states [OF to(2)] stamp_D by blast
    qed
    then have "snd ` set pairs \<subseteq> ?D" unfolding pairs_def by (rule event_pairs_in)
    then show "snd ` set (named pre pairs) \<subseteq> ?D" unfolding named_def by force
  qed
  have comp_D: "cid ` set comp \<subseteq> ?D" by (auto simp: t_def)
  have comp_links: "link0 x \<in> ?D \<and> link1 x \<in> ?D" if "x \<in> set comp" for x
    using compose_links [OF that [unfolded comp_def], folded comp_def] comp_D pairs_D null_D
    by (meson insert_subset le_sup_iff subsetD)
  have "?x \<in> cid ` set comp"
    using compose_root_in [of ?x] by (simp add: comp_def)
  then have x_D: "?x \<in> ?D" using comp_D by blast
  have hist_links: "\<forall>y \<in> set (rp_create patch) \<union> set (rp_replace patch). link0 y \<in> ?D \<and> link1 y \<in> ?D"
  proof (rule append_one_links [OF hs(1) R(2) ok patch _ _ _ x_D])
    show "mrole pre ''history-member'' \<in> ?D" by (rule role_D) (simp add: ROLE_NAMES_def)
    show "cid ` set (rp_create patch) \<subseteq> ?D" by (auto simp: t_def)
  qed simp
  have "link0 x \<in> ?D \<and> link1 x \<in> ?D" if x: "x \<in> set (pt_create t) \<union> set (pt_replace t)" for x
  proof -
    consider "x = stamp" | "x \<in> set comp" | "x \<in> set (rp_create patch) \<union> set (rp_replace patch)" | "x = c"
      using x y(1) unfolding rep by (auto simp: t_def)
    then show ?thesis
    proof cases
      case 4
      have "link0 inc \<in> ?D" using graph_links [OF ok inc] by (auto simp: domIff)
      with 4 states [OF to(1)] show ?thesis by (simp add: c_def)
    qed (use null_D comp_links hist_links in \<open>auto simp: stamp_def terminal_def\<close>)
  qed
  moreover have "distinct (map cid (pt_replace t))" using \<open>cid y \<noteq> cid c\<close> by (simp add: rep)
  ultimately show ?thesis using prep reps by blast
qed

lemma transition_succeeds:
  assumes s: "reachable sha shake s" "\<And>x. length (sha x) = 32" "plain env" "ready s"
    and at: "machine_at (st_cells s) pre root M evs R"
    and d: "transition_taken (st_cells s) pre M ev d" "evidence_ok sha (st_cells s) (protocol_at pre) d evidence trusted = Inr ()"
    and here: "st_cells s actor_root \<noteq> None" "st_cells s ev \<noteq> None" "distinct contexts" "\<forall>r \<in> set contexts. st_cells s r \<noteq> None"
    and roles: "\<forall>n \<in> set ROLE_NAMES. st_cells s (mrole pre n) \<noteq> None"
    and fresh: "\<And>t. prepare_transition sha (st_cells s) (protocol_at pre) root ev (sm_current M) actor_root evidence trusted contexts
      now token draw = Inr t \<Longrightarrow> distinct (map cid (pt_create t)) \<and> (\<forall>x \<in> set (pt_create t). st_cells s (cid x) = None \<and> cid x \<noteq> [])"
    and intent: "snd (refusal (st_gated s) c) = None"
  shows "\<exists>c' s' r. transition_machine (hashed sha shake env) (protocol_at pre) root ev (sm_current M) actor_root evidence trusted
    contexts [] [] now token draw (c, s) = ((c', s'), Inr (''state-event:'' @ token, r))"
proof -
  let ?m = "st_cells s"
  obtain j where inv: "store_inv sha shake s j" using reachable_inv [OF s(1,2)] by blast
  from enabled_prepared [OF reachable_graph [OF s(1,2)] at d here roles] obtain t where
    t: "prepare_transition sha ?m (protocol_at pre) root ev (sm_current M) actor_root evidence trusted contexts now token draw = Inr t"
    and rp: "distinct (map cid (pt_replace t))"
      "\<forall>x \<in> set (pt_replace t). ?m (cid x) \<noteq> None \<and> cid x \<noteq> NULL_CELL_ID \<and> cid x \<noteq> []"
    and links: "\<forall>x \<in> set (pt_create t) \<union> set (pt_replace t). link0 x \<in> dom ?m \<union> cid ` set (pt_create t) \<and>
       link1 x \<in> dom ?m \<union> cid ` set (pt_create t)" by blast
  note cr = fresh [OF t]
  have event: "pt_event t = ''state-event:'' @ token" and some: "pt_create t \<noteq> []"
    using t by (rule prepare_transition_Inr, simp)+
  have merged: "merge_replacements [] (pt_replace t) = Inr (pt_replace t)"
    using merge_distinct [of "[]" "pt_replace t"] rp(1) by simp
  have apart: "cid ` set (pt_create t) \<inter> cid ` set (pt_replace t) = {}" using cr rp(2) by fastforce
  have "links_resolve ?m (pt_create t @ changes_of ?m (pt_replace t))" using links by (intro resolves) blast
  with cr rp apart some intent have adm: "admitted s c (pt_create t) (pt_replace t)" by (auto simp: admitted_def)
  with plain_commit [OF inv s(2-4), where create = "pt_create t" and replace = "pt_replace t" and c = c] some
  obtain r where "snd (commit (hashed sha shake env) (st_revision s) (pt_create t) (pt_replace t) (c, s)) = Inr r"
    by (auto split: sum.splits)
  then obtain c' s' where run: "commit (hashed sha shake env) (st_revision s) (pt_create t) (pt_replace t) (c, s) = ((c', s'), Inr r)"
    by (metis prod.collapse)
  have "\<not> st_closed s" using s(4) by (simp add: ready_def)
  with t cr merged event run show ?thesis
    by (intro exI [of _ c'] exI [of _ s'] exI [of _ r])
      (simp add: transition_machine_def store_snapshot_def sidecar_ok_def overlay_read_snapshot_def candidate_ids_ok_def)
qed

section \<open>Evidence\<close>

lemma evidence_ok_Inr:
  assumes "evidence_ok sha m p d evidence trusted = Inr ()"
  shows "\<exists>items. distinct evidence \<and> rmap (read_evidence sha m p) evidence = Inr items \<and>
    (\<forall>i \<in> set items. ev_issuer i \<in> set trusted) \<and> set (tr_types d) \<subseteq> ev_type ` set items \<and>
    (\<forall>n \<in> set (tr_admissions d). \<exists>adm. read_evidence_admission m p n = Inr adm \<and>
       (\<exists>i \<in> set items. ev_type i = ea_type adm \<and> ev_issuer i = ea_issuer adm))"
proof -
  from assms obtain items where items: "distinct evidence" "rmap (read_evidence sha m p) evidence = Inr items"
    "\<forall>i \<in> set items. ev_issuer i \<in> set trusted" "set (tr_types d) \<subseteq> ev_type ` set items"
    and adm: "tr_admissions d = [] \<or> (\<exists>required. rmap (read_evidence_admission m p) (tr_admissions d) = Inr required \<and>
      (\<lambda>x. (ea_type x, ea_issuer x)) ` set required \<subseteq> (\<lambda>x. (ev_type x, ev_issuer x)) ` set items)"
    unfolding evidence_ok_def by (auto simp: rbind_Inr_iff split: if_splits)
  have "\<exists>a. read_evidence_admission m p n = Inr a \<and> (\<exists>i \<in> set items. ev_type i = ea_type a \<and> ev_issuer i = ea_issuer a)"
    if n: "n \<in> set (tr_admissions d)" for n
  proof -
    from adm n obtain required where req: "rmap (read_evidence_admission m p) (tr_admissions d) = Inr required"
      "(\<lambda>x. (ea_type x, ea_issuer x)) ` set required \<subseteq> (\<lambda>x. (ev_type x, ev_issuer x)) ` set items" by auto
    from rmap_each [OF req(1) n] obtain a where a: "read_evidence_admission m p n = Inr a" by blast
    then have "a \<in> set required" using rmap_set [OF req(1)] n by blast
    with req(2) have "(ea_type a, ea_issuer a) \<in> (\<lambda>x. (ev_type x, ev_issuer x)) ` set items" by blast
    with a show ?thesis by auto
  qed
  with items show ?thesis by blast
qed

lemma read_evidence_digest:
  "read_evidence sha m p n = Inr i \<Longrightarrow> \<exists>pc dc. m (ev_payload_root i) = Some pc \<and> m (ev_digest_root i) = Some dc \<and>
     ev_payload i = atom pc \<and> atom dc = hex (sha (ev_payload i))"
  unfolding read_evidence_def by (auto simp: rbind_Inr_iff split: if_splits)

end
