(* ===== verification/StateMachineProps.thy ===== *)
theory StateMachineProps
  imports StateMachineRun
begin

text \<open>
  The properties of state machines in a reachable store: a transition takes one declared step and
  records it, whatever rides along with it; every history is a path of declared transitions from the
  initial state, whatever else is committed; evidence is verified where it is consumed; an enabled
  transition can be taken.
\<close>

section \<open>A store with a machine\<close>

definition machine_seed :: "cell list" where
  "machine_seed = map (\<lambda>n. terminal (mrole ''p'' n) n) ROLE_NAMES @ [terminal ''a'' [], terminal ''b'' [], terminal ''go'' []] @
     rc_cells (compose_relation_cells (named ''p'' [(''from-state'', ''a''), (''to-state'', ''b''), (''event'', ''go'')]) (Some ''t'') [])"

definition machine_cells :: "cell list" where
  "machine_cells = rc_cells (compose_relation_cells [] (Some ''m:history'') []) @
     rc_cells (compose_relation_cells (named ''p'' (machine_pairs [''a'', ''b''] [''t''] ''a'' ''m:history'')) (Some ''m'') [])"

definition drawn_ids :: "nat \<Rightarrow> string" where
  "drawn_ids i = (if i = 0 then ''u0'' else ''u1'')"

definition seed_cells :: cells where
  "seed_cells = put_cells machine_seed genesis"

definition built_cells :: cells where
  "built_cells = put_cells machine_cells seed_cells"

lemma machine_seed_fits:
  "list_all (\<lambda>c. cid c \<noteq> [] \<and> genesis (cid c) = None) machine_seed \<and> distinct (map cid machine_seed) \<and>
   links_resolve genesis machine_seed \<and> machine_seed \<noteq> []"
  by code_simp

lemma machine_cells_fit:
  "list_all (\<lambda>c. cid c \<noteq> [] \<and> seed_cells (cid c) = None) machine_cells \<and> distinct (map cid machine_cells) \<and>
   links_resolve seed_cells machine_cells \<and> machine_cells \<noteq> []"
  by code_simp

definition go :: transition_decl where
  "go = \<lparr>tr_root = ''t'', tr_from = ''a'', tr_to = ''b'', tr_event = ''go'', tr_types = [], tr_admissions = []\<rparr>"

lemma go_read: "read_transition seed_cells (protocol_at ''p'') ''t'' = Inr go"
  by code_simp

lemma go_built: "read_transition built_cells (protocol_at ''p'') ''t'' = Inr go"
  by code_simp

lemma roles_built: "list_all (\<lambda>n. built_cells (mrole ''p'' n) \<noteq> None) ROLE_NAMES"
  by code_simp

lemma history_built: "built_cells ''m:history'' = Some (Cell ''m:history'' NULL_CELL_ID NULL_CELL_ID []) \<and>
    built_cells ''a'' \<noteq> None \<and> built_cells ''go'' \<noteq> None"
  by code_simp

definition go_created :: "cell list" where
  "go_created = terminal (''state-event:timestamp:'' @ ''k'') [] # rc_cells (compose_relation_cells (named ''p''
     (event_pairs ''go'' ''a'' ''b'' ''a'' [] (''state-event:timestamp:'' @ ''k'') [])) (Some (''state-event:'' @ ''k'')) []) @
     rp_create (append_patch (Cell ''m:history'' NULL_CELL_ID NULL_CELL_ID []) [(mrole ''p'' ''history-member'', ''state-event:'' @ ''k'')]
       drawn_ids)"

lemma go_fresh: "distinct (map cid go_created) \<and> list_all (\<lambda>x. built_cells (cid x) = None \<and> cid x \<noteq> []) go_created"
  by code_simp

lemma history_append:
  "prepare_append_relation_members built_cells ''m:history'' [(r, x)] 100000 draw =
     Inr (append_patch (Cell ''m:history'' NULL_CELL_ID NULL_CELL_ID []) [(r, x)] draw)"
proof -
  have one: "append_tail built_cells (Suc n) [] ''m:history'' = Inr (Cell ''m:history'' NULL_CELL_ID NULL_CELL_ID [])" for n
    using history_built by simp
  have "(100000::nat) = Suc 99999" by simp
  then have "append_tail built_cells 100000 [] ''m:history'' = Inr (Cell ''m:history'' NULL_CELL_ID NULL_CELL_ID [])"
    using one [of 99999] by (simp only:)
  then show ?thesis using history_built by (simp add: prepare_append_relation_members_def)
qed

definition machine_store :: store where
  "machine_store = seeded machine_seed"

lemma machine_store:
  "reachable fixed_sha fixed_sha machine_store" "st_cells machine_store = seed_cells" "ready machine_store"
  "\<not> st_gated machine_store" "admitted open_memory idle_ctx machine_seed []"
proof -
  show a: "admitted open_memory idle_ctx machine_seed []"
    using machine_seed_fits
    by (simp add: admitted_def open_memory_def blank_store_def changes_of_def refusal_def idle_ctx_def list_all_iff)
  note S = seeded [OF a]
  show "reachable fixed_sha fixed_sha machine_store" "st_cells machine_store = seed_cells" "ready machine_store"
    "\<not> st_gated machine_store"
    using S by (simp_all add: machine_store_def seed_cells_def)
qed

lemma machine_built:
  "\<exists>c' s'. build_state_machine (hashed fixed_sha fixed_sha plain_env) (protocol_at ''p'') ''m'' [''a'', ''b''] [''t''] ''a'' []
     (idle_ctx, machine_store) = ((c', s'), Inr ''m'') \<and> reachable fixed_sha fixed_sha s' \<and> st_cells s' = built_cells \<and>
     ready s' \<and> \<not> st_gated s'"
proof -
  have "admitted machine_store idle_ctx machine_cells []"
    using machine_cells_fit machine_store
    by (simp add: admitted_def changes_of_def refusal_def idle_ctx_def list_all_iff)
  from seeded_commit [OF machine_store(5) this [unfolded machine_store_def]] machine_cells_fit obtain c' s' where
    run: "commit (hashed fixed_sha fixed_sha plain_env) (st_revision machine_store) machine_cells [] (idle_ctx, machine_store) =
      ((c', s'), Inr 2)" by (auto simp: machine_store_def)
  obtain j where inv: "store_inv fixed_sha fixed_sha machine_store j"
    using reachable_inv [OF machine_store(1)] fixed_sha_length by blast
  have plain: "plain plain_env" by (simp add: plain_def plain_env_def)
  have built: "st_cells s' = built_cells"
    using commit_Inr [OF inv fixed_sha_length run] machine_store(2) by (simp add: built_cells_def plain_env_def)
  note rdy = plain_commit_ready [OF inv fixed_sha_length plain machine_store(3) run]
  have "seed_cells ''a'' \<noteq> None \<and> seed_cells ''b'' \<noteq> None" by code_simp
  then have "build_state_machine (hashed fixed_sha fixed_sha plain_env) (protocol_at ''p'') ''m'' [''a'', ''b''] [''t''] ''a'' []
     (idle_ctx, machine_store) = ((c', s'), Inr ''m'')"
    using run machine_store(2,3) go_read machine_pairs_roles [of "''p''" "[''a'', ''b'']" "[''t'']" "''a''" "''m:history''"]
    by (simp add: build_state_machine_def store_snapshot_def ready_def go_def machine_cells_def)
  with run commit_reachable [OF machine_store(1) run] built rdy machine_store(4) show ?thesis by blast
qed

lemma go_settled: "settled seed_cells (dom seed_cells) ''t''"
proof -
  have "graph_ok seed_cells" using reachable_graph [OF machine_store(1)] fixed_sha_length machine_store(2) by metis
  then have keyed: "keyed seed_cells" by (rule graph_okD)
  obtain ms where "read_relation seed_cells ''t'' 256 = Inr ms"
    using go_read unfolding read_transition_def by (auto simp: rbind_Inr_iff)
  from read_settled [OF keyed this] show ?thesis .
qed

lemma built_machine:
  assumes "st_cells s' = built_cells"
    and run: "build_state_machine (hashed fixed_sha fixed_sha plain_env) (protocol_at ''p'') ''m'' [''a'', ''b''] [''t''] ''a'' []
      (idle_ctx, machine_store) = ((c', s'), Inr x)"
  shows "\<exists>i R. machine_at built_cells ''p'' ''m'' \<lparr>sm_root = ''m'', sm_states = [''a'', ''b''], sm_transitions = [''t''],
      sm_current = ''a'', sm_current_incidence = i, sm_history = ''m:history''\<rparr> [] R"
proof -
  have "env_transform plain_env = None" by (simp add: plain_env_def)
  from built_machine_at [OF machine_store(1) fixed_sha_length this run, of "dom seed_cells"] go_settled go_read assms(1) machine_store(2)
  show ?thesis by (auto simp: go_def)
qed

lemma go_taken:
  assumes "sm_transitions M = [''t'']" "sm_current M = ''a''"
  shows "transition_taken built_cells ''p'' M ''go'' go"
  using go_built assms by (auto simp: transition_taken_def go_def)

lemma go_only: "transition_taken built_cells ''p'' M ''go'' d \<Longrightarrow> sm_transitions M = [''t''] \<Longrightarrow> d = go"
  using go_built unfolding transition_taken_def by (elim conjE) simp

lemma go_prepared_fresh:
  assumes at: "machine_at built_cells ''p'' ''m'' M [] R" and M: "sm_transitions M = [''t'']" "sm_current M = ''a''" "sm_history M = ''m:history''"
    and t: "prepare_transition fixed_sha built_cells (protocol_at ''p'') ''m'' ''go'' (sm_current M) ''a'' [] [] [] [] ''k'' drawn_ids = Inr t"
  shows "distinct (map cid (pt_create t)) \<and> (\<forall>x \<in> set (pt_create t). built_cells (cid x) = None \<and> cid x \<noteq> [])"
proof -
  from t obtain M' d patch inc where p: "read_state_machine built_cells (protocol_at ''p'') ''m'' = Inr M'"
    "transition_taken built_cells ''p'' M' ''go'' d"
    "prepare_append_relation_members built_cells (sm_history M') [(mrole ''p'' ''history-member'', ''state-event:'' @ ''k'')] 100000
       drawn_ids = Inr patch"
    "pt_create t = terminal (''state-event:timestamp:'' @ ''k'') [] # rc_cells (compose_relation_cells
     (named ''p'' (event_pairs ''go'' (sm_current M') (tr_to d) ''a'' [] (''state-event:timestamp:'' @ ''k'') []))
     (Some (''state-event:'' @ ''k'')) []) @ rp_create patch"
    by (rule prepare_transition_Inr) blast
  have M': "M' = M" using p(1) machine_at_reads(1) [OF at] by simp
  have "d = go" using go_only [OF p(2) [unfolded M'] M(1)] .
  moreover have "patch = append_patch (Cell ''m:history'' NULL_CELL_ID NULL_CELL_ID [])
      [(mrole ''p'' ''history-member'', ''state-event:'' @ ''k'')] drawn_ids"
    using p(3) history_append M(3) M' by simp
  ultimately have "pt_create t = go_created"
    unfolding go_created_def p(4) M' M(2) by (simp add: go_def)
  with go_fresh show ?thesis by (simp add: list_all_iff)
qed

text \<open>The whole run: the machine is built on the seeded store, then takes its transition.\<close>

lemma go_run:
  obtains c1 s1 M R c' s' r where
    "build_state_machine (hashed fixed_sha fixed_sha plain_env) (protocol_at ''p'') ''m'' [''a'', ''b''] [''t''] ''a'' []
      (idle_ctx, machine_store) = ((c1, s1), Inr ''m'')"
    "reachable fixed_sha fixed_sha s1" "st_cells s1 = built_cells" "ready s1" "\<not> st_gated s1"
    "machine_at (st_cells s1) ''p'' ''m'' M [] R" "sm_transitions M = [''t'']" "sm_current M = ''a''" "sm_history M = ''m:history''"
    "transition_machine (hashed fixed_sha fixed_sha plain_env) (protocol_at ''p'') ''m'' ''go'' ''a'' ''a'' [] []
      [] [] [] [] ''k'' drawn_ids (idle_ctx, s1) = ((c', s'), Inr (''state-event:k'', r))"
proof -
  obtain c1 s1 where build: "build_state_machine (hashed fixed_sha fixed_sha plain_env) (protocol_at ''p'') ''m'' [''a'', ''b''] [''t'']
      ''a'' [] (idle_ctx, machine_store) = ((c1, s1), Inr ''m'')"
    and s1: "reachable fixed_sha fixed_sha s1" "st_cells s1 = built_cells" "ready s1" "\<not> st_gated s1"
    using machine_built by blast
  obtain i R where at: "machine_at built_cells ''p'' ''m'' \<lparr>sm_root = ''m'', sm_states = [''a'', ''b''], sm_transitions = [''t''],
      sm_current = ''a'', sm_current_incidence = i, sm_history = ''m:history''\<rparr> [] R"
    using built_machine [OF s1(2) build] by blast
  define M where "M = \<lparr>sm_root = ''m'', sm_states = [''a'', ''b''], sm_transitions = [''t''],
      sm_current = ''a'', sm_current_incidence = i, sm_history = ''m:history''\<rparr>"
  have M: "sm_transitions M = [''t'']" "sm_current M = ''a''" "sm_history M = ''m:history''" by (simp_all add: M_def)
  note at = at [folded M_def]
  have plain: "plain plain_env" by (simp add: plain_def plain_env_def)
  have "evidence_ok fixed_sha (st_cells s1) (protocol_at ''p'') go [] [] = Inr ()" by (simp add: evidence_ok_def go_def)
  moreover have "snd (refusal (st_gated s1) idle_ctx) = None" using s1(4) by (simp add: refusal_def idle_ctx_def)
  ultimately have "\<exists>c' s' r. transition_machine (hashed fixed_sha fixed_sha plain_env) (protocol_at ''p'') ''m'' ''go'' ''a'' ''a'' [] []
    [] [] [] [] ''k'' drawn_ids (idle_ctx, s1) = ((c', s'), Inr (''state-event:k'', r))"
    using transition_succeeds [OF s1(1) fixed_sha_length plain s1(3) at [folded s1(2)] go_taken [OF M(1,2), folded s1(2)] _ _ _ _ _ _
        go_prepared_fresh [OF at M, folded s1(2)], of "[]" "[]"]
      history_built roles_built s1(2) M(2) by (simp add: list_all_iff)
  with that [OF build s1 at [folded s1(2)] M] show thesis by blast
qed

section \<open>The properties\<close>

text \<open>
  C33: A transition takes exactly one declared step. When \<open>transition_machine\<close> succeeds on a machine
  whose Cells no sidecar Cell replaces, there is a declared transition, the only one for the current
  state and the event; the current state is the one the caller expected; afterwards the machine
  reads with the target as its current state and everything else as before, and its history reads as
  it did with one event appended, which names the event, both states, the actor, the contexts and
  the evidence.
\<close>

theorem transitions_take_declared_steps:
  assumes "reachable sha shake s" "\<And>x. length (sha x) = 32" "env_transform env = None"
    and "machine_at (st_cells s) pre root M evs R" "cid ` set replace \<inter> R = {}"
    and run: "transition_machine (hashed sha shake env) (protocol_at pre) root ev expected actor_root evidence trusted contexts
      create replace now token draw (c, s) = ((c', s'), Inr (x, r))"
    and "Suc (length evs) < 100000" "length contexts + length evidence < 251"
  shows "\<exists>d R'. transition_taken (st_cells s) pre M ev d \<and> sm_current M = expected \<and> x = ''state-event:'' @ token \<and>
    read_state_machine (st_cells s') (protocol_at pre) root = Inr (M\<lparr>sm_current := tr_to d\<rparr>) \<and>
    machine_history (st_cells s') (protocol_at pre) root =
      Inr (evs @ [taken_event token ev expected (tr_to d) actor_root contexts evidence]) \<and>
    machine_at (st_cells s') pre root (M\<lparr>sm_current := tr_to d\<rparr>)
      (evs @ [taken_event token ev expected (tr_to d) actor_root contexts evidence]) R'"
proof -
  from run obtain t replaced where
    t: "prepare_transition sha (put_cells (create @ replace) (st_cells s)) (protocol_at pre) root ev expected actor_root evidence
       trusted contexts now token draw = Inr t"
      "sidecar_ok (st_cells s) create replace" "\<forall>x \<in> set (create @ replace). cid x \<noteq> []"
      "merge_replacements replace (pt_replace t) = Inr replaced" "x = pt_event t"
      "commit (hashed sha shake env) (st_revision s) (create @ pt_create t) replaced (c, s) = ((c', s'), Inr r)"
    by (rule transition_machine_Inr) simp
  from committed_step [OF assms(1-4) t(1,6) merge_replacements_set [OF t(4)] t(2,3) assms(5,7,8)] t(5)
  show ?thesis unfolding steps_to_def using machine_at_reads by blast
qed

theorem transitions_take_declared_steps_witness:
  "\<exists>s' :: store. \<exists>M. read_state_machine (st_cells s') (protocol_at ''p'') ''m'' = Inr M \<and> sm_current M = ''b'' \<and>
    machine_history (st_cells s') (protocol_at ''p'') ''m'' = Inr [taken_event ''k'' ''go'' ''a'' ''b'' ''a'' [] []]"
proof (rule go_run)
  fix c1 s1 M R c' s' r
  assume s1: "reachable fixed_sha fixed_sha s1" "st_cells s1 = built_cells" and M: "sm_transitions M = [''t'']"
    and at: "machine_at (st_cells s1) ''p'' ''m'' M [] R"
    and run: "transition_machine (hashed fixed_sha fixed_sha plain_env) (protocol_at ''p'') ''m'' ''go'' ''a'' ''a'' [] [] [] [] [] []
      ''k'' drawn_ids (idle_ctx, s1) = ((c', s'), Inr (''state-event:k'', r))"
  have env: "env_transform plain_env = None" by (simp add: plain_env_def)
  from transitions_take_declared_steps [OF s1(1) fixed_sha_length env at _ run] obtain d where
    d: "transition_taken (st_cells s1) ''p'' M ''go'' d" "read_state_machine (st_cells s') (protocol_at ''p'') ''m'' = Inr (M\<lparr>sm_current := tr_to d\<rparr>)"
    "machine_history (st_cells s') (protocol_at ''p'') ''m'' = Inr [taken_event ''k'' ''go'' ''a'' (tr_to d) ''a'' [] []]"
    by auto
  have "tr_to d = ''b''" using go_only [OF d(1) [unfolded s1(2)] M] by (simp add: go_def)
  with d(2,3) show ?thesis by (intro exI [of _ s'] exI [of _ "M\<lparr>sm_current := ''b''\<rparr>"]) simp
qed

text \<open>
  C32: Every history is a path of declared transitions. Build a machine in any reachable store and let
  any sequence of transitions, transitions with new evidence and other commits run, the sidecars and
  the other commits replacing only Cells apart from the machine's declarations. Afterwards the
  machine reads with the states and transitions it was built with; its history has one event per
  transition taken, in order; the events lead from the initial state to the current one, each
  starting where the one before ended, and each is an instance of a transition the machine declares.
\<close>

theorem histories_are_declared_paths:
  assumes s: "reachable sha shake s" "\<And>x. length (sha x) = 32" and env: "env_transform env = None"
    and build: "build_state_machine (hashed sha shake env) (protocol_at pre) root states transitions initial u (c, s) =
      ((c0, s0), Inr root)" "root \<noteq> []"
    and A: "A \<subseteq> dom (st_cells s)" "\<forall>t \<in> set transitions. settled (st_cells s) (dom (st_cells s) - A) t \<and>
      (\<forall>d. read_transition (st_cells s) (protocol_at pre) t = Inr d \<longrightarrow>
         (\<forall>a \<in> set (tr_admissions d). settled (st_cells s) (dom (st_cells s) - A) a))"
    and few: "length states + length transitions < 99998" "length acts < 100000"
    and acts: "\<forall>a \<in> set acts. fit_act A a" "run_acts sha shake pre root acts (c1, s0) = ((c2, s'), Inr ())"
  shows "\<exists>M evs. read_state_machine (st_cells s') (protocol_at pre) root = Inr M \<and>
    machine_history (st_cells s') (protocol_at pre) root = Inr evs \<and>
    sm_states M = states \<and> sm_transitions M = transitions \<and>
    follows evs initial (sm_current M) \<and> map te_event evs = concat (map act_events acts) \<and>
    (\<forall>e \<in> set evs. declared_event (st_cells s0) pre M e)"
proof -
  have "dom (st_cells s) - A \<subseteq> dom (st_cells s)" by blast
  from built_machine_at [OF s env build few(1) this A(2)] obtain i R where
    at: "machine_at (st_cells s0) pre root \<lparr>sm_root = root, sm_states = states, sm_transitions = transitions,
      sm_current = initial, sm_current_incidence = i, sm_history = root @ '':history''\<rparr> [] R" and
    R: "R \<inter> dom (st_cells s) \<subseteq> dom (st_cells s) - A" "reachable sha shake s0" "dom (st_cells s) \<subseteq> dom (st_cells s0)" by blast
  have apart: "A \<inter> R = {}" "A \<subseteq> dom (st_cells s0)" using R A(1) by blast+
  have "length [] + length acts < 100000" using few(2) by simp
  from run_acts_machine [OF R(2) s(2) acts(1) at apart this acts(2)] obtain M evs R' where
    M: "machine_at (st_cells s') pre root M evs R'" "sm_states M = states" "sm_transitions M = transitions"
      "follows evs initial (sm_current M)" "map te_event evs = concat (map act_events acts)"
    and e: "\<forall>e \<in> set evs. declared_event (st_cells s0) pre \<lparr>sm_root = root, sm_states = states, sm_transitions = transitions,
      sm_current = initial, sm_current_incidence = i, sm_history = root @ '':history''\<rparr> e"
    by auto
  have "\<forall>e \<in> set evs. declared_event (st_cells s0) pre M e"
    using e M(3) by (simp add: declared_event_def)
  with M machine_at_reads(1,2) [OF M(1)] show ?thesis by blast
qed

theorem histories_are_declared_paths_witness:
  "\<exists>(s' :: store) M evs. read_state_machine (st_cells s') (protocol_at ''p'') ''m'' = Inr M \<and>
    machine_history (st_cells s') (protocol_at ''p'') ''m'' = Inr evs \<and> follows evs ''a'' (sm_current M) \<and> map te_event evs = [''go'']"
proof (rule go_run)
  fix c1 s1 M R c' s' r
  assume build: "build_state_machine (hashed fixed_sha fixed_sha plain_env) (protocol_at ''p'') ''m'' [''a'', ''b''] [''t''] ''a'' []
      (idle_ctx, machine_store) = ((c1, s1), Inr ''m'')"
    and run: "transition_machine (hashed fixed_sha fixed_sha plain_env) (protocol_at ''p'') ''m'' ''go'' ''a'' ''a'' [] [] [] [] [] []
      ''k'' drawn_ids (idle_ctx, s1) = ((c', s'), Inr (''state-event:k'', r))"
  let ?acts = "[Take plain_env ''go'' ''a'' ''a'' [] [] [] [] [] [] ''k'' drawn_ids]"
  have acts: "run_acts fixed_sha fixed_sha ''p'' ''m'' ?acts (idle_ctx, s1) = ((c', s'), Inr ())" using run by simp
  have fit: "\<forall>a \<in> set ?acts. fit_act {} a" by (simp add: plain_env_def)
  have set: "\<forall>t \<in> set [''t'']. settled (st_cells machine_store) (dom (st_cells machine_store) - {}) t \<and>
      (\<forall>d. read_transition (st_cells machine_store) (protocol_at ''p'') t = Inr d \<longrightarrow>
         (\<forall>a \<in> set (tr_admissions d). settled (st_cells machine_store) (dom (st_cells machine_store) - {}) a))"
    using go_read go_settled machine_store(2) by (auto simp: go_def)
  have env: "env_transform plain_env = None" by (simp add: plain_env_def)
  have few: "length [''a'', ''b''] + length [''t''] < 99998" "length ?acts < 100000" by simp_all
  from histories_are_declared_paths [OF machine_store(1) fixed_sha_length env build _ _ set few fit acts] obtain M evs where
    "read_state_machine (st_cells s') (protocol_at ''p'') ''m'' = Inr M" "machine_history (st_cells s') (protocol_at ''p'') ''m'' = Inr evs"
    "follows evs ''a'' (sm_current M)" "map te_event evs = concat (map act_events ?acts)" by auto
  moreover have "concat (map act_events ?acts) = [''go'']" by simp
  ultimately show ?thesis by metis
qed

text \<open>
  C34: Evidence is verified where it is consumed. A transition that succeeds names each piece of
  evidence once; each reads as evidence whose stored digest is the SHA-256 of its payload and whose
  issuer the caller trusts; the types the transition requires are all provided, and every admission
  it declares is met by a piece of that type from that issuer.
\<close>

theorem transitions_verify_evidence:
  assumes run: "transition_machine (hashed sha shake env) (protocol_at pre) root ev expected actor_root evidence trusted contexts
      create replace now token draw (c, s) = ((c', s'), Inr (x, r))"
    and a: "a = put_cells (create @ replace) (st_cells s)"
  shows "\<exists>M d items. read_state_machine a (protocol_at pre) root = Inr M \<and> transition_taken a pre M ev d \<and>
    distinct evidence \<and> rmap (read_evidence sha a (protocol_at pre)) evidence = Inr items \<and>
    (\<forall>i \<in> set items. ev_issuer i \<in> set trusted \<and> (\<exists>pc dc. a (ev_payload_root i) = Some pc \<and> a (ev_digest_root i) = Some dc \<and>
       ev_payload i = atom pc \<and> atom dc = hex (sha (ev_payload i)))) \<and>
    set (tr_types d) \<subseteq> ev_type ` set items \<and>
    (\<forall>n \<in> set (tr_admissions d). \<exists>adm. read_evidence_admission a (protocol_at pre) n = Inr adm \<and>
       (\<exists>i \<in> set items. ev_type i = ea_type adm \<and> ev_issuer i = ea_issuer adm))"
proof -
  from run obtain t where
    "prepare_transition sha a (protocol_at pre) root ev expected actor_root evidence trusted contexts now token draw = Inr t"
    unfolding a by (rule transition_machine_Inr) simp
  then obtain M d where M: "read_state_machine a (protocol_at pre) root = Inr M" "transition_taken a pre M ev d"
    and ok: "evidence_ok sha a (protocol_at pre) d evidence trusted = Inr ()"
    by (rule prepare_transition_Inr) blast
  from evidence_ok_Inr [OF ok] obtain items where
    items: "distinct evidence" "rmap (read_evidence sha a (protocol_at pre)) evidence = Inr items"
      "\<forall>i \<in> set items. ev_issuer i \<in> set trusted" "set (tr_types d) \<subseteq> ev_type ` set items"
      "\<forall>n \<in> set (tr_admissions d). \<exists>adm. read_evidence_admission a (protocol_at pre) n = Inr adm \<and>
         (\<exists>i \<in> set items. ev_type i = ea_type adm \<and> ev_issuer i = ea_issuer adm)" by blast
  have "\<exists>pc dc. a (ev_payload_root i) = Some pc \<and> a (ev_digest_root i) = Some dc \<and>
       ev_payload i = atom pc \<and> atom dc = hex (sha (ev_payload i))" if "i \<in> set items" for i
    using that rmap_set [OF items(2)] read_evidence_digest by blast
  with M items show ?thesis by blast
qed

text \<open>
  C35: An enabled transition can be taken. On a ready store with a plain environment, when exactly one
  declared transition fits the current state and the event, its evidence is in order, what the
  event names and the protocol's roles are in the graph and the identities drawn are new,
  \<open>transition_machine\<close> succeeds: a machine is never stuck in a state it declares a way out of.
\<close>

theorem enabled_transitions_succeed:
  assumes "reachable sha shake s" "\<And>x. length (sha x) = 32" "plain env" "ready s" "snd (refusal (st_gated s) c) = None"
    and "machine_at (st_cells s) pre root M evs R" "transition_taken (st_cells s) pre M ev d"
    and "evidence_ok sha (st_cells s) (protocol_at pre) d evidence trusted = Inr ()"
    and "st_cells s actor_root \<noteq> None" "st_cells s ev \<noteq> None" "distinct contexts" "\<forall>r \<in> set contexts. st_cells s r \<noteq> None"
    and "\<forall>n \<in> set ROLE_NAMES. st_cells s (mrole pre n) \<noteq> None"
    and "\<And>t. prepare_transition sha (st_cells s) (protocol_at pre) root ev (sm_current M) actor_root evidence trusted contexts
      now token draw = Inr t \<Longrightarrow> distinct (map cid (pt_create t)) \<and> (\<forall>x \<in> set (pt_create t). st_cells s (cid x) = None \<and> cid x \<noteq> [])"
  shows "\<exists>c' s' r. transition_machine (hashed sha shake env) (protocol_at pre) root ev (sm_current M) actor_root evidence trusted
    contexts [] [] now token draw (c, s) = ((c', s'), Inr (''state-event:'' @ token, r))"
  using assms by (intro transition_succeeds)

theorem transitions_verify_evidence_witness:
  "\<exists>M d. read_state_machine built_cells (protocol_at ''p'') ''m'' = Inr M \<and> transition_taken built_cells ''p'' M ''go'' d"
proof (rule go_run)
  fix c1 s1 M R c' s' r
  assume s1: "st_cells s1 = built_cells"
    and run: "transition_machine (hashed fixed_sha fixed_sha plain_env) (protocol_at ''p'') ''m'' ''go'' ''a'' ''a'' [] [] [] [] [] []
      ''k'' drawn_ids (idle_ctx, s1) = ((c', s'), Inr (''state-event:k'', r))"
  have "built_cells = put_cells ([] @ []) (st_cells s1)" using s1 by simp
  from transitions_verify_evidence [OF run this] show ?thesis by blast
qed

theorem enabled_transitions_succeed_witness:
  "\<exists>(s :: store) c' s' r. st_cells s = built_cells \<and> transition_machine (hashed fixed_sha fixed_sha plain_env) (protocol_at ''p'') ''m''
     ''go'' ''a'' ''a'' [] [] [] [] [] [] ''k'' drawn_ids (idle_ctx, s) = ((c', s'), Inr (''state-event:k'', r))"
proof (rule go_run)
  fix c1 s1 M R c' s' r
  assume s1: "reachable fixed_sha fixed_sha s1" "st_cells s1 = built_cells" "ready s1" "\<not> st_gated s1"
    and at: "machine_at (st_cells s1) ''p'' ''m'' M [] R"
    and M: "sm_transitions M = [''t'']" "sm_current M = ''a''" "sm_history M = ''m:history''"
  have plain: "plain plain_env" by (simp add: plain_def plain_env_def)
  have refusal: "snd (refusal (st_gated s1) idle_ctx) = None" using s1(4) by (simp add: refusal_def idle_ctx_def)
  have ev: "evidence_ok fixed_sha (st_cells s1) (protocol_at ''p'') go [] [] = Inr ()" by (simp add: evidence_ok_def go_def)
  have here: "st_cells s1 ''a'' \<noteq> None" "st_cells s1 ''go'' \<noteq> None" "\<forall>r \<in> set []. st_cells s1 r \<noteq> None" "distinct ([] :: string list)"
    and roles: "\<forall>n \<in> set ROLE_NAMES. st_cells s1 (mrole ''p'' n) \<noteq> None"
    using history_built roles_built s1(2) by (simp_all add: list_all_iff)
  note fresh = go_prepared_fresh [OF at [unfolded s1(2)] M, folded s1(2)]
  from enabled_transitions_succeed [OF s1(1) fixed_sha_length plain s1(3) refusal at go_taken [OF M(1,2), folded s1(2)] ev here(1,2)
      here(4) here(3) roles fresh] s1(2) M(2)
  show ?thesis by auto
qed

end
