(* ===== verification/Ownership.thy ===== *)
theory Ownership
  imports Lenses
begin

text \<open>
  Exclusive ownership held in the graph (\<open>01.APP/nodelang/cell_exclusive_ownership.py\<close>): the protocol,
  the ownership generations of a resource with their transitions, the registry, and the operations
  that acquire an ownership and move it on. Times are Python floats; what \<open>float\<close> reads from a text and
  \<open>repr\<close> writes for a float are the arguments \<open>parse\<close> and \<open>render\<close>, the clock and the UUIDs too.
\<close>

section \<open>Numbers as text\<close>

text \<open>
  A Python float, as far as comparisons see it; a finite one counts multiples of \<open>2 ^ -1074\<close>, the
  smallest positive double, of which every finite double is a multiple.
\<close>

datatype py_float = NaN | NegInf | PosInf | Finite int

fun float_le :: "py_float \<Rightarrow> py_float \<Rightarrow> bool" where
  "float_le NaN y = False"
| "float_le x NaN = False"
| "float_le NegInf y = True"
| "float_le x PosInf = True"
| "float_le (Finite a) (Finite b) = (a \<le> b)"
| "float_le x y = False"

fun float_less :: "py_float \<Rightarrow> py_float \<Rightarrow> bool" where
  "float_less NaN y = False"
| "float_less x NaN = False"
| "float_less x y = (\<not> float_le y x)"

text \<open>\<open>int(text)\<close>: white space around, a sign, digits with single underscores between them, at most 4300.\<close>

definition is_space :: "char \<Rightarrow> bool" where
  "is_space c \<longleftrightarrow> of_char c \<in> {9, 10, 11, 12, 13, 32 :: nat}"

definition is_digit :: "char \<Rightarrow> bool" where
  "is_digit c \<longleftrightarrow> 48 \<le> (of_char c :: nat) \<and> (of_char c :: nat) \<le> 57"

fun scan_digits :: "bool \<Rightarrow> nat \<Rightarrow> nat \<Rightarrow> string \<Rightarrow> (nat \<times> nat) option" where
  "scan_digits seen v n [] = (if seen then Some (v, n) else None)"
| "scan_digits seen v n (c # cs) =
     (if is_digit c then scan_digits True (10 * v + (of_char c - 48)) (Suc n) cs
      else if c = CHR ''_'' \<and> seen then scan_digits False v n cs
      else None)"

definition MAX_STR_DIGITS :: nat where "MAX_STR_DIGITS = 4300"

definition strip_spaces :: "string \<Rightarrow> string" where
  "strip_spaces cs = rev (dropWhile is_space (rev (dropWhile is_space cs)))"

definition parse_int :: "bytes \<Rightarrow> int option" where
  "parse_int text =
     (if \<exists>c \<in> set text. 128 \<le> (of_char c :: nat) then None
      else let u = strip_spaces text;
               (sign, ds) = (case u of CHR ''-'' # ds \<Rightarrow> (-1, ds) | CHR ''+'' # ds \<Rightarrow> (1, ds) | _ \<Rightarrow> (1 :: int, u))
           in case scan_digits False 0 0 ds of
                None \<Rightarrow> None
              | Some (v, n) \<Rightarrow> if MAX_STR_DIGITS < n then None else Some (sign * int v))"

section \<open>The protocol\<close>

definition OWNERSHIP_ROLE_NAMES :: "string list" where
  "OWNERSHIP_ROLE_NAMES = [''vocabulary-member'', ''ownership-member'', ''resource'', ''holder'', ''generation'', ''state'',
     ''acquired-at'', ''predecessor'', ''evidence'', ''transition'', ''from-state'', ''to-state'', ''at'']"

definition OWNERSHIP_STATE_NAMES :: "string list" where
  "OWNERSHIP_STATE_NAMES = [''active'', ''draining'', ''released'', ''failed'']"

record ownership_protocol =
  op_root :: string
  op_roles :: "(string \<times> string) list"
  op_states :: "(string \<times> string) list"

definition own_role :: "ownership_protocol \<Rightarrow> string \<Rightarrow> string result" where
  "own_role p name =
     (case map_of (op_roles p) name of
        None \<Rightarrow> Inl (InvalidCell ''unknown ownership role'')
      | Some r \<Rightarrow> Inr r)"

definition own_state :: "ownership_protocol \<Rightarrow> string \<Rightarrow> string result" where
  "own_state p name = (case map_of (op_states p) name of None \<Rightarrow> Inl (KeyError name) | Some r \<Rightarrow> Inr r)"

definition own_pairs :: "ownership_protocol \<Rightarrow> (string \<times> string) list \<Rightarrow> (string \<times> string) list result" where
  "own_pairs p pairs = rmap (\<lambda>(name, x). rbind (own_role p name) (\<lambda>r. Inr (r, x))) pairs"

record ownership =
  ow_root :: string
  ow_resource :: string
  ow_holder :: string
  ow_generation :: int
  ow_generation_root :: string
  ow_state :: string
  ow_state_incidence :: string
  ow_acquired_root :: string
  ow_predecessor :: "string option"
  ow_evidence :: "string list"
  ow_transitions :: "string list"

record ownership_transition =
  ot_root :: string
  ot_from :: string
  ot_to :: string
  ot_at_root :: string
  ot_at :: py_float
  ot_evidence :: string

text \<open>\<open>_one\<close>: the only member with a role, its participant and its incidence.\<close>

definition one_member :: "relation_member list \<Rightarrow> string \<Rightarrow> string \<Rightarrow> (string \<times> string) result" where
  "one_member members role label =
     (case filter (\<lambda>x. role_id x = role) members of
        [x] \<Rightarrow> Inr (participant_id x, incidence_id x)
      | _ \<Rightarrow> Inl (InvalidCell (''ownership requires exactly one '' @ label)))"

definition own_one :: "ownership_protocol \<Rightarrow> relation_member list \<Rightarrow> string \<Rightarrow> string \<Rightarrow> (string \<times> string) result" where
  "own_one p members name label = rbind (own_role p name) (\<lambda>r. one_member members r label)"

definition own_all :: "ownership_protocol \<Rightarrow> relation_member list \<Rightarrow> string \<Rightarrow> string list result" where
  "own_all p members name = rbind (own_role p name) (\<lambda>r. Inr (participants r members))"

definition own_closed :: "ownership_protocol \<Rightarrow> relation_member list \<Rightarrow> string list \<Rightarrow> string \<Rightarrow> unit result" where
  "own_closed p members names message =
     rbind (rmap (own_role p) names) (\<lambda>admitted.
     require (\<forall>x \<in> set members. role_id x \<in> set admitted) (InvalidCell message))"

definition own_terminal :: "string \<Rightarrow> string \<Rightarrow> cell" where
  "own_terminal root text = Cell root NULL_CELL_ID NULL_CELL_ID text"

definition own_protocol_at :: "string \<Rightarrow> ownership_protocol" where
  "own_protocol_at prefix = \<lparr>op_root = prefix @ '':root'',
     op_roles = map (\<lambda>n. (n, prefix @ '':role:'' @ n)) OWNERSHIP_ROLE_NAMES,
     op_states = map (\<lambda>n. (n, prefix @ '':state:'' @ n)) OWNERSHIP_STATE_NAMES\<rparr>"

definition project_ownership_protocol :: "cells \<Rightarrow> string \<Rightarrow> ownership_protocol result" where
  "project_ownership_protocol m prefix =
     (let p = own_protocol_at prefix; words = map snd (op_roles p) @ map snd (op_states p) in
      if \<exists>r \<in> set (op_root p # words). m r = None then Inl (InvalidCell ''ownership protocol is incomplete'')
      else rbind (read_relation m (op_root p) 100000) (\<lambda>members.
      rbind (own_role p ''vocabulary-member'') (\<lambda>v.
      rbind (own_role p ''ownership-member'') (\<lambda>r.
      if \<exists>x \<in> set members. role_id x \<notin> {v, r} then Inl (InvalidCell ''ownership protocol has an undeclared member'')
      else if set (participants v members) \<noteq> set words then Inl (InvalidCell ''ownership vocabulary drifted'')
      else if \<not> distinct (participants r members) then Inl (InvalidCell ''ownership registry contains a duplicate'')
      else Inr p))))"

definition bootstrap_ownership_protocol ::
  "commit_env \<Rightarrow> string \<Rightarrow> ctx \<times> store \<Rightarrow> (ctx \<times> store) \<times> ownership_protocol result" where
  "bootstrap_ownership_protocol env prefix cs =
     (let p = own_protocol_at prefix; entries = op_roles p @ op_states p in
      case store_snapshot (snd cs) of
        Inl e \<Rightarrow> (cs, Inl e)
      | Inr sn \<Rightarrow>
          if snap_cells sn (op_root p) \<noteq> None then (cs, project_ownership_protocol (snap_cells sn) prefix)
          else (case rbind (new_batch (snd cs)) (\<lambda>b.
              rbind (batch_add_all (map (\<lambda>(n, r). own_terminal r n) entries) b) (\<lambda>b.
              rbind (own_role p ''vocabulary-member'') (\<lambda>v.
              batch_relation (map (\<lambda>(n, r). (v, r)) entries) (Some (op_root p)) [] b))) of
            Inl e \<Rightarrow> (cs, Inl e)
          | Inr (b, build) \<Rightarrow> (case batch_commit env b cs of (_, cs', res) \<Rightarrow> (cs', rbind res (\<lambda>_. Inr p)))))"

section \<open>Reading\<close>

definition cell_number :: "cells \<Rightarrow> (bytes \<Rightarrow> 'a option) \<Rightarrow> string \<Rightarrow> string \<Rightarrow> 'a result" where
  "cell_number m parse root message =
     (case m root of
        None \<Rightarrow> Inl (InvalidCell message)
      | Some c \<Rightarrow> (case parse (atom c) of None \<Rightarrow> Inl (InvalidCell message) | Some v \<Rightarrow> Inr v))"

definition read_ownership_transition ::
  "(bytes \<Rightarrow> py_float option) \<Rightarrow> cells \<Rightarrow> ownership_protocol \<Rightarrow> string \<Rightarrow> ownership_transition result" where
  "read_ownership_transition parse m p root =
     rbind (read_relation m root 64) (\<lambda>members.
     rbind (own_closed p members [''from-state'', ''to-state'', ''at'', ''evidence'']
       ''ownership transition contains an undeclared field'') (\<lambda>_.
     rbind (own_one p members ''from-state'' ''transition source'') (\<lambda>(from_root, _).
     rbind (own_one p members ''to-state'' ''transition target'') (\<lambda>(to_root, _).
     rbind (own_one p members ''at'' ''transition time'') (\<lambda>(at_root, _).
     rbind (own_one p members ''evidence'' ''transition evidence'') (\<lambda>(evidence_root, _).
     if from_root \<notin> snd ` set (op_states p) \<or> to_root \<notin> snd ` set (op_states p)
     then Inl (InvalidCell ''ownership transition state is not admitted'')
     else rbind (cell_number m parse at_root ''ownership transition time is invalid'') (\<lambda>t.
       if float_le t (Finite 0) \<or> m evidence_root = None
       then Inl (InvalidCell ''ownership transition time or evidence is invalid'')
       else Inr \<lparr>ot_root = root, ot_from = from_root, ot_to = to_root, ot_at_root = at_root, ot_at = t,
              ot_evidence = evidence_root\<rparr>)))))))"

text \<open>The loop over the transitions: the state they lead to.\<close>

fun replay_transitions ::
  "(string \<times> string) set \<Rightarrow> string \<Rightarrow> py_float \<Rightarrow> ownership_transition list \<Rightarrow> string result" where
  "replay_transitions admitted current previous [] = Inr current"
| "replay_transitions admitted current previous (t # ts) =
     (if (ot_from t, ot_to t) \<notin> admitted then Inl (InvalidCell ''ownership transition pair is not admitted'')
      else if ot_from t \<noteq> current then Inl (InvalidCell ''ownership transition history is discontinuous'')
      else if float_less (ot_at t) previous then Inl (InvalidCell ''ownership transition time moved backwards'')
      else replay_transitions admitted (ot_to t) (ot_at t) ts)"

definition admitted_pairs :: "ownership_protocol \<Rightarrow> (string \<times> string) set result" where
  "admitted_pairs p =
     rbind (own_state p ''active'') (\<lambda>active.
     rbind (own_state p ''draining'') (\<lambda>draining.
     rbind (own_state p ''released'') (\<lambda>released.
     rbind (own_state p ''failed'') (\<lambda>failed.
     Inr {(active, draining), (draining, released), (active, failed), (draining, failed)}))))"

definition read_ownership ::
  "(bytes \<Rightarrow> py_float option) \<Rightarrow> cells \<Rightarrow> ownership_protocol \<Rightarrow> string \<Rightarrow> ownership result" where
  "read_ownership parse m p root =
     rbind (read_relation m root 100000) (\<lambda>members.
     rbind (own_closed p members [''resource'', ''holder'', ''generation'', ''state'', ''acquired-at'', ''predecessor'',
       ''evidence'', ''transition''] ''ownership contains an undeclared field'') (\<lambda>_.
     rbind (own_one p members ''resource'' ''resource'') (\<lambda>(resource_root, _).
     rbind (own_one p members ''holder'' ''holder'') (\<lambda>(holder_root, _).
     rbind (own_one p members ''generation'' ''generation'') (\<lambda>(generation_root, _).
     rbind (own_one p members ''state'' ''state'') (\<lambda>(state_root, state_incidence).
     rbind (own_one p members ''acquired-at'' ''acquired-at'') (\<lambda>(acquired_root, _).
     rbind (own_all p members ''predecessor'') (\<lambda>predecessors.
     rbind (own_all p members ''evidence'') (\<lambda>evidence.
     rbind (own_all p members ''transition'') (\<lambda>transitions.
     if 1 < length predecessors then Inl (InvalidCell ''ownership has multiple predecessors'')
     else if evidence = [] then Inl (InvalidCell ''ownership has no acquisition evidence'')
     else if state_root \<notin> snd ` set (op_states p) then Inl (InvalidCell ''ownership state is not admitted'')
     else
       rbind (cell_number m parse_int generation_root ''ownership generation or time is invalid'') (\<lambda>generation.
       rbind (cell_number m parse acquired_root ''ownership generation or time is invalid'') (\<lambda>acquired_at.
       if generation \<le> 0 \<or> float_le acquired_at (Finite 0)
       then Inl (InvalidCell ''ownership generation or time is invalid'')
       else if \<exists>r \<in> set (evidence @ transitions). m r = None
       then Inl (InvalidCell ''ownership evidence or transition is missing'')
       else
         rbind (rmap (read_ownership_transition parse m p) transitions) (\<lambda>projections.
         rbind (own_state p ''active'') (\<lambda>active.
         rbind (admitted_pairs p) (\<lambda>admitted.
         rbind (replay_transitions admitted active acquired_at projections) (\<lambda>current.
         if current \<noteq> state_root then Inl (InvalidCell ''ownership state lacks transition history'')
         else Inr \<lparr>ow_root = root, ow_resource = resource_root, ow_holder = holder_root, ow_generation = generation,
                ow_generation_root = generation_root, ow_state = state_root, ow_state_incidence = state_incidence,
                ow_acquired_root = acquired_root,
                ow_predecessor = (case predecessors of [] \<Rightarrow> None | x # _ \<Rightarrow> Some x),
                ow_evidence = evidence, ow_transitions = transitions\<rparr>))))))))))))))))"

definition list_ownerships ::
  "(bytes \<Rightarrow> py_float option) \<Rightarrow> cells \<Rightarrow> ownership_protocol \<Rightarrow> ownership list result" where
  "list_ownerships parse m p =
     rbind (read_relation m (op_root p) 100000) (\<lambda>members.
     rbind (own_all p members ''ownership-member'') (\<lambda>roots.
     if \<not> distinct roots then Inl (InvalidCell ''ownership registry contains a duplicate'')
     else rmap (read_ownership parse m p) roots))"

section \<open>The authority\<close>

text \<open>\<open>by_resource.setdefault(resource, []).append(ownership)\<close>.\<close>

fun put_group :: "string \<Rightarrow> 'a \<Rightarrow> (string \<times> 'a list) list \<Rightarrow> (string \<times> 'a list) list" where
  "put_group k x [] = [(k, [x])]"
| "put_group k x ((k', xs) # gs) = (if k' = k then (k', xs @ [x]) # gs else (k', xs) # put_group k x gs)"

definition by_resource :: "ownership list \<Rightarrow> (string \<times> ownership list) list" where
  "by_resource os = fold (\<lambda>o'. put_group (ow_resource o') o') os []"

text \<open>The predecessor each ownership must name: the one before it in the order.\<close>

fun chained :: "string option \<Rightarrow> ownership list \<Rightarrow> bool" where
  "chained expected [] \<longleftrightarrow> True"
| "chained expected (o' # os) \<longleftrightarrow> ow_predecessor o' = expected \<and> chained (Some (ow_root o')) os"

definition check_group :: "string set \<Rightarrow> ownership list \<Rightarrow> unit result" where
  "check_group live os =
     (let ordered = sort_key ow_generation os in
      if map ow_generation ordered \<noteq> map int [1..<Suc (length ordered)]
      then Inl (InvalidCell ''ownership generations are not contiguous'')
      else if 1 < length (filter (\<lambda>o'. ow_state o' \<in> live) ordered)
      then Inl (InvalidCell ''resource has multiple live owners'')
      else require (chained None ordered) (InvalidCell ''ownership predecessor chain drifted''))"

definition live_states :: "ownership_protocol \<Rightarrow> string set result" where
  "live_states p = rbind (own_state p ''active'') (\<lambda>a. rbind (own_state p ''draining'') (\<lambda>d. Inr {a, d}))"

text \<open>
  The last check of the loop, that the last ownership of a group has the resource of the group,
  cannot fail: a group holds ownerships of its own resource only.
\<close>

definition verify_ownership_authority ::
  "(bytes \<Rightarrow> py_float option) \<Rightarrow> cells \<Rightarrow> ownership_protocol \<Rightarrow> ownership list result" where
  "verify_ownership_authority parse m p =
     rbind (list_ownerships parse m p) (\<lambda>os.
     rbind (live_states p) (\<lambda>live.
     rbind (rmap (\<lambda>(r, g).
         rbind (check_group live g) (\<lambda>_.
         require (g = [] \<or> ow_resource (last (sort_key ow_generation g)) = r) (InvalidCell ''ownership resource drifted'')))
       (by_resource os)) (\<lambda>_.
     Inr os)))"

section \<open>Acquiring and moving on\<close>

definition acquire_cells ::
  "(bytes \<Rightarrow> py_float option) \<Rightarrow> (py_float \<Rightarrow> bytes) \<Rightarrow> cells \<Rightarrow> ownership_protocol \<Rightarrow> string \<Rightarrow> string \<Rightarrow> string \<Rightarrow> py_float \<Rightarrow>
     string \<Rightarrow> (nat \<Rightarrow> string) \<Rightarrow> relation_patch result" where
  "acquire_cells parse render m p resource_root holder_root evidence_root acquired_at root draw =
     rbind (own_state p ''active'') (\<lambda>active.
     if \<exists>r \<in> {op_root p, resource_root, holder_root, evidence_root, active}. m r = None
     then Inl (InvalidCell ''ownership acquisition root is missing'')
     else rbind (verify_ownership_authority parse m p) (\<lambda>os.
       let existing = filter (\<lambda>o'. ow_resource o' = resource_root) os in
       rbind (live_states p) (\<lambda>live.
       if \<exists>o' \<in> set existing. ow_state o' \<in> live then Inl (InvalidCell ''resource already has a live owner'')
       else if m root \<noteq> None then Inl (InvalidCell ''ownership identity already exists'')
       else
         rbind (own_pairs p ([(''resource'', resource_root), (''holder'', holder_root), (''generation'', root @ '':generation''),
             (''state'', active), (''acquired-at'', root @ '':acquired-at''), (''evidence'', evidence_root)] @
             (if existing = [] then [] else [(''predecessor'', ow_root (last existing))]))) (\<lambda>pairs.
         rbind (own_pairs p [(''ownership-member'', root)]) (\<lambda>appended.
         rbind (prepare_append_relation_members m (op_root p) appended 100000 draw) (\<lambda>patch.
         Inr (Patch []
           (own_terminal (root @ '':generation'') (show_nat (length existing + 1)) #
            own_terminal (root @ '':acquired-at'') (render acquired_at) #
            rc_cells (compose_relation_cells pairs (Some root) []) @ rp_create patch)
           (rp_replace patch))))))))"

definition acquire_ownership ::
  "commit_env \<Rightarrow> (bytes \<Rightarrow> py_float option) \<Rightarrow> (py_float \<Rightarrow> bytes) \<Rightarrow> ownership_protocol \<Rightarrow> string \<Rightarrow> string \<Rightarrow> string \<Rightarrow>
     py_float \<Rightarrow> string option \<Rightarrow> string \<Rightarrow> (nat \<Rightarrow> string) \<Rightarrow> ctx \<times> store \<Rightarrow> (ctx \<times> store) \<times> (ownership \<times> nat) result" where
  "acquire_ownership env parse render p resource_root holder_root evidence_root acquired_at ownership_root u draw cs =
     (let root = (case ownership_root of None \<Rightarrow> ''ownership:'' @ u | Some r \<Rightarrow> if r = [] then ''ownership:'' @ u else r) in
      case rbind (store_snapshot (snd cs)) (\<lambda>sn.
        rbind (acquire_cells parse render (snap_cells sn) p resource_root holder_root evidence_root acquired_at root draw)
          (\<lambda>patch. Inr (sn, patch))) of
        Inl e \<Rightarrow> (cs, Inl e)
      | Inr (sn, patch) \<Rightarrow>
          (case commit env (snap_revision sn) (rp_create patch) (rp_replace patch) cs of
             (cs', res) \<Rightarrow> (cs', rbind res (\<lambda>r.
               rbind (store_snapshot (snd cs')) (\<lambda>sn.
               rbind (read_ownership parse (snap_cells sn) p root) (\<lambda>o'. Inr (o', r)))))))"

definition ownership_events :: "(string \<times> string \<times> string) list" where
  "ownership_events = [(''drain'', ''active'', ''draining''), (''release'', ''draining'', ''released''),
     (''fail-active'', ''active'', ''failed''), (''fail-draining'', ''draining'', ''failed'')]"

definition transition_cells ::
  "(bytes \<Rightarrow> py_float option) \<Rightarrow> (py_float \<Rightarrow> bytes) \<Rightarrow> cells \<Rightarrow> ownership_protocol \<Rightarrow> string \<Rightarrow> string \<Rightarrow> string \<Rightarrow> string \<Rightarrow>
     py_float \<Rightarrow> string \<Rightarrow> (nat \<Rightarrow> string) \<Rightarrow> relation_patch result" where
  "transition_cells parse render m p root source_name target_name evidence_root transitioned_at u draw =
     (if m evidence_root = None then Inl (InvalidCell ''ownership transition evidence is missing'')
      else
        rbind (read_ownership parse m p root) (\<lambda>current.
        rbind (own_state p source_name) (\<lambda>source_root.
        rbind (own_state p target_name) (\<lambda>target_root.
        if ow_state current \<noteq> source_root then Inl (InvalidCell ''ownership transition source state is invalid'')
        else
          let event_root = root @ '':transition:'' @ u in
          rbind (own_pairs p [(''from-state'', source_root), (''to-state'', target_root), (''at'', event_root @ '':at''),
              (''evidence'', evidence_root)]) (\<lambda>pairs.
          rbind (own_pairs p [(''transition'', event_root)]) (\<lambda>appended.
          rbind (prepare_append_relation_members m root appended 100000 draw) (\<lambda>patch.
          rbind (cell_of m (ow_state_incidence current)) (\<lambda>inc.
          Inr (Patch []
            (own_terminal (event_root @ '':at'') (render transitioned_at) #
             rc_cells (compose_relation_cells pairs (Some event_root) []) @ rp_create patch)
            (Cell (cid inc) (link0 inc) target_root (atom inc) # rp_replace patch))))))))))"

definition transition_ownership ::
  "commit_env \<Rightarrow> (bytes \<Rightarrow> py_float option) \<Rightarrow> (py_float \<Rightarrow> bytes) \<Rightarrow> ownership_protocol \<Rightarrow> string \<Rightarrow> string \<Rightarrow> string \<Rightarrow>
     py_float \<Rightarrow> string \<Rightarrow> (nat \<Rightarrow> string) \<Rightarrow> ctx \<times> store \<Rightarrow> (ctx \<times> store) \<times> (ownership \<times> nat) result" where
  "transition_ownership env parse render p root event evidence_root transitioned_at u draw cs =
     (case map_of ownership_events event of
        None \<Rightarrow> (cs, Inl (InvalidCell ''ownership transition event is not admitted''))
      | Some (source_name, target_name) \<Rightarrow>
          (case rbind (store_snapshot (snd cs)) (\<lambda>sn.
             rbind (transition_cells parse render (snap_cells sn) p root source_name target_name evidence_root
               transitioned_at u draw) (\<lambda>patch. Inr (sn, patch))) of
             Inl e \<Rightarrow> (cs, Inl e)
           | Inr (sn, patch) \<Rightarrow>
               (case commit env (snap_revision sn) (rp_create patch) (rp_replace patch) cs of
                  (cs', res) \<Rightarrow> (cs', rbind res (\<lambda>r.
                    rbind (store_snapshot (snd cs')) (\<lambda>sn.
                    rbind (read_ownership parse (snap_cells sn) p root) (\<lambda>o'. Inr (o', r))))))))"

end
