(* ===== verification/OwnershipLaws.thy ===== *)
theory OwnershipLaws
  imports Ownership RelationFrames
begin

text \<open>
  What acquiring an ownership and moving it on do to the registry they were prepared on: the abstract
  ledger of claims, the invariant \<open>owned_at\<close> that relates a graph to it, and one lemma per operation.
\<close>

section \<open>The ledger\<close>

text \<open>A claim: an ownership generation, without the graph it is written in.\<close>

record claim =
  cl_root :: string
  cl_resource :: string
  cl_holder :: string
  cl_generation :: nat
  cl_state :: string
  cl_predecessor :: "string option"

definition live_claim :: "claim \<Rightarrow> bool" where
  "live_claim c \<longleftrightarrow> cl_state c \<in> {''active'', ''draining''}"

definition claims_on :: "string \<Rightarrow> claim list \<Rightarrow> claim list" where
  "claims_on r cs = filter (\<lambda>c. cl_resource c = r) cs"

definition claim_acquire :: "string \<Rightarrow> string \<Rightarrow> string \<Rightarrow> claim list \<Rightarrow> claim list option" where
  "claim_acquire root resource holder cs =
     (let mine = claims_on resource cs in
      if root \<in> cl_root ` set cs \<or> (\<exists>c \<in> set mine. live_claim c) then None
      else Some (cs @ [\<lparr>cl_root = root, cl_resource = resource, cl_holder = holder, cl_generation = Suc (length mine),
             cl_state = ''active'', cl_predecessor = (if mine = [] then None else Some (cl_root (last mine)))\<rparr>]))"

definition claim_move :: "string \<Rightarrow> string \<Rightarrow> string \<Rightarrow> claim list \<Rightarrow> claim list option" where
  "claim_move root from_name to_name cs =
     (if \<exists>c \<in> set cs. cl_root c = root \<and> cl_state c = from_name
      then Some (map (\<lambda>c. if cl_root c = root then c\<lparr>cl_state := to_name\<rparr> else c) cs)
      else None)"

fun claim_chain :: "string option \<Rightarrow> claim list \<Rightarrow> bool" where
  "claim_chain expected [] \<longleftrightarrow> True"
| "claim_chain expected (c # cs) \<longleftrightarrow> cl_predecessor c = expected \<and> claim_chain (Some (cl_root c)) cs"

text \<open>Per resource: generations from 1, each naming the one before, and only the last may be live.\<close>

definition claims_ok :: "claim list \<Rightarrow> bool" where
  "claims_ok cs \<longleftrightarrow> distinct (map cl_root cs) \<and>
     (\<forall>r. map cl_generation (claims_on r cs) = [1..<Suc (length (claims_on r cs))] \<and>
        claim_chain None (claims_on r cs) \<and> (\<forall>c \<in> set (butlast (claims_on r cs)). \<not> live_claim c))"

lemma claims_ok_Nil [simp]: "claims_ok []"
  by (simp add: claims_ok_def claims_on_def)

lemma claim_chain_append:
  "claim_chain e (cs @ [c]) \<longleftrightarrow> claim_chain e cs \<and> cl_predecessor c = (if cs = [] then e else Some (cl_root (last cs)))"
  by (induction cs arbitrary: e) auto

lemma claim_acquire_ok:
  assumes "claims_ok cs" "claim_acquire root resource holder cs = Some cs'"
  shows "claims_ok cs'"
proof -
  let ?mine = "claims_on resource cs"
  let ?c = "\<lparr>cl_root = root, cl_resource = resource, cl_holder = holder, cl_generation = Suc (length ?mine),
    cl_state = ''active'', cl_predecessor = (if ?mine = [] then None else Some (cl_root (last ?mine)))\<rparr>"
  from assms(2) have new: "root \<notin> cl_root ` set cs" "\<forall>c \<in> set ?mine. \<not> live_claim c" and cs': "cs' = cs @ [?c]"
    by (auto simp: claim_acquire_def Let_def split: if_splits)
  have on: "claims_on r cs' = (if r = resource then ?mine @ [?c] else claims_on r cs)" for r
    by (simp add: cs' claims_on_def)
  have old: "map cl_generation (claims_on r cs) = [1..<Suc (length (claims_on r cs))]" "claim_chain None (claims_on r cs)"
    "\<forall>c \<in> set (butlast (claims_on r cs)). \<not> live_claim c" for r
    using assms(1) by (simp_all add: claims_ok_def)
  have "distinct (map cl_root cs')" using assms(1) new(1) by (simp add: claims_ok_def cs')
  moreover have "map cl_generation (claims_on r cs') = [1..<Suc (length (claims_on r cs'))]" for r
    using old(1) [of r] by (cases "r = resource") (simp_all add: on)
  moreover have "claim_chain None (claims_on r cs')" for r
    using old(2) [of r] by (cases "r = resource") (simp_all add: on claim_chain_append)
  moreover have "\<forall>c \<in> set (butlast (claims_on r cs')). \<not> live_claim c" for r
    using old(3) [of r] new(2) by (cases "r = resource") (simp_all add: on)
  ultimately show ?thesis by (simp add: claims_ok_def)
qed

lemma claim_chain_states:
  "claim_chain e (map (\<lambda>c. if cl_root c = root then c\<lparr>cl_state := s\<rparr> else c) cs) \<longleftrightarrow> claim_chain e cs"
  by (induction cs arbitrary: e) auto

lemma claims_on_states:
  "claims_on r (map (\<lambda>c. if cl_root c = root then c\<lparr>cl_state := s\<rparr> else c) cs) =
     map (\<lambda>c. if cl_root c = root then c\<lparr>cl_state := s\<rparr> else c) (claims_on r cs)"
  unfolding claims_on_def by (induction cs) auto

lemma claim_move_ok:
  assumes ok: "claims_ok cs" and move: "claim_move root from_name to_name cs = Some cs'"
    and live: "from_name \<in> {''active'', ''draining''}"
  shows "claims_ok cs'"
proof -
  let ?f = "\<lambda>c. if cl_root c = root then c\<lparr>cl_state := to_name\<rparr> else c"
  from move obtain c0 where c0: "c0 \<in> set cs" "cl_root c0 = root" "cl_state c0 = from_name" and cs': "cs' = map ?f cs"
    by (auto simp: claim_move_def split: if_splits)
  have on: "claims_on r cs' = map ?f (claims_on r cs)" for r
    unfolding cs' by (rule claims_on_states)
  have roots: "map cl_root cs' = map cl_root cs" unfolding cs' by (simp add: comp_def)
  have d: "distinct (map cl_root cs)" using ok by (simp add: claims_ok_def)
  have only: "c = c0" if "c \<in> set cs" "cl_root c = root" for c
    using d that c0 by (metis distinct_map inj_onD)
  have old: "map cl_generation (claims_on r cs) = [1..<Suc (length (claims_on r cs))]" "claim_chain None (claims_on r cs)"
    "\<forall>c \<in> set (butlast (claims_on r cs)). \<not> live_claim c" for r
    using ok by (simp_all add: claims_ok_def)
  have gen: "map cl_generation (claims_on r cs') = [1..<Suc (length (claims_on r cs'))]" for r
  proof -
    have "map cl_generation (map ?f (claims_on r cs)) = map cl_generation (claims_on r cs)" by simp
    then show ?thesis using old(1) [of r] unfolding on by simp
  qed
  have dead: "\<not> live_claim c" if c: "c \<in> set (butlast (claims_on r cs'))" for r c
  proof -
    from c obtain b where b: "b \<in> set (butlast (claims_on r cs))" "c = ?f b" unfolding on map_butlast [symmetric] by auto
    have "\<not> live_claim b" using old(3) b(1) by blast
    moreover have "b \<in> set cs" using in_set_butlastD [OF b(1)] by (simp add: claims_on_def)
    ultimately have "cl_root b \<noteq> root" using only c0(3) live by (auto simp: live_claim_def)
    with b(2) \<open>\<not> live_claim b\<close> show ?thesis by simp
  qed
  show ?thesis
    unfolding claims_ok_def using d roots gen dead old(2) by (simp add: on claim_chain_states)
qed

section \<open>Numbers\<close>

text \<open>What \<open>str\<close> writes for a generation, \<open>int\<close> reads back, up to the limit on its digits.\<close>

lemma is_digit_of_digit: "d < 10 \<Longrightarrow> is_digit (char_of (48 + d)) \<and> (of_char (char_of (48 + d) :: char) :: nat) - 48 = d"
  by (simp add: is_digit_def)

lemma show_nat_digits: "c \<in> set (show_nat n) \<Longrightarrow> is_digit c"
proof (induction n rule: show_nat.induct)
  case (1 n)
  then show ?case by (subst (asm) (2) show_nat.simps) (auto simp: is_digit_of_digit split: if_splits)
qed

definition digits_value :: "string \<Rightarrow> nat \<Rightarrow> nat" where
  "digits_value ds v = fold (\<lambda>c v. 10 * v + (of_char c - 48)) ds v"

lemma digits_value_show [simp]: "digits_value (show_nat n) 0 = n"
proof (induction n rule: show_nat.induct)
  case (1 n)
  show ?case
  proof (cases "n < 10")
    case True
    with is_digit_of_digit [of n] show ?thesis by (simp add: show_nat.simps [of n] digits_value_def)
  next
    case False
    with 1 is_digit_of_digit [of "n mod 10"] show ?thesis by (simp add: show_nat.simps [of n] digits_value_def)
  qed
qed

lemma scan_digits_digits:
  "\<forall>c \<in> set ds. is_digit c \<Longrightarrow> scan_digits seen v n ds =
     (if ds = [] \<and> \<not> seen then None else Some (digits_value ds v, n + length ds))"
  by (induction ds arbitrary: seen v n) (auto simp: digits_value_def)

lemma digit_facts: "is_digit c \<Longrightarrow> \<not> is_space c \<and> c \<noteq> CHR ''-'' \<and> c \<noteq> CHR ''+'' \<and> \<not> 128 \<le> (of_char c :: nat)"
  by (auto simp: is_digit_def is_space_def)

lemma strip_spaces_digits: "\<forall>c \<in> set ds. is_digit c \<Longrightarrow> strip_spaces ds = ds"
proof -
  assume d: "\<forall>c \<in> set ds. is_digit c"
  have "dropWhile is_space xs = xs" if "\<forall>c \<in> set xs. is_digit c" for xs
    using that digit_facts by (cases xs) auto
  then show ?thesis using d by (simp add: strip_spaces_def)
qed

lemma parse_show_nat:
  "parse_int (show_nat n) = (if MAX_STR_DIGITS < length (show_nat n) then None else Some (int n))"
proof -
  have d: "\<forall>c \<in> set (show_nat n). is_digit c" using show_nat_digits by blast
  obtain c cs where c: "show_nat n = c # cs" by (cases "show_nat n") simp_all
  then have "is_digit c" using d by simp
  note digit_facts [OF this]
  then have sign: "(case show_nat n of CHR ''-'' # ds \<Rightarrow> (-1, ds) | CHR ''+'' # ds \<Rightarrow> (1, ds) | _ \<Rightarrow> (1 :: int, show_nat n)) = (1, show_nat n)"
    unfolding c by (auto split: list.splits char.splits bool.splits)
  have "\<not> (\<exists>c \<in> set (show_nat n). 128 \<le> (of_char c :: nat))" using d digit_facts by blast
  then show ?thesis
    unfolding parse_int_def strip_spaces_digits [OF d] Let_def sign by (simp add: scan_digits_digits [OF d])
qed

section \<open>The authority of a ledger\<close>

definition ostate :: "string \<Rightarrow> string \<Rightarrow> string" where
  "ostate prefix name = prefix @ '':state:'' @ name"

lemma ostate_inj [simp]: "ostate pre n = ostate pre n' \<longleftrightarrow> n = n'"
  by (simp add: ostate_def)

lemma own_state_at: "n \<in> set OWNERSHIP_STATE_NAMES \<Longrightarrow> own_state (own_protocol_at pre) n = Inr (ostate pre n)"
  by (simp add: own_state_def own_protocol_at_def map_of_names ostate_def)

lemma own_states [simp]:
  "own_state (own_protocol_at pre) ''active'' = Inr (ostate pre ''active'')"
  "own_state (own_protocol_at pre) ''draining'' = Inr (ostate pre ''draining'')"
  "own_state (own_protocol_at pre) ''released'' = Inr (ostate pre ''released'')"
  "own_state (own_protocol_at pre) ''failed'' = Inr (ostate pre ''failed'')"
  by (rule own_state_at, simp add: OWNERSHIP_STATE_NAMES_def)+

lemma live_states_at [simp]:
  "live_states (own_protocol_at pre) = Inr {ostate pre ''active'', ostate pre ''draining''}"
  by (simp add: live_states_def)

definition shows_claim :: "string \<Rightarrow> ownership \<Rightarrow> claim \<Rightarrow> bool" where
  "shows_claim pre x c \<longleftrightarrow>
     ow_root x = cl_root c \<and> ow_resource x = cl_resource c \<and> ow_holder x = cl_holder c \<and>
     ow_generation x = int (cl_generation c) \<and> ow_state x = ostate pre (cl_state c) \<and> ow_predecessor x = cl_predecessor c"

definition live_at :: "string \<Rightarrow> ownership \<Rightarrow> bool" where
  "live_at pre x \<longleftrightarrow> ow_state x \<in> {ostate pre ''active'', ostate pre ''draining''}"

lemma live_shows: "shows_claim pre x c \<Longrightarrow> live_at pre x \<longleftrightarrow> live_claim c"
  by (auto simp: shows_claim_def live_at_def live_claim_def)

text \<open>Grouping by resource selects.\<close>

lemma put_group_keys: "fst ` set (put_group k x gs) = insert k (fst ` set gs)"
  by (induction k x gs rule: put_group.induct) auto

lemma put_group_set:
  assumes "distinct (map fst gs)"
  shows "(r, g) \<in> set (put_group k x gs) \<longleftrightarrow>
    (if r = k then g = (case map_of gs k of None \<Rightarrow> [x] | Some xs \<Rightarrow> xs @ [x]) else (r, g) \<in> set gs)"
  using assms
proof (induction k x gs rule: put_group.induct)
  case (2 k x k' xs gs)
  show ?case
  proof (cases "k' = k")
    case True
    with 2 show ?thesis by (auto dest: weak_map_of_SomeI simp: image_iff)
  next
    case False
    with 2 show ?thesis by auto
  qed
qed auto

lemma put_group_distinct: "distinct (map fst gs) \<Longrightarrow> distinct (map fst (put_group k x gs))"
proof (induction k x gs rule: put_group.induct)
  case (2 k x k' xs gs)
  then show ?case using put_group_keys [of k x gs] by auto
qed simp

lemma by_resource_groups:
  "distinct (map fst (by_resource os)) \<and> fst ` set (by_resource os) = ow_resource ` set os \<and>
   (\<forall>(r, g) \<in> set (by_resource os). g = filter (\<lambda>x. ow_resource x = r) os)"
proof (induction os rule: rev_induct)
  case (snoc x os)
  let ?G = "by_resource os"
  have step: "by_resource (os @ [x]) = put_group (ow_resource x) x ?G" by (simp add: by_resource_def)
  have d: "distinct (map fst ?G)" and keys: "fst ` set ?G = ow_resource ` set os"
    and groups: "\<And>r g. (r, g) \<in> set ?G \<Longrightarrow> g = filter (\<lambda>x. ow_resource x = r) os"
    using snoc by auto
  have "g = filter (\<lambda>y. ow_resource y = r) (os @ [x])" if "(r, g) \<in> set (put_group (ow_resource x) x ?G)" for r g
  proof (cases "r = ow_resource x")
    case False
    with that d groups show ?thesis by (simp add: put_group_set)
  next
    case True
    show ?thesis
    proof (cases "map_of ?G r")
      case None
      then have "r \<notin> ow_resource ` set os" using keys by (simp add: map_of_eq_None_iff)
      then have "filter (\<lambda>y. ow_resource y = r) os = []" by (auto simp: filter_empty_conv)
      with that True None d show ?thesis by (simp add: put_group_set)
    next
      case (Some xs)
      then have "xs = filter (\<lambda>y. ow_resource y = r) os" using groups map_of_SomeD by metis
      with that True Some d show ?thesis by (simp add: put_group_set)
    qed
  qed
  with put_group_distinct [OF d] put_group_keys [of "ow_resource x" x ?G] keys show ?case
    unfolding step by auto
qed (simp add: by_resource_def)

lemma shows_filter:
  assumes "list_all2 (shows_claim pre) os cs"
  shows "list_all2 (shows_claim pre) (filter (\<lambda>x. ow_resource x = r) os) (claims_on r cs)"
  using assms by (induction rule: list_all2_induct) (auto simp: claims_on_def shows_claim_def)

lemma shows_chain:
  assumes "list_all2 (shows_claim pre) os cs"
  shows "chained e os \<longleftrightarrow> claim_chain e cs"
  using assms by (induction arbitrary: e rule: list_all2_induct) (auto simp: shows_claim_def)

lemma one_live:
  assumes "list_all2 (shows_claim pre) os cs" "\<forall>c \<in> set (butlast cs). \<not> live_claim c"
  shows "length (filter (live_at pre) os) \<le> 1"
proof (cases os rule: rev_cases)
  case (snoc xs x)
  with assms(1) obtain ds d where cs: "cs = ds @ [d]" "list_all2 (shows_claim pre) xs ds"
    by (auto simp: list_all2_append1 list_all2_Cons1)
  with assms(2) have "\<forall>c \<in> set ds. \<not> live_claim c" by simp
  with cs(2) have "filter (live_at pre) xs = []"
    by (induction rule: list_all2_induct) (auto simp: live_shows)
  with snoc show ?thesis by simp
qed simp

lemma group_checks:
  assumes "list_all2 (shows_claim pre) os cs" "claims_ok cs" and g_def: "g = filter (\<lambda>x. ow_resource x = r) os"
  shows "check_group {ostate pre ''active'', ostate pre ''draining''} g = Inr ()" "sort_key ow_generation g = g"
    "length (filter (live_at pre) g) \<le> 1"
proof -
  have g: "list_all2 (shows_claim pre) g (claims_on r cs)" unfolding g_def using assms(1) by (rule shows_filter)
  have ok: "map cl_generation (claims_on r cs) = [1..<Suc (length (claims_on r cs))]" "claim_chain None (claims_on r cs)"
    "\<forall>c \<in> set (butlast (claims_on r cs)). \<not> live_claim c"
    using assms(2) by (simp_all add: claims_ok_def)
  have "map ow_generation g = map int (map cl_generation (claims_on r cs))"
    using g by (induction rule: list_all2_induct) (auto simp: shows_claim_def)
  then have gen: "map ow_generation g = map int [1..<Suc (length g)]"
    using ok(1) list_all2_lengthD [OF g] by simp
  have "sorted (map ow_generation g)" unfolding gen by (simp add: sorted_map sorted_wrt_upt del: upt_Suc)
  then show sort: "sort_key ow_generation g = g" by (rule sort_key_id_if_sorted)
  show live: "length (filter (live_at pre) g) \<le> 1" using one_live [OF g ok(3)] .
  then have "\<not> 1 < length (filter (\<lambda>x. ow_state x \<in> {ostate pre ''active'', ostate pre ''draining''}) g)"
    by (simp add: live_at_def [abs_def])
  moreover have "chained None g" using shows_chain [OF g] ok(2) by simp
  ultimately show "check_group {ostate pre ''active'', ostate pre ''draining''} g = Inr ()"
    unfolding check_group_def sort Let_def using gen by simp
qed

lemma verified:
  assumes "list_ownerships parse m (own_protocol_at pre) = Inr os"
    and "list_all2 (shows_claim pre) os cs" "claims_ok cs"
  shows "verify_ownership_authority parse m (own_protocol_at pre) = Inr os"
    "length (filter (\<lambda>x. ow_resource x = r \<and> live_at pre x) os) \<le> 1"
proof -
  let ?live = "{ostate pre ''active'', ostate pre ''draining''}"
  let ?check = "\<lambda>(r, g). rbind (check_group ?live g) (\<lambda>_. require (g = [] \<or> ow_resource (last (sort_key ow_generation g)) = r)
    (InvalidCell ''ownership resource drifted''))"
  have "?check y = Inr ()" if "y \<in> set (by_resource os)" for y
  proof -
    obtain r g where y: "y = (r, g)" by (cases y)
    with that have g: "g = filter (\<lambda>x. ow_resource x = r) os" using by_resource_groups [of os] by auto
    have "g = [] \<or> ow_resource (last g) = r"
    proof (cases "g = []")
      case False
      then have "last g \<in> set g" by simp
      then show ?thesis unfolding g by simp
    qed simp
    with group_checks(1,2) [OF assms(2,3) refl, of r] show ?thesis unfolding y g by simp
  qed
  then have "rmap ?check (by_resource os) = Inr (map (\<lambda>_. ()) (by_resource os))" by (intro rmap_pure)
  with assms(1) show "verify_ownership_authority parse m (own_protocol_at pre) = Inr os"
    by (simp add: verify_ownership_authority_def)
  show "length (filter (\<lambda>x. ow_resource x = r \<and> live_at pre x) os) \<le> 1"
    using group_checks(3) [OF assms(2,3) refl, of r] unfolding filter_filter .
qed

end
