(* ===== verification/OwnershipRun.thy ===== *)
theory OwnershipRun
  imports OwnershipLaws RelationProps
begin

text \<open>
  The registry of ownerships in a reachable store: what the readers read, the invariant
  \<open>registry_at\<close>, and what bootstrapping, acquiring and moving on do to it.
\<close>

section \<open>Roles of the protocol\<close>

lemma own_role_at: "n \<in> set OWNERSHIP_ROLE_NAMES \<Longrightarrow> own_role (own_protocol_at pre) n = Inr (mrole pre n)"
  by (simp add: own_role_def own_protocol_at_def map_of_names mrole_def)

lemma own_roles [simp]:
  "own_role (own_protocol_at pre) ''vocabulary-member'' = Inr (mrole pre ''vocabulary-member'')"
  "own_role (own_protocol_at pre) ''ownership-member'' = Inr (mrole pre ''ownership-member'')"
  "own_role (own_protocol_at pre) ''resource'' = Inr (mrole pre ''resource'')"
  "own_role (own_protocol_at pre) ''holder'' = Inr (mrole pre ''holder'')"
  "own_role (own_protocol_at pre) ''generation'' = Inr (mrole pre ''generation'')"
  "own_role (own_protocol_at pre) ''state'' = Inr (mrole pre ''state'')"
  "own_role (own_protocol_at pre) ''acquired-at'' = Inr (mrole pre ''acquired-at'')"
  "own_role (own_protocol_at pre) ''predecessor'' = Inr (mrole pre ''predecessor'')"
  "own_role (own_protocol_at pre) ''evidence'' = Inr (mrole pre ''evidence'')"
  "own_role (own_protocol_at pre) ''transition'' = Inr (mrole pre ''transition'')"
  "own_role (own_protocol_at pre) ''from-state'' = Inr (mrole pre ''from-state'')"
  "own_role (own_protocol_at pre) ''to-state'' = Inr (mrole pre ''to-state'')"
  "own_role (own_protocol_at pre) ''at'' = Inr (mrole pre ''at'')"
  by (rule own_role_at, simp add: OWNERSHIP_ROLE_NAMES_def)+

lemma own_pairs_at:
  assumes "fst ` set pairs \<subseteq> set OWNERSHIP_ROLE_NAMES"
  shows "own_pairs (own_protocol_at pre) pairs = Inr (named pre pairs)"
  unfolding own_pairs_def named_def
proof (rule rmap_pure)
  fix y assume "y \<in> set pairs"
  then have "fst y \<in> set OWNERSHIP_ROLE_NAMES" using assms by blast
  then show "(\<lambda>(n, x). rbind (own_role (own_protocol_at pre) n) (\<lambda>r. Inr (r, x))) y = Inr ((\<lambda>(n, x). (mrole pre n, x)) y)"
    by (simp add: own_role_at split_def)
qed

lemma one_member_Inr [simp]:
  "one_member ms r l = Inr (x, i) \<longleftrightarrow> (\<exists>y. filter (\<lambda>x. role_id x = r) ms = [y] \<and> x = participant_id y \<and> i = incidence_id y)"
  by (auto simp: one_member_def split: list.splits)

lemma participants_single: "participants r ms = [x] \<longleftrightarrow> (\<exists>y. filter (\<lambda>x. role_id x = r) ms = [y] \<and> x = participant_id y)"
  by (auto simp: participants_def map_eq_Cons_conv)

lemma cell_number_Inr: "cell_number m parse k msg = Inr v \<longleftrightarrow> (\<exists>c. m k = Some c \<and> parse (atom c) = Some v)"
  by (auto simp: cell_number_def split: option.splits)

section \<open>What the readers read\<close>

definition own_members :: "string \<Rightarrow> string \<Rightarrow> relation_member list \<Rightarrow> ownership \<Rightarrow> bool" where
  "own_members pre root ms x \<longleftrightarrow> ow_root x = root \<and>
     participants (mrole pre ''resource'') ms = [ow_resource x] \<and> participants (mrole pre ''holder'') ms = [ow_holder x] \<and>
     participants (mrole pre ''generation'') ms = [ow_generation_root x] \<and>
     (\<exists>y. filter (\<lambda>x. role_id x = mrole pre ''state'') ms = [y] \<and> ow_state x = participant_id y \<and>
        ow_state_incidence x = incidence_id y) \<and>
     participants (mrole pre ''acquired-at'') ms = [ow_acquired_root x] \<and>
     participants (mrole pre ''predecessor'') ms = (case ow_predecessor x of None \<Rightarrow> [] | Some k \<Rightarrow> [k]) \<and>
     participants (mrole pre ''evidence'') ms = ow_evidence x \<and> participants (mrole pre ''transition'') ms = ow_transitions x"

definition own_values :: "(bytes \<Rightarrow> py_float option) \<Rightarrow> cells \<Rightarrow> string \<Rightarrow> ownership \<Rightarrow> bool" where
  "own_values parse m pre x \<longleftrightarrow>
     (\<exists>g. m (ow_generation_root x) = Some g \<and> parse_int (atom g) = Some (ow_generation x)) \<and> 0 < ow_generation x \<and>
     (\<forall>r \<in> set (ow_evidence x @ ow_transitions x). m r \<noteq> None) \<and>
     (\<exists>a t ts. m (ow_acquired_root x) = Some a \<and> parse (atom a) = Some t \<and> \<not> float_le t (Finite 0) \<and>
        rmap (read_ownership_transition parse m (own_protocol_at pre)) (ow_transitions x) = Inr ts \<and>
        replay_transitions {(ostate pre ''active'', ostate pre ''draining''), (ostate pre ''draining'', ostate pre ''released''),
          (ostate pre ''active'', ostate pre ''failed''), (ostate pre ''draining'', ostate pre ''failed'')}
          (ostate pre ''active'') t ts = Inr (ow_state x))"

lemma admitted_pairs_at [simp]:
  "admitted_pairs (own_protocol_at pre) = Inr {(ostate pre ''active'', ostate pre ''draining''),
     (ostate pre ''draining'', ostate pre ''released''), (ostate pre ''active'', ostate pre ''failed''),
     (ostate pre ''draining'', ostate pre ''failed'')}"
  by (simp add: admitted_pairs_def)

definition own_roots :: "string \<Rightarrow> string set" where
  "own_roots pre = mrole pre ` {''resource'', ''holder'', ''generation'', ''state'', ''acquired-at'', ''predecessor'',
     ''evidence'', ''transition''}"

lemma own_closed_at:
  "own_closed (own_protocol_at pre) ms [''resource'', ''holder'', ''generation'', ''state'', ''acquired-at'', ''predecessor'',
     ''evidence'', ''transition''] msg = Inr u \<longleftrightarrow> role_id ` set ms \<subseteq> own_roots pre"
  by (auto simp: own_closed_def own_roots_def image_subset_iff)

definition own_state_roots :: "string \<Rightarrow> string set" where
  "own_state_roots pre = ostate pre ` set OWNERSHIP_STATE_NAMES"

lemma own_state_roots_at: "snd ` set (op_states (own_protocol_at pre)) = own_state_roots pre"
  by (auto simp: own_protocol_at_def own_state_roots_def ostate_def image_image)

lemma at_most_one: "\<not> 1 < length xs \<Longrightarrow> xs = (case (case xs of [] \<Rightarrow> None | x # _ \<Rightarrow> Some x) of None \<Rightarrow> [] | Some k \<Rightarrow> [k])"
  by (cases xs) auto

lemma at_most_one_iff:
  "xs = (case p of None \<Rightarrow> [] | Some k \<Rightarrow> [k]) \<longleftrightarrow> \<not> 1 < length xs \<and> p = (case xs of [] \<Rightarrow> None | x # _ \<Rightarrow> Some x)"
  by (cases xs; cases p) (auto split: list.splits)

lemma read_ownership_Inr:
  "read_ownership parse m (own_protocol_at pre) root = Inr x \<longleftrightarrow>
     (\<exists>ms. read_relation m root 100000 = Inr ms \<and> role_id ` set ms \<subseteq> own_roots pre \<and> own_members pre root ms x \<and>
        ow_evidence x \<noteq> [] \<and> ow_state x \<in> own_state_roots pre \<and> own_values parse m pre x)"
proof (cases "read_relation m root 100000")
  case (Inr ms)
  then show ?thesis
    unfolding read_ownership_def own_members_def own_values_def at_most_one_iff participants_single
    apply (cases x)
    apply (simp add: rbind_Inr_iff own_closed_at own_one_def own_all_def cell_number_Inr own_state_roots_at split_def
      del: One_nat_def)
    apply (rule iffI)
    subgoal by (clarsimp split: if_splits simp del: One_nat_def)
    subgoal by (clarsimp split: if_splits simp del: One_nat_def) (rule exI, auto)
    done
qed (simp add: read_ownership_def)

section \<open>The registry in the graph\<close>

text \<open>
  An ownership made of a region \<open>F\<close> of its own and Cells of a set \<open>X\<close> that nobody writes again.
\<close>

definition kept :: "(bytes \<Rightarrow> py_float option) \<Rightarrow> cells \<Rightarrow> string \<Rightarrow> string set \<Rightarrow> string \<Rightarrow> bool" where
  "kept parse m pre X t \<longleftrightarrow> settled m X t \<and>
     (\<forall>u. read_ownership_transition parse m (own_protocol_at pre) t = Inr u \<longrightarrow> ot_at_root u \<in> X)"

definition owned_at ::
  "(bytes \<Rightarrow> py_float option) \<Rightarrow> cells \<Rightarrow> string \<Rightarrow> string set \<Rightarrow> string set \<Rightarrow> ownership \<Rightarrow> bool" where
  "owned_at parse m pre X F x \<longleftrightarrow>
     (\<exists>ms. spelled m (ow_root x) ms F \<and> read_relation m (ow_root x) 100000 = Inr ms) \<and>
     read_ownership parse m (own_protocol_at pre) (ow_root x) = Inr x \<and>
     ow_generation_root x \<in> X \<and> ow_acquired_root x \<in> X \<and> (\<forall>t \<in> set (ow_transitions x). kept parse m pre X t)"

lemma read_ownership_transition_Inr:
  "read_ownership_transition parse m (own_protocol_at pre) root = Inr t \<longleftrightarrow>
     (\<exists>ms. read_relation m root 64 = Inr ms \<and>
        role_id ` set ms \<subseteq> mrole pre ` {''from-state'', ''to-state'', ''at'', ''evidence''} \<and> ot_root t = root \<and>
        participants (mrole pre ''from-state'') ms = [ot_from t] \<and> participants (mrole pre ''to-state'') ms = [ot_to t] \<and>
        participants (mrole pre ''at'') ms = [ot_at_root t] \<and> participants (mrole pre ''evidence'') ms = [ot_evidence t] \<and>
        ot_from t \<in> own_state_roots pre \<and> ot_to t \<in> own_state_roots pre \<and>
        (\<exists>a. m (ot_at_root t) = Some a \<and> parse (atom a) = Some (ot_at t)) \<and> \<not> float_le (ot_at t) (Finite 0) \<and>
        m (ot_evidence t) \<noteq> None)"
proof (cases "read_relation m root 64")
  case (Inr ms)
  have "own_closed (own_protocol_at pre) ms [''from-state'', ''to-state'', ''at'', ''evidence''] msg = Inr u \<longleftrightarrow>
      role_id ` set ms \<subseteq> mrole pre ` {''from-state'', ''to-state'', ''at'', ''evidence''}" for msg u
    by (auto simp: own_closed_def image_subset_iff)
  with Inr show ?thesis
    unfolding read_ownership_transition_def participants_single
    apply (cases t)
    apply (simp add: rbind_Inr_iff own_one_def cell_number_Inr own_state_roots_at split_def)
    apply (rule iffI)
    subgoal by (clarsimp split: if_splits)
    subgoal by (clarsimp split: if_splits) (rule exI, auto)
    done
qed (simp add: read_ownership_transition_def)

lemma read_ownership_transition_frame:
  assumes "dom m \<subseteq> dom m'" "\<forall>k \<in> X. m' k = m k" "settled m X t" "read_ownership_transition parse m (own_protocol_at pre) t = Inr u"
    and "ot_at_root u \<in> X"
  shows "read_ownership_transition parse m' (own_protocol_at pre) t = Inr u"
proof -
  have "m' (ot_evidence u) \<noteq> None" if "m (ot_evidence u) \<noteq> None" using that assms(1) by (meson domIff subsetD)
  moreover have "m' (ot_at_root u) = m (ot_at_root u)" using assms(2,5) by blast
  ultimately show ?thesis
    using assms(4) unfolding read_ownership_transition_Inr settled_frame(2) [OF assms(3,1,2)] by (elim exE conjE) (rule exI, intro conjI; simp)
qed

lemma kept_frame:
  assumes "dom m \<subseteq> dom m'" "\<forall>k \<in> X. m' k = m k" "kept parse m pre X t" "read_ownership_transition parse m (own_protocol_at pre) t = Inr u"
  shows "kept parse m' pre X t"
proof -
  have "settled m X t" "ot_at_root u \<in> X" using assms(3,4) unfolding kept_def by blast+
  with read_ownership_transition_frame [OF assms(1,2) this(1) assms(4)] settled_frame(1) [OF _ assms(1,2)] show ?thesis
    unfolding kept_def by simp
qed

lemma kept_mono: "kept parse m pre X t \<Longrightarrow> X \<subseteq> Y \<Longrightarrow> kept parse m pre Y t"
  unfolding kept_def using settled_mono by blast

lemma owned_at_mono: "owned_at parse m pre X F x \<Longrightarrow> X \<subseteq> Y \<Longrightarrow> owned_at parse m pre Y F x"
  unfolding owned_at_def using kept_mono by blast

lemma owned_transitions:
  assumes "owned_at parse m pre X F x" "t \<in> set (ow_transitions x)"
  shows "kept parse m pre X t" "\<exists>u. read_ownership_transition parse m (own_protocol_at pre) t = Inr u"
proof -
  show "kept parse m pre X t" using assms unfolding owned_at_def by blast
  from assms(1) obtain ts where "rmap (read_ownership_transition parse m (own_protocol_at pre)) (ow_transitions x) = Inr ts"
    unfolding owned_at_def read_ownership_Inr own_values_def by blast
  from rmap_each [OF this assms(2)] show "\<exists>u. read_ownership_transition parse m (own_protocol_at pre) t = Inr u" by blast
qed

lemma own_values_frame:
  assumes dom: "dom m \<subseteq> dom m'" and same: "\<forall>k \<in> X. m' k = m k" and v: "own_values parse m pre x"
    and X: "ow_generation_root x \<in> X" "ow_acquired_root x \<in> X" "\<forall>t \<in> set (ow_transitions x). kept parse m pre X t"
  shows "own_values parse m' pre x"
proof -
  have here: "m' r \<noteq> None" if "m r \<noteq> None" for r using that dom by (meson domIff subsetD)
  have eq: "m' (ow_generation_root x) = m (ow_generation_root x)" "m' (ow_acquired_root x) = m (ow_acquired_root x)"
    using same X(1,2) by blast+
  have ts: "rmap (read_ownership_transition parse m' (own_protocol_at pre)) (ow_transitions x) = Inr ts"
    if "rmap (read_ownership_transition parse m (own_protocol_at pre)) (ow_transitions x) = Inr ts" for ts
  proof -
    have "read_ownership_transition parse m' (own_protocol_at pre) t = read_ownership_transition parse m (own_protocol_at pre) t"
      if t: "t \<in> set (ow_transitions x)" for t
    proof -
      obtain u where u: "read_ownership_transition parse m (own_protocol_at pre) t = Inr u"
        using rmap_each [OF \<open>rmap _ _ = Inr ts\<close> t] by blast
      with X(3) t have "settled m X t" "ot_at_root u \<in> X" unfolding kept_def by blast+
      with read_ownership_transition_frame [OF dom same this(1) u] u show ?thesis by simp
    qed
    with that show ?thesis by (metis rmap_cong)
  qed
  from v show ?thesis unfolding own_values_def eq using here ts by blast
qed

lemma owned_at_frame:
  assumes o': "owned_at parse m pre X F x" and dom: "dom m \<subseteq> dom m'" and same: "\<forall>k \<in> X. m' k = m k" "\<forall>k \<in> F. m' k = m k"
  shows "owned_at parse m' pre X F x"
proof -
  from o' obtain ms where ms: "spelled m (ow_root x) ms F" "read_relation m (ow_root x) 100000 = Inr ms"
    and r: "read_ownership parse m (own_protocol_at pre) (ow_root x) = Inr x" and
    X: "ow_generation_root x \<in> X" "ow_acquired_root x \<in> X" "\<forall>t \<in> set (ow_transitions x). kept parse m pre X t"
    unfolding owned_at_def by blast
  have read: "read_relation m' (ow_root x) 100000 = Inr ms"
    using settled_frame(2) [OF spelled_settled [OF ms(1)] dom same(2)] ms(2) by simp
  have "kept parse m' pre X t" if "t \<in> set (ow_transitions x)" for t
    using owned_transitions [OF o' that] kept_frame [OF dom same(1)] by blast
  moreover from r have "read_ownership parse m' (own_protocol_at pre) (ow_root x) = Inr x"
    unfolding read_ownership_Inr read ms(2) using own_values_frame [OF dom same(1) _ X] by blast
  ultimately show ?thesis
    unfolding owned_at_def using spelled_frame [OF ms(1) dom same(2)] read X(1,2) by blast
qed

definition apart :: "string set \<Rightarrow> (string \<Rightarrow> string set) \<Rightarrow> string set \<Rightarrow> string set \<Rightarrow> bool" where
  "apart Fr G K X \<longleftrightarrow> Fr \<inter> X = {} \<and>
     (\<forall>k \<in> K. G k \<inter> Fr = {} \<and> G k \<inter> X = {} \<and> (\<forall>k' \<in> K. k \<noteq> k' \<longrightarrow> G k \<inter> G k' = {}))"

lemma apartI:
  assumes "Fr \<inter> X = {}" "E \<inter> Fr = {}" "E \<inter> X = {}" "\<And>k. k \<in> K \<Longrightarrow> k \<noteq> root \<Longrightarrow> G k \<inter> Fr = {}"
    "\<And>k. k \<in> K \<Longrightarrow> k \<noteq> root \<Longrightarrow> G k \<inter> X = {}" "\<And>k. k \<in> K \<Longrightarrow> k \<noteq> root \<Longrightarrow> G k \<inter> E = {}"
    "\<And>k k'. k \<in> K \<Longrightarrow> k' \<in> K \<Longrightarrow> k \<noteq> k' \<Longrightarrow> G k \<inter> G k' = {}"
  shows "apart Fr (G(root := E)) (insert root K) X"
  unfolding apart_def
proof (intro conjI ballI impI)
  fix k assume k: "k \<in> insert root K"
  show "(G(root := E)) k \<inter> Fr = {}" "(G(root := E)) k \<inter> X = {}"
    using assms(2-5) k by (cases "k = root"; simp)+
  show "(G(root := E)) k \<inter> (G(root := E)) k' = {}" if "k' \<in> insert root K" "k \<noteq> k'" for k'
    using assms(6) [of k] assms(6) [of k'] assms(7) [of k k'] k that
    by (cases "k = root"; cases "k' = root") (simp_all add: Int_commute)
qed (rule assms(1))

lemma split_apart:
  "A' \<subseteq> A \<union> C \<Longrightarrow> A \<inter> B = {} \<Longrightarrow> A \<inter> D = {} \<Longrightarrow> C \<inter> B = {} \<Longrightarrow> C \<inter> D = {} \<Longrightarrow> A' \<inter> (B \<union> D) = {}"
  "A' \<subseteq> A \<union> C \<Longrightarrow> A \<inter> B = {} \<Longrightarrow> C \<inter> B = {} \<Longrightarrow> A' \<inter> B = {}"
  by blast+

lemma within_parts:
  assumes "Fr' \<inter> D \<subseteq> R" "\<And>k. k \<in> K \<Longrightarrow> G k \<inter> D \<subseteq> R" "X \<subseteq> R" "Y \<inter> D = {}"
  shows "(Fr' \<union> (\<Union>k \<in> K. G k) \<union> (X \<union> Y)) \<inter> D \<subseteq> R"
proof
  fix i assume "i \<in> (Fr' \<union> (\<Union>k \<in> K. G k) \<union> (X \<union> Y)) \<inter> D"
  then have "i \<in> D" "i \<in> Fr' \<or> (\<exists>k \<in> K. i \<in> G k) \<or> i \<in> X \<or> i \<in> Y" by blast+
  with assms show "i \<in> R" by blast
qed

lemma sub_apart: "A \<subseteq> C \<Longrightarrow> C \<inter> B = {} \<Longrightarrow> A \<inter> B = {}" "A \<subseteq> C \<Longrightarrow> C \<inter> B = {} \<Longrightarrow> B \<inter> A = {}"
  by blast+

text \<open>New Cells \<open>C\<close> go to the registry, to a new ownership, or to those never written again.\<close>

lemma apart_grow:
  assumes a: "apart Fr G K X" and C: "C \<inter> Fr = {}" "C \<inter> X = {}" "\<And>k. k \<in> K \<Longrightarrow> C \<inter> G k = {}"
    and new: "Fr' \<subseteq> Fr \<union> C1" "E \<subseteq> C2" "C1 \<subseteq> C" "C2 \<subseteq> C" "Y \<subseteq> C" "C1 \<inter> C2 = {}" "C1 \<inter> Y = {}" "C2 \<inter> Y = {}"
  shows "apart Fr' (G(root := E)) (insert root K) (X \<union> Y)"
proof -
  have "Fr \<inter> X = {}" and G: "\<And>k. k \<in> K \<Longrightarrow> G k \<inter> Fr = {}" "\<And>k. k \<in> K \<Longrightarrow> G k \<inter> X = {}"
    "\<And>k k'. k \<in> K \<Longrightarrow> k' \<in> K \<Longrightarrow> k \<noteq> k' \<Longrightarrow> G k \<inter> G k' = {}"
    using a unfolding apart_def by simp_all
  have C1: "C1 \<inter> Fr = {}" "C1 \<inter> X = {}" "C2 \<inter> Fr = {}" "C2 \<inter> X = {}" "Fr \<inter> Y = {}"
    using sub_apart [OF new(3) C(1)] sub_apart [OF new(3) C(2)] sub_apart [OF new(4) C(1)] sub_apart [OF new(4) C(2)]
      sub_apart [OF new(5) C(1)] by blast+
  have Fr: "Fr' \<inter> (X \<union> Y) = {}" by (rule split_apart(1) [OF new(1) \<open>Fr \<inter> X = {}\<close> C1(5,2) new(7)])
  have "Fr' \<inter> C2 = {}" using split_apart(2) [OF new(1), of C2] C1(3) new(6) by blast
  then have E: "E \<inter> Fr' = {}" "E \<inter> (X \<union> Y) = {}" using new(2,8) C1(4) by blast+
  have rest: "G k \<inter> Fr' = {}" "G k \<inter> (X \<union> Y) = {}" "G k \<inter> E = {}" if "k \<in> K" for k
  proof -
    have Gk: "C1 \<inter> G k = {}" "G k \<inter> Y = {}" "G k \<inter> C2 = {}"
      using sub_apart [OF new(3) C(3) [OF that]] sub_apart [OF new(5) C(3) [OF that]] sub_apart [OF new(4) C(3) [OF that]] by blast+
    show "G k \<inter> Fr' = {}" using split_apart(2) [OF new(1), of "G k"] Gk(1) G(1) [OF that] by blast
    show "G k \<inter> (X \<union> Y) = {}" using G(2) [OF that] Gk(2) by blast
    show "G k \<inter> E = {}" using Gk(3) new(2) by blast
  qed
  show ?thesis by (rule apartI [OF Fr E rest G(3)])
qed

lemma apart_extend:
  assumes a: "apart Fr G K X" and root: "root \<in> K" and C: "C \<inter> Fr = {}" "C \<inter> X = {}" "\<And>k. k \<in> K \<Longrightarrow> C \<inter> G k = {}"
    and new: "F' \<subseteq> G root \<union> C1" "C1 \<subseteq> C" "Y \<subseteq> C" "C1 \<inter> Y = {}"
  shows "apart Fr (G(root := F')) K (X \<union> Y)"
proof -
  have "Fr \<inter> X = {}" and G: "\<And>k. k \<in> K \<Longrightarrow> G k \<inter> Fr = {}" "\<And>k. k \<in> K \<Longrightarrow> G k \<inter> X = {}"
    "\<And>k k'. k \<in> K \<Longrightarrow> k' \<in> K \<Longrightarrow> k \<noteq> k' \<Longrightarrow> G k \<inter> G k' = {}"
    using a unfolding apart_def by simp_all
  have own: "Fr \<inter> (X \<union> Y) = {}" using \<open>Fr \<inter> X = {}\<close> C(1) new(3) by blast
  have C1: "C1 \<inter> Fr = {}" "C1 \<inter> X = {}" "G root \<inter> Y = {}"
    using sub_apart [OF new(2) C(1)] sub_apart [OF new(2) C(2)] sub_apart [OF new(3) C(3) [OF root]] by blast+
  have F': "F' \<inter> Fr = {}" by (rule split_apart(2) [OF new(1) G(1) [OF root] C1(1)])
  have F'X: "F' \<inter> (X \<union> Y) = {}" by (rule split_apart(1) [OF new(1) G(2) [OF root] C1(3,2) new(4)])
  have X: "G k \<inter> (X \<union> Y) = {}" if "k \<in> K" for k using G(2) [OF that] C(3) [OF that] new(3) by blast
  have other: "G k \<inter> F' = {}" if "k \<in> K" "k \<noteq> root" for k
    using G(3) [OF that(1) root that(2)] C(3) [OF that(1)] new(1,2) by blast
  have "apart Fr (G(root := F')) (insert root K) (X \<union> Y)" by (rule apartI [OF own F' F'X G(1) X other G(3)])
  with root show ?thesis by (simp add: insert_absorb)
qed

definition own_words :: "string \<Rightarrow> string set" where
  "own_words pre = own_state_roots pre \<union> mrole pre ` set OWNERSHIP_ROLE_NAMES"

definition REGISTRY_WORDS :: nat where
  "REGISTRY_WORDS = length OWNERSHIP_ROLE_NAMES + length OWNERSHIP_STATE_NAMES"

text \<open>
  The invariant: the registry lists the ownerships \<open>os\<close>; the registry, the ownerships and the
  Cells nobody writes again are pairwise apart, and \<open>R\<close> is all of them together.
\<close>

definition registry_at ::
  "(bytes \<Rightarrow> py_float option) \<Rightarrow> cells \<Rightarrow> string \<Rightarrow> ownership list \<Rightarrow> string set \<Rightarrow> bool" where
  "registry_at parse m pre os R \<longleftrightarrow> (\<exists>Fr rs G X.
     R = Fr \<union> (\<Union>k \<in> ow_root ` set os. G k) \<union> X \<and> X \<subseteq> dom m \<and> own_words pre \<subseteq> dom m \<and>
     spelled m (pre @ '':root'') rs Fr \<and> length rs = REGISTRY_WORDS + length os \<and>
     participants (mrole pre ''ownership-member'') rs = map ow_root os \<and> distinct (map ow_root os) \<and>
     apart Fr G (ow_root ` set os) X \<and>
     (\<forall>x \<in> set os. owned_at parse m pre X (G (ow_root x)) x))"

lemma registry_atI:
  assumes "R = Fr \<union> (\<Union>k \<in> ow_root ` set os. G k) \<union> X" "X \<subseteq> dom m" "own_words pre \<subseteq> dom m"
    "spelled m (pre @ '':root'') rs Fr" "length rs = REGISTRY_WORDS + length os"
    "participants (mrole pre ''ownership-member'') rs = map ow_root os" "distinct (map ow_root os)"
    "apart Fr G (ow_root ` set os) X" "\<And>x. x \<in> set os \<Longrightarrow> owned_at parse m pre X (G (ow_root x)) x"
  shows "registry_at parse m pre os R"
  unfolding registry_at_def using assms(1-8) assms(9) [THEN ballI]
  by - (rule exI [of _ Fr], rule exI [of _ rs], rule exI [of _ G], rule exI [of _ X], intro conjI; assumption)

lemma owned_at_dom: "owned_at parse m pre X F x \<Longrightarrow> F \<subseteq> dom m"
  unfolding owned_at_def using spelled_dom by blast

lemma registry_at_reads:
  assumes "registry_at parse m pre os R" "REGISTRY_WORDS + length os < 100000"
  shows "list_ownerships parse m (own_protocol_at pre) = Inr os" "R \<subseteq> dom m"
proof -
  from assms obtain Fr rs G X where R: "R = Fr \<union> (\<Union>k \<in> ow_root ` set os. G k) \<union> X" "X \<subseteq> dom m"
    and rs: "spelled m (pre @ '':root'') rs Fr" "length rs < 100000" "participants (mrole pre ''ownership-member'') rs = map ow_root os"
      "distinct (map ow_root os)" and os: "\<forall>x \<in> set os. owned_at parse m pre X (G (ow_root x)) x"
    unfolding registry_at_def by auto
  have "rmap (read_ownership parse m (own_protocol_at pre)) (map ow_root os) = Inr os"
    using os unfolding rmap_Inr_iff list_all2_conv_all_nth by (auto simp: owned_at_def)
  moreover have "op_root (own_protocol_at pre) = pre @ '':root''" by (simp add: own_protocol_at_def)
  ultimately show "list_ownerships parse m (own_protocol_at pre) = Inr os"
    using rs by (simp add: list_ownerships_def own_all_def spelled_read [OF rs(1,2)])
  have "G (ow_root x) \<subseteq> dom m" if "x \<in> set os" for x using os owned_at_dom that by blast
  then show "R \<subseteq> dom m" using R spelled_dom [OF rs(1)] by blast
qed

lemma registry_at_frame:
  assumes "registry_at parse m pre os R" and dom: "dom m \<subseteq> dom m'" and same: "\<forall>k \<in> R. m' k = m k"
  shows "registry_at parse m' pre os R"
proof -
  from assms(1) obtain Fr rs G X where R: "R = Fr \<union> (\<Union>k \<in> ow_root ` set os. G k) \<union> X" "X \<subseteq> dom m" "own_words pre \<subseteq> dom m"
    and rs: "spelled m (pre @ '':root'') rs Fr" and rest: "length rs = REGISTRY_WORDS + length os"
      "participants (mrole pre ''ownership-member'') rs = map ow_root os" "distinct (map ow_root os)" "apart Fr G (ow_root ` set os) X" and
      os: "\<forall>x \<in> set os. owned_at parse m pre X (G (ow_root x)) x"
    unfolding registry_at_def by blast
  have eq: "\<forall>k \<in> Fr. m' k = m k" "\<forall>k \<in> X. m' k = m k" using same R(1) by blast+
  have "owned_at parse m' pre X (G (ow_root x)) x" if "x \<in> set os" for x
    using os that same R(1) by (intro owned_at_frame [OF _ dom eq(2)]) blast+
  note this = registry_atI [OF R(1) order_trans [OF R(2) dom] order_trans [OF R(3) dom] spelled_frame [OF rs dom eq(1)] rest this]
  then show ?thesis .
qed

text \<open>What a commit that rewrites only Cells of \<open>W\<close> leaves alone.\<close>

lemma untouched:
  assumes "F \<subseteq> dom m" "W \<inter> F = {}" "\<And>k. m k \<noteq> None \<Longrightarrow> k \<notin> W \<Longrightarrow> m' k = m k"
  shows "\<forall>k \<in> F. m' k = m k"
proof
  fix k assume "k \<in> F"
  then have "m k \<noteq> None" "k \<notin> W" using assms(1,2) by blast+
  then show "m' k = m k" by (rule assms(3))
qed

lemma owned_at_elsewhere:
  assumes o': "owned_at parse m pre X F x" and dom: "dom m \<subseteq> dom m'" and X: "X \<subseteq> dom m" "W \<inter> X = {}" "W \<inter> F = {}"
    and same: "\<And>k. m k \<noteq> None \<Longrightarrow> k \<notin> W \<Longrightarrow> m' k = m k"
  shows "owned_at parse m' pre (X \<union> Y) F x"
proof (rule owned_at_mono)
  show "owned_at parse m' pre X F x"
    by (rule owned_at_frame [OF o' dom untouched [OF X(1,2) same] untouched [OF owned_at_dom [OF o'] X(3) same]])
qed blast

lemma apart_regions:
  assumes "apart Fr G K X" "root \<in> K"
  shows "G root \<inter> X = {}" "G root \<inter> Fr = {}" "k \<in> K \<Longrightarrow> k \<noteq> root \<Longrightarrow> G root \<inter> G k = {}"
  using assms unfolding apart_def by blast+

section \<open>Acquiring\<close>

definition acquired_root :: "string option \<Rightarrow> string \<Rightarrow> string" where
  "acquired_root given u = (case given of None \<Rightarrow> ''ownership:'' @ u | Some r \<Rightarrow> if r = [] then ''ownership:'' @ u else r)"

lemma acquired_root_nonempty [simp]: "acquired_root given u \<noteq> []"
  by (auto simp: acquired_root_def split: option.splits)

definition acquired_pairs :: "string \<Rightarrow> string \<Rightarrow> string \<Rightarrow> string \<Rightarrow> string \<Rightarrow> string option \<Rightarrow> (string \<times> string) list" where
  "acquired_pairs pre root resource holder evidence pred =
     [(''resource'', resource), (''holder'', holder), (''generation'', root @ '':generation''), (''state'', ostate pre ''active''),
      (''acquired-at'', root @ '':acquired-at''), (''evidence'', evidence)] @
     (case pred of None \<Rightarrow> [] | Some k \<Rightarrow> [(''predecessor'', k)])"

lemma acquired_pairs_roles:
  "own_pairs (own_protocol_at pre) ([(''resource'', resource), (''holder'', holder), (''generation'', root @ '':generation''),
     (''state'', ostate pre ''active''), (''acquired-at'', root @ '':acquired-at''), (''evidence'', evidence)] @
     (if xs = [] then [] else [(''predecessor'', ow_root (last xs))])) =
   Inr (named pre (acquired_pairs pre root resource holder evidence (if xs = [] then None else Some (ow_root (last xs)))))"
proof -
  have "own_pairs (own_protocol_at pre) (acquired_pairs pre root resource holder evidence pred) =
      Inr (named pre (acquired_pairs pre root resource holder evidence pred))" for pred
    by (rule own_pairs_at) (auto simp: acquired_pairs_def OWNERSHIP_ROLE_NAMES_def split: option.splits)
  note this [of None] this [of "Some (ow_root (last xs))"]
  then show ?thesis by (cases "xs = []") (simp_all add: acquired_pairs_def)
qed

definition acquired_relation :: "string \<Rightarrow> string \<Rightarrow> string \<Rightarrow> string \<Rightarrow> string \<Rightarrow> string option \<Rightarrow> relation_cells" where
  "acquired_relation pre root resource holder evidence pred =
     compose_relation_cells (named pre (acquired_pairs pre root resource holder evidence pred)) (Some root) []"

lemma if_Inl_Inr: "(if b then Inl e else y) = Inr x \<longleftrightarrow> \<not> b \<and> y = Inr x"
  by simp

lemma acquire_cells_Inr:
  assumes "acquire_cells parse render m (own_protocol_at pre) resource holder evidence t root draw = Inr p"
  obtains os mine patch where
    "verify_ownership_authority parse m (own_protocol_at pre) = Inr os"
    "mine = filter (\<lambda>x. ow_resource x = resource) os" "\<forall>x \<in> set mine. \<not> live_at pre x" "m root = None"
    "prepare_append_relation_members m (pre @ '':root'') [(mrole pre ''ownership-member'', root)] 100000 draw = Inr patch"
    "rp_create p = [own_terminal (root @ '':generation'') (show_nat (Suc (length mine))),
        own_terminal (root @ '':acquired-at'') (render t)] @
       rc_cells (acquired_relation pre root resource holder evidence (if mine = [] then None else Some (ow_root (last mine)))) @
       rp_create patch" "rp_replace p = rp_replace patch"
proof -
  have pairs: "own_pairs (own_protocol_at pre) [(''ownership-member'', root)] = Inr [(mrole pre ''ownership-member'', root)]"
    by (simp add: own_pairs_def)
  have r: "op_root (own_protocol_at pre) = pre @ '':root''" by (simp add: own_protocol_at_def)
  from assms obtain os patch where o': "verify_ownership_authority parse m (own_protocol_at pre) = Inr os"
    "\<not> (\<exists>x \<in> set (filter (\<lambda>x. ow_resource x = resource) os). ow_state x \<in> {ostate pre ''active'', ostate pre ''draining''})"
    "m root = None" "prepare_append_relation_members m (pre @ '':root'') [(mrole pre ''ownership-member'', root)] 100000 draw = Inr patch"
    "p = Patch [] (own_terminal (root @ '':generation'') (show_nat (length (filter (\<lambda>x. ow_resource x = resource) os) + 1)) #
        own_terminal (root @ '':acquired-at'') (render t) #
        rc_cells (compose_relation_cells (named pre (acquired_pairs pre root resource holder evidence
          (if filter (\<lambda>x. ow_resource x = resource) os = [] then None
           else Some (ow_root (last (filter (\<lambda>x. ow_resource x = resource) os)))))) (Some root) []) @ rp_create patch) (rp_replace patch)"
    unfolding acquire_cells_def Let_def own_states live_states_at rbind_simps acquired_pairs_roles pairs r if_Inl_Inr rbind_Inr_iff
    by blast
  have "\<forall>x \<in> set (filter (\<lambda>x. ow_resource x = resource) os). \<not> live_at pre x"
    using o'(2) unfolding live_at_def by blast
  from that [OF o'(1) refl this o'(3,4)] o'(5) show thesis by (simp add: acquired_relation_def)
qed

lemma acquire_ownership_Inr:
  assumes "acquire_ownership env parse render (own_protocol_at pre) resource holder evidence t given u draw (c, s) =
      ((c', s'), Inr (x, r))" and root: "root = acquired_root given u"
  obtains p where "acquire_cells parse render (st_cells s) (own_protocol_at pre) resource holder evidence t root draw = Inr p"
    "commit env (st_revision s) (rp_create p) (rp_replace p) (c, s) = ((c', s'), Inr r)"
    "read_ownership parse (st_cells s') (own_protocol_at pre) root = Inr x"
  using assms(1) unfolding acquire_ownership_def Let_def store_snapshot_def acquired_root_def [symmetric] root [symmetric]
  by (auto simp: rbind_Inr_iff split: sum.splits if_splits prod.splits)

lemma acquired_members:
  assumes "length is = length (acquired_pairs pre root resource holder evidence pred)"
    and "own_members pre root (fresh_members is (named pre (acquired_pairs pre root resource holder evidence pred))) x"
  shows "ow_root x = root" "ow_resource x = resource" "ow_holder x = holder" "ow_generation_root x = root @ '':generation''"
    "ow_state x = ostate pre ''active''" "ow_acquired_root x = root @ '':acquired-at''" "ow_predecessor x = pred" "ow_transitions x = []"
proof -
  let ?ms = "fresh_members is (named pre (acquired_pairs pre root resource holder evidence pred))"
  have state: "participants (mrole pre ''state'') ?ms = [ow_state x]"
    using assms(2) unfolding own_members_def participants_single by blast
  have parts: "ow_root x = root" "participants (mrole pre ''resource'') ?ms = [ow_resource x]"
    "participants (mrole pre ''holder'') ?ms = [ow_holder x]" "participants (mrole pre ''generation'') ?ms = [ow_generation_root x]"
    "participants (mrole pre ''acquired-at'') ?ms = [ow_acquired_root x]"
    "participants (mrole pre ''predecessor'') ?ms = (case ow_predecessor x of None \<Rightarrow> [] | Some k \<Rightarrow> [k])"
    "participants (mrole pre ''transition'') ?ms = ow_transitions x"
    using assms(2) unfolding own_members_def by blast+
  note P = participants_named [OF assms(1), of pre]
  note O = parts [unfolded P, unfolded acquired_pairs_def] state [unfolded P, unfolded acquired_pairs_def]
  show "ow_root x = root" by (rule parts(1))
  show "ow_resource x = resource" "ow_holder x = holder" "ow_generation_root x = root @ '':generation''"
    "ow_state x = ostate pre ''active''" "ow_acquired_root x = root @ '':acquired-at''" "ow_transitions x = []"
    using O(2-5,7,8) by (simp_all split: option.splits)
  show "ow_predecessor x = pred" using O(6) by (simp split: option.splits)
qed

text \<open>What an acquired ownership says.\<close>

definition newly_owned :: "string \<Rightarrow> ownership list \<Rightarrow> string \<Rightarrow> string \<Rightarrow> string \<Rightarrow> ownership \<Rightarrow> bool" where
  "newly_owned pre os root resource holder x \<longleftrightarrow> (let mine = filter (\<lambda>x. ow_resource x = resource) os in
     ow_root x = root \<and> ow_resource x = resource \<and> ow_holder x = holder \<and> ow_generation x = int (Suc (length mine)) \<and>
     ow_state x = ostate pre ''active'' \<and> ow_predecessor x = (if mine = [] then None else Some (ow_root (last mine))) \<and>
     (\<forall>y \<in> set mine. \<not> live_at pre y) \<and> root \<notin> ow_root ` set os)"

lemma registry_roots_in: "registry_at parse m pre os R \<Longrightarrow> k \<in> ow_root ` set os \<Longrightarrow> m k \<noteq> None"
  unfolding registry_at_def owned_at_def using spelled_root by blast

text \<open>The ownership that an acquisition writes, as it is read afterwards.\<close>

lemma acquired_owned:
  assumes root: "root \<noteq> []" and l: "laid m cr rp m'" and read: "read_ownership parse m' (own_protocol_at pre) root = Inr x"
    and cr: "cr = [own_terminal (root @ '':generation'') (show_nat n), own_terminal (root @ '':acquired-at'') time] @
      rc_cells (acquired_relation pre root resource holder evidence pred) @ rest"
  shows "ow_root x = root" "ow_resource x = resource" "ow_holder x = holder" "ow_generation x = int n"
    "ow_state x = ostate pre ''active''" "ow_predecessor x = pred"
    "owned_at parse m' pre (X \<union> {root @ '':generation'', root @ '':acquired-at''})
      (cid ` set (rc_cells (acquired_relation pre root resource holder evidence pred))) x"
proof -
  let ?rel = "acquired_relation pre root resource holder evidence pred"
  let ?pairs = "acquired_pairs pre root resource holder evidence pred"
  let ?ms = "fresh_members (rb_incidences (rc_build ?rel)) (named pre ?pairs)"
  have "lays {} m (rc_cells ?rel) [] m'"
    by (rule lays_part [OF laid_lays [OF l, of UNIV]]; use laidD(4) [OF l] cr in auto)
  from spelled_compose [OF this [unfolded acquired_relation_def]]
  have own: "spelled m' root ?ms (cid ` set (rc_cells ?rel))" using root by (simp add: acquired_relation_def)
  from read obtain ms where ms: "read_relation m' root 100000 = Inr ms" "own_members pre root ms x" "own_values parse m' pre x"
    unfolding read_ownership_Inr by blast
  have ms_eq: "ms = ?ms" by (rule spelled_only [OF own ms(1)])
  have len: "length (rb_incidences (rc_build ?rel)) = length ?pairs" by (simp add: acquired_relation_def)
  note f = acquired_members [OF len ms(2) [unfolded ms_eq]]
  show "ow_root x = root" "ow_resource x = resource" "ow_holder x = holder" "ow_state x = ostate pre ''active''"
    "ow_predecessor x = pred" by (rule f)+
  have "m' (root @ '':generation'') = Some (own_terminal (root @ '':generation'') (show_nat n))"
    using laidD(1) [OF l] cr by (simp add: present_def own_terminal_def)
  then show "ow_generation x = int n"
    using ms(3) f(4) unfolding own_values_def by (simp add: own_terminal_def parse_show_nat split: if_splits)
  show "owned_at parse m' pre (X \<union> {root @ '':generation'', root @ '':acquired-at''}) (cid ` set (rc_cells ?rel)) x"
    unfolding owned_at_def f(1) using own ms(1) read f(4,6,8) by (auto simp: ms_eq)
qed

text \<open>A new ownership joins the registry.\<close>

lemma registry_joined:
  assumes at: "registry_at parse m pre os R" and new: "root \<notin> ow_root ` set os" "ow_root x = root"
    and patch: "prepare_append_relation_members m (pre @ '':root'') [(mrole pre ''ownership-member'', root)] 100000 draw = Inr patch"
    and l: "laid m cr (rp_replace patch) m'" and sub: "set (rp_create patch) \<subseteq> set cr" "E \<subseteq> cid ` set cr" "Y \<subseteq> cid ` set cr"
    and d: "distinct (map cid (rp_create patch))" "cid ` set (rp_create patch) \<inter> E = {}" "cid ` set (rp_create patch) \<inter> Y = {}" "E \<inter> Y = {}"
    and owned: "\<And>X. owned_at parse m' pre (X \<union> Y) E x"
  shows "\<exists>R'. registry_at parse m' pre (os @ [x]) R' \<and> R' \<inter> dom m \<subseteq> R"
proof -
  from at obtain Fr rs G X where R: "R = Fr \<union> (\<Union>k \<in> ow_root ` set os. G k) \<union> X" "X \<subseteq> dom m" "own_words pre \<subseteq> dom m"
    and rs: "spelled m (pre @ '':root'') rs Fr" "length rs = REGISTRY_WORDS + length os"
      "participants (mrole pre ''ownership-member'') rs = map ow_root os" and
    ap: "distinct (map ow_root os)" "apart Fr G (ow_root ` set os) X" and os: "\<forall>x \<in> set os. owned_at parse m pre X (G (ow_root x)) x"
    unfolding registry_at_def by blast
  note dom = laidD(3) [OF l]
  have fresh: "cid ` set cr \<inter> dom m = {}" using laidD(8) [OF l] by auto
  have parts: "cid ` set (rp_create patch) \<subseteq> cid ` set cr" using sub(1) by blast
  have "m NULL_CELL_ID = Some null_cell" "keyed m" using laidD(5) [OF l] graph_okD(1,3) by blast+
  from append_replaces [OF rs(1) patch _ this] obtain y where
    y: "rp_replace patch = [y]" "cid y = NULL_CELL_ID \<or> cid y \<in> Fr" by blast
  then have y_Fr: "{cid y} \<inter> X = {}" "\<And>k. k \<in> ow_root ` set os \<Longrightarrow> {cid y} \<inter> G k = {}"
    using laidD(9) [OF l, of y] ap(2) unfolding apart_def by auto
  have same: "m' k = m k" if "m k \<noteq> None" "k \<notin> {cid y}" for k using laidD(7) [OF l that(1)] that(2) y(1) by simp
  have "lays Fr m (rp_create patch) (rp_replace patch) m'"
    by (rule lays_part [OF laid_lays [OF l, of UNIV] sub(1) d(1)]) simp_all
  from spelled_append [OF rs(1) patch this] obtain Fr' where
    Fr': "spelled m' (pre @ '':root'') (rs @ [Member (hd (rp_incidences patch)) (mrole pre ''ownership-member'') root]) Fr'"
      "Fr' \<subseteq> Fr \<union> cid ` set (rp_create patch)"
    unfolding fresh_one [OF append_one_incidence [OF patch]] by blast
  let ?rs = "rs @ [Member (hd (rp_incidences patch)) (mrole pre ''ownership-member'') root]"
  let ?G = "G(root := E)"
  have G: "cid ` set cr \<inter> G k = {}" if "k \<in> ow_root ` set os" for k using os owned_at_dom fresh that by blast
  have CF: "cid ` set cr \<inter> Fr = {}" "cid ` set cr \<inter> X = {}" using spelled_dom [OF rs(1)] R(2) fresh by blast+
  have others: "owned_at parse m' pre (X \<union> Y) (?G (ow_root z)) z" if z: "z \<in> set os" for z
  proof -
    have "owned_at parse m pre X (G (ow_root z)) z" "ow_root z \<in> ow_root ` set os" using os z by blast+
    from owned_at_elsewhere [OF this(1) dom R(2) y_Fr(1) y_Fr(2) [OF this(2)] same] new(1) z show ?thesis by auto
  qed
  have "registry_at parse m' pre (os @ [x]) (Fr' \<union> (\<Union>k \<in> ow_root ` set (os @ [x]). ?G k) \<union> (X \<union> Y))"
  proof (rule registry_atI [where G = ?G and X = "X \<union> Y", OF refl])
    have "cid ` set cr \<subseteq> dom m'" using laidD(1) [OF l] unfolding present_def by auto
    then show "X \<union> Y \<subseteq> dom m'" using order_trans [OF R(2) dom] order_trans [OF sub(3)] by simp
    show "own_words pre \<subseteq> dom m'" using R(3) dom by blast
    show "spelled m' (pre @ '':root'') ?rs Fr'" by (rule Fr'(1))
    show "length ?rs = REGISTRY_WORDS + length (os @ [x])" using rs(2) by simp
    show "participants (mrole pre ''ownership-member'') ?rs = map ow_root (os @ [x])"
      using rs(3) new(2) by (simp add: participants_def)
    show "distinct (map ow_root (os @ [x]))" using ap(1) new by simp
    show "apart Fr' ?G (ow_root ` set (os @ [x])) (X \<union> Y)"
      using apart_grow [OF ap(2) CF G Fr'(2) order_refl parts sub(2,3) d(2,3,4), of root] new(2) by simp
    show "owned_at parse m' pre (X \<union> Y) (?G (ow_root z)) z" if "z \<in> set (os @ [x])" for z
      using others owned new(2) that by (cases "z = x") simp_all
  qed
  moreover have "(Fr' \<union> (\<Union>k \<in> ow_root ` set (os @ [x]). ?G k) \<union> (X \<union> Y)) \<inter> dom m \<subseteq> R"
  proof (rule within_parts)
    have "Fr \<subseteq> R" using R(1) by blast
    moreover have "cid ` set (rp_create patch) \<inter> dom m = {}" using parts fresh by blast
    ultimately show "Fr' \<inter> dom m \<subseteq> R" using Fr'(2) by blast
    show "X \<subseteq> R" using R(1) by blast
    show "Y \<inter> dom m = {}" using sub(3) fresh by blast
    show "?G k \<inter> dom m \<subseteq> R" if "k \<in> ow_root ` set (os @ [x])" for k
    proof (cases "k = root")
      case True
      have "E \<inter> dom m = {}" using sub(2) fresh by blast
      with True show ?thesis by simp
    next
      case False
      then have "k \<in> ow_root ` set os" "?G k = G k" using that new(2) by simp_all
      then show ?thesis using R(1) by blast
    qed
  qed
  ultimately show ?thesis by blast
qed

lemma acquire_step:
  assumes at: "registry_at parse m pre os R" and few: "REGISTRY_WORDS + length os < 100000" and root: "root \<noteq> []"
    and prep: "acquire_cells parse render m (own_protocol_at pre) resource holder evidence t root draw = Inr p"
    and l: "laid m (rp_create p) (rp_replace p) m'" and read: "read_ownership parse m' (own_protocol_at pre) root = Inr x"
  shows "newly_owned pre os root resource holder x \<and> (\<exists>R'. registry_at parse m' pre (os @ [x]) R' \<and> R' \<inter> dom m \<subseteq> R)"
proof -
  from prep obtain os' mine patch where v: "verify_ownership_authority parse m (own_protocol_at pre) = Inr os'"
    and mine: "mine = filter (\<lambda>x. ow_resource x = resource) os'" "\<forall>x \<in> set mine. \<not> live_at pre x" and new: "m root = None"
    and patch: "prepare_append_relation_members m (pre @ '':root'') [(mrole pre ''ownership-member'', root)] 100000 draw = Inr patch"
    and create: "rp_create p = [own_terminal (root @ '':generation'') (show_nat (Suc (length mine))),
        own_terminal (root @ '':acquired-at'') (render t)] @
       rc_cells (acquired_relation pre root resource holder evidence (if mine = [] then None else Some (ow_root (last mine)))) @
       rp_create patch" and replace: "rp_replace p = rp_replace patch"
    by (rule acquire_cells_Inr)
  have "os' = os" using v registry_at_reads(1) [OF at few] by (auto simp: verify_ownership_authority_def rbind_Inr_iff)
  note mine = mine [unfolded this]
  note x = acquired_owned [OF root l read create]
  have out: "root \<notin> ow_root ` set os" using registry_roots_in [OF at] new by blast
  with x(1-6) mine have "newly_owned pre os root resource holder x" by (simp add: newly_owned_def Let_def)
  define rel where "rel = rc_cells (acquired_relation pre root resource holder evidence (if mine = [] then None else Some (ow_root (last mine))))"
  note create = create [folded rel_def] and owned = x(7) [folded rel_def]
  note dist = laidD(4) [OF l, unfolded create]
  let ?Y = "{root @ '':generation'', root @ '':acquired-at''}"
  have sub: "set (rp_create patch) \<subseteq> set (rp_create p)" "cid ` set rel \<subseteq> cid ` set (rp_create p)" "?Y \<subseteq> cid ` set (rp_create p)"
    unfolding create by (auto simp: own_terminal_def)
  have "distinct (map cid (rp_create patch))" "cid ` set (rp_create patch) \<inter> cid ` set rel = {}"
    "cid ` set (rp_create patch) \<inter> ?Y = {}" "cid ` set rel \<inter> ?Y = {}"
    using dist by (auto simp: own_terminal_def)
  from registry_joined [OF at out x(1) patch l [unfolded replace] sub this owned]
  have "\<exists>R'. registry_at parse m' pre (os @ [x]) R' \<and> R' \<inter> dom m \<subseteq> R" .
  with \<open>newly_owned pre os root resource holder x\<close> show ?thesis by blast
qed

section \<open>Moving on\<close>

definition moved_relation :: "string \<Rightarrow> string \<Rightarrow> string \<Rightarrow> string \<Rightarrow> string \<Rightarrow> relation_cells" where
  "moved_relation pre event_root source target evidence =
     compose_relation_cells (named pre [(''from-state'', ostate pre source), (''to-state'', ostate pre target),
       (''at'', event_root @ '':at''), (''evidence'', evidence)]) (Some event_root) []"

lemma transition_cells_Inr:
  assumes "transition_cells parse render m (own_protocol_at pre) root source target evidence t u draw = Inr p"
    and n: "source \<in> set OWNERSHIP_STATE_NAMES" "target \<in> set OWNERSHIP_STATE_NAMES" and ev: "ev = root @ '':transition:'' @ u"
  obtains x patch inc where
    "read_ownership parse m (own_protocol_at pre) root = Inr x" "ow_state x = ostate pre source"
    "prepare_append_relation_members m root [(mrole pre ''transition'', ev)] 100000 draw = Inr patch"
    "m (ow_state_incidence x) = Some inc"
    "rp_create p = own_terminal (ev @ '':at'') (render t) # rc_cells (moved_relation pre ev source target evidence) @ rp_create patch"
    "rp_replace p = Cell (cid inc) (link0 inc) (ostate pre target) (atom inc) # rp_replace patch"
proof -
  have pairs: "own_pairs (own_protocol_at pre) [(''from-state'', ostate pre source), (''to-state'', ostate pre target),
      (''at'', ev @ '':at''), (''evidence'', evidence)] = Inr (named pre [(''from-state'', ostate pre source),
      (''to-state'', ostate pre target), (''at'', ev @ '':at''), (''evidence'', evidence)])"
    "own_pairs (own_protocol_at pre) [(''transition'', ev)] = Inr (named pre [(''transition'', ev)])"
    by (rule own_pairs_at, simp add: OWNERSHIP_ROLE_NAMES_def)+
  from assms(1) obtain x patch inc where "read_ownership parse m (own_protocol_at pre) root = Inr x" "ow_state x = ostate pre source"
    "prepare_append_relation_members m root (named pre [(''transition'', ev)]) 100000 draw = Inr patch"
    "m (ow_state_incidence x) = Some inc"
    "p = Patch [] (own_terminal (ev @ '':at'') (render t) # rc_cells (moved_relation pre ev source target evidence) @ rp_create patch)
       (Cell (cid inc) (link0 inc) (ostate pre target) (atom inc) # rp_replace patch)"
    unfolding transition_cells_def Let_def own_state_at [OF n(1)] own_state_at [OF n(2)] rbind_simps ev [symmetric] pairs if_Inl_Inr
      rbind_Inr_iff cell_of_Inr moved_relation_def by auto
  with that show thesis by (simp add: named_def)
qed

lemma transition_ownership_Inr:
  assumes "transition_ownership env parse render (own_protocol_at pre) root event evidence t u draw (c, s) = ((c', s'), Inr (x, r))"
  obtains source target p where "map_of ownership_events event = Some (source, target)"
    "transition_cells parse render (st_cells s) (own_protocol_at pre) root source target evidence t u draw = Inr p"
    "commit env (st_revision s) (rp_create p) (rp_replace p) (c, s) = ((c', s'), Inr r)"
    "read_ownership parse (st_cells s') (own_protocol_at pre) root = Inr x"
  using assms unfolding transition_ownership_def store_snapshot_def
  by (auto simp: rbind_Inr_iff split: sum.splits if_splits prod.splits option.splits)

lemma event_states:
  "map_of ownership_events event = Some (source, target) \<Longrightarrow>
     source \<in> {''active'', ''draining''} \<and> source \<in> set OWNERSHIP_STATE_NAMES \<and> target \<in> set OWNERSHIP_STATE_NAMES"
  by (auto simp: ownership_events_def OWNERSHIP_STATE_NAMES_def split: if_splits)

text \<open>Rewiring a member and appending others in one commit.\<close>

lemma graph_swap:
  assumes "graph_ok m'" "graph_ok m" "dom m \<subseteq> dom m'" "m i = Some c" "i \<noteq> NULL_CELL_ID"
  shows "graph_ok (m'(i := Some c))"
proof -
  have "cid c = i" "i \<noteq> []" using graph_okD(1) [OF assms(2)] assms(4) unfolding keyed_def by blast+
  moreover have "m' (link0 c) \<noteq> None" "m' (link1 c) \<noteq> None"
    using graph_links [OF assms(2,4)] assms(3) by (meson domIff subsetD)+
  moreover have "m' (link0 d) \<noteq> None \<and> m' (link1 d) \<noteq> None" if "m' k = Some d" for k d using graph_links [OF assms(1) that] .
  ultimately show ?thesis
    using assms(1,5) unfolding graph_ok_def keyed_def closed_graph_def by auto
qed

lemma spelled_rewired_append:
  assumes s: "spelled m root ms F" and patch: "prepare_append_relation_members m root ps n draw = Inr p"
    and l: "laid m cr (Cell i (link0 inc) new (atom inc) # rp_replace p) m'" and cr: "set (rp_create p) \<subseteq> set cr"
      "distinct (map cid (rp_create p))"
    and i: "i \<in> incidence_id ` set ms" "m i = Some inc"
  shows "\<exists>F'. spelled m' root (rewired i new (ms @ fresh_members (rp_incidences p) ps)) F' \<and> F' \<subseteq> F \<union> cid ` set (rp_create p)"
proof -
  let ?m = "m'(i := Some inc)"
  have i_F: "i \<in> F" using i(1) spelled_incidence [OF s] by auto
  have i_new: "i \<notin> cid ` set cr" using laidD(8) [OF l] i(2) by auto
  have i_rp: "i \<notin> cid ` set (rp_replace p)" using l unfolding laid_def by simp
  have null: "i \<noteq> NULL_CELL_ID" using laidD(9) [OF l, of "Cell i (link0 inc) new (atom inc)"] by simp
  have dom: "dom m \<subseteq> dom ?m" "dom ?m \<subseteq> dom m'" using laidD(3) [OF l] i(2) by auto
  have "lays F m (rp_create p) (rp_replace p) ?m"
    unfolding lays_def
  proof (intro conjI ballI impI)
    show "present ?m (rp_create p)" "present ?m (rp_replace p)"
      using laidD(1,2) [OF l] cr(1) i_new i_rp unfolding present_def by auto
    show "m NULL_CELL_ID = Some null_cell" using graph_okD(3) [OF laidD(5) [OF l]] .
    show "graph_ok ?m" using graph_swap [OF laidD(6,5,3) [OF l] i(2) null] .
    show "?m k = m k" if "k \<in> F" "m k \<noteq> None" "k \<notin> cid ` set (rp_replace p)" for k
      using laidD(7) [OF l that(2)] that(3) i(2) by simp
    show "m (cid c) = None" if "c \<in> set (rp_create p)" for c using laidD(8) [OF l] that cr(1) by blast
    show "m (cid c) \<noteq> None" "cid c \<noteq> NULL_CELL_ID" if "c \<in> set (rp_replace p)" for c
      using laidD(9) [OF l, of c] that by simp_all
  qed (rule dom cr)+
  from spelled_append [OF s patch this] obtain F' where
    F': "spelled ?m root (ms @ fresh_members (rp_incidences p) ps) F'" "F' \<subseteq> F \<union> cid ` set (rp_create p)" by blast
  have "m' i = Some (Cell i (link0 (the (?m i))) new (atom inc))" using laidD(2) [OF l] by (simp add: present_def)
  then have "spelled m' root (rewired i new (ms @ fresh_members (rp_incidences p) ps)) F'"
    by (intro spelled_rewired [OF F'(1) dom(2) _ _ _ laidD(6) [OF l]]) (use i(1) in auto)
  with F'(2) show ?thesis by blast
qed

text \<open>An ownership moved on: only its state and its transitions differ.\<close>

definition moved_from :: "string \<Rightarrow> string \<Rightarrow> ownership \<Rightarrow> ownership \<Rightarrow> bool" where
  "moved_from pre target x x' \<longleftrightarrow> ow_root x' = ow_root x \<and> ow_resource x' = ow_resource x \<and> ow_holder x' = ow_holder x \<and>
     ow_generation x' = ow_generation x \<and> ow_state x' = ostate pre target \<and> ow_predecessor x' = ow_predecessor x"

lemma moved_members:
  assumes ms: "own_members pre root ms x" "distinct (map incidence_id ms)"
    and new: "own_members pre root (rewired (ow_state_incidence x) state (ms @ [Member j (mrole pre ''transition'') ev])) x'"
      "distinct (map incidence_id (ms @ [Member j (mrole pre ''transition'') ev]))"
  shows "ow_resource x' = ow_resource x" "ow_holder x' = ow_holder x" "ow_generation_root x' = ow_generation_root x"
    "ow_state x' = state" "ow_acquired_root x' = ow_acquired_root x" "ow_predecessor x' = ow_predecessor x"
    "ow_transitions x' = ow_transitions x @ [ev]" "ow_root x = root" "ow_root x' = root"
proof -
  let ?ms = "ms @ [Member j (mrole pre ''transition'') ev]"
  let ?ms' = "rewired (ow_state_incidence x) state ?ms"
  from ms(1) obtain y where y: "filter (\<lambda>x. role_id x = mrole pre ''state'') ms = [y]" "ow_state_incidence x = incidence_id y"
    unfolding own_members_def by blast
  then have y': "filter (\<lambda>x. role_id x = mrole pre ''state'') ?ms = [y]" by simp
  note re = participants_rewired [OF new(2) y', folded y(2)]
  have P: "participants (mrole pre n) ?ms' = participants (mrole pre n) ms @ (if n = ''transition'' then [ev] else [])"
    if "n \<noteq> ''state''" for n using re(2) [of "mrole pre n" state] that by (simp add: participants_def)
  have state: "participants (mrole pre ''state'') ?ms' = [ow_state x']"
    using new(1) unfolding own_members_def participants_single by blast
  show "ow_resource x' = ow_resource x" "ow_holder x' = ow_holder x" "ow_generation_root x' = ow_generation_root x"
    "ow_acquired_root x' = ow_acquired_root x" "ow_transitions x' = ow_transitions x @ [ev]" "ow_root x = root" "ow_root x' = root"
    using ms(1) new(1) P [of "''resource''"] P [of "''holder''"] P [of "''generation''"] P [of "''acquired-at''"] P [of "''transition''"]
    unfolding own_members_def by auto
  show "ow_state x' = state" using re(1) [of state] state by simp
  show "ow_predecessor x' = ow_predecessor x"
    using ms(1) new(1) P [of "''predecessor''"] unfolding own_members_def by (auto split: option.splits)
qed

lemma moved_kept:
  assumes l: "lays F m (rc_cells (moved_relation pre ev source target evidence)) rp m'" and ev: "ev \<noteq> []"
    and X: "insert (ev @ '':at'') (cid ` set (rc_cells (moved_relation pre ev source target evidence))) \<subseteq> X"
  shows "kept parse m' pre X ev"
proof -
  let ?pairs = "[(''from-state'', ostate pre source), (''to-state'', ostate pre target), (''at'', ev @ '':at''), (''evidence'', evidence)]"
  let ?rel = "moved_relation pre ev source target evidence"
  have s: "spelled m' ev (fresh_members (rb_incidences (rc_build ?rel)) (named pre ?pairs)) (cid ` set (rc_cells ?rel))"
    using spelled_compose [OF l [unfolded moved_relation_def]] ev by (simp add: moved_relation_def)
  have "length (rb_incidences (rc_build ?rel)) = length ?pairs" by (simp add: moved_relation_def)
  note P = participants_named [OF this, of pre "''at''"]
  have "ot_at_root u = ev @ '':at''" if "read_ownership_transition parse m' (own_protocol_at pre) ev = Inr u" for u
  proof -
    from that obtain ms where ms: "read_relation m' ev 64 = Inr ms" "participants (mrole pre ''at'') ms = [ot_at_root u]"
      unfolding read_ownership_transition_Inr by blast
    from ms(2) show ?thesis unfolding spelled_only [OF s ms(1)] P by simp
  qed
  moreover have "settled m' X ev" by (rule settled_mono [OF spelled_settled [OF s]]) (use X in blast)
  ultimately show ?thesis unfolding kept_def using X by blast
qed

text \<open>The Cells a transition writes, laid on the ownership it moves on.\<close>

lemma moved_owned:
  assumes o': "owned_at parse m pre X F x" and X: "X \<subseteq> dom m" "F \<inter> X = {}"
    and patch: "prepare_append_relation_members m (ow_root x) [(mrole pre ''transition'', ev)] 100000 draw = Inr patch"
    and inc: "m (ow_state_incidence x) = Some inc" and ev: "ev \<noteq> []"
    and create: "cr = own_terminal (ev @ '':at'') time # rc_cells (moved_relation pre ev source target evidence) @ rp_create patch"
    and l: "laid m cr (Cell (cid inc) (link0 inc) (ostate pre target) (atom inc) # rp_replace patch) m'"
    and read: "read_ownership parse m' (own_protocol_at pre) (ow_root x) = Inr x'"
    and Y: "Y = insert (ev @ '':at'') (cid ` set (rc_cells (moved_relation pre ev source target evidence)))"
  shows "\<exists>F'. owned_at parse m' pre (X \<union> Y) F' x' \<and> F' \<subseteq> F \<union> cid ` set (rp_create patch) \<and> moved_from pre target x x' \<and>
    (\<forall>k. m k \<noteq> None \<longrightarrow> k \<notin> F \<longrightarrow> m' k = m k)"
proof -
  from o' obtain ms where ms: "spelled m (ow_root x) ms F" "read_relation m (ow_root x) 100000 = Inr ms"
    and x: "read_ownership parse m (own_protocol_at pre) (ow_root x) = Inr x" "ow_generation_root x \<in> X" "ow_acquired_root x \<in> X"
    unfolding owned_at_def by blast
  from x(1) ms(2) have own: "own_members pre (ow_root x) ms x" "own_values parse m pre x" unfolding read_ownership_Inr by auto
  from own(1) obtain z where "filter (\<lambda>x. role_id x = mrole pre ''state'') ms = [z]" "ow_state_incidence x = incidence_id z"
    unfolding own_members_def by blast
  with filter_one [OF this(1)] have i: "ow_state_incidence x \<in> incidence_id ` set ms" by simp
  then have i_F: "ow_state_incidence x \<in> F" using spelled_incidence [OF ms(1)] by auto
  have graph: "m NULL_CELL_ID = Some null_cell" "keyed m" using laidD(5) [OF l] graph_okD(1,3) by blast+
  note l' = l [unfolded keyedD [OF graph(2) inc]]
  from append_replaces [OF ms(1) patch _ graph] obtain y where y: "rp_replace patch = [y]" "cid y = NULL_CELL_ID \<or> cid y \<in> F" by blast
  then have y_F: "cid y \<in> F" using laidD(9) [OF l, of y] by auto
  have same: "m' k = m k" if "m k \<noteq> None" "k \<notin> F" for k
    using laidD(7) [OF l' that(1)] that(2) i_F y_F y(1) by auto
  have dom: "dom m \<subseteq> dom m'" using laidD(3) [OF l] .
  note same_X = untouched [OF X same]
  let ?x = "Member (hd (rp_incidences patch)) (mrole pre ''transition'') ev"
  let ?ms = "rewired (ow_state_incidence x) (ostate pre target) (ms @ [?x])"
  have sub: "set (rp_create patch) \<subseteq> set cr" "distinct (map cid (rp_create patch))" using laidD(4) [OF l] create by auto
  from spelled_rewired_append [OF ms(1) patch l' sub i inc] obtain F' where
    F': "spelled m' (ow_root x) ?ms F'" "F' \<subseteq> F \<union> cid ` set (rp_create patch)"
    unfolding fresh_one [OF append_one_incidence [OF patch]] by blast
  from read obtain ms' where ms': "read_relation m' (ow_root x) 100000 = Inr ms'" "own_members pre (ow_root x) ms' x'" "own_values parse m' pre x'"
    unfolding read_ownership_Inr by blast
  have ms'_eq: "ms' = ?ms" by (rule spelled_only [OF F'(1) ms'(1)])
  have "map incidence_id (rewired i new ms) = map incidence_id ms" for i new ms by (simp add: rewired_def)
  then have "distinct (map incidence_id (ms @ [?x]))" using spelled_distinct [OF F'(1)] by simp
  note f = moved_members [OF own(1) spelled_distinct [OF ms(1)] ms'(2) [unfolded ms'_eq] this]
  have "ow_generation x' = ow_generation x"
    using ms'(3) own(2) f(3) same_X x(2) unfolding own_values_def by auto
  then have moved: "moved_from pre target x x'" unfolding moved_from_def using f by simp
  have "lays {} m (rc_cells (moved_relation pre ev source target evidence)) [] m'"
    by (rule lays_part [OF laid_lays [OF l, of UNIV]]; use laidD(4) [OF l] create in auto)
  from moved_kept [OF this ev, folded Y, of "X \<union> Y"] have ev_kept: "kept parse m' pre (X \<union> Y) ev" by blast
  have "kept parse m' pre (X \<union> Y) t" if "t \<in> set (ow_transitions x')" for t
  proof (cases "t = ev")
    case False
    then have t: "t \<in> set (ow_transitions x)" using that f(7) by simp
    from owned_transitions [OF o' t] kept_frame [OF dom same_X] have "kept parse m' pre X t" by blast
    then show ?thesis by (rule kept_mono) blast
  qed (use ev_kept in simp)
  then have "owned_at parse m' pre (X \<union> Y) F' x'"
    unfolding owned_at_def f(9) f(3) f(5) using F'(1) ms'(1) ms'_eq read x(2,3) by blast
  with F'(2) moved same show ?thesis by blast
qed

text \<open>An ownership of the registry is replaced by one that keeps its root.\<close>

lemma registry_moved:
  assumes R: "X \<subseteq> dom m" "own_words pre \<subseteq> dom m"
    and rs: "spelled m (pre @ '':root'') rs Fr" "length rs = REGISTRY_WORDS + length os"
      "participants (mrole pre ''ownership-member'') rs = map ow_root os"
    and ap: "distinct (map ow_root os)" "apart Fr G (ow_root ` set os) X"
    and os: "\<forall>x \<in> set os. owned_at parse m pre X (G (ow_root x)) x"
    and mem: "root \<in> ow_root ` set os" "ow_root x' = root" and owned: "owned_at parse m' pre (X \<union> Y) F' x'"
    and F': "F' \<subseteq> G root \<union> C1" "C1 \<subseteq> C" "Y \<subseteq> C" "C1 \<inter> Y = {}" and C: "C \<inter> dom m = {}" "C \<subseteq> dom m'" and dom: "dom m \<subseteq> dom m'"
    and same: "\<And>k. m k \<noteq> None \<Longrightarrow> k \<notin> G root \<Longrightarrow> m' k = m k"
  shows "\<exists>R'. registry_at parse m' pre (map (\<lambda>z. if ow_root z = root then x' else z) os) R' \<and>
    R' \<inter> dom m \<subseteq> Fr \<union> (\<Union>k \<in> ow_root ` set os. G k) \<union> X"
proof -
  let ?os = "map (\<lambda>z. if ow_root z = root then x' else z) os"
  let ?G = "G(root := F')"
  have roots: "map ow_root ?os = map ow_root os" using mem(2) by simp
  then have root_set: "ow_root ` set ?os = ow_root ` set os" by (metis set_map)
  have G: "C \<inter> G k = {}" if "k \<in> ow_root ` set os" for k using os owned_at_dom C(1) that by blast
  have CF: "C \<inter> Fr = {}" "C \<inter> X = {}" using spelled_dom [OF rs(1)] R(1) C(1) by blast+
  note free = apart_regions [OF ap(2) mem(1)]
  have others: "owned_at parse m' pre (X \<union> Y) (?G (ow_root z)) z" if z: "z \<in> set os" "ow_root z \<noteq> root" for z
  proof -
    have "owned_at parse m pre X (G (ow_root z)) z" "ow_root z \<in> ow_root ` set os" using os z(1) by blast+
    from owned_at_elsewhere [OF this(1) dom R(1) free(1) free(3) [OF this(2) z(2)] same] z(2) show ?thesis by simp
  qed
  have "registry_at parse m' pre ?os (Fr \<union> (\<Union>k \<in> ow_root ` set ?os. ?G k) \<union> (X \<union> Y))"
  proof (rule registry_atI [where G = ?G and X = "X \<union> Y", OF refl])
    show "X \<union> Y \<subseteq> dom m'" using order_trans [OF R(1) dom] order_trans [OF F'(3) C(2)] by simp
    show "own_words pre \<subseteq> dom m'" by (rule order_trans [OF R(2) dom])
    show "spelled m' (pre @ '':root'') rs Fr"
      by (rule spelled_frame [OF rs(1) dom untouched [OF spelled_dom [OF rs(1)] free(2) same]])
    show "length rs = REGISTRY_WORDS + length ?os" using rs(2) by simp
    show "participants (mrole pre ''ownership-member'') rs = map ow_root ?os" "distinct (map ow_root ?os)"
      unfolding roots by (rule rs(3) ap(1))+
    show "apart Fr ?G (ow_root ` set ?os) (X \<union> Y)"
      unfolding root_set by (rule apart_extend [OF ap(2) mem(1) CF G F'])
    show "owned_at parse m' pre (X \<union> Y) (?G (ow_root z)) z" if "z \<in> set ?os" for z
    proof (cases "z = x'")
      case True
      with owned mem(2) show ?thesis by simp
    next
      case False
      with that have "z \<in> set os" "ow_root z \<noteq> root" by auto
      then show ?thesis by (rule others)
    qed
  qed
  moreover have "(Fr \<union> (\<Union>k \<in> ow_root ` set ?os. ?G k) \<union> (X \<union> Y)) \<inter> dom m \<subseteq> Fr \<union> (\<Union>k \<in> ow_root ` set os. G k) \<union> X"
  proof (rule within_parts)
    show "Y \<inter> dom m = {}" using F'(3) C(1) by blast
    have new: "F' \<inter> dom m \<subseteq> G root" using F'(1,2) C(1) by blast
    show "?G k \<inter> dom m \<subseteq> Fr \<union> (\<Union>k \<in> ow_root ` set os. G k) \<union> X" if "k \<in> ow_root ` set ?os" for k
    proof -
      have "?G k \<inter> dom m \<subseteq> G k" using new by (cases "k = root") simp_all
      then show ?thesis using that unfolding root_set by blast
    qed
  qed blast+
  ultimately show ?thesis by blast
qed

lemma move_step:
  assumes at: "registry_at parse m pre os R" and n: "source \<in> set OWNERSHIP_STATE_NAMES" "target \<in> set OWNERSHIP_STATE_NAMES"
    and prep: "transition_cells parse render m (own_protocol_at pre) root source target evidence t u draw = Inr p"
    and mem: "root \<in> ow_root ` set os"
    and l: "laid m (rp_create p) (rp_replace p) m'" and read: "read_ownership parse m' (own_protocol_at pre) root = Inr x'"
  shows "\<exists>x \<in> set os. ow_root x = root \<and> ow_state x = ostate pre source \<and> moved_from pre target x x' \<and>
    (\<exists>R'. registry_at parse m' pre (map (\<lambda>z. if ow_root z = root then x' else z) os) R' \<and> R' \<inter> dom m \<subseteq> R)"
proof -
  define ev where "ev = root @ '':transition:'' @ u"
  from prep n obtain x patch inc where x: "read_ownership parse m (own_protocol_at pre) root = Inr x" "ow_state x = ostate pre source"
    and patch: "prepare_append_relation_members m root [(mrole pre ''transition'', ev)] 100000 draw = Inr patch"
    and inc: "m (ow_state_incidence x) = Some inc"
    and create: "rp_create p = own_terminal (ev @ '':at'') (render t) # rc_cells (moved_relation pre ev source target evidence) @ rp_create patch"
    and replace: "rp_replace p = Cell (cid inc) (link0 inc) (ostate pre target) (atom inc) # rp_replace patch"
    using ev_def by (rule transition_cells_Inr)
  from at obtain Fr rs G X where R: "R = Fr \<union> (\<Union>k \<in> ow_root ` set os. G k) \<union> X" "X \<subseteq> dom m" "own_words pre \<subseteq> dom m"
    and rs: "spelled m (pre @ '':root'') rs Fr" "length rs = REGISTRY_WORDS + length os"
      "participants (mrole pre ''ownership-member'') rs = map ow_root os" and
    ap: "distinct (map ow_root os)" "apart Fr G (ow_root ` set os) X" and os: "\<forall>x \<in> set os. owned_at parse m pre X (G (ow_root x)) x"
    unfolding registry_at_def by blast
  from mem obtain z where z: "z \<in> set os" "ow_root z = root" by blast
  with os x(1) have "z = x" unfolding owned_at_def by force
  note z = z [unfolded this]
  then have o': "owned_at parse m pre X (G (ow_root x)) x" using os by blast
  define rel where "rel = rc_cells (moved_relation pre ev source target evidence)"
  define Y where "Y = insert (ev @ '':at'') (cid ` set rel)"
  have "ev \<noteq> []" by (simp add: ev_def)
  note moved = moved_owned [OF o' R(2) _ _ inc this create l [unfolded replace] _ Y_def [unfolded rel_def], unfolded z(2)]
  from moved [OF apart_regions(1) [OF ap(2) mem] patch read] obtain F' where
    F': "owned_at parse m' pre (X \<union> Y) F' x'" "F' \<subseteq> G root \<union> cid ` set (rp_create patch)" "moved_from pre target x x'"
    and same: "\<And>k. m k \<noteq> None \<Longrightarrow> k \<notin> G root \<Longrightarrow> m' k = m k" by blast
  note create = create [folded rel_def]
  note dist = laidD(4) [OF l, unfolded create]
  have parts: "cid ` set (rp_create patch) \<subseteq> cid ` set (rp_create p)" "Y \<subseteq> cid ` set (rp_create p)"
    unfolding create Y_def by (auto simp: own_terminal_def)
  have pieces: "cid ` set (rp_create patch) \<inter> Y = {}" using dist unfolding Y_def by (auto simp: own_terminal_def)
  have C: "cid ` set (rp_create p) \<inter> dom m = {}" "cid ` set (rp_create p) \<subseteq> dom m'"
    using laidD(1,8) [OF l] unfolding present_def by auto
  have "ow_root x' = root" using F'(3) z(2) by (simp add: moved_from_def)
  from registry_moved [OF R(2,3) rs ap os mem this F'(1,2) parts pieces C laidD(3) [OF l] same] z x(2) F'(3)
  show ?thesis unfolding R(1) by blast
qed

end
