(* ===== verification/OwnershipProps.thy ===== *)
theory OwnershipProps
  imports OwnershipRun
begin

text \<open>
  The properties of ownership: what a read ownership is, and that a registry that is bootstrapped in
  any reachable store, and written by any run of acquisitions, transitions and other commits, keeps
  to the ledger of claims and has at most one live owner per resource.
\<close>

section \<open>Bootstrapping the registry\<close>

lemma batch_add_all_cells:
  "batch_add_all cs b = Inr b' \<Longrightarrow>
     bt_cells b' = bt_cells b @ map (\<lambda>c. (cid c, c)) cs \<and> bt_committed b' = bt_committed b \<and> bt_existing b' = bt_existing b"
  by (induction cs arbitrary: b) (auto simp: batch_add_def split: if_splits)

lemma batch_add_all_fresh:
  assumes "distinct (map cid cs)" "\<forall>c \<in> set cs. bt_existing b (cid c) = None \<and> map_of (bt_cells b) (cid c) = None" "\<not> bt_committed b"
  shows "\<exists>b'. batch_add_all cs b = Inr b'"
  using assms
proof (induction cs arbitrary: b)
  case (Cons c cs)
  let ?b = "b\<lparr>bt_cells := bt_cells b @ [(cid c, c)]\<rparr>"
  have "cid d \<noteq> cid c" if "d \<in> set cs" for d using Cons.prems(1) that by (auto dest: rev_image_eqI [of d _ "cid c" cid])
  then have "\<forall>d \<in> set cs. bt_existing ?b (cid d) = None \<and> map_of (bt_cells ?b) (cid d) = None"
    using Cons.prems by (simp add: map_add_def)
  from Cons.IH [OF _ this] Cons.prems show ?case by (auto simp: batch_add_def)
qed simp

definition own_entries :: "string \<Rightarrow> (string \<times> string) list" where
  "own_entries pre = op_roles (own_protocol_at pre) @ op_states (own_protocol_at pre)"

definition own_vocabulary :: "string \<Rightarrow> relation_cells" where
  "own_vocabulary pre = compose_relation_cells (map (\<lambda>(n, r). (mrole pre ''vocabulary-member'', r)) (own_entries pre))
     (Some (pre @ '':root'')) []"

lemma bootstrap_Inr:
  assumes "bootstrap_ownership_protocol env pre (c, s) = ((c', s'), Inr p)" "st_cells s (pre @ '':root'') = None"
  obtains r where "p = own_protocol_at pre"
    "commit env (st_revision s) (map (\<lambda>(n, r). own_terminal r n) (own_entries pre) @ rc_cells (own_vocabulary pre)) [] (c, s) =
      ((c', s'), Inr r)"
proof -
  have root: "op_root (own_protocol_at pre) = pre @ '':root''" by (simp add: own_protocol_at_def)
  have list: "snd \<circ> ((\<lambda>c :: cell. (cid c, c)) \<circ> f) = f" "map (snd \<circ> (\<lambda>c. (cid c, c))) cs = cs" for f :: "string \<times> string \<Rightarrow> cell" and cs
    by (simp_all add: comp_def)
  from assms show thesis
    unfolding bootstrap_ownership_protocol_def Let_def store_snapshot_def new_batch_def batch_relation_def batch_commit_def root
      own_entries_def [symmetric] own_roles rbind_simps own_vocabulary_def [symmetric]
    apply (auto simp: rbind_Inr_iff split: sum.splits if_splits prod.splits dest!: batch_add_all_cells)
    apply (rule that)
    apply (simp_all add: list)
    done
qed

lemma bootstrapped_registry:
  assumes s: "reachable sha shake s" "\<And>x. length (sha x) = 32" and env: "env_transform env = None"
    and run: "bootstrap_ownership_protocol (hashed sha shake env) pre (c, s) = ((c', s'), Inr p)"
    and new: "st_cells s (pre @ '':root'') = None"
  shows "p = own_protocol_at pre \<and> reachable sha shake s' \<and> dom (st_cells s) \<subseteq> dom (st_cells s') \<and>
    (\<exists>R. registry_at parse (st_cells s') pre [] R \<and> R \<inter> dom (st_cells s) = {})"
proof -
  from run new obtain r where p: "p = own_protocol_at pre"
    and r: "commit (hashed sha shake env) (st_revision s) (map (\<lambda>(n, r). own_terminal r n) (own_entries pre) @
      rc_cells (own_vocabulary pre)) [] (c, s) = ((c', s'), Inr r)"
    by (rule bootstrap_Inr)
  obtain j where inv: "store_inv sha shake s j" using reachable_inv [OF s] by blast
  note l = commit_lays [OF inv s(2) env r]
  let ?words = "map (\<lambda>(n, r). own_terminal r n) (own_entries pre)"
  let ?rel = "own_vocabulary pre"
  have d: "distinct (map cid (?words @ rc_cells ?rel))" using laidD(4) [OF l] .
  have "lays {} (st_cells s) (rc_cells ?rel) [] (st_cells s')"
    by (rule lays_part [OF laid_lays [OF l, of UNIV]]; use d in simp)
  note s = s this
  define rs where "rs = fresh_members (rb_incidences (rc_build ?rel)) (map (\<lambda>(n, r). (mrole pre ''vocabulary-member'', r)) (own_entries pre))"
  have "spelled (st_cells s') (pre @ '':root'') rs (cid ` set (rc_cells ?rel))"
    using spelled_compose [OF s(3) [unfolded own_vocabulary_def]] by (simp add: rs_def own_vocabulary_def)
  moreover have "length rs = REGISTRY_WORDS"
    by (simp add: rs_def own_vocabulary_def own_entries_def own_protocol_at_def REGISTRY_WORDS_def)
  moreover have "participants (mrole pre ''ownership-member'') rs = []"
  proof -
    have "role_id x = mrole pre ''vocabulary-member''" if "x \<in> set rs" for x
      using that unfolding rs_def fresh_members_def by (auto simp: set_zip split: prod.splits)
    then show ?thesis by (auto simp: participants_def filter_empty_conv)
  qed
  moreover have "own_words pre \<subseteq> dom (st_cells s')"
  proof -
    have "own_words pre \<subseteq> cid ` set ?words"
      by (simp add: own_words_def mrole_def own_state_roots_def own_entries_def own_protocol_at_def own_terminal_def ostate_def image_Un image_image)
    then show ?thesis using laidD(1) [OF l] unfolding present_def by force
  qed
  ultimately have "registry_at parse (st_cells s') pre [] (cid ` set (rc_cells ?rel))"
    by (intro registry_atI [where G = "\<lambda>_. {}" and X = "{}" and Fr = "cid ` set (rc_cells ?rel)" and rs = rs]) (simp_all add: apart_def)
  moreover have "cid ` set (rc_cells ?rel) \<inter> dom (st_cells s) = {}" using laidD(8) [OF l] by auto
  ultimately show ?thesis using p commit_reachable [OF s(1) r] laidD(3) [OF l] by blast
qed

section \<open>Lives of a registry\<close>

text \<open>The claim an ownership says it is, after an acquisition and after a transition.\<close>

lemma acquire_claim:
  assumes "list_all2 (shows_claim pre) os cs" and x: "newly_owned pre os root resource holder x"
  shows "\<exists>cs'. claim_acquire root resource holder cs = Some cs' \<and> list_all2 (shows_claim pre) (os @ [x]) cs'"
proof -
  let ?os = "filter (\<lambda>x. ow_resource x = resource) os"
  note on = shows_filter [OF assms(1), of resource]
  have roots: "map cl_root cs = map ow_root os"
    using assms(1) by (induction rule: list_all2_induct) (simp_all add: shows_claim_def)
  from x have f: "ow_root x = root" "ow_resource x = resource" "ow_holder x = holder" "ow_generation x = int (Suc (length ?os))"
    "ow_state x = ostate pre ''active''" "ow_predecessor x = (if ?os = [] then None else Some (ow_root (last ?os)))"
    and dead: "\<forall>y \<in> set ?os. \<not> live_at pre y" and new: "root \<notin> ow_root ` set os"
    unfolding newly_owned_def Let_def by blast+
  have "root \<notin> cl_root ` set cs" using arg_cong [OF roots, of set] new by simp
  moreover have "\<forall>c \<in> set (claims_on resource cs). \<not> live_claim c"
    using on dead by (induction rule: list_all2_induct) (auto simp: live_shows)
  moreover have len: "length (claims_on resource cs) = length ?os" using list_all2_lengthD [OF on] by simp
  moreover have "shows_claim pre (last ?os) (last (claims_on resource cs))" if "?os \<noteq> []"
  proof -
    have "claims_on resource cs \<noteq> []" using that len by force
    with on that len show ?thesis by (simp add: last_conv_nth list_all2_conv_all_nth)
  qed
  then have "?os \<noteq> [] \<Longrightarrow> ow_root (last ?os) = cl_root (last (claims_on resource cs))" by (simp add: shows_claim_def)
  ultimately show ?thesis
    using f assms(1) by (auto simp: claim_acquire_def Let_def shows_claim_def intro!: list_all2_appendI)
qed

lemma list_all2_mono_in: "list_all2 P xs ys \<Longrightarrow> (\<And>x y. x \<in> set xs \<Longrightarrow> P x y \<Longrightarrow> Q x y) \<Longrightarrow> list_all2 Q xs ys"
  by (simp add: list_all2_conv_all_nth)

lemma move_claim:
  assumes sh: "list_all2 (shows_claim pre) os cs" and "distinct (map ow_root os)"
    and x: "x \<in> set os" "ow_root x = root" "ow_state x = ostate pre source" "moved_from pre target x x'"
  shows "\<exists>cs'. claim_move root source target cs = Some cs' \<and>
    list_all2 (shows_claim pre) (map (\<lambda>z. if ow_root z = root then x' else z) os) cs'"
proof -
  from x(1) obtain i where i: "i < length os" "os ! i = x" unfolding in_set_conv_nth by blast
  define c where "c = cs ! i"
  have c: "c \<in> set cs" "shows_claim pre x c"
    using list_all2_nthD [OF sh i(1)] list_all2_lengthD [OF sh] i by (simp_all add: c_def)
  then have "cl_root c = root" "cl_state c = source" using x(2,3) by (simp_all add: shows_claim_def)
  with c(1) have move: "claim_move root source target cs = Some (map (\<lambda>c. if cl_root c = root then c\<lparr>cl_state := target\<rparr> else c) cs)"
    by (auto simp: claim_move_def)
  have only: "z = x" if "z \<in> set os" "ow_root z = root" for z
    using assms(2) that x(1,2) by (metis distinct_map inj_onD)
  have "list_all2 (shows_claim pre) (map (\<lambda>z. if ow_root z = root then x' else z) os)
      (map (\<lambda>c. if cl_root c = root then c\<lparr>cl_state := target\<rparr> else c) cs)"
    unfolding list_all2_map1 list_all2_map2
  proof (rule list_all2_mono_in [OF sh])
    fix z c assume z: "z \<in> set os" "shows_claim pre z c"
    show "shows_claim pre (if ow_root z = root then x' else z) (if cl_root c = root then c\<lparr>cl_state := target\<rparr> else c)"
    proof (cases "ow_root z = root")
      case True
      with only [OF z(1)] z(2) x(4) show ?thesis by (auto simp: shows_claim_def moved_from_def)
    qed (use z(2) in \<open>simp add: shows_claim_def\<close>)
  qed
  with move show ?thesis by blast
qed

text \<open>What can be committed in the life of a registry: an acquisition, a transition, or anything else.\<close>

datatype owner_act =
    Acquire commit_env string string string py_float "string option" string "nat \<Rightarrow> string"
  | Move_on commit_env string string string py_float string "nat \<Rightarrow> string"
  | Aside commit_env "cell list" "cell list"

definition own_act ::
  "(bytes \<Rightarrow> bytes) \<Rightarrow> (bytes \<Rightarrow> bytes) \<Rightarrow> (bytes \<Rightarrow> py_float option) \<Rightarrow> (py_float \<Rightarrow> bytes) \<Rightarrow> string \<Rightarrow> owner_act \<Rightarrow>
     ctx \<times> store \<Rightarrow> (ctx \<times> store) \<times> unit result" where
  "own_act sha shake parse render pre a cs = (case a of
     Acquire env resource holder evidence t given u draw \<Rightarrow>
       (case acquire_ownership (hashed sha shake env) parse render (own_protocol_at pre) resource holder evidence t given u draw cs of
          (cs', res) \<Rightarrow> (cs', rbind res (\<lambda>_. Inr ())))
   | Move_on env root event evidence t u draw \<Rightarrow>
       (case transition_ownership (hashed sha shake env) parse render (own_protocol_at pre) root event evidence t u draw cs of
          (cs', res) \<Rightarrow> (cs', rbind res (\<lambda>_. Inr ())))
   | Aside env create replace \<Rightarrow>
       (case commit (hashed sha shake env) (st_revision (snd cs)) create replace cs of (cs', res) \<Rightarrow> (cs', rbind res (\<lambda>_. Inr ()))))"

fun own_acts ::
  "(bytes \<Rightarrow> bytes) \<Rightarrow> (bytes \<Rightarrow> bytes) \<Rightarrow> (bytes \<Rightarrow> py_float option) \<Rightarrow> (py_float \<Rightarrow> bytes) \<Rightarrow> string \<Rightarrow> owner_act list \<Rightarrow>
     ctx \<times> store \<Rightarrow> (ctx \<times> store) \<times> unit result" where
  "own_acts sha shake parse render pre [] cs = (cs, Inr ())"
| "own_acts sha shake parse render pre (a # as) cs =
     (case own_act sha shake parse render pre a cs of
        (cs', Inl e) \<Rightarrow> (cs', Inl e)
      | (cs', Inr _) \<Rightarrow> own_acts sha shake parse render pre as cs')"

text \<open>The same acts on the ledger.\<close>

definition claim_act :: "owner_act \<Rightarrow> claim list \<Rightarrow> claim list option" where
  "claim_act a cs = (case a of
     Acquire env resource holder evidence t given u draw \<Rightarrow> claim_acquire (acquired_root given u) resource holder cs
   | Move_on env root event evidence t u draw \<Rightarrow>
       (case map_of ownership_events event of None \<Rightarrow> None | Some (source, target) \<Rightarrow> claim_move root source target cs)
   | Aside env create replace \<Rightarrow> Some cs)"

fun claim_acts :: "owner_act list \<Rightarrow> claim list \<Rightarrow> claim list option" where
  "claim_acts [] cs = Some cs"
| "claim_acts (a # as) cs = Option.bind (claim_act a cs) (claim_acts as)"

text \<open>
  An act is fit when it moves on only an ownership that was acquired before, and replaces only Cells
  of \<open>A\<close> of its own.
\<close>

fun fit_acts :: "string set \<Rightarrow> string set \<Rightarrow> owner_act list \<Rightarrow> bool" where
  "fit_acts A known [] \<longleftrightarrow> True"
| "fit_acts A known (Acquire env resource holder evidence t given u draw # as) \<longleftrightarrow>
     env_transform env = None \<and> fit_acts A (insert (acquired_root given u) known) as"
| "fit_acts A known (Move_on env root event evidence t u draw # as) \<longleftrightarrow>
     env_transform env = None \<and> root \<in> known \<and> fit_acts A known as"
| "fit_acts A known (Aside env create replace # as) \<longleftrightarrow>
     env_transform env = None \<and> cid ` set replace \<subseteq> A \<and> fit_acts A known as"

lemma claim_act_ok: "claims_ok cs \<Longrightarrow> claim_act a cs = Some cs' \<Longrightarrow> claims_ok cs'"
proof (cases a)
  case (Move_on env root event evidence t u draw)
  moreover assume "claims_ok cs" "claim_act a cs = Some cs'"
  ultimately obtain source target where "map_of ownership_events event = Some (source, target)"
    "claim_move root source target cs = Some cs'" by (auto simp: claim_act_def split: option.splits)
  with \<open>claims_ok cs\<close> claim_move_ok event_states show ?thesis by blast
qed (auto simp: claim_act_def intro: claim_acquire_ok)

lemma claim_acts_ok: "claims_ok cs \<Longrightarrow> claim_acts as cs = Some cs' \<Longrightarrow> claims_ok cs'"
proof (induction as arbitrary: cs)
  case (Cons a as)
  then show ?case using claim_act_ok by (auto simp: bind_eq_Some_conv)
qed simp

text \<open>A registry with the ledger it shows, apart from the Cells \<open>A\<close>, in a reachable store.\<close>

definition keeps_ledger ::
  "(bytes \<Rightarrow> bytes) \<Rightarrow> (bytes \<Rightarrow> bytes) \<Rightarrow> (bytes \<Rightarrow> py_float option) \<Rightarrow> string \<Rightarrow> string set \<Rightarrow> store \<Rightarrow> ownership list \<Rightarrow> claim list \<Rightarrow> bool" where
  "keeps_ledger sha shake parse pre A s os cs \<longleftrightarrow> reachable sha shake s \<and> A \<subseteq> dom (st_cells s) \<and>
     list_all2 (shows_claim pre) os cs \<and> (\<exists>R. registry_at parse (st_cells s) pre os R \<and> A \<inter> R = {})"

lemma keeps_ledgerI:
  assumes "keeps_ledger sha shake parse pre A s os cs" "reachable sha shake s'" "dom (st_cells s) \<subseteq> dom (st_cells s')"
    and "list_all2 (shows_claim pre) os' cs'" "registry_at parse (st_cells s') pre os' R'" "R' \<inter> dom (st_cells s) \<subseteq> R" "A \<inter> R = {}"
  shows "keeps_ledger sha shake parse pre A s' os' cs'"
proof -
  have "A \<inter> R' = {}" "A \<subseteq> dom (st_cells s')" using assms(1,3,6,7) unfolding keeps_ledger_def by blast+
  with assms(2,4,5) show ?thesis unfolding keeps_ledger_def by blast
qed

lemma own_act_step:
  assumes sha: "\<And>x. length (sha x) = 32" and k: "keeps_ledger sha shake parse pre A s os cs"
    and fit: "fit_acts A (ow_root ` set os) (a # as)" and few: "REGISTRY_WORDS + length os < 100000"
    and run: "own_act sha shake parse render pre a (c, s) = ((c', s'), Inr v)"
  shows "\<exists>os' cs'. claim_act a cs = Some cs' \<and> keeps_ledger sha shake parse pre A s' os' cs' \<and>
    fit_acts A (ow_root ` set os') as \<and> length os' \<le> Suc (length os)"
proof -
  from k obtain R where s: "reachable sha shake s" "A \<subseteq> dom (st_cells s)" "list_all2 (shows_claim pre) os cs"
    "registry_at parse (st_cells s) pre os R" "A \<inter> R = {}" unfolding keeps_ledger_def by blast
  obtain j where inv: "store_inv sha shake s j" using reachable_inv [OF s(1) sha] by blast
  show ?thesis
  proof (cases a)
    case (Acquire env resource holder evidence t given u draw)
    with run obtain x r where "acquire_ownership (hashed sha shake env) parse render (own_protocol_at pre) resource holder evidence t
        given u draw (c, s) = ((c', s'), Inr (x, r))" by (auto simp: own_act_def rbind_Inr_iff split: prod.splits)
    then obtain p where p: "acquire_cells parse render (st_cells s) (own_protocol_at pre) resource holder evidence t
        (acquired_root given u) draw = Inr p" and r: "commit (hashed sha shake env) (st_revision s) (rp_create p) (rp_replace p) (c, s) =
        ((c', s'), Inr r)" and x: "read_ownership parse (st_cells s') (own_protocol_at pre) (acquired_root given u) = Inr x"
      using refl by (rule acquire_ownership_Inr)
    from fit Acquire have env: "env_transform env = None" and rest: "fit_acts A (insert (acquired_root given u) (ow_root ` set os)) as" by auto
    note l = commit_lays [OF inv sha env r]
    from acquire_step [OF s(4) few acquired_root_nonempty p l x] obtain R' where
      new: "newly_owned pre os (acquired_root given u) resource holder x" and
      R': "registry_at parse (st_cells s') pre (os @ [x]) R'" "R' \<inter> dom (st_cells s) \<subseteq> R" by blast
    from acquire_claim [OF s(3) new] obtain cs' where
      cs': "claim_acquire (acquired_root given u) resource holder cs = Some cs'" "list_all2 (shows_claim pre) (os @ [x]) cs'" by blast
    from keeps_ledgerI [OF k commit_reachable [OF s(1) r] laidD(3) [OF l] cs'(2) R' s(5)]
    have "keeps_ledger sha shake parse pre A s' (os @ [x]) cs'" .
    moreover have "ow_root x = acquired_root given u" using new unfolding newly_owned_def Let_def by blast
    ultimately show ?thesis
      using cs'(1) rest Acquire by (intro exI [of _ "os @ [x]"] exI [of _ cs']) (simp add: claim_act_def)
  next
    case (Move_on env root event evidence t u draw)
    with run obtain x' r where "transition_ownership (hashed sha shake env) parse render (own_protocol_at pre) root event evidence t
        u draw (c, s) = ((c', s'), Inr (x', r))" by (auto simp: own_act_def rbind_Inr_iff split: prod.splits)
    then obtain source target p where e: "map_of ownership_events event = Some (source, target)" and
      p: "transition_cells parse render (st_cells s) (own_protocol_at pre) root source target evidence t u draw = Inr p" and
      r: "commit (hashed sha shake env) (st_revision s) (rp_create p) (rp_replace p) (c, s) = ((c', s'), Inr r)" and
      x': "read_ownership parse (st_cells s') (own_protocol_at pre) root = Inr x'" by (rule transition_ownership_Inr)
    from fit Move_on have env: "env_transform env = None" and mem: "root \<in> ow_root ` set os" and rest: "fit_acts A (ow_root ` set os) as" by auto
    note l = commit_lays [OF inv sha env r]
    have n: "source \<in> set OWNERSHIP_STATE_NAMES" "target \<in> set OWNERSHIP_STATE_NAMES" using event_states [OF e] by blast+
    let ?os = "map (\<lambda>z. if ow_root z = root then x' else z) os"
    from move_step [OF s(4) n p mem l x'] obtain x R' where
      x: "x \<in> set os" "ow_root x = root" "ow_state x = ostate pre source" "moved_from pre target x x'" and
      R': "registry_at parse (st_cells s') pre ?os R'" "R' \<inter> dom (st_cells s) \<subseteq> R" by blast
    have "distinct (map ow_root os)" using s(4) unfolding registry_at_def by blast
    from move_claim [OF s(3) this x] obtain cs' where
      cs': "claim_move root source target cs = Some cs'" "list_all2 (shows_claim pre) ?os cs'" by blast
    from keeps_ledgerI [OF k commit_reachable [OF s(1) r] laidD(3) [OF l] cs'(2) R' s(5)]
    have "keeps_ledger sha shake parse pre A s' ?os cs'" .
    moreover have "map ow_root ?os = map ow_root os" using x(2,4) by (simp add: moved_from_def)
    then have "ow_root ` set ?os = ow_root ` set os" by (metis set_map)
    ultimately show ?thesis
      using cs'(1) rest e Move_on by (intro exI [of _ ?os] exI [of _ cs']) (simp add: claim_act_def)
  next
    case (Aside env create replace)
    with run obtain r where r: "commit (hashed sha shake env) (st_revision s) create replace (c, s) = ((c', s'), Inr r)"
      by (auto simp: own_act_def rbind_Inr_iff split: prod.splits)
    from fit Aside have f: "env_transform env = None" "cid ` set replace \<subseteq> A" "fit_acts A (ow_root ` set os) as" by auto
    note l = commit_lays [OF inv sha f(1) r]
    have "\<forall>k \<in> R. st_cells s' k = st_cells s k"
    proof
      fix i assume i: "i \<in> R"
      then have "i \<notin> cid ` set replace" using f(2) s(5) by blast
      moreover have "st_cells s i \<noteq> None" using i registry_at_reads(2) [OF s(4) few] by auto
      ultimately show "st_cells s' i = st_cells s i" using laidD(7) [OF l] by simp
    qed
    from registry_at_frame [OF s(4) laidD(3) [OF l] this] have "registry_at parse (st_cells s') pre os R" .
    from keeps_ledgerI [OF k commit_reachable [OF s(1) r] laidD(3) [OF l] s(3) this _ s(5)] f(3) Aside show ?thesis
      by (intro exI [of _ os] exI [of _ cs]) (simp add: claim_act_def)
  qed
qed

lemma own_acts_ledger:
  assumes sha: "\<And>x. length (sha x) = 32"
    and "keeps_ledger sha shake parse pre A s os cs" "fit_acts A (ow_root ` set os) as" "REGISTRY_WORDS + length os + length as < 100000"
    and "own_acts sha shake parse render pre as (c, s) = ((c', s'), Inr v)"
  shows "\<exists>os' cs'. claim_acts as cs = Some cs' \<and> keeps_ledger sha shake parse pre A s' os' cs' \<and> REGISTRY_WORDS + length os' < 100000"
  using assms(2-)
proof (induction as arbitrary: c s os cs)
  case (Cons a as)
  from Cons.prems(4) obtain c1 s1 w where one: "own_act sha shake parse render pre a (c, s) = ((c1, s1), Inr w)"
    and rest: "own_acts sha shake parse render pre as (c1, s1) = ((c', s'), Inr v)" by (auto split: prod.splits sum.splits)
  have few: "REGISTRY_WORDS + length os < 100000" using Cons.prems(3) by simp
  from own_act_step [OF sha Cons.prems(1,2) few one] obtain os1 cs1 where
    step: "claim_act a cs = Some cs1" "keeps_ledger sha shake parse pre A s1 os1 cs1" "fit_acts A (ow_root ` set os1) as"
      "length os1 \<le> Suc (length os)" by blast
  have "REGISTRY_WORDS + length os1 + length as < 100000" using Cons.prems(3) step(4) by simp
  from Cons.IH [OF step(2,3) this rest] step(1) show ?case by simp
qed auto

section \<open>Free resources\<close>

lemma registry_root_not_null: "pre @ '':root'' \<noteq> NULL_CELL_ID"
proof
  assume "pre @ '':root'' = NULL_CELL_ID"
  then have "last (pre @ '':root'') = last NULL_CELL_ID" by simp
  then show False by (simp add: NULL_CELL_ID_def)
qed

lemma show_nat_length: "n < 10 ^ k \<Longrightarrow> 0 < k \<Longrightarrow> length (show_nat n) \<le> k"
proof (induction n arbitrary: k rule: show_nat.induct)
  case (1 n)
  show ?case
  proof (cases "n < 10")
    case True
    with "1.prems" show ?thesis by (simp add: show_nat.simps [of n])
  next
    case False
    define j where "j = k - 1"
    have k: "k = Suc j" "0 < j" using False "1.prems" by (cases "k = 1"; simp add: j_def)+
    have "n div 10 < 10 ^ j" using "1.prems"(1) k(1) by (simp add: less_mult_imp_div_less mult.commute)
    from "1.IH" [OF False this k(2)] False k show ?thesis by (simp add: show_nat.simps [of n])
  qed
qed

text \<open>What a new ownership must name, and the identities it draws.\<close>

definition can_acquire ::
  "(bytes \<Rightarrow> py_float option) \<Rightarrow> (py_float \<Rightarrow> bytes) \<Rightarrow> cells \<Rightarrow> string \<Rightarrow> string \<Rightarrow> string \<Rightarrow> string \<Rightarrow> py_float \<Rightarrow> string \<Rightarrow> (nat \<Rightarrow> string) \<Rightarrow> bool" where
  "can_acquire parse render m pre resource holder evidence t root draw \<longleftrightarrow>
     m resource \<noteq> None \<and> m holder \<noteq> None \<and> m evidence \<noteq> None \<and> m root = None \<and> root \<noteq> [] \<and>
     (\<exists>v. parse (render t) = Some v \<and> \<not> float_le v (Finite 0)) \<and>
     (\<forall>p. acquire_cells parse render m (own_protocol_at pre) resource holder evidence t root draw = Inr p \<longrightarrow>
        distinct (map cid (rp_create p)) \<and> (\<forall>x \<in> set (rp_create p). m (cid x) = None \<and> cid x \<noteq> []))"

lemma acquired_pairs_in:
  "(n, x) \<in> set (acquired_pairs pre root resource holder evidence pred) \<Longrightarrow>
     n \<in> set OWNERSHIP_ROLE_NAMES \<and> x \<in> {resource, holder, evidence, root @ '':generation'', root @ '':acquired-at'', ostate pre ''active''} \<union> set_option pred"
  by (auto simp: acquired_pairs_def OWNERSHIP_ROLE_NAMES_def split: option.splits)

lemma compose_links_in:
  assumes "x \<in> set (rc_cells (compose_relation_cells ps rid u))" "cid ` set (rc_cells (compose_relation_cells ps rid u)) \<subseteq> D"
    and "fst ` set ps \<subseteq> D" "snd ` set ps \<subseteq> D" "NULL_CELL_ID \<in> D"
  shows "link0 x \<in> D \<and> link1 x \<in> D"
proof -
  have "insert NULL_CELL_ID (cid ` set (rc_cells (compose_relation_cells ps rid u)) \<union> fst ` set ps) \<subseteq> D"
    "insert NULL_CELL_ID (cid ` set (rc_cells (compose_relation_cells ps rid u)) \<union> snd ` set ps) \<subseteq> D"
    using assms(2-5) by simp_all
  from subsetD [OF this(1)] subsetD [OF this(2)] compose_links [OF assms(1)] show ?thesis by simp
qed

lemma acquire_prepared:
  assumes ok: "graph_ok m" and at: "registry_at parse m pre os R" and few: "REGISTRY_WORDS + length os < 100000"
    and cs: "list_all2 (shows_claim pre) os cs" "claims_ok cs"
    and free: "\<forall>x \<in> set os. ow_resource x = resource \<longrightarrow> \<not> live_at pre x"
    and can: "can_acquire parse render m pre resource holder evidence t root draw"
  shows "\<exists>p y. acquire_cells parse render m (own_protocol_at pre) resource holder evidence t root draw = Inr p \<and>
    rp_replace p = [y] \<and> m (cid y) \<noteq> None \<and> cid y \<noteq> NULL_CELL_ID \<and> rp_create p \<noteq> [] \<and>
    (\<forall>x \<in> set (rp_create p) \<union> set (rp_replace p). link0 x \<in> dom m \<union> cid ` set (rp_create p) \<and> link1 x \<in> dom m \<union> cid ` set (rp_create p))"
proof -
  let ?mine = "filter (\<lambda>x. ow_resource x = resource) os"
  let ?pred = "if ?mine = [] then None else Some (ow_root (last ?mine))"
  let ?rel = "acquired_relation pre root resource holder evidence ?pred"
  from can have here: "m resource \<noteq> None" "m holder \<noteq> None" "m evidence \<noteq> None" "m root = None" "root \<noteq> []"
    unfolding can_acquire_def by blast+
  from at obtain Fr rs where words: "own_words pre \<subseteq> dom m" and rs: "spelled m (pre @ '':root'') rs Fr" "length rs = REGISTRY_WORDS + length os"
    unfolding registry_at_def by blast
  obtain patch where patch: "prepare_append_relation_members m (pre @ '':root'') [(mrole pre ''ownership-member'', root)] 100000 draw = Inr patch"
    using append_succeeds [OF rs(1) registry_root_not_null, of 100000] rs(2) few by auto
  have "ostate pre ''active'' \<in> own_words pre" by (simp add: own_words_def own_state_roots_def OWNERSHIP_STATE_NAMES_def)
  then have active: "m (ostate pre ''active'') \<noteq> None" using words by blast
  have role: "m (mrole pre n) \<noteq> None" if "n \<in> set OWNERSHIP_ROLE_NAMES" for n using words that unfolding own_words_def by blast
  note v = verified(1) [OF registry_at_reads(1) [OF at few] cs]
  define p where "p = Patch [] (own_terminal (root @ '':generation'') (show_nat (length ?mine + 1)) #
      own_terminal (root @ '':acquired-at'') (render t) # rc_cells ?rel @ rp_create patch) (rp_replace patch)"
  have root: "op_root (own_protocol_at pre) = pre @ '':root''" by (simp add: own_protocol_at_def)
  have pairs: "own_pairs (own_protocol_at pre) [(''ownership-member'', root)] = Inr [(mrole pre ''ownership-member'', root)]"
    by (simp add: own_pairs_def)
  have present: "\<not> (\<exists>r \<in> {pre @ '':root'', resource, holder, evidence, ostate pre ''active''}. m r = None)"
    using here active spelled_root [OF rs(1)] by simp
  have dead: "\<not> (\<exists>x \<in> set ?mine. ow_state x \<in> {ostate pre ''active'', ostate pre ''draining''})"
    using free by (auto simp: live_at_def)
  have prep: "acquire_cells parse render m (own_protocol_at pre) resource holder evidence t root draw = Inr p"
    unfolding acquire_cells_def Let_def own_states live_states_at rbind_simps acquired_pairs_roles pairs root v
    using present dead here(4) patch by (simp only: if_False rbind_simps p_def acquired_relation_def simp_thms)
  obtain y where y: "rp_replace patch = [y]" "cid y \<in> Fr" "cid y \<noteq> NULL_CELL_ID"
    using append_replaced [OF rs(1) registry_root_not_null patch _ graph_okD(1) [OF ok]] by auto
  let ?D = "dom m \<union> cid ` set (rp_create p)"
  have "root \<in> cid ` set (rc_cells ?rel)" unfolding acquired_relation_def using compose_root_in [OF here(5)] .
  then have D: "root \<in> ?D" "root @ '':generation'' \<in> ?D" "root @ '':acquired-at'' \<in> ?D" "NULL_CELL_ID \<in> ?D" "mrole pre ''ownership-member'' \<in> ?D"
    using role [of "''ownership-member''"] graph_okD(3) [OF ok] by (auto simp: p_def own_terminal_def OWNERSHIP_ROLE_NAMES_def)
  have pred: "set_option ?pred \<subseteq> dom m"
  proof (cases "?mine = []")
    case False
    then have "last ?mine \<in> set os" using last_in_set [OF False] by simp
    then have "m (ow_root (last ?mine)) \<noteq> None" using registry_roots_in [OF at] by blast
    with False show ?thesis by auto
  qed simp
  have rel_links: "link0 x \<in> ?D \<and> link1 x \<in> ?D" if "x \<in> set (rc_cells ?rel)" for x
  proof -
    have "fst ` set (named pre (acquired_pairs pre root resource holder evidence ?pred)) \<subseteq> dom m"
      using role acquired_pairs_in by (force simp: named_def)
    then have fst: "fst ` set (named pre (acquired_pairs pre root resource holder evidence ?pred)) \<subseteq> ?D" by (rule le_supI1)
    have snd: "snd ` set (named pre (acquired_pairs pre root resource holder evidence ?pred)) \<subseteq> ?D"
    proof
      fix x assume "x \<in> snd ` set (named pre (acquired_pairs pre root resource holder evidence ?pred))"
      then obtain n where "(n, x) \<in> set (acquired_pairs pre root resource holder evidence ?pred)"
        unfolding named_def by (auto simp del: split_paired_All)
      then have "x \<in> {resource, holder, evidence, root @ '':generation'', root @ '':acquired-at'', ostate pre ''active''} \<or> x \<in> set_option ?pred"
        using acquired_pairs_in by (metis Un_iff)
      then show "x \<in> ?D"
      proof
        assume "x \<in> {resource, holder, evidence, root @ '':generation'', root @ '':acquired-at'', ostate pre ''active''}"
        then consider "m x \<noteq> None" | "x = root @ '':generation''" | "x = root @ '':acquired-at''" using here(1-3) active by fastforce
        then show ?thesis using D(2,3) by cases (simp_all add: domIff)
      next
        assume "x \<in> set_option ?pred"
        then show ?thesis using pred by (rule UnI1 [OF subsetD [rotated]])
      qed
    qed
    have "cid ` set (rc_cells ?rel) \<subseteq> ?D" by (auto simp: p_def)
    from compose_links_in [OF that [unfolded acquired_relation_def] this [unfolded acquired_relation_def] fst snd D(4)] show ?thesis .
  qed
  have app_links: "\<forall>y \<in> set (rp_create patch) \<union> set (rp_replace patch). link0 y \<in> ?D \<and> link1 y \<in> ?D"
    by (rule append_one_links [OF rs(1) registry_root_not_null ok patch _ _ D(5,1)]) (auto simp: p_def)
  have "link0 x \<in> ?D \<and> link1 x \<in> ?D" if "x \<in> set (rp_create p) \<union> set (rp_replace p)" for x
  proof -
    have "x \<in> {own_terminal (root @ '':generation'') (show_nat (length ?mine + 1)), own_terminal (root @ '':acquired-at'') (render t)} \<or>
      x \<in> set (rc_cells ?rel) \<or> x \<in> set (rp_create patch) \<union> set (rp_replace patch)"
      using that by (simp add: p_def)
    then show ?thesis
    proof (elim disjE)
      assume "x \<in> {own_terminal (root @ '':generation'') (show_nat (length ?mine + 1)), own_terminal (root @ '':acquired-at'') (render t)}"
      then have "link0 x = NULL_CELL_ID" "link1 x = NULL_CELL_ID" by (auto simp: own_terminal_def)
      then show ?thesis using D(4) by simp
    qed (rule rel_links app_links [rule_format], assumption)+
  qed
  moreover have "m (cid y) \<noteq> None" using y(2) spelled_dom [OF rs(1)] by blast
  ultimately show ?thesis using prep y by (intro exI [of _ p] exI [of _ y]) (simp add: p_def)
qed

lemma acquired_reads:
  assumes spelled: "spelled m root (fresh_members is (named pre (acquired_pairs pre root resource holder evidence pred))) F"
    and len: "length is = length (acquired_pairs pre root resource holder evidence pred)"
    and gen: "m (root @ '':generation'') = Some (own_terminal (root @ '':generation'') (show_nat n))" "0 < n" "n < 100000"
    and acq: "m (root @ '':acquired-at'') = Some (own_terminal (root @ '':acquired-at'') (render t))"
      "parse (render t) = Some v" "\<not> float_le v (Finite 0)" and ev: "m evidence \<noteq> None"
  shows "\<exists>x. read_ownership parse m (own_protocol_at pre) root = Inr x"
proof -
  let ?pairs = "acquired_pairs pre root resource holder evidence pred"
  let ?ms = "fresh_members is (named pre ?pairs)"
  have few: "length ?pairs \<le> 7" by (simp add: acquired_pairs_def split: option.splits)
  have read: "read_relation m root 100000 = Inr ?ms" using spelled_read [OF spelled] few len by simp
  note P = participants_named [OF len, of pre]
  have "participants (mrole pre ''state'') ?ms = [ostate pre ''active'']"
    unfolding P by (cases pred) (simp_all add: acquired_pairs_def)
  then obtain y where y: "filter (\<lambda>x. role_id x = mrole pre ''state'') ?ms = [y]" "participant_id y = ostate pre ''active''"
    unfolding participants_single by auto
  define x where "x = \<lparr>ow_root = root, ow_resource = resource, ow_holder = holder, ow_generation = int n,
    ow_generation_root = root @ '':generation'', ow_state = ostate pre ''active'', ow_state_incidence = incidence_id y,
    ow_acquired_root = root @ '':acquired-at'', ow_predecessor = pred, ow_evidence = [evidence], ow_transitions = []\<rparr>"
  have "own_members pre root ?ms x"
    unfolding own_members_def P using y by (cases pred) (simp_all add: x_def acquired_pairs_def)
  moreover have "role_id ` set ?ms \<subseteq> own_roots pre"
    unfolding roles_named [OF len] own_roots_def by (rule image_mono) (auto simp: acquired_pairs_def split: option.splits)
  moreover have "length (show_nat n) \<le> 5" using show_nat_length [of n 5] gen(3) by simp
  then have "parse_int (show_nat n) = Some (int n)" by (simp add: parse_show_nat MAX_STR_DIGITS_def)
  then have "own_values parse m pre x"
    unfolding own_values_def using gen(1,2) acq ev by (simp add: x_def own_terminal_def)
  moreover have "ow_state x \<in> own_state_roots pre" by (simp add: x_def own_state_roots_def OWNERSHIP_STATE_NAMES_def)
  ultimately show ?thesis using read unfolding read_ownership_Inr by (intro exI [of _ x] exI [of _ ?ms]) (simp add: x_def)
qed

lemma acquire_succeeds:
  assumes s: "reachable sha shake s" "\<And>x. length (sha x) = 32" "plain env" "ready s" "snd (refusal (st_gated s) c) = None"
    and at: "registry_at parse (st_cells s) pre os R" and few: "REGISTRY_WORDS + length os < 100000"
    and cs: "list_all2 (shows_claim pre) os cs" "claims_ok cs"
    and free: "\<forall>x \<in> set os. ow_resource x = resource \<longrightarrow> \<not> live_at pre x"
    and can: "can_acquire parse render (st_cells s) pre resource holder evidence t (acquired_root given u) draw"
  shows "\<exists>c' s' x r. acquire_ownership (hashed sha shake env) parse render (own_protocol_at pre) resource holder evidence t given u draw
      (c, s) = ((c', s'), Inr (x, r)) \<and> newly_owned pre os (acquired_root given u) resource holder x"
proof -
  let ?m = "st_cells s"
  let ?root = "acquired_root given u"
  obtain j where inv: "store_inv sha shake s j" using reachable_inv [OF s(1,2)] by blast
  from acquire_prepared [OF reachable_graph [OF s(1,2)] at few cs free can] obtain p y where
    p: "acquire_cells parse render ?m (own_protocol_at pre) resource holder evidence t ?root draw = Inr p" and
    y: "rp_replace p = [y]" "?m (cid y) \<noteq> None" "cid y \<noteq> NULL_CELL_ID" and some: "rp_create p \<noteq> []" and
    links: "\<forall>x \<in> set (rp_create p) \<union> set (rp_replace p). link0 x \<in> dom ?m \<union> cid ` set (rp_create p) \<and>
      link1 x \<in> dom ?m \<union> cid ` set (rp_create p)" by blast
  from can p have cr: "distinct (map cid (rp_create p))" "\<forall>x \<in> set (rp_create p). ?m (cid x) = None \<and> cid x \<noteq> []"
    and time: "\<exists>v. parse (render t) = Some v \<and> \<not> float_le v (Finite 0)" and ev: "?m evidence \<noteq> None"
    unfolding can_acquire_def by blast+
  have "cid y \<noteq> []"
    using y(2) graph_okD(1) [OF reachable_graph [OF s(1,2)]] unfolding keyed_def by (metis option.exhaust)
  moreover have "cid y \<notin> cid ` set (rp_create p)" using cr(2) y(2) by force
  moreover have "links_resolve ?m (rp_create p @ changes_of ?m (rp_replace p))" using links by (intro resolves) blast
  ultimately have "admitted s c (rp_create p) (rp_replace p)" using cr y some s(5) by (auto simp: admitted_def)
  with plain_commit [OF inv s(2-4), where create = "rp_create p" and replace = "rp_replace p" and c = c]
  obtain r where "snd (commit (hashed sha shake env) (st_revision s) (rp_create p) (rp_replace p) (c, s)) = Inr r"
    by (auto split: sum.splits)
  then obtain c' s' where run: "commit (hashed sha shake env) (st_revision s) (rp_create p) (rp_replace p) (c, s) = ((c', s'), Inr r)"
    by (metis prod.collapse)
  have env: "env_transform env = None" using s(3) by (simp add: plain_def)
  note l = commit_lays [OF inv s(2) env run]
  from p obtain os' mine patch where mine: "verify_ownership_authority parse ?m (own_protocol_at pre) = Inr os'"
      "mine = filter (\<lambda>x. ow_resource x = resource) os'" and "\<forall>x \<in> set mine. \<not> live_at pre x" "?m ?root = None"
      "prepare_append_relation_members ?m (pre @ '':root'') [(mrole pre ''ownership-member'', ?root)] 100000 draw = Inr patch"
      "rp_replace p = rp_replace patch"
    and create: "rp_create p = [own_terminal (?root @ '':generation'') (show_nat (Suc (length mine))),
        own_terminal (?root @ '':acquired-at'') (render t)] @
       rc_cells (acquired_relation pre ?root resource holder evidence (if mine = [] then None else Some (ow_root (last mine)))) @ rp_create patch"
    by (rule acquire_cells_Inr) blast
  have "os' = os" using mine(1) registry_at_reads(1) [OF at few] by (auto simp: verify_ownership_authority_def rbind_Inr_iff)
  then have "length mine \<le> length os" using mine(2) by simp
  then have n: "Suc (length mine) < 100000" using few by (simp add: REGISTRY_WORDS_def OWNERSHIP_STATE_NAMES_def)
  define pred where "pred = (if mine = [] then None else Some (ow_root (last mine)))"
  let ?rel = "acquired_relation pre ?root resource holder evidence pred"
  note create = create [folded pred_def]
  have lays: "lays {} ?m (rc_cells ?rel) [] (st_cells s')"
    by (rule lays_part [OF laid_lays [OF l, of UNIV]]; use cr(1) create in auto)
  have spelled: "spelled (st_cells s') ?root (fresh_members (rb_incidences (rc_build ?rel))
      (named pre (acquired_pairs pre ?root resource holder evidence pred))) (cid ` set (rc_cells ?rel))"
    using spelled_compose [OF lays [unfolded acquired_relation_def]] by (simp add: acquired_relation_def)
  have len: "length (rb_incidences (rc_build ?rel)) = length (acquired_pairs pre ?root resource holder evidence pred)"
    by (simp add: acquired_relation_def)
  have cells: "st_cells s' (cid x) = Some x" if "x \<in> set (rp_create p)" for x
    using laidD(1) [OF l] that by (simp add: present_def)
  from time obtain v where v: "parse (render t) = Some v" "\<not> float_le v (Finite 0)" by blast
  have gen: "st_cells s' (?root @ '':generation'') = Some (own_terminal (?root @ '':generation'') (show_nat (Suc (length mine))))"
    "st_cells s' (?root @ '':acquired-at'') = Some (own_terminal (?root @ '':acquired-at'') (render t))"
    using cells [of "own_terminal (?root @ '':generation'') (show_nat (Suc (length mine)))"]
      cells [of "own_terminal (?root @ '':acquired-at'') (render t)"] unfolding create by (simp_all add: own_terminal_def)
  have "st_cells s' evidence \<noteq> None" using ev laidD(3) [OF l] by (meson domIff subsetD)
  from acquired_reads [where parse = parse and render = render, OF spelled len gen(1) zero_less_Suc n gen(2) v this] obtain x where
    x: "read_ownership parse (st_cells s') (own_protocol_at pre) ?root = Inr x" by blast
  from acquire_step [OF at few acquired_root_nonempty p l x] have "newly_owned pre os ?root resource holder x" by blast
  moreover have "\<not> st_closed s" "\<not> st_closed s'" using s(4) commit_flags [OF run] by (simp_all add: ready_def)
  then have "acquire_ownership (hashed sha shake env) parse render (own_protocol_at pre) resource holder evidence t given u draw (c, s) =
      ((c', s'), Inr (x, r))"
    unfolding acquire_ownership_def Let_def store_snapshot_def acquired_root_def [symmetric] using p run x by simp
  ultimately show ?thesis by blast
qed

section \<open>A registry with one ownership\<close>

definition owner_seed :: "cell list" where
  "owner_seed = [own_terminal ''r'' [], own_terminal ''h'' [], own_terminal ''e'' []]"

definition registry_cells :: "cell list" where
  "registry_cells = map (\<lambda>(n, r). own_terminal r n) (own_entries ''p'') @ rc_cells (own_vocabulary ''p'')"

definition seeded_cells :: cells where
  "seeded_cells = put_cells owner_seed genesis"

definition registry_graph :: cells where
  "registry_graph = put_cells registry_cells seeded_cells"

definition one_time :: "bytes \<Rightarrow> py_float option" where
  "one_time text = (if text = ''1.0'' then Some (Finite 1) else None)"

definition owner_store :: store where
  "owner_store = seeded owner_seed"

lemma owner_seed_fits:
  "list_all (\<lambda>c. cid c \<noteq> [] \<and> genesis (cid c) = None) owner_seed \<and> distinct (map cid owner_seed) \<and>
   links_resolve genesis owner_seed \<and> owner_seed \<noteq> []"
  by code_simp

lemma registry_cells_fit:
  "list_all (\<lambda>c. cid c \<noteq> [] \<and> seeded_cells (cid c) = None) registry_cells \<and> distinct (map cid registry_cells) \<and>
   links_resolve seeded_cells registry_cells \<and> registry_cells \<noteq> []"
  by code_simp

definition owned_ids :: "string list" where
  "owned_ids = [''o:generation'', ''o:acquired-at''] @ map cid (rc_cells (acquired_relation ''p'' ''o'' ''r'' ''h'' ''e'' None)) @
     [''incidence:0'', ''chain:1'']"

lemma owned_ids_fresh:
  "distinct owned_ids \<and> list_all (\<lambda>k. registry_graph k = None \<and> k \<noteq> []) owned_ids \<and>
   list_all (\<lambda>k. registry_graph k \<noteq> None) [''r'', ''h'', ''e''] \<and> registry_graph ''o'' = None"
  by code_simp

lemma owner_store:
  "reachable fixed_sha fixed_sha owner_store" "st_cells owner_store = seeded_cells" "ready owner_store"
  "\<not> st_gated owner_store" "admitted open_memory idle_ctx owner_seed []"
proof -
  show a: "admitted open_memory idle_ctx owner_seed []"
    using owner_seed_fits
    by (simp add: admitted_def open_memory_def blank_store_def changes_of_def refusal_def idle_ctx_def list_all_iff)
  note S = seeded [OF a]
  show "reachable fixed_sha fixed_sha owner_store" "st_cells owner_store = seeded_cells" "ready owner_store" "\<not> st_gated owner_store"
    using S by (simp_all add: owner_store_def seeded_cells_def)
qed

lemma registry_built:
  obtains c' s' where "bootstrap_ownership_protocol (hashed fixed_sha fixed_sha plain_env) ''p'' (idle_ctx, owner_store) =
      ((c', s'), Inr (own_protocol_at ''p''))"
    "reachable fixed_sha fixed_sha s'" "st_cells s' = registry_graph" "ready s'" "\<not> st_gated s'"
proof -
  have "admitted owner_store idle_ctx registry_cells []"
    using registry_cells_fit owner_store
    by (simp add: admitted_def changes_of_def refusal_def idle_ctx_def list_all_iff)
  from seeded_commit [OF owner_store(5) this [unfolded owner_store_def]] registry_cells_fit obtain c' s' where
    run: "commit (hashed fixed_sha fixed_sha plain_env) (st_revision owner_store) registry_cells [] (idle_ctx, owner_store) =
      ((c', s'), Inr 2)" by (auto simp: owner_store_def)
  obtain j where inv: "store_inv fixed_sha fixed_sha owner_store j"
    using reachable_inv [OF owner_store(1)] fixed_sha_length by blast
  have plain: "plain plain_env" by (simp add: plain_def plain_env_def)
  have built: "st_cells s' = registry_graph"
    using commit_Inr [OF inv fixed_sha_length run] owner_store(2) by (simp add: registry_graph_def plain_env_def)
  note rdy = plain_commit_ready [OF inv fixed_sha_length plain owner_store(3) run]
  let ?b = "\<lparr>bt_existing = seeded_cells, bt_cells = [], bt_committed = False\<rparr>"
  have d: "distinct (map cid registry_cells)" "\<forall>c \<in> set registry_cells. seeded_cells (cid c) = None"
    using registry_cells_fit by (auto simp: list_all_iff)
  obtain b1 where b1: "batch_add_all (map (\<lambda>(n, r). own_terminal r n) (own_entries ''p'')) ?b = Inr b1"
    using batch_add_all_fresh [of "map (\<lambda>(n, r). own_terminal r n) (own_entries ''p'')" ?b] d by (auto simp: registry_cells_def)
  have b1': "bt_cells b1 = map ((\<lambda>c. (cid c, c)) \<circ> (\<lambda>(n, r). own_terminal r n)) (own_entries ''p'')" "\<not> bt_committed b1"
    "bt_existing b1 = seeded_cells"
    using batch_add_all_cells [OF b1] by simp_all
  have "map_of (bt_cells b1) (cid c) = None" if "c \<in> set (rc_cells (own_vocabulary ''p''))" for c
  proof -
    have "fst ` set (bt_cells b1) = cid ` set (map (\<lambda>(n, r). own_terminal r n) (own_entries ''p''))"
      unfolding b1'(1) by (force simp: image_iff)
    moreover have "cid c \<notin> cid ` set (map (\<lambda>(n, r). own_terminal r n) (own_entries ''p''))"
    proof -
      have "distinct (map cid (map (\<lambda>(n, r). own_terminal r n) (own_entries ''p'')) @ map cid (rc_cells (own_vocabulary ''p'')))"
        using d(1) unfolding registry_cells_def map_append .
      then show ?thesis using that unfolding distinct_append set_map by blast
    qed
    ultimately show ?thesis by (simp add: map_of_eq_None_iff)
  qed
  then obtain b2 where b2: "batch_add_all (rc_cells (own_vocabulary ''p'')) b1 = Inr b2"
    using batch_add_all_fresh [of "rc_cells (own_vocabulary ''p'')" b1] d b1' by (auto simp: registry_cells_def)
  have b2': "map snd (bt_cells b2) = registry_cells" "\<not> bt_committed b2"
    using batch_add_all_cells [OF b2] b1' by (simp_all add: registry_cells_def comp_def split_def)
  have new: "seeded_cells ''p:root'' = None" by code_simp
  have root: "op_root (own_protocol_at ''p'') = ''p:root''" by (simp add: own_protocol_at_def)
  have "bootstrap_ownership_protocol (hashed fixed_sha fixed_sha plain_env) ''p'' (idle_ctx, owner_store) =
      ((c', s'), Inr (own_protocol_at ''p''))"
    unfolding bootstrap_ownership_protocol_def Let_def store_snapshot_def new_batch_def batch_relation_def batch_commit_def root
      own_entries_def [symmetric] own_roles rbind_simps
    using owner_store(2,3) new b1 b2 b2' run own_vocabulary_def [of "''p''"] by (simp add: ready_def)
  from that [OF this commit_reachable [OF owner_store(1) run] built] rdy owner_store(4) show thesis by blast
qed

lemma append_one_created:
  assumes "prepare_append_relation_members m root [(r, x)] n draw = Inr p"
  shows "map cid (rp_create p) \<in> {[new_id ''incidence'' (draw 0)], [new_id ''incidence'' (draw 0), new_id ''chain'' (draw 1)]}"
  using assms
  by (auto simp: prepare_append_relation_members_def rbind_Inr_iff append_patch_def Let_def drawn_def split: if_splits)

lemma owner_can_acquire:
  assumes "verify_ownership_authority one_time registry_graph (own_protocol_at ''p'') = Inr []"
  shows "can_acquire one_time (\<lambda>_. ''1.0'') registry_graph ''p'' ''r'' ''h'' ''e'' (Finite 1) ''o'' show_nat"
proof -
  note F = owned_ids_fresh
  have "distinct (map cid (rp_create p)) \<and> (\<forall>x \<in> set (rp_create p). registry_graph (cid x) = None \<and> cid x \<noteq> [])"
    if "acquire_cells one_time (\<lambda>_. ''1.0'') registry_graph (own_protocol_at ''p'') ''r'' ''h'' ''e'' (Finite 1) ''o'' show_nat = Inr p" for p
  proof -
    from that obtain os mine patch where o': "verify_ownership_authority one_time registry_graph (own_protocol_at ''p'') = Inr os"
      "mine = filter (\<lambda>x. ow_resource x = ''r'') os" and "\<forall>x \<in> set mine. \<not> live_at ''p'' x" "registry_graph ''o'' = None" and
      patch: "prepare_append_relation_members registry_graph (''p'' @ '':root'') [(mrole ''p'' ''ownership-member'', ''o'')] 100000 show_nat = Inr patch"
      and create: "rp_create p = [own_terminal (''o'' @ '':generation'') (show_nat (Suc (length mine))),
        own_terminal (''o'' @ '':acquired-at'') ''1.0''] @
       rc_cells (acquired_relation ''p'' ''o'' ''r'' ''h'' ''e'' (if mine = [] then None else Some (ow_root (last mine)))) @ rp_create patch"
      and "rp_replace p = rp_replace patch"
      by (rule acquire_cells_Inr) blast
    have "mine = []" using o' assms by simp
    then have ids: "map cid (rp_create p) = [''o:generation'', ''o:acquired-at''] @
        map cid (rc_cells (acquired_relation ''p'' ''o'' ''r'' ''h'' ''e'' None)) @ map cid (rp_create patch)"
      by (simp add: create own_terminal_def)
    have "map cid (rp_create patch) \<in> {[''incidence:0''], [''incidence:0'', ''chain:1'']}"
    proof -
      have "new_id ''incidence'' (show_nat 0) = ''incidence:0''" "new_id ''chain'' (show_nat 1) = ''chain:1''" by code_simp+
      with append_one_created [OF patch] show ?thesis by (simp only:)
    qed
    then obtain ks where ks: "owned_ids = map cid (rp_create p) @ ks" unfolding ids owned_ids_def by auto
    have "distinct (map cid (rp_create p)) \<and> list_all (\<lambda>k. registry_graph k = None \<and> k \<noteq> []) (map cid (rp_create p))"
      using F unfolding ks distinct_append list_all_append by blast
    then show ?thesis by (simp add: list_all_iff)
  qed
  with F show ?thesis by (auto simp: can_acquire_def one_time_def)
qed

lemma bootstrapped_ledger:
  assumes "reachable sha shake s" "\<And>x. length (sha x) = 32" "env_transform env = None"
    and "bootstrap_ownership_protocol (hashed sha shake env) pre (c, s) = ((c', s'), Inr p)" "st_cells s (pre @ '':root'') = None"
    and "A \<subseteq> dom (st_cells s)"
  shows "p = own_protocol_at pre \<and> keeps_ledger sha shake parse pre A s' [] []"
proof -
  from bootstrapped_registry [OF assms(1-5), of parse] obtain R where
    R: "p = own_protocol_at pre" "reachable sha shake s'" "dom (st_cells s) \<subseteq> dom (st_cells s')"
      "registry_at parse (st_cells s') pre [] R" "R \<inter> dom (st_cells s) = {}" by blast
  have "A \<subseteq> dom (st_cells s')" "A \<inter> R = {}" using R(3,5) assms(6) by blast+
  with R(1,2,4) show ?thesis unfolding keeps_ledger_def by auto
qed

text \<open>The whole run: the registry is bootstrapped on the seeded store, then its first ownership acquired.\<close>

lemma owner_run:
  obtains c1 s1 c' s' x r where
    "bootstrap_ownership_protocol (hashed fixed_sha fixed_sha plain_env) ''p'' (idle_ctx, owner_store) =
      ((c1, s1), Inr (own_protocol_at ''p''))"
    "reachable fixed_sha fixed_sha s1" "ready s1" "\<not> st_gated s1" "st_cells s1 = registry_graph"
    "keeps_ledger fixed_sha fixed_sha one_time ''p'' {} s1 [] []"
    "can_acquire one_time (\<lambda>_. ''1.0'') registry_graph ''p'' ''r'' ''h'' ''e'' (Finite 1) ''o'' show_nat"
    "acquire_ownership (hashed fixed_sha fixed_sha plain_env) one_time (\<lambda>_. ''1.0'') (own_protocol_at ''p'') ''r'' ''h'' ''e'' (Finite 1)
      (Some ''o'') [] show_nat (idle_ctx, s1) = ((c', s'), Inr (x, r))"
proof -
  obtain c1 s1 where run: "bootstrap_ownership_protocol (hashed fixed_sha fixed_sha plain_env) ''p'' (idle_ctx, owner_store) =
      ((c1, s1), Inr (own_protocol_at ''p''))" and s1: "reachable fixed_sha fixed_sha s1" "st_cells s1 = registry_graph" "ready s1" "\<not> st_gated s1"
    by (rule registry_built)
  have plain: "plain plain_env" "env_transform plain_env = None" by (simp_all add: plain_def plain_env_def)
  have new: "st_cells owner_store (''p'' @ '':root'') = None" unfolding owner_store(2) by code_simp
  have k: "keeps_ledger fixed_sha fixed_sha one_time ''p'' {} s1 [] []"
    using bootstrapped_ledger [OF owner_store(1) fixed_sha_length plain(2) run new] by blast
  then obtain R where at: "registry_at one_time registry_graph ''p'' [] R" unfolding keeps_ledger_def s1(2) by blast
  have few: "REGISTRY_WORDS + length ([] :: ownership list) < 100000"
    by (simp add: REGISTRY_WORDS_def OWNERSHIP_STATE_NAMES_def OWNERSHIP_ROLE_NAMES_def)
  have can: "can_acquire one_time (\<lambda>_. ''1.0'') registry_graph ''p'' ''r'' ''h'' ''e'' (Finite 1) ''o'' show_nat"
    by (rule owner_can_acquire) (use verified(1) [OF registry_at_reads(1) [OF at few], of "[]"] in simp)
  have can': "can_acquire one_time (\<lambda>_. ''1.0'') (st_cells s1) ''p'' ''r'' ''h'' ''e'' (Finite 1) (acquired_root (Some ''o'') []) show_nat"
    using can s1(2) by (simp add: acquired_root_def)
  have free: "\<forall>x \<in> set []. ow_resource x = ''r'' \<longrightarrow> \<not> live_at ''p'' x" by simp
  have refusal: "snd (refusal (st_gated s1) idle_ctx) = None" using s1(4) by (simp add: refusal_def idle_ctx_def)
  have "\<exists>c' s' x r. acquire_ownership (hashed fixed_sha fixed_sha plain_env) one_time (\<lambda>_. ''1.0'') (own_protocol_at ''p'') ''r'' ''h'' ''e''
      (Finite 1) (Some ''o'') [] show_nat (idle_ctx, s1) = ((c', s'), Inr (x, r))"
    using acquire_succeeds [OF s1(1) fixed_sha_length plain(1) s1(3) refusal at [folded s1(2)] few list_all2_Nil [THEN iffD2, OF refl] claims_ok_Nil free can']
    by blast
  then show thesis using that [OF run s1(1,3,4,2) k can] by blast
qed

lemma replay_lengths:
  assumes "replay_transitions {(ostate pre ''active'', ostate pre ''draining''), (ostate pre ''draining'', ostate pre ''released''),
      (ostate pre ''active'', ostate pre ''failed''), (ostate pre ''draining'', ostate pre ''failed'')} (ostate pre ''active'') t ts = Inr st"
  shows "st = ostate pre ''active'' \<and> length ts = 0 \<or> st = ostate pre ''draining'' \<and> length ts = 1 \<or>
    st = ostate pre ''released'' \<and> length ts = 2 \<or> st = ostate pre ''failed'' \<and> length ts \<in> {1, 2}"
proof (cases ts)
  case (Cons a as)
  note one = Cons
  show ?thesis
  proof (cases as)
    case (Cons b bs)
    with assms one show ?thesis by (cases bs) (auto split: if_splits)
  qed (use assms one in \<open>auto split: if_splits\<close>)
qed (use assms in auto)

section \<open>The properties\<close>

text \<open>
  C36: One live owner. Bootstrap the registry in any reachable store that lacks it and let any sequence
  of acquisitions, transitions of acquired ownerships and other commits run, the other commits
  replacing only Cells of the store it was bootstrapped in. Then the acts are a run of the abstract
  ledger of claims, where a claim on a resource is granted only while none on it is live; the
  authority verifies and lists exactly that ledger; and no resource has two live owners.
\<close>

theorem ownership_is_exclusive:
  assumes s: "reachable sha shake s" "\<And>x. length (sha x) = 32" and env: "env_transform env = None"
    and boot: "bootstrap_ownership_protocol (hashed sha shake env) pre (c, s) = ((c0, s0), Inr p)" "st_cells s (pre @ '':root'') = None"
    and A: "A \<subseteq> dom (st_cells s)" "fit_acts A {} as" "length as < 99900"
    and run: "own_acts sha shake parse render pre as (c1, s0) = ((c2, s'), Inr ())"
  shows "\<exists>cs os. claim_acts as [] = Some cs \<and> verify_ownership_authority parse (st_cells s') p = Inr os \<and>
    list_all2 (shows_claim pre) os cs \<and> (\<forall>r. length (filter (\<lambda>x. ow_resource x = r \<and> live_at pre x) os) \<le> 1)"
proof -
  from bootstrapped_ledger [OF s env boot A(1)] have p: "p = own_protocol_at pre" and k: "keeps_ledger sha shake parse pre A s0 [] []" by blast+
  have few: "REGISTRY_WORDS + length ([] :: ownership list) + length as < 100000"
    using A(3) by (simp add: REGISTRY_WORDS_def OWNERSHIP_STATE_NAMES_def OWNERSHIP_ROLE_NAMES_def)
  have fit: "fit_acts A (ow_root ` set []) as" using A(2) by simp
  from own_acts_ledger [OF s(2) k fit few run] obtain os cs where
    cs: "claim_acts as [] = Some cs" "keeps_ledger sha shake parse pre A s' os cs" "REGISTRY_WORDS + length os < 100000" by blast
  then obtain R where at: "registry_at parse (st_cells s') pre os R" and shows_cs: "list_all2 (shows_claim pre) os cs"
    unfolding keeps_ledger_def by blast
  from verified [OF registry_at_reads(1) [OF at cs(3)] shows_cs claim_acts_ok [OF claims_ok_Nil cs(1)]] cs(1) shows_cs p
  show ?thesis by blast
qed

theorem ownership_is_exclusive_witness:
  "\<exists>(s' :: store) os cs. verify_ownership_authority one_time (st_cells s') (own_protocol_at ''p'') = Inr os \<and>
    list_all2 (shows_claim ''p'') os cs \<and> map cl_root cs = [''o''] \<and> map cl_state cs = [''active'']"
proof (rule owner_run)
  fix c1 s1 c' s' x r
  assume run: "bootstrap_ownership_protocol (hashed fixed_sha fixed_sha plain_env) ''p'' (idle_ctx, owner_store) =
      ((c1, s1), Inr (own_protocol_at ''p''))"
    and acq: "acquire_ownership (hashed fixed_sha fixed_sha plain_env) one_time (\<lambda>_. ''1.0'') (own_protocol_at ''p'') ''r'' ''h'' ''e'' (Finite 1)
      (Some ''o'') [] show_nat (idle_ctx, s1) = ((c', s'), Inr (x, r))"
  let ?as = "[Acquire plain_env ''r'' ''h'' ''e'' (Finite 1) (Some ''o'') [] show_nat]"
  have env: "env_transform plain_env = None" by (simp add: plain_env_def)
  have new: "st_cells owner_store (''p'' @ '':root'') = None" unfolding owner_store(2) by code_simp
  have acts: "own_acts fixed_sha fixed_sha one_time (\<lambda>_. ''1.0'') ''p'' ?as (idle_ctx, s1) = ((c', s'), Inr ())"
    using acq by (simp add: own_act_def)
  have fit: "fit_acts {} {} ?as" "length ?as < 99900" using env by simp_all
  from ownership_is_exclusive [OF owner_store(1) fixed_sha_length env run new empty_subsetI fit acts] obtain cs os where
    cs: "claim_acts ?as [] = Some cs" "verify_ownership_authority one_time (st_cells s') (own_protocol_at ''p'') = Inr os"
    "list_all2 (shows_claim ''p'') os cs" by blast
  have "claim_acts ?as [] = Some [\<lparr>cl_root = ''o'', cl_resource = ''r'', cl_holder = ''h'', cl_generation = 1, cl_state = ''active'', cl_predecessor = None\<rparr>]"
    by (simp add: claim_act_def claim_acquire_def claims_on_def acquired_root_def)
  with cs show ?thesis by (intro exI [of _ s'] exI [of _ os] exI [of _ cs]) simp
qed

text \<open>
  C37: Free resources can be acquired. On a ready store whose registry keeps its ledger, a resource
  without a live owner is acquired by anyone: when the Cells named are in the graph, the time is
  written so that it reads back positive and the identities drawn are new, \<open>acquire_ownership\<close>
  succeeds, with the next generation of the resource, active, naming the one before it.
\<close>

theorem free_resources_can_be_acquired:
  assumes "reachable sha shake s" "\<And>x. length (sha x) = 32" "plain env" "ready s" "snd (refusal (st_gated s) c) = None"
    and k: "keeps_ledger sha shake parse pre A s os cs" "claims_ok cs" "REGISTRY_WORDS + length os < 100000"
    and "\<forall>x \<in> set os. ow_resource x = resource \<longrightarrow> \<not> live_at pre x"
    and "can_acquire parse render (st_cells s) pre resource holder evidence t (acquired_root given u) draw"
  shows "\<exists>c' s' x r. acquire_ownership (hashed sha shake env) parse render (own_protocol_at pre) resource holder evidence t given u draw
      (c, s) = ((c', s'), Inr (x, r)) \<and> newly_owned pre os (acquired_root given u) resource holder x"
proof -
  from k(1) obtain R where "registry_at parse (st_cells s) pre os R" "list_all2 (shows_claim pre) os cs"
    unfolding keeps_ledger_def by blast
  from acquire_succeeds [OF assms(1-5) this(1) k(3) this(2) k(2) assms(9,10)] show ?thesis .
qed

theorem free_resources_can_be_acquired_witness:
  "\<exists>(s :: store) c' s' x r. st_cells s = registry_graph \<and> acquire_ownership (hashed fixed_sha fixed_sha plain_env) one_time (\<lambda>_. ''1.0'')
     (own_protocol_at ''p'') ''r'' ''h'' ''e'' (Finite 1) (Some ''o'') [] show_nat (idle_ctx, s) = ((c', s'), Inr (x, r)) \<and> ow_generation x = 1"
proof (rule owner_run)
  fix c1 s1 c' s' x r
  assume s1: "reachable fixed_sha fixed_sha s1" "ready s1" "\<not> st_gated s1" "st_cells s1 = registry_graph"
    and k: "keeps_ledger fixed_sha fixed_sha one_time ''p'' {} s1 [] []"
    and can: "can_acquire one_time (\<lambda>_. ''1.0'') registry_graph ''p'' ''r'' ''h'' ''e'' (Finite 1) ''o'' show_nat"
  have plain: "plain plain_env" by (simp add: plain_def plain_env_def)
  have refusal: "snd (refusal (st_gated s1) idle_ctx) = None" using s1(3) by (simp add: refusal_def idle_ctx_def)
  have few: "REGISTRY_WORDS + length ([] :: ownership list) < 100000"
    by (simp add: REGISTRY_WORDS_def OWNERSHIP_STATE_NAMES_def OWNERSHIP_ROLE_NAMES_def)
  have root: "can_acquire one_time (\<lambda>_. ''1.0'') (st_cells s1) ''p'' ''r'' ''h'' ''e'' (Finite 1) (acquired_root (Some ''o'') []) show_nat"
    using can s1(4) by (simp add: acquired_root_def)
  have free: "\<forall>x \<in> set []. ow_resource x = ''r'' \<longrightarrow> \<not> live_at ''p'' x" by simp
  from free_resources_can_be_acquired [OF s1(1) fixed_sha_length plain s1(2) refusal k claims_ok_Nil few free root] s1(4)
  show ?thesis by (auto simp: newly_owned_def)
qed

text \<open>
  C38: Owned resources refuse. Where the registry keeps its ledger and a live ownership holds the
  resource, \<open>acquire_ownership\<close> with Cells of the graph is refused with the error of the code, whoever
  asks and whatever is drawn, and neither the store nor the context has changed.
\<close>

theorem live_owners_refuse_acquisition:
  assumes k: "keeps_ledger sha shake parse pre A s os cs" "claims_ok cs" "REGISTRY_WORDS + length os < 100000"
    and live: "x \<in> set os" "ow_resource x = resource" "live_at pre x"
    and here: "st_cells s resource \<noteq> None" "st_cells s holder \<noteq> None" "st_cells s evidence \<noteq> None" "\<not> st_closed s"
  shows "acquire_ownership env parse render (own_protocol_at pre) resource holder evidence t given u draw (c, s) =
    ((c, s), Inl (InvalidCell ''resource already has a live owner''))"
proof -
  from k(1) obtain R where at: "registry_at parse (st_cells s) pre os R" and cs: "list_all2 (shows_claim pre) os cs"
    unfolding keeps_ledger_def by blast
  then obtain rs Fr where words: "own_words pre \<subseteq> dom (st_cells s)" and rs: "spelled (st_cells s) (pre @ '':root'') rs Fr"
    unfolding registry_at_def by blast
  note v = verified(1) [OF registry_at_reads(1) [OF at k(3)] cs k(2)]
  have "ostate pre ''active'' \<in> own_words pre" by (simp add: own_words_def own_state_roots_def OWNERSHIP_STATE_NAMES_def)
  then have "st_cells s (ostate pre ''active'') \<noteq> None" using words by blast
  moreover have "op_root (own_protocol_at pre) = pre @ '':root''" by (simp add: own_protocol_at_def)
  moreover have "\<exists>x \<in> set (filter (\<lambda>x. ow_resource x = resource) os). ow_state x \<in> {ostate pre ''active'', ostate pre ''draining''}"
    using live unfolding live_at_def by auto
  ultimately have "acquire_cells parse render (st_cells s) (own_protocol_at pre) resource holder evidence t root draw =
      Inl (InvalidCell ''resource already has a live owner'')" for root
    using here(1-3) spelled_root [OF rs] unfolding acquire_cells_def own_states live_states_at rbind_simps v Let_def by simp
  with here(4) show ?thesis by (simp add: acquire_ownership_def store_snapshot_def Let_def)
qed

theorem live_owners_refuse_acquisition_witness:
  "\<exists>s' :: store. acquire_ownership plain_env one_time (\<lambda>_. ''1.0'') (own_protocol_at ''p'') ''r'' ''h'' ''e'' (Finite 1) None ''u'' show_nat
     (idle_ctx, s') = ((idle_ctx, s'), Inl (InvalidCell ''resource already has a live owner''))"
proof (rule owner_run)
  fix c1 s1 c' s' x r
  assume s1: "reachable fixed_sha fixed_sha s1" "ready s1" "st_cells s1 = registry_graph"
    and k: "keeps_ledger fixed_sha fixed_sha one_time ''p'' {} s1 [] []"
    and acq: "acquire_ownership (hashed fixed_sha fixed_sha plain_env) one_time (\<lambda>_. ''1.0'') (own_protocol_at ''p'') ''r'' ''h'' ''e'' (Finite 1)
      (Some ''o'') [] show_nat (idle_ctx, s1) = ((c', s'), Inr (x, r))"
  let ?a = "Acquire plain_env ''r'' ''h'' ''e'' (Finite 1) (Some ''o'') [] show_nat"
  have env: "env_transform plain_env = None" by (simp add: plain_env_def)
  have fit: "fit_acts {} (ow_root ` set []) [?a]" using env by simp
  have few: "REGISTRY_WORDS + length ([] :: ownership list) < 100000"
    by (simp add: REGISTRY_WORDS_def OWNERSHIP_STATE_NAMES_def OWNERSHIP_ROLE_NAMES_def)
  have act: "own_act fixed_sha fixed_sha one_time (\<lambda>_. ''1.0'') ''p'' ?a (idle_ctx, s1) = ((c', s'), Inr ())"
    using acq by (simp add: own_act_def)
  from own_act_step [OF fixed_sha_length k fit few act] obtain os cs where
    cs: "claim_act ?a [] = Some cs" "keeps_ledger fixed_sha fixed_sha one_time ''p'' {} s' os cs" "length os \<le> 1" by auto
  have c: "cs = [\<lparr>cl_root = ''o'', cl_resource = ''r'', cl_holder = ''h'', cl_generation = 1, cl_state = ''active'', cl_predecessor = None\<rparr>]"
    using cs(1) by (simp add: claim_act_def claim_acquire_def claims_on_def acquired_root_def)
  then obtain y where os: "os = [y]" "shows_claim ''p'' y (hd cs)"
    using cs(2) unfolding keeps_ledger_def by (auto simp: list_all2_Cons2)
  have live: "y \<in> set os" "ow_resource y = ''r''" "live_at ''p'' y"
    using os c by (auto simp: shows_claim_def live_at_def)
  have few': "REGISTRY_WORDS + length os < 100000"
    using cs(3) by (simp add: REGISTRY_WORDS_def OWNERSHIP_STATE_NAMES_def OWNERSHIP_ROLE_NAMES_def)
  from acq refl obtain p :: relation_patch where
    r: "commit (hashed fixed_sha fixed_sha plain_env) (st_revision s1) (rp_create p) (rp_replace p) (idle_ctx, s1) = ((c', s'), Inr r)"
    by (rule acquire_ownership_Inr)
  obtain j where inv: "store_inv fixed_sha fixed_sha s1 j" using reachable_inv [OF s1(1)] fixed_sha_length by blast
  have dom: "dom registry_graph \<subseteq> dom (st_cells s')" using laidD(3) [OF commit_lays [OF inv fixed_sha_length env r]] s1(3) by simp
  have "registry_graph k \<noteq> None" if "k \<in> {''r'', ''h'', ''e''}" for k using owned_ids_fresh that by auto
  then have here: "st_cells s' ''r'' \<noteq> None" "st_cells s' ''h'' \<noteq> None" "st_cells s' ''e'' \<noteq> None" using dom by blast+
  have "\<not> st_closed s'" using commit_flags [OF r] s1(2) by (simp add: ready_def)
  from live_owners_refuse_acquisition [OF cs(2) claim_act_ok [OF claims_ok_Nil cs(1)] few' live here this] show ?thesis by blast
qed

text \<open>
  C39: What reads as an ownership is one. Its generation is positive, its evidence is not empty and is
  in the graph, every transition it lists reads, and its state tells how many there are: none while
  it is active, one while it drains, two once it is released, one or two once it has failed.
\<close>

theorem ownership_reads_are_typed:
  assumes "read_ownership parse m (own_protocol_at pre) root = Inr x"
  shows "ow_root x = root \<and> 0 < ow_generation x \<and> ow_evidence x \<noteq> [] \<and> (\<forall>r \<in> set (ow_evidence x). m r \<noteq> None) \<and>
    (\<forall>t \<in> set (ow_transitions x). \<exists>u. read_ownership_transition parse m (own_protocol_at pre) t = Inr u) \<and>
    (\<exists>(state, lengths) \<in> {(''active'', {0}), (''draining'', {1}), (''released'', {2}), (''failed'', {1, 2})}.
       ow_state x = ostate pre state \<and> length (ow_transitions x) \<in> lengths)"
proof -
  from assms obtain ms where x: "own_members pre root ms x" "ow_evidence x \<noteq> []" and v: "own_values parse m pre x"
    unfolding read_ownership_Inr by blast
  from v obtain t ts where ts: "rmap (read_ownership_transition parse m (own_protocol_at pre)) (ow_transitions x) = Inr ts"
    "replay_transitions {(ostate pre ''active'', ostate pre ''draining''), (ostate pre ''draining'', ostate pre ''released''),
      (ostate pre ''active'', ostate pre ''failed''), (ostate pre ''draining'', ostate pre ''failed'')} (ostate pre ''active'') t ts = Inr (ow_state x)"
    unfolding own_values_def by blast
  have "length ts = length (ow_transitions x)" using ts(1) list_all2_lengthD unfolding rmap_Inr_iff by fastforce
  from replay_lengths [OF ts(2), unfolded this] have "\<exists>(state, lengths) \<in> {(''active'', {0}), (''draining'', {1}), (''released'', {2}), (''failed'', {1, 2})}.
       ow_state x = ostate pre state \<and> length (ow_transitions x) \<in> lengths" by auto
  moreover have "\<exists>u. read_ownership_transition parse m (own_protocol_at pre) t = Inr u" if "t \<in> set (ow_transitions x)" for t
    using rmap_each [OF ts(1) that] by blast
  moreover have "ow_root x = root" using x(1) unfolding own_members_def by blast
  moreover have "0 < ow_generation x" "\<forall>r \<in> set (ow_evidence x). m r \<noteq> None" using v unfolding own_values_def by auto
  ultimately show ?thesis using x(2) by blast
qed

theorem ownership_reads_are_typed_witness:
  "\<exists>(s' :: store) x. read_ownership one_time (st_cells s') (own_protocol_at ''p'') ''o'' = Inr x \<and> 0 < ow_generation x \<and> ow_evidence x \<noteq> []"
proof (rule owner_run)
  fix c1 s1 c' s' x r
  assume acq: "acquire_ownership (hashed fixed_sha fixed_sha plain_env) one_time (\<lambda>_. ''1.0'') (own_protocol_at ''p'') ''r'' ''h'' ''e'' (Finite 1)
      (Some ''o'') [] show_nat (idle_ctx, s1) = ((c', s'), Inr (x, r))"
  have root: "acquired_root (Some ''o'') [] = ''o''" by (simp add: acquired_root_def)
  from acq root [symmetric] have "read_ownership one_time (st_cells s') (own_protocol_at ''p'') ''o'' = Inr x"
    by (rule acquire_ownership_Inr)
  with ownership_reads_are_typed [OF this] show ?thesis by blast
qed

end
