(* ===== verification/Sequence.thy ===== *)
theory Sequence
  imports RelationProps
begin

text \<open>
  Sequences of identities assembled from Cells (\<open>01.APP/nodelang/cell_sequence.py\<close>): building, reading
  within a budget, and that a committed sequence reads back. The UUIDs are an argument.
\<close>

fun sequence_cells :: "string list \<Rightarrow> string list \<Rightarrow> cell list" where
  "sequence_cells (r # rs) (x # xs) = Cell r x (head_or_null rs) [] # sequence_cells rs xs"
| "sequence_cells _ _ = []"

definition build_cell_sequence :: "(nat \<Rightarrow> string) \<Rightarrow> string list \<Rightarrow> (string \<times> cell list) result" where
  "build_cell_sequence draw items =
     (if NULL_CELL_ID \<in> set items then Inl (InvalidCell ''cell sequence items must be non-null identities'')
      else if items = [] then Inr (NULL_CELL_ID, [])
      else let roots = map draw [0..<length items] in Inr (hd roots, sequence_cells roots items))"

text \<open>The loop of the reader; the fuel is the part of the budget that is left.\<close>

fun sequence_walk :: "cells \<Rightarrow> nat \<Rightarrow> string list \<Rightarrow> string \<Rightarrow> string list result" where
  "sequence_walk m n seen cursor =
     (if cursor = NULL_CELL_ID then Inr []
      else case n of
        0 \<Rightarrow> Inl (InvalidCell ''cell sequence exceeded its traversal budget'')
      | Suc n' \<Rightarrow>
          if cursor \<in> set seen then Inl (InvalidCell ''cell sequence contains a cycle'')
          else case m cursor of
            None \<Rightarrow> Inl (InvalidCell ''cell sequence contains an invalid item'')
          | Some c \<Rightarrow>
              if atom c \<noteq> [] \<or> link0 c = NULL_CELL_ID \<or> m (link0 c) = None
              then Inl (InvalidCell ''cell sequence contains an invalid item'')
              else rbind (sequence_walk m n' (cursor # seen) (link1 c)) (\<lambda>xs. Inr (link0 c # xs)))"

declare sequence_walk.simps [simp del]

definition read_cell_sequence :: "cells \<Rightarrow> string \<Rightarrow> nat \<Rightarrow> string list result" where
  "read_cell_sequence m root budget =
     (if root = NULL_CELL_ID then Inr []
      else if budget < 1 then Inl (InvalidCell ''cell sequence budget must be positive'')
      else sequence_walk m budget [] root)"

section \<open>What is read\<close>

lemma sequence_walk_cells:
  assumes "length rs = length xs" "distinct rs" "set rs \<inter> set seen = {}" "NULL_CELL_ID \<notin> set rs" "NULL_CELL_ID \<notin> set xs"
    and "present m (sequence_cells rs xs)" "\<forall>x \<in> set xs. m x \<noteq> None"
  shows "sequence_walk m n seen (head_or_null rs) =
    (if length xs \<le> n then Inr xs else Inl (InvalidCell ''cell sequence exceeded its traversal budget''))"
  using assms
proof (induction rs xs arbitrary: n seen rule: sequence_cells.induct)
  case (1 r rs x xs)
  have null: "r \<noteq> NULL_CELL_ID" "x \<noteq> NULL_CELL_ID" using "1.prems"(4,5) by auto
  show ?case
  proof (cases n)
    case 0
    with null show ?thesis by (subst sequence_walk.simps) (simp add: head_or_null_def)
  next
    case (Suc k)
    have "sequence_walk m k (r # seen) (head_or_null rs) =
        (if length xs \<le> k then Inr xs else Inl (InvalidCell ''cell sequence exceeded its traversal budget''))"
      by (rule "1.IH") (use "1.prems" in auto)
    with null "1.prems" Suc show ?thesis by (subst sequence_walk.simps) (simp add: head_or_null_def present_def)
  qed
qed (subst sequence_walk.simps, simp add: head_or_null_def)+

lemma sequence_cells_members: "length rs = length xs \<Longrightarrow> map cid (sequence_cells rs xs) = rs \<and> map link0 (sequence_cells rs xs) = xs"
  by (induction rs xs rule: sequence_cells.induct) auto

text \<open>A committed sequence reads back exactly when the budget admits it.\<close>

theorem sequences_read_back:
  assumes s: "reachable sha shake s" "\<And>x. length (sha x) = 32" and env: "env_transform env = None"
    and built: "build_cell_sequence draw items = Inr (root, cells)" "items \<noteq> []"
    and run: "commit (hashed sha shake env) n (extra @ cells) replace (c, s) = ((c', s'), Inr r)"
  shows "read_cell_sequence (st_cells s') root budget =
    (if length items \<le> budget then Inr items
     else if budget = 0 then Inl (InvalidCell ''cell sequence budget must be positive'')
     else Inl (InvalidCell ''cell sequence exceeded its traversal budget''))"
proof -
  let ?rs = "map draw [0..<length items]"
  from built have b: "NULL_CELL_ID \<notin> set items" "root = hd ?rs" "cells = sequence_cells ?rs items"
    by (auto simp: build_cell_sequence_def Let_def split: if_splits)
  obtain j where inv: "store_inv sha shake s j" using reachable_inv [OF s] by blast
  note l = commit_lays [OF inv s(2) env run]
  have m: "map cid cells = ?rs" "map link0 cells = items" using sequence_cells_members [of ?rs items] b(3) by simp_all
  have "distinct (map cid cells)" using laidD(4) [OF l] by simp
  then have d: "distinct ?rs" by (simp only: m(1))
  have pres: "present (st_cells s') cells" using laidD(1) [OF l] by (simp add: present_def)
  have "st_cells s (cid x) = None" if "x \<in> set cells" for x using laidD(8) [OF l, of x] that by simp
  moreover have "st_cells s NULL_CELL_ID \<noteq> None" using graph_okD(3) [OF laidD(5) [OF l]] by simp
  ultimately have null: "NULL_CELL_ID \<notin> set (map cid cells)" unfolding set_map by (metis imageE)
  have here: "st_cells s' x \<noteq> None" if "x \<in> set items" for x
  proof -
    from that m(2) obtain y where y: "y \<in> set cells" "x = link0 y" by (metis (no_types) imageE set_map)
    then have "st_cells s' (cid y) = Some y" using pres by (simp add: present_def)
    with graph_links [OF laidD(6) [OF l] this] y(2) show ?thesis by simp
  qed
  have "root = head_or_null ?rs" using b(2) built(2) by (cases items) (simp_all add: head_or_null_def upt_conv_Cons del: upt_Suc)
  moreover have "head_or_null ?rs \<in> set ?rs" using built(2) by (cases ?rs) (simp_all add: head_or_null_def)
  then have "head_or_null ?rs \<noteq> NULL_CELL_ID" using null m(1) by metis
  moreover have "sequence_walk (st_cells s') budget [] (head_or_null ?rs) =
      (if length items \<le> budget then Inr items else Inl (InvalidCell ''cell sequence exceeded its traversal budget''))"
    by (rule sequence_walk_cells) (use d null [unfolded m(1)] b pres here in auto)
  ultimately show ?thesis using built(2) by (auto simp: read_cell_sequence_def)
qed

end
