(* ===== verification/Spec2Isabelle.thy ===== *)
theory Spec2Isabelle
  imports PastProps HeadReaderProps RewriteProps CellMapProps PrefixProofs Migration LensProps ReuseLives StateMachineProps OwnershipProps Sequence
begin

text \<open>
  The node-language kernel of ArchHub (\<open>src/01.APP/nodelang/\<close>): a transactional store of binary
  Cells, its durable history, and the graph protocols composed above it. The Python source is the
  specification of every definition; this library translates it and proves what makes it correct.

  \<^bold>\<open>The program.\<close> A Cell is an identity, two links and an opaque atom. A \<open>CellStore\<close> publishes one
  graph of Cells, changes it by commits against an expected revision, and records every version of
  every Cell in a journal (SQLite, or the process's own memory). A commit first asks the intent
  gate, then validates its Cells and links, then appends to the journal, then publishes: the
  graph, its digests and accumulators, its caches and its listeners follow. Readers answer from
  the head, from a pinned revision or from the history. Above the store, relations are chains of
  Cells; sequences, lenses, property rows, state machines, exclusive ownership and the other
  node-language modules are built from them.

  \<^bold>\<open>Theories and code.\<close>
  \<^item> \<open>Prelude\<close>: the vocabulary (strings, exceptions, ordered dictionaries).
  \<^item> \<open>CommitIntent\<close>: \<open>commit_intent.py\<close>. Context variables are the record \<open>ctx\<close>; a \<open>with\<close> block is an
    operation on it; \<open>refusal\<close> is what a commit consults.
  \<^item> \<open>Cells\<close>, \<open>Digests\<close>: the data model of \<open>universal_cell.py\<close>, the revision chain digest and
    \<open>cell_set_digest.py\<close>.
  \<^item> \<open>Journal\<close>, \<open>JournalLaws\<close>, \<open>JournalRun\<close>: \<open>_SqliteJournal\<close> and \<open>_SqliteHistoryReader\<close>. The tables
    are the record \<open>journal\<close>; \<open>state_at\<close> is the graph the rows determine at a revision.
  \<^item> \<open>Store\<close>, \<open>StoreLaws\<close>: \<open>CellStore\<close>, its opening, commit and publication. \<open>represents\<close> relates a
    store to the history it stands on.
  \<^item> \<open>StoreHistory\<close>, \<open>StoreHistoryLaws\<close>, \<open>StoreRun\<close>, \<open>StoreProps\<close>, \<open>PastProps\<close>, \<open>CommitEffect\<close>: questions
    about the past, whole lives of a store (\<open>store_op\<close>, \<open>reachable\<close>), and their properties.
  \<^item> \<open>Utf8\<close>, \<open>HeadReader\<close>, \<open>HeadReaderLaws\<close>, \<open>HeadReaderProps\<close>: \<open>_prefix_upper\<close> and \<open>_HeadRowReader\<close> with
    its two bounded caches, prefetches and streams.
  \<^item> \<open>CellMaps\<close>, \<open>CellMapLaws\<close>, \<open>CellMapProps\<close>: the mappings a store publishes (plain, overlay, lazy head).
  \<^item> \<open>Match\<close>, \<open>MatchLaws\<close>, \<open>MatchProps\<close>, \<open>RewriteProps\<close>, \<open>Migration\<close>: structural matching, region
    fingerprints, rewriting, and \<open>migrate_cell_history\<close>.
  \<^item> \<open>PrefixProofs\<close>: the fingerprints of an accepted prefix of the history and their proof file.
  \<^item> \<open>Relations\<close>, \<open>RelationLaws\<close>, \<open>RelationEdits\<close>, \<open>RelationProps\<close>, \<open>Lenses\<close>, \<open>LensProps\<close>: \<open>cell_protocols.py\<close>.
    A relation is spelled by a thread of chain Cells and incidences; edits act on it as on a list.
  \<^item> \<open>RelationCache\<close>, \<open>RelationCacheProps\<close>, \<open>BoundedReuse\<close>, \<open>ReuseProps\<close>, \<open>ReuseLives\<close>: the request-local
    reuse of relation walks of the same file, within its bounds and over the lives of the mappings whose
    \<open>id()\<close> it is keyed by (\<open>perform\<close> runs a client's history, \<open>plainly\<close> answers it by fresh walks).
  \<^item> \<open>RelationFrames\<close>: relations under commits that edit several at once (\<open>spelled\<close>, \<open>settled\<close>); what the
    protocols below stand on.
  \<^item> \<open>StateMachine\<close>, \<open>StateMachineLaws\<close>, \<open>StateMachineRun\<close>, \<open>StateMachineProps\<close>: \<open>cell_state_machine.py\<close>.
    \<open>machine_at\<close> relates a graph to a machine with its history; \<open>machine_act\<close> is what can happen to it.
  \<^item> \<open>Ownership\<close>, \<open>OwnershipLaws\<close>, \<open>OwnershipRun\<close>, \<open>OwnershipProps\<close>: \<open>cell_exclusive_ownership.py\<close>. The
    abstract specification is a ledger of claims (\<open>claim_acquire\<close>, \<open>claim_move\<close>); \<open>registry_at\<close> relates a
    graph to the ownerships its registry lists, \<open>keeps_ledger\<close> a store to the ledger.
  \<^item> \<open>Sequence\<close>: \<open>cell_sequence.py\<close>.

  \<^bold>\<open>What the lemmas show.\<close> Invariants: a reachable store always publishes the well-formed graph its
  history determines, and no commit, read or reopening changes the past. A commit is all or nothing in
  the graph and in the journal, whatever faults are injected. Functional exactness: commits, queries,
  streams, matches, rewrites and relation reads answer what an abstract definition says, on every
  branch. Equivalence: every cache, incremental digest and accelerated path agrees with the plain
  recomputation. Refinement: published mappings refine a partial map, relation edits refine list
  edits, every run of a registry of ownerships is a run of the ledger of claims. Protocols: a
  machine's history is a path of its declared transitions, an enabled transition can be taken, no
  resource has two live owners, and a free resource can be acquired. Errors are values: each operation that may raise returns a sum, and the theorems cover
  the failing branches. Locales state the interfaces: \<open>persistent_map\<close> (what a published mapping
  promises), \<open>cell_history\<close> (what a journal promises), \<open>accounting\<close> (the bounded dictionaries); each
  is interpreted on the definitions of the code.

  \<^bold>\<open>Bounds and termination.\<close> The code's traversal budgets are the fuel of the traversals, so the
  models stop where the code stops: running out is \<open>MatchBudgetExceeded\<close>, as there. Loops without
  a budget are structural recursion or have a measure (\<open>open_walk\<close>, where the unopened budget and
  then the stack decrease). Eviction loops take as fuel the number of entries, one per turn. Where
  a theorem promises a result it is proved that the given budget suffices. The protocols read with
  fixed budgets (100000, 256 and 64 chain Cells), which bound the runs in their theorems.

  \<^bold>\<open>Parameters.\<close> SHA-256, SHAKE-256 and BLAKE2b, \<open>sys.getsizeof\<close>, \<open>id()\<close>, \<open>repr\<close> of a row, the UUIDs drawn,
  the clock, what \<open>float\<close> reads from a text and \<open>repr\<close> writes for a float, injected faults and what
  guards, transforms and listeners return are arguments. A theorem about
  equal digests assumes that the hash does not collide on the strings named in it. A Python string
  is its UTF-8 encoding; \<open>Utf8\<close> relates the two where code points matter.

  \<^bold>\<open>Not modelled.\<close> Threads: operations run one after the other (the code holds a lock). SQLite is
  the set of its rows; crashes inside a SQLite transaction, backups, the interprocess owner fence,
  archived partitions (\<open>partition_archived_cells\<close>, which moves rows of the past to another database, and the
  identities it retires) and the PostgreSQL journal are left out, as are the HashTrieMap of the
  \<open>rpds\<close> package (a dictionary here) and warming reads. The interpreters of graph programs (\<open>cell_logic.py\<close>,
  \<open>cell_rules.py\<close>, \<open>cell_transactions.py\<close>), the other graph vocabularies and the applications above
  them (\<open>universal_application.py\<close>, \<open>unified_authority.py\<close>, the servers, the UI, agents, connectors, the
  cloud backend) are not part of this library: they are schemas of graph content or input and
  output over services that are not under \<open>src/\<close>.
\<close>

end
